(* ===== verification/Echo_Prelude.thy ===== *)
theory Echo_Prelude
  imports Main "HOL-Library.Word"
begin

text \<open>
  The prelude of the LibreEcho development: the machine types of the C sources, the generic
  lemmas on lists and words that several components share, and the two interfaces under which
  most components are verified:

  \<^item> \<open>machine\<close>: a deterministic state machine with an invariant (the contract of every daemon
    core: it is initialised, then driven by events);
  \<^item> \<open>codec\<close>: an encoder and a partial decoder with the round-trip law.
\<close>

section \<open>Machine types\<close>

type_synonym byte = "8 word"
type_synonym u16 = "16 word"
type_synonym u32 = "32 word"
type_synonym u64 = "64 word"
type_synonym bytes = "byte list"

text \<open>
  Facts that bound a model value (a length, a counter, an index) are collected in
  \<open>bounds\<close>; facts that say which fields an operation leaves alone are collected in \<open>frame\<close>.
\<close>

named_theorems bounds "bounds on lengths, counters and indices"
named_theorems frame "fields an operation leaves unchanged"

section \<open>Options and lists\<close>

lemma option_eqI: "(\<And>v. x = Some v \<longleftrightarrow> y = Some v) \<Longrightarrow> x = y"
  by (metis option.exhaust)

lemma map_fixed: "map f xs = xs \<Longrightarrow> x \<in> set xs \<Longrightarrow> f x = x"
  by (induction xs) auto

section \<open>The newest elements of a list\<close>

definition lastn :: "nat \<Rightarrow> 'a list \<Rightarrow> 'a list" where
  "lastn n xs = drop (length xs - n) xs"

lemma length_lastn [simp]: "length (lastn n xs) = min n (length xs)"
  by (simp add: lastn_def)

lemma lastn_Nil_iff [simp]: "lastn n xs = [] \<longleftrightarrow> n = 0 \<or> xs = []"
  by (cases xs) (auto simp: lastn_def)

lemma lastn_all [simp]: "length xs \<le> n \<Longrightarrow> lastn n xs = xs"
  by (simp add: lastn_def)

lemma lastn_append_lastn: "lastn n (lastn n xs @ ys) = lastn n (xs @ ys)"
  by (cases "length xs \<le> n") (simp_all add: lastn_def add.commute)

lemma lastn_snoc:
  assumes "length xs = n" and "0 < n"
  shows "lastn n (xs @ [x]) = tl xs @ [x]"
  using assms by (cases xs) (simp_all add: lastn_def)

lemma nth_lastn:
  "i < min n (length xs) \<Longrightarrow> lastn n xs ! i = xs ! (length xs - min n (length xs) + i)"
  by (cases "length xs \<le> n") (simp_all add: lastn_def)

section \<open>A bounded buffer in an array\<close>

text \<open>
  An array that is filled once and then overwritten from the front: \<open>next\<close> is the slot written
  next and \<open>count\<close> the number of slots in use.  It stands for the list of its newest elements.
\<close>

definition ring_ok_at :: "nat \<Rightarrow> 'a list \<Rightarrow> nat \<Rightarrow> nat \<Rightarrow> bool" where
  "ring_ok_at n xs next count \<longleftrightarrow> length xs = n \<and> 0 < n \<and> count \<le> n \<and> next < n \<and> (count < n \<longrightarrow> next = count)"

definition ring_list :: "'a list \<Rightarrow> nat \<Rightarrow> nat \<Rightarrow> 'a list" where
  "ring_list xs next count =
     (if count < length xs then take count xs else drop next xs @ take next xs)"

lemma ring_store:
  assumes "ring_ok_at n xs k count"
  shows "ring_ok_at n (xs[k := x]) ((k + 1) mod n) (if count < n then count + 1 else count)"
    and "ring_list (xs[k := x]) ((k + 1) mod n) (if count < n then count + 1 else count) =
      lastn n (ring_list xs k count @ [x])"
proof -
  have len: "length xs = n" "0 < n" "k < n" using assms by (simp_all add: ring_ok_at_def)
  show "ring_ok_at n (xs[k := x]) ((k + 1) mod n) (if count < n then count + 1 else count)"
    using assms by (auto simp: ring_ok_at_def mod_Suc)
  show "ring_list (xs[k := x]) ((k + 1) mod n) (if count < n then count + 1 else count) =
      lastn n (ring_list xs k count @ [x])"
  proof (cases "count < n")
    case True
    then have k: "k = count" using assms by (simp add: ring_ok_at_def)
    have "take (count + 1) (xs[count := x]) = take count xs @ [x]"
      using True len by (simp add: take_Suc_conv_app_nth)
    moreover have "count + 1 < n \<or> count + 1 = n" using True by linarith
    ultimately show ?thesis using True len k by (elim disjE) (auto simp: ring_list_def)
  next
    case False
    have full: "ring_list xs k count = drop k xs @ take k xs" using False len by (simp add: ring_list_def)
    have "lastn n ((drop k xs @ take k xs) @ [x]) = tl (drop k xs @ take k xs) @ [x]"
      using len by (intro lastn_snoc) simp_all
    also have "tl (drop k xs @ take k xs) = drop (k + 1) xs @ take k xs"
      using len by (simp add: tl_append drop_Suc flip: tl_drop split: list.split)
    finally show ?thesis
      using False len by (cases "k + 1 = n") (auto simp: ring_list_def full upd_conv_take_nth_drop)
  qed
qed

text \<open>The newest element sits just before \<open>next\<close>, and changing it there changes it in the list.\<close>

lemma ring_newest:
  assumes "ring_ok_at n xs k count" and "0 < count"
  defines "i \<equiv> if k \<noteq> 0 then k - 1 else n - 1"
  shows "ring_list (xs[i := x]) k count = butlast (ring_list xs k count) @ [x] \<and>
    last (ring_list xs k count) = xs ! i \<and> ring_list xs k count \<noteq> []"
proof -
  have len: "length xs = n" "0 < n" "k < n" "count \<le> n" using assms by (simp_all add: ring_ok_at_def)
  have end_at: "take m ys = take (m - 1) ys @ [ys ! (m - 1)]" if "0 < m" "m \<le> length ys" for m and ys :: "'a list"
    using that by (metis Suc_diff_1 Suc_le_eq diff_Suc_1 take_Suc_conv_app_nth)
  consider (part) "count < n" "k = count" | (wrap) "count = n" "k = 0" | (full) "count = n" "k \<noteq> 0"
    using assms unfolding ring_ok_at_def by linarith
  then show ?thesis
  proof cases
    case part
    then show ?thesis
      using assms(2) len end_at [of count xs] end_at [of count "xs[count - 1 := x]"]
      by (simp add: ring_list_def i_def)
  next
    case wrap
    then show ?thesis
      using len end_at [of n "xs[n - 1 := x]"]
      by (auto simp: ring_list_def i_def butlast_conv_take last_conv_nth)
  next
    case full
    then show ?thesis
      using len end_at [of k xs] end_at [of k "xs[k - 1 := x]"] by (simp add: ring_list_def i_def butlast_append)
  qed
qed

section \<open>Unsigned arithmetic that does not wrap\<close>

lemma unat_add_of_nat:
  fixes w :: "'a::len word"
  assumes "unat w + n < 2 ^ LENGTH('a)"
  shows "unat (w + of_nat n) = unat w + n"
proof -
  have "n < 2 ^ LENGTH('a)" using assms by linarith
  then have "unat (of_nat n :: 'a word) = n" by (simp add: unat_of_nat take_bit_nat_eq_self)
  then show ?thesis using assms by (simp add: unat_word_ariths)
qed

lemma unat_of_nat_small: "n < 2 ^ LENGTH('a::len) \<Longrightarrow> unat (of_nat n :: 'a word) = n"
  by (simp add: unat_of_nat take_bit_nat_eq_self)

lemma unat_below_max:
  fixes w :: "'a::len word"
  assumes "w \<noteq> - 1"
  shows "unat w + 1 < 2 ^ LENGTH('a)"
proof -
  have "unat w \<noteq> unat (- 1 :: 'a word)" using assms by (metis word_unat_eq_iff)
  moreover have "unat w < 2 ^ LENGTH('a)" by (rule unsigned_less)
  moreover have "unat (- 1 :: 'a word) = 2 ^ LENGTH('a) - 1"
    by (simp add: unsigned_minus_1_eq_mask mask_eq_exp_minus_1)
  ultimately show ?thesis by arith
qed

section \<open>Signed division of C\<close>

text \<open>C rounds towards zero; the library's division rounds down.\<close>

definition c_div :: "int \<Rightarrow> int \<Rightarrow> int" where
  "c_div a b = sgn a * sgn b * (\<bar>a\<bar> div \<bar>b\<bar>)"

definition c_mod :: "int \<Rightarrow> int \<Rightarrow> int" where
  "c_mod a b = a - c_div a b * b"

lemma c_div_nonneg [simp]: "0 \<le> a \<Longrightarrow> 0 < b \<Longrightarrow> c_div a b = a div b"
  by (cases "a = 0") (simp_all add: c_div_def sgn_if)

lemma c_mod_nonneg [simp]: "0 \<le> a \<Longrightarrow> 0 < b \<Longrightarrow> c_mod a b = a mod b"
  by (simp add: c_mod_def minus_div_mult_eq_mod)

section \<open>A deterministic machine and its invariant\<close>

text \<open>
  The interface of a component that is initialised and then driven by events.  \<open>inv\<close> is what
  the provider promises: it holds after initialisation and every event keeps it.  The client's
  fact is that it holds after every sequence of events.
\<close>

fun run :: "('s \<Rightarrow> 'e \<Rightarrow> 's) \<Rightarrow> 's \<Rightarrow> 'e list \<Rightarrow> 's" where
  "run step s [] = s"
| "run step s (e # es) = run step (step s e) es"

lemma run_append: "run step s (es @ fs) = run step (run step s es) fs"
  by (induction es arbitrary: s) simp_all

locale machine =
  fixes start :: "'s \<Rightarrow> bool"
    and step :: "'s \<Rightarrow> 'e \<Rightarrow> 's"
    and inv :: "'s \<Rightarrow> bool"
  assumes inv_start: "start s \<Longrightarrow> inv s"
    and inv_step: "inv s \<Longrightarrow> inv (step s e)"
begin

inductive reach :: "'s \<Rightarrow> bool" where
  reach_start: "start s \<Longrightarrow> reach s"
| reach_step: "reach s \<Longrightarrow> reach (step s e)"

lemma inv_run: "inv s \<Longrightarrow> inv (run step s es)"
  by (induction es arbitrary: s) (simp_all add: inv_step)

lemma inv_reachable: "reach s \<Longrightarrow> inv s"
  by (induction rule: reach.induct) (simp_all add: inv_start inv_step)

lemma inv_from_start: "start s \<Longrightarrow> inv (run step s es)"
  by (simp add: inv_start inv_run)

lemma reach_run: "reach s \<Longrightarrow> reach (run step s es)"
  by (induction es arbitrary: s) (simp_all add: reach_step)

end

section \<open>An encoder and its decoder\<close>

text \<open>
  \<open>encode\<close> is a total rendering of the values for which \<open>valid\<close> holds and \<open>decode\<close> a partial
  reading.  The provider promises the round trip; what the clients use is that distinct values
  have distinct encodings.
\<close>

locale codec =
  fixes valid :: "'v \<Rightarrow> bool"
    and encode :: "'v \<Rightarrow> 'm"
    and decode :: "'m \<Rightarrow> 'v option"
  assumes decode_encode: "valid v \<Longrightarrow> decode (encode v) = Some v"
begin

lemma encode_inj: "valid v \<Longrightarrow> valid w \<Longrightarrow> encode v = encode w \<Longrightarrow> v = w"
  using decode_encode by (metis option.inject)

lemma encode_inj_on: "inj_on encode (Collect valid)"
  by (rule inj_onI) (auto intro: encode_inj)

end

end
