(* ===== verification/Live_Ring.thy ===== *)
theory Live_Ring
  imports Echo_Prelude
begin

text \<open>
  The sample-indexed preroll ring (\<^verbatim>\<open>src/adapter/live_ring.c\<close>, \<^verbatim>\<open>live_ring.h\<close>).  The sample store
  is a map from slot numbers to 16-bit samples; every access of the code is taken modulo the
  capacity, so only slots below it are ever read or written.  Sample numbers are 64-bit unsigned
  and wrap as in C.  A pointer to the ring is the ring itself, so the NULL checks on it have no
  counterpart; \<open>samples\<close> with its \<open>count\<close> is a list, and the output buffer of a read is the list
  returned.
\<close>

section \<open>State and operations\<close>

type_synonym sample = "16 word"

definition LE_LIVE_RING_SECONDS :: nat where "LE_LIVE_RING_SECONDS = 3"
definition LE_LIVE_RING_RATE :: nat where "LE_LIVE_RING_RATE = 16000"

definition LE_LIVE_RING_CAPACITY :: nat where
  "LE_LIVE_RING_CAPACITY = LE_LIVE_RING_RATE * LE_LIVE_RING_SECONDS"

record live_ring =
  lr_samples :: "nat \<Rightarrow> sample"
  lr_first_sample :: u64
  lr_count :: nat
  lr_primed :: bool

definition le_live_ring_reset :: "live_ring \<Rightarrow> live_ring" where
  "le_live_ring_reset r = r\<lparr>lr_first_sample := 0, lr_count := 0, lr_primed := False\<rparr>"

definition ring_slot :: "u64 \<Rightarrow> nat" where
  "ring_slot n = unat n mod LE_LIVE_RING_CAPACITY"

text \<open>One round of the append loop: evict the oldest sample when full, then store.\<close>

definition ring_push :: "live_ring \<Rightarrow> sample \<Rightarrow> live_ring" where
  "ring_push r x =
     (let r1 = (if lr_count r = LE_LIVE_RING_CAPACITY
                then r\<lparr>lr_first_sample := lr_first_sample r + 1, lr_count := lr_count r - 1\<rparr>
                else r)
      in r1\<lparr>lr_samples := (lr_samples r1)
                 (ring_slot (lr_first_sample r1 + of_nat (lr_count r1)) := x),
            lr_count := lr_count r1 + 1\<rparr>)"

fun ring_push_all :: "live_ring \<Rightarrow> sample list \<Rightarrow> live_ring" where
  "ring_push_all r [] = r"
| "ring_push_all r (x # xs) = ring_push_all (ring_push r x) xs"

text \<open>\<open>None\<close> is the error return \<open>-1\<close>, which leaves the ring as it was.\<close>

definition le_live_ring_append :: "live_ring \<Rightarrow> u64 \<Rightarrow> sample list \<Rightarrow> live_ring option" where
  "le_live_ring_append r first_sample samples =
     (if length samples = 0 \<or> length samples > LE_LIVE_RING_CAPACITY then None
      else
        let r1 = (if lr_primed r \<and> first_sample \<noteq> lr_first_sample r + of_nat (lr_count r)
                  then le_live_ring_reset r else r);
            r2 = (if \<not> lr_primed r1
                  then r1\<lparr>lr_first_sample := first_sample, lr_count := 0, lr_primed := True\<rparr>
                  else r1)
        in Some (ring_push_all r2 samples))"

definition le_live_ring_begin :: "live_ring \<Rightarrow> u64" where
  "le_live_ring_begin r = (if lr_count r \<noteq> 0 then lr_first_sample r else 0)"

definition le_live_ring_end :: "live_ring \<Rightarrow> u64" where
  "le_live_ring_end r =
     (if lr_count r \<noteq> 0 then lr_first_sample r + of_nat (lr_count r) else 0)"

definition le_live_ring_start_for_wake :: "live_ring \<Rightarrow> u64 \<Rightarrow> u64 \<Rightarrow> u64" where
  "le_live_ring_start_for_wake r detection_sample preroll_samples =
     (if lr_count r = 0 then 0
      else
        let begin' = lr_first_sample r;
            end' = lr_first_sample r + of_nat (lr_count r);
            start = (if detection_sample > preroll_samples
                     then detection_sample - preroll_samples else 0);
            start' = (if start < begin' then begin' else start)
        in if start' \<ge> end' then 0 else start')"

definition le_live_ring_read :: "live_ring \<Rightarrow> u64 \<Rightarrow> nat \<Rightarrow> sample list" where
  "le_live_ring_read r first_sample count =
     (if count = 0 \<or> lr_count r = 0 then []
      else
        let begin' = lr_first_sample r;
            end' = lr_first_sample r + of_nat (lr_count r)
        in if first_sample < begin' then []
           else if first_sample \<ge> end' then []
           else
             let available = unat (end' - first_sample);
                 n = (if count > available then available else count)
             in map (\<lambda>i. lr_samples r (ring_slot (first_sample + of_nat i))) [0..<n])"


section \<open>The window the ring stands for\<close>

text \<open>
  Abstractly the ring is a window: the number of its oldest sample and the samples from there
  on.  \<open>ring_ok\<close> is the representation invariant; its last conjunct says the sample numbers of
  the window do not pass \<open>2 ^ 64\<close>, which at 16 kHz takes 36 million years of capture.
\<close>

definition ring_ok :: "live_ring \<Rightarrow> bool" where
  "ring_ok r \<longleftrightarrow> lr_count r \<le> LE_LIVE_RING_CAPACITY \<and> (lr_count r \<noteq> 0 \<longrightarrow> lr_primed r) \<and>
     unat (lr_first_sample r) + lr_count r < 2 ^ 64"

definition ring_window :: "live_ring \<Rightarrow> sample list" where
  "ring_window r =
     map (\<lambda>i. lr_samples r ((unat (lr_first_sample r) + i) mod LE_LIVE_RING_CAPACITY))
         [0..<lr_count r]"

definition ring_next :: "live_ring \<Rightarrow> nat" where
  "ring_next r = unat (lr_first_sample r) + lr_count r"

lemma capacity_value: "LE_LIVE_RING_CAPACITY = 48000"
  by (simp add: LE_LIVE_RING_CAPACITY_def LE_LIVE_RING_RATE_def LE_LIVE_RING_SECONDS_def)

lemma capacity_pos [simp]: "0 < LE_LIVE_RING_CAPACITY"
  by (simp add: capacity_value)

lemma length_ring_window [simp]: "length (ring_window r) = lr_count r"
  by (simp add: ring_window_def)

lemma nth_ring_window:
  "i < lr_count r \<Longrightarrow>
   ring_window r ! i = lr_samples r ((unat (lr_first_sample r) + i) mod LE_LIVE_RING_CAPACITY)"
  by (simp add: ring_window_def)

lemma ring_slot_add:
  "unat w + n < 2 ^ 64 \<Longrightarrow> ring_slot (w + of_nat n) = (unat w + n) mod LE_LIVE_RING_CAPACITY"
  using unat_add_of_nat [of w n] by (simp add: ring_slot_def)

text \<open>Two numbers less than a capacity apart share a slot only if they are equal.\<close>

lemma slot_inj_le:
  fixes a i j c :: nat
  assumes "(a + i) mod c = (a + j) mod c" and "i \<le> j" and "j < c"
  shows "i = j"
proof -
  have "c dvd (a + j) - (a + i)"
    using assms mod_eq_dvd_iff_nat [of "a + i" "a + j" c] by simp
  then have "c dvd j - i" by simp
  then have "j - i = 0" using assms(3) by (auto dest: dvd_imp_le)
  then show ?thesis using assms(2) by simp
qed

lemma slot_inj:
  fixes a i j c :: nat
  shows "(a + i) mod c = (a + j) mod c \<Longrightarrow> i < c \<Longrightarrow> j < c \<Longrightarrow> i = j"
  by (metis slot_inj_le nle_le)

text \<open>Storing behind the window appends to it, as long as there is a free slot.\<close>

lemma window_store:
  assumes "lr_count r < LE_LIVE_RING_CAPACITY"
    and "k = (unat (lr_first_sample r) + lr_count r) mod LE_LIVE_RING_CAPACITY"
  shows "ring_window (r\<lparr>lr_samples := (lr_samples r)(k := x), lr_count := lr_count r + 1\<rparr>)
         = ring_window r @ [x]"
proof (rule nth_equalityI)
  fix i assume "i < length (ring_window
    (r\<lparr>lr_samples := (lr_samples r)(k := x), lr_count := lr_count r + 1\<rparr>))"
  then have i: "i < lr_count r + 1" by simp
  show "ring_window (r\<lparr>lr_samples := (lr_samples r)(k := x), lr_count := lr_count r + 1\<rparr>) ! i
        = (ring_window r @ [x]) ! i"
  proof (cases "i = lr_count r")
    case True
    then show ?thesis using assms(2) by (simp add: nth_ring_window nth_append)
  next
    case False
    then have lt: "i < lr_count r" using i by simp
    then have "(unat (lr_first_sample r) + i) mod LE_LIVE_RING_CAPACITY \<noteq> k"
      using slot_inj [of "unat (lr_first_sample r)" i LE_LIVE_RING_CAPACITY "lr_count r"]
        assms by auto
    then show ?thesis using lt by (simp add: nth_ring_window nth_append)
  qed
qed simp

text \<open>Dropping the oldest sample takes the tail of the window.\<close>

lemma window_evict:
  assumes "lr_count r \<noteq> 0" and "unat (lr_first_sample r) + lr_count r < 2 ^ 64"
  shows "ring_window (r\<lparr>lr_first_sample := lr_first_sample r + 1, lr_count := lr_count r - 1\<rparr>)
         = tl (ring_window r)"
proof -
  have "unat (lr_first_sample r + of_nat 1) = unat (lr_first_sample r) + 1"
    using assms by (intro unat_add_of_nat) simp
  then have u: "unat (lr_first_sample r + 1) = unat (lr_first_sample r) + 1" by simp
  show ?thesis
    by (rule nth_equalityI) (simp_all add: nth_ring_window nth_tl u)
qed

lemma ring_push_window:
  assumes ok: "ring_ok r" and room: "ring_next r + 1 < 2 ^ 64"
  shows "ring_window (ring_push r x) = lastn LE_LIVE_RING_CAPACITY (ring_window r @ [x])"
    and "ring_next (ring_push r x) = ring_next r + 1"
proof -
  define r1 where "r1 = (if lr_count r = LE_LIVE_RING_CAPACITY
    then r\<lparr>lr_first_sample := lr_first_sample r + 1, lr_count := lr_count r - 1\<rparr> else r)"
  have u: "lr_count r = LE_LIVE_RING_CAPACITY \<Longrightarrow>
      unat (lr_first_sample r + 1) = unat (lr_first_sample r) + 1"
    using room unat_add_of_nat [of "lr_first_sample r" 1] by (simp add: ring_next_def)
  have next1: "ring_next r1 = ring_next r"
    using u by (auto simp: r1_def ring_next_def Suc_le_eq)
  have lt: "lr_count r1 < LE_LIVE_RING_CAPACITY"
    using ok by (auto simp: r1_def ring_ok_def)
  have win1: "ring_window r1 =
      (if lr_count r = LE_LIVE_RING_CAPACITY then tl (ring_window r) else ring_window r)"
    using ok window_evict [of r] by (auto simp: r1_def ring_ok_def)
  have slot: "ring_slot (lr_first_sample r1 + of_nat (lr_count r1))
      = (unat (lr_first_sample r1) + lr_count r1) mod LE_LIVE_RING_CAPACITY"
    using next1 room by (intro ring_slot_add) (simp add: ring_next_def)
  have push: "ring_push r x = r1\<lparr>lr_samples := (lr_samples r1)
      (ring_slot (lr_first_sample r1 + of_nat (lr_count r1)) := x), lr_count := lr_count r1 + 1\<rparr>"
    by (simp add: ring_push_def r1_def Let_def)
  have "ring_window (ring_push r x) = ring_window r1 @ [x]"
    unfolding push by (rule window_store [OF lt slot])
  also have "\<dots> = lastn LE_LIVE_RING_CAPACITY (ring_window r @ [x])"
  proof (cases "lr_count r = LE_LIVE_RING_CAPACITY")
    case True
    then show ?thesis by (simp add: win1 lastn_snoc)
  next
    case False
    then show ?thesis using ok by (simp add: win1 ring_ok_def)
  qed
  finally show "ring_window (ring_push r x) = lastn LE_LIVE_RING_CAPACITY (ring_window r @ [x])" .
  show "ring_next (ring_push r x) = ring_next r + 1"
    using next1 unfolding push by (simp add: ring_next_def)
qed

lemma ring_push_primed [frame]: "lr_primed (ring_push r x) = lr_primed r"
  by (simp add: ring_push_def Let_def)

lemma ring_push_count: "lr_count r \<le> LE_LIVE_RING_CAPACITY \<Longrightarrow>
    0 < lr_count (ring_push r x) \<and> lr_count (ring_push r x) \<le> LE_LIVE_RING_CAPACITY"
  by (simp add: ring_push_def Let_def)

lemma ring_push_ok:
  assumes "ring_ok r" and "lr_primed r" and "ring_next r + 1 < 2 ^ 64"
  shows "ring_ok (ring_push r x)"
  using ring_push_window(2) [OF assms(1,3)] ring_push_count [of r x] ring_push_primed [of r x] assms
  by (simp add: ring_ok_def ring_next_def)

lemma ring_push_all_window:
  assumes "ring_ok r" and "lr_primed r" and "ring_next r + length xs < 2 ^ 64"
  shows "ring_window (ring_push_all r xs) = lastn LE_LIVE_RING_CAPACITY (ring_window r @ xs) \<and>
     ring_next (ring_push_all r xs) = ring_next r + length xs \<and>
     ring_ok (ring_push_all r xs) \<and> lr_primed (ring_push_all r xs)"
  using assms
proof (induction xs arbitrary: r)
  case Nil
  then show ?case by (simp add: ring_ok_def)
next
  case (Cons x xs)
  have room: "ring_next r + 1 < 2 ^ 64" using Cons.prems by simp
  have "ring_ok (ring_push r x)" using Cons.prems room by (intro ring_push_ok)
  moreover have "ring_next (ring_push r x) + length xs < 2 ^ 64"
    using ring_push_window(2) [OF Cons.prems(1) room] Cons.prems by simp
  ultimately show ?case
    using Cons.IH [of "ring_push r x"] Cons.prems(2) ring_push_window [OF Cons.prems(1) room]
    by (simp add: ring_push_primed lastn_append_lastn)
qed

text \<open>What an append starts from: the ring itself when the frame continues it, else empty.\<close>

definition ring_continues :: "live_ring \<Rightarrow> u64 \<Rightarrow> bool" where
  "ring_continues r f \<longleftrightarrow> lr_primed r \<and> f = lr_first_sample r + of_nat (lr_count r)"

lemma ring_append_eq:
  assumes "xs \<noteq> []" and "length xs \<le> LE_LIVE_RING_CAPACITY"
  shows "le_live_ring_append r f xs = Some (ring_push_all
    (if ring_continues r f then r
     else r\<lparr>lr_first_sample := f, lr_count := 0, lr_primed := True\<rparr>) xs)"
  using assms
  by (auto simp: le_live_ring_append_def ring_continues_def le_live_ring_reset_def Let_def)


lemma ring_restart_ok [simp]:
  "ring_ok (r\<lparr>lr_first_sample := f, lr_count := 0, lr_primed := b\<rparr>)"
  using unsigned_less [of f] by (simp add: ring_ok_def)

lemma ring_restart_window [simp]:
  "ring_window (r\<lparr>lr_first_sample := f, lr_count := 0, lr_primed := b\<rparr>) = []"
  by (simp add: ring_window_def)

lemma ring_continues_next:
  assumes "ring_ok r" and "ring_continues r f"
  shows "ring_next r = unat f"
  using assms unat_add_of_nat [of "lr_first_sample r" "lr_count r"]
  by (simp add: ring_continues_def ring_next_def ring_ok_def)

lemma ring_append_window:
  assumes ok: "ring_ok r" and xs: "xs \<noteq> []" "length xs \<le> LE_LIVE_RING_CAPACITY"
    and room: "unat f + length xs < 2 ^ 64"
    and r': "le_live_ring_append r f xs = Some r'"
  shows "ring_window r' = (if ring_continues r f
           then lastn LE_LIVE_RING_CAPACITY (ring_window r @ xs) else xs)"
    and "ring_next r' = unat f + length xs" and "ring_ok r'" and "lr_primed r'"
proof -
  define r1 where "r1 = (if ring_continues r f then r
     else r\<lparr>lr_first_sample := f, lr_count := 0, lr_primed := True\<rparr>)"
  have r': "r' = ring_push_all r1 xs"
    using ring_append_eq [OF xs, of r f] r' by (simp add: r1_def)
  have ok1: "ring_ok r1" using ok by (simp add: r1_def)
  have pr1: "lr_primed r1" by (simp add: r1_def ring_continues_def)
  have next1: "ring_next r1 = unat f"
    using ring_continues_next [OF ok] by (simp add: r1_def ring_next_def)
  have win1: "ring_window r1 = (if ring_continues r f then ring_window r else [])"
    by (simp add: r1_def)
  have all: "ring_window r' = lastn LE_LIVE_RING_CAPACITY (ring_window r1 @ xs) \<and>
     ring_next r' = ring_next r1 + length xs \<and> ring_ok r' \<and> lr_primed r'"
    unfolding r' using ok1 pr1 next1 room by (intro ring_push_all_window) simp_all
  then show "ring_window r' = (if ring_continues r f
           then lastn LE_LIVE_RING_CAPACITY (ring_window r @ xs) else xs)"
    using xs(2) by (simp add: win1)
  show "ring_next r' = unat f + length xs" "ring_ok r'" "lr_primed r'"
    using all next1 by simp_all
qed

lemma ring_append_None:
  "le_live_ring_append r f xs = None \<longleftrightarrow> xs = [] \<or> LE_LIVE_RING_CAPACITY < length xs"
  by (simp add: le_live_ring_append_def Let_def)

section \<open>The interface the Live session uses\<close>

text \<open>
  What a client of the ring relies on: a window of samples numbered from \<open>first\<close>, of which
  \<open>read\<close> returns a slice, and an exclusive upper bound \<open>last\<close> of the numbers it holds.
\<close>

locale sample_source =
  fixes ok :: "'r \<Rightarrow> bool"
    and window :: "'r \<Rightarrow> sample list"
    and first :: "'r \<Rightarrow> nat"
    and last :: "'r \<Rightarrow> u64"
    and read :: "'r \<Rightarrow> u64 \<Rightarrow> nat \<Rightarrow> sample list"
  assumes last_eq: "ok r \<Longrightarrow> window r \<noteq> [] \<Longrightarrow> unat (last r) = first r + length (window r)"
    and last_empty: "ok r \<Longrightarrow> window r = [] \<Longrightarrow> last r = 0"
    and read_slice: "ok r \<Longrightarrow> first r \<le> unat n \<Longrightarrow> n < last r \<Longrightarrow>
       read r n c = take c (drop (unat n - first r) (window r))"
    and read_outside: "ok r \<Longrightarrow> unat n < first r \<or> last r \<le> n \<Longrightarrow> read r n c = []"
begin

lemma window_nonempty: "ok r \<Longrightarrow> n < last r \<Longrightarrow> window r \<noteq> []"
  using last_empty by (auto simp: word_less_nat_alt)

lemma read_length:
  assumes "ok r" and "first r \<le> unat n" and "n < last r"
  shows "length (read r n c) = min c (unat (last r) - unat n)"
  using read_slice [OF assms, of c] last_eq [OF assms(1) window_nonempty [OF assms(1,3)]] assms(2)
  by simp

lemma read_progress:
  "ok r \<Longrightarrow> first r \<le> unat n \<Longrightarrow> n < last r \<Longrightarrow> 0 < c \<Longrightarrow> read r n c \<noteq> []"
  using read_length [of r n c] by (auto simp: word_less_nat_alt)

lemma read_nth:
  assumes "ok r" and "first r \<le> unat n" and "i < length (read r n c)"
  shows "read r n c ! i = window r ! (unat n - first r + i)"
proof -
  have n: "n < last r" using read_outside [OF assms(1), of n c] assms(3) by (cases "n < last r") (auto simp: not_less)
  then have "read r n c = take c (drop (unat n - first r) (window r))"
    by (intro read_slice assms)
  moreover have "unat n - first r \<le> length (window r)"
    using calculation assms(3) by auto
  ultimately show ?thesis using assms(3) by simp
qed

end

abbreviation ring_first :: "live_ring \<Rightarrow> nat" where
  "ring_first r \<equiv> unat (lr_first_sample r)"

lemma ring_end_nat:
  assumes "ring_ok r" and "lr_count r \<noteq> 0"
  shows "unat (le_live_ring_end r) = ring_next r"
  using assms unat_add_of_nat [of "lr_first_sample r" "lr_count r"]
  by (simp add: le_live_ring_end_def ring_next_def ring_ok_def)

lemma ring_read_slice:
  assumes ok: "ring_ok r" and lo: "ring_first r \<le> unat n" and hi: "n < le_live_ring_end r"
  shows "le_live_ring_read r n c = take c (drop (unat n - ring_first r) (ring_window r))"
proof -
  have cnt: "lr_count r \<noteq> 0" using hi by (auto simp: le_live_ring_end_def split: if_splits)
  have e: "unat (lr_first_sample r + of_nat (lr_count r)) = ring_next r"
    using ring_end_nat [OF ok cnt] cnt by (simp add: le_live_ring_end_def)
  have lt: "unat n < ring_next r"
    using hi ring_end_nat [OF ok cnt] by (simp add: word_less_nat_alt)
  have sub: "unat (lr_first_sample r + of_nat (lr_count r) - n) = ring_next r - unat n"
    using lt e by (subst unat_sub) (simp_all add: word_le_nat_alt)
  have slot: "ring_slot (n + of_nat i) = (unat n + i) mod LE_LIVE_RING_CAPACITY"
    if "i < ring_next r - unat n" for i
    using that ok by (intro ring_slot_add) (auto simp: ring_next_def ring_ok_def)
  let ?m = "min c (ring_next r - unat n)"
  have len: "length (drop (unat n - ring_first r) (ring_window r)) = ring_next r - unat n"
    using lo by (simp add: ring_next_def)
  have "le_live_ring_read r n c = map (\<lambda>i. lr_samples r (ring_slot (n + of_nat i))) [0..<?m]"
    using cnt lt lo e sub
    by (simp add: le_live_ring_read_def Let_def word_less_nat_alt word_le_nat_alt min_def)
  also have "\<dots> = take c (drop (unat n - ring_first r) (ring_window r))"
    using lo len
    by (intro nth_equalityI) (auto simp: nth_ring_window slot ring_next_def)
  finally show ?thesis .
qed

lemma ring_read_outside:
  assumes "unat n < ring_first r \<or> le_live_ring_end r \<le> n"
  shows "le_live_ring_read r n c = []"
  using assms
  by (auto simp: le_live_ring_read_def le_live_ring_end_def Let_def word_less_nat_alt word_le_nat_alt)

interpretation lr: sample_source ring_ok ring_window ring_first le_live_ring_end le_live_ring_read
proof unfold_locales
  fix r assume "ring_ok r" and "ring_window r \<noteq> []"
  then show "unat (le_live_ring_end r) = ring_first r + length (ring_window r)"
    using ring_end_nat [of r] by (simp add: ring_next_def flip: length_0_conv)
next
  fix r assume "ring_window r = []"
  then show "le_live_ring_end r = 0"
    by (simp add: le_live_ring_end_def flip: length_0_conv)
qed (simp_all add: ring_read_slice ring_read_outside)


section \<open>What the ring promises\<close>

text \<open>
  An accepted frame leaves the ring holding the newest samples up to its capacity: those of
  the old window and the frame when the frame continues the numbering, the frame alone when it
  does not; and the window ends where the frame ends.
\<close>

theorem live_ring_append_keeps_newest:
  assumes "ring_ok r" and "xs \<noteq> []" and "length xs \<le> LE_LIVE_RING_CAPACITY"
    and "unat f + length xs < 2 ^ 64"
  shows "\<exists>r'. le_live_ring_append r f xs = Some r' \<and> ring_ok r' \<and>
     ring_window r' = (if lr_primed r \<and> f = lr_first_sample r + of_nat (lr_count r)
        then lastn LE_LIVE_RING_CAPACITY (ring_window r @ xs) else xs) \<and>
     unat (le_live_ring_end r') = unat f + length xs \<and>
     unat (le_live_ring_begin r') + length (ring_window r') = unat (le_live_ring_end r')"
proof -
  obtain r' where r': "le_live_ring_append r f xs = Some r'"
    using ring_append_eq [OF assms(2,3), of r f] by blast
  note w = ring_append_window [OF assms r']
  have "ring_window r' \<noteq> []" using w(1) assms(2) capacity_pos by (auto split: if_splits)
  then have cnt: "lr_count r' \<noteq> 0" by (simp flip: length_ring_window)
  have "unat (le_live_ring_end r') = unat f + length xs"
    using ring_end_nat [OF w(3) cnt] w(2) by simp
  moreover have "unat (le_live_ring_begin r') + lr_count r' = ring_next r'"
    using cnt by (simp add: le_live_ring_begin_def ring_next_def)
  ultimately show ?thesis using r' w by (simp add: ring_continues_def)
qed

definition ring_empty :: live_ring where
  "ring_empty = \<lparr>lr_samples = (\<lambda>_. 0), lr_first_sample = 0, lr_count = 0, lr_primed = False\<rparr>"

lemma ring_empty_ok: "ring_ok ring_empty"
  by (simp add: ring_ok_def ring_empty_def)

theorem live_ring_append_keeps_newest_witness:
  "\<exists>r'. le_live_ring_append ring_empty 100 [7, 8, 9] = Some r' \<and>
     ring_window r' = [7, 8, 9] \<and> unat (le_live_ring_end r') = 103"
  using live_ring_append_keeps_newest [of ring_empty "[7, 8, 9]" 100] ring_empty_ok
  by (auto simp: capacity_value ring_empty_def)

text \<open>
  A read that starts inside the window returns exactly the samples with the numbers asked
  for, as many as the window has; a read that starts outside it returns nothing.
\<close>

theorem live_ring_read_exact:
  assumes "ring_ok r"
  shows "le_live_ring_read r n c =
     (if ring_first r \<le> unat n \<and> n < le_live_ring_end r
      then take c (drop (unat n - ring_first r) (ring_window r)) else [])"
  using assms lr.read_slice lr.read_outside by (auto simp: not_le not_less)

theorem live_ring_read_exact_witness:
  "\<exists>r'. le_live_ring_append ring_empty 100 [7, 8, 9] = Some r' \<and>
     le_live_ring_read r' 101 5 = [8, 9] \<and> le_live_ring_read r' 99 5 = []"
proof -
  define r' where "r' = ring_push_all (ring_empty\<lparr>lr_first_sample := 100, lr_primed := True\<rparr>) [7, 8, 9]"
  have r': "le_live_ring_append ring_empty 100 [7, 8, 9] = Some r'"
    by (simp add: le_live_ring_append_def capacity_value r'_def ring_empty_def)
  note w = ring_append_window [OF ring_empty_ok _ _ _ r', simplified]
  have win: "ring_window r' = [7, 8, 9]" and ok: "ring_ok r'" and nx: "ring_next r' = 103"
    using w by (simp_all add: capacity_value ring_empty_def ring_continues_def)
  have cnt: "lr_count r' = 3" using length_ring_window [of r'] win by simp
  have fst: "ring_first r' = 100" using nx cnt by (simp add: ring_next_def)
  have e: "unat (le_live_ring_end r') = 103" using ring_end_nat [OF ok] cnt nx by simp
  show ?thesis
    using r' live_ring_read_exact [OF ok, of 101 5] live_ring_read_exact [OF ok, of 99 5]
    by (simp add: win fst e word_less_nat_alt)
qed

text \<open>
  The sample a wake starts from lies in the window and is the wake point less the preroll,
  clamped to the oldest sample held; it is 0 exactly when the ring holds nothing from there on
  (or the window starts at sample 0 itself).
\<close>

theorem live_ring_wake_start_in_window:
  assumes "ring_ok r" and "lr_count r \<noteq> 0"
  shows "unat (le_live_ring_start_for_wake r d p) =
     (let s = max (unat d - unat p) (ring_first r) in if s < ring_next r then s else 0)"
proof -
  have e: "unat (lr_first_sample r + of_nat (lr_count r)) = ring_next r"
    using ring_end_nat [OF assms] assms(2) by (simp add: le_live_ring_end_def)
  have s: "unat (if d > p then d - p else 0) = unat d - unat p"
    by (auto simp: word_less_nat_alt word_le_nat_alt unat_sub)
  define st where "st = (if d > p then d - p else 0)"
  show ?thesis
    using assms(2) e s
    unfolding le_live_ring_start_for_wake_def Let_def st_def [symmetric]
    by (auto simp: word_less_nat_alt word_le_nat_alt max_def)
qed

theorem live_ring_wake_start_in_window_witness:
  "let r = ring_empty\<lparr>lr_first_sample := 100, lr_count := 50, lr_primed := True\<rparr> in
     unat (le_live_ring_start_for_wake r 120 30) = 100"
proof -
  let ?r = "ring_empty\<lparr>lr_first_sample := 100, lr_count := 50, lr_primed := True\<rparr>"
  have "ring_ok ?r" by (simp add: ring_ok_def ring_empty_def capacity_value)
  then show ?thesis
    using live_ring_wake_start_in_window [of ?r 120 30] by (simp add: ring_next_def max_def)
qed

end
