(* ===== verification/Live_B64.thy ===== *)
theory Live_B64
  imports Echo_Prelude
begin

text \<open>
  Base64 for the WebSocket transport (\<^verbatim>\<open>src/adapter/live_b64.c\<close>).  Binary data is a list of bytes and
  a C string the list of its characters before the terminating NUL.  Both functions return the
  number of elements written and write them to a caller's buffer; the model returns the written
  list, whose length is that number, so the failure return 0 is the empty list.
\<close>

section \<open>The codec\<close>

definition alphabet :: string where
  "alphabet = ''ABCDEFGHIJKLMNOPQRSTUVWXYZabcdefghijklmnopqrstuvwxyz0123456789+/''"

abbreviation ord :: "char \<Rightarrow> nat" where
  "ord \<equiv> of_char"

text \<open>\<open>None\<close> stands for -1.\<close>

definition value_of :: "char \<Rightarrow> nat option" where
  "value_of c =
     (if ord c \<ge> ord (CHR ''A'') \<and> ord c \<le> ord (CHR ''Z'') then Some (ord c - ord (CHR ''A''))
      else if ord c \<ge> ord (CHR ''a'') \<and> ord c \<le> ord (CHR ''z'')
        then Some (ord c - ord (CHR ''a'') + 26)
      else if ord c \<ge> ord (CHR ''0'') \<and> ord c \<le> ord (CHR ''9'')
        then Some (ord c - ord (CHR ''0'') + 52)
      else if c = CHR ''+'' \<or> c = CHR ''-'' then Some 62
      else if c = CHR ''/'' \<or> c = CHR ''_'' then Some 63
      else None)"

definition le_b64_encoded_size :: "nat \<Rightarrow> nat" where
  "le_b64_encoded_size count = (count + 2) div 3 * 4"

text \<open>The 24-bit group of three input bytes and its four six-bit digits.\<close>

definition b64_group :: "byte \<Rightarrow> byte \<Rightarrow> byte \<Rightarrow> u32" where
  "b64_group a b c = or (push_bit 16 (ucast a)) (or (push_bit 8 (ucast b)) (ucast c))"

definition b64_digit :: "u32 \<Rightarrow> nat \<Rightarrow> char" where
  "b64_digit grp shift = alphabet ! unat (and (drop_bit shift grp) 0x3f)"

fun b64_encode_loop :: "bytes \<Rightarrow> string" where
  "b64_encode_loop (a # b # c # rest) =
     (let grp = b64_group a b c
      in b64_digit grp 18 # b64_digit grp 12 # b64_digit grp 6 # b64_digit grp 0 #
         b64_encode_loop rest)"
| "b64_encode_loop [a, b] =
     (let grp = b64_group a b 0
      in [b64_digit grp 18, b64_digit grp 12, b64_digit grp 6, CHR ''=''])"
| "b64_encode_loop [a] =
     (let grp = b64_group a 0 0
      in [b64_digit grp 18, b64_digit grp 12, CHR ''='', CHR ''=''])"
| "b64_encode_loop [] = []"

definition le_b64_encode :: "bytes \<Rightarrow> nat \<Rightarrow> string" where
  "le_b64_encode input out_size =
     (if out_size < le_b64_encoded_size (length input) + 1 then [] else b64_encode_loop input)"

definition b64_space :: "char \<Rightarrow> bool" where
  "b64_space c \<longleftrightarrow> c = CHR 0x0A \<or> c = CHR 0x0D \<or> c = CHR '' '' \<or> c = CHR 0x09"

text \<open>
  The decoding loop: the accumulator, the bits it holds that are not yet written, what has been
  written.  \<open>None\<close> is the early return 0.
\<close>

fun b64_decode_loop :: "nat \<Rightarrow> u32 \<Rightarrow> nat \<Rightarrow> bytes \<Rightarrow> string \<Rightarrow> (nat \<times> bytes) option" where
  "b64_decode_loop out_size acc bits out [] = Some (bits, out)"
| "b64_decode_loop out_size acc bits out (c # s) =
     (if c = CHR ''='' then Some (bits, out)
      else if b64_space c then b64_decode_loop out_size acc bits out s
      else
        case value_of c of
          None \<Rightarrow> None
        | Some v \<Rightarrow>
            let acc' = or (push_bit 6 acc) (of_nat v); bits' = bits + 6
            in if bits' \<ge> 8
               then let bits'' = bits' - 8
                    in if length out \<ge> out_size then None
                       else b64_decode_loop out_size acc' bits''
                              (out @ [ucast (and (drop_bit bits'' acc') 0xff)]) s
               else b64_decode_loop out_size acc' bits' out s)"

definition le_b64_decode :: "string \<Rightarrow> nat \<Rightarrow> bytes" where
  "le_b64_decode input out_size =
     (case b64_decode_loop out_size 0 0 [] input of
        None \<Rightarrow> []
      | Some (bits, out) \<Rightarrow> (if bits \<ge> 6 then [] else out))"

section \<open>Digits\<close>

lemma length_alphabet: "length alphabet = 64"
  by (simp add: alphabet_def)

lemma alphabet_values_map: "map value_of alphabet = map Some [0..<64]"
  by (simp add: alphabet_def value_of_def upt_conv_Cons)

lemma alphabet_values: "n < 64 \<Longrightarrow> value_of (alphabet ! n) = Some n"
  using arg_cong [OF alphabet_values_map, of "\<lambda>xs. xs ! n"] by (simp add: length_alphabet)

lemma alphabet_plain: "list_all (\<lambda>c. c \<noteq> CHR ''='' \<and> \<not> b64_space c) alphabet"
  by (simp add: alphabet_def b64_space_def)

lemma six_bits: "unat (and w 0x3f :: u32) < 64"
proof -
  have "and w 0x3f \<le> (0x3f :: u32)" by (rule word_and_le1)
  then show ?thesis by (simp add: word_le_nat_alt)
qed

lemma value_of_digit: "value_of (b64_digit g k) = Some (unat (and (drop_bit k g) 0x3f))"
  using alphabet_values six_bits [of "drop_bit k g"] by (simp add: b64_digit_def)

lemma digit_plain: "b64_digit g k \<noteq> CHR ''=''" "\<not> b64_space (b64_digit g k)"
  using alphabet_plain six_bits [of "drop_bit k g"]
  by (simp_all add: b64_digit_def list_all_length length_alphabet)


section \<open>Decoding one group\<close>

lemma decode_digit:
  "b64_decode_loop z acc bits out (b64_digit g k # s) =
     (let acc' = or (push_bit 6 acc) (and (drop_bit k g) 0x3f) in
      if bits + 6 \<ge> 8
      then if length out \<ge> z then None
           else b64_decode_loop z acc' (bits + 6 - 8)
                  (out @ [ucast (and (drop_bit (bits + 6 - 8) acc') 0xff)]) s
      else b64_decode_loop z acc' (bits + 6) out s)"
  by (simp add: value_of_digit digit_plain Let_def)

definition feed :: "u32 \<Rightarrow> u32 \<Rightarrow> nat \<Rightarrow> u32" where
  "feed acc g k = or (push_bit 6 acc) (and (drop_bit k g) 0x3f)"

definition byte_at :: "nat \<Rightarrow> u32 \<Rightarrow> byte" where
  "byte_at k acc = ucast (and (drop_bit k acc) 0xff)"

lemma and_0x3f: "and w 0x3f = take_bit 6 (w :: u32)"
proof -
  have "(0x3f :: u32) = mask 6" by (simp add: mask_eq_exp_minus_1)
  then show ?thesis by (simp only: take_bit_eq_mask)
qed

lemma and_0xff: "and w 0xff = take_bit 8 (w :: u32)"
proof -
  have "(0xff :: u32) = mask 8" by (simp add: mask_eq_exp_minus_1)
  then show ?thesis by (simp only: take_bit_eq_mask)
qed

lemma byte_beyond: "8 \<le> n \<Longrightarrow> \<not> bit (b :: byte) n"
  by (auto dest: bit_imp_le_length)

lemma bit_b64_group:
  assumes "n < 8"
  shows "bit (b64_group a b c) n = bit c n"
    and "bit (b64_group a b c) (8 + n) = bit b n"
    and "bit (b64_group a b c) (16 + n) = bit a n"
  using assms by (simp_all add: b64_group_def bit_simps byte_beyond)

lemma bit_feed: "bit (feed acc g k) n =
    (if n < 6 then bit g (n + k) else n < 32 \<and> bit acc (n - 6))"
  by (auto simp: feed_def and_0x3f bit_simps add.commute dest: bit_imp_le_length)

lemma bit_byte_at: "n < 8 \<Longrightarrow> bit (byte_at k acc) n = bit acc (n + k)"
  by (simp add: byte_at_def and_0xff bit_simps add.commute)

lemma byte_eqI: "(\<And>n. n < 8 \<Longrightarrow> bit (a :: byte) n = bit b n) \<Longrightarrow> a = b"
  by (rule bit_word_eqI) simp

lemma byte1: "byte_at 4 (feed (feed acc (b64_group a b c) 18) (b64_group a b c) 12) = a"
  by (rule byte_eqI) (auto simp: bit_byte_at bit_feed not_less bit_b64_group)

lemma byte2: "byte_at 2 (feed (feed acc (b64_group a b c) 12) (b64_group a b c) 6) = b"
  by (rule byte_eqI) (auto simp: bit_byte_at bit_feed not_less bit_b64_group)

lemma byte3: "byte_at 0 (feed (feed acc (b64_group a b c) 6) (b64_group a b c) 0) = c"
  by (rule byte_eqI) (auto simp: bit_byte_at bit_feed not_less bit_b64_group)

text \<open>What the loop does with a digit, in terms of \<open>feed\<close> and \<open>byte_at\<close>.\<close>

lemma decode_digit_keep:
  "bits + 6 < 8 \<Longrightarrow> b64_decode_loop z acc bits out (b64_digit g k # s) =
     b64_decode_loop z (feed acc g k) (bits + 6) out s"
  unfolding decode_digit by (simp add: feed_def Let_def)

lemma decode_digit_emit:
  "8 \<le> bits + 6 \<Longrightarrow> length out < z \<Longrightarrow> b64_decode_loop z acc bits out (b64_digit g k # s) =
     b64_decode_loop z (feed acc g k) (bits + 6 - 8)
       (out @ [byte_at (bits + 6 - 8) (feed acc g k)]) s"
  unfolding decode_digit by (simp add: feed_def byte_at_def Let_def)

lemma decode_digit_full:
  "8 \<le> bits + 6 \<Longrightarrow> z \<le> length out \<Longrightarrow>
   b64_decode_loop z acc bits out (b64_digit g k # s) = None"
  unfolding decode_digit by (simp add: Let_def)

lemmas decode_steps = decode_digit_keep decode_digit_emit decode_digit_full byte1 byte2 byte3

declare b64_decode_loop.simps(2) [simp del]

lemma decode_pad: "b64_decode_loop z acc bits out (CHR ''='' # s) = Some (bits, out)"
  by (simp add: b64_decode_loop.simps)

lemma decode_encode_loop:
  "length out + length xs \<le> z \<Longrightarrow>
   \<exists>bits<6. b64_decode_loop z acc 0 out (b64_encode_loop xs) = Some (bits, out @ xs)"
proof (induction xs arbitrary: acc out rule: b64_encode_loop.induct)
  case (1 a b c rest)
  let ?g = "b64_group a b c"
  let ?acc = "feed (feed (feed (feed acc ?g 18) ?g 12) ?g 6) ?g 0"
  have "b64_decode_loop z acc 0 out (b64_encode_loop (a # b # c # rest)) =
        b64_decode_loop z ?acc 0 (out @ [a, b, c]) (b64_encode_loop rest)"
    using "1.prems" by (simp add: Let_def decode_steps)
  then show ?case using "1.IH" [of ?g "out @ [a, b, c]" ?acc] "1.prems" by simp
next
  case (2 a b)
  then show ?case
    by (simp add: Let_def decode_steps decode_pad)
next
  case (3 a)
  then show ?case
    by (simp add: Let_def decode_steps decode_pad)
next
  case 4
  then show ?case by simp
qed

lemma decode_encode_loop_full:
  "length out \<le> z \<Longrightarrow> z < length out + length xs \<Longrightarrow>
   b64_decode_loop z acc 0 out (b64_encode_loop xs) = None"
proof (induction xs arbitrary: acc out rule: b64_encode_loop.induct)
  case (1 a b c rest)
  let ?g = "b64_group a b c"
  let ?acc = "feed (feed (feed (feed acc ?g 18) ?g 12) ?g 6) ?g 0"
  consider "z = length out" | "z = length out + 1" | "z = length out + 2" | "length out + 3 \<le> z"
    using "1.prems" by linarith
  then show ?case
  proof cases
    case 4
    then have "b64_decode_loop z acc 0 out (b64_encode_loop (a # b # c # rest)) =
        b64_decode_loop z ?acc 0 (out @ [a, b, c]) (b64_encode_loop rest)"
      by (simp add: Let_def decode_steps)
    then show ?thesis using "1.IH" [of ?g "out @ [a, b, c]" ?acc] "1.prems" 4 by simp
  qed (simp_all add: Let_def decode_steps)
next
  case (2 a b)
  then consider "z = length out" | "z = length out + 1" by fastforce
  then show ?case by cases (simp_all add: Let_def decode_steps)
qed (simp_all add: Let_def decode_steps)

lemma length_encode_loop: "length (b64_encode_loop xs) = le_b64_encoded_size (length xs)"
proof (induction xs rule: b64_encode_loop.induct)
  case (1 a b c rest)
  have "(5 + length rest) div 3 = (2 + length rest) div 3 + 1" by simp
  with 1 show ?case by (simp add: le_b64_encoded_size_def Let_def)
qed (simp_all add: le_b64_encoded_size_def Let_def)

text \<open>The decoder never writes past the buffer it is given.\<close>

lemma decode_loop_bound:
  "b64_decode_loop z acc bits out s = Some (bits', out') \<Longrightarrow> length out \<le> z \<Longrightarrow> length out' \<le> z"
  by (induction z acc bits out s rule: b64_decode_loop.induct)
    (auto simp: Let_def b64_decode_loop.simps(2) split: if_splits option.splits)

lemma le_b64_decode_bound [bounds]: "length (le_b64_decode s z) \<le> z"
  using decode_loop_bound by (fastforce simp: le_b64_decode_def split: option.splits)

section \<open>Round trip\<close>

interpretation b64: codec "\<lambda>_. True" "\<lambda>xs. le_b64_encode xs (le_b64_encoded_size (length xs) + 1)"
  "\<lambda>s. Some (le_b64_decode s (length s))"
proof unfold_locales
  fix xs :: bytes
  have "length xs \<le> le_b64_encoded_size (length xs)" by (simp add: le_b64_encoded_size_def)
  then show "Some (le_b64_decode (le_b64_encode xs (le_b64_encoded_size (length xs) + 1))
      (length (le_b64_encode xs (le_b64_encoded_size (length xs) + 1)))) = Some xs"
    using decode_encode_loop [of "[]" xs "le_b64_encoded_size (length xs)" 0]
    by (auto simp: le_b64_decode_def le_b64_encode_def length_encode_loop)
qed

text \<open>
  Whatever fits is encoded to exactly the announced size, and decoding the text with room
  for the payload gives the payload back; with less room the decoder refuses instead of
  truncating.
\<close>

theorem live_b64_round_trip:
  assumes "le_b64_encoded_size (length xs) + 1 \<le> out_size"
  shows "length (le_b64_encode xs out_size) = le_b64_encoded_size (length xs) \<and>
     le_b64_decode (le_b64_encode xs out_size) z = (if length xs \<le> z then xs else [])"
  using assms decode_encode_loop [of "[]" xs z 0] decode_encode_loop_full [of "[]" z xs 0]
  by (auto simp: le_b64_decode_def le_b64_encode_def length_encode_loop)

theorem live_b64_round_trip_witness:
  "le_b64_encode [72, 105, 33, 255] 9 = ''SGkh/w=='' \<and>
   le_b64_decode (le_b64_encode [72, 105, 33, 255] 9) 4 = [72, 105, 33, 255]"
  using live_b64_round_trip [of "[72, 105, 33, 255]" 9 4]
  by (simp add: le_b64_encoded_size_def le_b64_encode_def Let_def b64_digit_def b64_group_def
      alphabet_def)

end
