(* ===== verification/Timer_Schedule.thy ===== *)
theory Timer_Schedule
  imports Echo_Prelude
begin

text \<open>
  Timers and alarms (\<^verbatim>\<open>src/adapter/timer_schedule.c\<close>, \<^verbatim>\<open>timer_schedule.h\<close>).  The sixteen slots are a
  list, a pointer to a timer is its slot number, \<^verbatim>\<open>memset\<close> to zero is \<open>timer_zero\<close>.  Ids and the
  \<^verbatim>\<open>missed\<close> counter are 32-bit unsigned and wrap; times are \<^verbatim>\<open>long long\<close> in the code, whose signed
  overflow is undefined, and exact integers here.  A NULL label is \<open>None\<close>; a NULL \<^verbatim>\<open>fired\<close> buffer is
  a buffer of size 0, which the code treats alike; the set pointer is never NULL.
\<close>

section \<open>State\<close>

definition LE_TIMER_MAX :: nat where "LE_TIMER_MAX = 16"
definition LE_TIMER_LABEL_MAX :: nat where "LE_TIMER_LABEL_MAX = 48"
definition LE_TIMER_MIN_SECONDS :: int where "LE_TIMER_MIN_SECONDS = 1"
definition LE_TIMER_MAX_SECONDS :: int where "LE_TIMER_MAX_SECONDS = 7 * 24 * 3600"
definition LE_TIMER_RING_SECONDS :: int where "LE_TIMER_RING_SECONDS = 300"
definition LE_TIMER_MISS_GRACE_SECONDS :: int where "LE_TIMER_MISS_GRACE_SECONDS = 60"
definition LE_TIMER_CLOCK_VALID_EPOCH :: int where "LE_TIMER_CLOCK_VALID_EPOCH = 1577836800"

lemmas timer_limits = LE_TIMER_MAX_def LE_TIMER_LABEL_MAX_def LE_TIMER_MIN_SECONDS_def
  LE_TIMER_MAX_SECONDS_def LE_TIMER_RING_SECONDS_def LE_TIMER_MISS_GRACE_SECONDS_def
  LE_TIMER_CLOCK_VALID_EPOCH_def

datatype timer_kind = LE_TIMER_COUNTDOWN | LE_TIMER_ALARM

datatype timer_state = LE_TIMER_STATE_FREE | LE_TIMER_STATE_PENDING | LE_TIMER_STATE_RINGING

datatype timer_error = LE_TIMER_ERR_FULL | LE_TIMER_ERR_RANGE | LE_TIMER_ERR_NOT_FOUND
  | LE_TIMER_ERR_CLOCK

record le_timer =
  tm_id :: u32
  tm_kind :: timer_kind
  tm_state :: timer_state
  tm_due_monotonic_ms :: int
  tm_due_epoch :: int
  tm_ring_started_ms :: int
  tm_label :: string

record le_timer_set =
  ts_timers :: "le_timer list"
  ts_next_id :: u32
  ts_missed :: u32

definition timer_zero :: le_timer where
  "timer_zero = \<lparr>tm_id = 0, tm_kind = LE_TIMER_COUNTDOWN, tm_state = LE_TIMER_STATE_FREE,
     tm_due_monotonic_ms = 0, tm_due_epoch = 0, tm_ring_started_ms = 0, tm_label = []\<rparr>"

section \<open>Operations\<close>

text \<open>The first slot from \<open>i\<close> on for which \<open>p\<close> holds: the shape of both scans.\<close>

fun scan_from :: "(le_timer \<Rightarrow> bool) \<Rightarrow> nat \<Rightarrow> le_timer list \<Rightarrow> nat option" where
  "scan_from p i [] = None"
| "scan_from p i (t # ts) = (if p t then Some i else scan_from p (i + 1) ts)"

definition free_slot :: "le_timer_set \<Rightarrow> nat option" where
  "free_slot s = scan_from (\<lambda>t. tm_state t = LE_TIMER_STATE_FREE) 0 (ts_timers s)"

definition set_label :: "string option \<Rightarrow> string" where
  "set_label label =
     (case label of None \<Rightarrow> [] | Some l \<Rightarrow> if l = [] then [] else take (LE_TIMER_LABEL_MAX - 1) l)"

definition le_timer_set_init :: le_timer_set where
  "le_timer_set_init =
     \<lparr>ts_timers = replicate LE_TIMER_MAX timer_zero, ts_next_id = 1, ts_missed = 0\<rparr>"

definition put_timer :: "le_timer_set \<Rightarrow> nat \<Rightarrow> le_timer \<Rightarrow> le_timer_set" where
  "put_timer s i t = s\<lparr>ts_timers := (ts_timers s)[i := t]\<rparr>"

definition le_timer_add_countdown ::
  "le_timer_set \<Rightarrow> int \<Rightarrow> string option \<Rightarrow> int \<Rightarrow> timer_error + (u32 \<times> le_timer_set)" where
  "le_timer_add_countdown s seconds label now_ms =
     (if seconds < LE_TIMER_MIN_SECONDS \<or> seconds > LE_TIMER_MAX_SECONDS
      then Inl LE_TIMER_ERR_RANGE
      else case free_slot s of
        None \<Rightarrow> Inl LE_TIMER_ERR_FULL
      | Some i \<Rightarrow>
          let t = timer_zero\<lparr>tm_id := ts_next_id s, tm_kind := LE_TIMER_COUNTDOWN,
                    tm_state := LE_TIMER_STATE_PENDING,
                    tm_due_monotonic_ms := now_ms + seconds * 1000,
                    tm_label := set_label label\<rparr>
          in Inr (tm_id t, put_timer (s\<lparr>ts_next_id := ts_next_id s + 1\<rparr>) i t))"

definition le_timer_add_alarm ::
  "le_timer_set \<Rightarrow> int \<Rightarrow> string option \<Rightarrow> int \<Rightarrow> timer_error + (u32 \<times> le_timer_set)" where
  "le_timer_add_alarm s due_epoch label now_epoch =
     (if now_epoch < LE_TIMER_CLOCK_VALID_EPOCH then Inl LE_TIMER_ERR_CLOCK
      else if due_epoch \<le> now_epoch then Inl LE_TIMER_ERR_RANGE
      else case free_slot s of
        None \<Rightarrow> Inl LE_TIMER_ERR_FULL
      | Some i \<Rightarrow>
          let t = timer_zero\<lparr>tm_id := ts_next_id s, tm_kind := LE_TIMER_ALARM,
                    tm_state := LE_TIMER_STATE_PENDING, tm_due_epoch := due_epoch,
                    tm_label := set_label label\<rparr>
          in Inr (tm_id t, put_timer (s\<lparr>ts_next_id := ts_next_id s + 1\<rparr>) i t))"

definition le_timer_find :: "le_timer_set \<Rightarrow> u32 \<Rightarrow> nat option" where
  "le_timer_find s i =
     (if i = 0 then None
      else scan_from (\<lambda>t. tm_state t \<noteq> LE_TIMER_STATE_FREE \<and> tm_id t = i) 0 (ts_timers s))"

text \<open>The id a restored timer gets, and the next id after it.\<close>

definition restore_ids :: "le_timer_set \<Rightarrow> u32 \<Rightarrow> u32 \<times> u32" where
  "restore_ids s restore_id =
     (if restore_id \<noteq> 0
      then (restore_id,
            if restore_id \<ge> ts_next_id s
            then (if restore_id = - 1 then 1 else restore_id + 1) else ts_next_id s)
      else if ts_next_id s = 0 then (ts_next_id s + 1, ts_next_id s + 2)
      else (ts_next_id s, ts_next_id s + 1))"

definition restore_timer ::
  "le_timer_set \<Rightarrow> timer_kind \<Rightarrow> u32 \<Rightarrow> int \<Rightarrow> string option \<Rightarrow> int \<Rightarrow> int \<Rightarrow>
   timer_error + (u32 \<times> le_timer_set)" where
  "restore_timer s kind restore_id due_epoch label now_epoch now_ms =
     (let delta = due_epoch - now_epoch in
      if now_epoch < LE_TIMER_CLOCK_VALID_EPOCH then Inl LE_TIMER_ERR_CLOCK
      else if delta < - LE_TIMER_MISS_GRACE_SECONDS then Inl LE_TIMER_ERR_RANGE
      else if kind = LE_TIMER_COUNTDOWN \<and> delta > LE_TIMER_MAX_SECONDS
        then Inl LE_TIMER_ERR_RANGE
      else if restore_id \<noteq> 0 \<and> le_timer_find s restore_id \<noteq> None
        then Inl LE_TIMER_ERR_NOT_FOUND
      else case free_slot s of
        None \<Rightarrow> Inl LE_TIMER_ERR_FULL
      | Some i \<Rightarrow>
          let (new_id, next_id) = restore_ids s restore_id;
              t = timer_zero\<lparr>tm_id := new_id, tm_kind := kind,
                    tm_state := LE_TIMER_STATE_PENDING, tm_due_epoch := due_epoch,
                    tm_due_monotonic_ms := now_ms + delta * 1000,
                    tm_label := set_label label\<rparr>
          in Inr (new_id, put_timer (s\<lparr>ts_next_id := next_id\<rparr>) i t))"

definition le_timer_restore_countdown ::
  "le_timer_set \<Rightarrow> int \<Rightarrow> string option \<Rightarrow> int \<Rightarrow> int \<Rightarrow> timer_error + (u32 \<times> le_timer_set)" where
  "le_timer_restore_countdown s due_epoch label now_epoch now_ms =
     restore_timer s LE_TIMER_COUNTDOWN 0 due_epoch label now_epoch now_ms"

definition le_timer_restore_alarm ::
  "le_timer_set \<Rightarrow> int \<Rightarrow> string option \<Rightarrow> int \<Rightarrow> int \<Rightarrow> timer_error + (u32 \<times> le_timer_set)" where
  "le_timer_restore_alarm s due_epoch label now_epoch now_ms =
     restore_timer s LE_TIMER_ALARM 0 due_epoch label now_epoch now_ms"

definition le_timer_restore_countdown_with_id ::
  "le_timer_set \<Rightarrow> u32 \<Rightarrow> int \<Rightarrow> string option \<Rightarrow> int \<Rightarrow> int \<Rightarrow>
   timer_error + (u32 \<times> le_timer_set)" where
  "le_timer_restore_countdown_with_id s restore_id due_epoch label now_epoch now_ms =
     restore_timer s LE_TIMER_COUNTDOWN restore_id due_epoch label now_epoch now_ms"

definition le_timer_restore_alarm_with_id ::
  "le_timer_set \<Rightarrow> u32 \<Rightarrow> int \<Rightarrow> string option \<Rightarrow> int \<Rightarrow> int \<Rightarrow>
   timer_error + (u32 \<times> le_timer_set)" where
  "le_timer_restore_alarm_with_id s restore_id due_epoch label now_epoch now_ms =
     restore_timer s LE_TIMER_ALARM restore_id due_epoch label now_epoch now_ms"

definition le_timer_cancel :: "le_timer_set \<Rightarrow> u32 \<Rightarrow> timer_error + le_timer_set" where
  "le_timer_cancel s i =
     (case le_timer_find s i of
        None \<Rightarrow> Inl LE_TIMER_ERR_NOT_FOUND
      | Some k \<Rightarrow>
          if tm_state (ts_timers s ! k) \<noteq> LE_TIMER_STATE_PENDING
          then Inl LE_TIMER_ERR_NOT_FOUND else Inr (put_timer s k timer_zero))"

definition le_timer_dismiss :: "le_timer_set \<Rightarrow> u32 \<Rightarrow> nat \<times> le_timer_set" where
  "le_timer_dismiss s i =
     (case le_timer_find s i of
        None \<Rightarrow> (0, s)
      | Some k \<Rightarrow>
          if tm_state (ts_timers s ! k) \<noteq> LE_TIMER_STATE_RINGING then (0, s)
          else (1, put_timer s k timer_zero))"

fun dismiss_slots :: "le_timer list \<Rightarrow> nat \<times> le_timer list" where
  "dismiss_slots [] = (0, [])"
| "dismiss_slots (t # ts) =
     (let (n, ts') = dismiss_slots ts
      in if tm_state t \<noteq> LE_TIMER_STATE_RINGING then (n, t # ts') else (n + 1, timer_zero # ts'))"

definition le_timer_dismiss_all :: "le_timer_set \<Rightarrow> nat \<times> le_timer_set" where
  "le_timer_dismiss_all s =
     (let (n, ts) = dismiss_slots (ts_timers s) in (n, s\<lparr>ts_timers := ts\<rparr>))"

definition countdown_due :: "le_timer \<Rightarrow> int \<Rightarrow> bool" where
  "countdown_due t now_ms \<longleftrightarrow> now_ms \<ge> tm_due_monotonic_ms t"

definition alarm_due :: "le_timer \<Rightarrow> int \<Rightarrow> bool" where
  "alarm_due t now_epoch \<longleftrightarrow> now_epoch \<ge> tm_due_epoch t"

definition too_late :: "le_timer \<Rightarrow> int \<Rightarrow> int \<Rightarrow> bool" where
  "too_late t now_ms now_epoch \<longleftrightarrow>
     (if tm_kind t = LE_TIMER_COUNTDOWN then c_div (now_ms - tm_due_monotonic_ms t) 1000
      else now_epoch - tm_due_epoch t) > LE_TIMER_MISS_GRACE_SECONDS"

text \<open>One round of the step loop over a slot: the slot after it, and whether it was missed or fired.\<close>

datatype slot_event = Quiet | Missed | Fired u32

definition step_slot :: "int \<Rightarrow> int \<Rightarrow> le_timer \<Rightarrow> le_timer \<times> slot_event" where
  "step_slot now_ms now_epoch t =
     (if tm_state t = LE_TIMER_STATE_RINGING then
        (if now_ms - tm_ring_started_ms t \<ge> LE_TIMER_RING_SECONDS * 1000
         then (timer_zero, Quiet) else (t, Quiet))
      else if tm_state t \<noteq> LE_TIMER_STATE_PENDING then (t, Quiet)
      else if tm_kind t = LE_TIMER_ALARM \<and> \<not> now_epoch \<ge> LE_TIMER_CLOCK_VALID_EPOCH
        then (t, Quiet)
      else if (if tm_kind t = LE_TIMER_COUNTDOWN then \<not> countdown_due t now_ms
               else \<not> alarm_due t now_epoch) then (t, Quiet)
      else if too_late t now_ms now_epoch then (timer_zero, Missed)
      else (t\<lparr>tm_state := LE_TIMER_STATE_RINGING, tm_ring_started_ms := now_ms\<rparr>,
            Fired (tm_id t)))"

fun step_slots :: "int \<Rightarrow> int \<Rightarrow> le_timer list \<Rightarrow> le_timer list \<times> slot_event list" where
  "step_slots now_ms now_epoch [] = ([], [])"
| "step_slots now_ms now_epoch (t # ts) =
     (let (t', e) = step_slot now_ms now_epoch t;
          (ts', es) = step_slots now_ms now_epoch ts
      in (t' # ts', e # es))"

fun fired_ids :: "slot_event list \<Rightarrow> u32 list" where
  "fired_ids [] = []"
| "fired_ids (Fired i # es) = i # fired_ids es"
| "fired_ids (_ # es) = fired_ids es"

text \<open>
  The result is the number of timers that fired, the ids written to the buffer of size
  \<open>fired_max\<close>, and the new set.
\<close>

definition le_timer_step ::
  "le_timer_set \<Rightarrow> int \<Rightarrow> int \<Rightarrow> nat \<Rightarrow> nat \<times> u32 list \<times> le_timer_set" where
  "le_timer_step s now_ms now_epoch fired_max =
     (let (ts, es) = step_slots now_ms now_epoch (ts_timers s);
          ids = fired_ids es
      in (length ids, take fired_max ids,
          s\<lparr>ts_timers := ts, ts_missed := ts_missed s + of_nat (count_list es Missed)\<rparr>))"

definition le_timer_cancel_at ::
  "le_timer_set \<Rightarrow> u32 \<Rightarrow> int \<Rightarrow> int \<Rightarrow> le_timer_set \<times> timer_error option" where
  "le_timer_cancel_at s i now_ms now_epoch =
     (let (_, _, s') = le_timer_step s now_ms now_epoch 0
      in case le_timer_cancel s' i of Inl e \<Rightarrow> (s', Some e) | Inr s'' \<Rightarrow> (s'', None))"

fun count_state :: "(timer_state \<Rightarrow> bool) \<Rightarrow> le_timer list \<Rightarrow> nat" where
  "count_state p [] = 0"
| "count_state p (t # ts) = (if p (tm_state t) then count_state p ts + 1 else count_state p ts)"

definition le_timer_ringing_count :: "le_timer_set \<Rightarrow> nat" where
  "le_timer_ringing_count s = count_state (\<lambda>st. st = LE_TIMER_STATE_RINGING) (ts_timers s)"

definition le_timer_active_count :: "le_timer_set \<Rightarrow> nat" where
  "le_timer_active_count s = count_state (\<lambda>st. st \<noteq> LE_TIMER_STATE_FREE) (ts_timers s)"

text \<open>The time a slot leaves before its next action; \<open>None\<close> is the loop's \<^verbatim>\<open>continue\<close>.\<close>

definition slot_remaining :: "int \<Rightarrow> int \<Rightarrow> le_timer \<Rightarrow> int option" where
  "slot_remaining now_ms now_epoch t =
     (if tm_state t = LE_TIMER_STATE_RINGING
      then Some (tm_ring_started_ms t + LE_TIMER_RING_SECONDS * 1000 - now_ms)
      else if tm_state t \<noteq> LE_TIMER_STATE_PENDING then None
      else if tm_kind t = LE_TIMER_COUNTDOWN then Some (tm_due_monotonic_ms t - now_ms)
      else if now_epoch \<ge> LE_TIMER_CLOCK_VALID_EPOCH
        then Some ((tm_due_epoch t - now_epoch) * 1000)
      else None)"

fun poll_slots :: "int \<Rightarrow> int \<Rightarrow> int \<Rightarrow> le_timer list \<Rightarrow> int" where
  "poll_slots now_ms now_epoch timeout [] = timeout"
| "poll_slots now_ms now_epoch timeout (t # ts) =
     poll_slots now_ms now_epoch
       (case slot_remaining now_ms now_epoch t of
          None \<Rightarrow> timeout
        | Some r \<Rightarrow> let r' = (if r < 0 then 0 else r) in if r' < timeout then r' else timeout) ts"

definition le_timer_poll_timeout_ms :: "le_timer_set \<Rightarrow> int \<Rightarrow> int \<Rightarrow> int \<Rightarrow> int" where
  "le_timer_poll_timeout_ms s now_ms now_epoch cap_ms =
     poll_slots now_ms now_epoch cap_ms (ts_timers s)"


section \<open>Scans\<close>

lemma scan_from_Some:
  "scan_from p i ts = Some j \<Longrightarrow> i \<le> j \<and> j - i < length ts \<and> p (ts ! (j - i))"
proof (induction ts arbitrary: i)
  case (Cons t ts)
  show ?case
  proof (cases "p t")
    case False
    with Cons have "i + 1 \<le> j \<and> j - (i + 1) < length ts \<and> p (ts ! (j - (i + 1)))"
      by simp
    moreover from this have "j - i = Suc (j - (i + 1))" by linarith
    ultimately show ?thesis by simp
  qed (use Cons.prems in simp)
qed simp

lemma scan_from_None: "scan_from p i ts = None \<longleftrightarrow> (\<forall>t\<in>set ts. \<not> p t)"
  by (induction ts arbitrary: i) auto

lemma scan_0_Some: "scan_from p 0 ts = Some j \<Longrightarrow> j < length ts \<and> p (ts ! j)"
  using scan_from_Some [of p 0 ts j] by simp

lemma scan_0_unique:
  assumes "j < length ts" and "p (ts ! j)" and "\<And>k. k < length ts \<Longrightarrow> p (ts ! k) \<Longrightarrow> k = j"
  shows "scan_from p 0 ts = Some j"
proof (cases "scan_from p 0 ts")
  case None
  then show ?thesis using assms(1,2) by (auto simp: scan_from_None)
next
  case (Some k)
  then show ?thesis using scan_0_Some [OF Some] assms(3) by auto
qed

section \<open>The schedule as a map from ids to timers\<close>

abbreviation free :: "le_timer \<Rightarrow> bool" where
  "free t \<equiv> tm_state t = LE_TIMER_STATE_FREE"

lemma timer_zero_free [simp]: "free timer_zero" "tm_label timer_zero = []"
  by (simp_all add: timer_zero_def)

text \<open>
  Well-formedness every operation keeps whatever its arguments: sixteen slots, a free slot is
  zeroed, a label fits its field.
\<close>

definition timers_wf :: "le_timer_set \<Rightarrow> bool" where
  "timers_wf s \<longleftrightarrow> length (ts_timers s) = LE_TIMER_MAX \<and>
     (\<forall>t\<in>set (ts_timers s). (free t \<longrightarrow> t = timer_zero) \<and> length (tm_label t) < LE_TIMER_LABEL_MAX)"

text \<open>Ids identify: the live ones are positive, below the next id, and pairwise distinct.\<close>

definition ids_ok :: "le_timer_set \<Rightarrow> bool" where
  "ids_ok s \<longleftrightarrow> ts_next_id s \<noteq> 0 \<and>
     (\<forall>i<length (ts_timers s). \<not> free (ts_timers s ! i) \<longrightarrow>
        tm_id (ts_timers s ! i) \<noteq> 0 \<and> tm_id (ts_timers s ! i) < ts_next_id s) \<and>
     (\<forall>i<length (ts_timers s). \<forall>j<length (ts_timers s). i \<noteq> j \<longrightarrow>
        \<not> free (ts_timers s ! i) \<longrightarrow> \<not> free (ts_timers s ! j) \<longrightarrow>
        tm_id (ts_timers s ! i) \<noteq> tm_id (ts_timers s ! j))"

definition timer_lookup :: "le_timer_set \<Rightarrow> u32 \<Rightarrow> le_timer option" where
  "timer_lookup s i = map_option (\<lambda>k. ts_timers s ! k) (le_timer_find s i)"

lemma find_Some:
  "le_timer_find s i = Some k \<Longrightarrow>
   i \<noteq> 0 \<and> k < length (ts_timers s) \<and> \<not> free (ts_timers s ! k) \<and> tm_id (ts_timers s ! k) = i"
  by (auto simp: le_timer_find_def split: if_splits dest: scan_0_Some)

lemma find_None:
  "le_timer_find s i = None \<longleftrightarrow> i = 0 \<or> (\<forall>t\<in>set (ts_timers s). \<not> free t \<longrightarrow> tm_id t \<noteq> i)"
  by (auto simp: le_timer_find_def scan_from_None)

lemma find_eq:
  assumes "ids_ok s" and "k < length (ts_timers s)" and "\<not> free (ts_timers s ! k)"
  shows "le_timer_find s (tm_id (ts_timers s ! k)) = Some k"
proof -
  have "scan_from (\<lambda>t. \<not> free t \<and> tm_id t = tm_id (ts_timers s ! k)) 0 (ts_timers s) = Some k"
    using assms by (intro scan_0_unique) (auto simp: ids_ok_def)
  then show ?thesis using assms by (auto simp: le_timer_find_def ids_ok_def)
qed

lemma lookup_iff:
  assumes "ids_ok s"
  shows "timer_lookup s i = Some t \<longleftrightarrow> t \<in> set (ts_timers s) \<and> \<not> free t \<and> tm_id t = i"
proof
  assume "timer_lookup s i = Some t"
  then show "t \<in> set (ts_timers s) \<and> \<not> free t \<and> tm_id t = i"
    by (auto simp: timer_lookup_def dest: find_Some)
next
  assume "t \<in> set (ts_timers s) \<and> \<not> free t \<and> tm_id t = i"
  then show "timer_lookup s i = Some t"
    using find_eq [OF assms] by (auto simp: timer_lookup_def in_set_conv_nth)
qed

lemma free_slot_Some:
  "free_slot s = Some k \<Longrightarrow> k < length (ts_timers s) \<and> free (ts_timers s ! k)"
  by (auto simp: free_slot_def dest: scan_0_Some)

lemma free_slot_None: "free_slot s = None \<longleftrightarrow> (\<forall>t\<in>set (ts_timers s). \<not> free t)"
  by (simp add: free_slot_def scan_from_None)

text \<open>Filling a free slot with a timer of a new id extends the map at that id.\<close>

definition other_slot :: "le_timer_set \<Rightarrow> nat \<Rightarrow> le_timer \<Rightarrow> bool" where
  "other_slot s k u \<longleftrightarrow> (\<exists>j<length (ts_timers s). j \<noteq> k \<and> ts_timers s ! j = u)"

lemma in_put_timer:
  assumes "k < length (ts_timers s)"
  shows "u \<in> set (ts_timers (put_timer s k t)) \<longleftrightarrow> u = t \<or> other_slot s k u"
proof -
  have at: "(ts_timers s)[k := t] ! j = (if j = k then t else ts_timers s ! j)" for j
    using assms by (simp add: nth_list_update)
  have "u \<in> set (ts_timers (put_timer s k t)) \<longleftrightarrow>
      (\<exists>j<length (ts_timers s). (if j = k then t else ts_timers s ! j) = u)"
    by (simp add: put_timer_def in_set_conv_nth at)
  then show ?thesis using assms unfolding other_slot_def by metis
qed

lemma in_timers_other:
  "k < length (ts_timers s) \<Longrightarrow>
   u \<in> set (ts_timers s) \<longleftrightarrow> u = ts_timers s ! k \<or> other_slot s k u"
  unfolding in_set_conv_nth other_slot_def by metis

lemma other_slot_next [simp]: "other_slot (s\<lparr>ts_next_id := n\<rparr>) k u = other_slot s k u"
  by (simp add: other_slot_def)

lemma ids_ok_put:
  assumes "ids_ok s" and "k < length (ts_timers s)" and "free (ts_timers s ! k)"
    and "tm_id t \<noteq> 0" and "tm_id t < n" and "ts_next_id s \<le> n"
    and "timer_lookup s (tm_id t) = None"
  shows "ids_ok (put_timer (s\<lparr>ts_next_id := n\<rparr>) k t)"
proof -
  have new: "tm_id (ts_timers s ! j) \<noteq> tm_id t" if "j < length (ts_timers s)" "\<not> free (ts_timers s ! j)" for j
    using assms(4,7) that by (auto simp: timer_lookup_def find_None)
  have lt: "tm_id (ts_timers s ! j) < n" if "j < length (ts_timers s)" "\<not> free (ts_timers s ! j)" for j
    using assms(1,6) that by (fastforce simp: ids_ok_def)
  have n: "n \<noteq> 0" using assms(5) by (auto simp: word_less_nat_alt)
  have at: "(ts_timers s)[k := t] ! j = (if j = k then t else ts_timers s ! j)" for j
    using assms(2) by (simp add: nth_list_update)
  show ?thesis
    using assms(1,4,5) new lt n
    unfolding ids_ok_def put_timer_def by (simp add: at) metis
qed

lemma lookup_put:
  assumes "ids_ok s" and "k < length (ts_timers s)" and "free (ts_timers s ! k)"
    and "ids_ok (put_timer (s\<lparr>ts_next_id := n\<rparr>) k t)" and "\<not> free t"
    and "timer_lookup s (tm_id t) = None"
  shows "timer_lookup (put_timer (s\<lparr>ts_next_id := n\<rparr>) k t) = (timer_lookup s)(tm_id t \<mapsto> t)"
proof (rule ext, rule option_eqI)
  fix i u
  let ?s = "put_timer (s\<lparr>ts_next_id := n\<rparr>) k t"
  have mem: "u \<in> set (ts_timers ?s) \<longleftrightarrow> u = t \<or> other_slot s k u"
    using in_put_timer [of k "s\<lparr>ts_next_id := n\<rparr>" u t] assms(2) by simp
  have old: "timer_lookup s j = Some u \<longleftrightarrow> other_slot s k u \<and> \<not> free u \<and> tm_id u = j" for j
    using in_timers_other [OF assms(2)] assms(3) by (auto simp: lookup_iff [OF assms(1)])
  have "\<not> (other_slot s k u \<and> \<not> free u \<and> tm_id u = tm_id t)"
    using old [of "tm_id t"] assms(6) by simp
  then show "timer_lookup ?s i = Some u \<longleftrightarrow> ((timer_lookup s)(tm_id t \<mapsto> t)) i = Some u"
    using assms(5) mem old [of i] lookup_iff [OF assms(4), of i u] by auto
qed

text \<open>Clearing a live slot removes its id from the map.\<close>

lemma ids_ok_clear:
  "ids_ok s \<Longrightarrow> k < length (ts_timers s) \<Longrightarrow> ids_ok (put_timer s k timer_zero)"
  unfolding ids_ok_def put_timer_def by (simp add: nth_list_update timer_zero_def)

lemma lookup_clear:
  assumes "ids_ok s" and "k < length (ts_timers s)" and "\<not> free (ts_timers s ! k)"
  shows "timer_lookup (put_timer s k timer_zero) = (timer_lookup s)(tm_id (ts_timers s ! k) := None)"
proof (rule ext, rule option_eqI)
  fix i u
  let ?s = "put_timer s k timer_zero"
  have other: "other_slot s k u \<Longrightarrow> \<not> free u \<Longrightarrow> tm_id u \<noteq> tm_id (ts_timers s ! k)"
    using assms by (auto simp: other_slot_def ids_ok_def)
  have zero: "\<not> free u \<Longrightarrow> u \<noteq> timer_zero" by auto
  have "((timer_lookup s)(tm_id (ts_timers s ! k) := None)) i = Some u \<longleftrightarrow>
      i \<noteq> tm_id (ts_timers s ! k) \<and> timer_lookup s i = Some u" by simp
  then show "timer_lookup ?s i = Some u \<longleftrightarrow>
      ((timer_lookup s)(tm_id (ts_timers s ! k) := None)) i = Some u"
    using lookup_iff [OF ids_ok_clear [OF assms(1,2)], of i u] lookup_iff [OF assms(1), of i u]
      in_put_timer [OF assms(2), of u timer_zero] in_timers_other [OF assms(2), of u] other zero
    by blast
qed


section \<open>Insertion\<close>

definition new_timer :: "le_timer_set \<Rightarrow> le_timer_set \<Rightarrow> le_timer \<Rightarrow> bool" where
  "new_timer s s' t \<longleftrightarrow> timer_lookup s (tm_id t) = None \<and>
     timer_lookup s' = (timer_lookup s)(tm_id t \<mapsto> t) \<and> ids_ok s' \<and>
     tm_state t = LE_TIMER_STATE_PENDING"

lemma insert_fresh:
  assumes "ids_ok s" and "free_slot s = Some k" and "tm_state t = LE_TIMER_STATE_PENDING"
    and "tm_id t \<noteq> 0" and "tm_id t < n" and "ts_next_id s \<le> n"
    and "timer_lookup s (tm_id t) = None"
  shows "new_timer s (put_timer (s\<lparr>ts_next_id := n\<rparr>) k t) t"
proof -
  have k: "k < length (ts_timers s)" "free (ts_timers s ! k)"
    using free_slot_Some [OF assms(2)] by auto
  have ok: "ids_ok (put_timer (s\<lparr>ts_next_id := n\<rparr>) k t)"
    using assms(1) k assms(4-7) by (rule ids_ok_put)
  show ?thesis
    using lookup_put [OF assms(1) k ok _ assms(7)] assms(3,7) ok by (simp add: new_timer_def)
qed

lemma ids_ok_bound: "ids_ok s \<Longrightarrow> t \<in> set (ts_timers s) \<Longrightarrow> \<not> free t \<Longrightarrow> tm_id t < ts_next_id s"
  by (auto simp: ids_ok_def in_set_conv_nth)

lemma next_id_unused: "ids_ok s \<Longrightarrow> timer_lookup s (ts_next_id s) = None"
  by (auto simp: timer_lookup_def find_None dest: ids_ok_bound)

lemma word_Suc:
  fixes w :: u32
  assumes "unat w + 1 < 2 ^ 32"
  shows "w < w + 1" and "unat (w + 1) = unat w + 1"
  using unat_add_of_nat [of w 1] assms by (simp_all add: word_less_nat_alt)

lemma add_countdown_new:
  assumes "ids_ok s" and "unat (ts_next_id s) + 1 < 2 ^ 32"
    and "le_timer_add_countdown s seconds label now_ms = Inr (i, s')"
  shows "\<exists>t. new_timer s s' t \<and> tm_id t = i \<and> tm_kind t = LE_TIMER_COUNTDOWN \<and>
     tm_due_monotonic_ms t = now_ms + seconds * 1000 \<and> tm_label t = set_label label \<and>
     unat (ts_next_id s') = unat (ts_next_id s) + 1"
proof -
  obtain k where k: "free_slot s = Some k"
    using assms(3) by (auto simp: le_timer_add_countdown_def split: if_splits option.splits)
  define t where "t = timer_zero\<lparr>tm_id := ts_next_id s, tm_kind := LE_TIMER_COUNTDOWN,
    tm_state := LE_TIMER_STATE_PENDING, tm_due_monotonic_ms := now_ms + seconds * 1000,
    tm_label := set_label label\<rparr>"
  have "s' = put_timer (s\<lparr>ts_next_id := ts_next_id s + 1\<rparr>) k t" and "i = ts_next_id s"
    using assms(3) k
    by (auto simp: le_timer_add_countdown_def t_def Let_def split: if_splits)
  moreover have "new_timer s (put_timer (s\<lparr>ts_next_id := ts_next_id s + 1\<rparr>) k t) t"
    using assms(1) word_Suc [OF assms(2)] next_id_unused [OF assms(1)]
    by (intro insert_fresh [OF assms(1) k]) (auto simp: t_def ids_ok_def)
  ultimately show ?thesis
    using word_Suc [OF assms(2)] by (intro exI [of _ t]) (simp add: t_def put_timer_def)
qed

lemma add_alarm_new:
  assumes "ids_ok s" and "unat (ts_next_id s) + 1 < 2 ^ 32"
    and "le_timer_add_alarm s due label now_epoch = Inr (i, s')"
  shows "\<exists>t. new_timer s s' t \<and> tm_id t = i \<and> tm_kind t = LE_TIMER_ALARM \<and>
     tm_due_epoch t = due \<and> tm_label t = set_label label \<and>
     unat (ts_next_id s') = unat (ts_next_id s) + 1"
proof -
  obtain k where k: "free_slot s = Some k"
    using assms(3) by (auto simp: le_timer_add_alarm_def split: if_splits option.splits)
  define t where "t = timer_zero\<lparr>tm_id := ts_next_id s, tm_kind := LE_TIMER_ALARM,
    tm_state := LE_TIMER_STATE_PENDING, tm_due_epoch := due, tm_label := set_label label\<rparr>"
  have "s' = put_timer (s\<lparr>ts_next_id := ts_next_id s + 1\<rparr>) k t" and "i = ts_next_id s"
    using assms(3) k by (auto simp: le_timer_add_alarm_def t_def Let_def split: if_splits)
  moreover have "new_timer s (put_timer (s\<lparr>ts_next_id := ts_next_id s + 1\<rparr>) k t) t"
    using assms(1) word_Suc [OF assms(2)] next_id_unused [OF assms(1)]
    by (intro insert_fresh [OF assms(1) k]) (auto simp: t_def ids_ok_def)
  ultimately show ?thesis
    using word_Suc [OF assms(2)] by (intro exI [of _ t]) (simp add: t_def put_timer_def)
qed

lemma restore_ids_fresh:
  assumes "ids_ok s" and "unat (ts_next_id s) + 1 < 2 ^ 32" and "restore_id \<noteq> - 1"
    and "restore_id \<noteq> 0 \<longrightarrow> le_timer_find s restore_id = None"
    and "restore_ids s restore_id = (new_id, n)"
  shows "new_id \<noteq> 0 \<and> new_id < n \<and> ts_next_id s \<le> n \<and> timer_lookup s new_id = None \<and>
     unat n \<le> max (unat restore_id) (unat (ts_next_id s)) + 1"
proof (cases "restore_id = 0")
  case True
  then show ?thesis
    using assms word_Suc [OF assms(2)] next_id_unused [OF assms(1)]
    by (auto simp: restore_ids_def ids_ok_def)
next
  case False
  have "unat restore_id + 1 < 2 ^ 32"
    using unat_below_max [OF assms(3)] by simp
  then show ?thesis
    using False assms word_Suc [of restore_id]
    by (auto simp: restore_ids_def timer_lookup_def word_less_nat_alt word_le_nat_alt split: if_splits)
qed

lemma restore_new:
  assumes "ids_ok s" and "unat (ts_next_id s) + 1 < 2 ^ 32" and "restore_id \<noteq> - 1"
    and "restore_timer s kind restore_id due label now_epoch now_ms = Inr (i, s')"
  shows "\<exists>t. new_timer s s' t \<and> tm_id t = i \<and> tm_kind t = kind \<and> tm_due_epoch t = due \<and>
     tm_due_monotonic_ms t = now_ms + (due - now_epoch) * 1000 \<and> tm_label t = set_label label \<and>
     (restore_id \<noteq> 0 \<longrightarrow> i = restore_id) \<and>
     unat (ts_next_id s') \<le> max (unat restore_id) (unat (ts_next_id s)) + 1"
proof -
  obtain new_id n where ids: "restore_ids s restore_id = (new_id, n)" by fastforce
  obtain k where k: "free_slot s = Some k"
    using assms(4) by (auto simp: restore_timer_def Let_def split: if_splits option.splits)
  define t where "t = timer_zero\<lparr>tm_id := new_id, tm_kind := kind,
    tm_state := LE_TIMER_STATE_PENDING, tm_due_epoch := due,
    tm_due_monotonic_ms := now_ms + (due - now_epoch) * 1000, tm_label := set_label label\<rparr>"
  have "s' = put_timer (s\<lparr>ts_next_id := n\<rparr>) k t" and "i = new_id"
    and find: "restore_id \<noteq> 0 \<longrightarrow> le_timer_find s restore_id = None"
    using assms(4) k ids by (auto simp: restore_timer_def t_def Let_def split: if_splits)
  moreover note fresh = restore_ids_fresh [OF assms(1-3) find ids]
  moreover have "new_timer s (put_timer (s\<lparr>ts_next_id := n\<rparr>) k t) t"
    using fresh by (intro insert_fresh [OF assms(1) k]) (auto simp: t_def)
  ultimately show ?thesis
    using ids by (intro exI [of _ t]) (auto simp: t_def put_timer_def restore_ids_def split: if_splits)
qed

section \<open>Removal and the step\<close>

lemma cancel_lookup:
  assumes "ids_ok s"
  shows "le_timer_cancel s i =
    (case timer_lookup s i of
       Some t \<Rightarrow> if tm_state t = LE_TIMER_STATE_PENDING
                 then Inr (put_timer s (the (le_timer_find s i)) timer_zero)
                 else Inl LE_TIMER_ERR_NOT_FOUND
     | None \<Rightarrow> Inl LE_TIMER_ERR_NOT_FOUND)"
  by (simp add: le_timer_cancel_def timer_lookup_def split: option.split)

lemma clear_found:
  assumes "ids_ok s" and "timer_lookup s i = Some t"
  shows "timer_lookup (put_timer s (the (le_timer_find s i)) timer_zero) = (timer_lookup s)(i := None)"
    and "ids_ok (put_timer s (the (le_timer_find s i)) timer_zero)"
proof -
  obtain k where k: "le_timer_find s i = Some k" using assms(2) by (auto simp: timer_lookup_def)
  note f = find_Some [OF k]
  show "timer_lookup (put_timer s (the (le_timer_find s i)) timer_zero) = (timer_lookup s)(i := None)"
    using lookup_clear [OF assms(1), of k] f k by simp
  show "ids_ok (put_timer s (the (le_timer_find s i)) timer_zero)"
    using ids_ok_clear [OF assms(1)] f k by simp
qed

text \<open>A pass over the slots that only clears or changes timers in place.\<close>

definition in_place :: "(le_timer \<Rightarrow> le_timer) \<Rightarrow> bool" where
  "in_place f \<longleftrightarrow> (\<forall>t. (free t \<longrightarrow> free (f t)) \<and> (\<not> free (f t) \<longrightarrow> tm_id (f t) = tm_id t))"

lemma ids_ok_map: "ids_ok s \<Longrightarrow> in_place f \<Longrightarrow> ids_ok (s\<lparr>ts_timers := map f (ts_timers s)\<rparr>)"
  unfolding ids_ok_def in_place_def by simp metis

lemma ids_ok_missed [simp]: "ids_ok (s\<lparr>ts_missed := n\<rparr>) = ids_ok s"
  by (simp add: ids_ok_def)

lemma lookup_missed [simp]: "timer_lookup (s\<lparr>ts_missed := n\<rparr>) = timer_lookup s"
  by (simp add: timer_lookup_def le_timer_find_def fun_eq_iff)

lemma lookup_map:
  assumes "ids_ok s" and "in_place f"
  shows "timer_lookup (s\<lparr>ts_timers := map f (ts_timers s)\<rparr>) i =
    (case timer_lookup s i of None \<Rightarrow> None | Some t \<Rightarrow> if free (f t) then None else Some (f t))"
proof (rule option_eqI)
  fix u
  have ids: "\<not> free (f t) \<Longrightarrow> tm_id (f t) = tm_id t \<and> \<not> free t" for t
    using assms(2) by (auto simp: in_place_def)
  have "timer_lookup (s\<lparr>ts_timers := map f (ts_timers s)\<rparr>) i = Some u \<longleftrightarrow>
      u \<in> f ` set (ts_timers s) \<and> \<not> free u \<and> tm_id u = i"
    by (simp add: lookup_iff [OF ids_ok_map [OF assms]])
  also have "\<dots> \<longleftrightarrow> (\<exists>t. timer_lookup s i = Some t \<and> u = f t \<and> \<not> free u)"
  proof
    assume "u \<in> f ` set (ts_timers s) \<and> \<not> free u \<and> tm_id u = i"
    then obtain t where "t \<in> set (ts_timers s)" and u: "u = f t" "\<not> free u" "tm_id u = i" by blast
    then show "\<exists>t. timer_lookup s i = Some t \<and> u = f t \<and> \<not> free u"
      using ids [of t] by (intro exI [of _ t]) (simp add: lookup_iff [OF assms(1)])
  next
    assume "\<exists>t. timer_lookup s i = Some t \<and> u = f t \<and> \<not> free u"
    then show "u \<in> f ` set (ts_timers s) \<and> \<not> free u \<and> tm_id u = i"
      using ids by (auto simp: lookup_iff [OF assms(1)])
  qed
  also have "\<dots> \<longleftrightarrow>
    (case timer_lookup s i of None \<Rightarrow> None | Some t \<Rightarrow> if free (f t) then None else Some (f t)) = Some u"
    by (auto split: option.split)
  finally show "timer_lookup (s\<lparr>ts_timers := map f (ts_timers s)\<rparr>) i = Some u \<longleftrightarrow>
    (case timer_lookup s i of None \<Rightarrow> None | Some t \<Rightarrow> if free (f t) then None else Some (f t)) = Some u" .
qed

lemma step_slots_map:
  "step_slots now_ms now_epoch ts =
     (map (\<lambda>t. fst (step_slot now_ms now_epoch t)) ts, map (\<lambda>t. snd (step_slot now_ms now_epoch t)) ts)"
  by (induction ts) (simp_all add: split_beta)

lemma step_in_place: "in_place (\<lambda>t. fst (step_slot now_ms now_epoch t))"
  by (auto simp: in_place_def step_slot_def)

lemma dismiss_slots_map:
  "dismiss_slots ts = (length (List.filter (\<lambda>t. tm_state t = LE_TIMER_STATE_RINGING) ts),
     map (\<lambda>t. if tm_state t = LE_TIMER_STATE_RINGING then timer_zero else t) ts)"
  by (induction ts) auto

lemma dismiss_in_place: "in_place (\<lambda>t. if tm_state t = LE_TIMER_STATE_RINGING then timer_zero else t)"
  by (auto simp: in_place_def)

lemma fired_ids_map:
  "fired_ids (map (\<lambda>t. snd (step_slot now_ms now_epoch t)) ts) =
     map tm_id (List.filter (\<lambda>t. \<exists>i. snd (step_slot now_ms now_epoch t) = Fired i) ts)"
proof (induction ts)
  case (Cons t ts)
  have "snd (step_slot now_ms now_epoch t) = Fired i \<Longrightarrow> i = tm_id t" for i
    by (auto simp: step_slot_def split: if_splits)
  with Cons show ?case by (cases "snd (step_slot now_ms now_epoch t)") auto
qed simp

section \<open>The schedule as a machine\<close>

datatype timer_op =
    Add_Countdown int "string option" int
  | Add_Alarm int "string option" int
  | Restore timer_kind u32 int "string option" int int
  | Cancel u32
  | Cancel_At u32 int int
  | Dismiss u32
  | Dismiss_All
  | Step int int nat

fun timer_apply :: "le_timer_set \<Rightarrow> timer_op \<Rightarrow> le_timer_set" where
  "timer_apply s (Add_Countdown n l t) =
     (case le_timer_add_countdown s n l t of Inl _ \<Rightarrow> s | Inr (_, s') \<Rightarrow> s')"
| "timer_apply s (Add_Alarm d l e) =
     (case le_timer_add_alarm s d l e of Inl _ \<Rightarrow> s | Inr (_, s') \<Rightarrow> s')"
| "timer_apply s (Restore k i d l e t) =
     (case restore_timer s k i d l e t of Inl _ \<Rightarrow> s | Inr (_, s') \<Rightarrow> s')"
| "timer_apply s (Cancel i) = (case le_timer_cancel s i of Inl _ \<Rightarrow> s | Inr s' \<Rightarrow> s')"
| "timer_apply s (Cancel_At i t e) = fst (le_timer_cancel_at s i t e)"
| "timer_apply s (Dismiss i) = snd (le_timer_dismiss s i)"
| "timer_apply s Dismiss_All = snd (le_timer_dismiss_all s)"
| "timer_apply s (Step t e m) = snd (snd (le_timer_step s t e m))"

lemma length_set_label [bounds]: "length (set_label l) < LE_TIMER_LABEL_MAX"
  by (auto simp: set_label_def timer_limits split: option.split)

definition slot_wf :: "le_timer \<Rightarrow> bool" where
  "slot_wf t \<longleftrightarrow> (free t \<longrightarrow> t = timer_zero) \<and> length (tm_label t) < LE_TIMER_LABEL_MAX"

lemma timers_wf_slots:
  "timers_wf s \<longleftrightarrow> length (ts_timers s) = LE_TIMER_MAX \<and> (\<forall>t\<in>set (ts_timers s). slot_wf t)"
  by (simp add: timers_wf_def slot_wf_def)

lemma slot_wf_zero [simp]: "slot_wf timer_zero"
  by (simp add: slot_wf_def LE_TIMER_LABEL_MAX_def)

lemma wf_put: "timers_wf s \<Longrightarrow> slot_wf t \<Longrightarrow> timers_wf (put_timer (s\<lparr>ts_next_id := n\<rparr>) k t)"
  unfolding timers_wf_slots put_timer_def by (auto dest!: set_update_subset_insert [THEN subsetD])

lemma wf_clear: "timers_wf s \<Longrightarrow> timers_wf (put_timer s k timer_zero)"
  unfolding timers_wf_slots put_timer_def by (auto dest!: set_update_subset_insert [THEN subsetD])

lemma wf_map: "timers_wf s \<Longrightarrow> (\<And>t. slot_wf t \<Longrightarrow> slot_wf (f t)) \<Longrightarrow>
    timers_wf (s\<lparr>ts_timers := map f (ts_timers s)\<rparr>)"
  unfolding timers_wf_slots by auto

lemma wf_missed [simp]: "timers_wf (s\<lparr>ts_missed := n\<rparr>) = timers_wf s"
  by (simp add: timers_wf_def)

lemma slot_wf_step: "slot_wf t \<Longrightarrow> slot_wf (fst (step_slot now_ms now_epoch t))"
  by (auto simp: step_slot_def slot_wf_def LE_TIMER_LABEL_MAX_def)

lemma step_set:
  "snd (snd (le_timer_step s now_ms now_epoch m)) =
     s\<lparr>ts_timers := map (\<lambda>t. fst (step_slot now_ms now_epoch t)) (ts_timers s),
       ts_missed := ts_missed s +
         of_nat (count_list (map (\<lambda>t. snd (step_slot now_ms now_epoch t)) (ts_timers s)) Missed)\<rparr>"
  by (simp add: le_timer_step_def step_slots_map Let_def)

lemma dismiss_all_set:
  "snd (le_timer_dismiss_all s) = s\<lparr>ts_timers :=
     map (\<lambda>t. if tm_state t = LE_TIMER_STATE_RINGING then timer_zero else t) (ts_timers s)\<rparr>"
  by (simp add: le_timer_dismiss_all_def dismiss_slots_map)

lemma wf_step: "timers_wf s \<Longrightarrow> timers_wf (snd (snd (le_timer_step s now_ms now_epoch m)))"
  unfolding step_set using wf_map [of s "\<lambda>t. fst (step_slot now_ms now_epoch t)"] slot_wf_step
  by (simp add: timers_wf_def)

lemma wf_cancel: "timers_wf s \<Longrightarrow> le_timer_cancel s i = Inr s' \<Longrightarrow> timers_wf s'"
  by (auto simp: le_timer_cancel_def wf_clear split: option.splits if_splits)

lemma cancel_at_set:
  "fst (le_timer_cancel_at s i now_ms now_epoch) =
     (case le_timer_cancel (snd (snd (le_timer_step s now_ms now_epoch 0))) i of
        Inl _ \<Rightarrow> snd (snd (le_timer_step s now_ms now_epoch 0)) | Inr s' \<Rightarrow> s')"
  by (auto simp: le_timer_cancel_at_def split_beta split: sum.split)

lemma wf_apply: "timers_wf s \<Longrightarrow> timers_wf (timer_apply s op)"
proof (cases op)
  case (Add_Countdown n l t)
  then show "timers_wf s \<Longrightarrow> ?thesis"
    by (auto simp: le_timer_add_countdown_def Let_def slot_wf_def bounds intro!: wf_put split: option.split)
next
  case (Add_Alarm n l t)
  then show "timers_wf s \<Longrightarrow> ?thesis"
    by (auto simp: le_timer_add_alarm_def Let_def slot_wf_def bounds intro!: wf_put split: option.split)
next
  case (Restore k i d l e t)
  then show "timers_wf s \<Longrightarrow> ?thesis"
    by (auto simp: restore_timer_def Let_def slot_wf_def bounds split_beta intro!: wf_put split: option.split)
next
  case (Cancel i)
  then show "timers_wf s \<Longrightarrow> ?thesis" by (auto intro: wf_cancel split: sum.split)
next
  case (Cancel_At i t e)
  then show "timers_wf s \<Longrightarrow> ?thesis"
    by (auto simp: cancel_at_set intro: wf_cancel wf_step split: sum.split)
next
  case (Dismiss i)
  then show "timers_wf s \<Longrightarrow> ?thesis" by (auto simp: le_timer_dismiss_def wf_clear split: option.split)
next
  case Dismiss_All
  then show "timers_wf s \<Longrightarrow> ?thesis" by (auto simp: dismiss_all_set intro!: wf_map)
next
  case (Step t e m)
  then show "timers_wf s \<Longrightarrow> ?thesis" by (simp add: wf_step)
qed

interpretation timers: machine "\<lambda>s. s = le_timer_set_init" timer_apply timers_wf
proof unfold_locales
  show "s = le_timer_set_init \<Longrightarrow> timers_wf s" for s
    by (simp add: timers_wf_slots le_timer_set_init_def)
qed (rule wf_apply)

section \<open>Ids in every run\<close>

lemma ids_ok_init: "ids_ok le_timer_set_init"
  by (simp add: ids_ok_def le_timer_set_init_def timer_zero_def)

lemma ids_ok_step: "ids_ok s \<Longrightarrow> ids_ok (snd (snd (le_timer_step s now_ms now_epoch m)))"
  unfolding step_set using ids_ok_map [OF _ step_in_place, of s]
  by (simp add: ids_ok_def)

lemma lookup_step:
  "ids_ok s \<Longrightarrow> timer_lookup (snd (snd (le_timer_step s now_ms now_epoch m))) i =
    (case timer_lookup s i of None \<Rightarrow> None
     | Some t \<Rightarrow> if free (fst (step_slot now_ms now_epoch t)) then None
                 else Some (fst (step_slot now_ms now_epoch t)))"
  unfolding step_set lookup_missed by (rule lookup_map [OF _ step_in_place])

lemma cancel_ok: "ids_ok s \<Longrightarrow> le_timer_cancel s i = Inr s' \<Longrightarrow>
    ids_ok s' \<and> timer_lookup s' = (timer_lookup s)(i := None)"
  using clear_found [of s i]
  by (auto simp: cancel_lookup split: option.splits if_splits)

lemma dismiss_lookup:
  "le_timer_dismiss s i =
    (case timer_lookup s i of
       Some t \<Rightarrow> if tm_state t = LE_TIMER_STATE_RINGING
                 then (1, put_timer s (the (le_timer_find s i)) timer_zero) else (0, s)
     | None \<Rightarrow> (0, s))"
  by (auto simp: le_timer_dismiss_def timer_lookup_def split: option.split)

lemma dismiss_ok: "ids_ok s \<Longrightarrow> le_timer_dismiss s i = (n, s') \<Longrightarrow>
    ids_ok s' \<and> timer_lookup s' = (if n = 0 then timer_lookup s else (timer_lookup s)(i := None))"
  using clear_found [of s i]
  by (auto simp: dismiss_lookup split: option.splits if_splits)

lemma next_id_frame [frame]:
  "ts_next_id (snd (snd (le_timer_step s now_ms now_epoch m))) = ts_next_id s"
  "le_timer_cancel s i = Inr s' \<Longrightarrow> ts_next_id s' = ts_next_id s"
  "ts_next_id (snd (le_timer_dismiss s i)) = ts_next_id s"
  "ts_next_id (snd (le_timer_dismiss_all s)) = ts_next_id s"
  by (auto simp: step_set dismiss_all_set le_timer_cancel_def le_timer_dismiss_def put_timer_def
      split: option.splits if_splits)

fun restored_id :: "timer_op \<Rightarrow> nat" where
  "restored_id (Restore k i d l e t) = unat i"
| "restored_id _ = 0"

lemma ids_ok_apply:
  assumes "ids_ok s" and "unat (ts_next_id s) + 1 < 2 ^ 32" and "restored_id op + 1 < 2 ^ 32"
  shows "ids_ok (timer_apply s op) \<and>
    unat (ts_next_id (timer_apply s op)) \<le> max (restored_id op) (unat (ts_next_id s)) + 1"
proof (cases op)
  case (Add_Countdown n l t)
  then show ?thesis
    using add_countdown_new [OF assms(1,2)] assms(1)
    by (fastforce simp: new_timer_def split: sum.split)
next
  case (Add_Alarm n l t)
  then show ?thesis
    using add_alarm_new [OF assms(1,2)] assms(1)
    by (fastforce simp: new_timer_def split: sum.split)
next
  case (Restore k i d l e t)
  then have "i \<noteq> - 1" using assms(3) by (auto simp: unsigned_minus_1_eq_mask mask_eq_exp_minus_1)
  with Restore show ?thesis
    using restore_new [OF assms(1,2)] assms(1)
    by (fastforce simp: new_timer_def split: sum.split)
next
  case (Cancel i)
  then show ?thesis using assms(1) by (auto simp: frame dest: cancel_ok split: sum.split)
next
  case (Cancel_At i t e)
  then show ?thesis
    using ids_ok_step [OF assms(1), of t e 0] cancel_ok frame(1) [of s t e 0] frame(2)
    by (force simp: cancel_at_set split: sum.split)
next
  case (Dismiss i)
  then show ?thesis
    using dismiss_ok [OF assms(1), of i] frame(3) [of s i] by (cases "le_timer_dismiss s i") auto
next
  case Dismiss_All
  then show ?thesis
    using ids_ok_map [OF assms(1) dismiss_in_place] frame(4) [of s] by (simp add: dismiss_all_set)
next
  case (Step t e m)
  then show ?thesis using ids_ok_step [OF assms(1)] frame(1) by simp
qed

lemma ids_ok_run:
  "ids_ok s \<Longrightarrow> \<forall>op\<in>set ops. restored_id op \<le> m \<Longrightarrow> unat (ts_next_id s) \<le> m + k + 1 \<Longrightarrow>
   m + k + length ops + 1 < 2 ^ 32 \<Longrightarrow> ids_ok (run timer_apply s ops)"
proof (induction ops arbitrary: s k)
  case (Cons op ops)
  have small: "unat (ts_next_id s) + 1 < 2 ^ 32" "restored_id op + 1 < 2 ^ 32" "restored_id op \<le> m"
    using Cons.prems by auto
  note after = ids_ok_apply [OF Cons.prems(1) small(1,2)]
  have "unat (ts_next_id (timer_apply s op)) \<le> m + (k + 1) + 1"
    using after small(3) Cons.prems(3) by linarith
  then show ?case
    using Cons.IH [of "timer_apply s op" "k + 1"] after Cons.prems by simp
qed simp

section \<open>What a step does\<close>

text \<open>The timers a step at an instant makes ring, and the ones it drops as missed.\<close>

definition due_now :: "int \<Rightarrow> int \<Rightarrow> le_timer \<Rightarrow> bool" where
  "due_now now_ms now_epoch t \<longleftrightarrow> tm_state t = LE_TIMER_STATE_PENDING \<and>
     (case tm_kind t of
        LE_TIMER_COUNTDOWN \<Rightarrow> now_ms - 61000 < tm_due_monotonic_ms t \<and> tm_due_monotonic_ms t \<le> now_ms
      | LE_TIMER_ALARM \<Rightarrow> LE_TIMER_CLOCK_VALID_EPOCH \<le> now_epoch \<and>
          now_epoch - LE_TIMER_MISS_GRACE_SECONDS \<le> tm_due_epoch t \<and> tm_due_epoch t \<le> now_epoch)"

lemma late_ms: "d \<ge> 0 \<Longrightarrow> c_div d 1000 > 60 \<longleftrightarrow> d \<ge> 61000"
proof -
  assume "d \<ge> 0"
  then have "c_div d 1000 = d div 1000" by simp
  moreover have "0 \<le> d mod 1000" and "d mod 1000 < 1000" and "d = d div 1000 * 1000 + d mod 1000"
    by simp_all
  ultimately show ?thesis by linarith
qed

lemma fired_due: "(\<exists>i. snd (step_slot now_ms now_epoch t) = Fired i) \<longleftrightarrow> due_now now_ms now_epoch t"
  using late_ms [of "now_ms - tm_due_monotonic_ms t"]
  by (cases "tm_kind t")
     (auto simp: step_slot_def due_now_def countdown_due_def alarm_due_def too_late_def timer_limits)

lemma fired_slot: "due_now now_ms now_epoch t \<Longrightarrow> step_slot now_ms now_epoch t =
    (t\<lparr>tm_state := LE_TIMER_STATE_RINGING, tm_ring_started_ms := now_ms\<rparr>, Fired (tm_id t))"
  using late_ms [of "now_ms - tm_due_monotonic_ms t"]
  by (cases "tm_kind t")
     (auto simp: step_slot_def due_now_def countdown_due_def alarm_due_def too_late_def timer_limits)

lemma step_slot_again:
  "step_slot now_ms now_epoch (fst (step_slot now_ms now_epoch t)) =
     (fst (step_slot now_ms now_epoch t), Quiet)"
  by (auto simp: step_slot_def LE_TIMER_RING_SECONDS_def)

lemma step_count: "fst (le_timer_step s now_ms now_epoch m) =
    length (List.filter (due_now now_ms now_epoch) (ts_timers s))"
  by (simp add: le_timer_step_def step_slots_map fired_ids_map fired_due Let_def)

lemma step_written: "fst (snd (le_timer_step s now_ms now_epoch m)) =
    take m (map tm_id (List.filter (due_now now_ms now_epoch) (ts_timers s)))"
  by (simp add: le_timer_step_def step_slots_map fired_ids_map fired_due Let_def)

lemma distinct_live_ids:
  assumes "ids_ok s" and "\<And>t. p t \<Longrightarrow> \<not> free t"
  shows "distinct (map tm_id (List.filter p (ts_timers s)))"
proof -
  have "distinct (map tm_id (List.filter p ts))"
    if "\<forall>i<length ts. \<forall>j<length ts. i \<noteq> j \<longrightarrow> \<not> free (ts ! i) \<longrightarrow> \<not> free (ts ! j) \<longrightarrow>
      tm_id (ts ! i) \<noteq> tm_id (ts ! j)" for ts
    using that
  proof (induction ts)
    case (Cons t ts)
    have "\<forall>i<length ts. \<forall>j<length ts. i \<noteq> j \<longrightarrow> \<not> free (ts ! i) \<longrightarrow> \<not> free (ts ! j) \<longrightarrow>
        tm_id (ts ! i) \<noteq> tm_id (ts ! j)"
      using Cons.prems by (metis Suc_less_eq Suc_inject length_Cons nth_Cons_Suc)
    then have "distinct (map tm_id (List.filter p ts))" by (rule Cons.IH)
    moreover have "tm_id u \<noteq> tm_id t" if "u \<in> set ts" "\<not> free u" "\<not> free t" for u
      using Cons.prems that by (fastforce simp: in_set_conv_nth)
    then have "p t \<Longrightarrow> tm_id t \<notin> tm_id ` set (List.filter p ts)"
      using assms(2) by (metis (no_types, lifting) imageE mem_Collect_eq set_filter)
    ultimately show ?case by simp
  qed simp
  then show ?thesis using assms(1) by (simp add: ids_ok_def)
qed

lemma due_ids:
  "ids_ok s \<Longrightarrow> i \<in> set (map tm_id (List.filter (due_now now_ms now_epoch) (ts_timers s))) \<longleftrightarrow>
    (\<exists>t. timer_lookup s i = Some t \<and> due_now now_ms now_epoch t)"
  by (auto simp: lookup_iff due_now_def)

section \<open>The poll timeout\<close>

lemma poll_slots_min:
  "poll_slots now_ms now_epoch c ts \<le> c \<and>
   (\<forall>t\<in>set ts. \<forall>r. slot_remaining now_ms now_epoch t = Some r \<longrightarrow>
      poll_slots now_ms now_epoch c ts \<le> max 0 r) \<and>
   (poll_slots now_ms now_epoch c ts = c \<or>
    (\<exists>t\<in>set ts. \<exists>r. slot_remaining now_ms now_epoch t = Some r \<and>
       poll_slots now_ms now_epoch c ts = max 0 r))"
proof (induction ts arbitrary: c)
  case (Cons t ts)
  show ?case
  proof (cases "slot_remaining now_ms now_epoch t")
    case None
    then show ?thesis using Cons by simp
  next
    case (Some r)
    then have "poll_slots now_ms now_epoch c (t # ts) = poll_slots now_ms now_epoch (min c (max 0 r)) ts"
      by (simp add: Let_def max_def min_def)
    moreover have "min c (max 0 r) = c \<or> min c (max 0 r) = max 0 r" by linarith
    ultimately show ?thesis
      using Cons [of "min c (max 0 r)"] Some by auto
  qed
qed simp

lemma slot_quiet:
  assumes "slot_remaining now_ms now_epoch t = None \<or>
      (\<exists>r. slot_remaining now_ms now_epoch t = Some r \<and> d \<le> max 0 r)"
    and "0 \<le> e" and "e < d" and "0 \<le> a" and "a * 1000 \<le> e"
    and "LE_TIMER_CLOCK_VALID_EPOCH \<le> now_epoch + a \<longleftrightarrow> LE_TIMER_CLOCK_VALID_EPOCH \<le> now_epoch"
  shows "step_slot (now_ms + e) (now_epoch + a) t = (t, Quiet)"
  using assms
  by (cases "tm_kind t"; cases "tm_state t")
     (auto simp: slot_remaining_def step_slot_def countdown_due_def alarm_due_def split: if_splits)

lemma slot_progress:
  assumes "slot_remaining now_ms now_epoch t = Some r" and "d = max 0 r"
  shows "fst (step_slot (now_ms + d) (now_epoch + d div 1000) t) \<noteq> t"
proof -
  have "tm_state (fst (step_slot (now_ms + d) (now_epoch + d div 1000) t)) \<noteq> tm_state t"
    using assms
    by (cases "tm_kind t"; cases "tm_state t")
       (auto simp: slot_remaining_def step_slot_def countdown_due_def alarm_due_def max_def
          split: if_splits)
  then show ?thesis by auto
qed

lemma step_quiet:
  assumes "\<And>t. t \<in> set (ts_timers s) \<Longrightarrow> step_slot now_ms now_epoch t = (t, Quiet)"
  shows "le_timer_step s now_ms now_epoch m = (0, [], s)"
proof -
  have "step_slots now_ms now_epoch ts = (ts, replicate (length ts) Quiet)"
    if "\<And>t. t \<in> set ts \<Longrightarrow> step_slot now_ms now_epoch t = (t, Quiet)" for ts
    using that by (induction ts) auto
  moreover have "fired_ids (replicate n Quiet) = []" and "count_list (replicate n Quiet) Missed = 0" for n
    by (induction n) auto
  ultimately show ?thesis using assms by (simp add: le_timer_step_def)
qed

lemma poll_bounds:
  assumes "0 \<le> cap" and "d = le_timer_poll_timeout_ms s now_ms now_epoch cap"
  shows "0 \<le> d \<and> d \<le> cap"
  using poll_slots_min [of now_ms now_epoch cap "ts_timers s"] assms
  by (auto simp: le_timer_poll_timeout_ms_def)

lemma poll_sound:
  assumes "0 \<le> cap" and "d = le_timer_poll_timeout_ms s now_ms now_epoch cap"
    and "0 \<le> e" "e < d" "0 \<le> a" "a * 1000 \<le> e"
    and "LE_TIMER_CLOCK_VALID_EPOCH \<le> now_epoch + a \<longleftrightarrow> LE_TIMER_CLOCK_VALID_EPOCH \<le> now_epoch"
  shows "le_timer_step s (now_ms + e) (now_epoch + a) m = (0, [], s)"
proof (rule step_quiet)
  fix t assume "t \<in> set (ts_timers s)"
  then have "slot_remaining now_ms now_epoch t = None \<or>
      (\<exists>r. slot_remaining now_ms now_epoch t = Some r \<and> d \<le> max 0 r)"
    using poll_slots_min [of now_ms now_epoch cap "ts_timers s"] assms(2)
    by (cases "slot_remaining now_ms now_epoch t") (simp_all add: le_timer_poll_timeout_ms_def)
  then show "step_slot (now_ms + e) (now_epoch + a) t = (t, Quiet)"
    using assms(3-7) by (rule slot_quiet)
qed

lemma poll_progress:
  assumes "0 \<le> cap" and "d = le_timer_poll_timeout_ms s now_ms now_epoch cap" and "d < cap"
  shows "snd (snd (le_timer_step s (now_ms + d) (now_epoch + d div 1000) m)) \<noteq> s"
proof
  let ?f = "\<lambda>t. fst (step_slot (now_ms + d) (now_epoch + d div 1000) t)"
  obtain t r where t: "t \<in> set (ts_timers s)" "slot_remaining now_ms now_epoch t = Some r" "d = max 0 r"
    using poll_slots_min [of now_ms now_epoch cap "ts_timers s"] assms(2,3)
    by (auto simp: le_timer_poll_timeout_ms_def)
  assume "snd (snd (le_timer_step s (now_ms + d) (now_epoch + d div 1000) m)) = s"
  then have "ts_timers (snd (snd (le_timer_step s (now_ms + d) (now_epoch + d div 1000) m))) = ts_timers s"
    by simp
  then have "map ?f (ts_timers s) = ts_timers s" by (simp add: step_set)
  then show False using map_fixed [OF _ t(1)] slot_progress [OF t(2,3)] by blast
qed

section \<open>Properties\<close>

text \<open>
  After any sequence of operations on a fresh set, whatever their arguments, there are sixteen
  slots, a free slot is all zeroes (nothing of a cancelled or expired timer stays behind) and every
  label fits its field with its terminator.
\<close>

theorem timer_slots_well_formed:
  "let s = run timer_apply le_timer_set_init ops in
     length (ts_timers s) = LE_TIMER_MAX \<and>
     (\<forall>t\<in>set (ts_timers s). tm_state t = LE_TIMER_STATE_FREE \<longrightarrow> t = timer_zero) \<and>
     (\<forall>t\<in>set (ts_timers s). length (tm_label t) < LE_TIMER_LABEL_MAX)"
  using timers.inv_from_start [OF refl] by (simp add: timers_wf_def Let_def)

theorem timer_slots_well_formed_witness:
  "let s = run timer_apply le_timer_set_init
             [Add_Countdown 5 (Some ''tea'') 0, Step 5000 0 4, Dismiss 1]
   in length (ts_timers s) = LE_TIMER_MAX \<and>
     (\<forall>t\<in>set (ts_timers s). tm_state t = LE_TIMER_STATE_FREE \<longrightarrow> t = timer_zero) \<and>
     (\<forall>t\<in>set (ts_timers s). length (tm_label t) < LE_TIMER_LABEL_MAX)"
  by (rule timer_slots_well_formed)

text \<open>
  In every run that restores no id above \<open>m\<close> and is too short to exhaust the 32-bit ids, an id
  finds exactly its own timer: no live timer has id 0 or shares its id with another one.
\<close>

theorem timer_ids_identify:
  assumes "\<forall>op\<in>set ops. restored_id op \<le> m" and "m + length ops + 2 < 2 ^ 32"
    and "s = run timer_apply le_timer_set_init ops"
    and "k < LE_TIMER_MAX" and "tm_state (ts_timers s ! k) \<noteq> LE_TIMER_STATE_FREE"
  shows "tm_id (ts_timers s ! k) \<noteq> 0 \<and> le_timer_find s (tm_id (ts_timers s ! k)) = Some k"
proof -
  have "ids_ok s"
    using assms(1,2) unfolding assms(3)
    by (intro ids_ok_run [OF ids_ok_init, of _ m 0]) (simp_all add: le_timer_set_init_def)
  moreover have "k < length (ts_timers s)"
    using timers.inv_from_start [OF refl, of ops] assms(3,4) by (simp add: timers_wf_def)
  ultimately show ?thesis using find_eq assms(5) by (auto simp: ids_ok_def)
qed

theorem timer_ids_identify_witness:
  "let s = run timer_apply le_timer_set_init
             [Add_Countdown 5 None 0, Restore LE_TIMER_ALARM 9 1600000100 None 1600000000 0]
   in tm_id (ts_timers s ! 1) \<noteq> 0 \<and> le_timer_find s (tm_id (ts_timers s ! 1)) = Some 1"
  unfolding Let_def
  by (rule timer_ids_identify [where m = 9, OF _ _ refl]) (simp, simp, code_simp, code_simp)

text \<open>
  Adding a countdown either refuses, with the error that names the reason, or binds a fresh id
  to a pending timer due exactly the requested time from now, leaving every other timer as it was.
\<close>

theorem timer_add_countdown_binds:
  assumes "ids_ok s" and "unat (ts_next_id s) + 1 < 2 ^ 32"
  shows "case le_timer_add_countdown s seconds label now_ms of
      Inl e \<Rightarrow> (e = LE_TIMER_ERR_RANGE \<and> (seconds < 1 \<or> seconds > 604800)) \<or>
               (e = LE_TIMER_ERR_FULL \<and> (\<forall>t\<in>set (ts_timers s). tm_state t \<noteq> LE_TIMER_STATE_FREE))
    | Inr (i, s') \<Rightarrow> 1 \<le> seconds \<and> seconds \<le> 604800 \<and> ids_ok s' \<and> timer_lookup s i = None \<and>
        (\<exists>t. timer_lookup s' = (timer_lookup s)(i \<mapsto> t) \<and> tm_state t = LE_TIMER_STATE_PENDING \<and>
           tm_kind t = LE_TIMER_COUNTDOWN \<and> tm_due_monotonic_ms t = now_ms + seconds * 1000 \<and>
           tm_label t = set_label label)"
proof (cases "le_timer_add_countdown s seconds label now_ms")
  case (Inl e)
  then show ?thesis
    by (auto simp: le_timer_add_countdown_def timer_limits free_slot_None Let_def
        split: if_splits option.splits)
next
  case (Inr p)
  then obtain i s' where p: "p = (i, s')" by (cases p)
  have "1 \<le> seconds \<and> seconds \<le> 604800"
    using Inr by (auto simp: le_timer_add_countdown_def timer_limits split: if_splits)
  moreover obtain t where "new_timer s s' t" "tm_id t = i" "tm_kind t = LE_TIMER_COUNTDOWN"
      "tm_due_monotonic_ms t = now_ms + seconds * 1000" "tm_label t = set_label label"
    using add_countdown_new [OF assms] Inr p by blast
  ultimately show ?thesis using Inr p by (auto simp: new_timer_def)
qed

theorem timer_add_countdown_binds_witness:
  "case le_timer_add_countdown le_timer_set_init 60 (Some ''egg'') 1000 of
     Inl e \<Rightarrow> False
   | Inr (i, s') \<Rightarrow> ids_ok s' \<and> timer_lookup le_timer_set_init i = None"
proof -
  have "\<not> isl (le_timer_add_countdown le_timer_set_init 60 (Some ''egg'') 1000)"
    by code_simp
  then show ?thesis
    using timer_add_countdown_binds [where seconds = 60 and label = "Some ''egg''" and now_ms = 1000,
        OF ids_ok_init]
    by (auto simp: le_timer_set_init_def split: sum.splits)
qed

text \<open>
  A persisted timer comes back under the id it was saved with (or a fresh one), with the same
  kind, label and due instant on both clocks, and takes no other timer's place; it is refused when
  the clock is not credible, it is more than a minute late, or its id is taken.
\<close>

theorem timer_restore_binds:
  assumes "ids_ok s" and "unat (ts_next_id s) + 1 < 2 ^ 32" and "restore_id \<noteq> - 1"
  shows "case restore_timer s kind restore_id due label now_epoch now_ms of
      Inl e \<Rightarrow> now_epoch < LE_TIMER_CLOCK_VALID_EPOCH \<or> due < now_epoch - 60 \<or>
        (kind = LE_TIMER_COUNTDOWN \<and> due > now_epoch + 604800) \<or>
        (restore_id \<noteq> 0 \<and> timer_lookup s restore_id \<noteq> None) \<or>
        (\<forall>t\<in>set (ts_timers s). tm_state t \<noteq> LE_TIMER_STATE_FREE)
    | Inr (i, s') \<Rightarrow> LE_TIMER_CLOCK_VALID_EPOCH \<le> now_epoch \<and> now_epoch - 60 \<le> due \<and>
        (restore_id \<noteq> 0 \<longrightarrow> i = restore_id) \<and> ids_ok s' \<and> timer_lookup s i = None \<and>
        (\<exists>t. timer_lookup s' = (timer_lookup s)(i \<mapsto> t) \<and> tm_state t = LE_TIMER_STATE_PENDING \<and>
           tm_kind t = kind \<and> tm_due_epoch t = due \<and> tm_label t = set_label label \<and>
           tm_due_monotonic_ms t - now_ms = (due - now_epoch) * 1000)"
proof (cases "restore_timer s kind restore_id due label now_epoch now_ms")
  case (Inl e)
  then show ?thesis
    by (auto simp: restore_timer_def timer_limits free_slot_None Let_def timer_lookup_def
        split: if_splits option.splits prod.splits)
next
  case (Inr p)
  then obtain i s' where p: "p = (i, s')" by (cases p)
  have "LE_TIMER_CLOCK_VALID_EPOCH \<le> now_epoch \<and> now_epoch - 60 \<le> due"
    using Inr by (auto simp: restore_timer_def timer_limits Let_def split: if_splits)
  moreover obtain t where "new_timer s s' t" "tm_id t = i" "tm_kind t = kind" "tm_due_epoch t = due"
      "tm_due_monotonic_ms t = now_ms + (due - now_epoch) * 1000" "tm_label t = set_label label"
      "restore_id \<noteq> 0 \<longrightarrow> i = restore_id"
    using restore_new [OF assms] Inr p by blast
  ultimately show ?thesis using Inr p by (auto simp: new_timer_def)
qed

theorem timer_restore_binds_witness:
  "case restore_timer le_timer_set_init LE_TIMER_ALARM 7 1600000100 None 1600000000 50 of
     Inl e \<Rightarrow> False
   | Inr (i, s') \<Rightarrow> i = 7 \<and> ids_ok s' \<and> timer_lookup le_timer_set_init i = None"
proof -
  have "\<not> isl (restore_timer le_timer_set_init LE_TIMER_ALARM 7 1600000100 None 1600000000 50)"
    by code_simp
  then show ?thesis
    using timer_restore_binds [where kind = LE_TIMER_ALARM and restore_id = 7 and due = 1600000100
        and label = None and now_epoch = 1600000000 and now_ms = 50, OF ids_ok_init]
    by (auto simp: le_timer_set_init_def split: sum.splits)
qed

lemma cancel_exact:
  assumes "ids_ok s"
  shows "case le_timer_cancel s i of
      Inl e \<Rightarrow> e = LE_TIMER_ERR_NOT_FOUND \<and>
        \<not> (\<exists>t. timer_lookup s i = Some t \<and> tm_state t = LE_TIMER_STATE_PENDING)
    | Inr s' \<Rightarrow> (\<exists>t. timer_lookup s i = Some t \<and> tm_state t = LE_TIMER_STATE_PENDING) \<and>
        ids_ok s' \<and> timer_lookup s' = (timer_lookup s)(i := None)"
proof (cases "le_timer_cancel s i")
  case (Inl e)
  then show ?thesis by (auto simp: cancel_lookup [OF assms] split: option.splits if_splits)
next
  case (Inr s')
  moreover have "\<exists>t. timer_lookup s i = Some t \<and> tm_state t = LE_TIMER_STATE_PENDING"
    using Inr by (auto simp: cancel_lookup [OF assms] split: option.splits if_splits)
  ultimately show ?thesis using cancel_ok [OF assms Inr] by simp
qed

lemma dismiss_exact:
  assumes "ids_ok s" and "le_timer_dismiss s i = (n, s')"
  shows "if \<exists>t. timer_lookup s i = Some t \<and> tm_state t = LE_TIMER_STATE_RINGING
      then n = 1 \<and> ids_ok s' \<and> timer_lookup s' = (timer_lookup s)(i := None)
      else n = 0 \<and> s' = s"
proof (cases "n = 0")
  case True
  then show ?thesis using assms(2) by (auto simp: dismiss_lookup split: option.splits if_splits)
next
  case False
  then have "n = 1" and "\<exists>t. timer_lookup s i = Some t \<and> tm_state t = LE_TIMER_STATE_RINGING"
    using assms(2) by (auto simp: dismiss_lookup split: option.splits if_splits)
  then show ?thesis using dismiss_ok [OF assms] by simp
qed

text \<open>
  Cancelling removes exactly the pending timer of that id and dismissing exactly the ringing one;
  on any other id neither changes anything.
\<close>

theorem timer_remove_exact:
  assumes "ids_ok s"
  shows "(case le_timer_cancel s i of
      Inl e \<Rightarrow> e = LE_TIMER_ERR_NOT_FOUND \<and>
        \<not> (\<exists>t. timer_lookup s i = Some t \<and> tm_state t = LE_TIMER_STATE_PENDING)
    | Inr s' \<Rightarrow> (\<exists>t. timer_lookup s i = Some t \<and> tm_state t = LE_TIMER_STATE_PENDING) \<and>
        ids_ok s' \<and> timer_lookup s' = (timer_lookup s)(i := None)) \<and>
    (case le_timer_dismiss s i of (n, s') \<Rightarrow>
      if \<exists>t. timer_lookup s i = Some t \<and> tm_state t = LE_TIMER_STATE_RINGING
      then n = 1 \<and> ids_ok s' \<and> timer_lookup s' = (timer_lookup s)(i := None)
      else n = 0 \<and> s' = s)"
proof
  show "case le_timer_dismiss s i of (n, s') \<Rightarrow>
      if \<exists>t. timer_lookup s i = Some t \<and> tm_state t = LE_TIMER_STATE_RINGING
      then n = 1 \<and> ids_ok s' \<and> timer_lookup s' = (timer_lookup s)(i := None)
      else n = 0 \<and> s' = s"
    using dismiss_exact [OF assms, of i] by (cases "le_timer_dismiss s i") simp
qed (rule cancel_exact [OF assms])

theorem timer_remove_exact_witness:
  "case le_timer_cancel (timer_apply le_timer_set_init (Add_Countdown 60 None 0)) 1 of
      Inl e \<Rightarrow> False
    | Inr s' \<Rightarrow> timer_lookup s' 1 = None"
proof -
  have "ids_ok (timer_apply le_timer_set_init (Add_Countdown 60 None 0))"
    using ids_ok_apply [OF ids_ok_init, of "Add_Countdown 60 None 0"]
    by (simp add: le_timer_set_init_def)
  note timer_remove_exact [OF this, of 1]
  moreover have "\<not> isl (le_timer_cancel (timer_apply le_timer_set_init (Add_Countdown 60 None 0)) 1)"
    by code_simp
  ultimately show ?thesis
    by (cases "le_timer_cancel (timer_apply le_timer_set_init (Add_Countdown 60 None 0)) 1")
      (simp_all del: timer_apply.simps)
qed



text \<open>
  The poll timeout is sound and exact.  It lies between 0 and the cap; waking at any earlier
  instant (with the wall clock running at most as fast and its credibility unchanged) would find
  nothing to do; and when it is below the cap there is work at that very instant.
\<close>

theorem timer_poll_timeout_exact:
  assumes "0 \<le> cap" and "d = le_timer_poll_timeout_ms s now_ms now_epoch cap"
  shows "0 \<le> d \<and> d \<le> cap \<and>
    (\<forall>e a. 0 \<le> e \<longrightarrow> e < d \<longrightarrow> 0 \<le> a \<longrightarrow> a * 1000 \<le> e \<longrightarrow>
      (LE_TIMER_CLOCK_VALID_EPOCH \<le> now_epoch + a \<longleftrightarrow> LE_TIMER_CLOCK_VALID_EPOCH \<le> now_epoch) \<longrightarrow>
      le_timer_step s (now_ms + e) (now_epoch + a) m = (0, [], s)) \<and>
    (d < cap \<longrightarrow> snd (snd (le_timer_step s (now_ms + d) (now_epoch + d div 1000) m)) \<noteq> s)"
  using poll_bounds [OF assms] poll_sound [OF assms] poll_progress [OF assms] by simp

theorem timer_poll_timeout_exact_witness:
  "0 \<le> le_timer_poll_timeout_ms (timer_apply le_timer_set_init (Add_Countdown 60 None 0)) 59000 0 5000 \<and>
   le_timer_poll_timeout_ms (timer_apply le_timer_set_init (Add_Countdown 60 None 0)) 59000 0 5000 \<le> 5000"
  using timer_poll_timeout_exact [OF _ refl, of 5000] by simp

text \<open>
  The id arithmetic has one hole.  Restoring the largest id sends the next id back to 1 without
  looking at the live timers, so the next countdown is given the id of a live one: two timers then
  answer to id 1, and only the first of them can be found.
\<close>

theorem timer_restore_max_id_duplicates:
  "let s = run timer_apply le_timer_set_init
             [Add_Countdown 3600 None 0, Restore LE_TIMER_ALARM (- 1) 1600000100 None 1600000000 0];
       s' = timer_apply s (Add_Countdown 60 None 0)
   in tm_id (ts_timers s' ! 0) = 1 \<and> tm_state (ts_timers s' ! 0) = LE_TIMER_STATE_PENDING \<and>
      tm_id (ts_timers s' ! 2) = 1 \<and> tm_state (ts_timers s' ! 2) = LE_TIMER_STATE_PENDING \<and>
      le_timer_find s' 1 = Some 0"
  by code_simp

end
