(* ===== verification/Network_Health.thy ===== *)
theory Network_Health
  imports Echo_Prelude
begin

text \<open>
  Gateway liveness and its recovery ladder (\<^verbatim>\<open>src/adapter/network_health.c\<close>, \<^verbatim>\<open>network_health.h\<close>) and the
  part of \<^verbatim>\<open>src/adapter/networkd.c\<close> that drives it: the periodic check, the probe events and the
  actions taken.  The probe socket, \<^verbatim>\<open>wpa_supplicant\<close>, the interface and the two reboot files are outside: what
  they answer is an input of the step, what is asked of them is its list of effects.  Times are
  exact integers; the tri-state \<^verbatim>\<open>gateway_reachable\<close> is the integer the code keeps.
\<close>

section \<open>State\<close>

record le_network_health_config =
  hc_probe_interval_ms :: int
  hc_failure_threshold :: int
  hc_reassociate_grace_ms :: int
  hc_interface_down_ms :: int
  hc_interface_grace_ms :: int

datatype le_gateway_probe_result = PROBE_UNAVAILABLE | GATEWAY_UNREACHABLE | GATEWAY_REACHABLE

datatype le_network_health_action = HEALTH_NONE | HEALTH_PROBE | HEALTH_REASSOCIATE
  | HEALTH_INTERFACE_DOWN | HEALTH_INTERFACE_UP | HEALTH_REQUEST_REBOOT

datatype le_network_health_phase = PHASE_IDLE | PHASE_REASSOCIATING | PHASE_INTERFACE_DOWN_WAIT
  | PHASE_INTERFACE_RECOVERING | PHASE_REBOOT_PENDING | PHASE_REBOOT_REQUESTED | PHASE_EXHAUSTED

record le_network_health =
  nh_config :: le_network_health_config
  nh_phase :: le_network_health_phase
  nh_next_probe_ms :: int
  nh_transition_deadline_ms :: int
  nh_associated :: bool
  nh_awaiting_probe :: bool
  nh_gateway_reachable :: int
  nh_consecutive_failures :: int
  nh_healthy_seen :: bool

section \<open>Operations\<close>

definition le_network_health_default_config :: le_network_health_config where
  "le_network_health_default_config =
     \<lparr>hc_probe_interval_ms = 15000, hc_failure_threshold = 3, hc_reassociate_grace_ms = 30000,
      hc_interface_down_ms = 1000, hc_interface_grace_ms = 45000\<rparr>"

definition positive_or :: "int \<Rightarrow> int \<Rightarrow> int" where
  "positive_or v d = (if v \<le> 0 then d else v)"

definition le_network_health_init :: "le_network_health_config option \<Rightarrow> int \<Rightarrow> le_network_health" where
  "le_network_health_init config now_ms =
     (let defaults = le_network_health_default_config;
          c = (case config of None \<Rightarrow> defaults | Some c \<Rightarrow> c)
      in \<lparr>nh_config =
            \<lparr>hc_probe_interval_ms = positive_or (hc_probe_interval_ms c) (hc_probe_interval_ms defaults),
             hc_failure_threshold = positive_or (hc_failure_threshold c) (hc_failure_threshold defaults),
             hc_reassociate_grace_ms =
               positive_or (hc_reassociate_grace_ms c) (hc_reassociate_grace_ms defaults),
             hc_interface_down_ms = positive_or (hc_interface_down_ms c) (hc_interface_down_ms defaults),
             hc_interface_grace_ms =
               positive_or (hc_interface_grace_ms c) (hc_interface_grace_ms defaults)\<rparr>,
          nh_phase = PHASE_IDLE, nh_next_probe_ms = now_ms, nh_transition_deadline_ms = 0,
          nh_associated = False, nh_awaiting_probe = False, nh_gateway_reachable = - 1,
          nh_consecutive_failures = 0, nh_healthy_seen = False\<rparr>)"

definition mark_disconnected :: "le_network_health \<Rightarrow> int \<Rightarrow> le_network_health" where
  "mark_disconnected h now_ms =
     h\<lparr>nh_phase := PHASE_IDLE,
       nh_next_probe_ms := now_ms + hc_probe_interval_ms (nh_config h),
       nh_transition_deadline_ms := 0, nh_associated := False, nh_awaiting_probe := False,
       nh_gateway_reachable := - 1, nh_consecutive_failures := 0, nh_healthy_seen := False\<rparr>"

definition le_network_health_record_probe ::
  "le_network_health \<Rightarrow> int \<Rightarrow> le_gateway_probe_result \<Rightarrow>
   le_network_health_action \<times> le_network_health" where
  "le_network_health_record_probe h0 now_ms result =
     (let h = h0\<lparr>nh_awaiting_probe := False\<rparr>;
          again = now_ms + hc_probe_interval_ms (nh_config h)
      in case result of
        PROBE_UNAVAILABLE \<Rightarrow>
          (HEALTH_NONE, h\<lparr>nh_gateway_reachable := - 1, nh_consecutive_failures := 0,
                          nh_next_probe_ms := again\<rparr>)
      | GATEWAY_REACHABLE \<Rightarrow>
          (HEALTH_NONE, h\<lparr>nh_gateway_reachable := 1, nh_consecutive_failures := 0,
                          nh_healthy_seen := True, nh_phase := PHASE_IDLE,
                          nh_transition_deadline_ms := 0, nh_next_probe_ms := again\<rparr>)
      | GATEWAY_UNREACHABLE \<Rightarrow>
          (let threshold = hc_failure_threshold (nh_config h);
               failures = (if nh_consecutive_failures h < threshold
                           then nh_consecutive_failures h + 1 else nh_consecutive_failures h);
               f = h\<lparr>nh_gateway_reachable := 0, nh_consecutive_failures := failures,
                     nh_next_probe_ms := again\<rparr>
           in if nh_phase f = PHASE_IDLE \<and> nh_healthy_seen f \<and> failures \<ge> threshold
              then (HEALTH_REASSOCIATE,
                    f\<lparr>nh_phase := PHASE_REASSOCIATING,
                      nh_next_probe_ms := now_ms + hc_reassociate_grace_ms (nh_config f)\<rparr>)
              else if nh_phase f = PHASE_REASSOCIATING
              then (HEALTH_INTERFACE_DOWN,
                    f\<lparr>nh_phase := PHASE_INTERFACE_DOWN_WAIT,
                      nh_transition_deadline_ms := now_ms + hc_interface_down_ms (nh_config f)\<rparr>)
              else if nh_phase f = PHASE_INTERFACE_RECOVERING
              then (HEALTH_REQUEST_REBOOT,
                    f\<lparr>nh_phase := PHASE_REBOOT_PENDING, nh_next_probe_ms := 0\<rparr>)
              else (HEALTH_NONE, f)))"

definition le_network_health_tick ::
  "le_network_health \<Rightarrow> int \<Rightarrow> bool \<Rightarrow> bool \<Rightarrow> le_network_health_action \<times> le_network_health" where
  "le_network_health_tick h now_ms associated gateway_route_available =
     (if nh_phase h = PHASE_REBOOT_PENDING \<or> nh_phase h = PHASE_REBOOT_REQUESTED
      then (HEALTH_NONE, h)
      else if nh_phase h = PHASE_INTERFACE_DOWN_WAIT then
        (if now_ms < nh_transition_deadline_ms h then (HEALTH_NONE, h)
         else (HEALTH_INTERFACE_UP,
               h\<lparr>nh_phase := PHASE_INTERFACE_RECOVERING,
                 nh_next_probe_ms := now_ms + hc_interface_grace_ms (nh_config h)\<rparr>))
      else if nh_phase h \<noteq> PHASE_REASSOCIATING \<and> nh_phase h \<noteq> PHASE_INTERFACE_RECOVERING \<and>
              \<not> associated
      then (HEALTH_NONE, mark_disconnected h now_ms)
      else
        (let g = (if associated \<and> \<not> nh_associated h
                  then h\<lparr>nh_associated := True, nh_next_probe_ms := now_ms\<rparr> else h)
         in if nh_awaiting_probe g \<or> now_ms < nh_next_probe_ms g then (HEALTH_NONE, g)
            else if \<not> gateway_route_available then
              (if \<not> nh_healthy_seen g then le_network_health_record_probe g now_ms PROBE_UNAVAILABLE
               else le_network_health_record_probe g now_ms GATEWAY_UNREACHABLE)
            else (HEALTH_PROBE, g\<lparr>nh_awaiting_probe := True\<rparr>)))"

definition le_network_health_connectivity :: "le_network_health \<Rightarrow> string" where
  "le_network_health_connectivity h =
     (if \<not> nh_associated h then ''disconnected''
      else if nh_phase h \<noteq> PHASE_IDLE then ''recovering''
      else if nh_gateway_reachable h > 0 then ''healthy''
      else if nh_gateway_reachable h = 0 \<or> nh_consecutive_failures h > 0 then ''degraded''
      else ''unknown'')"

definition le_network_health_recovery_stage :: "le_network_health \<Rightarrow> string" where
  "le_network_health_recovery_stage h =
     (if nh_phase h = PHASE_REASSOCIATING then ''reassociate''
      else if nh_phase h = PHASE_INTERFACE_DOWN_WAIT \<or> nh_phase h = PHASE_INTERFACE_RECOVERING
        then ''interface-reset''
      else if nh_phase h = PHASE_REBOOT_PENDING then ''reboot-pending''
      else if nh_phase h = PHASE_REBOOT_REQUESTED then ''reboot-requested''
      else if nh_phase h = PHASE_EXHAUSTED then ''exhausted'' else ''none'')"

definition le_network_health_gateway_reachable :: "le_network_health \<Rightarrow> int" where
  "le_network_health_gateway_reachable h = nh_gateway_reachable h"

definition le_network_health_consecutive_failures :: "le_network_health \<Rightarrow> int" where
  "le_network_health_consecutive_failures h = nh_consecutive_failures h"

definition le_network_health_reboot_requested :: "le_network_health \<Rightarrow> bool" where
  "le_network_health_reboot_requested h \<longleftrightarrow> nh_phase h = PHASE_REBOOT_REQUESTED"

definition le_network_health_finish_reboot_request ::
  "le_network_health \<Rightarrow> bool \<Rightarrow> le_network_health" where
  "le_network_health_finish_reboot_request h submitted =
     (if nh_phase h \<noteq> PHASE_REBOOT_PENDING then h
      else h\<lparr>nh_phase := (if submitted then PHASE_REBOOT_REQUESTED else PHASE_EXHAUSTED)\<rparr>)"

section \<open>The driver in networkd\<close>

text \<open>
  What the world answers during one step: whether the guard file could be reserved (0 reserved,
  positive when it exists, negative on error), whether the reboot request could be published, and
  whether the interface came up.
\<close>

record health_env =
  he_guard :: int
  he_request :: bool
  he_if_up :: bool

datatype health_effect = Wpa_Reassociate | If_Down | If_Up | Reserve_Guard | Request_Reboot
  | Release_Guard | Probe_Start | Probe_Close

definition perform_health_action ::
  "le_network_health \<Rightarrow> health_env \<Rightarrow> le_network_health_action \<Rightarrow>
   health_effect list \<times> le_network_health" where
  "perform_health_action h env action =
     (case action of
        HEALTH_REASSOCIATE \<Rightarrow> ([Wpa_Reassociate], h)
      | HEALTH_INTERFACE_DOWN \<Rightarrow> ([If_Down], h)
      | HEALTH_INTERFACE_UP \<Rightarrow> (if he_if_up env then [If_Up, Wpa_Reassociate] else [If_Up], h)
      | HEALTH_REQUEST_REBOOT \<Rightarrow>
          (if he_guard env = 0
           then (if he_request env
                 then ([Reserve_Guard, Request_Reboot], le_network_health_finish_reboot_request h True)
                 else ([Reserve_Guard, Request_Reboot, Release_Guard],
                       le_network_health_finish_reboot_request h False))
           else ([Reserve_Guard], le_network_health_finish_reboot_request h False))
      | _ \<Rightarrow> ([], h))"

record health_ctx =
  hx_health :: le_network_health
  hx_probe_active :: bool

definition record_gateway_probe ::
  "health_ctx \<Rightarrow> health_env \<Rightarrow> le_gateway_probe_result \<Rightarrow> int \<Rightarrow> health_effect list \<times> health_ctx" where
  "record_gateway_probe ctx env result now_ms =
     (let (action, h) = le_network_health_record_probe (hx_health ctx) now_ms result;
          (effects, h') = perform_health_action h env action
      in (effects, ctx\<lparr>hx_health := h'\<rparr>))"

text \<open>
  \<^verbatim>\<open>POLLIN\<close> with what receiving gave, and the error bits.
\<close>

definition after_close :: "health_effect list \<times> health_ctx \<Rightarrow> health_effect list \<times> health_ctx" where
  "after_close p = (Probe_Close # fst p, snd p)"

definition handle_gateway_probe_event ::
  "health_ctx \<Rightarrow> health_env \<Rightarrow> int option \<Rightarrow> bool \<Rightarrow> int \<Rightarrow> health_effect list \<times> health_ctx" where
  "handle_gateway_probe_event ctx env received error now_ms =
     (if \<not> hx_probe_active ctx then ([], ctx)
      else
        (let closed = ctx\<lparr>hx_probe_active := False\<rparr>;
             on_error = (if error then after_close (record_gateway_probe closed env PROBE_UNAVAILABLE now_ms)
                         else ([], ctx))
         in case received of
              None \<Rightarrow> on_error
            | Some r \<Rightarrow>
                if r > 0 then after_close (record_gateway_probe closed env GATEWAY_REACHABLE now_ms)
                else if r < 0 then after_close (record_gateway_probe closed env PROBE_UNAVAILABLE now_ms)
                else on_error))"

text \<open>
  One periodic check: \<open>busy\<close> stands for a DHCP run, a scan or no address, \<open>timed_out\<close> for the
  outstanding probe's deadline (a probe that is not active never times out), \<open>route\<close> for a known
  gateway and \<open>start_ok\<close> for whether the probe socket could be opened (starting a probe closes an
  earlier one first, also when it then fails).
\<close>

definition check_network_health ::
  "health_ctx \<Rightarrow> health_env \<Rightarrow> bool \<Rightarrow> bool \<Rightarrow> bool \<Rightarrow> bool \<Rightarrow> bool \<Rightarrow> int \<Rightarrow>
   health_effect list \<times> health_ctx" where
  "check_network_health ctx env associated busy timed_out route start_ok now_ms =
     (if associated \<and> busy then
        (let (effects, c) = record_gateway_probe (ctx\<lparr>hx_probe_active := False\<rparr>) env PROBE_UNAVAILABLE now_ms
         in ((if hx_probe_active ctx then [Probe_Close] else []) @ effects, c))
      else if hx_probe_active ctx \<and> timed_out then
        after_close (record_gateway_probe (ctx\<lparr>hx_probe_active := False\<rparr>) env GATEWAY_UNREACHABLE now_ms)
      else
        (let (action, h) = le_network_health_tick (hx_health ctx) now_ms associated route;
             ctx' = ctx\<lparr>hx_health := h\<rparr>
         in if action = HEALTH_PROBE then
              (if \<not> route then record_gateway_probe ctx' env GATEWAY_UNREACHABLE now_ms
               else if \<not> start_ok then
                 record_gateway_probe (ctx'\<lparr>hx_probe_active := False\<rparr>) env PROBE_UNAVAILABLE now_ms
               else ([Probe_Start], ctx'\<lparr>hx_probe_active := True\<rparr>))
            else
              (let (effects, h') = perform_health_action h env action
               in (effects, ctx'\<lparr>hx_health := h'\<rparr>))))"

definition reset_network_health :: "health_ctx \<Rightarrow> int \<Rightarrow> health_effect list \<times> health_ctx" where
  "reset_network_health ctx now_ms =
     ([Probe_Close], \<lparr>hx_health = le_network_health_init None now_ms, hx_probe_active = False\<rparr>)"

section \<open>The ladder\<close>

text \<open>
  The health machine with a ghost list: the recovery actions returned since the last answer of the
  gateway.
\<close>

datatype health_event =
    Tick int bool bool
  | Record int le_gateway_probe_result
  | Finish bool

definition rung :: "le_network_health_action \<Rightarrow> bool" where
  "rung a \<longleftrightarrow> a \<noteq> HEALTH_NONE \<and> a \<noteq> HEALTH_PROBE"

fun ladder_step ::
  "le_network_health \<times> le_network_health_action list \<Rightarrow> health_event \<Rightarrow>
   le_network_health \<times> le_network_health_action list" where
  "ladder_step (h, rs) (Tick t assoc route) =
     (let (a, h') = le_network_health_tick h t assoc route in (h', if rung a then rs @ [a] else rs))"
| "ladder_step (h, rs) (Record t r) =
     (let (a, h') = le_network_health_record_probe h t r
      in (h', if r = GATEWAY_REACHABLE then [] else if rung a then rs @ [a] else rs))"
| "ladder_step (h, rs) (Finish ok) = (le_network_health_finish_reboot_request h ok, rs)"

definition ladder :: "le_network_health_action list" where
  "ladder = [HEALTH_REASSOCIATE, HEALTH_INTERFACE_DOWN, HEALTH_INTERFACE_UP, HEALTH_REQUEST_REBOOT]"

fun climbed :: "le_network_health_phase \<Rightarrow> nat" where
  "climbed PHASE_IDLE = 0"
| "climbed PHASE_REASSOCIATING = 1"
| "climbed PHASE_INTERFACE_DOWN_WAIT = 2"
| "climbed PHASE_INTERFACE_RECOVERING = 3"
| "climbed PHASE_REBOOT_PENDING = 4"
| "climbed PHASE_REBOOT_REQUESTED = 4"
| "climbed PHASE_EXHAUSTED = 4"

definition ladder_inv :: "le_network_health \<times> le_network_health_action list \<Rightarrow> bool" where
  "ladder_inv = (\<lambda>(h, rs).
     (rs = take (climbed (nh_phase h)) ladder \<or>
      (nh_phase h = PHASE_IDLE \<and> \<not> nh_healthy_seen h \<and> rs = ladder)) \<and>
     (nh_phase h \<noteq> PHASE_IDLE \<longrightarrow> nh_healthy_seen h) \<and>
     0 < hc_failure_threshold (nh_config h) \<and>
     0 \<le> nh_consecutive_failures h \<and> nh_consecutive_failures h \<le> hc_failure_threshold (nh_config h))"

lemma ladder_record:
  assumes "ladder_inv (h, rs)"
  shows "ladder_inv (ladder_step (h, rs) (Record t r))"
  using assms
  by (cases r; cases "nh_phase h")
     (auto simp: ladder_inv_def le_network_health_record_probe_def Let_def rung_def ladder_def)

lemma ladder_tick:
  assumes "ladder_inv (h, rs)"
  shows "ladder_inv (ladder_step (h, rs) (Tick t assoc route))"
  using assms
  by (cases "nh_phase h")
     (auto simp: ladder_inv_def le_network_health_tick_def le_network_health_record_probe_def
        mark_disconnected_def Let_def rung_def ladder_def)

lemma ladder_finish: "ladder_inv (h, rs) \<Longrightarrow> ladder_inv (ladder_step (h, rs) (Finish ok))"
  by (cases "nh_phase h")
     (auto simp: ladder_inv_def le_network_health_finish_reboot_request_def ladder_def)

lemma init_threshold: "0 < hc_failure_threshold (nh_config (le_network_health_init c t))"
  by (auto simp: le_network_health_init_def Let_def positive_or_def le_network_health_default_config_def)

lemma init_fields [simp]:
  "nh_phase (le_network_health_init c t) = PHASE_IDLE"
  "nh_healthy_seen (le_network_health_init c t) = False"
  "nh_awaiting_probe (le_network_health_init c t) = False"
  "nh_consecutive_failures (le_network_health_init c t) = 0"
  by (simp_all add: le_network_health_init_def Let_def)

interpretation health: machine
  "\<lambda>s. \<exists>c t. s = (le_network_health_init c t, [])" ladder_step ladder_inv
proof unfold_locales
  fix s :: "le_network_health \<times> le_network_health_action list"
  assume "\<exists>c t. s = (le_network_health_init c t, [])"
  then show "ladder_inv s"
    by (auto simp: ladder_inv_def init_threshold less_imp_le)
next
  fix s e assume "ladder_inv s"
  then show "ladder_inv (ladder_step s e)"
    by (cases s; cases e) (simp_all only: ladder_record ladder_tick ladder_finish)
qed

section \<open>The driver as a machine\<close>

datatype driver_event =
    Check health_env bool bool bool bool bool int
  | Probe_Event health_env "int option" bool int
  | Reset int

fun driver_step :: "health_ctx \<Rightarrow> driver_event \<Rightarrow> health_effect list \<times> health_ctx" where
  "driver_step c (Check env assoc busy timed_out route start_ok t) =
     check_network_health c env assoc busy timed_out route start_ok t"
| "driver_step c (Probe_Event env received err t) = handle_gateway_probe_event c env received err t"
| "driver_step c (Reset t) = reset_network_health c t"

fun driver_env :: "driver_event \<Rightarrow> health_env option" where
  "driver_env (Check env assoc busy timed_out route start_ok t) = Some env"
| "driver_env (Probe_Event env received err t) = Some env"
| "driver_env (Reset t) = None"

definition driver_next :: "health_ctx \<Rightarrow> driver_event \<Rightarrow> health_ctx" where
  "driver_next c e = snd (driver_step c e)"

text \<open>
  Between two steps: the reboot question is settled; a probe is outstanding exactly when the health
  machine waits for it, but for a stale one left by a lost association, which cannot start the
  ladder; and the phases that must not be left early have none.
\<close>

definition driver_inv :: "health_ctx \<Rightarrow> bool" where
  "driver_inv c \<longleftrightarrow>
     (let h = hx_health c
      in nh_phase h \<noteq> PHASE_REBOOT_PENDING \<and>
         (nh_awaiting_probe h \<longrightarrow> hx_probe_active c) \<and>
         (hx_probe_active c \<and> \<not> nh_awaiting_probe h \<longrightarrow> nh_phase h = PHASE_IDLE \<and> \<not> nh_healthy_seen h) \<and>
         (nh_phase h = PHASE_INTERFACE_DOWN_WAIT \<or> nh_phase h = PHASE_REBOOT_REQUESTED \<longrightarrow>
            \<not> hx_probe_active c))"

lemma driver_inv_pending: "driver_inv c \<Longrightarrow> nh_phase (hx_health c) \<noteq> PHASE_REBOOT_PENDING"
  unfolding driver_inv_def Let_def by (elim conjE)

lemmas driver_defs = driver_inv_def driver_next_def perform_health_action_def
  record_gateway_probe_def le_network_health_record_probe_def
  le_network_health_finish_reboot_request_def Let_def split_beta

lemma driver_inv_record:
  assumes "\<not> hx_probe_active c" and "nh_phase (hx_health c) \<noteq> PHASE_REBOOT_PENDING"
  shows "driver_inv (snd (record_gateway_probe c env r t))"
  using assms
  by (cases r; cases "nh_phase (hx_health c)") (auto simp: driver_defs split: if_splits)

text \<open>The branches of a tick; a new association is noted first.\<close>

definition noted :: "le_network_health \<Rightarrow> bool \<Rightarrow> int \<Rightarrow> le_network_health" where
  "noted h assoc t = (if assoc \<and> \<not> nh_associated h
     then h\<lparr>nh_associated := True, nh_next_probe_ms := t\<rparr> else h)"

lemma noted_fields [simp]:
  "nh_phase (noted h assoc t) = nh_phase h"
  "nh_healthy_seen (noted h assoc t) = nh_healthy_seen h"
  "nh_awaiting_probe (noted h assoc t) = nh_awaiting_probe h"
  by (simp_all add: noted_def)

abbreviation busy_phases :: "le_network_health_phase set" where
  "busy_phases \<equiv> {PHASE_INTERFACE_DOWN_WAIT, PHASE_REBOOT_PENDING, PHASE_REBOOT_REQUESTED}"

lemma tick_cases:
  assumes "le_network_health_tick h t assoc route = (a, h')"
  obtains (wait) "a = HEALTH_NONE" "h' = h"
  | (up) "nh_phase h = PHASE_INTERFACE_DOWN_WAIT" "nh_transition_deadline_ms h \<le> t"
      "a = HEALTH_INTERFACE_UP" "h' = h\<lparr>nh_phase := PHASE_INTERFACE_RECOVERING,
         nh_next_probe_ms := t + hc_interface_grace_ms (nh_config h)\<rparr>"
  | (lost) "\<not> assoc" "a = HEALTH_NONE" "h' = mark_disconnected h t"
  | (early) "a = HEALTH_NONE" "h' = noted h assoc t"
  | (no_route) "\<not> route" "\<not> nh_awaiting_probe h" "nh_phase h \<notin> busy_phases"
      "le_network_health_record_probe (noted h assoc t) t
         (if nh_healthy_seen h then GATEWAY_UNREACHABLE else PROBE_UNAVAILABLE) = (a, h')"
  | (probe) "route" "a = HEALTH_PROBE" "h' = (noted h assoc t)\<lparr>nh_awaiting_probe := True\<rparr>"
      "nh_phase h \<notin> busy_phases"
proof -
  note def = assms [unfolded le_network_health_tick_def, folded noted_def, unfolded Let_def]
  consider "nh_phase h \<in> {PHASE_REBOOT_PENDING, PHASE_REBOOT_REQUESTED}"
    | "nh_phase h = PHASE_INTERFACE_DOWN_WAIT"
    | "nh_phase h \<notin> busy_phases"
        "nh_phase h \<noteq> PHASE_REASSOCIATING \<and> nh_phase h \<noteq> PHASE_INTERFACE_RECOVERING \<and> \<not> assoc"
    | "nh_phase h \<notin> busy_phases"
        "\<not> (nh_phase h \<noteq> PHASE_REASSOCIATING \<and> nh_phase h \<noteq> PHASE_INTERFACE_RECOVERING \<and> \<not> assoc)"
    by blast
  then show thesis
  proof cases
    case 1
    then show thesis using def wait by (auto split: if_splits)
  next
    case 2
    then show thesis using def wait up by (auto split: if_splits)
  next
    case 3
    then show thesis using def lost by (auto split: if_splits)
  next
    case 4
    let ?g = "noted h assoc t"
    have def4: "(if nh_awaiting_probe ?g \<or> t < nh_next_probe_ms ?g then (HEALTH_NONE, ?g)
        else if \<not> route then if \<not> nh_healthy_seen ?g then le_network_health_record_probe ?g t PROBE_UNAVAILABLE
             else le_network_health_record_probe ?g t GATEWAY_UNREACHABLE
        else (HEALTH_PROBE, ?g\<lparr>nh_awaiting_probe := True\<rparr>)) = (a, h')"
      using 4 def by (simp only: insert_iff empty_iff de_Morgan_disj if_False simp_thms)
    consider "nh_awaiting_probe ?g \<or> t < nh_next_probe_ms ?g"
      | "\<not> (nh_awaiting_probe ?g \<or> t < nh_next_probe_ms ?g)" "route"
      | "\<not> (nh_awaiting_probe ?g \<or> t < nh_next_probe_ms ?g)" "\<not> route" by blast
    then show thesis
    proof cases
      case 1
      then show thesis using def4 early by simp
    next
      case 2
      then show thesis using def4 4(1) probe by simp
    next
      case 3
      then show thesis using def4 4(1) no_route by (cases "nh_healthy_seen h") simp_all
    qed
  qed
qed

lemma record_not_probe: "le_network_health_record_probe h t r \<noteq> (HEALTH_PROBE, h')"
  by (cases r) (simp_all add: le_network_health_record_probe_def Let_def)

lemma tick_probe:
  assumes "le_network_health_tick h t assoc route = (HEALTH_PROBE, h')"
  shows "route \<and> nh_awaiting_probe h' \<and> nh_phase h' = nh_phase h \<and> nh_phase h \<notin> busy_phases"
  using assms by (cases rule: tick_cases) (simp_all add: record_not_probe)

lemma driver_inv_no_route:
  assumes "driver_inv c" and "\<not> nh_awaiting_probe (hx_health c)" and "nh_phase (hx_health c) \<notin> busy_phases"
    and "nh_phase g = nh_phase (hx_health c)" and "nh_healthy_seen g = nh_healthy_seen (hx_health c)"
    and "le_network_health_record_probe g t
         (if nh_healthy_seen g then GATEWAY_UNREACHABLE else PROBE_UNAVAILABLE) = (a, h)"
  shows "driver_inv (c\<lparr>hx_health := snd (perform_health_action h env a)\<rparr>)"
proof (cases "hx_probe_active c")
  case True
  then have idle: "nh_phase g = PHASE_IDLE" "\<not> nh_healthy_seen g"
    using assms(1-5) by (simp_all add: driver_inv_def Let_def)
  then have "a = HEALTH_NONE \<and> nh_phase h = PHASE_IDLE \<and> \<not> nh_healthy_seen h \<and> \<not> nh_awaiting_probe h"
    using assms(6) by (auto simp: le_network_health_record_probe_def Let_def)
  then show ?thesis by (simp add: perform_health_action_def driver_inv_def)
next
  case False
  then have "driver_inv (snd (record_gateway_probe (c\<lparr>hx_health := g\<rparr>) env
      (if nh_healthy_seen g then GATEWAY_UNREACHABLE else PROBE_UNAVAILABLE) t))"
    using assms(3,4) by (intro driver_inv_record) auto
  then show ?thesis
    by (simp add: record_gateway_probe_def assms(6) split_beta)
qed

lemma driver_inv_tick:
  assumes "driver_inv c" and "le_network_health_tick (hx_health c) t assoc route = (a, h)"
    and "a \<noteq> HEALTH_PROBE"
  shows "driver_inv (c\<lparr>hx_health := snd (perform_health_action h env a)\<rparr>)"
  using assms(2)
proof (cases rule: tick_cases)
  case wait
  then show ?thesis using assms(1) by (simp add: perform_health_action_def driver_inv_def)
next
  case up
  then have "\<not> hx_probe_active c" "\<not> nh_awaiting_probe (hx_health c)"
    using assms(1) by (auto simp: driver_inv_def Let_def)
  then show ?thesis using up by (simp add: perform_health_action_def driver_inv_def Let_def)
next
  case lost
  then show ?thesis
    by (simp add: perform_health_action_def driver_inv_def Let_def mark_disconnected_def)
next
  case early
  have "driver_inv (c\<lparr>hx_health := noted (hx_health c) assoc t\<rparr>) = driver_inv c"
    by (simp add: driver_inv_def Let_def)
  then show ?thesis using assms(1) early by (simp add: perform_health_action_def)
next
  case no_route
  show ?thesis
    by (rule driver_inv_no_route [where g = "noted (hx_health c) assoc t", OF assms(1)])
      (use no_route in simp_all)
next
  case probe
  then show ?thesis using assms(3) by simp
qed

lemma snd_after_close [simp]: "snd (after_close p) = snd p"
  by (simp add: after_close_def)

lemma check_by_tick:
  assumes "\<not> (assoc \<and> busy)" and "\<not> (hx_probe_active c \<and> timed_out)"
    and "le_network_health_tick (hx_health c) t assoc route = (a, h)"
  shows "check_network_health c env assoc busy timed_out route start_ok t =
    (if a = HEALTH_PROBE then
       (if \<not> route then record_gateway_probe (c\<lparr>hx_health := h\<rparr>) env GATEWAY_UNREACHABLE t
        else if \<not> start_ok then
          record_gateway_probe (c\<lparr>hx_health := h, hx_probe_active := False\<rparr>) env PROBE_UNAVAILABLE t
        else ([Probe_Start], c\<lparr>hx_health := h, hx_probe_active := True\<rparr>))
     else (fst (perform_health_action h env a), c\<lparr>hx_health := snd (perform_health_action h env a)\<rparr>))"
  using assms(1,2)
  by (simp only: check_network_health_def assms(3) if_False split_beta Let_def fst_conv snd_conv) simp

lemma driver_inv_check:
  assumes "driver_inv c"
  shows "driver_inv (snd (check_network_health c env assoc busy timed_out route start_ok t))"
proof -
  note pending = driver_inv_pending [OF assms]
  obtain a h where tick: "le_network_health_tick (hx_health c) t assoc route = (a, h)" by fastforce
  have recorded: "driver_inv (snd (record_gateway_probe (c\<lparr>hx_probe_active := False\<rparr>) env r t))" for r
    using pending by (intro driver_inv_record) simp_all
  consider "assoc \<and> busy" | "\<not> (assoc \<and> busy)" "hx_probe_active c \<and> timed_out"
    | "\<not> (assoc \<and> busy)" "\<not> (hx_probe_active c \<and> timed_out)" by blast
  then show ?thesis
  proof cases
    case 1
    then show ?thesis using recorded [of PROBE_UNAVAILABLE]
      by (simp add: check_network_health_def split_beta)
  next
    case 2
    then show ?thesis using recorded [of GATEWAY_UNREACHABLE]
      by (simp only: check_network_health_def simp_thms if_True if_False snd_after_close)
  next
    case 3
    note def = check_by_tick [OF 3 tick]
    show ?thesis
    proof (cases "a = HEALTH_PROBE")
      case True
      note tp = tick_probe [OF tick [unfolded True]]
      have "driver_inv (c\<lparr>hx_health := h, hx_probe_active := True\<rparr>)"
        using tp by (auto simp: driver_inv_def)
      moreover have "driver_inv (snd (record_gateway_probe (c\<lparr>hx_health := h, hx_probe_active := False\<rparr>)
          env PROBE_UNAVAILABLE t))"
        using tp by (intro driver_inv_record) auto
      ultimately show ?thesis unfolding def using True tp by simp
    next
      case False
      then show ?thesis using driver_inv_tick [OF assms tick False] by (simp add: def)
    qed
  qed
qed

lemma handle_cases:
  "snd (handle_gateway_probe_event c env received err t) = c \<or>
   (\<exists>r. snd (handle_gateway_probe_event c env received err t) =
      snd (record_gateway_probe (c\<lparr>hx_probe_active := False\<rparr>) env r t))"
  by (cases received) (auto simp: handle_gateway_probe_event_def Let_def)

interpretation health_driver: machine
  "\<lambda>c. \<exists>t. c = \<lparr>hx_health = le_network_health_init None t, hx_probe_active = False\<rparr>"
  driver_next driver_inv
proof unfold_locales
  fix c assume "\<exists>t. c = \<lparr>hx_health = le_network_health_init None t, hx_probe_active = False\<rparr>"
  then show "driver_inv c" by (auto simp: driver_inv_def le_network_health_init_def Let_def)
next
  fix c e assume inv: "driver_inv c"
  show "driver_inv (driver_next c e)"
  proof (cases e)
    case (Check env assoc busy timed_out route start_ok t)
    then show ?thesis using driver_inv_check [OF inv] by (simp add: driver_next_def)
  next
    case (Probe_Event env received err t)
    have "driver_inv (snd (record_gateway_probe (c\<lparr>hx_probe_active := False\<rparr>) env r t))" for r
      using driver_inv_pending [OF inv] by (intro driver_inv_record) simp_all
    moreover have "snd (handle_gateway_probe_event c env received err t) = c \<or>
        (\<exists>r. snd (handle_gateway_probe_event c env received err t) =
           snd (record_gateway_probe (c\<lparr>hx_probe_active := False\<rparr>) env r t))"
      by (rule handle_cases)
    ultimately show ?thesis using inv unfolding Probe_Event driver_next_def driver_step.simps by metis
  next
    case (Reset t)
    then show ?thesis
      by (simp add: driver_next_def reset_network_health_def driver_inv_def le_network_health_init_def Let_def)
  qed
qed

section \<open>The reboot\<close>

lemma record_reboot:
  assumes "le_network_health_record_probe h t r = (HEALTH_REQUEST_REBOOT, h')"
  shows "nh_phase h' = PHASE_REBOOT_PENDING"
  using assms by (cases r) (auto simp: le_network_health_record_probe_def Let_def split: if_splits)

lemma tick_reboot:
  assumes "le_network_health_tick h t assoc route = (HEALTH_REQUEST_REBOOT, h')"
  shows "nh_phase h' = PHASE_REBOOT_PENDING"
  using assms by (cases rule: tick_cases) (simp_all add: record_reboot)

definition reboot_effects :: "health_env \<Rightarrow> health_effect list \<Rightarrow> le_network_health \<Rightarrow> bool" where
  "reboot_effects env effects h \<longleftrightarrow> he_guard env = 0 \<and>
     (if he_request env
      then filter (\<lambda>e. e \<noteq> Probe_Close) effects = [Reserve_Guard, Request_Reboot] \<and>
        nh_phase h = PHASE_REBOOT_REQUESTED
      else filter (\<lambda>e. e \<noteq> Probe_Close) effects = [Reserve_Guard, Request_Reboot, Release_Guard] \<and>
        nh_phase h = PHASE_EXHAUSTED)"

lemma perform_reboot:
  assumes "a = HEALTH_REQUEST_REBOOT \<longrightarrow> nh_phase h = PHASE_REBOOT_PENDING"
    and "perform_health_action h env a = (effects, h')" and "Request_Reboot \<in> set effects"
  shows "reboot_effects env effects h'"
  using assms
  by (cases a) (auto simp: perform_health_action_def reboot_effects_def
      le_network_health_finish_reboot_request_def split: if_splits)

lemma record_gateway_reboot:
  assumes "Request_Reboot \<in> set (fst (record_gateway_probe c env r t))"
  shows "reboot_effects env (fst (record_gateway_probe c env r t))
    (hx_health (snd (record_gateway_probe c env r t)))"
proof -
  obtain a h where ah: "le_network_health_record_probe (hx_health c) t r = (a, h)" by fastforce
  obtain effects h' where p: "perform_health_action h env a = (effects, h')" by fastforce
  have "a = HEALTH_REQUEST_REBOOT \<longrightarrow> nh_phase h = PHASE_REBOOT_PENDING" using ah record_reboot by blast
  from perform_reboot [OF this p] assms show ?thesis by (simp add: record_gateway_probe_def ah p)
qed

lemma reboot_effects_close [simp]: "reboot_effects env (Probe_Close # es) h = reboot_effects env es h"
  by (simp add: reboot_effects_def)

lemma check_reboot:
  assumes "Request_Reboot \<in> set (fst (check_network_health c env assoc busy timed_out route start_ok t))"
  shows "reboot_effects env (fst (check_network_health c env assoc busy timed_out route start_ok t))
    (hx_health (snd (check_network_health c env assoc busy timed_out route start_ok t)))"
proof -
  obtain a h where tick: "le_network_health_tick (hx_health c) t assoc route = (a, h)" by fastforce
  consider "assoc \<and> busy" | "\<not> (assoc \<and> busy)" "hx_probe_active c \<and> timed_out"
    | "\<not> (assoc \<and> busy)" "\<not> (hx_probe_active c \<and> timed_out)" by blast
  then show ?thesis
  proof cases
    case 1
    then show ?thesis
      using assms record_gateway_reboot [of "c\<lparr>hx_probe_active := False\<rparr>" env PROBE_UNAVAILABLE t]
      by (auto simp: check_network_health_def split_beta reboot_effects_def split: if_splits)
  next
    case 2
    then have "check_network_health c env assoc busy timed_out route start_ok t =
        after_close (record_gateway_probe (c\<lparr>hx_probe_active := False\<rparr>) env GATEWAY_UNREACHABLE t)"
      by (simp only: check_network_health_def simp_thms if_True if_False)
    then show ?thesis
      using assms record_gateway_reboot [of "c\<lparr>hx_probe_active := False\<rparr>" env GATEWAY_UNREACHABLE t]
      by (simp add: after_close_def)
  next
    case 3
    note def = check_by_tick [OF 3 tick]
    obtain es h' where p: "perform_health_action h env a = (es, h')" by fastforce
    show ?thesis
    proof (cases "a = HEALTH_PROBE")
      case True
      have unavailable: "Request_Reboot \<notin> set (fst (record_gateway_probe x env PROBE_UNAVAILABLE t))" for x
        by (simp add: record_gateway_probe_def le_network_health_record_probe_def Let_def
            perform_health_action_def)
      have "route" using tick_probe tick True by blast
      then show ?thesis using assms True unavailable unfolding def by (simp split: if_splits)
    next
      case False
      have "a = HEALTH_REQUEST_REBOOT \<longrightarrow> nh_phase h = PHASE_REBOOT_PENDING" using tick tick_reboot by blast
      then show ?thesis using assms False perform_reboot [OF _ p] unfolding def by (simp add: p)
    qed
  qed
qed

lemma probe_event_reboot:
  assumes "Request_Reboot \<in> set (fst (handle_gateway_probe_event c env received err t))"
  shows "reboot_effects env (fst (handle_gateway_probe_event c env received err t))
    (hx_health (snd (handle_gateway_probe_event c env received err t)))"
  using assms record_gateway_reboot [of "c\<lparr>hx_probe_active := False\<rparr>" env _ t]
  by (cases received) (auto simp: handle_gateway_probe_event_def Let_def after_close_def split: if_splits)

lemma driver_requests_reboot:
  assumes "driver_step c event = (effects, c')" and "Request_Reboot \<in> set effects"
  shows "\<exists>env. driver_env event = Some env \<and> reboot_effects env effects (hx_health c')"
proof (cases event)
  case (Check env assoc busy timed_out route start_ok t)
  then show ?thesis
    using assms check_reboot [of c env assoc busy timed_out route start_ok t] by auto
next
  case (Probe_Event env received err t)
  then show ?thesis using assms probe_event_reboot [of c env received err t] by auto
next
  case (Reset t)
  then show ?thesis using assms by (auto simp: reset_network_health_def)
qed

lemma driver_requested_absorbing:
  assumes "driver_inv c" and "driver_step c event = (effects, c')"
    and "nh_phase (hx_health c) = PHASE_REBOOT_REQUESTED" and "\<And>t. event \<noteq> Reset t"
  shows "effects = [] \<and> nh_phase (hx_health c') = PHASE_REBOOT_REQUESTED"
proof -
  have idle: "\<not> hx_probe_active c" using assms(1,3) unfolding driver_inv_def Let_def by blast
  show ?thesis
  proof (cases event)
    case (Check env assoc busy timed_out route start_ok t)
    then show ?thesis
      using assms(2,3) idle
      by (auto simp: check_network_health_def record_gateway_probe_def le_network_health_record_probe_def
          le_network_health_tick_def perform_health_action_def Let_def split: if_splits)
  next
    case (Probe_Event env received err t)
    then show ?thesis using assms(2,3) idle by (simp add: handle_gateway_probe_event_def)
  next
    case (Reset t)
    then show ?thesis using assms(4) by blast
  qed
qed

section \<open>Properties\<close>



text \<open>
  An interface taken down comes back.  In every reachable state of the driver that waits with
  the interface down no probe is outstanding, so nothing that the gateway does can end the wait;
  periodic checks before the deadline do nothing, and the first check from the deadline on that is
  not busy brings the interface up, whatever the association and the route are.
\<close>

theorem health_interface_comes_back:
  assumes "health_driver.reach c" and "nh_phase (hx_health c) = PHASE_INTERFACE_DOWN_WAIT"
    and "\<not> (assoc \<and> busy)"
  shows "\<not> hx_probe_active c \<and>
    (if now_ms < nh_transition_deadline_ms (hx_health c)
     then check_network_health c env assoc busy timed_out route start_ok now_ms = ([], c)
     else If_Up \<in> set (fst (check_network_health c env assoc busy timed_out route start_ok now_ms)) \<and>
       nh_phase (hx_health (snd (check_network_health c env assoc busy timed_out route start_ok now_ms)))
         = PHASE_INTERFACE_RECOVERING)"
proof -
  have "driver_inv c" using assms(1) by (rule health_driver.inv_reachable)
  then have idle: "\<not> hx_probe_active c" using assms(2) unfolding driver_inv_def Let_def by blast
  then show ?thesis
    using assms(2,3)
    by (auto simp: check_network_health_def le_network_health_tick_def perform_health_action_def)
qed

theorem health_interface_comes_back_witness:
  "let env = \<lparr>he_guard = 0, he_request = True, he_if_up = True\<rparr>;
       c = \<lparr>hx_health = le_network_health_init None 0, hx_probe_active = False\<rparr>;
       down = run driver_next c
         [Check env True False False True True 0, Probe_Event env (Some 1) False 1,
          Check env True False False False True 20000, Check env True False False False True 40000,
          Check env True False False False True 60000, Check env True False False False True 100000]
   in \<not> hx_probe_active down \<and>
      If_Up \<in> set (fst (check_network_health down env False False False False True 101000))"
proof -
  let ?env = "\<lparr>he_guard = 0, he_request = True, he_if_up = True\<rparr>"
  let ?c = "\<lparr>hx_health = le_network_health_init None 0, hx_probe_active = False\<rparr>"
  let ?down = "run driver_next ?c
         [Check ?env True False False True True 0, Probe_Event ?env (Some 1) False 1,
          Check ?env True False False False True 20000, Check ?env True False False False True 40000,
          Check ?env True False False False True 60000, Check ?env True False False False True 100000]"
  have "health_driver.reach ?down"
    by (intro health_driver.reach_run health_driver.reach_start) blast
  moreover have "nh_phase (hx_health ?down) = PHASE_INTERFACE_DOWN_WAIT" and
    "\<not> 101000 < nh_transition_deadline_ms (hx_health ?down)" by code_simp+
  ultimately show ?thesis
    using health_interface_comes_back [of ?down False False 101000 ?env False False True]
    by (simp add: Let_def del: run.simps)
qed

text \<open>
  A reboot is requested only under a freshly reserved guard, a guard whose request could not be
  published is given back, and once the request is out the driver does nothing more until it is
  reset: no further recovery action, no probe.
\<close>

theorem health_reboot_guarded:
  assumes "health_driver.reach c" and "driver_step c event = (effects, c')"
  shows "(Request_Reboot \<in> set effects \<longrightarrow>
      (\<exists>env. driver_env event = Some env \<and> he_guard env = 0 \<and>
         (if he_request env
          then filter (\<lambda>e. e \<noteq> Probe_Close) effects = [Reserve_Guard, Request_Reboot] \<and>
            nh_phase (hx_health c') = PHASE_REBOOT_REQUESTED
          else filter (\<lambda>e. e \<noteq> Probe_Close) effects = [Reserve_Guard, Request_Reboot, Release_Guard] \<and>
            nh_phase (hx_health c') = PHASE_EXHAUSTED))) \<and>
    (nh_phase (hx_health c) = PHASE_REBOOT_REQUESTED \<longrightarrow> (\<forall>t. event \<noteq> Reset t) \<longrightarrow>
      effects = [] \<and> nh_phase (hx_health c') = PHASE_REBOOT_REQUESTED)"
proof (intro conjI impI)
  assume "Request_Reboot \<in> set effects"
  with assms(2) show "\<exists>env. driver_env event = Some env \<and> he_guard env = 0 \<and>
      (if he_request env
       then filter (\<lambda>e. e \<noteq> Probe_Close) effects = [Reserve_Guard, Request_Reboot] \<and>
         nh_phase (hx_health c') = PHASE_REBOOT_REQUESTED
       else filter (\<lambda>e. e \<noteq> Probe_Close) effects = [Reserve_Guard, Request_Reboot, Release_Guard] \<and>
         nh_phase (hx_health c') = PHASE_EXHAUSTED)"
    by (rule driver_requests_reboot [unfolded reboot_effects_def])
next
  assume "nh_phase (hx_health c) = PHASE_REBOOT_REQUESTED" and "\<forall>t. event \<noteq> Reset t"
  then have "effects = [] \<and> nh_phase (hx_health c') = PHASE_REBOOT_REQUESTED"
    using driver_requested_absorbing [OF health_driver.inv_reachable [OF assms(1)] assms(2)] by blast
  then show "effects = []" and "nh_phase (hx_health c') = PHASE_REBOOT_REQUESTED" by simp_all
qed

theorem health_reboot_guarded_witness:
  "let env = \<lparr>he_guard = 0, he_request = True, he_if_up = True\<rparr>;
       c = run driver_next \<lparr>hx_health = le_network_health_init None 0, hx_probe_active = False\<rparr>
         [Check env True False False True True 0, Probe_Event env (Some 1) False 1,
          Check env True False False False True 20000, Check env True False False False True 40000,
          Check env True False False False True 60000, Check env True False False False True 100000,
          Check env True False False False True 101000, Check env True False False False True 150000]
   in fst (driver_step c (Check env True False False True True 200000)) = []"
proof -
  let ?env = "\<lparr>he_guard = 0, he_request = True, he_if_up = True\<rparr>"
  let ?c = "run driver_next \<lparr>hx_health = le_network_health_init None 0, hx_probe_active = False\<rparr>
         [Check ?env True False False True True 0, Probe_Event ?env (Some 1) False 1,
          Check ?env True False False False True 20000, Check ?env True False False False True 40000,
          Check ?env True False False False True 60000, Check ?env True False False False True 100000,
          Check ?env True False False False True 101000, Check ?env True False False False True 150000]"
  let ?e = "Check ?env True False False True True 200000"
  have "health_driver.reach ?c"
    by (intro health_driver.reach_run health_driver.reach_start) blast
  moreover have "driver_step ?c ?e = (fst (driver_step ?c ?e), snd (driver_step ?c ?e))"
    by (rule prod.collapse [symmetric])
  note health_reboot_guarded [OF _ this]
  moreover have "nh_phase (hx_health ?c) = PHASE_REBOOT_REQUESTED" by code_simp
  ultimately show ?thesis unfolding Let_def by blast
qed

text \<open>
  A reset while the interface is down forgets it.  The disconnect command (and a new
  association) re-initialises the health machine without looking at its phase, so the pending
  interface-up is lost: checks after it only see a lost association and never bring the interface
  up.
\<close>

theorem health_reset_leaves_interface_down:
  "let env = \<lparr>he_guard = 0, he_request = True, he_if_up = True\<rparr>;
       down = run driver_next \<lparr>hx_health = le_network_health_init None 0, hx_probe_active = False\<rparr>
         [Check env True False False True True 0, Probe_Event env (Some 1) False 1,
          Check env True False False False True 20000, Check env True False False False True 40000,
          Check env True False False False True 60000, Check env True False False False True 100000]
   in nh_phase (hx_health down) = PHASE_INTERFACE_DOWN_WAIT \<and>
      (let c = driver_next down (Reset 100500) in
       fst (check_network_health c env False False False False True 101000) = [] \<and>
       fst (check_network_health (driver_next c (Check env False False False False True 101000))
         env False False False False True 116000) = [])"
  by code_simp

end
