(* ===== verification/Watchdog.thy ===== *)
theory Watchdog
  imports Echo_Prelude
begin

text \<open>
  When a supervised service is restarted: the policy of one service
  (\<^verbatim>\<open>src/adapter/watchdog_policy.c\<close>, \<^verbatim>\<open>watchdog_policy.h\<close>) and a pass of the daemon over its
  services (\<^verbatim>\<open>src/adapter/watchdogd.c\<close>: \<^verbatim>\<open>wanted\<close>, \<^verbatim>\<open>group_healthy\<close>, \<^verbatim>\<open>restart_group\<close> and the body of the
  main loop).  The probes, the saved voice mode, the stop request and the init scripts are inputs
  or effects of the pass; logging is left out.  The two counters are unsigned in the code and
  natural numbers here: driven by the daemon they stay below six, as shown.  Times are exact
  integers.
\<close>

unbundle bit_operations_syntax

section \<open>The policy of one service\<close>

definition LE_WATCHDOG_FAILURES_BEFORE_RESTART :: nat where "LE_WATCHDOG_FAILURES_BEFORE_RESTART = 2"
definition LE_WATCHDOG_BACKOFF_START_MS :: int where "LE_WATCHDOG_BACKOFF_START_MS = 1000"
definition LE_WATCHDOG_BACKOFF_MAX_MS :: int where "LE_WATCHDOG_BACKOFF_MAX_MS = 30000"
definition LE_WATCHDOG_STORM_RESTARTS :: nat where "LE_WATCHDOG_STORM_RESTARTS = 5"
definition LE_WATCHDOG_STORM_WINDOW_MS :: int where "LE_WATCHDOG_STORM_WINDOW_MS = 300000"
definition LE_WATCHDOG_HEALTHY_RESET_MS :: int where "LE_WATCHDOG_HEALTHY_RESET_MS = 600000"

lemmas watchdog_limits = LE_WATCHDOG_FAILURES_BEFORE_RESTART_def LE_WATCHDOG_BACKOFF_START_MS_def
  LE_WATCHDOG_BACKOFF_MAX_MS_def LE_WATCHDOG_STORM_RESTARTS_def LE_WATCHDOG_STORM_WINDOW_MS_def
  LE_WATCHDOG_HEALTHY_RESET_MS_def

datatype le_watchdog_action = WATCHDOG_NONE | WATCHDOG_RESTART | WATCHDOG_GIVE_UP

record le_watchdog_service =
  wd_failures :: nat
  wd_restarts :: nat
  wd_backoff_ms :: int
  wd_next_attempt_ms :: int
  wd_window_started_ms :: int
  wd_healthy_since_ms :: int
  wd_given_up :: bool

definition le_watchdog_service_init :: "int \<Rightarrow> le_watchdog_service" where
  "le_watchdog_service_init now_ms =
     \<lparr>wd_failures = 0, wd_restarts = 0, wd_backoff_ms = LE_WATCHDOG_BACKOFF_START_MS,
      wd_next_attempt_ms = 0, wd_window_started_ms = now_ms, wd_healthy_since_ms = now_ms,
      wd_given_up = False\<rparr>"

definition forgive_if_settled :: "le_watchdog_service \<Rightarrow> int \<Rightarrow> le_watchdog_service" where
  "forgive_if_settled s now_ms =
     (if wd_healthy_since_ms s = 0 then s
      else if now_ms - wd_healthy_since_ms s < LE_WATCHDOG_HEALTHY_RESET_MS then s
      else s\<lparr>wd_restarts := 0, wd_backoff_ms := LE_WATCHDOG_BACKOFF_START_MS,
             wd_window_started_ms := now_ms\<rparr>)"

definition le_watchdog_step ::
  "le_watchdog_service \<Rightarrow> bool \<Rightarrow> int \<Rightarrow> le_watchdog_action \<times> le_watchdog_service" where
  "le_watchdog_step s healthy now_ms =
     (if wd_given_up s then (WATCHDOG_GIVE_UP, s)
      else if healthy then
        (let h = s\<lparr>wd_failures := 0\<rparr>;
             h' = (if wd_healthy_since_ms h = 0 then h\<lparr>wd_healthy_since_ms := now_ms\<rparr> else h)
         in (WATCHDOG_NONE, forgive_if_settled h' now_ms))
      else
        (let u = s\<lparr>wd_healthy_since_ms := 0\<rparr>;
             f = (if wd_failures u < LE_WATCHDOG_FAILURES_BEFORE_RESTART
                  then u\<lparr>wd_failures := wd_failures u + 1\<rparr> else u)
         in if wd_failures f < LE_WATCHDOG_FAILURES_BEFORE_RESTART then (WATCHDOG_NONE, f)
            else
              (let w = (if now_ms - wd_window_started_ms f > LE_WATCHDOG_STORM_WINDOW_MS
                        then f\<lparr>wd_window_started_ms := now_ms, wd_restarts := 0\<rparr> else f)
               in if wd_restarts w \<ge> LE_WATCHDOG_STORM_RESTARTS
                  then (WATCHDOG_GIVE_UP, w\<lparr>wd_given_up := True\<rparr>)
                  else if now_ms < wd_next_attempt_ms w then (WATCHDOG_NONE, w)
                  else (WATCHDOG_RESTART, w))))"

definition le_watchdog_restarted :: "le_watchdog_service \<Rightarrow> int \<Rightarrow> le_watchdog_service" where
  "le_watchdog_restarted s now_ms =
     (let w = (if wd_restarts s = 0 then s\<lparr>wd_window_started_ms := now_ms\<rparr> else s);
          doubled = wd_backoff_ms w * 2
      in w\<lparr>wd_restarts := wd_restarts w + 1, wd_failures := 0, wd_healthy_since_ms := 0,
           wd_next_attempt_ms := now_ms + wd_backoff_ms w,
           wd_backoff_ms := (if doubled > LE_WATCHDOG_BACKOFF_MAX_MS
                             then LE_WATCHDOG_BACKOFF_MAX_MS else doubled)\<rparr>)"

section \<open>A pass of the daemon\<close>

datatype voice_owner = OWNER_ANY | OWNER_LOCAL | OWNER_HA

datatype voice_mode = MODE_UNKNOWN | MODE_LOCAL | MODE_HA

text \<open>The descriptor of a service; \<open>sd_has_init\<close> says that it has an init script.\<close>

record service_desc =
  sd_name :: string
  sd_has_init :: bool
  sd_restartable :: bool
  sd_group :: "string option"
  sd_owner :: voice_owner

record supervised =
  sv_desc :: service_desc
  sv_state :: le_watchdog_service
  sv_leader :: nat
  sv_healthy :: bool
  sv_last_healthy :: bool
  sv_seen_healthy :: bool
  sv_installed :: bool
  sv_deselected :: bool
  sv_reported_give_up :: bool
  sv_total_restarts :: nat

definition wanted :: "service_desc \<Rightarrow> voice_mode \<Rightarrow> bool" where
  "wanted d mode \<longleftrightarrow>
     (if mode = MODE_UNKNOWN \<or> sd_owner d = OWNER_ANY then True
      else sd_owner d = (if mode = MODE_HA then OWNER_HA else OWNER_LOCAL))"

text \<open>
  The saved configuration as the reader sees it: the integration bits and the pipeline mode, each
  if present; \<open>None\<close> for a file that is missing, too long or no JSON object.
\<close>

definition read_voice_mode :: "(u32 option \<times> string option) option \<Rightarrow> voice_mode" where
  "read_voice_mode config =
     (case config of
        None \<Rightarrow> MODE_UNKNOWN
      | Some (bits, mode) \<Rightarrow>
          if bits = None \<and> mode = None then MODE_UNKNOWN
          else if (case bits of Some b \<Rightarrow> b AND 1 \<noteq> 0 | None \<Rightarrow> False) \<or> mode = Some ''home-assistant''
          then MODE_HA else MODE_LOCAL)"

definition in_group :: "supervised list \<Rightarrow> nat \<Rightarrow> nat \<Rightarrow> bool" where
  "in_group services i leader \<longleftrightarrow>
     sv_leader (services ! i) = leader \<and> sd_has_init (sv_desc (services ! i))"

definition group_healthy :: "supervised list \<Rightarrow> nat \<Rightarrow> bool" where
  "group_healthy services leader \<longleftrightarrow>
     list_all (\<lambda>s. \<not> (sv_leader s = leader \<and> sv_seen_healthy s \<and> \<not> sv_healthy s)) services"

datatype init_effect = Stop_Service nat | Start_Service nat

text \<open>
  Restarting a group: \<open>before\<close> and \<open>between\<close> tell whether the daemon is still running when the group is reached and after
  the stops, \<open>mode\<close> is the voice mode read again before the starts.
\<close>

definition restart_group ::
  "supervised list \<Rightarrow> nat \<Rightarrow> bool \<Rightarrow> bool \<Rightarrow> voice_mode \<Rightarrow> init_effect list \<times> supervised list" where
  "restart_group services leader before between mode =
     (let members = filter (\<lambda>i. in_group services i leader) [0 ..< length services];
          starts = filter (\<lambda>i. wanted (sv_desc (services ! i)) mode) members
      in if \<not> before then ([], services)
         else if \<not> between then (map Stop_Service (rev members), services)
         else (map Stop_Service (rev members) @ map Start_Service starts,
               fold (\<lambda>i ss. ss[i := (ss ! i)\<lparr>sv_total_restarts := sv_total_restarts (ss ! i) + 1\<rparr>])
                 starts services))"

text \<open>The first half of a pass over one service; \<open>probe\<close> is what its probe would answer.\<close>

definition rearm :: "voice_mode \<Rightarrow> int \<Rightarrow> int \<Rightarrow> supervised \<Rightarrow> supervised" where
  "rearm mode now grace_s s =
     (if wanted (sv_desc s) mode \<and> (sv_installed s \<or> sv_deselected s) \<and> \<not> sv_seen_healthy s
      then s\<lparr>sv_seen_healthy := True, sv_deselected := False, sv_last_healthy := True,
             sv_reported_give_up := False,
             sv_state := (le_watchdog_service_init now)\<lparr>wd_next_attempt_ms := now + grace_s * 1000\<rparr>\<rparr>
      else s)"

definition observe :: "voice_mode \<Rightarrow> int \<Rightarrow> int \<Rightarrow> bool \<Rightarrow> supervised \<Rightarrow> supervised" where
  "observe mode now grace_s probe s0 =
     (let s = rearm mode now grace_s s0
      in if \<not> wanted (sv_desc s) mode
         then s\<lparr>sv_seen_healthy := False, sv_deselected := True, sv_healthy := False,
                sv_last_healthy := True, sv_reported_give_up := False,
                sv_state := le_watchdog_service_init now\<rparr>
         else s\<lparr>sv_healthy := probe, sv_installed := sv_installed s \<or> probe,
                sv_seen_healthy := sv_seen_healthy s \<or> probe, sv_last_healthy := probe\<rparr>)"

text \<open>
  The second half for the service at \<open>i\<close>.
\<close>

definition decide ::
  "int \<Rightarrow> bool \<Rightarrow> bool \<Rightarrow> voice_mode \<Rightarrow> supervised list \<Rightarrow> nat \<Rightarrow> init_effect list \<times> supervised list" where
  "decide now before between mode services i =
     (let s = services ! i in
      if sv_leader s \<noteq> i \<or> \<not> sv_seen_healthy s then ([], services)
      else
        (let healthy = group_healthy services i
         in if \<not> sd_restartable (sv_desc s) then ([], services)
            else
              (let (action, state) = le_watchdog_step (sv_state s) healthy now;
                   services' = services[i := s\<lparr>sv_state := state\<rparr>]
               in case action of
                    WATCHDOG_RESTART \<Rightarrow>
                      (let (effects, ss) = restart_group services' i before between mode
                       in (effects, ss[i := (ss ! i)\<lparr>sv_state := le_watchdog_restarted (sv_state (ss ! i)) now\<rparr>]))
                  | WATCHDOG_GIVE_UP \<Rightarrow>
                      ([], services'[i := (services' ! i)\<lparr>sv_reported_give_up := True\<rparr>])
                  | WATCHDOG_NONE \<Rightarrow> ([], services'))))"

fun decide_all ::
  "int \<Rightarrow> bool \<Rightarrow> bool \<Rightarrow> voice_mode \<Rightarrow> nat list \<Rightarrow> supervised list \<Rightarrow> init_effect list \<times> supervised list" where
  "decide_all now before between mode [] services = ([], services)"
| "decide_all now before between mode (i # todo) services =
     (let (effects, services') = decide now before between mode services i;
          (more, services'') = decide_all now before between mode todo services'
      in (effects @ more, services''))"

text \<open>
  A whole pass with the probe results \<open>probes\<close>, the mode read at its start and the one read again
  when a group is restarted.
\<close>

definition watchdog_pass ::
  "int \<Rightarrow> int \<Rightarrow> voice_mode \<Rightarrow> bool list \<Rightarrow> bool \<Rightarrow> bool \<Rightarrow> voice_mode \<Rightarrow> supervised list \<Rightarrow>
   init_effect list \<times> supervised list" where
  "watchdog_pass now grace_s mode probes before between mode' services =
     decide_all now before between mode' [0 ..< length services]
       (map2 (observe mode now grace_s) probes services)"

text \<open>The group leaders of a service table: the first earlier service of the same group.\<close>

fun leader_of :: "service_desc \<Rightarrow> nat \<Rightarrow> (service_desc \<times> nat) list \<Rightarrow> nat" where
  "leader_of d i [] = i"
| "leader_of d i ((e, l) # rest) =
     (if sd_group d \<noteq> None \<and> sd_group e = sd_group d then l else leader_of d i rest)"

fun leaders_from :: "(service_desc \<times> nat) list \<Rightarrow> service_desc list \<Rightarrow> nat list" where
  "leaders_from seen [] = []"
| "leaders_from seen (d # ds) =
     (let l = leader_of d (length seen) seen in l # leaders_from (seen @ [(d, l)]) ds)"

definition supervise_table :: "int \<Rightarrow> service_desc list \<Rightarrow> supervised list" where
  "supervise_table now ds =
     map2 (\<lambda>d l. \<lparr>sv_desc = d, sv_state = le_watchdog_service_init now, sv_leader = l,
                 sv_healthy = False, sv_last_healthy = True, sv_seen_healthy = False,
                 sv_installed = False, sv_deselected = False, sv_reported_give_up = False,
                 sv_total_restarts = 0\<rparr>)
       ds (leaders_from [] ds)"

section \<open>Restarts in a run\<close>

text \<open>
  The policy as the daemon drives it, a restart being issued whenever it is asked for, with the
  times of the restarts since the service was last forgiven, newest first.
\<close>

definition forgiven :: "le_watchdog_service \<Rightarrow> bool \<Rightarrow> int \<Rightarrow> bool" where
  "forgiven s healthy t \<longleftrightarrow> \<not> wd_given_up s \<and> healthy \<and> wd_healthy_since_ms s \<noteq> 0 \<and>
     t - wd_healthy_since_ms s \<ge> LE_WATCHDOG_HEALTHY_RESET_MS"

definition policy_step ::
  "le_watchdog_service \<times> int list \<Rightarrow> bool \<times> int \<Rightarrow> le_watchdog_service \<times> int list" where
  "policy_step = (\<lambda>(s, log) (healthy, t).
     (case le_watchdog_step s healthy t of
        (WATCHDOG_RESTART, s') \<Rightarrow> (le_watchdog_restarted s' t, t # log)
      | (_, s') \<Rightarrow> (s', if forgiven s healthy t then [] else log)))"

definition backoff_after :: "nat \<Rightarrow> int" where
  "backoff_after n = min 30000 (1000 * 2 ^ n)"

fun spaced :: "int list \<Rightarrow> bool" where
  "spaced (t2 # t1 # ts) \<longleftrightarrow> t1 + backoff_after (length ts) \<le> t2 \<and> spaced (t1 # ts)"
| "spaced _ \<longleftrightarrow> True"

definition policy_inv :: "le_watchdog_service \<times> int list \<Rightarrow> bool" where
  "policy_inv = (\<lambda>(s, log). wd_failures s \<le> 2 \<and> wd_restarts s \<le> 5 \<and> wd_restarts s \<le> length log \<and>
     wd_backoff_ms s = backoff_after (length log) \<and> spaced log \<and>
     (log \<noteq> [] \<longrightarrow> wd_next_attempt_ms s = hd log + backoff_after (length log - 1)))"

lemma backoff_Suc: "backoff_after (Suc n) = (if backoff_after n * 2 > 30000 then 30000 else backoff_after n * 2)"
  by (auto simp: backoff_after_def min_def)

lemma backoff_bounds [bounds]: "1000 \<le> backoff_after n \<and> backoff_after n \<le> 30000"
  by (simp add: backoff_after_def)

lemma spaced_Cons: "spaced (t # log) \<longleftrightarrow> spaced log \<and> (log \<noteq> [] \<longrightarrow> hd log + backoff_after (length log - 1) \<le> t)"
  by (cases log) auto

lemma step_restart:
  assumes "le_watchdog_step s healthy t = (WATCHDOG_RESTART, s')"
  shows "\<not> healthy \<and> \<not> wd_given_up s \<and> wd_next_attempt_ms s \<le> t \<and> 1 \<le> wd_failures s \<and>
    wd_restarts s' < 5 \<and> wd_restarts s' \<le> wd_restarts s \<and> wd_backoff_ms s' = wd_backoff_ms s"
  using assms
  by (auto simp: le_watchdog_step_def forgive_if_settled_def watchdog_limits Let_def split: if_splits)

lemma step_other:
  assumes "le_watchdog_step s healthy t = (a, s')"
    and "wd_failures s \<le> 2" and "wd_restarts s \<le> 5"
  shows "wd_failures s' \<le> 2 \<and> wd_restarts s' \<le> wd_restarts s \<and> wd_next_attempt_ms s' = wd_next_attempt_ms s \<and>
    (if forgiven s healthy t then wd_backoff_ms s' = 1000 \<and> wd_restarts s' = 0
     else wd_backoff_ms s' = wd_backoff_ms s)"
  using assms
  by (auto simp: le_watchdog_step_def forgive_if_settled_def forgiven_def watchdog_limits Let_def
      split: if_splits)

lemma policy_inv_step: "policy_inv p \<Longrightarrow> policy_inv (policy_step p e)"
proof -
  assume inv: "policy_inv p"
  obtain s log where p: "p = (s, log)" by (cases p)
  obtain healthy t where e: "e = (healthy, t)" by (cases e)
  obtain a s' where step: "le_watchdog_step s healthy t = (a, s')" by fastforce
  note other = step_other [OF step]
  show ?thesis
  proof (cases "a = WATCHDOG_RESTART")
    case True
    note r = step_restart [OF step [unfolded True]]
    have "policy_step p e = (le_watchdog_restarted s' t, t # log)"
      by (simp add: policy_step_def p e step True)
    moreover have "spaced (t # log)" using inv r by (auto simp: policy_inv_def p spaced_Cons)
    ultimately show ?thesis
      using inv r other
      by (simp add: policy_inv_def p le_watchdog_restarted_def Let_def watchdog_limits backoff_Suc)
  next
    case False
    then have "policy_step p e = (s', if forgiven s healthy t then [] else log)"
      by (cases a) (simp_all add: policy_step_def p e step)
    then show ?thesis
      using inv other by (auto simp: policy_inv_def p backoff_after_def)
  qed
qed

interpretation policy: machine "\<lambda>p. \<exists>t. p = (le_watchdog_service_init t, [])" policy_step policy_inv
proof unfold_locales
  show "policy_inv p" if "\<exists>t. p = (le_watchdog_service_init t, [])" for p
    using that by (auto simp: policy_inv_def le_watchdog_service_init_def watchdog_limits backoff_after_def)
qed (rule policy_inv_step)

lemma given_up_stays:
  "wd_given_up s \<Longrightarrow> run policy_step (s, log) probes = (s, log)"
  by (induction probes) (auto simp: policy_step_def le_watchdog_step_def forgiven_def)

lemma early_no_restart:
  "\<forall>(healthy, t)\<in>set probes. t < wd_next_attempt_ms s \<Longrightarrow>
   \<exists>s'. run policy_step (s, []) probes = (s', []) \<and> wd_next_attempt_ms s' = wd_next_attempt_ms s"
proof (induction probes arbitrary: s)
  case (Cons p ps)
  obtain healthy t where p: "p = (healthy, t)" by (cases p)
  obtain a s' where step: "le_watchdog_step s healthy t = (a, s')" by fastforce
  have same: "wd_next_attempt_ms s' = wd_next_attempt_ms s"
    using step by (auto simp: le_watchdog_step_def forgive_if_settled_def Let_def split: if_splits)
  moreover have "a \<noteq> WATCHDOG_RESTART" using step_restart [of s healthy t s'] step Cons.prems p by auto
  then have "policy_step (s, []) p = (s', [])" by (cases a) (simp_all add: policy_step_def p step)
  ultimately show ?case using Cons.IH [of s'] Cons.prems by simp
qed simp

section \<open>Who is started\<close>

text \<open>Deciding leaves alone what a service is and what its probe said.\<close>

definition core :: "supervised \<Rightarrow> service_desc \<times> nat \<times> bool \<times> bool" where
  "core s = (sv_desc s, sv_leader s, sv_healthy s, sv_seen_healthy s)"

lemma map_core_update: "core s = core (ss ! i) \<Longrightarrow> map core (ss[i := s]) = map core ss"
  by (metis list_update_id map_update)

lemma map_core_count:
  "map core (fold (\<lambda>i ss. ss[i := (ss ! i)\<lparr>sv_total_restarts := f i ss\<rparr>]) todo ss) = map core ss"
proof (induction todo arbitrary: ss)
  case (Cons i todo)
  have "map core (ss[i := (ss ! i)\<lparr>sv_total_restarts := f i ss\<rparr>]) = map core ss"
    by (rule map_core_update) (simp add: core_def)
  then show ?case using Cons by simp
qed simp

lemma restart_group_core:
  "map core (snd (restart_group services leader before between mode)) = map core services"
  using map_core_count [of "\<lambda>i ss. sv_total_restarts (ss ! i) + 1"] by (simp add: restart_group_def Let_def)

lemma decide_core: "map core (snd (decide now before between mode services i)) = map core services"
proof -
  obtain a st where step: "le_watchdog_step (sv_state (services ! i)) (group_healthy services i) now = (a, st)"
    by fastforce
  have state: "map core (services[i := (services ! i)\<lparr>sv_state := st\<rparr>]) = map core services" for st
    by (rule map_core_update) (simp add: core_def)
  have "map core (ss[i := (ss ! i)\<lparr>sv_state := x\<rparr>]) = map core ss" for ss x
    by (rule map_core_update) (simp add: core_def)
  moreover have "map core (ss[i := (ss ! i)\<lparr>sv_reported_give_up := x\<rparr>]) = map core ss" for ss x
    by (rule map_core_update) (simp add: core_def)
  ultimately show ?thesis
    using state by (cases a) (simp_all add: decide_def step Let_def split_beta restart_group_core del: list_update_overwrite)
qed

lemma core_nth: "map core ss = map core ss' \<Longrightarrow> i < length ss \<Longrightarrow> core (ss ! i) = core (ss' ! i)"
  by (metis length_map nth_map)

definition start_ok :: "voice_mode \<Rightarrow> supervised list \<Rightarrow> nat \<Rightarrow> bool" where
  "start_ok mode ss j \<longleftrightarrow> j < length ss \<and> sd_has_init (sv_desc (ss ! j)) \<and> wanted (sv_desc (ss ! j)) mode \<and>
     (\<exists>m<length ss. sv_leader (ss ! m) = sv_leader (ss ! j) \<and> sv_seen_healthy (ss ! m) \<and> \<not> sv_healthy (ss ! m))"

lemma start_ok_core:
  assumes "map core ss = map core ss'"
  shows "start_ok mode ss j = start_ok mode ss' j"
proof -
  have len: "length ss = length ss'" using assms by (metis length_map)
  have "sv_desc (ss ! k) = sv_desc (ss' ! k) \<and> sv_leader (ss ! k) = sv_leader (ss' ! k) \<and>
      sv_healthy (ss ! k) = sv_healthy (ss' ! k) \<and> sv_seen_healthy (ss ! k) = sv_seen_healthy (ss' ! k)"
    if "k < length ss" for k
    using core_nth [OF assms that] by (simp add: core_def)
  then show ?thesis unfolding start_ok_def len by (metis len)
qed

lemma restart_group_starts:
  assumes "Start_Service j \<in> set (fst (restart_group ss leader before between mode))"
  shows "j < length ss \<and> sv_leader (ss ! j) = leader \<and> sd_has_init (sv_desc (ss ! j)) \<and>
    wanted (sv_desc (ss ! j)) mode"
  using assms by (auto simp: restart_group_def in_group_def Let_def split: if_splits)

lemma decide_starts:
  assumes "Start_Service j \<in> set (fst (decide now before between mode ss i))"
  shows "start_ok mode ss j"
proof -
  obtain a st where step: "le_watchdog_step (sv_state (ss ! i)) (group_healthy ss i) now = (a, st)" by fastforce
  let ?ss = "ss[i := (ss ! i)\<lparr>sv_state := st\<rparr>]"
  have a: "a = WATCHDOG_RESTART" and start: "Start_Service j \<in> set (fst (restart_group ?ss i before between mode))"
    using assms by (cases a; simp add: decide_def step Let_def split_beta split: if_splits)+
  have core: "map core ?ss = map core ss" by (rule map_core_update) (simp add: core_def)
  have "\<not> group_healthy ss i" using step_restart [OF step [unfolded a]] by simp
  then obtain m where "m < length ss" "sv_leader (ss ! m) = i" "sv_seen_healthy (ss ! m)" "\<not> sv_healthy (ss ! m)"
    by (auto simp: group_healthy_def list_all_length)
  moreover have "j < length ss" using restart_group_starts [OF start] by simp
  moreover have "sv_desc (?ss ! j) = sv_desc (ss ! j) \<and> sv_leader (?ss ! j) = sv_leader (ss ! j)"
    using core_nth [OF core] \<open>j < length ss\<close> by (simp add: core_def)
  ultimately show ?thesis using restart_group_starts [OF start] unfolding start_ok_def by auto
qed

lemma decide_all_starts:
  "Start_Service j \<in> set (fst (decide_all now before between mode todo ss)) \<Longrightarrow> start_ok mode ss j"
proof (induction todo arbitrary: ss)
  case (Cons i todo)
  show ?case
  proof (cases "Start_Service j \<in> set (fst (decide now before between mode ss i))")
    case True
    then show ?thesis by (rule decide_starts)
  next
    case False
    then have "start_ok mode (snd (decide now before between mode ss i)) j"
      using Cons by (simp add: split_beta)
    then show ?thesis using start_ok_core [OF decide_core] by blast
  qed
qed simp

lemma observe_fields:
  "sv_desc (observe mode now grace probe s) = sv_desc s"
  "sv_leader (observe mode now grace probe s) = sv_leader s"
  "sv_seen_healthy (observe mode now grace probe s) \<and> \<not> sv_healthy (observe mode now grace probe s) \<Longrightarrow>
     wanted (sv_desc s) mode \<and> \<not> probe \<and> (sv_seen_healthy s \<or> sv_installed s \<or> sv_deselected s)"
  by (auto simp: observe_def rearm_def Let_def split: if_splits)

section \<open>Properties\<close>



text \<open>
  A restart is asked for only after two failed probes in a row, never before the time of the next
  attempt, and never by a service that was given up on; so a service whose voice mode was just
  selected is left alone for its whole grace period.
\<close>

theorem watchdog_patience:
  assumes "le_watchdog_step s healthy t = (WATCHDOG_RESTART, s')"
  shows "\<not> healthy \<and> \<not> wd_given_up s \<and> wd_next_attempt_ms s \<le> t \<and>
    LE_WATCHDOG_FAILURES_BEFORE_RESTART \<le> wd_failures s + 1 \<and>
    (\<forall>more. (\<forall>(h, u)\<in>set more. u < wd_next_attempt_ms s) \<longrightarrow> snd (run policy_step (s, []) more) = [])"
  using step_restart [OF assms] early_no_restart [of _ s] by (fastforce simp: watchdog_limits)

theorem watchdog_patience_witness:
  "let s = fst (run policy_step (le_watchdog_service_init 0, []) [(False, 0)])
   in fst (le_watchdog_step s False 5000) = WATCHDOG_RESTART \<and> wd_next_attempt_ms s \<le> 5000"
proof -
  let ?s = "fst (run policy_step (le_watchdog_service_init 0, []) [(False, 0)])"
  have r: "fst (le_watchdog_step ?s False 5000) = WATCHDOG_RESTART" by code_simp
  then have "le_watchdog_step ?s False 5000 = (WATCHDOG_RESTART, snd (le_watchdog_step ?s False 5000))"
    by (metis prod.collapse)
  from watchdog_patience [OF this] r show ?thesis unfolding Let_def by blast
qed

text \<open>
  A pass starts a service only when the voice mode read at that moment wants it and a member of
  its group that was wanted at the start of the pass, and has been up before (or whose mode was
  switched off and on again), failed its probe: nothing that the owner has turned off is started.
\<close>

theorem watchdog_starts_only_wanted:
  assumes "Start_Service j \<in> set (fst (watchdog_pass now grace mode probes before between mode' services))"
    and "length probes = length services"
  shows "j < length services \<and> wanted (sv_desc (services ! j)) mode' \<and>
    (\<exists>m<length services. sv_leader (services ! m) = sv_leader (services ! j) \<and>
       wanted (sv_desc (services ! m)) mode \<and> \<not> probes ! m \<and>
       (sv_seen_healthy (services ! m) \<or> sv_installed (services ! m) \<or> sv_deselected (services ! m)))"
proof -
  let ?ss = "map2 (observe mode now grace) probes services"
  have nth: "m < length services \<Longrightarrow> ?ss ! m = observe mode now grace (probes ! m) (services ! m)" for m
    using assms(2) by simp
  have "start_ok mode' ?ss j"
    using assms(1) unfolding watchdog_pass_def by (rule decide_all_starts)
  then show ?thesis
    using assms(2) nth observe_fields unfolding start_ok_def by auto metis
qed

theorem watchdog_starts_only_wanted_witness:
  "let d = \<lparr>sd_name = ''agentd'', sd_has_init = True, sd_restartable = True, sd_group = None,
             sd_owner = OWNER_LOCAL\<rparr>;
       pass = (\<lambda>t probe ss. snd (watchdog_pass t 0 MODE_LOCAL [probe] True True MODE_LOCAL ss));
       ss = pass 20000 False (pass 10000 True (supervise_table 0 [d]))
   in Start_Service 0 \<in> set (fst (watchdog_pass 30000 0 MODE_LOCAL [False] True True MODE_LOCAL ss)) \<and>
      wanted (sv_desc (ss ! 0)) MODE_LOCAL"
proof -
  define d where "d = \<lparr>sd_name = ''agentd'', sd_has_init = True, sd_restartable = True, sd_group = None,
             sd_owner = OWNER_LOCAL\<rparr>"
  define pass where "pass = (\<lambda>t probe ss. snd (watchdog_pass t 0 MODE_LOCAL [probe] True True MODE_LOCAL ss))"
  define ss where "ss = pass 20000 False (pass 10000 True (supervise_table 0 [d]))"
  have "Start_Service 0 \<in> set (fst (watchdog_pass 30000 0 MODE_LOCAL [False] True True MODE_LOCAL ss))"
    and "length [False] = length ss"
    unfolding ss_def pass_def d_def by code_simp+
  from this(1) watchdog_starts_only_wanted [OF this] show ?thesis
    unfolding Let_def d_def [symmetric] pass_def [symmetric] ss_def [symmetric] by blast
qed

text \<open>
  The storm window is a tumbling one.  A first restart opens it and a failure more than five
  minutes later opens the next with a fresh count, so restarts at the end of one window and the
  beginning of the next add up: here eight restarts fall within 137 seconds, and the service is
  not given up on.
\<close>

theorem watchdog_window_tumbles:
  "let (s, log) = run policy_step (le_watchdog_service_init 1, [])
         (concat (map (\<lambda>t. [(False, t - 1), (False, t)])
            [1000, 290000, 294000, 299000, 310000, 330000, 362000, 396000, 427000]))
   in log = [427000, 396000, 362000, 330000, 310000, 299000, 294000, 290000, 1000] \<and> \<not> wd_given_up s"
  by code_simp

end
