(* ===== verification/Live_Session.thy ===== *)
theory Live_Session
  imports Live_Ring
begin

text \<open>
  The lifecycle of one GPT-Live conversation (\<^verbatim>\<open>src/adapter/live_session.c\<close>, \<^verbatim>\<open>live_session.h\<close>) over
  the transport interface of \<^verbatim>\<open>live_transport.h\<close>.  The callbacks of the daemon and of the transport
  are parameters: optional functions (a NULL callback is \<open>None\<close>) over the state \<open>'w\<close> of whatever
  they talk to, which the session holds where the code holds \<^verbatim>\<open>context\<close> and the transport's private
  state.  They do not call back into the session, as the code relies on.  Times and counters are
  64-bit and levels 32-bit unsigned, wrapping as in C; buffers of a known size truncate.  The two
  JSON renderings of the state are left out, and so are the NULL checks on the session itself.
\<close>

section \<open>Types\<close>

definition LE_LIVE_INPUT_RATE :: nat where "LE_LIVE_INPUT_RATE = 16000"
definition LE_LIVE_AUDIO_SAMPLES :: nat where "LE_LIVE_AUDIO_SAMPLES = 1280"
definition LE_LIVE_TOOL_NAME_MAX :: nat where "LE_LIVE_TOOL_NAME_MAX = 48"
definition LE_LIVE_DELEGATION_ID_MAX :: nat where "LE_LIVE_DELEGATION_ID_MAX = 64"
definition LE_LIVE_ARGUMENT_MAX :: nat where "LE_LIVE_ARGUMENT_MAX = 512"
definition LE_LIVE_TEXT_MAX :: nat where "LE_LIVE_TEXT_MAX = 512"
definition LE_LIVE_TRANSCRIPT_TURNS :: nat where "LE_LIVE_TRANSCRIPT_TURNS = 10"
definition LE_LIVE_DELEGATION_CACHE :: nat where "LE_LIVE_DELEGATION_CACHE = 16"

lemmas live_sizes = LE_LIVE_INPUT_RATE_def LE_LIVE_AUDIO_SAMPLES_def LE_LIVE_TOOL_NAME_MAX_def
  LE_LIVE_DELEGATION_ID_MAX_def LE_LIVE_ARGUMENT_MAX_def LE_LIVE_TEXT_MAX_def
  LE_LIVE_TRANSCRIPT_TURNS_def LE_LIVE_DELEGATION_CACHE_def

datatype le_live_state = LE_LIVE_IDLE | LE_LIVE_CONNECTING | LE_LIVE_LISTENING | LE_LIVE_SPEAKING
  | LE_LIVE_WAITING_FOR_TOOL | LE_LIVE_CLOSING

datatype le_live_end_reason = LE_LIVE_END_NONE | LE_LIVE_END_TIMEOUT | LE_LIVE_END_MAX_DURATION
  | LE_LIVE_END_TRANSPORT_CLOSED | LE_LIVE_END_TRANSPORT_ERROR | LE_LIVE_END_CONNECT_FAILED
  | LE_LIVE_END_AUDIO_FAILED | LE_LIVE_END_STOPPED

datatype le_live_speaker = LE_LIVE_SPEAKER_USER | LE_LIVE_SPEAKER_MODEL

datatype le_live_event =
    LE_LIVE_EVENT_NONE
  | LE_LIVE_EVENT_OPEN
  | LE_LIVE_EVENT_TRANSCRIPT (ev_speaker: le_live_speaker) (ev_final: bool) (ev_text: string)
  | LE_LIVE_EVENT_AUDIO (ev_samples: "sample list") (ev_rate: u32)
  | LE_LIVE_EVENT_DELEGATION (ev_delegation_id: string) (ev_tool: string) (ev_arguments: string)
  | LE_LIVE_EVENT_OUTPUT_DONE
  | LE_LIVE_EVENT_INPUT_STARTED
  | LE_LIVE_EVENT_CLOSED
  | LE_LIVE_EVENT_ERROR (ev_detail: string)

record le_live_turn =
  lt_speaker :: le_live_speaker
  lt_final :: bool
  lt_text :: string

record le_live_delegation_record =
  ld_id :: string
  ld_tool :: string
  ld_result :: string
  ld_used :: bool
  ld_ok :: bool

text \<open>
  The callbacks; an integer result is the code's, negative for failure.  The string that
  \<open>op_dispatch\<close> returns is what it left in the result buffer.
\<close>

record 'w le_live_session_ops =
  op_output_audio :: "('w \<Rightarrow> sample list \<Rightarrow> u32 \<Rightarrow> int \<times> 'w) option"
  op_cancel_output :: "('w \<Rightarrow> 'w) option"
  op_dispatch :: "('w \<Rightarrow> string \<Rightarrow> string \<Rightarrow> int \<times> string \<times> 'w) option"
  op_state_changed :: "('w \<Rightarrow> le_live_state \<Rightarrow> 'w) option"

record 'w le_live_transport_ops =
  tp_start :: "('w \<Rightarrow> int \<times> string \<times> 'w) option"
  tp_send_audio :: "('w \<Rightarrow> sample list \<Rightarrow> int \<times> 'w) option"
  tp_poll :: "('w \<Rightarrow> int \<Rightarrow> int \<times> le_live_event \<times> 'w) option"
  tp_interrupt :: "('w \<Rightarrow> int \<times> 'w) option"
  tp_complete_delegation :: "('w \<Rightarrow> string \<Rightarrow> string \<Rightarrow> int \<times> 'w) option"
  tp_stop :: "('w \<Rightarrow> 'w) option"

text \<open>The strings of the configuration are only handed on to the transport and are part of \<open>tp_start\<close>.\<close>

record 'w le_live_session_config =
  lc_transport_ops :: "'w le_live_transport_ops option"
  lc_conversation_timeout_ms :: u32
  lc_max_session_ms :: u32
  lc_connect_timeout_ms :: u32
  lc_wake_preroll_ms :: u32
  lc_barge_in_rms :: u32
  lc_barge_in_factor :: u32
  lc_barge_in_frames :: u32

record 'w le_live_session =
  ls_transport :: "'w le_live_transport_ops option"
  ls_ops :: "'w le_live_session_ops"
  ls_world :: 'w
  ls_config :: "'w le_live_session_config"
  ls_ring :: "live_ring option"
  ls_state :: le_live_state
  ls_last_end :: le_live_end_reason
  ls_opened_ms :: u64
  ls_last_model_speech_ms :: u64
  ls_last_user_speech_ms :: u64
  ls_first_audio_at_ms :: u64
  ls_next_send_sample :: u64
  ls_barge_in_run :: u32
  ls_audio_started :: bool
  ls_input_peak_rms :: u32
  ls_speech_peak_rms :: u32
  ls_input_floor_rms :: u32
  ls_floor_primed :: bool
  ls_turns :: "le_live_turn list"
  ls_turn_count :: nat
  ls_turn_next :: nat
  ls_delegation_cache :: "le_live_delegation_record list"
  ls_delegation_next :: nat
  ls_sessions_started :: u64
  ls_sessions_completed :: u64
  ls_sessions_failed :: u64
  ls_audio_input_ms :: u64
  ls_audio_output_ms :: u64
  ls_delegation_count :: u64
  ls_delegation_failures :: u64
  ls_delegation_delivery_failures :: u64
  ls_delegation_deduped :: u64
  ls_barge_ins :: u64
  ls_last_connection_ms :: u64
  ls_last_first_audio_ms :: u64
  ls_last_error :: string

section \<open>Initialisation and state changes\<close>

text \<open>A string copied into a buffer of \<open>n\<close> bytes.\<close>

definition copy_text :: "nat \<Rightarrow> string \<Rightarrow> string" where
  "copy_text n v = take (n - 1) v"

definition le_live_state_name :: "le_live_state \<Rightarrow> string" where
  "le_live_state_name st =
     (case st of LE_LIVE_IDLE \<Rightarrow> ''idle'' | LE_LIVE_CONNECTING \<Rightarrow> ''connecting''
      | LE_LIVE_LISTENING \<Rightarrow> ''listening'' | LE_LIVE_SPEAKING \<Rightarrow> ''speaking''
      | LE_LIVE_WAITING_FOR_TOOL \<Rightarrow> ''waiting_for_tool'' | LE_LIVE_CLOSING \<Rightarrow> ''closing'')"

definition le_live_end_reason_name :: "le_live_end_reason \<Rightarrow> string" where
  "le_live_end_reason_name r =
     (case r of LE_LIVE_END_NONE \<Rightarrow> ''none'' | LE_LIVE_END_TIMEOUT \<Rightarrow> ''timeout''
      | LE_LIVE_END_MAX_DURATION \<Rightarrow> ''max_duration''
      | LE_LIVE_END_TRANSPORT_CLOSED \<Rightarrow> ''transport_closed''
      | LE_LIVE_END_TRANSPORT_ERROR \<Rightarrow> ''transport_error''
      | LE_LIVE_END_CONNECT_FAILED \<Rightarrow> ''connect_failed''
      | LE_LIVE_END_AUDIO_FAILED \<Rightarrow> ''audio_failed'' | LE_LIVE_END_STOPPED \<Rightarrow> ''stopped'')"

definition live_set_state :: "'w le_live_session \<Rightarrow> le_live_state \<Rightarrow> 'w le_live_session" where
  "live_set_state s st =
     (if ls_state s = st then s
      else s\<lparr>ls_state := st,
             ls_world := (case op_state_changed (ls_ops s) of
                            None \<Rightarrow> ls_world s | Some f \<Rightarrow> f (ls_world s) st)\<rparr>)"

definition empty_turn :: le_live_turn where
  "empty_turn = \<lparr>lt_speaker = LE_LIVE_SPEAKER_USER, lt_final = False, lt_text = []\<rparr>"

definition empty_record :: le_live_delegation_record where
  "empty_record = \<lparr>ld_id = [], ld_tool = [], ld_result = [], ld_used = False, ld_ok = False\<rparr>"

definition or_default :: "u32 \<Rightarrow> u32 \<Rightarrow> u32" where
  "or_default v d = (if v = 0 then d else v)"

definition le_live_session_init ::
  "live_ring option \<Rightarrow> 'w le_live_session_config \<Rightarrow> 'w le_live_session_ops \<Rightarrow> 'w \<Rightarrow>
   'w le_live_session" where
  "le_live_session_init ring config ops w =
     \<lparr>ls_transport = None, ls_ops = ops, ls_world = w,
      ls_config = config\<lparr>
        lc_conversation_timeout_ms := or_default (lc_conversation_timeout_ms config) 15000,
        lc_max_session_ms := or_default (lc_max_session_ms config) 600000,
        lc_connect_timeout_ms := or_default (lc_connect_timeout_ms config) 8000,
        lc_barge_in_frames := or_default (lc_barge_in_frames config) 3,
        lc_barge_in_factor := or_default (lc_barge_in_factor config) 6\<rparr>,
      ls_ring = ring, ls_state = LE_LIVE_IDLE, ls_last_end = LE_LIVE_END_NONE,
      ls_opened_ms = 0, ls_last_model_speech_ms = 0, ls_last_user_speech_ms = 0,
      ls_first_audio_at_ms = 0, ls_next_send_sample = 0, ls_barge_in_run = 0,
      ls_audio_started = False, ls_input_peak_rms = 0, ls_speech_peak_rms = 0,
      ls_input_floor_rms = 0, ls_floor_primed = False,
      ls_turns = replicate LE_LIVE_TRANSCRIPT_TURNS empty_turn, ls_turn_count = 0,
      ls_turn_next = 0,
      ls_delegation_cache = replicate LE_LIVE_DELEGATION_CACHE empty_record,
      ls_delegation_next = 0, ls_sessions_started = 0, ls_sessions_completed = 0,
      ls_sessions_failed = 0, ls_audio_input_ms = 0, ls_audio_output_ms = 0,
      ls_delegation_count = 0, ls_delegation_failures = 0,
      ls_delegation_delivery_failures = 0, ls_delegation_deduped = 0, ls_barge_ins = 0,
      ls_last_connection_ms = 0, ls_last_first_audio_ms = 0, ls_last_error = []\<rparr>"

definition le_live_session_active :: "'w le_live_session \<Rightarrow> bool" where
  "le_live_session_active s \<longleftrightarrow> ls_state s \<noteq> LE_LIVE_IDLE"

definition completes :: "le_live_end_reason \<Rightarrow> bool" where
  "completes reason \<longleftrightarrow> reason = LE_LIVE_END_TIMEOUT \<or> reason = LE_LIVE_END_MAX_DURATION \<or>
     reason = LE_LIVE_END_STOPPED \<or> reason = LE_LIVE_END_TRANSPORT_CLOSED"

definition le_live_session_close :: "'w le_live_session \<Rightarrow> le_live_end_reason \<Rightarrow> 'w le_live_session" where
  "le_live_session_close s0 reason =
     (if ls_state s0 = LE_LIVE_IDLE then s0
      else
        (let s1 = live_set_state s0 LE_LIVE_CLOSING;
             s2 = (case op_cancel_output (ls_ops s1) of
                     None \<Rightarrow> s1 | Some f \<Rightarrow> s1\<lparr>ls_world := f (ls_world s1)\<rparr>);
             s3 = (case Option.bind (ls_transport s2) tp_stop of
                     None \<Rightarrow> s2 | Some f \<Rightarrow> s2\<lparr>ls_world := f (ls_world s2)\<rparr>);
             s4 = s3\<lparr>ls_last_end := reason\<rparr>;
             s5 = (if completes reason
                   then s4\<lparr>ls_sessions_completed := ls_sessions_completed s4 + 1\<rparr>
                   else s4\<lparr>ls_sessions_failed := ls_sessions_failed s4 + 1\<rparr>)
         in live_set_state (s5\<lparr>ls_next_send_sample := 0, ls_barge_in_run := 0\<rparr>) LE_LIVE_IDLE))"

section \<open>Transcript\<close>

definition last_turn_index :: "'w le_live_session \<Rightarrow> nat" where
  "last_turn_index s =
     (if ls_turn_next s \<noteq> 0 then ls_turn_next s - 1 else LE_LIVE_TRANSCRIPT_TURNS - 1)"

definition transcript_append ::
  "'w le_live_session \<Rightarrow> le_live_speaker \<Rightarrow> bool \<Rightarrow> string \<Rightarrow> 'w le_live_session" where
  "transcript_append s speaker final text =
     (let i = last_turn_index s; newest = ls_turns s ! i in
      if ls_turn_count s \<noteq> 0 \<and> lt_speaker newest = speaker \<and> \<not> lt_final newest
      then s\<lparr>ls_turns := (ls_turns s)
               [i := newest\<lparr>lt_text := copy_text LE_LIVE_TEXT_MAX text, lt_final := final\<rparr>]\<rparr>
      else s\<lparr>ls_turns := (ls_turns s)
               [ls_turn_next s := \<lparr>lt_speaker = speaker, lt_final = final,
                                   lt_text = copy_text LE_LIVE_TEXT_MAX text\<rparr>],
             ls_turn_next := (ls_turn_next s + 1) mod LE_LIVE_TRANSCRIPT_TURNS,
             ls_turn_count := (if ls_turn_count s < LE_LIVE_TRANSCRIPT_TURNS
                               then ls_turn_count s + 1 else ls_turn_count s)\<rparr>)"

section \<open>Delegations\<close>

definition delegation_lookup ::
  "'w le_live_session \<Rightarrow> string \<Rightarrow> le_live_delegation_record option" where
  "delegation_lookup s i =
     (if i = [] then None
      else find (\<lambda>r. ld_used r \<and> ld_id r = i) (ls_delegation_cache s))"

definition delegation_store ::
  "'w le_live_session \<Rightarrow> string \<Rightarrow> string \<Rightarrow> bool \<Rightarrow> string \<Rightarrow> 'w le_live_session" where
  "delegation_store s i tool ok result =
     s\<lparr>ls_delegation_cache := (ls_delegation_cache s)
         [ls_delegation_next s :=
            \<lparr>ld_id = copy_text LE_LIVE_DELEGATION_ID_MAX i,
             ld_tool = copy_text LE_LIVE_TOOL_NAME_MAX tool,
             ld_result = copy_text LE_LIVE_ARGUMENT_MAX result, ld_used = True, ld_ok = ok\<rparr>],
       ls_delegation_next := (ls_delegation_next s + 1) mod LE_LIVE_DELEGATION_CACHE\<rparr>"

text \<open>The boolean says whether the answer was delivered.\<close>

definition live_complete_delegation ::
  "'w le_live_session \<Rightarrow> string \<Rightarrow> string \<Rightarrow> bool \<times> 'w le_live_session" where
  "live_complete_delegation s i result =
     (let (rc, s1) =
        (case Option.bind (ls_transport s) tp_complete_delegation of
           None \<Rightarrow> (- 1, s)
         | Some f \<Rightarrow> (let (rc, w) = f (ls_world s) i result in (rc, s\<lparr>ls_world := w\<rparr>)))
      in if rc = 0 then (True, s1)
         else
           (let s2 = (if ls_delegation_delivery_failures s1 < - 1
                      then s1\<lparr>ls_delegation_delivery_failures :=
                                ls_delegation_delivery_failures s1 + 1\<rparr> else s1)
            in (False, le_live_session_close
                  (s2\<lparr>ls_last_error := ''delegation result delivery failed''\<rparr>)
                  LE_LIVE_END_TRANSPORT_ERROR)))"

fun contains_at :: "string \<Rightarrow> string \<Rightarrow> bool" where
  "contains_at needle [] \<longleftrightarrow> needle = []"
| "contains_at needle (c # cs) \<longleftrightarrow>
     take (length needle) (c # cs) = needle \<or> contains_at needle cs"

definition end_session_mark :: string where
  "end_session_mark = CHR 0x22 # ''end_session'' @ [CHR 0x22] @ '':true''"

text \<open>The counters, the dispatch and its default answer: what precedes the store.\<close>

definition dispatched :: "'w le_live_session \<Rightarrow> string \<Rightarrow> string \<Rightarrow> bool \<times> string \<times> 'w le_live_session" where
  "dispatched s tool arguments =
     (let s1 = s\<lparr>ls_delegation_count := ls_delegation_count s + 1\<rparr>;
          (ok, result, s2) =
            (case op_dispatch (ls_ops s1) of
               Some f \<Rightarrow> (let (rc, result, w) = f (ls_world s1) tool arguments
                         in (rc = 0, result, s1\<lparr>ls_world := w\<rparr>))
             | None \<Rightarrow> (False, ''unsupported'', s1));
          s3 = (if \<not> ok then s2\<lparr>ls_delegation_failures := ls_delegation_failures s2 + 1\<rparr> else s2)
      in (ok, if \<not> ok \<and> result = [] then ''unsupported'' else result, s3))"

definition handle_delegation ::
  "'w le_live_session \<Rightarrow> string \<Rightarrow> string \<Rightarrow> string \<Rightarrow> 'w le_live_session" where
  "handle_delegation s i tool arguments =
     (case delegation_lookup s i of
        Some replay \<Rightarrow>
          snd (live_complete_delegation
                 (s\<lparr>ls_delegation_deduped := ls_delegation_deduped s + 1\<rparr>)
                 (ld_id replay) (ld_result replay))
      | None \<Rightarrow>
          (let (ok, result, s3) = dispatched s tool arguments;
               (delivered, s5) =
                 live_complete_delegation (delegation_store s3 i tool ok result) i result
           in if \<not> delivered then s5
              else if contains_at end_session_mark result
              then le_live_session_close s5 LE_LIVE_END_STOPPED
              else live_set_state s5 LE_LIVE_SPEAKING))"

section \<open>Input\<close>

fun total_level :: "sample list \<Rightarrow> nat" where
  "total_level [] = 0"
| "total_level (x # xs) = nat \<bar>sint x\<bar> + total_level xs"

definition frame_rms :: "sample list \<Rightarrow> u32" where
  "frame_rms xs = (if xs = [] then 0 else of_nat (total_level xs div length xs))"

lemma read_bounded:
  assumes "n < le_live_ring_end r"
  shows "length (le_live_ring_read r n c) \<le> unat (le_live_ring_end r) - unat n"
proof (cases "le_live_ring_read r n c = []")
  case False
  then have "lr_count r \<noteq> 0" by (auto simp: le_live_ring_read_def split: if_splits)
  then show ?thesis
    using assms
    by (auto simp: le_live_ring_read_def le_live_ring_end_def Let_def unat_sub word_le_nat_alt word_less_nat_alt)
qed simp

text \<open>
  The drain loop; \<open>True\<close> for success.  It ends because every round moves towards the ring's end.
\<close>

function flush_loop :: "live_ring \<Rightarrow> 'w le_live_session \<Rightarrow> bool \<times> 'w le_live_session" where
  "flush_loop r s =
     (if ls_next_send_sample s < le_live_ring_end r then
        (let chunk = le_live_ring_read r (ls_next_send_sample s) LE_LIVE_AUDIO_SAMPLES in
         if chunk = [] then (True, s)
         else
           (case Option.bind (ls_transport s) tp_send_audio of
              None \<Rightarrow> (False, s)
            | Some f \<Rightarrow>
                (let (rc, w) = f (ls_world s) chunk; s1 = s\<lparr>ls_world := w\<rparr> in
                 if rc < 0 then (False, s1)
                 else flush_loop r
                   (s1\<lparr>ls_next_send_sample := ls_next_send_sample s1 + of_nat (length chunk),
                       ls_audio_input_ms := ls_audio_input_ms s1 +
                         of_nat (length chunk) * 1000 div of_nat LE_LIVE_INPUT_RATE\<rparr>))))
      else (True, s))"
  by pat_completeness auto

lemma unat_advance:
  fixes n e :: u64
  assumes "n < e" and "k \<le> unat e - unat n"
  shows "unat (n + of_nat k) = unat n + k"
proof -
  have "unat n < unat e" and "unat e < 2 ^ 64"
    using assms(1) unsigned_less [of e, where ?'a = nat] by (simp_all add: word_less_nat_alt)
  then show ?thesis using assms(2) by (intro unat_add_of_nat) simp
qed

termination flush_loop
proof (relation "measure (\<lambda>(r, s). unat (le_live_ring_end r) - unat (ls_next_send_sample s))")
  fix r :: live_ring and s s1 :: "'w le_live_session" and chunk f p rc w
  assume a: "ls_next_send_sample s < le_live_ring_end r"
    "chunk = le_live_ring_read r (ls_next_send_sample s) LE_LIVE_AUDIO_SAMPLES" "chunk \<noteq> []"
    "s1 = s\<lparr>ls_world := w\<rparr>"
  have "length chunk \<le> unat (le_live_ring_end r) - unat (ls_next_send_sample s)"
    unfolding a(2) by (rule read_bounded [OF a(1)])
  then have "unat (ls_next_send_sample s + of_nat (length chunk)) = unat (ls_next_send_sample s) + length chunk"
    by (rule unat_advance [OF a(1)])
  moreover have "0 < length chunk" using a(3) by simp
  ultimately show "((r, s1\<lparr>ls_next_send_sample := ls_next_send_sample s1 + of_nat (length chunk),
      ls_audio_input_ms := ls_audio_input_ms s1 +
        of_nat (length chunk) * 1000 div of_nat LE_LIVE_INPUT_RATE\<rparr>), r, s)
    \<in> measure (\<lambda>(r, s). unat (le_live_ring_end r) - unat (ls_next_send_sample s))"
    using a(1,4) by (simp add: word_less_nat_alt diff_less_mono2 del: length_greater_0_conv)
qed simp

declare flush_loop.simps [simp del]

definition flush_pending :: "'w le_live_session \<Rightarrow> bool \<times> 'w le_live_session" where
  "flush_pending s =
     (case ls_ring s of
        None \<Rightarrow> (True, s)
      | Some r \<Rightarrow>
          if \<not> le_live_session_active s then (True, s)
          else if ls_state s = LE_LIVE_CONNECTING \<or> ls_state s = LE_LIVE_CLOSING then (True, s)
          else flush_loop r s)"

definition observe_peak :: "'w le_live_session \<Rightarrow> u32 \<Rightarrow> 'w le_live_session" where
  "observe_peak s rms =
     (if rms > ls_input_peak_rms s then s\<lparr>ls_input_peak_rms := rms\<rparr> else s)"

definition observe_input :: "'w le_live_session \<Rightarrow> sample list \<Rightarrow> 'w le_live_session" where
  "observe_input s0 samples =
     (let rms = frame_rms samples; s = observe_peak s0 rms in
      if \<not> ls_floor_primed s then s\<lparr>ls_input_floor_rms := rms, ls_floor_primed := True\<rparr>
      else if rms < ls_input_floor_rms s then s\<lparr>ls_input_floor_rms := rms\<rparr>
      else s\<lparr>ls_input_floor_rms := ls_input_floor_rms s + (rms - ls_input_floor_rms s) div 64\<rparr>)"

definition barge_in_threshold :: "'w le_live_session \<Rightarrow> u32" where
  "barge_in_threshold s =
     (let threshold = lc_barge_in_rms (ls_config s);
          factor = lc_barge_in_factor (ls_config s);
          relative = ls_input_floor_rms s * factor
      in if factor \<noteq> 0 \<and> relative > threshold then relative else threshold)"

definition check_barge_in ::
  "'w le_live_session \<Rightarrow> sample list \<Rightarrow> u64 \<Rightarrow> 'w le_live_session" where
  "check_barge_in s samples now_ms =
     (let rms = frame_rms samples; threshold = barge_in_threshold s in
      if ls_state s \<noteq> LE_LIVE_SPEAKING then s\<lparr>ls_barge_in_run := 0\<rparr>
      else
        (let s1 = (if rms > ls_speech_peak_rms s then s\<lparr>ls_speech_peak_rms := rms\<rparr> else s) in
         if rms < threshold then s1\<lparr>ls_barge_in_run := 0\<rparr>
         else
           (let s2 = s1\<lparr>ls_barge_in_run := ls_barge_in_run s1 + 1\<rparr> in
            if ls_barge_in_run s2 < lc_barge_in_frames (ls_config s2) then s2
            else
              (let s3 = s2\<lparr>ls_barge_in_run := 0, ls_barge_ins := ls_barge_ins s2 + 1\<rparr>;
                   s4 = (case Option.bind (ls_transport s3) tp_interrupt of
                           None \<Rightarrow> s3 | Some f \<Rightarrow> s3\<lparr>ls_world := snd (f (ls_world s3))\<rparr>);
                   s5 = (case op_cancel_output (ls_ops s4) of
                           None \<Rightarrow> s4 | Some f \<Rightarrow> s4\<lparr>ls_world := f (ls_world s4)\<rparr>)
               in live_set_state (s5\<lparr>ls_last_user_speech_ms := now_ms\<rparr>) LE_LIVE_LISTENING))))"

definition upload_failed :: "'w le_live_session \<Rightarrow> 'w le_live_session" where
  "upload_failed s =
     le_live_session_close (s\<lparr>ls_last_error := ''audio upload failed''\<rparr>) LE_LIVE_END_TRANSPORT_ERROR"

text \<open>A frame that the ring took (or that needs none): the levels, the barge-in and the upload.\<close>

definition feed_accepted ::
  "'w le_live_session \<Rightarrow> sample list \<Rightarrow> u64 \<Rightarrow> int \<times> 'w le_live_session" where
  "feed_accepted s1 samples now_ms =
     (let model_speaking = (ls_state s1 = LE_LIVE_SPEAKING);
          s2 = (if le_live_session_active s1 then check_barge_in s1 samples now_ms else s1);
          s3 = (if \<not> model_speaking then observe_input s2 samples
                else observe_peak s2 (frame_rms samples))
      in if \<not> le_live_session_active s3 then (0, s3)
         else (case flush_pending s3 of
                 (False, s4) \<Rightarrow> (- 1, upload_failed s4)
               | (True, s4) \<Rightarrow> (0, s4)))"

definition le_live_session_feed ::
  "'w le_live_session \<Rightarrow> u64 \<Rightarrow> sample list \<Rightarrow> u64 \<Rightarrow> int \<times> 'w le_live_session" where
  "le_live_session_feed s first_sample samples now_ms =
     (if samples = [] then (- 1, s)
      else
        (case (case ls_ring s of
                 None \<Rightarrow> Some s
               | Some r \<Rightarrow> map_option (\<lambda>r'. s\<lparr>ls_ring := Some r'\<rparr>)
                             (le_live_ring_append r first_sample samples)) of
           None \<Rightarrow> (- 1, s)
         | Some s1 \<Rightarrow> feed_accepted s1 samples now_ms))"

section \<open>Lifecycle\<close>

definition preroll_samples :: "u32 \<Rightarrow> u64" where
  "preroll_samples ms = ucast ms * of_nat LE_LIVE_INPUT_RATE div 1000"

definition le_live_session_wake ::
  "'w le_live_session \<Rightarrow> u64 \<Rightarrow> u64 \<Rightarrow> int \<times> 'w le_live_session" where
  "le_live_session_wake s detection_sample now_ms =
     (if le_live_session_active s then (1, s)
      else
        (case lc_transport_ops (ls_config s) of
           None \<Rightarrow> (- 1, s)
         | Some ops \<Rightarrow>
             (case ls_ring s of
                None \<Rightarrow> (- 1, s\<lparr>ls_last_error := ''wake audio is unavailable''\<rparr>)
              | Some r \<Rightarrow>
                  if \<not> lr_primed r \<or> lr_count r = 0 \<or> detection_sample > le_live_ring_end r
                  then (- 1, s\<lparr>ls_last_error := ''wake audio is unavailable''\<rparr>)
                  else
                    (let s1 = s\<lparr>ls_delegation_cache := replicate LE_LIVE_DELEGATION_CACHE empty_record,
                               ls_delegation_next := 0, ls_transport := Some ops,
                               ls_next_send_sample := le_live_ring_start_for_wake r detection_sample
                                 (preroll_samples (lc_wake_preroll_ms (ls_config s))),
                               ls_opened_ms := now_ms, ls_last_model_speech_ms := now_ms,
                               ls_last_user_speech_ms := now_ms, ls_first_audio_at_ms := 0,
                               ls_audio_started := False, ls_barge_in_run := 0,
                               ls_speech_peak_rms := 0, ls_last_error := [],
                               ls_last_end := LE_LIVE_END_NONE,
                               ls_sessions_started := ls_sessions_started s + 1\<rparr>;
                         s2 = live_set_state s1 LE_LIVE_CONNECTING
                     in case tp_start ops of
                          None \<Rightarrow> (0, s2)
                        | Some f \<Rightarrow>
                            (let (rc, detail, w) = f (ls_world s2);
                                 s3 = s2\<lparr>ls_world := w, ls_last_error := detail\<rparr>
                             in if rc < 0 then
                                  (let s4 = (if ls_last_error s3 = []
                                             then s3\<lparr>ls_last_error := ''transport unavailable''\<rparr>
                                             else s3);
                                       s5 = live_set_state
                                         (s4\<lparr>ls_sessions_failed := ls_sessions_failed s4 + 1\<rparr>)
                                         LE_LIVE_CLOSING
                                   in (- 1, live_set_state
                                         (s5\<lparr>ls_last_end := LE_LIVE_END_CONNECT_FAILED\<rparr>)
                                         LE_LIVE_IDLE))
                                else (0, s3))))))"

definition live_audio_event ::
  "'w le_live_session \<Rightarrow> sample list \<Rightarrow> u32 \<Rightarrow> u64 \<Rightarrow> 'w le_live_session" where
  "live_audio_event s samples rate now_ms =
     (let (rc, s1) =
        (case op_output_audio (ls_ops s) of
           None \<Rightarrow> (0, s)
         | Some f \<Rightarrow> (let (rc, w) = f (ls_world s) samples rate in (rc, s\<lparr>ls_world := w\<rparr>)))
      in if rc < 0 then
           le_live_session_close (s1\<lparr>ls_last_error := ''audio output unavailable''\<rparr>)
             LE_LIVE_END_AUDIO_FAILED
         else
           (let s2 = (if \<not> ls_audio_started s1
                      then s1\<lparr>ls_audio_started := True, ls_first_audio_at_ms := now_ms,
                              ls_last_first_audio_ms := now_ms - ls_opened_ms s1\<rparr> else s1);
                s3 = s2\<lparr>ls_audio_output_ms := ls_audio_output_ms s2 +
                          of_nat (length samples) * 1000 div
                          (if rate \<noteq> 0 then ucast rate else of_nat LE_LIVE_INPUT_RATE)\<rparr>
            in live_set_state s3 LE_LIVE_SPEAKING))"

fun live_handle_event ::
  "'w le_live_session \<Rightarrow> le_live_event \<Rightarrow> u64 \<Rightarrow> 'w le_live_session" where
  "live_handle_event s LE_LIVE_EVENT_OPEN now_ms =
     live_set_state (s\<lparr>ls_last_connection_ms := now_ms - ls_opened_ms s\<rparr>) LE_LIVE_LISTENING"
| "live_handle_event s (LE_LIVE_EVENT_TRANSCRIPT speaker final text) now_ms =
     (let s1 = transcript_append s speaker final text in
      if final then
        (if speaker = LE_LIVE_SPEAKER_MODEL then s1\<lparr>ls_last_model_speech_ms := now_ms\<rparr>
         else s1\<lparr>ls_last_user_speech_ms := now_ms\<rparr>)
      else s1)"
| "live_handle_event s (LE_LIVE_EVENT_AUDIO samples rate) now_ms = live_audio_event s samples rate now_ms"
| "live_handle_event s LE_LIVE_EVENT_OUTPUT_DONE now_ms =
     live_set_state (s\<lparr>ls_last_model_speech_ms := now_ms\<rparr>) LE_LIVE_LISTENING"
| "live_handle_event s LE_LIVE_EVENT_INPUT_STARTED now_ms = s\<lparr>ls_last_user_speech_ms := now_ms\<rparr>"
| "live_handle_event s (LE_LIVE_EVENT_DELEGATION i tool arguments) now_ms =
     handle_delegation (live_set_state s LE_LIVE_WAITING_FOR_TOOL) i tool arguments"
| "live_handle_event s LE_LIVE_EVENT_CLOSED now_ms =
     le_live_session_close s LE_LIVE_END_TRANSPORT_CLOSED"
| "live_handle_event s (LE_LIVE_EVENT_ERROR detail) now_ms =
     le_live_session_close (s\<lparr>ls_last_error := copy_text LE_LIVE_TEXT_MAX detail\<rparr>)
       LE_LIVE_END_TRANSPORT_ERROR"
| "live_handle_event s LE_LIVE_EVENT_NONE now_ms = s"

text \<open>The wall-clock guards and the drain after the events of a pump.\<close>

definition pump_guards :: "'w le_live_session \<Rightarrow> u64 \<Rightarrow> int \<times> 'w le_live_session" where
  "pump_guards s now_ms =
     (if ls_state s = LE_LIVE_CONNECTING then
        (if now_ms - ls_opened_ms s \<ge> ucast (lc_connect_timeout_ms (ls_config s))
         then (0, le_live_session_close (s\<lparr>ls_last_error := ''GPT-Live unavailable''\<rparr>)
                    LE_LIVE_END_CONNECT_FAILED)
         else (0, s))
      else if now_ms - ls_opened_ms s \<ge> ucast (lc_max_session_ms (ls_config s))
        then (0, le_live_session_close s LE_LIVE_END_MAX_DURATION)
      else
        (let reference = (if ls_last_model_speech_ms s > ls_last_user_speech_ms s
                          then ls_last_model_speech_ms s else ls_last_user_speech_ms s)
         in if now_ms - reference \<ge> ucast (lc_conversation_timeout_ms (ls_config s))
            then (0, le_live_session_close s LE_LIVE_END_TIMEOUT)
            else (case flush_pending s of
                    (False, s1) \<Rightarrow> (- 1, upload_failed s1)
                  | (True, s1) \<Rightarrow> (0, s1))))"

definition le_live_session_pump ::
  "'w le_live_session \<Rightarrow> int \<Rightarrow> u64 \<Rightarrow> int \<times> 'w le_live_session" where
  "le_live_session_pump s timeout_ms now_ms =
     (if \<not> le_live_session_active s then (0, s)
      else
        (let (rc, event, s1) =
           (case Option.bind (ls_transport s) tp_poll of
              None \<Rightarrow> (0, LE_LIVE_EVENT_NONE, s)
            | Some f \<Rightarrow> (let (rc, event, w) = f (ls_world s) timeout_ms
                        in (rc, event, s\<lparr>ls_world := w\<rparr>)))
         in if rc < 0 then
              (- 1, le_live_session_close (s1\<lparr>ls_last_error := ''transport poll failed''\<rparr>)
                      LE_LIVE_END_TRANSPORT_ERROR)
            else if rc > 0 then
              (let s2 = live_handle_event s1 event now_ms in
               if \<not> le_live_session_active s2 then (0, s2) else pump_guards s2 now_ms)
            else pump_guards s1 now_ms))"

section \<open>What the operations leave alone\<close>

text \<open>
  The session is seen through four views: the books (how many sessions were started, completed and
  failed), the transcript, the delegation cache and the settings.
\<close>

definition books :: "'w le_live_session \<Rightarrow> u64 \<times> u64 \<times> u64" where
  "books s = (ls_sessions_started s, ls_sessions_completed s, ls_sessions_failed s)"

definition turns_view :: "'w le_live_session \<Rightarrow> le_live_turn list \<times> nat \<times> nat" where
  "turns_view s = (ls_turns s, ls_turn_count s, ls_turn_next s)"

definition cache_view :: "'w le_live_session \<Rightarrow> le_live_delegation_record list \<times> nat" where
  "cache_view s = (ls_delegation_cache s, ls_delegation_next s)"

definition settings :: "'w le_live_session \<Rightarrow> 'w le_live_session_ops \<times> 'w le_live_session_config" where
  "settings s = (ls_ops s, ls_config s)"

lemmas views = books_def turns_view_def cache_view_def settings_def

lemma set_state_frame [simp]:
  "ls_state (live_set_state s st) = st"
  "books (live_set_state s st) = books s"
  "turns_view (live_set_state s st) = turns_view s"
  "cache_view (live_set_state s st) = cache_view s"
  "settings (live_set_state s st) = settings s"
  "ls_ring (live_set_state s st) = ls_ring s"
  "ls_transport (live_set_state s st) = ls_transport s"
  by (simp_all add: live_set_state_def views)

lemma set_state_counts [simp]:
  "ls_delegation_count (live_set_state s st) = ls_delegation_count s"
  "ls_delegation_deduped (live_set_state s st) = ls_delegation_deduped s"
  "ls_opened_ms (live_set_state s st) = ls_opened_ms s"
  "ls_last_model_speech_ms (live_set_state s st) = ls_last_model_speech_ms s"
  "ls_last_user_speech_ms (live_set_state s st) = ls_last_user_speech_ms s"
  "ls_next_send_sample (live_set_state s st) = ls_next_send_sample s"
  "ls_ops (live_set_state s st) = ls_ops s"
  "ls_config (live_set_state s st) = ls_config s"
  "ls_barge_in_run (live_set_state s st) = ls_barge_in_run s"
  by (simp_all add: live_set_state_def)

text \<open>Closing in terms of the views.\<close>

lemma close_idle [simp]: "ls_state (le_live_session_close s r) = LE_LIVE_IDLE"
  by (simp add: le_live_session_close_def Let_def)

lemma close_frame [simp]:
  "turns_view (le_live_session_close s r) = turns_view s"
  "cache_view (le_live_session_close s r) = cache_view s"
  "settings (le_live_session_close s r) = settings s"
  "ls_ring (le_live_session_close s r) = ls_ring s"
  "ls_delegation_count (le_live_session_close s r) = ls_delegation_count s"
  "ls_delegation_deduped (le_live_session_close s r) = ls_delegation_deduped s"
  by (auto simp: le_live_session_close_def live_set_state_def Let_def views split: option.split)

lemma close_books:
  "books (le_live_session_close s r) =
    (if ls_state s = LE_LIVE_IDLE then books s
     else (ls_sessions_started s, ls_sessions_completed s + (if completes r then 1 else 0),
           ls_sessions_failed s + (if completes r then 0 else 1)))"
  by (auto simp: le_live_session_close_def live_set_state_def Let_def views split: option.split)

lemma flush_frame:
  "\<exists>ok w n m. flush_loop r s =
     (ok, s\<lparr>ls_world := w, ls_next_send_sample := n, ls_audio_input_ms := m\<rparr>)"
proof (induction r s rule: flush_loop.induct)
  case (1 r s)
  let ?c = "le_live_ring_read r (ls_next_send_sample s) LE_LIVE_AUDIO_SAMPLES"
  have same: "s = s\<lparr>ls_world := ls_world s, ls_next_send_sample := ls_next_send_sample s,
      ls_audio_input_ms := ls_audio_input_ms s\<rparr>" by simp
  show ?case
  proof (cases "ls_next_send_sample s < le_live_ring_end r \<and> ?c \<noteq> []")
    case False
    then have "flush_loop r s = (True, s)" by (subst flush_loop.simps) (auto simp: Let_def)
    then show ?thesis using same by metis
  next
    case True
    show ?thesis
    proof (cases "Option.bind (ls_transport s) tp_send_audio")
      case None
      then have "flush_loop r s = (False, s)" using True by (subst flush_loop.simps) (auto simp: Let_def)
      then show ?thesis using same by metis
    next
      case (Some f)
      obtain rc w where f: "f (ls_world s) ?c = (rc, w)" by fastforce
      show ?thesis
      proof (cases "rc < 0")
        case neg: True
        then have "flush_loop r s = (False, s\<lparr>ls_world := w\<rparr>)"
          using True Some f by (subst flush_loop.simps) (simp add: Let_def)
        moreover have "s\<lparr>ls_world := w\<rparr> = s\<lparr>ls_world := w, ls_next_send_sample := ls_next_send_sample s,
            ls_audio_input_ms := ls_audio_input_ms s\<rparr>" by simp
        ultimately show ?thesis by metis
      next
        case False
        let ?s = "s\<lparr>ls_world := w, ls_next_send_sample := ls_next_send_sample s + of_nat (length ?c),
          ls_audio_input_ms := ls_audio_input_ms s + of_nat (length ?c) * 1000 div of_nat LE_LIVE_INPUT_RATE\<rparr>"
        have "flush_loop r s = flush_loop r ?s"
          using True Some f False by (subst flush_loop.simps) (simp add: Let_def)
        moreover have "\<exists>ok w n m. flush_loop r ?s =
            (ok, ?s\<lparr>ls_world := w, ls_next_send_sample := n, ls_audio_input_ms := m\<rparr>)"
          using "1.IH" [of ?c f "(rc, w)" rc w "s\<lparr>ls_world := w\<rparr>"] True Some f False by simp
        ultimately show ?thesis by auto
      qed
    qed
  qed
qed

lemma flush_pending_cases:
  obtains "flush_pending s = (True, s)"
  | ok w n m where "flush_pending s =
      (ok, s\<lparr>ls_world := w, ls_next_send_sample := n, ls_audio_input_ms := m\<rparr>)"
    "ls_state s \<notin> {LE_LIVE_IDLE, LE_LIVE_CONNECTING, LE_LIVE_CLOSING}"
proof (cases "ls_ring s = None \<or> ls_state s \<in> {LE_LIVE_IDLE, LE_LIVE_CONNECTING, LE_LIVE_CLOSING}")
  case True
  then have "flush_pending s = (True, s)"
    by (auto simp: flush_pending_def le_live_session_active_def split: option.split)
  then show thesis by (rule that(1))
next
  case False
  then obtain r where r: "ls_ring s = Some r" by (cases "ls_ring s") simp_all
  obtain ok w n m where
    f: "flush_loop r s = (ok, s\<lparr>ls_world := w, ls_next_send_sample := n, ls_audio_input_ms := m\<rparr>)"
    using flush_frame [of r s] by blast
  have "flush_pending s = (ok, s\<lparr>ls_world := w, ls_next_send_sample := n, ls_audio_input_ms := m\<rparr>)"
    using False r f by (simp add: flush_pending_def le_live_session_active_def)
  then show thesis using False that(2) by blast
qed

section \<open>The books balance\<close>

definition balanced :: "'w le_live_session \<Rightarrow> bool" where
  "balanced s \<longleftrightarrow> ls_state s \<noteq> LE_LIVE_CLOSING \<and>
     ls_sessions_started s = ls_sessions_completed s + ls_sessions_failed s +
       (if ls_state s = LE_LIVE_IDLE then 0 else 1)"

lemma balanced_cong: "books s' = books s \<Longrightarrow> ls_state s' = ls_state s \<Longrightarrow> balanced s' = balanced s"
  by (simp add: balanced_def books_def)

lemma balanced_close: "balanced s \<Longrightarrow> balanced (le_live_session_close s r)"
  using close_books [of s r] by (auto simp: balanced_def books_def split: if_splits)

lemma balanced_set_state:
  "balanced s \<Longrightarrow> ls_state s \<noteq> LE_LIVE_IDLE \<Longrightarrow> st \<notin> {LE_LIVE_IDLE, LE_LIVE_CLOSING} \<Longrightarrow>
   balanced (live_set_state s st)"
  using set_state_frame(2) [of s st] by (auto simp: balanced_def books_def)

text \<open>Delivering an answer either leaves the state and the books or closes the session.\<close>

lemma complete_cases:
  obtains s' where "live_complete_delegation s i res = (True, s')" "books s' = books s"
    "ls_state s' = ls_state s" "turns_view s' = turns_view s" "cache_view s' = cache_view s"
    "ls_ring s' = ls_ring s" "ls_delegation_count s' = ls_delegation_count s"
    "ls_delegation_deduped s' = ls_delegation_deduped s"
  | s' where "live_complete_delegation s i res = (False, le_live_session_close s' LE_LIVE_END_TRANSPORT_ERROR)"
    "books s' = books s" "ls_state s' = ls_state s" "turns_view s' = turns_view s"
    "cache_view s' = cache_view s" "ls_ring s' = ls_ring s"
    "ls_delegation_count s' = ls_delegation_count s" "ls_delegation_deduped s' = ls_delegation_deduped s"
proof -
  define sent where "sent = (case Option.bind (ls_transport s) tp_complete_delegation of
      None \<Rightarrow> (- 1, s) | Some f \<Rightarrow> (let (rc, w) = f (ls_world s) i res in (rc, s\<lparr>ls_world := w\<rparr>)))"
  obtain w where w: "snd sent = s\<lparr>ls_world := w\<rparr>"
  proof (cases "Option.bind (ls_transport s) tp_complete_delegation")
    case None
    then show thesis using that [of "ls_world s"] by (simp add: sent_def)
  next
    case (Some f)
    then show thesis using that by (simp add: sent_def split_beta)
  qed
  show thesis
  proof (cases "fst sent = 0")
    case True
    then have "live_complete_delegation s i res = (True, s\<lparr>ls_world := w\<rparr>)"
      using w by (simp add: live_complete_delegation_def sent_def [symmetric] split_beta)
    then show thesis by (rule that(1)) (simp_all add: views)
  next
    case False
    define s2 where "s2 = (if ls_delegation_delivery_failures s < - 1
      then s\<lparr>ls_world := w, ls_delegation_delivery_failures := ls_delegation_delivery_failures s + 1\<rparr>
      else s\<lparr>ls_world := w\<rparr>)"
    have "live_complete_delegation s i res = (False, le_live_session_close
        (s2\<lparr>ls_last_error := ''delegation result delivery failed''\<rparr>) LE_LIVE_END_TRANSPORT_ERROR)"
      using False w by (simp add: live_complete_delegation_def sent_def [symmetric] split_beta s2_def Let_def)
    then show thesis by (rule that(2)) (simp_all add: views s2_def)
  qed
qed

lemma balanced_complete:
  assumes "balanced s"
  shows "balanced (snd (live_complete_delegation s i res))"
proof (cases rule: complete_cases [of s i res])
  case (1 s')
  then show ?thesis using balanced_cong [OF 1(2,3)] assms by simp
next
  case (2 s')
  then show ?thesis using balanced_cong [OF 2(2,3)] assms by (simp add: balanced_close)
qed

lemma dispatched_frame:
  assumes "dispatched s tool arguments = (ok, result, s')"
  shows "books s' = books s" "ls_state s' = ls_state s" "turns_view s' = turns_view s"
    "cache_view s' = cache_view s" "ls_ring s' = ls_ring s"
    "ls_delegation_count s' = ls_delegation_count s + 1"
    "ls_delegation_deduped s' = ls_delegation_deduped s"
  using assms by (auto simp: dispatched_def Let_def views split_beta split: option.splits if_splits)

lemma handle_delegation_new:
  assumes "delegation_lookup s i = None" and "dispatched s tool arguments = (ok, result, s')"
    and "live_complete_delegation (delegation_store s' i tool ok result) i result = (delivered, s5)"
  shows "handle_delegation s i tool arguments =
    (if \<not> delivered then s5
     else if contains_at end_session_mark result then le_live_session_close s5 LE_LIVE_END_STOPPED
     else live_set_state s5 LE_LIVE_SPEAKING)"
  using assms by (simp add: handle_delegation_def)

lemma store_frame [simp]:
  "books (delegation_store s i tool ok result) = books s"
  "ls_state (delegation_store s i tool ok result) = ls_state s"
  "turns_view (delegation_store s i tool ok result) = turns_view s"
  "ls_ring (delegation_store s i tool ok result) = ls_ring s"
  "ls_delegation_count (delegation_store s i tool ok result) = ls_delegation_count s"
  "ls_delegation_deduped (delegation_store s i tool ok result) = ls_delegation_deduped s"
  by (simp_all add: delegation_store_def views)

lemma balanced_delegation:
  assumes "balanced s" and "ls_state s \<noteq> LE_LIVE_IDLE"
  shows "balanced (handle_delegation s i tool arguments)"
proof (cases "delegation_lookup s i")
  case (Some r)
  have "balanced (s\<lparr>ls_delegation_deduped := n\<rparr>)" for n
    using assms(1) balanced_cong [of "s\<lparr>ls_delegation_deduped := n\<rparr>" s] by (simp add: books_def)
  then show ?thesis using Some by (simp add: handle_delegation_def balanced_complete)
next
  case None
  obtain ok result s' where d: "dispatched s tool arguments = (ok, result, s')" by (metis prod_cases3)
  obtain delivered s5 where
    c: "live_complete_delegation (delegation_store s' i tool ok result) i result = (delivered, s5)" by fastforce
  have b: "balanced (delegation_store s' i tool ok result)"
    using assms(1) balanced_cong [of "delegation_store s' i tool ok result" s] dispatched_frame [OF d] by simp
  have b5: "balanced s5" using balanced_complete [OF b, of i result] c by simp
  have "delivered \<Longrightarrow> ls_state s5 \<noteq> LE_LIVE_IDLE"
    using c assms(2) dispatched_frame(2) [OF d]
    by (cases rule: complete_cases [of "delegation_store s' i tool ok result" i result]) auto
  then show ?thesis
    using b5 by (auto simp: handle_delegation_new [OF None d c] intro: balanced_close balanced_set_state)
qed

lemma balanced_flush:
  assumes "balanced s" and "flush_pending s = (ok, s')"
  shows "balanced s' \<and> ls_state s' = ls_state s"
  using assms by (cases rule: flush_pending_cases [of s]) (auto simp: balanced_def)

lemma balanced_barge_in: "balanced s \<Longrightarrow> balanced (check_barge_in s samples now_ms)"
proof -
  assume b: "balanced s"
  have "books (check_barge_in s samples now_ms) = books s"
    by (auto simp: check_barge_in_def Let_def live_set_state_def views split: option.split)
  moreover have "ls_state (check_barge_in s samples now_ms) = ls_state s \<or>
      (ls_state s = LE_LIVE_SPEAKING \<and> ls_state (check_barge_in s samples now_ms) = LE_LIVE_LISTENING)"
    by (auto simp: check_barge_in_def Let_def live_set_state_def split: option.split)
  ultimately show ?thesis using b by (auto simp: balanced_def books_def)
qed

lemma observe_frame [simp]:
  "books (observe_input s xs) = books s" "ls_state (observe_input s xs) = ls_state s"
  "books (observe_peak s rms) = books s" "ls_state (observe_peak s rms) = ls_state s"
  by (simp_all add: observe_input_def observe_peak_def Let_def books_def)

lemma balanced_upload: "balanced s \<Longrightarrow> balanced (upload_failed s)"
  using balanced_cong [of "s\<lparr>ls_last_error := e\<rparr>" s for e]
  by (simp add: upload_failed_def balanced_close books_def)

lemma transcript_frame [simp]:
  "books (transcript_append s sp final text) = books s"
  "ls_state (transcript_append s sp final text) = ls_state s"
  "cache_view (transcript_append s sp final text) = cache_view s"
  by (simp_all add: transcript_append_def Let_def books_def cache_view_def)

lemma balanced_audio:
  assumes "balanced s" and "ls_state s \<noteq> LE_LIVE_IDLE"
  shows "balanced (live_audio_event s samples rate now_ms)"
proof -
  obtain rc w where out: "(case op_output_audio (ls_ops s) of None \<Rightarrow> (0, s)
      | Some f \<Rightarrow> (let (rc, w) = f (ls_world s) samples rate in (rc, s\<lparr>ls_world := w\<rparr>))) =
      (rc :: int, s\<lparr>ls_world := w\<rparr>)"
  proof (cases "op_output_audio (ls_ops s)")
    case None
    then show thesis using that [of 0 "ls_world s"] by simp
  next
    case (Some f)
    then show thesis using that by (simp add: split_beta)
  qed
  define s2 where "s2 = (if \<not> ls_audio_started s
      then s\<lparr>ls_world := w, ls_audio_started := True, ls_first_audio_at_ms := now_ms,
             ls_last_first_audio_ms := now_ms - ls_opened_ms s\<rparr> else s\<lparr>ls_world := w\<rparr>)"
  have "live_audio_event s samples rate now_ms =
    (if rc < 0 then le_live_session_close (s\<lparr>ls_world := w, ls_last_error := ''audio output unavailable''\<rparr>)
        LE_LIVE_END_AUDIO_FAILED
     else live_set_state (s2\<lparr>ls_audio_output_ms := ls_audio_output_ms s2 +
        of_nat (length samples) * 1000 div
        (if rate \<noteq> 0 then ucast rate else of_nat LE_LIVE_INPUT_RATE)\<rparr>) LE_LIVE_SPEAKING)"
    unfolding live_audio_event_def out by (simp add: s2_def)
  moreover have "balanced (s\<lparr>ls_world := w, ls_last_error := e\<rparr>)" for e
    using assms(1) by (simp add: balanced_def)
  moreover have "balanced (s2\<lparr>ls_audio_output_ms := n\<rparr>) \<and> ls_state (s2\<lparr>ls_audio_output_ms := n\<rparr>) \<noteq> LE_LIVE_IDLE" for n
    using assms by (simp add: balanced_def s2_def)
  ultimately show ?thesis by (simp add: balanced_close balanced_set_state)
qed

lemma balanced_event:
  assumes "balanced s" and "ls_state s \<noteq> LE_LIVE_IDLE"
  shows "balanced (live_handle_event s e now_ms)"
proof (cases e)
  case LE_LIVE_EVENT_OPEN
  have "balanced (s\<lparr>ls_last_connection_ms := n\<rparr>)" for n using assms(1) by (simp add: balanced_def)
  then show ?thesis using assms(2) LE_LIVE_EVENT_OPEN by (simp add: balanced_set_state)
next
  case (LE_LIVE_EVENT_TRANSCRIPT sp fin body)
  then show ?thesis using assms(1) by (simp add: balanced_def transcript_append_def Let_def)
next
  case (LE_LIVE_EVENT_AUDIO samples rate)
  then show ?thesis using balanced_audio [OF assms] by simp
next
  case (LE_LIVE_EVENT_DELEGATION i tool arguments)
  then show ?thesis using assms by (simp add: balanced_delegation balanced_set_state)
next
  case LE_LIVE_EVENT_OUTPUT_DONE
  have "balanced (s\<lparr>ls_last_model_speech_ms := n\<rparr>)" for n using assms(1) by (simp add: balanced_def)
  then show ?thesis using assms(2) LE_LIVE_EVENT_OUTPUT_DONE by (simp add: balanced_set_state)
next
  case (LE_LIVE_EVENT_ERROR detail)
  have "balanced (s\<lparr>ls_last_error := n\<rparr>)" for n using assms(1) by (simp add: balanced_def)
  then show ?thesis using LE_LIVE_EVENT_ERROR by (simp add: balanced_close)
next
  case LE_LIVE_EVENT_INPUT_STARTED
  then show ?thesis using assms(1) by (simp add: balanced_def)
qed (use assms in \<open>simp_all add: balanced_close\<close>)

lemma balanced_guards:
  assumes "balanced s"
  shows "balanced (snd (pump_guards s now_ms))"
proof -
  obtain ok s1 where f: "flush_pending s = (ok, s1)" by fastforce
  have "balanced s1" using balanced_flush [OF assms f] by simp
  moreover have "balanced (s\<lparr>ls_last_error := e\<rparr>)" for e using assms by (simp add: balanced_def)
  ultimately show ?thesis
    using assms by (simp add: pump_guards_def Let_def f balanced_close balanced_upload split: bool.split)
qed

lemma balanced_pump: "balanced s \<Longrightarrow> balanced (snd (le_live_session_pump s timeout now_ms))"
proof (cases "ls_state s = LE_LIVE_IDLE")
  case False
  assume b: "balanced s"
  obtain rc event w where poll: "(case Option.bind (ls_transport s) tp_poll of
      None \<Rightarrow> (0, LE_LIVE_EVENT_NONE, s)
    | Some f \<Rightarrow> (let (rc, event, w) = f (ls_world s) timeout in (rc, event, s\<lparr>ls_world := w\<rparr>))) =
      (rc :: int, event, s\<lparr>ls_world := w\<rparr>)"
  proof (cases "Option.bind (ls_transport s) tp_poll")
    case None
    then show thesis using that [of 0 LE_LIVE_EVENT_NONE "ls_world s"] by simp
  next
    case (Some f)
    then show thesis using that by (simp add: split_beta)
  qed
  have bw: "balanced (s\<lparr>ls_world := w\<rparr>)" "balanced (s\<lparr>ls_world := w, ls_last_error := e\<rparr>)" for e
    using b by (simp_all add: balanced_def)
  moreover have "balanced (live_handle_event (s\<lparr>ls_world := w\<rparr>) event now_ms)"
    using bw(1) False by (intro balanced_event) simp_all
  ultimately show ?thesis
    using False
    by (simp add: le_live_session_pump_def poll le_live_session_active_def balanced_close balanced_guards Let_def)
qed (simp add: le_live_session_pump_def le_live_session_active_def)

lemma balanced_accepted:
  assumes "balanced s"
  shows "balanced (snd (feed_accepted s samples now_ms))"
proof -
  define s2 where "s2 = (if le_live_session_active s then check_barge_in s samples now_ms else s)"
  define s3 where "s3 = (if ls_state s \<noteq> LE_LIVE_SPEAKING then observe_input s2 samples
    else observe_peak s2 (frame_rms samples))"
  obtain ok s4 where f: "flush_pending s3 = (ok, s4)" by fastforce
  have "balanced s2" using assms by (simp add: s2_def balanced_barge_in)
  then have b3: "balanced s3" using balanced_cong [of s3 s2] by (simp add: s3_def)
  then have "balanced s4" using balanced_flush [OF b3 f] by simp
  then show ?thesis
    using b3 unfolding feed_accepted_def Let_def s2_def [symmetric] s3_def [symmetric]
    by (simp add: f balanced_upload split: bool.split)
qed

lemma balanced_feed:
  assumes "balanced s"
  shows "balanced (snd (le_live_session_feed s n samples now_ms))"
proof -
  have "balanced (s\<lparr>ls_ring := r\<rparr>)" for r using assms by (simp add: balanced_def)
  then show ?thesis
    using assms by (auto simp: le_live_session_feed_def balanced_accepted split: option.split)
qed

lemma balanced_wake:
  assumes "balanced s"
  shows "balanced (snd (le_live_session_wake s detection now_ms))"
proof (cases "ls_state s = LE_LIVE_IDLE")
  case True
  then have "ls_sessions_started s = ls_sessions_completed s + ls_sessions_failed s"
    using assms by (simp add: balanced_def)
  then show ?thesis
    using True
    by (auto simp: le_live_session_wake_def le_live_session_active_def balanced_def live_set_state_def
        Let_def split_beta split: option.split)
qed (use assms in \<open>simp add: le_live_session_wake_def le_live_session_active_def\<close>)

datatype live_op =
    Wake u64 u64
  | Feed u64 "sample list" u64
  | Pump int u64
  | Close le_live_end_reason

fun live_apply :: "'w le_live_session \<Rightarrow> live_op \<Rightarrow> 'w le_live_session" where
  "live_apply s (Wake d t) = snd (le_live_session_wake s d t)"
| "live_apply s (Feed f xs t) = snd (le_live_session_feed s f xs t)"
| "live_apply s (Pump timeout t) = snd (le_live_session_pump s timeout t)"
| "live_apply s (Close r) = le_live_session_close s r"

interpretation live: machine
  "\<lambda>s. \<exists>ring config ops w. s = le_live_session_init ring config ops w" live_apply balanced
proof unfold_locales
  show "balanced s" if "\<exists>ring config ops w. s = le_live_session_init ring config ops w"
    for s :: "'w le_live_session"
    using that by (auto simp: le_live_session_init_def balanced_def)
  show "balanced (live_apply s op)" if "balanced s" for s :: "'w le_live_session" and op
    using that
    by (cases op) (simp_all only: live_apply.simps balanced_wake balanced_feed balanced_pump balanced_close)
qed

section \<open>The transcript as a list\<close>

definition turns_ok :: "'w le_live_session \<Rightarrow> bool" where
  "turns_ok s \<longleftrightarrow> ring_ok_at LE_LIVE_TRANSCRIPT_TURNS (ls_turns s) (ls_turn_next s) (ls_turn_count s)"

definition live_turns :: "'w le_live_session \<Rightarrow> le_live_turn list" where
  "live_turns s = ring_list (ls_turns s) (ls_turn_next s) (ls_turn_count s)"

lemma live_turns_empty: "turns_ok s \<Longrightarrow> live_turns s = [] \<longleftrightarrow> ls_turn_count s = 0"
  by (auto simp: turns_ok_def live_turns_def ring_ok_at_def ring_list_def)

lemma transcript_refines:
  assumes "turns_ok s"
  shows "turns_ok (transcript_append s sp fin body) \<and>
    live_turns (transcript_append s sp fin body) =
    (let t = \<lparr>lt_speaker = sp, lt_final = fin, lt_text = copy_text LE_LIVE_TEXT_MAX body\<rparr>
     in if live_turns s \<noteq> [] \<and> lt_speaker (last (live_turns s)) = sp \<and> \<not> lt_final (last (live_turns s))
        then butlast (live_turns s) @ [t]
        else lastn LE_LIVE_TRANSCRIPT_TURNS (live_turns s @ [t]))"
proof -
  note ok = assms [unfolded turns_ok_def]
  let ?t = "\<lparr>lt_speaker = sp, lt_final = fin, lt_text = copy_text LE_LIVE_TEXT_MAX body\<rparr>"
  let ?i = "last_turn_index s"
  show ?thesis
  proof (cases "ls_turn_count s \<noteq> 0 \<and> lt_speaker (ls_turns s ! ?i) = sp \<and> \<not> lt_final (ls_turns s ! ?i)")
    case True
    then have same: "(ls_turns s ! ?i)\<lparr>lt_text := copy_text LE_LIVE_TEXT_MAX body, lt_final := fin\<rparr> = ?t" by simp
    have newest: "ring_list ((ls_turns s)[?i := ?t]) (ls_turn_next s) (ls_turn_count s) =
        butlast (live_turns s) @ [?t] \<and> last (live_turns s) = ls_turns s ! ?i \<and> live_turns s \<noteq> []"
      using ring_newest [OF ok, of ?t] True by (simp add: live_turns_def last_turn_index_def)
    have app: "transcript_append s sp fin body = s\<lparr>ls_turns := (ls_turns s)[?i := ?t]\<rparr>"
      unfolding transcript_append_def Let_def same by (rule if_P [OF True])
    have ring': "live_turns (s\<lparr>ls_turns := (ls_turns s)[?i := ?t]\<rparr>) = butlast (live_turns s) @ [?t]"
      using newest by (simp add: live_turns_def)
    have "turns_ok (s\<lparr>ls_turns := (ls_turns s)[?i := ?t]\<rparr>)"
      using ok by (simp add: turns_ok_def ring_ok_at_def)
    then show ?thesis using app ring' newest True by (simp add: Let_def)
  next
    case False
    have "live_turns s \<noteq> [] \<Longrightarrow> last (live_turns s) = ls_turns s ! ?i \<and> ls_turn_count s \<noteq> 0"
      using ring_newest [OF ok] live_turns_empty [OF assms] by (simp add: live_turns_def last_turn_index_def)
    then have no: "\<not> (live_turns s \<noteq> [] \<and> lt_speaker (last (live_turns s)) = sp \<and> \<not> lt_final (last (live_turns s)))"
      using False by (cases "live_turns s = []") auto
    have "transcript_append s sp fin body =
      s\<lparr>ls_turns := (ls_turns s)[ls_turn_next s := ?t],
        ls_turn_next := (ls_turn_next s + 1) mod LE_LIVE_TRANSCRIPT_TURNS,
        ls_turn_count := (if ls_turn_count s < LE_LIVE_TRANSCRIPT_TURNS then ls_turn_count s + 1
                          else ls_turn_count s)\<rparr>"
      unfolding transcript_append_def Let_def by (rule if_not_P [OF False])
    then have "turns_ok (transcript_append s sp fin body)" and
      "live_turns (transcript_append s sp fin body) = lastn LE_LIVE_TRANSCRIPT_TURNS (live_turns s @ [?t])"
      using ring_store [OF ok, of ?t] by (simp_all add: turns_ok_def live_turns_def)
    then show ?thesis unfolding Let_def if_not_P [OF no] by blast
  qed
qed

section \<open>The delegation cache\<close>

text \<open>\<open>answered s ids\<close>: the cache holds exactly the answers of \<open>ids\<close>, in the order they were given.\<close>

definition answered :: "'w le_live_session \<Rightarrow> string list \<Rightarrow> bool" where
  "answered s ids \<longleftrightarrow> length (ls_delegation_cache s) = LE_LIVE_DELEGATION_CACHE \<and>
     length ids \<le> LE_LIVE_DELEGATION_CACHE \<and> distinct ids \<and>
     ls_delegation_next s = length ids mod LE_LIVE_DELEGATION_CACHE \<and>
     (\<forall>k<LE_LIVE_DELEGATION_CACHE. ld_used (ls_delegation_cache s ! k) \<longleftrightarrow> k < length ids) \<and>
     (\<forall>k<length ids. ld_id (ls_delegation_cache s ! k) = ids ! k)"

lemma answered_cong: "cache_view s' = cache_view s \<Longrightarrow> answered s' ids = answered s ids"
  by (simp add: answered_def cache_view_def)

lemma answered_lookup:
  assumes "answered s ids" and "i \<noteq> []"
  shows "delegation_lookup s i \<noteq> None \<longleftrightarrow> i \<in> set ids"
proof -
  have "delegation_lookup s i \<noteq> None \<longleftrightarrow>
      (\<exists>k<LE_LIVE_DELEGATION_CACHE. ld_used (ls_delegation_cache s ! k) \<and> ld_id (ls_delegation_cache s ! k) = i)"
    using assms by (auto simp: delegation_lookup_def find_None_iff in_set_conv_nth answered_def)
  also have "\<dots> \<longleftrightarrow> (\<exists>k<length ids. ids ! k = i)"
    using assms(1) unfolding answered_def by (metis order_less_le_trans)
  finally show ?thesis by (auto simp: in_set_conv_nth)
qed

lemma answered_store:
  assumes "answered s ids" and "i \<notin> set ids" and "length ids < LE_LIVE_DELEGATION_CACHE"
    and "length i < LE_LIVE_DELEGATION_ID_MAX"
  shows "answered (delegation_store s i tool ok result) (ids @ [i])"
proof -
  have "copy_text LE_LIVE_DELEGATION_ID_MAX i = i" using assms(4) by (simp add: copy_text_def)
  then show ?thesis
    using assms(1-3)
    by (auto simp: answered_def delegation_store_def nth_list_update nth_append mod_Suc less_Suc_eq)
qed

lemma answered_complete: "answered (snd (live_complete_delegation s i res)) ids = answered s ids"
proof (cases rule: complete_cases [of s i res])
  case (1 s')
  then show ?thesis using answered_cong [OF 1(5)] by simp
next
  case (2 s')
  then show ?thesis
    using answered_cong [of "le_live_session_close s' LE_LIVE_END_TRANSPORT_ERROR" s] by simp
qed

lemma complete_count:
  "ls_delegation_count (snd (live_complete_delegation s i res)) = ls_delegation_count s \<and>
   ls_delegation_deduped (snd (live_complete_delegation s i res)) = ls_delegation_deduped s"
  by (cases rule: complete_cases [of s i res]) simp_all

lemma delegate_replay:
  assumes "answered s ids" and "i \<in> set ids" and "i \<noteq> []"
  shows "answered (handle_delegation s i tool arguments) ids \<and>
    ls_delegation_count (handle_delegation s i tool arguments) = ls_delegation_count s \<and>
    ls_delegation_deduped (handle_delegation s i tool arguments) = ls_delegation_deduped s + 1"
proof -
  obtain r where "delegation_lookup s i = Some r" using answered_lookup [OF assms(1,3)] assms(2) by auto
  moreover have "answered (s\<lparr>ls_delegation_deduped := n\<rparr>) ids" for n
    using assms(1) by (simp add: answered_def)
  ultimately show ?thesis by (simp add: handle_delegation_def answered_complete complete_count)
qed

lemma delegate_new:
  assumes "answered s ids" and "i \<notin> set ids" and "i \<noteq> []" and "length ids < LE_LIVE_DELEGATION_CACHE"
    and "length i < LE_LIVE_DELEGATION_ID_MAX"
  shows "answered (handle_delegation s i tool arguments) (ids @ [i]) \<and>
    ls_delegation_count (handle_delegation s i tool arguments) = ls_delegation_count s + 1 \<and>
    ls_delegation_deduped (handle_delegation s i tool arguments) = ls_delegation_deduped s"
proof -
  have none: "delegation_lookup s i = None" using answered_lookup [OF assms(1,3)] assms(2) by auto
  obtain ok result s' where d: "dispatched s tool arguments = (ok, result, s')" by (metis prod_cases3)
  obtain delivered s5 where
    c: "live_complete_delegation (delegation_store s' i tool ok result) i result = (delivered, s5)" by fastforce
  note frame = dispatched_frame [OF d]
  have "answered s' ids" using assms(1) answered_cong [OF frame(4)] by simp
  then have "answered s5 (ids @ [i])"
    using answered_store [OF _ assms(2,4,5)] answered_complete [of _ i result] c by (metis snd_conv)
  moreover have "ls_delegation_count s5 = ls_delegation_count s + 1 \<and>
      ls_delegation_deduped s5 = ls_delegation_deduped s"
    using complete_count [of "delegation_store s' i tool ok result" i result] c frame by simp
  moreover have "answered (le_live_session_close s5 r) ids' = answered s5 ids'"
      "answered (live_set_state s5 st) ids' = answered s5 ids'" for r st ids'
    by (rule answered_cong, simp)+
  ultimately show ?thesis by (simp add: handle_delegation_new [OF none d c])
qed

fun delegate_all :: "'w le_live_session \<Rightarrow> (string \<times> string \<times> string) list \<Rightarrow> 'w le_live_session" where
  "delegate_all s [] = s"
| "delegate_all s ((i, tool, arguments) # es) = delegate_all (handle_delegation s i tool arguments) es"

lemma delegate_all_once:
  assumes "answered s ids" and "set ids \<subseteq> D" and "finite D" and "card D \<le> LE_LIVE_DELEGATION_CACHE"
    and "\<forall>(i, t, a)\<in>set es. i \<in> D \<and> i \<noteq> [] \<and> length i < LE_LIVE_DELEGATION_ID_MAX"
  shows "ls_delegation_count (delegate_all s es) =
      ls_delegation_count s + of_nat (card (fst ` set es - set ids)) \<and>
    ls_delegation_deduped (delegate_all s es) =
      ls_delegation_deduped s + of_nat (length es - card (fst ` set es - set ids))"
  using assms
proof (induction es arbitrary: s ids)
  case (Cons e es)
  obtain i t a where e: "e = (i, t, a)" by (cases e)
  have i: "i \<in> D" "i \<noteq> []" "length i < LE_LIVE_DELEGATION_ID_MAX" using Cons.prems(5) e by auto
  have rest: "\<forall>(i, t, a)\<in>set es. i \<in> D \<and> i \<noteq> [] \<and> length i < LE_LIVE_DELEGATION_ID_MAX"
    using Cons.prems(5) by simp
  have small: "card (fst ` set es - X) \<le> length es" for X
    by (metis (no_types, lifting) Diff_subset card_image_le card_length card_mono finite_imageI
        finite_set le_trans)
  show ?case
  proof (cases "i \<in> set ids")
    case True
    note r = delegate_replay [OF Cons.prems(1) True i(2), of t a]
    have "fst ` set (e # es) - set ids = fst ` set es - set ids" using True e by auto
    then show ?thesis
      using Cons.IH [OF _ Cons.prems(2-4) rest] r small [of "set ids"] e
      by (simp add: Suc_diff_le)
  next
    case False
    have "set (ids @ [i]) \<subseteq> D" using Cons.prems(2) i by simp
    moreover have "distinct (ids @ [i])" using Cons.prems(1) False by (simp add: answered_def)
    ultimately have "length ids < LE_LIVE_DELEGATION_CACHE"
      using Cons.prems(3,4) by (metis card_mono distinct_card le_trans length_append_singleton Suc_le_eq)
    note n = delegate_new [OF Cons.prems(1) False i(2) this i(3), of t a]
    have "fst ` set (e # es) - set ids = insert i (fst ` set es - set (ids @ [i]))" using False e by auto
    then have "card (fst ` set (e # es) - set ids) = Suc (card (fst ` set es - set (ids @ [i])))" by simp
    then show ?thesis
      using Cons.IH [OF conjunct1 [OF n] \<open>set (ids @ [i]) \<subseteq> D\<close> Cons.prems(3,4) rest] n e by simp
  qed
qed simp

section \<open>The upload\<close>

text \<open>
  While every chunk is accepted the drain loop sends the window from the next sample on, in order,
  in chunks of at most the transport's size.
\<close>

definition sent_all :: "('w \<Rightarrow> sample list \<Rightarrow> int \<times> 'w) \<Rightarrow> sample list list \<Rightarrow> 'w \<Rightarrow> 'w" where
  "sent_all send chunks w = fold (\<lambda>c w. snd (send w c)) chunks w"

lemma flush_sends_window:
  assumes "ring_ok r" and "ring_first r \<le> unat (ls_next_send_sample s)"
    and "ls_next_send_sample s \<le> le_live_ring_end r"
    and "Option.bind (ls_transport s) tp_send_audio = Some send" and "\<And>w c. 0 \<le> fst (send w c)"
  shows "\<exists>chunks s'. flush_loop r s = (True, s') \<and>
    concat chunks = drop (unat (ls_next_send_sample s) - ring_first r) (ring_window r) \<and>
    (\<forall>c\<in>set chunks. c \<noteq> [] \<and> length c \<le> LE_LIVE_AUDIO_SAMPLES) \<and>
    ls_world s' = sent_all send chunks (ls_world s) \<and> ls_next_send_sample s' = le_live_ring_end r"
  using assms(2-4)
proof (induction "unat (le_live_ring_end r) - unat (ls_next_send_sample s)" arbitrary: s rule: less_induct)
  case less
  let ?n = "ls_next_send_sample s"
  let ?c = "le_live_ring_read r ?n LE_LIVE_AUDIO_SAMPLES"
  show ?case
  proof (cases "?n < le_live_ring_end r")
    case False
    then have n: "?n = le_live_ring_end r" using less.prems(2) by simp
    have "flush_loop r s = (True, s)" using False by (subst flush_loop.simps) simp
    moreover have "drop (unat ?n - ring_first r) (ring_window r) = []"
      using lr.last_eq [OF assms(1)] n by (cases "ring_window r = []") simp_all
    ultimately show ?thesis using n by (intro exI [of _ "[]"] exI [of _ s]) (simp add: sent_all_def)
  next
    case True
    have slice: "?c = take LE_LIVE_AUDIO_SAMPLES (drop (unat ?n - ring_first r) (ring_window r))"
      using assms(1) less.prems(1) True by (rule lr.read_slice)
    have c: "?c \<noteq> []" using assms(1) less.prems(1) True by (rule lr.read_progress) (simp add: live_sizes)
    have len: "length ?c \<le> unat (le_live_ring_end r) - unat ?n" using True by (rule read_bounded)
    obtain rc w where f: "send (ls_world s) ?c = (rc, w)" by fastforce
    have rc: "0 \<le> rc" using assms(5) [of "ls_world s" ?c] f by simp
    define s1 where "s1 = s\<lparr>ls_world := w, ls_next_send_sample := ?n + of_nat (length ?c),
      ls_audio_input_ms := ls_audio_input_ms s + of_nat (length ?c) * 1000 div of_nat LE_LIVE_INPUT_RATE\<rparr>"
    have step: "flush_loop r s = flush_loop r s1"
      using True c rc less.prems(3) f by (subst flush_loop.simps) (simp add: Let_def s1_def)
    have n1: "unat (ls_next_send_sample s1) = unat ?n + length ?c"
      using unat_advance [OF True len] by (simp add: s1_def)
    have lt: "unat ?n < unat (le_live_ring_end r)" using True by (simp add: word_less_nat_alt)
    have "unat (le_live_ring_end r) - unat (ls_next_send_sample s1) < unat (le_live_ring_end r) - unat ?n"
      using c lt n1 by (simp add: diff_less_mono2)
    moreover have "ring_first r \<le> unat (ls_next_send_sample s1)" using less.prems(1) n1 by simp
    moreover have "ls_next_send_sample s1 \<le> le_live_ring_end r"
      using n1 len lt by (simp add: word_le_nat_alt)
    moreover have "Option.bind (ls_transport s1) tp_send_audio = Some send"
      using less.prems(3) by (simp add: s1_def)
    ultimately obtain chunks s' where ih: "flush_loop r s1 = (True, s')"
        "concat chunks = drop (unat (ls_next_send_sample s1) - ring_first r) (ring_window r)"
        "\<forall>c\<in>set chunks. c \<noteq> [] \<and> length c \<le> LE_LIVE_AUDIO_SAMPLES"
        "ls_world s' = sent_all send chunks (ls_world s1)" "ls_next_send_sample s' = le_live_ring_end r"
      using less.hyps by blast
    have "unat (ls_next_send_sample s1) - ring_first r = (unat ?n - ring_first r) + length ?c"
      using n1 less.prems(1) by simp
    then have "drop (unat (ls_next_send_sample s1) - ring_first r) (ring_window r) =
        drop (length ?c) (drop (unat ?n - ring_first r) (ring_window r))"
      by (simp add: add.commute)
    then have rest: "concat chunks = drop (length ?c) (drop (unat ?n - ring_first r) (ring_window r))"
      using ih(2) by simp
    have "take (length ?c) (drop (unat ?n - ring_first r) (ring_window r)) = ?c"
      unfolding slice by (simp add: min_def)
    then have "?c @ concat chunks = drop (unat ?n - ring_first r) (ring_window r)"
      unfolding rest by (metis append_take_drop_id)
    moreover have "length ?c \<le> LE_LIVE_AUDIO_SAMPLES" using slice by simp
    moreover have "ls_world s' = sent_all send (?c # chunks) (ls_world s)"
      using ih(4) f by (simp add: sent_all_def s1_def)
    ultimately show ?thesis
      using step ih c by (intro exI [of _ "?c # chunks"] exI [of _ s']) simp
  qed
qed

text \<open>A session whose next sample has left the ring sends nothing.\<close>

lemma flush_behind:
  assumes "unat (ls_next_send_sample s) < ring_first r"
  shows "flush_loop r s = (True, s)"
  using ring_read_outside [of "ls_next_send_sample s" r] assms
  by (subst flush_loop.simps) (simp add: Let_def)

lemma ring_append_first:
  assumes "ring_ok r" and "lr_count r \<noteq> 0" and "xs \<noteq> []" and "length xs \<le> LE_LIVE_RING_CAPACITY"
    and "ring_next r + length xs < 2 ^ 64"
  shows "\<exists>r'. le_live_ring_append r (le_live_ring_end r) xs = Some r' \<and> ring_ok r' \<and> lr_count r' \<noteq> 0 \<and>
    ring_next r' = ring_next r + length xs \<and> ring_first r \<le> ring_first r'"
proof -
  have primed: "lr_primed r" using assms(1,2) by (simp add: ring_ok_def)
  have continues: "ring_continues r (le_live_ring_end r)"
    using assms(2) primed by (simp add: ring_continues_def le_live_ring_end_def)
  let ?r = "ring_push_all r xs"
  have app: "le_live_ring_append r (le_live_ring_end r) xs = Some ?r"
    using ring_append_eq [OF assms(3,4)] continues by simp
  have w: "ring_window ?r = lastn LE_LIVE_RING_CAPACITY (ring_window r @ xs)"
      "ring_next ?r = ring_next r + length xs" "ring_ok ?r"
    using ring_push_all_window [OF assms(1) primed assms(5)] by simp_all
  have "lr_count ?r = min LE_LIVE_RING_CAPACITY (lr_count r + length xs)"
    using w(1) by (metis length_append length_lastn length_ring_window)
  then have "lr_count ?r \<noteq> 0" and "lr_count ?r \<le> lr_count r + length xs"
    using assms(3) capacity_pos by (auto simp: min_def)
  then show ?thesis using app w by (auto simp: ring_next_def)
qed

lemma barge_in_not_speaking:
  "ls_state s \<noteq> LE_LIVE_SPEAKING \<Longrightarrow> check_barge_in s xs t = s\<lparr>ls_barge_in_run := 0\<rparr>"
  by (simp add: check_barge_in_def Let_def)

lemma observe_silent [simp]:
  "ls_world (observe_input s xs) = ls_world s" "ls_ring (observe_input s xs) = ls_ring s"
  "ls_next_send_sample (observe_input s xs) = ls_next_send_sample s"
  by (simp_all add: observe_input_def observe_peak_def Let_def)

lemma feed_silent:
  assumes "ring_ok r" and "lr_count r \<noteq> 0" and "ls_ring s = Some r" and "xs \<noteq> []"
    and "length xs \<le> LE_LIVE_RING_CAPACITY" and "ring_next r + length xs < 2 ^ 64"
    and "ls_state s = LE_LIVE_CONNECTING \<or>
      (ls_state s = LE_LIVE_LISTENING \<and> unat (ls_next_send_sample s) < ring_first r)"
  shows "\<exists>r' s'. le_live_session_feed s (le_live_ring_end r) xs t = (0, s') \<and> ls_ring s' = Some r' \<and>
    ring_ok r' \<and> lr_count r' \<noteq> 0 \<and> ring_next r' = ring_next r + length xs \<and>
    ring_first r \<le> ring_first r' \<and> ls_world s' = ls_world s \<and> ls_state s' = ls_state s \<and>
    ls_next_send_sample s' = ls_next_send_sample s"
proof -
  obtain r' where r': "le_live_ring_append r (le_live_ring_end r) xs = Some r'" "ring_ok r'"
      "lr_count r' \<noteq> 0" "ring_next r' = ring_next r + length xs" "ring_first r \<le> ring_first r'"
    using ring_append_first [OF assms(1,2,4-6)] by blast
  define s1 where "s1 = s\<lparr>ls_ring := Some r'\<rparr>"
  define s3 where "s3 = observe_input (s1\<lparr>ls_barge_in_run := 0\<rparr>) xs"
  have s3: "ls_state s3 = ls_state s" "ls_world s3 = ls_world s" "ls_ring s3 = Some r'"
      "ls_next_send_sample s3 = ls_next_send_sample s"
    by (simp_all add: s3_def s1_def)
  have state: "ls_state s \<noteq> LE_LIVE_SPEAKING" "ls_state s \<noteq> LE_LIVE_IDLE" using assms(7) by auto
  have "flush_pending s3 = (True, s3)"
  proof (cases "ls_state s = LE_LIVE_CONNECTING")
    case True
    then show ?thesis using s3 by (simp add: flush_pending_def le_live_session_active_def)
  next
    case False
    then have "unat (ls_next_send_sample s3) < ring_first r'" using assms(7) r'(5) s3 by simp
    then have "flush_loop r' s3 = (True, s3)" by (rule flush_behind)
    then show ?thesis
      using s3 False assms(7) by (simp add: flush_pending_def le_live_session_active_def)
  qed
  moreover have "check_barge_in s1 xs t = s1\<lparr>ls_barge_in_run := 0\<rparr>"
    using state by (intro barge_in_not_speaking) (simp add: s1_def)
  ultimately have "feed_accepted s1 xs t = (0, s3)"
    using state s3(1) by (simp add: feed_accepted_def Let_def s1_def s3_def le_live_session_active_def)
  then have "le_live_session_feed s (le_live_ring_end r) xs t = (0, s3)"
    using assms(3,4) r'(1) by (simp add: le_live_session_feed_def s1_def)
  then show ?thesis using r' s3 by blast
qed

text \<open>Frames that continue the ring, one after the other.\<close>

fun feed_frames :: "'w le_live_session \<Rightarrow> (sample list \<times> u64) list \<Rightarrow> 'w le_live_session" where
  "feed_frames s [] = s"
| "feed_frames s ((xs, t) # fs) =
     feed_frames (snd (le_live_session_feed s
       (case ls_ring s of Some r \<Rightarrow> le_live_ring_end r | None \<Rightarrow> 0) xs t)) fs"

lemma feed_frames_silent:
  assumes "ring_ok r" and "lr_count r \<noteq> 0" and "ls_ring s = Some r"
    and "\<forall>(xs, t)\<in>set fs. xs \<noteq> [] \<and> length xs \<le> LE_LIVE_RING_CAPACITY"
    and "ring_next r + length (concat (map fst fs)) < 2 ^ 64"
    and "ls_state s = LE_LIVE_CONNECTING \<or>
      (ls_state s = LE_LIVE_LISTENING \<and> unat (ls_next_send_sample s) < ring_first r)"
  shows "\<exists>r'. ls_ring (feed_frames s fs) = Some r' \<and> ring_ok r' \<and> lr_count r' \<noteq> 0 \<and>
    ring_next r' = ring_next r + length (concat (map fst fs)) \<and> ring_first r \<le> ring_first r' \<and>
    ls_world (feed_frames s fs) = ls_world s \<and> ls_state (feed_frames s fs) = ls_state s \<and>
    ls_next_send_sample (feed_frames s fs) = ls_next_send_sample s"
  using assms
proof (induction fs arbitrary: s r)
  case (Cons p fs)
  obtain xs t where p: "p = (xs, t)" by (cases p)
  obtain r1 s1 where s1: "le_live_session_feed s (le_live_ring_end r) xs t = (0, s1)" "ls_ring s1 = Some r1"
      "ring_ok r1" "lr_count r1 \<noteq> 0" "ring_next r1 = ring_next r + length xs"
      "ring_first r \<le> ring_first r1" "ls_world s1 = ls_world s" "ls_state s1 = ls_state s"
      "ls_next_send_sample s1 = ls_next_send_sample s"
    using feed_silent [OF Cons.prems(1-3), of xs t] Cons.prems(4-6) p by auto
  have "\<exists>r'. ls_ring (feed_frames s1 fs) = Some r' \<and> ring_ok r' \<and> lr_count r' \<noteq> 0 \<and>
    ring_next r' = ring_next r1 + length (concat (map fst fs)) \<and> ring_first r1 \<le> ring_first r' \<and>
    ls_world (feed_frames s1 fs) = ls_world s1 \<and> ls_state (feed_frames s1 fs) = ls_state s1 \<and>
    ls_next_send_sample (feed_frames s1 fs) = ls_next_send_sample s1"
    using Cons.prems(4-6) s1 p by (intro Cons.IH) auto
  moreover have "feed_frames s (p # fs) = feed_frames s1 fs" using Cons.prems(3) s1(1) p by simp
  ultimately show ?case using s1(5-9) p by auto
qed simp

lemma close_ops [simp]: "ls_ops (le_live_session_close s r) = ls_ops s"
  using close_frame(3) [of s r] by (simp add: settings_def)

lemma feed_ops: "ls_ops (snd (le_live_session_feed s n xs t)) = ls_ops s"
proof -
  have barge: "ls_ops (check_barge_in s xs t) = ls_ops s" for s :: "'a le_live_session"
    by (auto simp: check_barge_in_def Let_def split: option.split)
  have observe: "ls_ops (observe_input s xs) = ls_ops s" "ls_ops (observe_peak s l) = ls_ops s"
    for s :: "'a le_live_session" and l
    by (simp_all add: observe_input_def observe_peak_def Let_def)
  have flush: "ls_ops (snd (flush_pending s)) = ls_ops s" for s :: "'a le_live_session"
    by (cases rule: flush_pending_cases [of s]) simp_all
  have accepted: "ls_ops (snd (feed_accepted s xs t)) = ls_ops s" for s :: "'a le_live_session"
  proof -
    define s3 where "s3 = (if ls_state s \<noteq> LE_LIVE_SPEAKING
      then observe_input (if le_live_session_active s then check_barge_in s xs t else s) xs
      else observe_peak (if le_live_session_active s then check_barge_in s xs t else s) (frame_rms xs))"
    obtain ok s4 where f: "flush_pending s3 = (ok, s4)" by fastforce
    have "ls_ops s3 = ls_ops s" by (simp add: s3_def barge observe)
    moreover have "ls_ops s4 = ls_ops s3" using flush [of s3] f by simp
    ultimately show ?thesis
      unfolding feed_accepted_def Let_def s3_def [symmetric]
      by (simp add: f upload_failed_def split: bool.split)
  qed
  show ?thesis by (auto simp: le_live_session_feed_def accepted split: option.split)
qed

lemma feed_frames_ops: "ls_ops (feed_frames s fs) = ls_ops s"
proof (induction fs arbitrary: s)
  case (Cons p fs)
  obtain xs t where p: "p = (xs, t)" by (cases p)
  have "ls_ops (snd (le_live_session_feed s n xs t)) = ls_ops s" for n
    by (rule feed_ops)
  then show ?case using Cons p by simp
qed simp

lemma ring_example:
  "\<exists>r. le_live_ring_append ring_empty 100 [7, 8, 9] = Some r \<and> ring_ok r \<and> ring_first r = 100 \<and>
     ring_window r = [7, 8, 9] \<and> le_live_ring_end r = 103"
proof -
  let ?r = "ring_push_all (ring_empty\<lparr>lr_first_sample := 100, lr_count := 0, lr_primed := True\<rparr>) [7, 8, 9]"
  have app: "le_live_ring_append ring_empty 100 [7, 8, 9] = Some ?r"
    using ring_append_eq [of "[7, 8, 9]" ring_empty 100]
    by (simp add: capacity_value ring_continues_def ring_empty_def)
  moreover have "ring_ok ?r" and "ring_window ?r = [7, 8, 9]" and "ring_first ?r = 100" and "le_live_ring_end ?r = 103"
    using ring_push_all_window [of "ring_empty\<lparr>lr_first_sample := 100, lr_count := 0, lr_primed := True\<rparr>" "[7, 8, 9]"]
    by (simp_all add: capacity_value ring_next_def) (simp_all add: ring_push_def ring_empty_def
        capacity_value le_live_ring_end_def Let_def)
  ultimately show ?thesis by blast
qed

section \<open>Nothing leaves without a wake\<close>

lemma idle_op:
  assumes "ls_state s = LE_LIVE_IDLE" and "\<And>d t. op \<noteq> Wake d t"
  shows "ls_state (live_apply s op) = LE_LIVE_IDLE \<and> ls_world (live_apply s op) = ls_world s"
proof (cases op)
  case (Feed n xs t)
  have "ls_state (snd (feed_accepted s1 xs t)) = LE_LIVE_IDLE \<and>
      ls_world (snd (feed_accepted s1 xs t)) = ls_world s1"
    if "ls_state s1 = LE_LIVE_IDLE" for s1 :: "'a le_live_session"
    using that by (simp add: feed_accepted_def Let_def le_live_session_active_def)
  then show ?thesis
    using assms Feed by (auto simp: le_live_session_feed_def split: option.split)
next
  case (Pump timeout t)
  then show ?thesis using assms by (simp add: le_live_session_pump_def le_live_session_active_def)
next
  case (Close r)
  then show ?thesis using assms by (simp add: le_live_session_close_def)
qed (use assms in simp)

lemma idle_run:
  "ls_state s = LE_LIVE_IDLE \<Longrightarrow> \<forall>op\<in>set ops. \<forall>d t. op \<noteq> Wake d t \<Longrightarrow>
   ls_state (run live_apply s ops) = LE_LIVE_IDLE \<and> ls_world (run live_apply s ops) = ls_world s"
proof (induction ops arbitrary: s)
  case (Cons op ops)
  then show ?case using idle_op [of s op] by simp
qed simp

section \<open>Deadlines\<close>

definition within_deadlines :: "'w le_live_session \<Rightarrow> u64 \<Rightarrow> bool" where
  "within_deadlines s now_ms \<longleftrightarrow>
     (if ls_state s = LE_LIVE_CONNECTING
      then now_ms - ls_opened_ms s < ucast (lc_connect_timeout_ms (ls_config s))
      else now_ms - ls_opened_ms s < ucast (lc_max_session_ms (ls_config s)) \<and>
        now_ms - max (ls_last_model_speech_ms s) (ls_last_user_speech_ms s)
          < ucast (lc_conversation_timeout_ms (ls_config s)))"

lemma guards_deadlines:
  assumes "ls_state (snd (pump_guards s now_ms)) \<noteq> LE_LIVE_IDLE"
  shows "within_deadlines (snd (pump_guards s now_ms)) now_ms"
proof (cases rule: flush_pending_cases [of s])
  case 1
  then show ?thesis
    using assms
    by (auto simp: pump_guards_def within_deadlines_def Let_def max_def upload_failed_def not_le not_less
        split: if_splits)
next
  case (2 ok w n m)
  then show ?thesis
    using assms
    by (auto simp: pump_guards_def within_deadlines_def Let_def max_def upload_failed_def not_le not_less
        split: if_splits bool.splits)
qed

section \<open>Properties\<close>

text \<open>
  The books balance.  After any sequence of wakes, frames, pumps and closes, with any transport
  and any callbacks, every session started is counted as completed or failed exactly once, but for
  the one that is still open; and no operation leaves the session in the middle of closing.
\<close>

theorem live_sessions_balance:
  "let s = run live_apply (le_live_session_init ring config ops w) events in
     ls_state s \<noteq> LE_LIVE_CLOSING \<and>
     ls_sessions_started s = ls_sessions_completed s + ls_sessions_failed s +
       (if le_live_session_active s then 1 else 0)"
proof -
  have "balanced (run live_apply (le_live_session_init ring config ops w) events)"
    by (rule live.inv_from_start) blast
  then show ?thesis by (auto simp: balanced_def le_live_session_active_def Let_def)
qed


definition quiet_ops :: "unit le_live_session_ops" where
  "quiet_ops = \<lparr>op_output_audio = None, op_cancel_output = None, op_dispatch = None,
     op_state_changed = None\<rparr>"

definition quiet_config :: "unit le_live_session_config" where
  "quiet_config = \<lparr>lc_transport_ops = None, lc_conversation_timeout_ms = 0, lc_max_session_ms = 0,
     lc_connect_timeout_ms = 0, lc_wake_preroll_ms = 0, lc_barge_in_rms = 0, lc_barge_in_factor = 0,
     lc_barge_in_frames = 0\<rparr>"


text \<open>
  The upload is exact.  While the transport accepts what it is given, draining sends precisely
  the samples of the ring from the next owed one to the newest, once each and in order, in
  non-empty chunks of at most 1280, and then owes nothing.
\<close>

theorem live_upload_exact:
  assumes "ls_ring s = Some r" and "ring_ok r"
    and "ls_state s \<in> {LE_LIVE_LISTENING, LE_LIVE_SPEAKING, LE_LIVE_WAITING_FOR_TOOL}"
    and "ring_first r \<le> unat (ls_next_send_sample s)" and "ls_next_send_sample s \<le> le_live_ring_end r"
    and "Option.bind (ls_transport s) tp_send_audio = Some send" and "\<forall>w c. 0 \<le> fst (send w c)"
  shows "\<exists>chunks s'. flush_pending s = (True, s') \<and>
    concat chunks = drop (unat (ls_next_send_sample s) - ring_first r) (ring_window r) \<and>
    (\<forall>c\<in>set chunks. c \<noteq> [] \<and> length c \<le> LE_LIVE_AUDIO_SAMPLES) \<and>
    ls_world s' = fold (\<lambda>c w. snd (send w c)) chunks (ls_world s) \<and>
    ls_next_send_sample s' = le_live_ring_end r"
proof -
  have "flush_pending s = flush_loop r s"
    using assms(1,3) by (auto simp: flush_pending_def le_live_session_active_def)
  then show ?thesis
    using flush_sends_window [OF assms(2,4-6)] assms(7) by (simp add: sent_all_def)
qed

definition log_transport :: "sample list list le_live_transport_ops" where
  "log_transport = \<lparr>tp_start = None, tp_send_audio = Some (\<lambda>w c. (0, w @ [c])), tp_poll = None,
     tp_interrupt = None, tp_complete_delegation = None, tp_stop = None\<rparr>"

definition log_session :: "live_ring \<Rightarrow> u64 \<Rightarrow> sample list list le_live_session" where
  "log_session r n =
     (le_live_session_init (Some r)
       \<lparr>lc_transport_ops = Some log_transport, lc_conversation_timeout_ms = 0, lc_max_session_ms = 0,
        lc_connect_timeout_ms = 0, lc_wake_preroll_ms = 0, lc_barge_in_rms = 0, lc_barge_in_factor = 0,
        lc_barge_in_frames = 0\<rparr>
       \<lparr>op_output_audio = None, op_cancel_output = None, op_dispatch = None, op_state_changed = None\<rparr> [])
     \<lparr>ls_transport := Some log_transport, ls_state := LE_LIVE_LISTENING, ls_next_send_sample := n\<rparr>"

lemma log_session_fields [simp]:
  "ls_ring (log_session r n) = Some r" "ls_state (log_session r n) = LE_LIVE_LISTENING"
  "ls_next_send_sample (log_session r n) = n" "ls_world (log_session r n) = []"
  "ls_transport (log_session r n) = Some log_transport"
  by (simp_all add: log_session_def le_live_session_init_def)

lemma log_fold: "fold (\<lambda>c w. w @ [c]) chunks w = w @ chunks"
  by (induction chunks arbitrary: w) simp_all

theorem live_upload_exact_witness:
  "\<exists>r s'. le_live_ring_append ring_empty 100 [7, 8, 9] = Some r \<and>
     flush_pending (log_session r 101) = (True, s') \<and> concat (ls_world s') = [8, 9]"
proof -
  obtain r where r: "le_live_ring_append ring_empty 100 [7, 8, 9] = Some r" "ring_ok r"
      "ring_first r = 100" "ring_window r = [7, 8, 9]" "le_live_ring_end r = 103"
    using ring_example by blast
  have "(101 :: u64) \<le> le_live_ring_end r" by (simp add: r)
  then have "\<exists>chunks s'. flush_pending (log_session r 101) = (True, s') \<and>
    concat chunks = drop (unat (101 :: u64) - ring_first r) (ring_window r) \<and>
    (\<forall>c\<in>set chunks. c \<noteq> [] \<and> length c \<le> LE_LIVE_AUDIO_SAMPLES) \<and>
    ls_world s' = fold (\<lambda>c w. snd ((0 :: int, w @ [c]))) chunks [] \<and>
    ls_next_send_sample s' = le_live_ring_end r"
    using live_upload_exact [of "log_session r 101" r "\<lambda>w c. (0, w @ [c])"] r(2,3)
    by (simp add: log_transport_def)
  then show ?thesis using r by (auto simp: log_fold)
qed

text \<open>
  A slow connection makes the session deaf.  If, while the transport is still connecting, more
  than the ring's three seconds arrive, the samples owed first are overwritten; the drain then reads
  nothing and nothing moves the owed position, so after the transport opens not one of the frames
  that follow is ever sent (the connect timeout is eight seconds).
\<close>

theorem live_slow_connect_deaf:
  assumes "ls_ring s = Some r" and "ring_ok r" and "lr_count r \<noteq> 0" and "ls_state s = LE_LIVE_CONNECTING"
    and "\<forall>(xs, t)\<in>set (early @ late). xs \<noteq> [] \<and> length xs \<le> LE_LIVE_RING_CAPACITY"
    and "ring_next r + length (concat (map fst (early @ late))) < 2 ^ 64"
    and "unat (ls_next_send_sample s) + LE_LIVE_RING_CAPACITY <
      ring_next r + length (concat (map fst early))"
    and "opened = live_handle_event (feed_frames s early) LE_LIVE_EVENT_OPEN now_ms"
  shows "ls_world (feed_frames s early) = ls_world s \<and>
    ls_world (feed_frames opened late) = ls_world opened \<and>
    ls_next_send_sample (feed_frames opened late) = ls_next_send_sample s"
proof -
  obtain r1 where r1: "ls_ring (feed_frames s early) = Some r1" "ring_ok r1" "lr_count r1 \<noteq> 0"
      "ring_next r1 = ring_next r + length (concat (map fst early))"
      "ls_world (feed_frames s early) = ls_world s"
      "ls_next_send_sample (feed_frames s early) = ls_next_send_sample s"
    using feed_frames_silent [OF assms(2,3,1), of early] assms(4-6) by auto
  have "ring_next r1 \<le> ring_first r1 + LE_LIVE_RING_CAPACITY"
    using r1(2) by (simp add: ring_next_def ring_ok_def)
  then have "unat (ls_next_send_sample opened) < ring_first r1"
    using assms(7,8) r1(4,6) by (simp add: live_set_state_def)
  moreover have "ls_ring opened = Some r1" "ls_state opened = LE_LIVE_LISTENING"
      "ls_next_send_sample opened = ls_next_send_sample s"
    using assms(8) r1 by simp_all
  ultimately have "ls_world (feed_frames opened late) = ls_world opened \<and>
      ls_next_send_sample (feed_frames opened late) = ls_next_send_sample s"
    using feed_frames_silent [OF r1(2,3), of opened late] assms(5,6) r1(4) by auto
  then show ?thesis using r1(5) by simp
qed

theorem live_slow_connect_deaf_witness:
  "\<exists>r. le_live_ring_append ring_empty 100 [7, 8, 9] = Some r \<and>
     (let s = (log_session r 100)\<lparr>ls_state := LE_LIVE_CONNECTING\<rparr>;
          opened = live_handle_event (feed_frames s (replicate 301 (replicate 160 0, 0)))
                     LE_LIVE_EVENT_OPEN 3100
      in ls_world (feed_frames opened [(replicate 160 500, 3110)]) = [])"
proof -
  obtain r where r: "le_live_ring_append ring_empty 100 [7, 8, 9] = Some r" "ring_ok r"
      "ring_first r = 100" "ring_window r = [7, 8, 9]" "le_live_ring_end r = 103"
    using ring_example by blast
  have count: "lr_count r = 3" using r(4) length_ring_window [of r] by simp
  let ?s = "(log_session r 100)\<lparr>ls_state := LE_LIVE_CONNECTING\<rparr>"
  let ?early = "replicate 301 (replicate 160 (0 :: sample), 0 :: u64)"
  let ?late = "[(replicate 160 (500 :: sample), 3110 :: u64)]"
  have len: "length (concat (map fst ?early)) = 48160"
    by (simp add: length_concat sum_list_replicate map_replicate)
  have "ls_world (live_handle_event (feed_frames ?s ?early) LE_LIVE_EVENT_OPEN 3100) = [] \<and>
      ls_world (feed_frames (live_handle_event (feed_frames ?s ?early) LE_LIVE_EVENT_OPEN 3100) ?late) = []"
  proof -
    note deaf = live_slow_connect_deaf [where s = ?s and r = r and early = ?early and late = ?late
        and now_ms = 3100, OF _ r(2) _ _ _ _ _ refl]
    have "ls_ops (feed_frames ?s ?early) = ls_ops ?s" by (rule feed_frames_ops)
    then have "op_state_changed (ls_ops (feed_frames ?s ?early)) = None"
      by (simp add: log_session_def le_live_session_init_def)
    moreover have "ls_world (feed_frames ?s ?early) = ls_world ?s \<and>
      ls_world (feed_frames (live_handle_event (feed_frames ?s ?early) LE_LIVE_EVENT_OPEN 3100) ?late) =
        ls_world (live_handle_event (feed_frames ?s ?early) LE_LIVE_EVENT_OPEN 3100)"
      using deaf len r(3) count by (simp add: ring_next_def capacity_value)
    ultimately show ?thesis by (simp add: live_set_state_def)
  qed
  then show ?thesis using r(1) by (auto simp: Let_def)
qed

text \<open>
  Silence before the wake.  Without a wake, no frame, pump or close makes an idle session touch
  the transport or any callback: nothing heard leaves the device.
\<close>

theorem live_idle_silent:
  assumes "ls_state s = LE_LIVE_IDLE" and "\<forall>op\<in>set ops. \<forall>d t. op \<noteq> Wake d t"
  shows "ls_world (run live_apply s ops) = ls_world s \<and> \<not> le_live_session_active (run live_apply s ops)"
  using idle_run [OF assms] by (simp add: le_live_session_active_def)

theorem live_idle_silent_witness:
  "ls_world (run live_apply ((log_session ring_empty 0)\<lparr>ls_state := LE_LIVE_IDLE\<rparr>)
     [Feed 0 [5, 6] 10, Pump 0 20, Feed 2 [7] 30]) = []"
  using live_idle_silent [of "(log_session ring_empty 0)\<lparr>ls_state := LE_LIVE_IDLE\<rparr>"
      "[Feed 0 [5, 6] 10, Pump 0 20, Feed 2 [7] 30]"] by simp

text \<open>
  C40: a conversation cannot outlive its limits: if a session is still open after a pump, whatever
  the transport delivered, then the connection has not been pending for the connect timeout, or the
  conversation is younger than its maximum and somebody spoke within the silence timeout.
\<close>

theorem live_pump_enforces_deadlines:
  assumes "le_live_session_active (snd (le_live_session_pump s timeout_ms now_ms))"
  shows "within_deadlines (snd (le_live_session_pump s timeout_ms now_ms)) now_ms"
  using assms
  by (auto simp: le_live_session_pump_def le_live_session_active_def Let_def split_beta
      intro!: guards_deadlines split: if_splits)

theorem live_pump_enforces_deadlines_witness:
  "within_deadlines (snd (le_live_session_pump (log_session ring_empty 0) 0 100)) 100"
  by (rule live_pump_enforces_deadlines) code_simp

text \<open>
  The transcript is the last ten turns: a partial text of the speaker whose turn is open
  replaces that turn, anything else is a new turn, and the oldest one goes when an eleventh comes.
\<close>

theorem live_transcript_refines:
  assumes "turns_ok s"
  shows "turns_ok (transcript_append s speaker final body) \<and>
    live_turns (transcript_append s speaker final body) =
    (let turn = \<lparr>lt_speaker = speaker, lt_final = final, lt_text = copy_text LE_LIVE_TEXT_MAX body\<rparr>
     in if live_turns s \<noteq> [] \<and> lt_speaker (last (live_turns s)) = speaker \<and>
           \<not> lt_final (last (live_turns s))
        then butlast (live_turns s) @ [turn]
        else lastn LE_LIVE_TRANSCRIPT_TURNS (live_turns s @ [turn]))"
  using assms by (rule transcript_refines)

theorem live_transcript_refines_witness:
  "let s = log_session ring_empty 0 in
     live_turns (transcript_append s LE_LIVE_SPEAKER_USER False ''hel'') =
       [\<lparr>lt_speaker = LE_LIVE_SPEAKER_USER, lt_final = False, lt_text = ''hel''\<rparr>]"
proof -
  let ?s = "log_session ring_empty 0"
  have "turns_ok ?s" and "live_turns ?s = []"
    by (simp_all add: turns_ok_def live_turns_def ring_ok_at_def ring_list_def log_session_def
        le_live_session_init_def live_sizes)
  then show ?thesis
    using live_transcript_refines [of ?s LE_LIVE_SPEAKER_USER False "''hel''"]
    by (simp add: live_sizes copy_text_def Let_def)
qed

end
