(* ===== verification/C_Text.thy ===== *)
theory C_Text
  imports Echo_Prelude
begin

text \<open>
  What the sources use of the C library on text: character classes, \<^verbatim>\<open>strtoll\<close> and its relatives in
  base ten, \<^verbatim>\<open>strstr\<close>, prefix comparison and the decimal conversions of \<^verbatim>\<open>printf\<close>.  A C string is the
  list of its characters without the terminator; a pointer into it is the suffix it points to; a
  character is compared by its code as an \<^verbatim>\<open>unsigned char\<close>.
\<close>

section \<open>Characters\<close>

abbreviation ord :: "char \<Rightarrow> nat" where
  "ord c \<equiv> of_char c"

definition isdigit :: "char \<Rightarrow> bool" where
  "isdigit c \<longleftrightarrow> 48 \<le> ord c \<and> ord c \<le> 57"

definition isspace :: "char \<Rightarrow> bool" where
  "isspace c \<longleftrightarrow> ord c = 32 \<or> (9 \<le> ord c \<and> ord c \<le> 13)"

definition isalpha :: "char \<Rightarrow> bool" where
  "isalpha c \<longleftrightarrow> (65 \<le> ord c \<and> ord c \<le> 90) \<or> (97 \<le> ord c \<and> ord c \<le> 122)"

definition isalnum :: "char \<Rightarrow> bool" where
  "isalnum c \<longleftrightarrow> isalpha c \<or> isdigit c"

definition tolower :: "char \<Rightarrow> char" where
  "tolower c = (if 65 \<le> ord c \<and> ord c \<le> 90 then char_of (ord c + 32) else c)"

definition digit_value :: "char \<Rightarrow> nat" where
  "digit_value c = ord c - 48"

lemma ord_lt_256 [simp]: "ord c < 256"
  by (metis of_char_of mod_less_divisor char_of_char zero_less_numeral)

lemma char_eq_ord: "c = d \<longleftrightarrow> ord c = ord d"
  by simp

lemma digit_not_space: "isdigit c \<Longrightarrow> \<not> isspace c"
  by (simp add: isdigit_def isspace_def)

section \<open>Searching and comparing\<close>

fun strip_prefix :: "string \<Rightarrow> string \<Rightarrow> string option" where
  "strip_prefix [] s = Some s"
| "strip_prefix (p # ps) [] = None"
| "strip_prefix (p # ps) (c # cs) = (if p = c then strip_prefix ps cs else None)"

fun strstr :: "string \<Rightarrow> string \<Rightarrow> string option" where
  "strstr [] needle = (if needle = [] then Some [] else None)"
| "strstr (c # cs) needle =
     (if strip_prefix needle (c # cs) \<noteq> None then Some (c # cs) else strstr cs needle)"

lemma strip_prefix_Some: "strip_prefix p s = Some r \<longleftrightarrow> s = p @ r"
  by (induction p s rule: strip_prefix.induct) auto

lemma strip_prefix_append [simp]: "strip_prefix p (p @ r) = Some r"
  by (simp add: strip_prefix_Some)

text \<open>Words up to a separator that occurs in none of them.\<close>

lemma append_sep_eq:
  "x \<notin> set a \<Longrightarrow> x \<notin> set b \<Longrightarrow> a @ x # s = b @ x # t \<longleftrightarrow> a = b \<and> s = t"
  by (induction a b rule: list_induct2') auto

lemma strip_prefix_sep:
  "x \<notin> set k \<Longrightarrow> x \<notin> set a \<Longrightarrow> strip_prefix (k @ x # r) (a @ x # s) = (if k = a then strip_prefix r s else None)"
  by (induction k a rule: list_induct2') auto

lemma strstr_skip: "x \<notin> set p \<Longrightarrow> strstr (p @ s) (x # ns) = strstr s (x # ns)"
  by (induction p) auto

lemma strstr_here: "strip_prefix n s \<noteq> None \<Longrightarrow> strstr s n = Some s"
  by (cases s; cases n) simp_all

lemma strstr_sep:
  assumes "x \<notin> set k" "x \<notin> set a"
  shows "strstr (x # a @ x # s) (x # k @ [x]) = (if k = a then Some (x # a @ x # s) else strstr (x # s) (x # k @ [x]))"
  using strip_prefix_sep [OF assms, of "[]" s] strstr_skip [OF assms(2), of "x # s" "k @ [x]"] by simp

lemma strstr_length: "strstr s n = Some t \<Longrightarrow> length t \<le> length s"
  by (induction s n rule: strstr.induct) (auto split: if_splits)

lemma strstr_Some: "strstr s n = Some t \<Longrightarrow> \<exists>a b. s = a @ t \<and> t = n @ b"
proof (induction s n rule: strstr.induct)
  case (2 c cs needle)
  show ?case
  proof (cases "strip_prefix needle (c # cs) = None")
    case True
    then obtain a b where "cs = a @ t" "t = needle @ b" using 2 by auto
    then show ?thesis by (intro exI [of _ "c # a"] exI [of _ b]) simp
  qed (use 2 in \<open>auto simp: strip_prefix_Some\<close>)
qed (simp split: if_splits)

section \<open>Decimal numbers\<close>

fun dec_value :: "nat \<Rightarrow> string \<Rightarrow> nat" where
  "dec_value acc [] = acc"
| "dec_value acc (c # cs) = dec_value (acc * 10 + digit_value c) cs"

text \<open>
  The number at the beginning of a text after white space and an optional sign, and what follows
  it; \<open>None\<close> when there is none, where the library leaves the end pointer at the start.
\<close>

definition strto_int :: "string \<Rightarrow> (int \<times> string) option" where
  "strto_int s =
     (let t = dropWhile isspace s;
          neg = (t \<noteq> [] \<and> hd t = CHR ''-'');
          u = (if t \<noteq> [] \<and> (hd t = CHR ''-'' \<or> hd t = CHR ''+'') then tl t else t);
          ds = takeWhile isdigit u;
          v = int (dec_value 0 ds)
      in if ds = [] then None else Some (if neg then - v else v, dropWhile isdigit u))"

text \<open>The value a \<open>w\<close>-bit signed conversion gives, and whether it reports \<^verbatim>\<open>ERANGE\<close>.\<close>

definition clamp :: "nat \<Rightarrow> int \<Rightarrow> int \<times> bool" where
  "clamp w v =
     (if v > 2 ^ (w - 1) - 1 then (2 ^ (w - 1) - 1, True)
      else if v < - (2 ^ (w - 1)) then (- (2 ^ (w - 1)), True) else (v, False))"

text \<open>The decimal digits of a number, as \<^verbatim>\<open>%u\<close> and its relatives print it.\<close>

fun nat_digits :: "nat \<Rightarrow> string" where
  "nat_digits n = (if n < 10 then [char_of (48 + n)] else nat_digits (n div 10) @ [char_of (48 + n mod 10)])"

declare nat_digits.simps [simp del]

definition int_digits :: "int \<Rightarrow> string" where
  "int_digits i = (if i < 0 then CHR ''-'' # nat_digits (nat (- i)) else nat_digits (nat i))"

lemma dec_value_append: "dec_value acc (xs @ ys) = dec_value (dec_value acc xs) ys"
  by (induction xs arbitrary: acc) simp_all

lemma digit_char [simp]: "n < 10 \<Longrightarrow> isdigit (char_of (48 + n))"
  "n < 10 \<Longrightarrow> digit_value (char_of (48 + n)) = n"
  by (simp_all add: isdigit_def digit_value_def)

lemma nat_digits_digits: "\<forall>c\<in>set (nat_digits n). isdigit c"
  by (induction n rule: nat_digits.induct) (subst nat_digits.simps, auto)

lemma nat_digits_value [simp]: "dec_value 0 (nat_digits n) = n"
  by (induction n rule: nat_digits.induct) (subst nat_digits.simps, simp add: dec_value_append)

lemma nat_digits_nonempty [simp]: "nat_digits n \<noteq> []"
  by (subst nat_digits.simps) simp

lemma nat_digits_length: "n < 10 ^ Suc k \<Longrightarrow> length (nat_digits n) \<le> Suc k"
proof (induction k arbitrary: n)
  case 0
  then show ?case by (subst nat_digits.simps) simp
next
  case (Suc k)
  show ?case
  proof (cases "n < 10")
    case True
    then show ?thesis by (subst nat_digits.simps) simp
  next
    case False
    have "n div 10 < 10 ^ Suc k" using Suc.prems by (simp add: less_mult_imp_div_less)
    then show ?thesis using Suc.IH False by (subst nat_digits.simps) simp
  qed
qed

lemma takeWhile_all_append:
  "\<forall>c\<in>set xs. P c \<Longrightarrow> ys = [] \<or> \<not> P (hd ys) \<Longrightarrow> takeWhile P (xs @ ys) = xs \<and> dropWhile P (xs @ ys) = ys"
  by (cases ys; induction xs) auto

text \<open>Reading a printed number gives it back.\<close>

lemma strto_int_digits:
  assumes "rest = [] \<or> \<not> isdigit (hd rest)"
  shows "strto_int (int_digits i @ rest) = Some (i, rest)"
proof -
  have digits: "takeWhile isdigit (nat_digits n @ rest) = nat_digits n \<and>
      dropWhile isdigit (nat_digits n @ rest) = rest" for n
    using nat_digits_digits assms by (rule takeWhile_all_append)
  have first: "\<exists>c cs. nat_digits n = c # cs \<and> isdigit c" for n
    using nat_digits_digits [of n] nat_digits_nonempty [of n] by (cases "nat_digits n") auto
  have not_sign: "isdigit c \<Longrightarrow> c \<noteq> CHR ''-'' \<and> c \<noteq> CHR ''+'' \<and> \<not> isspace c" for c
    by (auto simp: isdigit_def isspace_def)
  show ?thesis
  proof (cases "i < 0")
    case True
    have "\<not> isspace (CHR ''-'')" by (simp add: isspace_def)
    then show ?thesis using True digits [of "nat (- i)"] by (simp add: strto_int_def int_digits_def Let_def)
  next
    case False
    obtain c cs where c: "nat_digits (nat i) = c # cs" "isdigit c" using first by blast
    then show ?thesis
      using False digits [of "nat i"] not_sign [OF c(2)] nat_digits_value [of "nat i"]
      by (simp add: strto_int_def int_digits_def Let_def)
  qed
qed

text \<open>The conversion of a text to an unsigned number of \<open>w\<close> bits, which wraps a negative one.\<close>

definition strtoul :: "nat \<Rightarrow> string \<Rightarrow> (nat \<times> bool \<times> string) option" where
  "strtoul w s =
     map_option (\<lambda>(v, rest).
       if 2 ^ w \<le> \<bar>v\<bar> then (2 ^ w - 1, True, rest) else (nat (v mod 2 ^ w), False, rest)) (strto_int s)"

lemma strtoul_digits:
  assumes "n < 2 ^ w" and "rest = [] \<or> \<not> isdigit (hd rest)"
  shows "strtoul w (nat_digits n @ rest) = Some (n, False, rest)"
proof -
  have "strto_int (nat_digits n @ rest) = Some (int n, rest)"
    using strto_int_digits [of rest "int n"] assms(2) by (cases rest) (auto simp: int_digits_def)
  moreover have "int n < 2 ^ w" using assms(1) by (metis of_nat_less_iff of_nat_numeral of_nat_power)
  ultimately show ?thesis by (simp add: strtoul_def)
qed

text \<open>The digit a number below sixteen is written as.\<close>

definition hex_nibble :: "nat \<Rightarrow> char" where
  "hex_nibble n = ''0123456789abcdef'' ! n"

section \<open>Lines\<close>

definition newline :: char where "newline = char_of (10 :: nat)"

text \<open>The lines \<^verbatim>\<open>fgets\<close> cuts into a buffer of \<open>n\<close> bytes: up to and with a newline, but no more than fits.\<close>

function cut_lines :: "nat \<Rightarrow> string \<Rightarrow> string list" where
  "cut_lines n s =
     (if s = [] \<or> n < 2 then []
      else let whole = takeWhile (\<lambda>c. c \<noteq> newline) s;
               line = take (n - 1) (if whole = s then whole else whole @ [newline])
        in line # cut_lines n (drop (length line) s))"
  by auto
termination
proof (relation "measure (length o snd)")
  fix n :: nat and s t line :: string
  assume "\<not> (s = [] \<or> n < 2)" "t = takeWhile (\<lambda>c. c \<noteq> newline) s"
    "line = take (n - 1) (if t = s then t else t @ [newline])"
  then have "line \<noteq> []" by (cases s) auto
  then show "((n, drop (length line) s), n, s) \<in> measure (length o snd)"
    using \<open>\<not> (s = [] \<or> n < 2)\<close> by simp
qed simp

declare cut_lines.simps [simp del]

lemma cut_lines_Nil [simp]: "cut_lines n [] = []"
  by (subst cut_lines.simps) simp

lemma cut_line:
  assumes "newline \<notin> set l" and "length l + 1 < n"
  shows "cut_lines n (l @ newline # rest) = (l @ [newline]) # cut_lines n rest"
proof -
  have t: "takeWhile (\<lambda>c. c \<noteq> newline) (l @ newline # rest) = l"
    using assms(1) takeWhile_all_append [of l "\<lambda>c. c \<noteq> newline" "newline # rest"] by fastforce
  have "take (n - 1) (if l = l @ newline # rest then l else l @ [newline]) = l @ [newline]"
    using assms(2) by simp
  moreover have "cut_lines n (l @ newline # rest) =
      (let line = take (n - 1) (if l = l @ newline # rest then l else l @ [newline])
       in line # cut_lines n (drop (length line) (l @ newline # rest)))"
    using assms(2) by (subst cut_lines.simps) (simp add: Let_def t del: take_append)
  ultimately show ?thesis by (simp only: Let_def) simp
qed

lemma cut_all_lines:
  "\<forall>l\<in>set ls. newline \<notin> set l \<and> length l + 1 < n \<Longrightarrow>
   cut_lines n (concat (map (\<lambda>l. l @ [newline]) ls)) = map (\<lambda>l. l @ [newline]) ls"
  by (induction ls) (simp_all add: cut_line)

end
