(* ===== verification/Json.thy ===== *)
theory Json
  imports C_Text
begin

text \<open>
  The JSON reader and writer every daemon uses (\<^verbatim>\<open>src/json.c\<close>).  The cursor is the text that is
  left and the number of nestings still allowed (the code counts them up to its limit of 64); a
  failed parse is \<open>None\<close>, its cursor being abandoned.  A loop over members is bounded by the length
  of the text, which suffices because every round consumes some of it.  A C string is its
  characters without the terminator; NULL arguments are left out.  \<^verbatim>\<open>long\<close> is 32 bits, as on the
  ARM target.
\<close>

section \<open>Lexemes\<close>

definition JSON_MAX_DEPTH :: nat where "JSON_MAX_DEPTH = 64"

abbreviation quote :: char where "quote \<equiv> CHR 0x22"
abbreviation backslash :: char where "backslash \<equiv> CHR 0x5C"

definition ws :: "char \<Rightarrow> bool" where
  "ws c \<longleftrightarrow> c = CHR '' '' \<or> c = CHR 0x09 \<or> c = CHR 0x0D \<or> c = CHR 0x0A"

definition skip_ws :: "string \<Rightarrow> string" where
  "skip_ws s = dropWhile ws s"

definition hex_value :: "char \<Rightarrow> nat option" where
  "hex_value c =
     (if 48 \<le> ord c \<and> ord c \<le> 57 then Some (ord c - 48)
      else if 97 \<le> ord c \<and> ord c \<le> 102 then Some (ord c - 97 + 10)
      else if 65 \<le> ord c \<and> ord c \<le> 70 then Some (ord c - 65 + 10) else None)"

definition hex :: "char \<Rightarrow> bool" where
  "hex c \<longleftrightarrow> (48 \<le> ord c \<and> ord c \<le> 57) \<or> (97 \<le> ord c \<and> ord c \<le> 102) \<or> (65 \<le> ord c \<and> ord c \<le> 70)"

text \<open>The next character if it is the wanted one.\<close>

definition expect :: "char \<Rightarrow> string \<Rightarrow> string option" where
  "expect x s = (case s of [] \<Rightarrow> None | c # r \<Rightarrow> if c = x then Some r else None)"

definition escapable :: "char \<Rightarrow> bool" where
  "escapable c \<longleftrightarrow> c = quote \<or> c = backslash \<or> c \<in> set ''/bfnrt''"

fun string_body :: "string \<Rightarrow> string option" where
  "string_body [] = None"
| "string_body (ch # s) =
     (if ch = quote then Some s
      else if ord ch < 32 then None
      else if ch \<noteq> backslash then string_body s
      else (case s of
              [] \<Rightarrow> None
            | e # s1 \<Rightarrow>
                if e = CHR ''u'' then
                  (case s1 of
                     a # b # c # d # s2 \<Rightarrow>
                       if hex a \<and> hex b \<and> hex c \<and> hex d then string_body s2 else None
                   | _ \<Rightarrow> None)
                else if escapable e then string_body s1 else None))"

definition parse_string :: "string \<Rightarrow> string option" where
  "parse_string s = Option.bind (expect quote s) string_body"

definition digits1 :: "string \<Rightarrow> string option" where
  "digits1 s = (if s = [] \<or> \<not> isdigit (hd s) then None else Some (dropWhile isdigit s))"

definition number_int :: "string \<Rightarrow> string option" where
  "number_int s =
     (if s \<noteq> [] \<and> hd s = CHR ''0''
      then (if tl s \<noteq> [] \<and> isdigit (hd (tl s)) then None else Some (tl s))
      else digits1 s)"

definition number_frac :: "string \<Rightarrow> string option" where
  "number_frac s = (if s \<noteq> [] \<and> hd s = CHR ''.'' then digits1 (tl s) else Some s)"

definition number_exp :: "string \<Rightarrow> string option" where
  "number_exp s =
     (if s \<noteq> [] \<and> (hd s = CHR ''e'' \<or> hd s = CHR ''E'')
      then (let t = tl s
            in digits1 (if t \<noteq> [] \<and> (hd t = CHR ''+'' \<or> hd t = CHR ''-'') then tl t else t))
      else Some s)"

definition parse_number :: "string \<Rightarrow> string option" where
  "parse_number s =
     (let t = (if s \<noteq> [] \<and> hd s = CHR ''-'' then tl s else s)
      in Option.bind (Option.bind (number_int t) number_frac) number_exp)"

section \<open>Values\<close>

text \<open>The loops over the members of an object and the elements of an array.\<close>

fun members_loop :: "nat \<Rightarrow> (string \<Rightarrow> string option) \<Rightarrow> string \<Rightarrow> string option" where
  "members_loop 0 pv s = None"
| "members_loop (Suc n) pv s =
     (case parse_string s of None \<Rightarrow> None | Some s1 \<Rightarrow>
      case expect (CHR '':'') (skip_ws s1) of None \<Rightarrow> None | Some s2 \<Rightarrow>
      case pv s2 of None \<Rightarrow> None | Some s3 \<Rightarrow>
        (case skip_ws s3 of
           [] \<Rightarrow> None
         | c # r \<Rightarrow>
             if c = CHR ''}'' then Some r
             else if c \<noteq> CHR '','' then None
             else (let t = skip_ws r
                   in if t = [] \<or> hd t = CHR ''}'' then None else members_loop n pv t)))"

fun elements_loop :: "nat \<Rightarrow> (string \<Rightarrow> string option) \<Rightarrow> string \<Rightarrow> string option" where
  "elements_loop 0 pv s = None"
| "elements_loop (Suc n) pv s =
     (case pv s of None \<Rightarrow> None | Some s3 \<Rightarrow>
        (case skip_ws s3 of
           [] \<Rightarrow> None
         | c # r \<Rightarrow>
             if c = CHR '']'' then Some r
             else if c \<noteq> CHR '','' then None
             else (let t = skip_ws r
                   in if t = [] \<or> hd t = CHR '']'' then None else elements_loop n pv t)))"

definition object_body :: "(string \<Rightarrow> string option) \<Rightarrow> string \<Rightarrow> string option" where
  "object_body pv r =
     (let t = skip_ws r
      in if t \<noteq> [] \<and> hd t = CHR ''}'' then Some (tl t) else members_loop (length t) pv t)"

definition array_body :: "(string \<Rightarrow> string option) \<Rightarrow> string \<Rightarrow> string option" where
  "array_body pv r =
     (let t = skip_ws r
      in if t \<noteq> [] \<and> hd t = CHR '']'' then Some (tl t) else elements_loop (length t) pv t)"

text \<open>\<open>parse_value k\<close> with \<open>k\<close> nestings left.\<close>

fun parse_value :: "nat \<Rightarrow> string \<Rightarrow> string option" where
  "parse_value k s =
     (case skip_ws s of
        [] \<Rightarrow> None
      | c # r \<Rightarrow>
          if c = quote then parse_string (c # r)
          else if c = CHR ''{'' then
            (case k of 0 \<Rightarrow> None | Suc d \<Rightarrow> object_body (parse_value d) r)
          else if c = CHR ''['' then
            (case k of 0 \<Rightarrow> None | Suc d \<Rightarrow> array_body (parse_value d) r)
          else if c = CHR ''t'' then strip_prefix ''true'' (c # r)
          else if c = CHR ''f'' then strip_prefix ''false'' (c # r)
          else if c = CHR ''n'' then strip_prefix ''null'' (c # r)
          else parse_number (c # r))"

declare parse_value.simps [simp del]

definition parse_object :: "nat \<Rightarrow> string \<Rightarrow> string option" where
  "parse_object k s =
     (case expect (CHR ''{'') s of None \<Rightarrow> None | Some r \<Rightarrow>
        (case k of 0 \<Rightarrow> None | Suc d \<Rightarrow> object_body (parse_value d) r))"

definition parse_array :: "nat \<Rightarrow> string \<Rightarrow> string option" where
  "parse_array k s =
     (case expect (CHR ''['') s of None \<Rightarrow> None | Some r \<Rightarrow>
        (case k of 0 \<Rightarrow> None | Suc d \<Rightarrow> array_body (parse_value d) r))"

definition json_valid_object :: "string \<Rightarrow> bool" where
  "json_valid_object s =
     (case parse_object JSON_MAX_DEPTH (skip_ws s) of None \<Rightarrow> False | Some r \<Rightarrow> skip_ws r = [])"

section \<open>Members by name\<close>

text \<open>
  A member name compared to a key: the part of the key not yet met, whether it matches so far, and
  the text; the result is the verdict and the rest.
\<close>

definition key_escape :: "char \<Rightarrow> char option" where
  "key_escape c =
     (if c = quote \<or> c = backslash \<or> c = CHR ''/'' then Some c
      else if c = CHR ''b'' then Some (CHR 0x08) else if c = CHR ''f'' then Some (CHR 0x0C)
      else if c = CHR ''n'' then Some (CHR 0x0A) else if c = CHR ''r'' then Some (CHR 0x0D)
      else if c = CHR ''t'' then Some (CHR 0x09) else None)"

definition hex4 :: "string \<Rightarrow> (nat \<times> string) option" where
  "hex4 s =
     (case s of
        a # b # c # d # r \<Rightarrow>
          (case (hex_value a, hex_value b, hex_value c, hex_value d) of
             (Some h0, Some h1, Some h2, Some h3) \<Rightarrow>
               Some (((h0 * 16 + h1) * 16 + h2) * 16 + h3, r)
           | _ \<Rightarrow> None)
      | _ \<Rightarrow> None)"

lemma hex4_shorter: "hex4 s = Some (v, r) \<Longrightarrow> length r < length s"
  by (auto simp: hex4_def split: list.splits option.splits)

definition key_next :: "string \<Rightarrow> bool \<Rightarrow> char \<Rightarrow> string \<times> bool" where
  "key_next key match ch =
     (case key of [] \<Rightarrow> ([], False) | k # ks \<Rightarrow> (ks, match \<and> k = ch))"

function key_body :: "string \<Rightarrow> bool \<Rightarrow> string \<Rightarrow> (bool \<times> string) option" where
  "key_body key match s =
     (case s of
        [] \<Rightarrow> None
      | ch # s1 \<Rightarrow>
          if ch = quote then Some (match \<and> key = [], s1)
          else if ord ch < 32 then None
          else if ch \<noteq> backslash then
            (let (key', match') = key_next key match ch in key_body key' match' s1)
          else
            (case s1 of
               [] \<Rightarrow> None
             | e # s2 \<Rightarrow>
                 if e = CHR ''u'' then
                   (case hex4 s2 of
                      None \<Rightarrow> None
                    | Some (v, s3) \<Rightarrow>
                        (let (key', match') = key_next key (match \<and> v \<le> 127) (char_of v)
                         in key_body key' match' s3))
                 else
                   (case key_escape e of
                      None \<Rightarrow> None
                    | Some ch' \<Rightarrow>
                        (let (key', match') = key_next key match ch' in key_body key' match' s2))))"
  by pat_completeness auto
termination by (relation "measure (\<lambda>(key, match, s). length s)") (auto dest: hex4_shorter)

declare key_body.simps [simp del]

definition parse_string_key :: "string \<Rightarrow> string \<Rightarrow> (bool \<times> string) option" where
  "parse_string_key key s = Option.bind (expect quote s) (key_body key True)"

text \<open>The start of a member: whether its name is the key, and the text from its value on.\<close>

definition member_start :: "string \<Rightarrow> string \<Rightarrow> (bool \<times> string) option" where
  "member_start key s =
     (case parse_string_key key s of None \<Rightarrow> None | Some (match, s1) \<Rightarrow>
        map_option (\<lambda>s2. (match, skip_ws s2)) (expect (CHR '':'') (skip_ws s1)))"

definition bool_literal :: "string \<Rightarrow> (bool \<times> string) option" where
  "bool_literal s =
     (case strip_prefix ''true'' s of
        Some r \<Rightarrow> Some (True, r)
      | None \<Rightarrow> map_option (Pair False) (strip_prefix ''false'' s))"

definition value_end :: "string \<Rightarrow> bool" where
  "value_end s \<longleftrightarrow> s = [] \<or> ws (hd s) \<or> hd s = CHR '','' \<or> hd s = CHR ''}''"

text \<open>
  The result code is the code's: 1 found, 0 absent, -1 malformed or ambiguous; the boolean is
  written only when found.
\<close>

fun top_level_bool_loop :: "nat \<Rightarrow> string \<Rightarrow> bool option \<Rightarrow> string \<Rightarrow> int \<times> bool option" where
  "top_level_bool_loop 0 key found s = (- 1, None)"
| "top_level_bool_loop (Suc n) key found s =
     (case member_start key s of
        None \<Rightarrow> (- 1, None)
      | Some (match, s1) \<Rightarrow>
          (case (if match then
                   (if found \<noteq> None then None
                    else (case bool_literal s1 of
                            None \<Rightarrow> None
                          | Some (v, s2) \<Rightarrow> if value_end s2 then Some (Some v, s2) else None))
                 else map_option (Pair found) (parse_value JSON_MAX_DEPTH s1)) of
             None \<Rightarrow> (- 1, None)
           | Some (found', s2) \<Rightarrow>
               (case skip_ws s2 of
                  [] \<Rightarrow> (- 1, None)
                | c # r \<Rightarrow>
                    if c = CHR ''}'' then (if found' = None then (0, None) else (1, found'))
                    else if c \<noteq> CHR '','' then (- 1, None)
                    else top_level_bool_loop n key found' (skip_ws r))))"

definition json_get_top_level_bool :: "string \<Rightarrow> string \<Rightarrow> int \<times> bool option" where
  "json_get_top_level_bool s key =
     (case expect (CHR ''{'') (skip_ws s) of
        None \<Rightarrow> (0, None)
      | Some r \<Rightarrow>
          (let t = skip_ws r
           in if t \<noteq> [] \<and> hd t = CHR ''}'' then (0, None)
              else top_level_bool_loop (length t + 1) key None t))"

fun duplicate_loop :: "nat \<Rightarrow> string \<Rightarrow> nat \<Rightarrow> string \<Rightarrow> bool" where
  "duplicate_loop 0 key count s = False"
| "duplicate_loop (Suc n) key count s =
     (case member_start key s of
        None \<Rightarrow> False
      | Some (match, s1) \<Rightarrow>
          (let count' = (if match then count + 1 else count) in
           case parse_value JSON_MAX_DEPTH s1 of
             None \<Rightarrow> False
           | Some s2 \<Rightarrow>
               (case skip_ws s2 of
                  [] \<Rightarrow> False
                | c # r \<Rightarrow>
                    if c = CHR ''}'' then count' > 1
                    else if c \<noteq> CHR '','' then False
                    else duplicate_loop n key count' (skip_ws r))))"

definition json_duplicate_key :: "string \<Rightarrow> string \<Rightarrow> bool" where
  "json_duplicate_key s key =
     (case expect (CHR ''{'') (skip_ws s) of
        None \<Rightarrow> False
      | Some r \<Rightarrow>
          (let t = skip_ws r
           in if t \<noteq> [] \<and> hd t = CHR ''}'' then False else duplicate_loop (length t + 1) key 0 t))"

text \<open>The search by substring, and the one among the members of the outer object.\<close>

definition find_key :: "string \<Rightarrow> string \<Rightarrow> string option" where
  "find_key s k =
     (let key = take 95 ([quote] @ k @ [quote])
      in case strstr s key of
           None \<Rightarrow> None
         | Some t \<Rightarrow>
             map_option (dropWhile isspace)
               (expect (CHR '':'') (dropWhile isspace (drop (length key) t))))"

fun top_level_key_loop :: "nat \<Rightarrow> string \<Rightarrow> string \<Rightarrow> string option" where
  "top_level_key_loop 0 k s = None"
| "top_level_key_loop (Suc n) k s =
     (let t = skip_ws s in
      if t = [] \<or> hd t = CHR ''}'' \<or> hd t \<noteq> quote then None
      else
        (case parse_string t of
           None \<Rightarrow> None
         | Some s1 \<Rightarrow>
             (let name = take (length t - length s1 - 2) (tl t) in
              case expect (CHR '':'') (skip_ws s1) of
                None \<Rightarrow> None
              | Some s2 \<Rightarrow>
                  (let value = skip_ws s2 in
                   if name = k then Some value
                   else
                     (case parse_value JSON_MAX_DEPTH value of
                        None \<Rightarrow> None
                      | Some s3 \<Rightarrow>
                          (case skip_ws s3 of
                             [] \<Rightarrow> None
                           | c # r \<Rightarrow>
                               if c = CHR '','' then top_level_key_loop n k r else None))))))"

definition find_top_level_key :: "string \<Rightarrow> string \<Rightarrow> string option" where
  "find_top_level_key s k =
     (case expect (CHR ''{'') (skip_ws s) of
        None \<Rightarrow> None
      | Some r \<Rightarrow> top_level_key_loop (length r + 1) k r)"

section \<open>Typed members\<close>

definition json_get_int :: "string \<Rightarrow> string \<Rightarrow> int \<times> int" where
  "json_get_int s k =
     (case find_key s k of
        None \<Rightarrow> (0, 0)
      | Some p \<Rightarrow> (case strto_int p of None \<Rightarrow> (- 1, 0) | Some (v, e) \<Rightarrow> (1, fst (clamp 32 v))))"

definition int64_at :: "string \<Rightarrow> int option" where
  "int64_at p =
     (case strto_int p of
        None \<Rightarrow> None
      | Some (v, e) \<Rightarrow>
          if snd (clamp 64 v) \<or>
             (e \<noteq> [] \<and> \<not> isspace (hd e) \<and> hd e \<noteq> CHR '','' \<and> hd e \<noteq> CHR ''}'')
          then None else Some v)"

text \<open>Of the getters below: \<open>Some None\<close> is -1, \<open>None\<close> is 0.\<close>

definition json_get_int64 :: "string \<Rightarrow> string \<Rightarrow> int option option" where
  "json_get_int64 s k = map_option int64_at (find_key s k)"

definition json_get_int64_top_level :: "string \<Rightarrow> string \<Rightarrow> int option option" where
  "json_get_int64_top_level s k = map_option int64_at (find_top_level_key s k)"

text \<open>The text of the array from its bracket to its end.\<close>

definition json_get_array_top_level :: "string \<Rightarrow> string \<Rightarrow> string option option" where
  "json_get_array_top_level s k =
     map_option (\<lambda>p. if p = [] \<or> hd p \<noteq> CHR ''['' then None
        else map_option (\<lambda>r. take (length p - length r) p) (parse_array JSON_MAX_DEPTH p))
       (find_top_level_key s k)"

definition json_get_uint :: "string \<Rightarrow> string \<Rightarrow> nat option option" where
  "json_get_uint s k =
     map_option (\<lambda>p.
       if p \<noteq> [] \<and> (hd p = CHR ''+'' \<or> hd p = CHR ''-'') then None
       else
         (case strto_int p of
            None \<Rightarrow> None
          | Some (v, e) \<Rightarrow>
              (let e' = dropWhile isspace e in
               if v > 2 ^ 32 - 1 \<or> (e' \<noteq> [] \<and> hd e' \<noteq> CHR '','' \<and> hd e' \<noteq> CHR ''}'')
               then None else Some (nat v))))
       (find_key s k)"

definition json_get_bool :: "string \<Rightarrow> string \<Rightarrow> bool option option" where
  "json_get_bool s k = map_option (\<lambda>p. map_option fst (bool_literal p)) (find_key s k)"

section \<open>Strings\<close>

text \<open>The bytes of a code point, if they and a terminator fit after \<open>used\<close> bytes of a \<open>z\<close>-byte buffer.\<close>

definition append_codepoint :: "nat \<Rightarrow> string \<Rightarrow> nat \<Rightarrow> string option" where
  "append_codepoint z out cp =
     (let bytes =
        (if cp \<le> 0x7F then [cp]
         else if cp \<le> 0x7FF then [0xC0 + cp div 64, 0x80 + cp mod 64]
         else if cp \<le> 0xFFFF then [0xE0 + cp div 4096, 0x80 + cp div 64 mod 64, 0x80 + cp mod 64]
         else [0xF0 + cp div 262144, 0x80 + cp div 4096 mod 64, 0x80 + cp div 64 mod 64,
               0x80 + cp mod 64])
      in if length out + length bytes + 1 > z then None else Some (out @ map char_of bytes))"

text \<open>The code point after \<^verbatim>\<open>\u\<close>, surrogate pairs joined.\<close>

definition read_unicode :: "string \<Rightarrow> (nat \<times> string) option" where
  "read_unicode p =
     (case hex4 p of
        None \<Rightarrow> None
      | Some (cp, r) \<Rightarrow>
          if 0xD800 \<le> cp \<and> cp \<le> 0xDBFF then
            (case strip_prefix [backslash, CHR ''u''] r of
               None \<Rightarrow> None
             | Some r1 \<Rightarrow>
                 (case hex4 r1 of
                    None \<Rightarrow> None
                  | Some (low, r2) \<Rightarrow>
                      if low < 0xDC00 \<or> low > 0xDFFF then None
                      else Some (0x10000 + (cp - 0xD800) * 1024 + (low - 0xDC00), r2)))
          else if 0xDC00 \<le> cp \<and> cp \<le> 0xDFFF then None
          else if cp < 32 then None else Some (cp, r))"

lemma read_unicode_shorter: "read_unicode p = Some (cp, r) \<Longrightarrow> length r < length p"
  by (auto simp: read_unicode_def strip_prefix_Some dest!: hex4_shorter split: option.splits if_splits)

function string_loop :: "nat \<Rightarrow> string \<Rightarrow> string \<Rightarrow> string option" where
  "string_loop z out s =
     (case s of
        [] \<Rightarrow> None
      | c # p \<Rightarrow>
          if c = quote then Some out
          else if c \<noteq> backslash then
            (if ord c < 32 \<or> length out + 2 > z then None else string_loop z (out @ [c]) p)
          else
            (case p of
               [] \<Rightarrow> None
             | e # p1 \<Rightarrow>
                 if e = CHR ''u'' then
                   (case read_unicode p1 of
                      None \<Rightarrow> None
                    | Some (cp, p2) \<Rightarrow>
                        (case append_codepoint z out cp of
                           None \<Rightarrow> None
                         | Some out' \<Rightarrow> string_loop z out' p2))
                 else
                   (case key_escape e of
                      None \<Rightarrow> None
                    | Some d \<Rightarrow>
                        (if ord d < 32 \<or> length out + 2 > z then None
                         else string_loop z (out @ [d]) p1))))"
  by pat_completeness auto
termination by (relation "measure (\<lambda>(z, out, s). length s)") (auto dest: read_unicode_shorter)

declare string_loop.simps [simp del]

definition json_get_string_at :: "nat \<Rightarrow> string \<Rightarrow> string option" where
  "json_get_string_at z p =
     (if z = 0 then None else Option.bind (expect quote p) (string_loop z []))"

definition json_get_string :: "nat \<Rightarrow> string \<Rightarrow> string \<Rightarrow> string option option" where
  "json_get_string z s k = map_option (json_get_string_at z) (find_key s k)"

definition json_get_string_top_level :: "nat \<Rightarrow> string \<Rightarrow> string \<Rightarrow> string option option" where
  "json_get_string_top_level z s k = map_option (json_get_string_at z) (find_top_level_key s k)"

section \<open>Members as spans\<close>

text \<open>
  The members of an object as the raw names and the texts of the values, at most \<open>cap\<close> of them;
  \<open>None\<close> is the -1 of the code.
\<close>

fun object_members_loop :: "nat \<Rightarrow> nat \<Rightarrow> (string \<times> string) list \<Rightarrow> string \<Rightarrow> (string \<times> string) list option" where
  "object_members_loop 0 cap out s = None"
| "object_members_loop (Suc n) cap out s =
     (let t = skip_ws s in
      case parse_string t of
        None \<Rightarrow> None
      | Some s1 \<Rightarrow>
          (let name = take (length t - length s1 - 2) (tl t) in
           case expect (CHR '':'') (skip_ws s1) of
             None \<Rightarrow> None
           | Some s2 \<Rightarrow>
               (let value = skip_ws s2 in
                case parse_value JSON_MAX_DEPTH value of
                  None \<Rightarrow> None
                | Some s3 \<Rightarrow>
                    (let out' = out @ [(name, take (length value - length s3) value)] in
                     case skip_ws s3 of
                       [] \<Rightarrow> None
                     | c # r \<Rightarrow>
                         if c = CHR ''}'' then
                           (if skip_ws r \<noteq> [] \<or> length out' > cap then None else Some out')
                         else if c \<noteq> CHR '','' then None
                         else
                           (let u = skip_ws r
                            in if u \<noteq> [] \<and> hd u = CHR ''}'' then None
                               else object_members_loop n cap out' u)))))"

definition json_object_members :: "nat \<Rightarrow> string \<Rightarrow> (string \<times> string) list option" where
  "json_object_members cap s =
     (case expect (CHR ''{'') (skip_ws s) of
        None \<Rightarrow> None
      | Some r \<Rightarrow>
          (let t = skip_ws r
           in if t \<noteq> [] \<and> hd t = CHR ''}'' then (if skip_ws (tl t) \<noteq> [] then None else Some [])
              else object_members_loop (length t) cap [] t))"

text \<open>
  The decoders of a span: the first argument named \<open>after\<close> is the text that follows the span in the
  buffer, which \<^verbatim>\<open>strtoll\<close> and the string reader can see.
\<close>

definition span_cursor :: "string \<Rightarrow> string option" where
  "span_cursor s = (let t = skip_ws s in if t = [] then None else Some t)"

definition span_exhausted :: "string \<Rightarrow> bool" where
  "span_exhausted s \<longleftrightarrow> skip_ws s = []"

definition span_is_single_value :: "string \<Rightarrow> bool" where
  "span_is_single_value t =
     (t \<noteq> [] \<and> (case parse_value JSON_MAX_DEPTH t of None \<Rightarrow> False | Some r \<Rightarrow> span_exhausted r))"

definition json_string_span :: "string \<Rightarrow> nat \<Rightarrow> string \<Rightarrow> string option" where
  "json_string_span after z s =
     (if z < 2 then None
      else
        (case span_cursor s of
           None \<Rightarrow> None
         | Some t \<Rightarrow>
             if hd t \<noteq> quote \<or> \<not> span_is_single_value t then None
             else json_get_string_at z (t @ after)))"

definition json_int_span :: "string \<Rightarrow> string \<Rightarrow> int option" where
  "json_int_span after s =
     (case span_cursor s of
        None \<Rightarrow> None
      | Some t \<Rightarrow>
          if hd t = quote then None
          else
            (case strto_int (t @ after) of
               None \<Rightarrow> None
             | Some (v, e) \<Rightarrow>
                 if snd (clamp 64 v) \<or> v > 2 ^ 31 - 1 \<or> v < - (2 ^ 31) \<or> \<not> span_is_single_value t
                 then None else Some v))"

definition json_bool_span :: "string \<Rightarrow> bool option" where
  "json_bool_span s =
     (case span_cursor s of
        None \<Rightarrow> None
      | Some t \<Rightarrow>
          (case bool_literal t of
             None \<Rightarrow> None
           | Some (v, r) \<Rightarrow> if span_exhausted r then Some v else None))"

section \<open>Writing\<close>

definition hex_char :: "nat \<Rightarrow> char" where
  "hex_char d = (if d < 10 then char_of (48 + d) else char_of (87 + d))"

definition escape_char :: "char \<Rightarrow> string" where
  "escape_char c =
     (if c = quote \<or> c = backslash then [backslash, c]
      else if ord c = 10 then [backslash, CHR ''n'']
      else if ord c = 13 then [backslash, CHR ''r'']
      else if ord c = 9 then [backslash, CHR ''t'']
      else if ord c \<ge> 32 then [c]
      else [backslash, CHR ''u'', CHR ''0'', CHR ''0'', hex_char (ord c div 16), hex_char (ord c mod 16)])"

fun escape_loop :: "nat \<Rightarrow> string \<Rightarrow> string \<Rightarrow> string" where
  "escape_loop z out [] = out"
| "escape_loop z out (c # cs) =
     (if length out + length (escape_char c) + 1 > z then out
      else escape_loop z (out @ escape_char c) cs)"

text \<open>The text left in a \<open>z\<close>-byte buffer, \<open>0 < z\<close> (the terminator is written even when \<open>z\<close> is 0).\<close>

definition json_escape :: "nat \<Rightarrow> string \<Rightarrow> string" where
  "json_escape z s = escape_loop z [] s"

end
