(* ===== verification/Json_Laws.thy ===== *)
theory Json_Laws
  imports Json "HOL-Library.Sublist"
begin

text \<open>
  What the JSON reader and writer guarantee: every parser leaves a proper end of the text it was
  given, so the loops end within their bounds; escaped text is one string token and reads back; the
  documents the daemons write are read as what was written; and where the reader falls short.
\<close>

section \<open>Consumption\<close>

lemma expect_Some: "expect x s = Some r \<longleftrightarrow> s = x # r"
  by (auto simp: expect_def split: list.splits if_splits)

lemma expect_Cons [simp]: "expect x (c # r) = (if c = x then Some r else None)"
  by (simp add: expect_def)

lemma expect_Nil [simp]: "expect x [] = None"
  by (simp add: expect_def)

lemma skip_ws_Nil [simp]: "skip_ws [] = []"
  by (simp add: skip_ws_def)

lemma skip_ws_Cons [simp]: "skip_ws (c # s) = (if ws c then skip_ws s else c # s)"
  by (simp add: skip_ws_def)

lemma skip_ws_suffix: "suffix (skip_ws s) s"
  by (simp add: skip_ws_def suffix_dropWhile)

lemma skip_ws_idem [simp]: "skip_ws (skip_ws s) = skip_ws s"
  by (induction s) auto

lemma skip_ws_length: "length (skip_ws s) \<le> length s"
  using skip_ws_suffix by (rule suffix_length_le)

lemma skip_ws_strict: "strict_suffix r s \<Longrightarrow> strict_suffix (skip_ws r) s"
  using skip_ws_suffix suffix_order.le_less_trans by blast

lemma strict_suffix_step: "strict_suffix (c # r) s \<Longrightarrow> strict_suffix r s"
  by (auto simp: strict_suffix_def suffix_def)

lemma skip_ws_eq_Cons: "skip_ws s = c # r \<Longrightarrow> strict_suffix r s"
  using skip_ws_suffix [of s] by (metis suffix_ConsD strict_suffix_def suffix_order.dual_order.strict_trans1 suffix_order.eq_iff list.distinct(1) not_Cons_self suffix_Cons)

lemma strip_prefix_suffix: "strip_prefix p s = Some r \<Longrightarrow> suffix r s"
  by (auto simp: strip_prefix_Some suffix_def)

lemma strict_suffix_append: "p \<noteq> [] \<Longrightarrow> strict_suffix r (p @ r)"
  by (auto simp: strict_suffix_def suffix_def)

text \<open>The four ways a string body goes on, and the induction over them.\<close>

lemma string_body_cases:
  assumes "string_body s = Some r"
  obtains (stop) "s = quote # r"
  | (plain) c t where "s = c # t" "c \<noteq> quote" "\<not> ord c < 32" "c \<noteq> backslash" "string_body t = Some r"
  | (escape) e t where "s = backslash # e # t" "e \<noteq> CHR ''u''" "escapable e" "string_body t = Some r"
  | (unicode) a b c d t where "s = backslash # CHR ''u'' # a # b # c # d # t"
      "hex a" "hex b" "hex c" "hex d" "string_body t = Some r"
  using assms by (cases s) (auto split: if_splits list.splits)

lemma string_body_induct [consumes 1, case_names stop plain escape unicode]:
  assumes "string_body s = Some r"
    and "P (quote # r)"
    and "\<And>c t. c \<noteq> quote \<Longrightarrow> \<not> ord c < 32 \<Longrightarrow> c \<noteq> backslash \<Longrightarrow> string_body t = Some r \<Longrightarrow> P t \<Longrightarrow> P (c # t)"
    and "\<And>e t. e \<noteq> CHR ''u'' \<Longrightarrow> escapable e \<Longrightarrow> string_body t = Some r \<Longrightarrow> P t \<Longrightarrow> P (backslash # e # t)"
    and "\<And>a b c d t. hex a \<Longrightarrow> hex b \<Longrightarrow> hex c \<Longrightarrow> hex d \<Longrightarrow> string_body t = Some r \<Longrightarrow> P t
          \<Longrightarrow> P (backslash # CHR ''u'' # a # b # c # d # t)"
  shows "P s"
  using assms(1)
proof (induction s rule: length_induct)
  case (1 s)
  from 1(2) show ?case by (cases rule: string_body_cases) (use 1(1) assms(2-) in auto)
qed

lemma strict_suffix_Cons: "strict_suffix r s \<Longrightarrow> strict_suffix r (c # s)"
  by (auto simp: strict_suffix_def suffix_def)

lemma strict_suffix_iff: "strict_suffix r (c # s) \<longleftrightarrow> suffix r s"
  by (auto simp: strict_suffix_def suffix_def Cons_eq_append_conv)

lemma strict_suffix_self: "strict_suffix r (c # r)"
  by (simp add: strict_suffix_iff)

lemma suffix_Cons_strict: "suffix r s \<Longrightarrow> strict_suffix r (c # s)"
  by (simp add: strict_suffix_iff)

lemma string_body_suffix: "string_body s = Some r \<Longrightarrow> strict_suffix r s"
  by (induction rule: string_body_induct)
     (rule strict_suffix_self | intro suffix_Cons_strict suffix_ConsI, erule suffix_order.less_imp_le)+

lemma parse_string_suffix: "parse_string s = Some r \<Longrightarrow> strict_suffix r s"
  by (auto simp: parse_string_def bind_eq_Some_conv expect_Some dest!: string_body_suffix
      intro: strict_suffix_Cons)

lemma digits1_suffix: "digits1 s = Some r \<Longrightarrow> strict_suffix r s"
proof (cases s)
  case (Cons c t)
  assume "digits1 s = Some r"
  then have "r = dropWhile isdigit t" using Cons by (auto simp: digits1_def split: if_splits)
  then have "suffix r t" by (simp add: suffix_dropWhile)
  then show ?thesis using Cons by (auto simp: strict_suffix_def suffix_def)
qed (simp add: digits1_def)

lemma suffix_tl_strict: "s \<noteq> [] \<Longrightarrow> strict_suffix r (tl s) \<Longrightarrow> strict_suffix r s"
  by (cases s) (auto simp: strict_suffix_def suffix_def)

lemma number_int_suffix: "number_int s = Some r \<Longrightarrow> strict_suffix r s"
  by (cases s) (auto simp: number_int_def digits1_suffix strict_suffix_def suffix_def split: if_splits dest!: digits1_suffix)

lemma number_frac_suffix: "number_frac s = Some r \<Longrightarrow> suffix r s"
  by (cases s) (auto simp: number_frac_def strict_suffix_def suffix_def split: if_splits dest!: digits1_suffix)

lemma number_exp_suffix: "number_exp s = Some r \<Longrightarrow> suffix r s"
  by (cases s; cases "tl s")
     (auto simp: number_exp_def Let_def strict_suffix_def suffix_def split: if_splits dest!: digits1_suffix)

lemma parse_number_suffix: "parse_number s = Some r \<Longrightarrow> strict_suffix r s"
proof -
  assume "parse_number s = Some r"
  then obtain a b where abc: "number_int (if s \<noteq> [] \<and> hd s = CHR ''-'' then tl s else s) = Some a"
      "number_frac a = Some b" "number_exp b = Some r"
    by (auto simp: parse_number_def Let_def bind_eq_Some_conv)
  have "suffix r a" using abc(2,3) number_frac_suffix number_exp_suffix suffix_order.trans by blast
  then have "strict_suffix r (if s \<noteq> [] \<and> hd s = CHR ''-'' then tl s else s)"
    using number_int_suffix [OF abc(1)] suffix_order.le_less_trans by blast
  then show ?thesis using suffix_tl_strict by (metis (mono_tags, lifting))
qed

text \<open>The separator between two members or elements, and the text from the next one.\<close>

definition separator :: "char \<Rightarrow> string \<Rightarrow> (string + string) option" where
  "separator stop s =
     (case skip_ws s of
        [] \<Rightarrow> None
      | c # r \<Rightarrow>
          if c = stop then Some (Inl r)
          else if c \<noteq> CHR '','' then None
          else (let t = skip_ws r in if t = [] \<or> hd t = stop then None else Some (Inr t)))"

lemma separator_suffix:
  "separator stop s = Some (Inl r) \<Longrightarrow> strict_suffix r s"
  "separator stop s = Some (Inr r) \<Longrightarrow> strict_suffix r s"
  by (auto simp: separator_def Let_def split: list.splits if_splits dest!: skip_ws_eq_Cons intro: skip_ws_strict)

definition member :: "(string \<Rightarrow> string option) \<Rightarrow> string \<Rightarrow> string option" where
  "member pv s =
     Option.bind (Option.bind (Option.bind (parse_string s) (\<lambda>s1. expect (CHR '':'') (skip_ws s1))) pv) Some"

lemma members_loop_Suc:
  "members_loop (Suc n) pv s =
     (case Option.bind (member pv s) (separator (CHR ''}'')) of
        None \<Rightarrow> None | Some (Inl r) \<Rightarrow> Some r | Some (Inr t) \<Rightarrow> members_loop n pv t)"
  by (auto simp: member_def separator_def Let_def split: option.splits list.splits)

lemma elements_loop_Suc:
  "elements_loop (Suc n) pv s =
     (case Option.bind (pv s) (separator (CHR '']'')) of
        None \<Rightarrow> None | Some (Inl r) \<Rightarrow> Some r | Some (Inr t) \<Rightarrow> elements_loop n pv t)"
  by (auto simp: separator_def Let_def split: option.splits list.splits)

declare members_loop.simps(2) [simp del] elements_loop.simps(2) [simp del]

text \<open>A loop that reads an item and a separator in turn, of which both loops are instances.\<close>

fun items :: "nat \<Rightarrow> (string \<Rightarrow> string option) \<Rightarrow> char \<Rightarrow> string \<Rightarrow> string option" where
  "items 0 p stop s = None"
| "items (Suc n) p stop s =
     (case Option.bind (p s) (separator stop) of
        None \<Rightarrow> None | Some (Inl r) \<Rightarrow> Some r | Some (Inr t) \<Rightarrow> items n p stop t)"

lemma members_loop_items: "members_loop n pv s = items n (member pv) (CHR ''}'') s"
  by (induction n arbitrary: s) (auto simp: members_loop_Suc split: option.splits sum.splits)

lemma elements_loop_items: "elements_loop n pv s = items n pv (CHR '']'') s"
  by (induction n arbitrary: s) (auto simp: elements_loop_Suc split: option.splits sum.splits)

text \<open>
  The contract of a parser: it leaves a proper end of its text.  Whatever loop is built of such a
  parser keeps the contract and ends within the length of the text.
\<close>

locale reader =
  fixes p :: "string \<Rightarrow> string option"
  assumes consumes: "p s = Some r \<Longrightarrow> strict_suffix r s"
begin

lemma items_suffix: "items n p stop s = Some r \<Longrightarrow> strict_suffix r s"
proof (induction n arbitrary: s)
  case (Suc n)
  then obtain t where t: "p s = Some t" by (cases "p s") auto
  have ts: "strict_suffix t s" using t by (rule consumes)
  show ?case
  proof (cases "separator stop t")
    case (Some x)
    show ?thesis
    proof (cases x)
      case (Inl u)
      then have "u = r" using Suc.prems t Some by simp
      then show ?thesis using Some Inl separator_suffix(1) ts suffix_order.less_trans by blast
    next
      case (Inr u)
      then have "strict_suffix r u" using Suc t Some by simp
      then show ?thesis using Some Inr separator_suffix(2) ts suffix_order.less_trans by blast
    qed
  qed (use Suc.prems t in simp)
qed simp

lemma items_fuel: "length s \<le> n \<Longrightarrow> length s \<le> m \<Longrightarrow> items n p stop s = items m p stop s"
proof (induction n arbitrary: m s)
  case 0
  then have "p s = None"
    using consumes [of s] by (cases "p s") (auto simp: strict_suffix_def)
  then show ?case by (cases m) simp_all
next
  case (Suc n)
  show ?case
  proof (cases m)
    case 0
    then have "p s = None"
      using Suc.prems consumes [of s] by (cases "p s") (auto simp: strict_suffix_def)
    then show ?thesis using 0 by simp
  next
    case (Suc m')
    have "items n p stop u = items m' p stop u"
      if t: "p s = Some t" and u: "separator stop t = Some (Inr u)" for t u
    proof -
      have "strict_suffix u s"
        using consumes [OF t] separator_suffix(2) [OF u] suffix_order.less_trans by blast
      then have "length u < length s" by (rule suffix_length_less)
      then show ?thesis using Suc.IH [of u m'] Suc.prems \<open>m = Suc m'\<close> by simp
    qed
    then show ?thesis using Suc by (auto split: option.splits sum.splits simp: bind_eq_Some_conv)
  qed
qed

lemma member_consumes:
  assumes "member p s = Some r" shows "strict_suffix r s"
proof -
  obtain a b where ab: "parse_string s = Some a" "skip_ws a = CHR '':'' # b" "p b = Some r"
    using assms by (auto simp: member_def bind_eq_Some_conv expect_Some)
  have "strict_suffix r b" using ab(3) by (rule consumes)
  moreover have "strict_suffix b a" using ab(2) by (rule skip_ws_eq_Cons)
  ultimately show ?thesis using parse_string_suffix [OF ab(1)] suffix_order.less_trans by blast
qed

lemma reader_member: "reader (member p)"
  by unfold_locales (rule member_consumes)

end

lemma object_body_suffix: "reader pv \<Longrightarrow> object_body pv s = Some r \<Longrightarrow> suffix r s"
  using skip_ws_suffix [of s] reader.items_suffix [OF reader.reader_member]
  by (auto simp: object_body_def Let_def members_loop_items split: if_splits)
     (metis strict_suffix_step skip_ws_eq_Cons list.collapse suffix_order.less_imp_le suffix_order.trans)+

lemma array_body_suffix: "reader pv \<Longrightarrow> array_body pv s = Some r \<Longrightarrow> suffix r s"
  using skip_ws_suffix [of s] reader.items_suffix
  by (auto simp: array_body_def Let_def elements_loop_items split: if_splits)
     (metis strict_suffix_step skip_ws_eq_Cons list.collapse suffix_order.less_imp_le suffix_order.trans)+

lemma reader_parse_value: "reader (parse_value k)"
proof (induction k rule: less_induct)
  case (less k)
  have "strict_suffix r s" if r: "parse_value k s = Some r" for s r
  proof -
    obtain c t where ct: "skip_ws s = c # t" using r by (cases "skip_ws s") (auto simp: parse_value.simps [of k s])
    have s: "suffix (c # t) s" using skip_ws_suffix [of s] ct by simp
    have sub: "strict_suffix r (c # t)" if "k = Suc d"
        "object_body (parse_value d) t = Some r \<or> array_body (parse_value d) t = Some r" for d
      using that less [of d] object_body_suffix array_body_suffix by (blast intro: suffix_Cons_strict)
    have "strict_suffix r (c # t)"
      using r ct unfolding parse_value.simps [of k s]
      by (auto split: if_splits nat.splits dest: parse_string_suffix parse_number_suffix
          sub [OF _ disjI1] sub [OF _ disjI2] simp: strip_prefix_Some strict_suffix_iff suffix_Cons)
    then show ?thesis using s suffix_order.less_le_trans by blast
  qed
  then show ?case by (simp add: reader_def)
qed

interpretation value_reader: reader "parse_value k" for k
  by (rule reader_parse_value)

interpretation member_reader: reader "member (parse_value k)" for k
  by (rule value_reader.reader_member)

interpretation string_reader: reader parse_string
  by unfold_locales (rule parse_string_suffix)



section \<open>Escaped text\<close>

definition escaped :: "string \<Rightarrow> string" where
  "escaped s = concat (map escape_char s)"

lemma escaped_simps [simp]: "escaped [] = []" "escaped (c # s) = escape_char c @ escaped s"
  by (simp_all add: escaped_def)

lemma hex_char_hex: "d < 16 \<Longrightarrow> hex (hex_char d)"
  by (auto simp: hex_def hex_char_def)

lemma hex_char_value: "d < 16 \<Longrightarrow> hex_value (hex_char d) = Some d"
  by (auto simp: hex_value_def hex_char_def)

lemma hex_zero: "hex (CHR ''0'')" "hex_value (CHR ''0'') = Some 0"
  by (simp_all add: hex_def hex_value_def)

text \<open>The three forms a character is written in.\<close>

lemma escape_char_cases:
  obtains (plain) "escape_char c = [c]" "32 \<le> ord c" "c \<noteq> quote" "c \<noteq> backslash"
  | (short) e where "escape_char c = [backslash, e]" "key_escape e = Some c" "e \<noteq> CHR ''u''" "escapable e"
  | (code) "escape_char c = [backslash, CHR ''u'', CHR ''0'', CHR ''0'', hex_char (ord c div 16),
      hex_char (ord c mod 16)]" "ord c < 32"
proof -
  consider "c = quote \<or> c = backslash" | "c = CHR 0x0A" | "c = CHR 0x0D" | "c = CHR 0x09"
    | "32 \<le> ord c" "c \<noteq> quote" "c \<noteq> backslash"
    | "ord c < 32" "ord c \<noteq> 10" "ord c \<noteq> 13" "ord c \<noteq> 9" "c \<noteq> quote" "c \<noteq> backslash"
    by (simp only: char_eq_ord [of c]) force
  then show thesis
    by cases (use that in \<open>auto simp: escape_char_def key_escape_def escapable_def split: if_splits\<close>)
qed

lemma string_body_escape [simp]: "string_body (escape_char c @ t) = string_body t"
  by (cases c rule: escape_char_cases) (simp_all add: hex_zero hex_char_hex)

lemma string_body_escaped [simp]: "string_body (escaped s @ t) = string_body t"
  by (induction s) simp_all

lemma escape_loop_prefix: "\<exists>n. escape_loop z out s = out @ escaped (take n s)"
proof (induction s arbitrary: out)
  case (Cons c s)
  show ?case
  proof (cases "length out + length (escape_char c) + 1 > z")
    case True then show ?thesis by (auto intro: exI [of _ 0])
  next
    case False
    obtain n where "escape_loop z (out @ escape_char c) s = (out @ escape_char c) @ escaped (take n s)"
      using Cons by blast
    then show ?thesis using False by (intro exI [of _ "Suc n"]) simp
  qed
qed simp

lemma escape_loop_fits: "length out + length (escaped s) < z \<Longrightarrow> escape_loop z out s = out @ escaped s"
  by (induction s arbitrary: out) auto

lemma escape_loop_bound: "length out < z \<Longrightarrow> length (escape_loop z out s) < z"
  by (induction s arbitrary: out) auto

lemma json_escape_fits: "length (escaped s) < z \<Longrightarrow> json_escape z s = escaped s"
  using escape_loop_fits [of "[]" s z] by (simp add: json_escape_def)

lemma escape_char_length: "0 < length (escape_char c) \<and> length (escape_char c) \<le> 6"
  by (simp add: escape_char_def)

lemma escaped_length: "length (escaped s) \<le> 6 * length s"
  by (induction s) (use escape_char_length in \<open>auto intro: add_mono\<close>)

lemma parse_string_escaped [simp]: "parse_string (quote # escaped s @ quote # rest) = Some rest"
  by (simp add: parse_string_def)

text \<open>
  Whatever text is escaped and into however small a buffer, the escaped text stays within the
  buffer and, between quotes, is exactly one JSON string: nothing in the text can end the string
  early, and cutting it short never leaves half an escape.
\<close>

theorem json_escape_is_one_string:
  "parse_string (quote # json_escape z s @ quote # rest) = Some rest \<and>
   (z = 0 \<or> length (json_escape z s) < z)"
proof -
  obtain n where "json_escape z s = escaped (take n s)"
    using escape_loop_prefix [of z "[]" s] by (auto simp: json_escape_def)
  then show ?thesis using escape_loop_bound [of "[]" z s] by (cases "z = 0") (simp_all add: json_escape_def)
qed

lemma hex4_control: "ord c < 32 \<Longrightarrow>
  hex4 (CHR ''0'' # CHR ''0'' # hex_char (ord c div 16) # hex_char (ord c mod 16) # t) = Some (ord c, t)"
  by (simp add: hex4_def hex_zero hex_char_value)

lemma string_loop_Cons:
  "string_loop z out (c # p) =
     (if c = quote then Some out
      else if c \<noteq> backslash then
        (if ord c < 32 \<or> length out + 2 > z then None else string_loop z (out @ [c]) p)
      else
        (case p of
           [] \<Rightarrow> None
         | e # p1 \<Rightarrow>
             if e = CHR ''u'' then
               (case read_unicode p1 of
                  None \<Rightarrow> None
                | Some (cp, p2) \<Rightarrow>
                    (case append_codepoint z out cp of None \<Rightarrow> None | Some out' \<Rightarrow> string_loop z out' p2))
             else
               (case key_escape e of
                  None \<Rightarrow> None
                | Some d \<Rightarrow>
                    (if ord d < 32 \<or> length out + 2 > z then None else string_loop z (out @ [d]) p1))))"
  by (subst string_loop.simps) simp

lemma string_loop_escape:
  "string_loop z out (escape_char c @ t) =
     (if ord c < 32 \<or> length out + 2 > z then None else string_loop z (out @ [c]) t)"
proof (cases c rule: escape_char_cases)
  case code
  then show ?thesis
    by (simp add: string_loop_Cons read_unicode_def hex4_control)
qed (simp_all add: string_loop_Cons)

lemma string_loop_escaped:
  "string_loop z out (escaped s @ quote # rest) =
     (if (\<forall>c\<in>set s. 32 \<le> ord c) \<and> (s = [] \<or> length out + length s < z) then Some (out @ s) else None)"
proof (induction s arbitrary: out)
  case (Cons c s)
  show ?case
    by (auto simp: string_loop_escape Cons.IH)
qed (simp add: string_loop_Cons)

text \<open>
  A text that was escaped whole reads back as itself when it has no control character and fits
  the buffer with its terminator; otherwise it is refused, never cut or altered.
\<close>

theorem json_text_round_trip:
  assumes "6 * length s < n"
  shows "json_get_string_at z (quote # json_escape n s @ quote # rest) =
    (if (\<forall>c\<in>set s. 32 \<le> ord c) \<and> length s < z then Some s else None)"
proof -
  have "json_escape n s = escaped s" using assms escaped_length [of s] by (intro json_escape_fits) simp
  then show ?thesis
    using string_loop_escaped [of z "[]" s rest] by (cases "s = []") (auto simp: json_get_string_at_def string_loop_Cons)
qed

theorem json_text_round_trip_witness:
  "json_get_string_at 6 (quote # json_escape 13 [quote, CHR ''a''] @ quote # ''}'') = Some [quote, CHR ''a'']"
  using json_text_round_trip [of "[quote, CHR ''a'']" 13 6 "''}''"] by simp

text \<open>
  A text with a newline, a tab or any other control character, escaped as the writer does, is
  refused by the reader for every buffer, although the writer gives those characters escapes of
  their own: no such text can pass between two daemons.
\<close>

theorem json_control_text_unreadable:
  assumes "c \<in> set s" "ord c < 32" "6 * length s < n"
  shows "json_get_string_at z (quote # json_escape n s @ quote # rest) = None \<and>
    parse_string (quote # json_escape n s @ quote # rest) = Some rest"
proof -
  have "json_escape n s = escaped s" using assms escaped_length [of s] by (intro json_escape_fits) simp
  then show ?thesis using assms by (auto simp: json_get_string_at_def string_loop_escaped)
qed

theorem json_control_text_unreadable_witness:
  "json_get_string_at 99 (quote # json_escape 99 [CHR 0x0A] @ quote # ''}'') = None"
  using json_control_text_unreadable [of "CHR 0x0A" "[CHR 0x0A]" 99 99 "''}''"] by simp

section \<open>Spans\<close>

lemma parse_number_digits:
  assumes "ds \<noteq> []" "\<forall>c\<in>set ds. isdigit c" "hd ds \<noteq> CHR ''0''" "rest = [] \<or> \<not> isdigit (hd rest)"
  shows "number_int (ds @ rest) = Some rest"
  using assms takeWhile_all_append [of ds isdigit rest] by (cases ds) (auto simp: number_int_def digits1_def)

lemma char_of_48 [simp]: "char_of (48::nat) = CHR ''0''"
  by (simp add: char_of_def bit_iff_odd)

lemma nat_digits_hd: "hd (nat_digits n) = CHR ''0'' \<longleftrightarrow> n = 0"
proof (induction n rule: nat_digits.induct)
  case (1 n)
  show ?case
  proof (cases "n < 10")
    case True
    then have "hd (nat_digits n) = char_of (48 + n)" by (subst nat_digits.simps) simp
    moreover have "char_of (48 + n) = CHR ''0'' \<longleftrightarrow> ord (char_of (48 + n)) = ord (CHR ''0'')"
      by (rule char_eq_ord)
    ultimately show ?thesis using True by simp
  next
    case False
    then show ?thesis using 1 by (subst nat_digits.simps) auto
  qed
qed

lemma number_int_digits:
  "rest = [] \<or> \<not> isdigit (hd rest) \<Longrightarrow> number_int (nat_digits n @ rest) = Some rest"
proof (cases "n = 0")
  case True
  assume "rest = [] \<or> \<not> isdigit (hd rest)"
  moreover have "nat_digits 0 = ''0''" by (subst nat_digits.simps) simp
  ultimately show ?thesis using True by (simp add: number_int_def)
next
  case False
  assume "rest = [] \<or> \<not> isdigit (hd rest)"
  then show ?thesis using nat_digits_digits [of n] nat_digits_hd [of n] False by (intro parse_number_digits) auto
qed

lemma isdigit_not: "isdigit c \<Longrightarrow> \<not> ws c \<and> c \<noteq> quote \<and> c \<noteq> CHR ''{'' \<and> c \<noteq> CHR ''['' \<and> c \<noteq> CHR ''t''
    \<and> c \<noteq> CHR ''f'' \<and> c \<noteq> CHR ''n'' \<and> c \<noteq> CHR ''-'' \<and> c \<noteq> CHR '']''"
  by (auto simp: isdigit_def ws_def)

lemma int_digits_Cons: "\<exists>c cs. int_digits i = c # cs \<and> (isdigit c \<or> c = CHR ''-'')"
  using nat_digits_digits [of "nat i"] nat_digits_nonempty [of "nat i"]
  by (cases "nat_digits (nat i)") (auto simp: int_digits_def)

lemma parse_number_int:
  assumes "t = [] \<or> \<not> isdigit (hd t)"
  shows "parse_number (int_digits i @ t) = Option.bind (number_frac t) number_exp"
proof (cases "i < 0")
  case True
  then show ?thesis using number_int_digits [OF assms] by (simp add: parse_number_def int_digits_def Let_def)
next
  case False
  obtain c cs where c: "nat_digits (nat i) = c # cs" "isdigit c"
    using nat_digits_digits [of "nat i"] nat_digits_nonempty [of "nat i"] by (cases "nat_digits (nat i)") auto
  then show ?thesis
    using False number_int_digits [OF assms, of "nat i"] isdigit_not [OF c(2)]
    by (simp add: parse_number_def int_digits_def Let_def)
qed

lemma not_ws [simp]: "\<not> ws (CHR ''-'')" "\<not> ws quote" "\<not> ws (CHR ''{'')" "\<not> ws (CHR ''}'')" "\<not> ws (CHR ''['')"
    "\<not> ws (CHR '']'')" "\<not> ws (CHR '','')" "\<not> ws (CHR '':'')" "\<not> ws (CHR ''t'')" "\<not> ws (CHR ''f'')" "\<not> ws (CHR ''n'')"
  by (simp_all add: ws_def)

lemma parse_value_number: "isdigit c \<or> c = CHR ''-'' \<Longrightarrow> parse_value k (c # r) = parse_number (c # r)"
proof -
  assume "isdigit c \<or> c = CHR ''-''"
  then have c: "\<not> ws c" "c \<noteq> quote" "c \<noteq> CHR ''{''" "c \<noteq> CHR ''[''" "c \<noteq> CHR ''t''" "c \<noteq> CHR ''f''" "c \<noteq> CHR ''n''"
    using isdigit_not [of c] by auto
  show ?thesis by (subst parse_value.simps) (simp add: c)
qed

lemma parse_value_int:
  assumes "t = [] \<or> \<not> isdigit (hd t)"
  shows "parse_value k (int_digits i @ t) = Option.bind (number_frac t) number_exp"
proof -
  obtain c cs where c: "int_digits i = c # cs" "isdigit c \<or> c = CHR ''-''" using int_digits_Cons by blast
  then show ?thesis using parse_number_int [OF assms, of i] parse_value_number [of c k "cs @ t"] by simp
qed

lemma span_cursor_int: "span_cursor (int_digits i @ t) = Some (int_digits i @ t)"
proof -
  obtain c cs where c: "int_digits i = c # cs" "isdigit c \<or> c = CHR ''-''" using int_digits_Cons by blast
  then show ?thesis using c isdigit_not [of c] by (auto simp: span_cursor_def)
qed

lemma int_span_parts:
  assumes "t @ after = [] \<or> \<not> isdigit (hd (t @ after))" "- (2 ^ 31) \<le> i" "i < 2 ^ 31"
  shows "json_int_span after (int_digits i @ t) =
    (if span_is_single_value (int_digits i @ t) then Some i else None)"
proof -
  obtain c cs where c: "int_digits i = c # cs" "isdigit c \<or> c = CHR ''-''" using int_digits_Cons by blast
  have "hd (int_digits i @ t) \<noteq> quote" using c isdigit_not [of c] by auto
  moreover have "snd (clamp 64 i) = False" using assms by (simp add: clamp_def)
  ultimately show ?thesis
    using strto_int_digits [OF assms(1), of i] assms(2,3) by (simp add: json_int_span_def span_cursor_int)
qed

lemma single_value_int:
  "t = [] \<or> \<not> isdigit (hd t) \<Longrightarrow> Option.bind (number_frac t) number_exp = Some []
   \<Longrightarrow> span_is_single_value (int_digits i @ t)"
  using parse_value_int [of t JSON_MAX_DEPTH i] int_digits_Cons [of i]
  by (auto simp: span_is_single_value_def span_exhausted_def)

text \<open>
  A printed integer in the range of an int is read back from its span, provided the buffer does
  not go on with a digit right after the span.
\<close>

theorem json_int_span_round_trip:
  assumes "after = [] \<or> \<not> isdigit (hd after)" "- (2 ^ 31) \<le> i" "i < 2 ^ 31"
  shows "json_int_span after (int_digits i) = Some i"
  using int_span_parts [of "[]" after i] single_value_int [of "[]" i] assms
  by (simp add: number_frac_def number_exp_def)

theorem json_int_span_round_trip_witness: "json_int_span '',1'' (int_digits (- 42)) = Some (- 42)"
  using json_int_span_round_trip [of "'',1''" "- 42"] by (simp add: isdigit_def)

lemma isdigit_dot: "\<not> isdigit (CHR ''.'')"
  by (simp add: isdigit_def)

text \<open>
  A number with a fraction is accepted as an integer and silently cut off, although the comment
  in the decoder says that fractions are refused: the value parser it relies on to refuse them
  accepts every JSON number.
\<close>

theorem json_int_span_truncates_fractions:
  assumes "f \<noteq> []" "\<forall>c\<in>set f. isdigit c" "- (2 ^ 31) \<le> i" "i < 2 ^ 31"
  shows "json_int_span after (int_digits i @ CHR ''.'' # f) = Some i"
proof -
  have "isdigit (hd f)" "dropWhile isdigit f = []" using assms by (auto simp: dropWhile_eq_Nil_conv)
  then have "Option.bind (number_frac (CHR ''.'' # f)) number_exp = Some []"
    using assms(1) by (simp add: number_frac_def digits1_def number_exp_def)
  then show ?thesis
    using int_span_parts [of "CHR ''.'' # f" after i] single_value_int [of "CHR ''.'' # f" i] assms isdigit_dot
    by simp
qed

theorem json_int_span_truncates_fractions_witness: "json_int_span ''}'' (int_digits 2 @ ''.9'') = Some 2"
  using json_int_span_truncates_fractions [of "''9''" 2 "''}''"] by (simp add: isdigit_def)

lemma hex4_hex:
  assumes "hex a" "hex b" "hex c" "hex d"
  obtains v where "\<And>t. hex4 (a # b # c # d # t) = Some (v, t)"
proof -
  have "\<exists>v. hex_value x = Some v" if "hex x" for x using that by (auto simp: hex_def hex_value_def)
  then obtain va vb vc vd where "hex_value a = Some va" "hex_value b = Some vb" "hex_value c = Some vc"
      "hex_value d = Some vd" using assms by metis
  then show thesis using that by (simp add: hex4_def)
qed

text \<open>The text a string span was read from may be followed by anything.\<close>

lemma string_loop_local:
  "string_body s = Some r \<Longrightarrow> string_loop z out (s @ x) = string_loop z out (s @ y)"
proof (induction s arbitrary: out rule: length_induct)
  case (1 s)
  have IH: "string_loop z out' (t @ x) = string_loop z out' (t @ y)"
    if "length t < length s" "string_body t = Some r" for t out' using 1(1) that by blast
  from 1(2) show ?case
  proof (cases rule: string_body_cases)
    case stop then show ?thesis by (simp add: string_loop_Cons)
  next
    case (plain c t) then show ?thesis using IH by (simp add: string_loop_Cons)
  next
    case (escape e t) then show ?thesis using IH by (simp add: string_loop_Cons split: option.split)
  next
    case (unicode a b c d t)
    obtain v where v: "\<And>t. hex4 (a # b # c # d # t) = Some (v, t)" using unicode by (auto elim: hex4_hex)
    have one: "string_loop z out' (t @ x) = string_loop z out' (t @ y)" for out' using IH unicode by simp
    show ?thesis
    proof (cases "\<exists>e f g h u. t = backslash # CHR ''u'' # e # f # g # h # u")
      case True
      then obtain e f g h u where t: "t = backslash # CHR ''u'' # e # f # g # h # u" by blast
      then have hs: "hex e" "hex f" "hex g" "hex h" "string_body u = Some r" using unicode(6) by (auto split: if_splits)
      then obtain w where w: "\<And>t. hex4 (e # f # g # h # t) = Some (w, t)" by (auto elim: hex4_hex)
      have two: "string_loop z out' (u @ x) = string_loop z out' (u @ y)" for out'
        using IH [of u] hs(5) unicode(1) t by simp
      show ?thesis
        using one two unicode(1) t
        by (auto simp: string_loop_Cons [of z out] read_unicode_def v w split: option.split)
    next
      case False
      then have no: "strip_prefix [backslash, CHR ''u''] (t @ w) = None" for w
        using False by - (use unicode(6) in \<open>cases rule: string_body_cases\<close>, auto)
      show ?thesis
        using one unicode(1)
        by (auto simp: string_loop_Cons [of z out] read_unicode_def v no split: option.split)
    qed
  qed
qed

text \<open>
  What a string span decodes to does not depend on what follows the span in the buffer, whatever
  the span holds.
\<close>

theorem json_string_span_local: "json_string_span a z s = json_string_span b z s"
proof -
  have "json_get_string_at z (t @ a) = json_get_string_at z (t @ b)"
    if v: "span_is_single_value t" and q: "hd t = quote" for t
  proof -
    have "t \<noteq> []" using v by (simp add: span_is_single_value_def)
    then obtain u where t: "t = quote # u" using q by (cases t) auto
    obtain r where "string_body u = Some r"
      using v t parse_value.simps [of JSON_MAX_DEPTH t]
      by (auto simp: span_is_single_value_def parse_string_def split: option.splits)
    then show ?thesis using t string_loop_local by (auto simp: json_get_string_at_def)
  qed
  then show ?thesis by (auto simp: json_string_span_def split: option.split)
qed

end
