(* ===== verification/Json_Documents.thy ===== *)
theory Json_Documents
  imports Json_Laws
begin

text \<open>
  Documents as the daemons write them (\<^verbatim>\<open>%d\<close> for integers, escaped text between quotes, no spaces)
  and what the readers of \<^verbatim>\<open>src/json.c\<close> make of them: the value parser accepts exactly the documents
  within the depth limit, and each lookup returns what the document says.
\<close>

section \<open>Documents and their text\<close>

datatype json_doc =
    JNull
  | JBool bool
  | JInt int
  | JStr string
  | JArr "json_doc list"
  | JObj "(string \<times> json_doc) list"

fun join :: "string list \<Rightarrow> string" where
  "join [] = []"
| "join [x] = x"
| "join (x # y # xs) = x @ CHR '','' # join (y # xs)"

definition quoted :: "string \<Rightarrow> string" where
  "quoted s = quote # escaped s @ [quote]"

fun render :: "json_doc \<Rightarrow> string" where
  "render JNull = ''null''"
| "render (JBool b) = (if b then ''true'' else ''false'')"
| "render (JInt i) = int_digits i"
| "render (JStr s) = quoted s"
| "render (JArr vs) = CHR ''['' # join (map render vs) @ '']''"
| "render (JObj ms) = CHR ''{'' # join (map (\<lambda>(a, v). quoted a @ CHR '':'' # render v) ms) @ ''}''"

fun nesting :: "json_doc \<Rightarrow> nat" where
  "nesting (JArr vs) = Suc (foldr max (map nesting vs) 0)"
| "nesting (JObj ms) = Suc (foldr max (map (\<lambda>(a, v). nesting v) ms) 0)"
| "nesting _ = 0"

definition member_text :: "string \<times> json_doc \<Rightarrow> string" where
  "member_text m = quoted (fst m) @ CHR '':'' # render (snd m)"

lemma render_JObj: "render (JObj ms) = CHR ''{'' # join (map member_text ms) @ ''}''"
  by (simp add: member_text_def case_prod_beta cong: map_cong)

lemma foldr_max: "foldr max ns 0 \<le> (k::nat) \<longleftrightarrow> (\<forall>n\<in>set ns. n \<le> k)"
  by (induction ns) auto

lemma nesting_JArr: "nesting (JArr vs) \<le> Suc k \<longleftrightarrow> (\<forall>v\<in>set vs. nesting v \<le> k)"
  by (simp add: foldr_max)

lemma nesting_JObj: "nesting (JObj ms) \<le> Suc k \<longleftrightarrow> (\<forall>m\<in>set ms. nesting (snd m) \<le> k)"
  by (auto simp: foldr_max)

lemma join_Cons: "xs \<noteq> [] \<Longrightarrow> join (x # xs) = x @ CHR '','' # join xs"
  by (cases xs) simp_all

lemma join_length: "length xs \<le> Suc (length (join xs))"
  by (induction xs rule: join.induct) auto

text \<open>A value or member begins with no space, comma or closing bracket.\<close>

definition starts :: "string \<Rightarrow> bool" where
  "starts s \<longleftrightarrow> s \<noteq> [] \<and> \<not> ws (hd s) \<and> hd s \<noteq> CHR '','' \<and> hd s \<noteq> CHR ''}'' \<and> hd s \<noteq> CHR '']''"

definition ends :: "string \<Rightarrow> bool" where
  "ends t \<longleftrightarrow> t = [] \<or> hd t = CHR '','' \<or> hd t = CHR ''}'' \<or> hd t = CHR '']''"

lemma starts_render [simp]: "starts (render v)"
proof (cases v)
  case (JInt i)
  obtain c cs where c: "int_digits i = c # cs" "isdigit c \<or> c = CHR ''-''" using int_digits_Cons by blast
  then show ?thesis using JInt isdigit_not [of c] by (auto simp: starts_def isdigit_def)
qed (auto simp: starts_def quoted_def)

lemma starts_member_text [simp]: "starts (member_text m)"
  by (simp add: starts_def member_text_def quoted_def)

lemma starts_append [simp]: "starts s \<Longrightarrow> starts (s @ t)"
  by (cases s) (simp_all add: starts_def)

lemma starts_join: "xs \<noteq> [] \<Longrightarrow> \<forall>x\<in>set xs. starts x \<Longrightarrow> starts (join xs)"
  by (cases xs rule: join.cases) simp_all

lemma skip_ws_starts [simp]: "starts s \<Longrightarrow> skip_ws s = s"
  by (cases s) (simp_all add: starts_def)

lemma ends_not_digit: "ends t \<Longrightarrow> t = [] \<or> \<not> isdigit (hd t)"
  by (auto simp: ends_def isdigit_def)

lemma ends_Cons [simp]: "ends (CHR '','' # t)" "ends (CHR ''}'' # t)" "ends (CHR '']'' # t)"
  by (simp_all add: ends_def)

section \<open>Reading a document\<close>

text \<open>A parser that takes exactly the items it accepts.\<close>

lemma items_join:
  assumes "stop = CHR ''}'' \<or> stop = CHR '']''"
    and "\<And>v t. v \<in> set vs \<Longrightarrow> ends t \<Longrightarrow> p (f v @ t) = (if ok v then Some t else None)"
    and "\<And>v. v \<in> set vs \<Longrightarrow> starts (f v)"
  shows "vs \<noteq> [] \<Longrightarrow> length vs \<le> n \<Longrightarrow>
    items n p stop (join (map f vs) @ stop # rest) = (if \<forall>v\<in>set vs. ok v then Some rest else None)"
  using assms(2,3)
proof (induction vs arbitrary: n rule: induct_list012)
  case (2 v)
  have "p (f v @ stop # rest) = (if ok v then Some (stop # rest) else None)"
    using 2 assms(1) by (auto simp: ends_def)
  moreover have "separator stop (stop # rest) = Some (Inl rest)" using assms(1) by (auto simp: separator_def)
  ultimately show ?case using 2 by (cases n) auto
next
  case (3 v w ws)
  let ?t = "join (map f (w # ws)) @ stop # rest"
  obtain m where m: "n = Suc m" using 3 by (cases n) auto
  have p: "p (f v @ CHR '','' # ?t) = (if ok v then Some (CHR '','' # ?t) else None)" using 3 by simp
  have "starts ?t" using 3 by (intro starts_append starts_join) auto
  then have "separator stop (CHR '','' # ?t) = Some (Inr ?t)"
    using assms(1) skip_ws_starts [of ?t] by (auto simp: separator_def Let_def starts_def)
  moreover have "items m p stop ?t = (if \<forall>v\<in>set (w # ws). ok v then Some rest else None)"
    using 3 m by (intro "3.IH") auto
  ultimately show ?case using p m by (auto simp del: join.simps simp: join.simps(3))
qed simp

lemma body_length: "length vs \<le> length (join (map f vs) @ c # rest)"
  using join_length [of "map f vs"] by simp

lemma body_starts:
  "starts s \<Longrightarrow> array_body pv s = items (length s) pv (CHR '']'') s"
  "starts s \<Longrightarrow> object_body pv s = items (length s) (member pv) (CHR ''}'') s"
  by (simp_all add: array_body_def object_body_def elements_loop_items members_loop_items starts_def Let_def)

lemma starts_body: "vs \<noteq> [] \<Longrightarrow> (\<And>v. starts (f v)) \<Longrightarrow> starts (join (map f vs) @ c # rest)"
  by (intro starts_append starts_join) auto

lemma parse_string_quoted [simp]: "parse_string (quoted a @ t) = Some t"
  using parse_string_escaped [of a t] by (simp add: quoted_def)

lemma member_member_text:
  "member pv (member_text m @ t) = pv (render (snd m) @ t)"
  by (simp add: member_def member_text_def)

lemma parse_value_quoted: "parse_value k (quoted s @ t) = Some t"
  using parse_string_quoted [of s t] by (subst parse_value.simps) (simp add: quoted_def)

lemma parse_value_render:
  "ends t \<Longrightarrow> parse_value k (render v @ t) = (if nesting v \<le> k then Some t else None)"
proof (induction v arbitrary: k t)
  case JNull then show ?case by (subst parse_value.simps) simp
next
  case (JBool b) then show ?case by (subst parse_value.simps) simp
next
  case (JInt i)
  have "number_frac t = Some t" "number_exp t = Some t"
    using JInt by (auto simp: number_frac_def number_exp_def ends_def)
  then show ?case using parse_value_int [OF ends_not_digit [OF JInt], of k i] by simp
next
  case (JStr s) then show ?case by (simp add: parse_value_quoted)
next
  case (JArr vs)
  show ?case
  proof (cases k)
    case 0 then show ?thesis by (subst parse_value.simps) simp
  next
    case (Suc d)
    have "array_body (parse_value d) (join (map render vs) @ CHR '']'' # t) =
        (if \<forall>v\<in>set vs. nesting v \<le> d then Some t else None)"
    proof (cases "vs = []")
      case False
      show ?thesis
        unfolding body_starts(1) [OF starts_body [OF False starts_render]]
        by (rule items_join) (use JArr.IH False body_length in auto)
    qed (simp add: array_body_def)
    then show ?thesis using Suc by (subst parse_value.simps) (simp add: nesting_JArr del: nesting.simps)
  qed
next
  case (JObj ms)
  have IH: "ends u \<Longrightarrow> parse_value d (render (snd m) @ u) = (if nesting (snd m) \<le> d then Some u else None)"
    if "m \<in> set ms" for m d u using JObj.IH [OF that] by (cases m) auto
  show ?case
  proof (cases k)
    case 0 then show ?thesis by (subst parse_value.simps) simp
  next
    case (Suc d)
    have "object_body (parse_value d) (join (map member_text ms) @ CHR ''}'' # t) =
        (if \<forall>m\<in>set ms. nesting (snd m) \<le> d then Some t else None)"
    proof (cases "ms = []")
      case False
      show ?thesis
        unfolding body_starts(2) [OF starts_body [OF False starts_member_text]]
        by (rule items_join) (use IH False body_length in \<open>auto simp: member_member_text\<close>)
    qed (simp add: object_body_def)
    then show ?thesis using Suc
      by (subst parse_value.simps) (simp add: nesting_JObj render_JObj del: nesting.simps render.simps)
  qed
qed

lemma written_valid: "json_valid_object (render (JObj ms)) = (nesting (JObj ms) \<le> 64)"
proof -
  have "parse_object JSON_MAX_DEPTH (render (JObj ms)) = parse_value JSON_MAX_DEPTH (render (JObj ms))"
    by (subst parse_value.simps) (simp add: parse_object_def render_JObj del: render.simps)
  also have "\<dots> = (if nesting (JObj ms) \<le> 64 then Some [] else None)"
    using parse_value_render [of "[]" JSON_MAX_DEPTH "JObj ms"]
    by (simp add: ends_def JSON_MAX_DEPTH_def del: render.simps nesting.simps)
  finally show ?thesis by (simp add: json_valid_object_def del: render.simps nesting.simps)
qed

text \<open>
  The document validator accepts a written object exactly when its brackets nest at most 64 deep,
  and the value parser takes from a longer text exactly the value that was written there.
\<close>

theorem json_validator_accepts_written:
  "json_valid_object (render (JObj ms)) = (nesting (JObj ms) \<le> 64) \<and>
   (ends t \<longrightarrow> parse_value k (render v @ t) = (if nesting v \<le> k then Some t else None))"
  using written_valid parse_value_render by blast

theorem json_validator_accepts_written_witness:
  "parse_value 1 (render (JArr [JInt 7]) @ '',x'') = Some '',x''"
  using json_validator_accepts_written [of "[]" "'',x''" 1 "JArr [JInt 7]"] by simp

section \<open>Looking up a member\<close>

definition plain :: "string \<Rightarrow> bool" where
  "plain k \<longleftrightarrow> (\<forall>c\<in>set k. 32 \<le> ord c \<and> c \<noteq> quote \<and> c \<noteq> backslash)"

lemma escape_plain_char: "32 \<le> ord c \<Longrightarrow> c \<noteq> quote \<Longrightarrow> c \<noteq> backslash \<Longrightarrow> escape_char c = [c]"
  by (cases c rule: escape_char_cases) (auto simp: escape_char_def)

lemma escaped_plain: "plain k \<Longrightarrow> escaped k = k"
  by (induction k) (auto simp: plain_def escape_plain_char)

lemma escaped_no_backslash: "backslash \<notin> set (escaped a) \<Longrightarrow> escaped a = a"
proof (induction a)
  case (Cons c a)
  then have "backslash \<notin> set (escape_char c)" by simp
  then have "escape_char c = [c]" by (cases c rule: escape_char_cases) simp_all
  then show ?case using Cons by simp
qed simp

lemma escaped_eq_plain: "plain k \<Longrightarrow> escaped a = k \<longleftrightarrow> a = k"
  by (metis escaped_no_backslash escaped_plain plain_def)

text \<open>The raw name as the scanners cut it out of the text.\<close>

lemma raw_name:
  "take (length (quoted a @ t) - length t - 2) (tl (quoted a @ t)) = escaped a"
  by (simp add: quoted_def)

lemma skip_ws_rest: "ends t \<Longrightarrow> skip_ws t = t"
  by (cases t) (auto simp: ends_def)

lemma member_text_scan:
  "parse_string (member_text (a, v) @ t) = Some (CHR '':'' # render v @ t)"
  "member_text (a, v) @ t \<noteq> []" "hd (member_text (a, v) @ t) = quote"
  "take (length (member_text (a, v) @ t) - length (CHR '':'' # render v @ t) - 2)
     (tl (member_text (a, v) @ t)) = escaped a"
  using raw_name [of a "CHR '':'' # render v @ t"] by (simp_all add: member_text_def) (simp add: quoted_def)

lemma top_level_key_loop_Suc:
  assumes "ends t"
  shows "top_level_key_loop (Suc n) k (member_text (a, v) @ t) =
     (if escaped a = k then Some (render v @ t)
      else if JSON_MAX_DEPTH < nesting v then None
      else case t of [] \<Rightarrow> None | c # r \<Rightarrow> if c = CHR '','' then top_level_key_loop n k r else None)"
proof -
  have "hd (member_text (a, v) @ t) \<noteq> CHR ''}''" using member_text_scan(3) [of a v t] by simp
  then show ?thesis
    unfolding top_level_key_loop.simps(2) skip_ws_starts [OF starts_append [OF starts_member_text]] Let_def
      member_text_scan(1)
    using member_text_scan(2,3) [of a v t] member_text_scan(4) [of a v t, simplified] assms
    by (simp add: member_text_scan(4) [of a v t, simplified] parse_value_render skip_ws_rest
        del: top_level_key_loop.simps append_is_Nil_conv)
qed

text \<open>The members of an object up to its closing bracket.\<close>

definition members_text :: "(string \<times> json_doc) list \<Rightarrow> string" where
  "members_text ms = join (map member_text ms) @ ''}''"

lemma members_text_simps:
  "members_text [m] = member_text m @ ''}''"
  "ms \<noteq> [] \<Longrightarrow> members_text (m # ms) = member_text m @ CHR '','' # members_text ms"
  by (simp_all add: members_text_def join_Cons)

lemma starts_members_text: "ms \<noteq> [] \<Longrightarrow> starts (members_text ms)"
  unfolding members_text_def by (rule starts_body) simp_all

lemma render_members: "render (JObj ms) = CHR ''{'' # members_text ms"
  by (simp add: render_JObj members_text_def del: render.simps)

lemma members_text_length: "length ms \<le> length (members_text ms)"
  unfolding members_text_def by (rule body_length)

definition member_end :: "string \<Rightarrow> bool" where
  "member_end t \<longleftrightarrow> t \<noteq> [] \<and> (hd t = CHR '','' \<or> hd t = CHR ''}'')"

lemma member_end_ends: "member_end t \<Longrightarrow> ends t"
  by (auto simp: member_end_def ends_def)

lemma member_end_Cons [simp]: "member_end (CHR '','' # t)" "member_end (CHR ''}'' # t)"
  by (simp_all add: member_end_def)

definition found_in :: "(string \<times> json_doc) list \<Rightarrow> string \<Rightarrow> string option \<Rightarrow> bool" where
  "found_in ms k R =
     (case map_of (map (\<lambda>(a, v). (escaped a, v)) ms) k of
        None \<Rightarrow> R = None | Some v \<Rightarrow> \<exists>t. member_end t \<and> R = Some (render v @ t))"

lemma found_in_simps [simp]:
  "found_in [] k R \<longleftrightarrow> R = None"
  "found_in ((a, v) # ms) k R \<longleftrightarrow>
     (if escaped a = k then (\<exists>t. member_end t \<and> R = Some (render v @ t)) else found_in ms k R)"
  by (auto simp: found_in_def)

lemma top_level_key_loop_members:
  "ms \<noteq> [] \<Longrightarrow> length ms \<le> n \<Longrightarrow> \<forall>m\<in>set ms. nesting (snd m) \<le> JSON_MAX_DEPTH \<Longrightarrow>
   found_in ms k (top_level_key_loop n k (members_text ms))"
proof (induction ms arbitrary: n)
  case (Cons m ms)
  obtain a v where m: "m = (a, v)" by fastforce
  obtain n' where n: "n = Suc n'" using Cons by (cases n) auto
  show ?case
  proof (cases "ms = []")
    case True
    have "member_end ''}''" by simp
    then show ?thesis using True m Cons.prems top_level_key_loop_Suc [of "''}''" n' k a v]
      by (auto simp: n members_text_simps(1) simp del: top_level_key_loop.simps)
  next
    case False
    have e: "member_end (CHR '','' # members_text ms)" by simp
    then have "top_level_key_loop n k (members_text (m # ms)) =
        (if escaped a = k then Some (render v @ CHR '','' # members_text ms)
         else top_level_key_loop n' k (members_text ms))"
      using top_level_key_loop_Suc [OF member_end_ends [OF e], of n' k a v] Cons.prems
      by (simp add: n m members_text_simps(2) [OF False] del: top_level_key_loop.simps)
    moreover have "found_in ms k (top_level_key_loop n' k (members_text ms))"
      using Cons False n by (intro Cons.IH) auto
    ultimately show ?thesis using e m by (auto simp del: top_level_key_loop.simps)
  qed
qed simp

lemma find_top_level_key_members:
  assumes "\<forall>m\<in>set ms. nesting (snd m) \<le> JSON_MAX_DEPTH"
  shows "found_in ms k (find_top_level_key (render (JObj ms)) k)"
proof (cases "ms = []")
  case True
  then show ?thesis by (simp add: find_top_level_key_def Let_def)
next
  case False
  then show ?thesis
    using top_level_key_loop_members [OF False _ assms, of "Suc (length (members_text ms))" k] members_text_length [of ms]
    by (simp add: find_top_level_key_def render_members del: render.simps top_level_key_loop.simps)
qed

lemma find_written:
  assumes "plain k" "\<forall>m\<in>set ms. nesting (snd m) \<le> 64"
  shows "map_of ms k = None \<Longrightarrow> find_top_level_key (render (JObj ms)) k = None"
    and "map_of ms k = Some v \<Longrightarrow>
      \<exists>t. member_end t \<and> find_top_level_key (render (JObj ms)) k = Some (render v @ t)"
proof -
  have eq: "k = escaped a \<longleftrightarrow> k = a" for a using escaped_eq_plain [OF assms(1), of a] by metis
  have keys: "map_of (map (\<lambda>(a, v). (escaped a, v)) ms) k = map_of ms k"
    by (induction ms) (simp_all add: eq split_beta)
  have "found_in ms k (find_top_level_key (render (JObj ms)) k)"
    using assms(2) by (intro find_top_level_key_members) (simp add: JSON_MAX_DEPTH_def)
  then show "map_of ms k = None \<Longrightarrow> find_top_level_key (render (JObj ms)) k = None"
    and "map_of ms k = Some v \<Longrightarrow>
      \<exists>t. member_end t \<and> find_top_level_key (render (JObj ms)) k = Some (render v @ t)"
    by (simp_all add: found_in_def keys del: render.simps)
qed

text \<open>What the readers make of one written value.\<close>

lemma string_of_render:
  "json_get_string_at z (render v @ t) =
     (case v of JStr s \<Rightarrow> if (\<forall>c\<in>set s. 32 \<le> ord c) \<and> length s < z then Some s else None | _ \<Rightarrow> None)"
proof (cases v)
  case (JInt i)
  obtain c cs where c: "int_digits i = c # cs" "isdigit c \<or> c = CHR ''-''" using int_digits_Cons by blast
  then show ?thesis using JInt isdigit_not [of c] by (auto simp: json_get_string_at_def)
next
  case (JStr s)
  then show ?thesis using string_loop_escaped [of z "[]" s t]
    by (cases "s = []") (auto simp: json_get_string_at_def quoted_def string_loop_Cons)
qed (simp_all add: json_get_string_at_def)

definition int64_range :: "int \<Rightarrow> bool" where
  "int64_range i \<longleftrightarrow> - (2 ^ 63) \<le> i \<and> i < 2 ^ 63"

lemma strto_int_none: "\<not> isspace c \<Longrightarrow> \<not> isdigit c \<Longrightarrow> c \<noteq> CHR ''-'' \<Longrightarrow> c \<noteq> CHR ''+'' \<Longrightarrow> strto_int (c # s) = None"
  by (simp add: strto_int_def)

lemma int64_of_render:
  assumes "member_end t"
  shows "int64_at (render v @ t) =
     (case v of JInt i \<Rightarrow> if int64_range i then Some i else None | _ \<Rightarrow> None)"
proof (cases v)
  case (JInt i)
  have "strto_int (int_digits i @ t) = Some (i, t)"
    using assms by (intro strto_int_digits ends_not_digit member_end_ends)
  then show ?thesis using JInt assms
    by (auto simp: int64_at_def member_end_def clamp_def int64_range_def)
qed (simp_all add: int64_at_def quoted_def strto_int_none isspace_def isdigit_def)

lemma json_text_member:
  assumes "plain k" "\<forall>m\<in>set ms. nesting (snd m) \<le> 64"
  shows "json_get_string_top_level z (render (JObj ms)) k =
    (case map_of ms k of
       None \<Rightarrow> None
     | Some (JStr s) \<Rightarrow> Some (if (\<forall>c\<in>set s. 32 \<le> ord c) \<and> length s < z then Some s else None)
     | Some _ \<Rightarrow> Some None)"
proof -
  show ?thesis
  proof (cases "map_of ms k")
    case None
    then show ?thesis using find_written(1) [OF assms] by (simp add: json_get_string_top_level_def del: render.simps)
  next
    case (Some v)
    obtain t where "member_end t" "find_top_level_key (render (JObj ms)) k = Some (render v @ t)"
      using find_written(2) [OF assms Some] by blast
    then show ?thesis
      using Some by (simp add: json_get_string_top_level_def string_of_render del: render.simps split: json_doc.split)
  qed
qed



lemma json_int64_member:
  assumes "plain k" "\<forall>m\<in>set ms. nesting (snd m) \<le> 64"
  shows "json_get_int64_top_level (render (JObj ms)) k =
    (case map_of ms k of
       None \<Rightarrow> None
     | Some (JInt i) \<Rightarrow> Some (if int64_range i then Some i else None)
     | Some _ \<Rightarrow> Some None)"
proof -
  show ?thesis
  proof (cases "map_of ms k")
    case None
    then show ?thesis using find_written(1) [OF assms] by (simp add: json_get_int64_top_level_def del: render.simps)
  next
    case (Some v)
    obtain t where "member_end t" "find_top_level_key (render (JObj ms)) k = Some (render v @ t)"
      using find_written(2) [OF assms Some] by blast
    then show ?thesis
      using Some by (simp add: json_get_int64_top_level_def int64_of_render del: render.simps split: json_doc.split)
  qed
qed

text \<open>
  On a written object an integer member is found by its name at the outer level and read back
  exactly when it is in the 64-bit range; a value of another type or out of range is an error.
\<close>

theorem json_int64_member_round_trip:
  assumes "plain k" "\<forall>m\<in>set ms. nesting (snd m) \<le> 64"
  shows "json_get_int64_top_level (render (JObj ms)) k =
    (case map_of ms k of
       None \<Rightarrow> None
     | Some (JInt i) \<Rightarrow> Some (if int64_range i then Some i else None)
     | Some _ \<Rightarrow> Some None)"
  using assms by (rule json_int64_member)

theorem json_int64_member_round_trip_witness:
  "json_get_int64_top_level (render (JObj [(''s'', JStr ''n''), (''n'', JInt (- 5))])) ''n'' = Some (Some (- 5))"
  using json_int64_member_round_trip [of "''n''" "[(''s'', JStr ''n''), (''n'', JInt (- 5))]"]
  by (simp add: plain_def int64_range_def)

text \<open>Texts and 32-bit integers as codecs: what is written is read back, so nothing is written twice alike.\<close>

interpretation json_text: codec "\<lambda>s. (\<forall>c\<in>set s. 32 \<le> ord c) \<and> length s < z" quoted "json_get_string_at z" for z
  using string_of_render [of _ "JStr _" "[]"] by unfold_locales simp

interpretation json_int: codec "\<lambda>i. - (2 ^ 31) \<le> i \<and> i < 2 ^ 31" int_digits "json_int_span []"
  using int_span_parts [of "[]" "[]"] single_value_int [of "[]"]
  by unfold_locales (simp add: number_frac_def number_exp_def)

section \<open>Names compared decoded\<close>

lemma key_body_Cons:
  "key_body key match (ch # s1) =
     (if ch = quote then Some (match \<and> key = [], s1)
      else if ord ch < 32 then None
      else if ch \<noteq> backslash then (let (key', match') = key_next key match ch in key_body key' match' s1)
      else
        (case s1 of
           [] \<Rightarrow> None
         | e # s2 \<Rightarrow>
             if e = CHR ''u'' then
               (case hex4 s2 of
                  None \<Rightarrow> None
                | Some (v, s3) \<Rightarrow>
                    (let (key', match') = key_next key (match \<and> v \<le> 127) (char_of v) in key_body key' match' s3))
             else
               (case key_escape e of
                  None \<Rightarrow> None
                | Some ch' \<Rightarrow> (let (key', match') = key_next key match ch' in key_body key' match' s2))))"
  by (subst key_body.simps) simp

lemma key_body_escape:
  "key_body key match (escape_char c @ t) = (let (key', match') = key_next key match c in key_body key' match' t)"
proof (cases c rule: escape_char_cases)
  case code
  then have "ord c \<le> 127" by simp
  with code show ?thesis by (simp add: key_body_Cons hex4_control)
qed (simp_all add: key_body_Cons)

lemma key_body_escaped:
  "key_body key match (escaped a @ quote # t) = Some (match \<and> key = a, t)"
proof (induction a arbitrary: key match)
  case (Cons c a)
  show ?case by (cases key) (auto simp: key_body_escape key_next_def Cons.IH)
qed (simp add: key_body_Cons)

lemma member_start_text:
  "member_start key (member_text (a, v) @ t) = Some (a = key, render v @ t)"
  using key_body_escaped [of key True a "CHR '':'' # render v @ t"]
  by (auto simp: member_start_def parse_string_key_def member_text_def quoted_def)

lemma members_text_cases:
  assumes "ms \<noteq> []"
  obtains (last) m where "ms = [m]" "members_text ms = member_text m @ ''}''"
  | (more) m ms' where "ms = m # ms'" "ms' \<noteq> []" "members_text ms = member_text m @ CHR '','' # members_text ms'"
  using assms by (cases ms) (metis members_text_simps)+

definition count_name :: "string \<Rightarrow> (string \<times> json_doc) list \<Rightarrow> nat" where
  "count_name key ms = length (filter (\<lambda>m. fst m = key) ms)"

lemma duplicate_loop_members:
  "ms \<noteq> [] \<Longrightarrow> length ms \<le> n \<Longrightarrow> \<forall>m\<in>set ms. nesting (snd m) \<le> JSON_MAX_DEPTH \<Longrightarrow>
   duplicate_loop n key count (members_text ms) = (count + count_name key ms > 1)"
proof (induction n arbitrary: ms count)
  case (Suc n)
  from Suc.prems(1) show ?case
  proof (cases rule: members_text_cases)
    case (last m)
    obtain a v where m: "m = (a, v)" by fastforce
    show ?thesis using last m Suc.prems member_start_text [of key a v "''}''"]
      by (simp add: count_name_def Let_def parse_value_render)
  next
    case (more m ms')
    obtain a v where m: "m = (a, v)" by fastforce
    show ?thesis using more m Suc.prems member_start_text [of key a v "CHR '','' # members_text ms'"]
      by (simp add: count_name_def Let_def parse_value_render Suc.IH starts_members_text)
  qed
qed simp

text \<open>
  On a written object the duplicate check says exactly whether the outer object has two or more
  members of that name, comparing decoded names and ignoring nested ones.
\<close>

theorem json_duplicate_key_exact:
  assumes "\<forall>m\<in>set ms. nesting (snd m) \<le> 64"
  shows "json_duplicate_key (render (JObj ms)) key = (length (filter (\<lambda>m. fst m = key) ms) > 1)"
proof (cases "ms = []")
  case False
  then show ?thesis
    using duplicate_loop_members [of ms "Suc (length (members_text ms))" key 0] assms starts_members_text [OF False]
      members_text_length [of ms]
    by (simp add: json_duplicate_key_def render_members JSON_MAX_DEPTH_def Let_def count_name_def starts_def
        del: render.simps duplicate_loop.simps)
qed (simp add: json_duplicate_key_def)

theorem json_duplicate_key_exact_witness:
  "json_duplicate_key (render (JObj [(''k'', JNull), (''x'', JObj [(''k'', JNull)]), (''k'', JBool True)])) ''k''"
  using json_duplicate_key_exact [of "[(''k'', JNull), (''x'', JObj [(''k'', JNull)]), (''k'', JBool True)]" "''k''"]
  by simp

text \<open>The verdict on the boolean member of that name, given the one found before.\<close>

fun bool_member :: "bool option \<Rightarrow> json_doc list \<Rightarrow> int \<times> bool option" where
  "bool_member None [] = (0, None)"
| "bool_member (Some b) [] = (1, Some b)"
| "bool_member None (JBool b # vs) = bool_member (Some b) vs"
| "bool_member _ _ = (- 1, None)"

lemma bool_literal_render:
  "bool_literal (render v @ t) = (case v of JBool b \<Rightarrow> Some (b, t) | _ \<Rightarrow> None)"
proof (cases v)
  case (JInt i)
  obtain c cs where c: "int_digits i = c # cs" "isdigit c \<or> c = CHR ''-''" using int_digits_Cons by blast
  then have "c \<noteq> CHR ''t''" "c \<noteq> CHR ''f''" using isdigit_not [of c] by auto
  then show ?thesis using JInt c by (simp add: bool_literal_def)
next
  case (JBool b)
  then show ?thesis by (cases b) (simp_all add: bool_literal_def)
qed (simp_all add: bool_literal_def quoted_def)

definition values_of :: "string \<Rightarrow> (string \<times> json_doc) list \<Rightarrow> json_doc list" where
  "values_of key ms = map snd (filter (\<lambda>m. fst m = key) ms)"

lemma value_end_member: "member_end t \<Longrightarrow> value_end t"
  by (auto simp: value_end_def member_end_def)

text \<open>One round of the loop, whose text after the value is \<open>t\<close>.\<close>

lemma top_level_bool_loop_Suc:
  assumes "member_end t" "nesting v \<le> JSON_MAX_DEPTH"
  shows "top_level_bool_loop (Suc n) key found (member_text (a, v) @ t) =
    (let found' = (if a \<noteq> key then Some found
                   else case (found, v) of (None, JBool b) \<Rightarrow> Some (Some b) | _ \<Rightarrow> None)
     in case found' of
          None \<Rightarrow> (- 1, None)
        | Some f \<Rightarrow>
            (case t of [] \<Rightarrow> (- 1, None)
             | c # r \<Rightarrow>
                 if c = CHR ''}'' then (if f = None then (0, None) else (1, f))
                 else if c \<noteq> CHR '','' then (- 1, None)
                 else top_level_bool_loop n key f (skip_ws r)))"
proof (cases "a = key")
  case True
  show ?thesis
    using True assms member_start_text [of key a v t] value_end_member [OF assms(1)] skip_ws_rest [OF member_end_ends [OF assms(1)]]
    by (cases found) (simp_all add: Let_def bool_literal_render del: render.simps split: json_doc.split)
next
  case False
  then show ?thesis
    using assms member_start_text [of key a v t] skip_ws_rest [OF member_end_ends [OF assms(1)]]
      parse_value_render [OF member_end_ends [OF assms(1)], of JSON_MAX_DEPTH v]
    by (simp add: Let_def)
qed

lemma top_level_bool_loop_members:
  "ms \<noteq> [] \<Longrightarrow> length ms \<le> n \<Longrightarrow> \<forall>m\<in>set ms. nesting (snd m) \<le> JSON_MAX_DEPTH \<Longrightarrow>
   top_level_bool_loop n key found (members_text ms) = bool_member found (values_of key ms)"
proof (induction n arbitrary: ms found)
  case (Suc n)
  from Suc.prems(1) show ?case
  proof (cases rule: members_text_cases)
    case (last m)
    obtain a v where m: "m = (a, v)" by fastforce
    have "member_end ''}''" by simp
    note round = top_level_bool_loop_Suc [OF this, of v n key found a]
    show ?thesis using round last m Suc.prems
      by (cases found; cases v) (simp_all add: values_of_def Let_def del: top_level_bool_loop.simps)
  next
    case (more m ms')
    obtain a v where m: "m = (a, v)" by fastforce
    have "member_end (CHR '','' # members_text ms')" by simp
    note round = top_level_bool_loop_Suc [OF this, of v n key found a]
    have "length ms' \<le> n" "\<forall>m\<in>set ms'. nesting (snd m) \<le> JSON_MAX_DEPTH" using Suc.prems more by auto
    note rest = Suc.IH [OF more(2) this]
    show ?thesis using round more m Suc.prems
      by (cases found; cases v)
         (simp_all add: values_of_def Let_def rest starts_members_text del: top_level_bool_loop.simps)
  qed
qed simp

text \<open>
  On a written object the boolean lookup finds the member only when the outer object has exactly
  one of that name and it is a boolean: none is 0, and several, or one of another type, is an error.
\<close>

theorem json_top_level_bool_exact:
  assumes "\<forall>m\<in>set ms. nesting (snd m) \<le> 64"
  shows "json_get_top_level_bool (render (JObj ms)) key =
    (case map snd (filter (\<lambda>m. fst m = key) ms) of
       [] \<Rightarrow> (0, None) | [JBool b] \<Rightarrow> (1, Some b) | _ \<Rightarrow> (- 1, None))"
proof -
  have one: "bool_member None vs = (case vs of [] \<Rightarrow> (0, None) | [JBool b] \<Rightarrow> (1, Some b) | _ \<Rightarrow> (- 1, None))" for vs
    by (cases vs; cases "tl vs"; cases "hd vs") simp_all
  show ?thesis
  proof (cases "ms = []")
    case False
    then show ?thesis
      using top_level_bool_loop_members [of ms "Suc (length (members_text ms))" key None] assms
        starts_members_text [OF False] members_text_length [of ms]
      by (simp add: json_get_top_level_bool_def render_members JSON_MAX_DEPTH_def Let_def values_of_def starts_def
          one del: render.simps top_level_bool_loop.simps)
  qed (simp add: json_get_top_level_bool_def)
qed

theorem json_top_level_bool_exact_witness:
  "json_get_top_level_bool (render (JObj [(''a'', JObj [(''on'', JBool False)]), (''on'', JBool True)])) ''on'' =
     (1, Some True)"
  using json_top_level_bool_exact [of "[(''a'', JObj [(''on'', JBool False)]), (''on'', JBool True)]" "''on''"] by simp

lemma object_members_loop_members:
  "ms \<noteq> [] \<Longrightarrow> length ms \<le> n \<Longrightarrow> \<forall>m\<in>set ms. nesting (snd m) \<le> JSON_MAX_DEPTH \<Longrightarrow>
   object_members_loop n cap out (members_text ms) =
     (if length out + length ms \<le> cap then Some (out @ map (\<lambda>m. (escaped (fst m), render (snd m))) ms) else None)"
proof (induction n arbitrary: ms out)
  case (Suc n)
  from Suc.prems(1) show ?case
  proof (cases rule: members_text_cases)
    case (last m)
    obtain a v where m: "m = (a, v)" by fastforce
    show ?thesis using last m Suc.prems member_text_scan(1) [of a v "''}''"]
        member_text_scan(4) [of a v "''}''", simplified]
      by (simp add: Let_def parse_value_render)
  next
    case (more m ms')
    obtain a v where m: "m = (a, v)" by fastforce
    let ?t = "CHR '','' # members_text ms'"
    have "length ms' \<le> n" "\<forall>m\<in>set ms'. nesting (snd m) \<le> JSON_MAX_DEPTH" using Suc.prems more by auto
    note rest = Suc.IH [OF more(2) this]
    have st: "starts (members_text ms')" using more(2) by (rule starts_members_text)
    then have "hd (members_text ms') \<noteq> CHR ''}''" by (simp add: starts_def)
    then show ?thesis using more m Suc.prems member_text_scan(1) [of a v ?t]
        member_text_scan(4) [of a v ?t, simplified] st
      by (simp add: Let_def parse_value_render rest)
  qed
qed simp

text \<open>
  Listing a written object gives its members in order, each with its raw name and the exact text
  of its value, or an error when there are more than the caller has room for.
\<close>

theorem json_object_members_exact:
  assumes "\<forall>m\<in>set ms. nesting (snd m) \<le> 64"
  shows "json_object_members cap (render (JObj ms)) =
    (if length ms \<le> cap then Some (map (\<lambda>(a, v). (escaped a, render v)) ms) else None)"
proof (cases "ms = []")
  case False
  then show ?thesis
    using object_members_loop_members [of ms "length (members_text ms)" cap "[]"] assms
      starts_members_text [OF False] members_text_length [of ms]
    by (simp add: json_object_members_def render_members JSON_MAX_DEPTH_def Let_def starts_def case_prod_beta
        del: render.simps object_members_loop.simps)
qed (simp add: json_object_members_def)

theorem json_object_members_exact_witness:
  "json_object_members 1 (render (JObj [(''a'', JInt 1), (''b'', JNull)])) = None"
  using json_object_members_exact [of "[(''a'', JInt 1), (''b'', JNull)]" 1] by simp

section \<open>The search by substring\<close>

text \<open>
  A text member whose value is the name of a later member hides that member from the lookups that
  search the text for the quoted name: they report it as missing, although the object has it at its
  outer level, where the structural lookup finds it.
\<close>

theorem json_text_value_hides_member:
  assumes "plain a" "plain k" "a \<noteq> k" "k \<noteq> '':''" "length k \<le> 93" "int64_range i"
    and "doc = render (JObj [(a, JStr k), (k, JInt i)])"
  shows "json_get_int doc k = (0, 0) \<and> json_get_int64_top_level doc k = Some (Some i)"
proof -
  let ?key = "quote # k @ [quote]" and ?rest = "CHR '','' # quote # k @ quote # CHR '':'' # int_digits i @ ''}''"
  have q: "quote \<notin> set k" "quote \<notin> set a" "quote \<notin> set '':''" using assms(1,2) by (auto simp: plain_def)
  have doc: "doc = CHR ''{'' # quote # a @ quote # '':'' @ quote # k @ quote # ?rest"
    using assms escaped_plain by (simp add: quoted_def)
  have "strstr doc ?key = strstr (quote # '':'' @ quote # k @ quote # ?rest) ?key"
    unfolding doc
    using strstr_sep [OF q(1,2), of "'':'' @ quote # k @ quote # ?rest"] assms(3)
      strstr_skip [of quote "''{''" "quote # a @ quote # '':'' @ quote # k @ quote # ?rest" "k @ [quote]"]
    by (simp del: strstr.simps strip_prefix.simps)
  also have "\<dots> = strstr (quote # k @ quote # ?rest) ?key"
    using strstr_sep [OF q(1,3)] assms(4) by metis
  also have "\<dots> = Some (?key @ ?rest)"
    using strstr_sep [OF q(1,1)] by simp
  finally have "find_key doc k = None"
    using assms(5) by (simp add: find_key_def Let_def isspace_def del: strstr.simps)
  moreover have "json_get_int64_top_level doc k = Some (Some i)"
    using json_int64_member [OF assms(2), of "[(a, JStr k), (k, JInt i)]"] assms
    by (simp del: render.simps)
  ultimately show ?thesis by (simp add: json_get_int_def)
qed

theorem json_text_value_hides_member_witness:
  "json_get_int (render (JObj [(''mode'', JStr ''level''), (''level'', JInt 7)])) ''level'' = (0, 0)"
  using json_text_value_hides_member [of "''mode''" "''level''" 7] by (simp add: plain_def int64_range_def)

end
