(* ===== verification/Timer_Intent.thy ===== *)
theory Timer_Intent
  imports C_Text
begin

text \<open>
  Timer requests recognised in a transcript before a language model sees it
  (\<^verbatim>\<open>src/adapter/timer_intent.c\<close>).  A pointer into the normalised text is an offset where the code
  looks back from it or compares it, and the text from it on where the code only reads ahead; -1 for
  "no number" is \<open>None\<close> inside the module.  Text buffers are the strings they hold.
\<close>

section \<open>Text\<close>

definition NORMAL_MAX :: nat where "NORMAL_MAX = 256"

definition LE_TIMER_INTENT_LABEL_MAX :: nat where "LE_TIMER_INTENT_LABEL_MAX = 48"

definition WORD_NUMBERS :: "(string \<times> nat) list" where
  "WORD_NUMBERS =
     [(''one'', 1), (''two'', 2), (''three'', 3), (''four'', 4), (''five'', 5), (''six'', 6), (''seven'', 7),
      (''eight'', 8), (''nine'', 9), (''ten'', 10), (''eleven'', 11), (''twelve'', 12), (''thirteen'', 13),
      (''fourteen'', 14), (''fifteen'', 15), (''sixteen'', 16), (''seventeen'', 17), (''eighteen'', 18),
      (''nineteen'', 19), (''twenty'', 20), (''thirty'', 30), (''forty'', 40), (''fifty'', 50), (''sixty'', 60),
      (''ninety'', 90), (''a'', 1), (''an'', 1)]"

abbreviation blank :: char where "blank \<equiv> CHR '' ''"

text \<open>The text written and whether it ends in a space.\<close>

fun normalise_loop :: "nat \<Rightarrow> string \<Rightarrow> bool \<Rightarrow> string \<Rightarrow> string \<times> bool" where
  "normalise_loop z out last_space [] = (out, last_space)"
| "normalise_loop z out last_space (c # cs) =
     (if \<not> length out + 2 < z then (out, last_space)
      else if isalnum c then normalise_loop z (out @ [tolower c]) False cs
      else if \<not> last_space then normalise_loop z (out @ [blank]) True cs
      else normalise_loop z out last_space cs)"

definition normalise :: "nat \<Rightarrow> string \<Rightarrow> string" where
  "normalise z s =
     (let (out, last_space) = normalise_loop z (if 1 < z then [blank] else []) True s
      in if \<not> last_space \<and> length out + 1 < z then out @ [blank] else out)"

definition padded :: "string \<Rightarrow> string option" where
  "padded word = (if length word + 2 \<ge> 64 then None else Some (blank # word @ [blank]))"

definition has_word :: "string \<Rightarrow> string \<Rightarrow> bool" where
  "has_word haystack word =
     (case padded word of None \<Rightarrow> False | Some p \<Rightarrow> strstr haystack p \<noteq> None)"

text \<open>Where the word starts.\<close>

definition find_word :: "string \<Rightarrow> string \<Rightarrow> nat option" where
  "find_word haystack word =
     (case padded word of
        None \<Rightarrow> None
      | Some p \<Rightarrow> map_option (\<lambda>hit. length haystack - length hit + 1) (strstr haystack p))"

definition starts_word :: "string \<Rightarrow> string \<Rightarrow> bool" where
  "starts_word text word =
     (case strip_prefix word text of None \<Rightarrow> False | Some r \<Rightarrow> r = [] \<or> hd r = blank)"

definition skip_blanks :: "string \<Rightarrow> string" where
  "skip_blanks = dropWhile (\<lambda>c. c = blank)"

definition after_word :: "string \<Rightarrow> string \<Rightarrow> string" where
  "after_word text word =
     (if \<not> starts_word text word then text else skip_blanks (drop (length word) text))"

definition CANCEL_VERBS :: "string list" where
  "CANCEL_VERBS = [''cancel'', ''delete'', ''remove'', ''clear'']"

fun first_cancel_verb_loop :: "string \<Rightarrow> (nat \<times> nat) option \<Rightarrow> string list \<Rightarrow> (nat \<times> nat) option" where
  "first_cancel_verb_loop text verb [] = verb"
| "first_cancel_verb_loop text verb (v # vs) =
     first_cancel_verb_loop text
       (case find_word text v of
          None \<Rightarrow> verb
        | Some hit \<Rightarrow>
            (case verb of
               None \<Rightarrow> Some (hit, length v)
             | Some (at, n) \<Rightarrow> if hit < at then Some (hit, length v) else verb)) vs"

text \<open>The offset of the first verb and its length.\<close>

definition first_cancel_verb :: "string \<Rightarrow> (nat \<times> nat) option" where
  "first_cancel_verb text = first_cancel_verb_loop text None CANCEL_VERBS"

section \<open>Numbers\<close>

text \<open>
  The walk back from the unit.  The cursor and what lies before it is the text before the unit
  reversed; a list of one character is the cursor at the start of the text.
\<close>

fun back_blanks :: "string \<Rightarrow> string" where
  "back_blanks (c # d # r) = (if c = blank then back_blanks (d # r) else c # d # r)"
| "back_blanks r = r"

fun back_word :: "string \<Rightarrow> string \<Rightarrow> string \<times> string" where
  "back_word (c # d # r) w = (if d \<noteq> blank then back_word (d # r) (c # w) else (c # w, d # r))"
| "back_word [c] w = (c # w, [c])"
| "back_word [] w = (w, [])"

fun back_words :: "nat \<Rightarrow> string \<Rightarrow> string list" where
  "back_words 0 r = []"
| "back_words (Suc n) r =
     (if length r \<le> 1 then []
      else
        (let s = back_blanks r in
         if length s \<le> 1 then []
         else
           (case back_word s [] of
              (w, rest) \<Rightarrow> if length w \<ge> 32 then [] else w # back_words n rest)))"

fun digits_value :: "nat \<Rightarrow> string \<Rightarrow> nat option" where
  "digits_value v [] = Some v"
| "digits_value v (c # cs) =
     (if \<not> isdigit c then None
      else (let v' = v * 10 + digit_value c in if v' > 100000 then Some v' else digits_value v' cs))"

definition word_value :: "string \<Rightarrow> nat option" where
  "word_value w =
     (if w \<noteq> [] \<and> isdigit (hd w) then digits_value 0 w else map_of WORD_NUMBERS w)"

fun total_value :: "nat option \<Rightarrow> string list \<Rightarrow> nat option" where
  "total_value acc [] = acc"
| "total_value acc (w # ws) =
     (case word_value w of
        None \<Rightarrow> acc
      | Some v \<Rightarrow>
          (case acc of
             None \<Rightarrow> total_value (Some v) ws
           | Some t \<Rightarrow> if v \<ge> 20 \<and> t < 10 then total_value (Some (t + v)) ws else acc))"

definition number_before_at :: "string \<Rightarrow> nat option \<Rightarrow> nat option" where
  "number_before_at text at =
     (case at of
        None \<Rightarrow> None
      | Some i \<Rightarrow> if i = 0 then None else total_value None (back_words 2 (rev (take i text))))"

definition number_before :: "string \<Rightarrow> string \<Rightarrow> nat option" where
  "number_before text unit = number_before_at text (find_word text unit)"

definition FRACTION :: string where "FRACTION = '' and a half ''"

definition mixed_number_before :: "string \<Rightarrow> string \<Rightarrow> nat option" where
  "mixed_number_before text unit =
     (case find_word text unit of
        None \<Rightarrow> None
      | Some i \<Rightarrow>
          if i < length FRACTION \<or> take (length FRACTION) (drop (i - length FRACTION) text) \<noteq> FRACTION
          then None else number_before_at text (Some (i - length FRACTION)))"

definition has_phrase :: "string \<Rightarrow> string \<Rightarrow> bool" where
  "has_phrase text phrase \<longleftrightarrow> length phrase < 64 \<and> strstr text phrase \<noteq> None"

definition has_half_quantity :: "string \<Rightarrow> string \<Rightarrow> bool" where
  "has_half_quantity text unit \<longleftrightarrow>
     has_phrase text ('' half a '' @ unit @ '' '') \<or> has_phrase text ('' half an '' @ unit @ '' '')"

definition has_trailing_half :: "string \<Rightarrow> string \<Rightarrow> bool" where
  "has_trailing_half text unit \<longleftrightarrow> has_phrase text ('' '' @ unit @ '' and a half '')"

text \<open>The seconds of one unit, whether it was found and whether it came with a half.\<close>

definition or_else :: "'a option \<Rightarrow> 'a option \<Rightarrow> 'a option" where
  "or_else a b = (case a of None \<Rightarrow> b | Some x \<Rightarrow> Some x)"

definition unit_seconds :: "string \<Rightarrow> string \<Rightarrow> string \<Rightarrow> nat \<Rightarrow> nat \<times> bool \<times> bool" where
  "unit_seconds text singular plural multiplier =
     (case or_else (mixed_number_before text plural) (mixed_number_before text singular) of
        Some count \<Rightarrow>
          if multiplier \<ge> 60 then (count * multiplier + multiplier div 2, True, True)
          else
            (case or_else (number_before text plural) (number_before text singular) of
               None \<Rightarrow> (0, False, False) | Some n \<Rightarrow> (n * multiplier, True, False))
      | None \<Rightarrow>
          (case or_else (number_before text plural) (number_before text singular) of
             None \<Rightarrow> (0, False, False) | Some n \<Rightarrow> (n * multiplier, True, False)))"

definition parse_duration :: "string \<Rightarrow> nat \<times> bool" where
  "parse_duration text =
     (let (h, fh, mh) = unit_seconds text ''hour'' ''hours'' 3600;
          (m, fm, mm) = unit_seconds text ''minute'' ''minutes'' 60;
          (s, fs, ms) = unit_seconds text ''second'' ''seconds'' 1;
          secs = h + m + s;
          found = (fh \<or> fm \<or> fs);
          mixed = (mh \<or> mm \<or> ms)
      in if \<not> mixed \<and> (has_half_quantity text ''hour'' \<or> has_trailing_half text ''hour'' \<or>
                        has_trailing_half text ''hours'')
         then (if secs \<ge> 3600 \<and> has_word text ''and'' then secs + 1800
               else if secs = 3600 then 1800 else secs, True)
         else if \<not> mixed \<and> (has_half_quantity text ''minute'' \<or> has_trailing_half text ''minute'' \<or>
                             has_trailing_half text ''minutes'')
         then (secs + 30, True) else (secs, found))"

section \<open>Labels\<close>

definition trim_end :: "string \<Rightarrow> string" where
  "trim_end s = rev (skip_blanks (rev s))"

definition has_text :: "string \<Rightarrow> string \<Rightarrow> bool" where
  "has_text s t \<longleftrightarrow> strstr s t \<noteq> None"

text \<open>The label copied into a buffer of that size, \<open>[]\<close> when it is refused.\<close>

definition copy_label :: "nat \<Rightarrow> string \<Rightarrow> string option" where
  "copy_label z span =
     (let s = trim_end span in
      if s = [] \<or> length s \<ge> z then None
      else if has_text s ''minute'' \<or> has_text s ''hour'' \<or> has_text s ''second'' then None
      else Some s)"

definition is_number_token :: "string \<Rightarrow> bool" where
  "is_number_token w =
     (if w = [] then False
      else if isdigit (hd w) then list_all isdigit (tl w)
      else list_ex (\<lambda>(x, v). x = w) WORD_NUMBERS)"

text \<open>The tokens of a span.\<close>

function span_tokens :: "string \<Rightarrow> string list" where
  "span_tokens s =
     (let t = skip_blanks s in
      if t = [] then []
      else takeWhile (\<lambda>c. c \<noteq> blank) t # span_tokens (dropWhile (\<lambda>c. c \<noteq> blank) t))"
  by pat_completeness auto
termination
proof (relation "measure length")
  fix s t assume t: "t = skip_blanks s" "t \<noteq> []"
  then have "hd t \<noteq> blank" using hd_dropWhile [of "\<lambda>c. c = blank" s] by (simp add: skip_blanks_def)
  then have "length (dropWhile (\<lambda>c. c \<noteq> blank) t) < length t"
    using t(2) by (cases t) (simp_all add: length_dropWhile_le le_imp_less_Suc)
  moreover have "length t \<le> length s" using t by (simp add: skip_blanks_def length_dropWhile_le)
  ultimately show "(dropWhile (\<lambda>c. c \<noteq> blank) t, s) \<in> measure length" by simp
qed simp

declare span_tokens.simps [simp del]

definition span_is_number_sequence :: "string \<Rightarrow> bool" where
  "span_is_number_sequence s = (span_tokens s \<noteq> [] \<and> list_all is_number_token (span_tokens s))"

definition span_has_word :: "string \<Rightarrow> string \<Rightarrow> bool" where
  "span_has_word s word = list_ex (\<lambda>t. t = word) (span_tokens s)"

definition cancellation_count :: "string \<Rightarrow> nat option" where
  "cancellation_count text =
     or_else (number_before text ''timers'') (or_else (number_before text ''timer'')
       (or_else (number_before text ''alarms'') (number_before text ''alarm'')))"

definition copy_cancel_label :: "nat \<Rightarrow> string \<Rightarrow> string option" where
  "copy_cancel_label z s =
     (if s = [] then None
      else if span_is_number_sequence s \<or> span_has_word s ''minute'' \<or> span_has_word s ''minutes'' \<or>
              span_has_word s ''hour'' \<or> span_has_word s ''hours'' \<or>
              span_has_word s ''second'' \<or> span_has_word s ''seconds''
      then None else copy_label z s)"

text \<open>The text up to the next \<^verbatim>\<open>for\<close>.\<close>

definition until_for :: "string \<Rightarrow> string" where
  "until_for s =
     (case strstr s '' for '' of None \<Rightarrow> s | Some stop \<Rightarrow> take (length s - length stop) s)"

fun label_after :: "nat \<Rightarrow> string \<Rightarrow> string list \<Rightarrow> string" where
  "label_after z text [] = []"
| "label_after z text (m # ms) =
     (case strstr text m of
        None \<Rightarrow> label_after z text ms
      | Some hit \<Rightarrow>
          (case copy_label z (until_for (drop (length m) hit)) of
             None \<Rightarrow> label_after z text ms | Some l \<Rightarrow> l))"

definition extract_label :: "nat \<Rightarrow> string \<Rightarrow> string" where
  "extract_label z text = label_after z text ['' for the '', '' for my '', '' called '']"

definition TIMER_NOUNS :: "string list" where
  "TIMER_NOUNS = [''timer'', ''timers'', ''alarm'', ''alarms'']"

fun last_noun :: "string \<Rightarrow> nat option \<Rightarrow> string list \<Rightarrow> nat option" where
  "last_noun text noun [] = noun"
| "last_noun text noun (n # ns) =
     last_noun text
       (case find_word text n of
          None \<Rightarrow> noun
        | Some hit \<Rightarrow> (case noun of None \<Rightarrow> Some hit | Some at \<Rightarrow> if hit > at then Some hit else noun)) ns"

definition article_length :: "string \<Rightarrow> nat" where
  "article_length s =
     (if strip_prefix ''the '' s \<noteq> None then 4 else if strip_prefix ''my '' s \<noteq> None then 3
      else if strip_prefix ''a '' s \<noteq> None then 2 else if strip_prefix ''an '' s \<noteq> None then 3 else 0)"

definition extract_cancel_label :: "nat \<Rightarrow> string \<Rightarrow> string" where
  "extract_cancel_label z text =
     (case first_cancel_verb text of
        None \<Rightarrow> []
      | Some (at, n) \<Rightarrow>
          (let cancel = skip_blanks (drop (at + n) text);
               labelled = (\<lambda>m. map_option (drop (length m)) (strstr cancel m)) in
           case or_else (labelled '' called '') (or_else (labelled '' for the '') (labelled '' for my '')) of
             Some start \<Rightarrow> (case copy_cancel_label z (until_for start) of None \<Rightarrow> [] | Some l \<Rightarrow> l)
           | None \<Rightarrow>
               (case last_noun cancel None TIMER_NOUNS of
                  None \<Rightarrow> []
                | Some noun \<Rightarrow>
                    (let k = article_length cancel in
                     case copy_cancel_label z (take (noun - k) (drop k cancel)) of
                       None \<Rightarrow> [] | Some l \<Rightarrow> if l = ''next'' then [] else l))))"

section \<open>All of them\<close>

fun noun_length :: "string \<Rightarrow> string list \<Rightarrow> nat" where
  "noun_length text [] = 0"
| "noun_length text (n # ns) = (if starts_word text n then length n else noun_length text ns)"

definition timer_noun_length :: "string \<Rightarrow> nat" where
  "timer_noun_length text = noun_length text TIMER_NOUNS"

fun next_timer_noun :: "string \<Rightarrow> string option" where
  "next_timer_noun [] = None"
| "next_timer_noun (c # cs) =
     (if timer_noun_length (c # cs) \<noteq> 0 then Some (c # cs) else next_timer_noun cs)"

fun skip_determiner :: "string \<Rightarrow> string list \<Rightarrow> string" where
  "skip_determiner text [] = text"
| "skip_determiner text (d # ds) = (if starts_word text d then after_word text d else skip_determiner text ds)"

definition skip_timer_determiner :: "string \<Rightarrow> string" where
  "skip_timer_determiner text = skip_determiner text [''the'', ''my'', ''these'', ''those'']"

text \<open>Both arguments are ends of one text, so their equality is that of the pointers.\<close>

definition universal_noun_phrase :: "string \<Rightarrow> string \<Rightarrow> bool" where
  "universal_noun_phrase text candidate =
     (let n = timer_noun_length candidate in
      if n = 0 \<or> next_timer_noun text \<noteq> Some candidate then False
      else
        (let tail = skip_blanks (drop n candidate) in
         if starts_word tail ''and'' then
           (let tail' = skip_timer_determiner (after_word tail ''and''); m = timer_noun_length tail' in
            if m \<noteq> 0 then next_timer_noun (skip_blanks (drop m tail')) = None
            else next_timer_noun tail' = None)
         else next_timer_noun tail = None))"

definition universal_candidate :: "string \<Rightarrow> string \<Rightarrow> string" where
  "universal_candidate q s =
     (let c0 = skip_blanks s;
          each = (q = ''every'' \<or> q = ''each'');
          c1 = (if each \<and> starts_word c0 ''single'' then after_word c0 ''single'' else c0);
          c2 = (if each \<and> starts_word c1 ''one'' then after_word c1 ''one'' else c1);
          c3 = (if starts_word c2 ''of'' then after_word c2 ''of'' else c2)
      in skip_timer_determiner c3)"

lemma find_word_drop:
  "find_word s q = Some i \<Longrightarrow> length (drop (i + n) s) < length s"
  by (auto simp: find_word_def padded_def split: option.splits if_splits dest!: strstr_Some)

function universal_from :: "string \<Rightarrow> string \<Rightarrow> string \<Rightarrow> bool" where
  "universal_from q text cursor =
     (case find_word cursor q of
        None \<Rightarrow> False
      | Some i \<Rightarrow>
          (let s = drop (i + length q) cursor in
           if universal_noun_phrase text (universal_candidate q s) then True else universal_from q text s))"
  by pat_completeness auto
termination by (relation "measure (\<lambda>(q, text, cursor). length cursor)") (auto dest: find_word_drop)

declare universal_from.simps [simp del]

definition has_universal_timer_noun :: "string \<Rightarrow> bool" where
  "has_universal_timer_noun text = list_ex (\<lambda>q. universal_from q text text) [''all'', ''every'', ''each'']"

section \<open>The request\<close>

datatype le_timer_intent_kind =
    LE_TIMER_INTENT_NONE
  | LE_TIMER_INTENT_SET
  | LE_TIMER_INTENT_CANCEL
  | LE_TIMER_INTENT_DISMISS
  | LE_TIMER_INTENT_QUERY

record le_timer_intent =
  ti_kind :: le_timer_intent_kind
  ti_seconds :: nat
  ti_cancel_all :: bool
  ti_cancel_count :: int
  ti_label :: string

definition no_intent :: le_timer_intent where
  "no_intent = \<lparr>ti_kind = LE_TIMER_INTENT_NONE, ti_seconds = 0, ti_cancel_all = False, ti_cancel_count = 0,
     ti_label = []\<rparr>"

definition mentions_timer :: "string \<Rightarrow> bool" where
  "mentions_timer text \<longleftrightarrow>
     has_word text ''timer'' \<or> has_word text ''timers'' \<or> has_word text ''alarm'' \<or> has_word text ''alarms''"

definition negates_setting :: "string \<Rightarrow> bool" where
  "negates_setting text \<longleftrightarrow>
     has_word text ''not'' \<or> has_word text ''never'' \<or> (has_word text ''don'' \<and> has_word text ''t'')"

definition before :: "nat option \<Rightarrow> nat \<Rightarrow> bool" where
  "before at verb = (case at of None \<Rightarrow> False | Some i \<Rightarrow> i < verb)"

definition negates_cancellation :: "string \<Rightarrow> nat \<Rightarrow> bool" where
  "negates_cancellation text verb \<longleftrightarrow>
     before (find_word text ''not'') verb \<or> before (find_word text ''never'') verb \<or>
     (before (find_word text ''don'') verb \<and> before (find_word text ''t'') verb)"

definition silences :: "string \<Rightarrow> bool" where
  "silences text \<longleftrightarrow>
     has_word text ''stop'' \<or> has_word text ''dismiss'' \<or> (has_word text ''shut'' \<and> has_word text ''up'') \<or>
     (has_word text ''turn'' \<and> has_word text ''off'' \<and> mentions_timer text)"

definition asks :: "string \<Rightarrow> bool" where
  "asks text \<longleftrightarrow>
     has_word text ''how'' \<or> has_word text ''what'' \<or> has_word text ''left'' \<or>
     has_word text ''remaining'' \<or> has_word text ''check''"

definition cancel_intent :: "string \<Rightarrow> nat \<Rightarrow> nat \<Rightarrow> le_timer_intent" where
  "cancel_intent text verb n =
     (let every = has_universal_timer_noun (drop (verb + n) text) in
      no_intent\<lparr>ti_kind := LE_TIMER_INTENT_CANCEL,
        ti_cancel_count := (case cancellation_count text of None \<Rightarrow> - 1 | Some c \<Rightarrow> int c),
        ti_cancel_all := every,
        ti_label := (if every then [] else extract_cancel_label LE_TIMER_INTENT_LABEL_MAX text)\<rparr>)"

definition set_intent :: "string \<Rightarrow> le_timer_intent" where
  "set_intent text =
     (let (seconds, found) = parse_duration text in
      if found \<and> seconds > 0 then
        no_intent\<lparr>ti_kind := LE_TIMER_INTENT_SET, ti_seconds := seconds,
          ti_label := extract_label LE_TIMER_INTENT_LABEL_MAX text\<rparr>
      else if has_word text ''set'' \<or> has_word text ''start'' then
        no_intent\<lparr>ti_kind := LE_TIMER_INTENT_SET, ti_seconds := 0\<rparr>
      else no_intent)"

text \<open>The request in a normalised text.\<close>

definition text_intent :: "string \<Rightarrow> le_timer_intent" where
  "text_intent text =
     (if silences text then no_intent\<lparr>ti_kind := LE_TIMER_INTENT_DISMISS\<rparr>
      else if \<not> mentions_timer text then no_intent
      else
        (case first_cancel_verb text of
           Some (verb, n) \<Rightarrow>
             if negates_cancellation text verb then no_intent else cancel_intent text verb n
         | None \<Rightarrow>
             if asks text then no_intent\<lparr>ti_kind := LE_TIMER_INTENT_QUERY\<rparr>
             else if negates_setting text then no_intent
             else set_intent text))"

definition le_timer_intent_parse :: "string \<Rightarrow> le_timer_intent" where
  "le_timer_intent_parse transcript =
     (if transcript = [] then no_intent else text_intent (normalise NORMAL_MAX transcript))"

section \<open>The answer\<close>

definition counted :: "int \<Rightarrow> string \<Rightarrow> string" where
  "counted n unit = int_digits n @ blank # unit @ (if n = 1 then [] else ''s'')"

text \<open>The text before \<^verbatim>\<open>snprintf\<close> cuts it to the buffer.\<close>

definition duration_text :: "int \<Rightarrow> string" where
  "duration_text seconds =
     (let hours = c_div seconds 3600; minutes = c_div (c_mod seconds 3600) 60; rest = c_mod seconds 60 in
      if seconds \<le> 0 then ''no time''
      else if hours \<noteq> 0 \<and> minutes \<noteq> 0 \<and> rest \<noteq> 0 then
        counted hours ''hour'' @ '', '' @ counted minutes ''minute'' @ '' and '' @ counted rest ''second''
      else if hours \<noteq> 0 \<and> rest \<noteq> 0 then counted hours ''hour'' @ '' and '' @ counted rest ''second''
      else if hours \<noteq> 0 \<and> minutes \<noteq> 0 then counted hours ''hour'' @ '' and '' @ counted minutes ''minute''
      else if hours \<noteq> 0 then counted hours ''hour''
      else if minutes \<noteq> 0 \<and> rest \<noteq> 0 then counted minutes ''minute'' @ '' and '' @ counted rest ''second''
      else if minutes \<noteq> 0 then counted minutes ''minute''
      else counted rest ''second'')"

text \<open>The text in a buffer of \<open>z\<close> bytes, \<open>0 < z\<close>.\<close>

definition snprintf :: "nat \<Rightarrow> string \<Rightarrow> string" where
  "snprintf z s = take (z - 1) s"

definition le_timer_intent_say_duration :: "int \<Rightarrow> nat \<Rightarrow> string" where
  "le_timer_intent_say_duration seconds z = snprintf z (duration_text seconds)"

definition speech_text :: "le_timer_intent \<Rightarrow> int \<Rightarrow> int \<Rightarrow> string" where
  "speech_text intent count seconds =
     (case ti_kind intent of
        LE_TIMER_INTENT_SET \<Rightarrow>
          (let duration = le_timer_intent_say_duration (int (ti_seconds intent)) 64 in
           if ti_seconds intent = 0 then ''How long should the timer be?''
           else if ti_label intent \<noteq> [] then duration @ '' timer for '' @ ti_label intent @ '', starting now.''
           else duration @ '', starting now.'')
      | LE_TIMER_INTENT_CANCEL \<Rightarrow>
          (if count < 0 then ''Which timer should I cancel?''
           else if count = 0 then ''There are no timers to cancel.''
           else if count = 1 then ''Timer cancelled.''
           else ''All '' @ int_digits count @ '' timers cancelled.'')
      | LE_TIMER_INTENT_DISMISS \<Rightarrow> []
      | LE_TIMER_INTENT_QUERY \<Rightarrow>
          (let duration = le_timer_intent_say_duration seconds 64 in
           if count \<le> 0 then ''There are no timers set.''
           else if count = 1 then duration @ '' left.''
           else int_digits count @ '' timers, the next in '' @ duration @ ''.'')
      | LE_TIMER_INTENT_NONE \<Rightarrow> [])"

definition le_timer_intent_speech :: "le_timer_intent \<Rightarrow> int \<Rightarrow> int \<Rightarrow> nat \<Rightarrow> string" where
  "le_timer_intent_speech intent count seconds z = snprintf z (speech_text intent count seconds)"

end
