(* ===== verification/Timer_Words.thy ===== *)
theory Timer_Words
  imports Timer_Intent "HOL-Library.Sublist"
begin

text \<open>
  The recogniser of timer requests at the level of words: the normalised text is the list of the
  words heard, and every search of it is a question about that list.  From this follow what a request
  needs to be destructive, what a label can be, that a spoken duration is understood as it was
  spoken, and the phrases that are misunderstood.
\<close>

section \<open>Texts as words\<close>

definition bare :: "string \<Rightarrow> bool" where
  "bare w \<longleftrightarrow> w \<noteq> [] \<and> blank \<notin> set w"

fun spaced :: "string list \<Rightarrow> string" where
  "spaced [] = []"
| "spaced (w # ws) = w @ blank # spaced ws"

definition words_text :: "string list \<Rightarrow> string" where
  "words_text ws = blank # spaced ws"

lemma spaced_append [simp]: "spaced (vs @ ws) = spaced vs @ spaced ws"
  by (induction vs) simp_all

lemma words_text_Cons: "words_text (w # ws) = blank # w @ words_text ws"
  by (simp add: words_text_def)

lemma words_text_snoc: "words_text (ws @ [w]) = words_text ws @ w @ [blank]"
  by (simp add: words_text_def)

lemma strstr_word:
  assumes "\<forall>w\<in>set ws. bare w" "bare k"
  shows "strstr (words_text ws) (blank # k @ [blank]) =
    (if k \<in> set ws then Some (words_text (dropWhile (\<lambda>w. w \<noteq> k) ws)) else None)"
  using assms(1)
proof (induction ws)
  case Nil
  then show ?case using assms(2) by (cases k) (auto simp: words_text_def bare_def)
next
  case (Cons w ws)
  have "strstr (words_text (w # ws)) (blank # k @ [blank]) =
      (if k = w then Some (blank # w @ blank # spaced ws) else strstr (words_text ws) (blank # k @ [blank]))"
    using strstr_sep [of blank k w "spaced ws"] Cons assms(2) by (simp add: words_text_def bare_def del: strstr.simps)
  then show ?case using Cons by (simp add: words_text_def del: strstr.simps)
qed

definition short :: "string \<Rightarrow> bool" where
  "short w \<longleftrightarrow> bare w \<and> length w < 32"

lemma has_word_text:
  "\<forall>w\<in>set ws. bare w \<Longrightarrow> bare k \<Longrightarrow> length k < 62 \<Longrightarrow> has_word (words_text ws) k \<longleftrightarrow> k \<in> set ws"
  by (simp add: has_word_def padded_def strstr_word del: strstr.simps)

lemma words_text_split: "words_text ws = words_text (takeWhile P ws) @ spaced (dropWhile P ws)"
  using spaced_append [of "takeWhile P ws" "dropWhile P ws"] by (simp add: words_text_def)

lemma find_word_text:
  assumes "\<forall>w\<in>set ws. bare w" "bare k" "length k < 62"
  shows "find_word (words_text ws) k =
    (if k \<in> set ws then Some (length (words_text (takeWhile (\<lambda>w. w \<noteq> k) ws))) else None)"
proof -
  let ?P = "\<lambda>w. w \<noteq> k"
  have "length (words_text ws) = length (words_text (takeWhile ?P ws)) + length (spaced (dropWhile ?P ws))"
    using words_text_split [of ws ?P] by (metis length_append)
  moreover have "length (words_text vs) = Suc (length (spaced vs))" for vs by (simp add: words_text_def)
  ultimately show ?thesis using assms
    by (simp add: find_word_def padded_def strstr_word del: strstr.simps)
qed

section \<open>Numbers before a unit\<close>

lemma back_word_stop:
  "blank \<notin> set p \<Longrightarrow> p \<noteq> [] \<Longrightarrow> back_word (p @ blank # r) acc = (rev p @ acc, blank # r)"
proof (induction p arbitrary: acc)
  case (Cons c p)
  show ?case
  proof (cases p)
    case Nil then show ?thesis by simp
  next
    case (Cons d q)
    then show ?thesis using Cons.IH [of "c # acc"] Cons.prems by auto
  qed
qed simp

lemma rev_words_text: "rev (words_text (ps @ [p])) = blank # rev p @ rev (words_text ps)"
  by (simp add: words_text_snoc)

lemma rev_words_text_blank: "\<exists>r. rev (words_text ps) = blank # r"
  by (cases ps rule: rev_cases) (auto simp: words_text_def)

lemma back_blanks_stop: "p \<noteq> [] \<Longrightarrow> blank \<notin> set p \<Longrightarrow> back_blanks (p @ r) = p @ r"
  by (cases p; cases "tl p @ r") auto

lemma back_words_text:
  "\<forall>w\<in>set ws. short w \<Longrightarrow> back_words n (rev (words_text ws)) = take n (rev ws)"
proof (induction n arbitrary: ws)
  case (Suc n)
  show ?case
  proof (cases ws rule: rev_cases)
    case Nil then show ?thesis by (simp add: words_text_def)
  next
    case (snoc ps p)
    obtain r where r: "rev (words_text ps) = blank # r" using rev_words_text_blank by blast
    have p: "rev p \<noteq> []" "blank \<notin> set (rev p)" "length p < 32" using Suc.prems snoc by (auto simp: short_def bare_def)
    have b: "back_blanks (blank # rev p @ blank # r) = rev p @ blank # r"
      using back_blanks_stop [OF p(1,2), of "blank # r"] p(1) by (cases "rev p") simp_all
    have l: "\<not> length (rev p @ blank # r) \<le> 1" using p(1) by simp
    have "back_words (Suc n) (rev (words_text ws)) = p # back_words n (blank # r)"
      using snoc r b l p back_word_stop [OF p(2,1), of r "[]"] by (simp add: rev_words_text Let_def)
    moreover have "back_words n (blank # r) = take n (rev ps)" using Suc.IH [of ps] Suc.prems r snoc by simp
    ultimately show ?thesis using snoc by (simp del: back_words.simps)
  qed
qed simp

text \<open>The number said before the first occurrence of a word.\<close>

definition count_before :: "string list \<Rightarrow> string \<Rightarrow> nat option" where
  "count_before ws u =
     (if u \<in> set ws then total_value None (take 2 (rev (takeWhile (\<lambda>w. w \<noteq> u) ws))) else None)"

lemma take_words_text:
  "take (length (words_text (takeWhile P ws))) (words_text ws) = words_text (takeWhile P ws)"
  using words_text_split [of ws P] by (metis append_eq_conv_conj)

lemma number_before_text:
  assumes "\<forall>w\<in>set ws. short w" "short u"
  shows "number_before (words_text ws) u = count_before ws u"
proof -
  have "\<forall>w\<in>set (takeWhile (\<lambda>w. w \<noteq> u) ws). short w" using assms(1) by (auto dest: set_takeWhileD)
  moreover have "0 < length (words_text (takeWhile (\<lambda>w. w \<noteq> u) ws))" by (simp add: words_text_def)
  moreover have "\<forall>w\<in>set ws. bare w" "bare u" "length u < 62" using assms by (auto simp: short_def)
  ultimately show ?thesis
    by (simp add: number_before_def number_before_at_def find_word_text take_words_text back_words_text count_before_def)
qed

section \<open>Several words at once\<close>

lemma strip_prefix_spaced:
  "\<forall>w\<in>set vs. bare w \<Longrightarrow> \<forall>w\<in>set ws. bare w \<Longrightarrow>
   strip_prefix (spaced vs) (spaced ws) \<noteq> None \<longleftrightarrow> prefix vs ws"
proof (induction vs arbitrary: ws)
  case (Cons v vs)
  show ?case
  proof (cases ws)
    case Nil
    then show ?thesis using Cons.prems by (cases v) (simp_all add: bare_def)
  next
    case (Cons w us)
    then show ?thesis using Cons.IH [of us] Cons.prems strip_prefix_sep [of blank v w "spaced vs" "spaced us"]
      by (auto simp: bare_def)
  qed
qed simp

lemma strstr_words:
  "\<forall>w\<in>set vs. bare w \<Longrightarrow> \<forall>w\<in>set ws. bare w \<Longrightarrow> vs \<noteq> [] \<Longrightarrow>
   strstr (words_text ws) (words_text vs) \<noteq> None \<longleftrightarrow> sublist vs ws"
proof (induction ws)
  case Nil
  then show ?case by (cases vs; cases "hd vs") (auto simp: words_text_def bare_def)
next
  case (Cons w ws)
  have skip: "strstr (w @ words_text ws) (words_text vs) = strstr (words_text ws) (words_text vs)"
    using Cons.prems strstr_skip [of blank w "words_text ws" "spaced vs"]
    by (simp add: words_text_def [of vs] bare_def)
  have "strip_prefix (words_text vs) (words_text (w # ws)) \<noteq> None \<longleftrightarrow> prefix vs (w # ws)"
    using strip_prefix_spaced [of vs "w # ws"] Cons.prems by (simp add: words_text_def)
  then show ?case
    using Cons skip unfolding words_text_Cons strstr.simps(2) sublist_Cons_right by auto
qed

lemma words_text_length: "length (words_text ws) = Suc (\<Sum>w\<leftarrow>ws. Suc (length w))"
proof -
  have "length (spaced ws) = (\<Sum>w\<leftarrow>ws. Suc (length w))" by (induction ws) simp_all
  then show ?thesis by (simp add: words_text_def)
qed

lemma has_phrase_text:
  assumes "\<forall>w\<in>set vs. bare w" "\<forall>w\<in>set ws. bare w" "vs \<noteq> []" "length (words_text vs) < 64"
  shows "has_phrase (words_text ws) (words_text vs) \<longleftrightarrow> sublist vs ws"
  using strstr_words [OF assms(1-3)] assms(4) by (simp add: has_phrase_def)

lemma prefix_sep:
  "x \<notin> set a \<Longrightarrow> x \<notin> set b \<Longrightarrow> prefix (a @ x # s) (b @ x # t) \<longleftrightarrow> a = b \<and> prefix s t"
  by (auto simp: prefix_def append_sep_eq)

lemma suffix_words_text:
  "\<forall>w\<in>set vs. bare w \<Longrightarrow> \<forall>w\<in>set ws. bare w \<Longrightarrow> suffix (words_text vs) (words_text ws) \<longleftrightarrow> suffix vs ws"
proof (induction vs arbitrary: ws rule: rev_induct)
  case Nil
  then show ?case using rev_words_text_blank [of ws] by (auto simp: suffix_to_prefix words_text_def [of "[]"])
next
  case (snoc v vs)
  show ?case
  proof (cases ws rule: rev_cases)
    case Nil
    then show ?thesis using snoc.prems by (auto simp: bare_def words_text_snoc suffix_def words_text_def append_eq_Cons_conv)
  next
    case (snoc us u)
    obtain r where r: "rev (words_text vs) = blank # r" using rev_words_text_blank by blast
    obtain q where q: "rev (words_text us) = blank # q" using rev_words_text_blank by blast
    have "suffix (words_text (vs @ [v])) (words_text ws) \<longleftrightarrow> v = u \<and> prefix r q"
      using snoc.prems snoc prefix_sep [of blank "rev v" "rev u" r q]
      by (simp add: suffix_to_prefix rev_words_text r q bare_def)
    also have "prefix r q \<longleftrightarrow> suffix (words_text vs) (words_text us)"
      by (simp add: suffix_to_prefix r q)
    finally show ?thesis using "snoc.IH" [of us] snoc.prems snoc by auto
  qed
qed

lemma FRACTION_words: "FRACTION = words_text [''and'', ''a'', ''half'']"
  by (simp add: FRACTION_def words_text_def)

text \<open>The number said before \<^verbatim>\<open>and a half\<close> and the first occurrence of a word.\<close>

definition mixed_before :: "string list \<Rightarrow> string \<Rightarrow> nat option" where
  "mixed_before ws u =
     (let pre = takeWhile (\<lambda>w. w \<noteq> u) ws in
      if u \<in> set ws \<and> suffix [''and'', ''a'', ''half''] pre
      then total_value None (take 2 (drop 3 (rev pre))) else None)"

lemma back_words_butlast:
  assumes "\<forall>w\<in>set ps. short w"
  shows "back_words n (rev (butlast (words_text ps))) = take n (rev ps)"
proof (cases ps rule: rev_cases)
  case Nil
  then show ?thesis by (cases n) (simp_all add: words_text_def)
next
  case (snoc qs p)
  have p: "rev p \<noteq> []" "blank \<notin> set (rev p)" using assms snoc by (auto simp: short_def bare_def)
  have "back_blanks (rev (words_text ps)) = back_blanks (rev (butlast (words_text ps)))"
  proof -
    have "rev (butlast (words_text ps)) = rev p @ rev (words_text qs)"
      using snoc by (simp add: words_text_snoc butlast_append)
    moreover have "rev (words_text ps) = blank # rev p @ rev (words_text qs)" using snoc by (simp add: rev_words_text)
    ultimately show ?thesis using p(1) by (cases "rev p") simp_all
  qed
  moreover have "length (rev (butlast (words_text ps))) > 1"
    using snoc p(1) rev_words_text_blank [of qs] by (cases p) (auto simp: words_text_snoc butlast_append words_text_def)
  moreover have "length (rev (words_text ps)) > 1" using snoc p(1) by (cases p) (auto simp: words_text_snoc)
  ultimately have "back_words n (rev (butlast (words_text ps))) = back_words n (rev (words_text ps))"
    by (cases n) (simp_all add: Let_def)
  then show ?thesis using back_words_text [OF assms] by simp
qed

lemma mixed_number_before_text:
  assumes "\<forall>w\<in>set ws. short w" "short u"
  shows "mixed_number_before (words_text ws) u = mixed_before ws u"
proof (cases "u \<in> set ws")
  case False
  then show ?thesis using assms by (simp add: mixed_number_before_def find_word_text short_def mixed_before_def)
next
  case True
  let ?pre = "takeWhile (\<lambda>w. w \<noteq> u) ws" and ?f = "[''and'', ''a'', ''half'']"
  let ?i = "length (words_text ?pre)"
  have pre: "\<forall>w\<in>set ?pre. short w" using assms(1) by (auto dest: set_takeWhileD)
  have fbare: "\<forall>w\<in>set ?f. bare w" by (simp add: bare_def)
  have at: "find_word (words_text ws) u = Some ?i"
  proof -
    have "\<forall>w\<in>set ws. bare w" using assms(1) by (simp add: short_def)
    moreover have "bare u" "length u < 62" using assms(2) by (auto simp: short_def)
    ultimately show ?thesis using find_word_text [of ws u] True by metis
  qed
  have tk: "take n (drop m (words_text ws)) = take n (drop m (words_text ?pre))" if "n + m \<le> ?i" for n m
  proof -
    have "take (n + m) (words_text ws) = take (n + m) (words_text ?pre)"
    proof -
      have "take (n + m) (words_text ?pre) = take (n + m) (take ?i (words_text ws))"
        by (simp only: take_words_text)
      also have "\<dots> = take (n + m) (words_text ws)" unfolding take_take using that by (simp only: min_absorb1)
      finally show ?thesis by simp
    qed
    moreover have "take n (drop m x) = drop m (take (n + m) x)" for x :: string by (simp add: drop_take)
    ultimately show ?thesis by simp
  qed
  have suf: "suffix FRACTION (words_text ?pre) \<longleftrightarrow> suffix ?f ?pre"
    unfolding FRACTION_words using pre fbare by (intro suffix_words_text) (auto simp: short_def)
  show ?thesis
  proof (cases "suffix ?f ?pre")
    case False
    have "?i < length FRACTION \<or> take (length FRACTION) (drop (?i - length FRACTION) (words_text ws)) \<noteq> FRACTION"
    proof (rule ccontr)
      assume "\<not> ?thesis"
      then have "\<not> ?i < length FRACTION" "take (length FRACTION) (drop (?i - length FRACTION) (words_text ws)) = FRACTION"
        by auto
      then have "drop (?i - length FRACTION) (words_text ?pre) = FRACTION" using tk by simp
      then have "suffix FRACTION (words_text ?pre)" by (metis suffix_drop)
      then show False using suf False by simp
    qed
    then show ?thesis using at False by (auto simp: mixed_number_before_def mixed_before_def Let_def)
  next
    case fr: True
    then obtain ps where ps: "?pre = ps @ ?f" by (auto simp: suffix_def)
    have wt: "words_text ?pre = butlast (words_text ps) @ FRACTION"
    proof -
      have "words_text ?pre = words_text ps @ spaced ?f" by (simp add: ps words_text_def)
      moreover have "words_text ps = butlast (words_text ps) @ [blank]"
        using rev_words_text_blank [of ps] by (metis append_butlast_last_id hd_rev list.sel(1) rev_is_Nil_conv list.distinct(1))
      ultimately show ?thesis by (simp add: FRACTION_words words_text_def [of ?f])
    qed
    then have i: "?i - length FRACTION = length (butlast (words_text ps))" "\<not> ?i < length FRACTION" by simp_all
    have "take (length FRACTION) (drop (?i - length FRACTION) (words_text ws)) = FRACTION"
      using tk [of "length FRACTION" "?i - length FRACTION"] i wt by simp
    then have "mixed_number_before (words_text ws) u =
        number_before_at (words_text ws) (Some (length (butlast (words_text ps))))"
      using at i by (simp add: mixed_number_before_def)
    also have "take (length (butlast (words_text ps))) (words_text ws) = butlast (words_text ps)"
      using tk [of "length (butlast (words_text ps))" 0] wt by simp
    then have "number_before_at (words_text ws) (Some (length (butlast (words_text ps)))) =
        (if butlast (words_text ps) = [] then None else total_value None (take 2 (rev ps)))"
    proof -
      have "\<forall>w\<in>set ps. short w" using pre ps by simp
      then show ?thesis
        using \<open>take (length (butlast (words_text ps))) (words_text ws) = butlast (words_text ps)\<close>
        by (auto simp: number_before_at_def back_words_butlast simp del: length_butlast)
    qed
    also have "\<dots> = total_value None (take 2 (rev ps))"
      by (cases ps rule: rev_cases) (auto simp: words_text_snoc butlast_append words_text_def)
    finally show ?thesis using True fr ps by (simp add: mixed_before_def)
  qed
qed

text \<open>The duration at the level of words.\<close>

definition seconds_of :: "string list \<Rightarrow> string \<Rightarrow> string \<Rightarrow> nat \<Rightarrow> nat \<times> bool \<times> bool" where
  "seconds_of ws singular plural multiplier =
     (case or_else (mixed_before ws plural) (mixed_before ws singular) of
        Some count \<Rightarrow>
          if multiplier \<ge> 60 then (count * multiplier + multiplier div 2, True, True)
          else (case or_else (count_before ws plural) (count_before ws singular) of
                  None \<Rightarrow> (0, False, False) | Some n \<Rightarrow> (n * multiplier, True, False))
      | None \<Rightarrow>
          (case or_else (count_before ws plural) (count_before ws singular) of
             None \<Rightarrow> (0, False, False) | Some n \<Rightarrow> (n * multiplier, True, False)))"

definition half_of :: "string list \<Rightarrow> string \<Rightarrow> bool" where
  "half_of ws u \<longleftrightarrow>
     sublist [''half'', ''a'', u] ws \<or> sublist [''half'', ''an'', u] ws \<or>
     sublist [u, ''and'', ''a'', ''half''] ws \<or> sublist [u @ ''s'', ''and'', ''a'', ''half''] ws"

definition duration_of :: "string list \<Rightarrow> nat \<times> bool" where
  "duration_of ws =
     (let (h, fh, mh) = seconds_of ws ''hour'' ''hours'' 3600;
          (m, fm, mm) = seconds_of ws ''minute'' ''minutes'' 60;
          (s, fs, ms) = seconds_of ws ''second'' ''seconds'' 1;
          secs = h + m + s; found = (fh \<or> fm \<or> fs); mixed = (mh \<or> mm \<or> ms)
      in if \<not> mixed \<and> half_of ws ''hour''
         then (if secs \<ge> 3600 \<and> ''and'' \<in> set ws then secs + 1800
               else if secs = 3600 then 1800 else secs, True)
         else if \<not> mixed \<and> half_of ws ''minute'' then (secs + 30, True) else (secs, found))"

lemma half_text:
  assumes "\<forall>w\<in>set ws. bare w" "u = ''hour'' \<or> u = ''minute''"
  shows "has_half_quantity (words_text ws) u \<or> has_trailing_half (words_text ws) u \<or>
      has_trailing_half (words_text ws) (u @ ''s'') \<longleftrightarrow> half_of ws u"
proof -
  have eq: "'' half a '' @ u @ '' '' = words_text [''half'', ''a'', u]"
    "'' half an '' @ u @ '' '' = words_text [''half'', ''an'', u]"
    "'' '' @ u @ '' and a half '' = words_text [u, ''and'', ''a'', ''half'']"
    "'' '' @ (u @ ''s'') @ '' and a half '' = words_text [u @ ''s'', ''and'', ''a'', ''half'']"
    by (simp_all add: words_text_def)
  have len: "length u \<le> 6" and "bare u" "bare (u @ ''s'')" using assms(2) by (auto simp: bare_def)
  moreover have "bare ''half''" "bare ''a''" "bare ''an''" "bare ''and''" by (simp_all add: bare_def)
  ultimately have
    "has_phrase (words_text ws) (words_text [''half'', ''a'', u]) \<longleftrightarrow> sublist [''half'', ''a'', u] ws"
    "has_phrase (words_text ws) (words_text [''half'', ''an'', u]) \<longleftrightarrow> sublist [''half'', ''an'', u] ws"
    "has_phrase (words_text ws) (words_text [u, ''and'', ''a'', ''half'']) \<longleftrightarrow> sublist [u, ''and'', ''a'', ''half''] ws"
    "has_phrase (words_text ws) (words_text [u @ ''s'', ''and'', ''a'', ''half'']) \<longleftrightarrow>
      sublist [u @ ''s'', ''and'', ''a'', ''half''] ws"
    using assms(1) by (simp_all add: has_phrase_text words_text_length)
  then show ?thesis unfolding has_half_quantity_def has_trailing_half_def eq half_of_def by blast
qed

lemma parse_duration_text:
  assumes "\<forall>w\<in>set ws. short w"
  shows "parse_duration (words_text ws) = duration_of ws"
proof -
  have b: "\<forall>w\<in>set ws. bare w" using assms by (simp add: short_def)
  have s: "short ''hour''" "short ''hours''" "short ''minute''" "short ''minutes''" "short ''second''" "short ''seconds''"
    by (simp_all add: short_def bare_def)
  have "unit_seconds (words_text ws) x y m = seconds_of ws x y m" if "short x" "short y" for x y m
    unfolding unit_seconds_def seconds_of_def
    by (simp only: number_before_text [OF assms that(1)] number_before_text [OF assms that(2)]
        mixed_number_before_text [OF assms that(1)] mixed_number_before_text [OF assms that(2)])
  moreover have "has_word (words_text ws) ''and'' \<longleftrightarrow> ''and'' \<in> set ws"
    using b by (intro has_word_text) (simp_all add: bare_def)
  moreover have "has_half_quantity (words_text ws) u \<or> has_trailing_half (words_text ws) u \<or>
      has_trailing_half (words_text ws) (u @ ''s'') \<longleftrightarrow> half_of ws u" if "u = ''hour'' \<or> u = ''minute''" for u
    using b that by (rule half_text)
  from this [of "''hour''"] this [of "''minute''"]
  have "has_half_quantity (words_text ws) ''hour'' \<or> has_trailing_half (words_text ws) ''hour'' \<or>
      has_trailing_half (words_text ws) ''hours'' \<longleftrightarrow> half_of ws ''hour''"
    "has_half_quantity (words_text ws) ''minute'' \<or> has_trailing_half (words_text ws) ''minute'' \<or>
      has_trailing_half (words_text ws) ''minutes'' \<longleftrightarrow> half_of ws ''minute''" by simp_all
  ultimately show ?thesis using s unfolding parse_duration_def duration_of_def by (simp only: simp_thms)
qed

section \<open>What is heard of a transcript\<close>

definition spoken_char :: "char \<Rightarrow> char" where
  "spoken_char c = (if isalnum c then tolower c else blank)"

lemma spoken_char_simps:
  "isalnum c \<Longrightarrow> spoken_char c = tolower c" "\<not> isalnum c \<Longrightarrow> spoken_char c = blank"
  by (simp_all add: spoken_char_def)

text \<open>The words of a transcript: its maximal runs of letters and digits, in lower case.\<close>

definition spoken :: "string \<Rightarrow> string list" where
  "spoken s = span_tokens (map spoken_char s)"

fun collapse :: "bool \<Rightarrow> string \<Rightarrow> string" where
  "collapse last_space [] = (if last_space then [] else [blank])"
| "collapse last_space (c # cs) =
     (if c \<noteq> blank then c # collapse False cs
      else if \<not> last_space then blank # collapse True cs else collapse True cs)"

lemma span_tokens_blank: "span_tokens (blank # s) = span_tokens s"
  by (subst span_tokens.simps, subst (2) span_tokens.simps) (simp add: skip_blanks_def)

lemma span_tokens_Nil [simp]: "span_tokens [] = []"
  by (subst span_tokens.simps) (simp add: skip_blanks_def)

lemma span_tokens_word:
  "c \<noteq> blank \<Longrightarrow> span_tokens (c # s) =
     (c # takeWhile (\<lambda>c. c \<noteq> blank) s) # span_tokens (dropWhile (\<lambda>c. c \<noteq> blank) s)"
  by (subst span_tokens.simps) (simp add: skip_blanks_def)

lemma collapse_words:
  "collapse True s = spaced (span_tokens s) \<and>
   collapse False s = takeWhile (\<lambda>c. c \<noteq> blank) s @ blank # spaced (span_tokens (dropWhile (\<lambda>c. c \<noteq> blank) s))"
  by (induction s) (auto simp: span_tokens_blank span_tokens_word)

lemma tolower_not_blank: "isalnum c \<Longrightarrow> tolower c \<noteq> blank"
  by (auto simp: isalnum_def isalpha_def isdigit_def tolower_def char_eq_ord simp del: of_char_eq_iff)

text \<open>What the loop adds, finished by the closing space, for which there is always room.\<close>

lemma normalise_loop_collapse:
  assumes "length out + 1 < z"
  shows "\<exists>k. (length out + 1 + length s < z \<longrightarrow> length s \<le> k) \<and>
     length (fst (normalise_loop z out last_space s)) + 1 < z \<and>
     fst (normalise_loop z out last_space s) @ (if snd (normalise_loop z out last_space s) then [] else [blank]) =
       out @ collapse last_space (map spoken_char (take k s))"
  using assms
proof (induction s arbitrary: out last_space)
  case (Cons c s)
  show ?case
  proof (cases "length out + 2 < z")
    case False
    then show ?thesis using Cons.prems by (intro exI [of _ 0]) simp
  next
    case room: True
    show ?thesis
    proof (cases "isalnum c")
      case True
      obtain k where k: "length (out @ [tolower c]) + 1 + length s < z \<longrightarrow> length s \<le> k"
        "length (fst (normalise_loop z (out @ [tolower c]) False s)) + 1 < z"
        "fst (normalise_loop z (out @ [tolower c]) False s) @
           (if snd (normalise_loop z (out @ [tolower c]) False s) then [] else [blank]) =
         (out @ [tolower c]) @ collapse False (map spoken_char (take k s))"
        using Cons.IH [of "out @ [tolower c]" False] room by auto
      show ?thesis using room True k tolower_not_blank [OF True]
        by (intro exI [of _ "Suc k"]) (auto simp: spoken_char_simps)
    next
      case False
      show ?thesis
      proof (cases last_space)
        case True
        obtain k where "length out + 1 + length s < z \<longrightarrow> length s \<le> k"
          "length (fst (normalise_loop z out True s)) + 1 < z"
          "fst (normalise_loop z out True s) @ (if snd (normalise_loop z out True s) then [] else [blank]) =
            out @ collapse True (map spoken_char (take k s))"
          using Cons.IH [of out True] Cons.prems by auto
        then show ?thesis using room \<open>\<not> isalnum c\<close> True
          by (intro exI [of _ "Suc k"]) (auto simp: spoken_char_simps)
      next
        case sp: False
        obtain k where "length (out @ [blank]) + 1 + length s < z \<longrightarrow> length s \<le> k"
          "length (fst (normalise_loop z (out @ [blank]) True s)) + 1 < z"
          "fst (normalise_loop z (out @ [blank]) True s) @
             (if snd (normalise_loop z (out @ [blank]) True s) then [] else [blank]) =
           (out @ [blank]) @ collapse True (map spoken_char (take k s))"
          using Cons.IH [of "out @ [blank]" True] room by auto
        then show ?thesis using room False sp
          by (intro exI [of _ "Suc k"]) (auto simp: spoken_char_simps)
      qed
    qed
  qed
qed simp

lemma normalise_spoken:
  assumes "2 < z"
  shows "\<exists>k. (length s + 2 < z \<longrightarrow> length s \<le> k) \<and> normalise z s = words_text (spoken (take k s)) \<and>
    length (normalise z s) < z"
proof -
  obtain k where k: "length s + 2 < z \<longrightarrow> length s \<le> k"
      "length (fst (normalise_loop z [blank] True s)) + 1 < z"
      "fst (normalise_loop z [blank] True s) @ (if snd (normalise_loop z [blank] True s) then [] else [blank]) =
        blank # collapse True (map spoken_char (take k s))"
    using normalise_loop_collapse [of "[blank]" z s True] assms by auto
  then have "normalise z s = words_text (spoken (take k s))"
    using assms collapse_words [of "map spoken_char (take k s)"]
    by (auto simp: normalise_def Let_def words_text_def spoken_def split: prod.splits)
  moreover have "length (normalise z s) < z"
    using k(2) assms by (auto simp: normalise_def Let_def split: prod.splits)
  ultimately show ?thesis using k(1) by blast
qed

text \<open>The words the recogniser works on.\<close>

definition heard :: "string \<Rightarrow> string list" where
  "heard s = span_tokens (normalise NORMAL_MAX s)"

lemma span_tokens_bare: "w \<in> set (span_tokens s) \<Longrightarrow> bare w"
proof (induction s rule: span_tokens.induct)
  case (1 s)
  let ?t = "skip_blanks s"
  show ?case
  proof (cases "?t = []")
    case True
    then show ?thesis using 1(2) by (subst (asm) span_tokens.simps) simp
  next
    case False
    then have "hd ?t \<noteq> blank" using hd_dropWhile [of "\<lambda>c. c = blank" s] by (simp add: skip_blanks_def)
    then have "bare (takeWhile (\<lambda>c. c \<noteq> blank) ?t)"
      using False by (cases ?t) (auto simp: bare_def dest: set_takeWhileD)
    then show ?thesis using 1 False by (subst (asm) (2) span_tokens.simps) (auto simp: Let_def)
  qed
qed

lemma span_tokens_spaced: "\<forall>w\<in>set ws. bare w \<Longrightarrow> span_tokens (spaced ws) = ws"
proof (induction ws)
  case (Cons w ws)
  obtain c v where w: "w = c # v" "c \<noteq> blank" "blank \<notin> set v" using Cons.prems by (cases w) (auto simp: bare_def)
  have "takeWhile (\<lambda>c. c \<noteq> blank) (v @ blank # spaced ws) = v \<and>
      dropWhile (\<lambda>c. c \<noteq> blank) (v @ blank # spaced ws) = blank # spaced ws"
    using w(3) by (intro takeWhile_all_append) auto
  then show ?case using Cons w by (simp add: span_tokens_word span_tokens_blank)
qed simp

lemma heard_text: "normalise NORMAL_MAX s = words_text (heard s)" "w \<in> set (heard s) \<Longrightarrow> bare w"
proof -
  obtain k where "normalise NORMAL_MAX s = words_text (spoken (take k s))"
    using normalise_spoken [of NORMAL_MAX s] by (auto simp: NORMAL_MAX_def)
  then show "normalise NORMAL_MAX s = words_text (heard s)"
    using span_tokens_spaced [of "spoken (take k s)"] span_tokens_bare
    by (simp add: heard_def words_text_def span_tokens_blank spoken_def)
  show "w \<in> set (heard s) \<Longrightarrow> bare w" by (simp add: heard_def span_tokens_bare)
qed

lemma heard_spoken: "length s < 254 \<Longrightarrow> heard s = spoken s"
  using normalise_spoken [of NORMAL_MAX s] span_tokens_spaced [of "spoken s"] span_tokens_bare
  by (auto simp: NORMAL_MAX_def heard_def words_text_def span_tokens_blank spoken_def)

end
