(* ===== verification/Timer_Requests.thy ===== *)
theory Timer_Requests
  imports Timer_Words
begin

text \<open>
  What the recogniser of timer requests guarantees: what must have been said before timers are
  cancelled, what a label can be, that a duration spoken back is understood as it was spoken, and
  the phrases that are misunderstood.
\<close>

section \<open>Destructive requests\<close>

lemma has_word_heard:
  "bare k \<Longrightarrow> length k < 62 \<Longrightarrow> has_word (normalise NORMAL_MAX s) k \<longleftrightarrow> k \<in> set (heard s)"
  unfolding heard_text(1) by (rule has_word_text) (auto intro: heard_text(2))

lemma find_word_heard:
  "bare k \<Longrightarrow> length k < 62 \<Longrightarrow> find_word (normalise NORMAL_MAX s) k =
     (if k \<in> set (heard s) then Some (length (words_text (takeWhile (\<lambda>w. w \<noteq> k) (heard s)))) else None)"
  unfolding heard_text(1) by (rule find_word_text) (auto intro: heard_text(2))

lemma offset_less:
  "k \<in> set (takeWhile (\<lambda>w. w \<noteq> v) ws) \<Longrightarrow>
   length (words_text (takeWhile (\<lambda>w. w \<noteq> k) ws)) < length (words_text (takeWhile (\<lambda>w. w \<noteq> v) ws))"
  by (induction ws) (auto simp: words_text_def split: if_splits)

lemma set_takeWhile_mono: "(\<And>x. P x \<Longrightarrow> Q x) \<Longrightarrow> set (takeWhile P xs) \<subseteq> set (takeWhile Q xs)"
  by (induction xs) auto

text \<open>A word said before the verb stops the cancellation.\<close>

lemma before_verb:
  assumes "bare k" "bare v" "length k < 62" "length v < 62" "v \<in> set (heard s)"
    and "find_word (normalise NORMAL_MAX s) v = Some i"
    and "k \<in> set (takeWhile (\<lambda>w. w \<noteq> v) (heard s))"
  shows "before (find_word (normalise NORMAL_MAX s) k) i"
proof -
  have "k \<in> set (heard s)" using assms(7) by (rule set_takeWhileD [THEN conjunct1])
  then show ?thesis using assms offset_less [OF assms(7)] by (auto simp: find_word_heard before_def)
qed

lemma first_cancel_verb_loop_found:
  "first_cancel_verb_loop text acc vs = Some (i, n) \<Longrightarrow>
   acc = Some (i, n) \<or> (\<exists>v\<in>set vs. find_word text v = Some i \<and> n = length v)"
proof (induction vs arbitrary: acc)
  case (Cons v vs)
  let ?acc = "case find_word text v of
      None \<Rightarrow> acc
    | Some hit \<Rightarrow> (case acc of None \<Rightarrow> Some (hit, length v)
        | Some (at, n) \<Rightarrow> if hit < at then Some (hit, length v) else acc)"
  have "?acc = acc \<or> (\<exists>hit. find_word text v = Some hit \<and> ?acc = Some (hit, length v))"
    by (auto split: option.splits)
  moreover have "?acc = Some (i, n) \<or> (\<exists>v\<in>set vs. find_word text v = Some i \<and> n = length v)"
    using Cons by simp
  ultimately show ?case by auto
qed simp

lemma first_cancel_verb_found:
  "first_cancel_verb text = Some (i, n) \<Longrightarrow> \<exists>v\<in>set CANCEL_VERBS. find_word text v = Some i \<and> n = length v"
  using first_cancel_verb_loop_found [of "text" None CANCEL_VERBS i n] by (simp add: first_cancel_verb_def)

lemma strstr_exists: "strstr s n \<noteq> None \<longleftrightarrow> (\<exists>a b. s = a @ n @ b)"
proof
  assume "strstr s n \<noteq> None"
  then show "\<exists>a b. s = a @ n @ b" using strstr_Some by fastforce
next
  assume "\<exists>a b. s = a @ n @ b"
  then obtain a b where "s = a @ n @ b" by blast
  then show "strstr s n \<noteq> None"
  proof (induction a arbitrary: s)
    case Nil
    then show ?case using strstr_here [of n s] by simp
  next
    case (Cons c a)
    then show ?case by simp
  qed
qed

lemma find_word_drop_word: "find_word (drop m text) q \<noteq> None \<Longrightarrow> has_word text q"
proof -
  assume "find_word (drop m text) q \<noteq> None"
  then obtain p where p: "padded q = Some p" "strstr (drop m text) p \<noteq> None"
    by (auto simp: find_word_def split: option.splits)
  then obtain a b where "drop m text = a @ p @ b" using strstr_exists by blast
  then have "text = (take m text @ a) @ p @ b" by (metis append_assoc append_take_drop_id)
  then have "strstr text p \<noteq> None" unfolding strstr_exists by blast
  then show ?thesis using p(1) by (simp add: has_word_def)
qed

lemma universal_needs_quantifier:
  "has_universal_timer_noun (drop m text) \<Longrightarrow> has_word text ''all'' \<or> has_word text ''every'' \<or> has_word text ''each''"
proof -
  have "universal_from q t s \<Longrightarrow> find_word s q \<noteq> None" for q t s
    by (subst (asm) universal_from.simps) (auto split: option.splits)
  then show "has_universal_timer_noun (drop m text) \<Longrightarrow> ?thesis"
    using find_word_drop_word by (auto simp: has_universal_timer_noun_def list_ex_iff) metis+
qed

lemma CANCEL_VERBS_bare: "v \<in> set CANCEL_VERBS \<Longrightarrow> bare v \<and> length v < 62"
  by (auto simp: CANCEL_VERBS_def bare_def)



section \<open>Labels\<close>

definition label_ok :: "string \<Rightarrow> bool" where
  "label_ok l \<longleftrightarrow> length l < LE_TIMER_INTENT_LABEL_MAX \<and>
     \<not> has_text l ''minute'' \<and> \<not> has_text l ''hour'' \<and> \<not> has_text l ''second'' \<and>
     (\<forall>c\<in>set l. isalnum c \<or> c = blank)"

definition clean :: "string \<Rightarrow> bool" where
  "clean s \<longleftrightarrow> (\<forall>c\<in>set s. isalnum c \<or> c = blank)"

lemma clean_sub: "clean s \<Longrightarrow> set t \<subseteq> set s \<Longrightarrow> clean t"
  by (auto simp: clean_def)

lemma isalnum_tolower: "isalnum c \<Longrightarrow> isalnum (tolower c)"
  by (auto simp: isalnum_def isalpha_def isdigit_def tolower_def)

lemma clean_snoc: "clean (s @ [c]) \<longleftrightarrow> clean s \<and> (isalnum c \<or> c = blank)" "clean []"
  by (auto simp: clean_def)

lemma clean_normalise_loop: "clean out \<Longrightarrow> clean (fst (normalise_loop z out last_space s))"
  by (induction s arbitrary: out last_space) (simp_all add: clean_snoc isalnum_tolower)

lemma clean_normalise: "clean (normalise z s)"
proof -
  obtain out l where n: "normalise_loop z (if 1 < z then [blank] else []) True s = (out, l)" by fastforce
  have "clean (if 1 < z then [blank] else [])" by (simp add: clean_def)
  then have "clean out" using clean_normalise_loop [of "if 1 < z then [blank] else []" z True s] n by simp
  then show ?thesis unfolding normalise_def n by (simp add: clean_snoc)
qed

lemma strstr_set: "strstr s n = Some t \<Longrightarrow> set t \<subseteq> set s"
  using strstr_Some [of s n t] by auto

lemma until_for_set: "set (until_for s) \<subseteq> set s"
  by (auto simp: until_for_def split: option.splits dest: in_set_takeD)

lemma trim_end_set: "set (trim_end s) \<subseteq> set s"
  by (auto simp: trim_end_def skip_blanks_def dest: set_dropWhileD)

lemma label_ok_Nil: "label_ok []"
  by (simp add: label_ok_def LE_TIMER_INTENT_LABEL_MAX_def has_text_def)

lemma copy_label_ok: "clean s \<Longrightarrow> copy_label LE_TIMER_INTENT_LABEL_MAX s = Some l \<Longrightarrow> label_ok l"
  using trim_end_set [of s] by (auto simp: copy_label_def label_ok_def clean_def Let_def split: if_splits)

lemma copy_cancel_label_ok:
  "clean s \<Longrightarrow> copy_cancel_label LE_TIMER_INTENT_LABEL_MAX s = Some l \<Longrightarrow> label_ok l"
  by (auto simp: copy_cancel_label_def copy_label_ok split: if_splits)

lemma label_after_ok: "clean s \<Longrightarrow> label_ok (label_after LE_TIMER_INTENT_LABEL_MAX s ms)"
proof (induction ms)
  case (Cons m ms)
  have "clean (until_for (drop (length m) hit))" if "strstr s m = Some hit" for hit
    using strstr_set [OF that] until_for_set [of "drop (length m) hit"] set_drop_subset [of "length m" hit]
      clean_sub [OF Cons.prems] by (meson subset_trans)
  then show ?case using Cons by (auto split: option.split dest: copy_label_ok)
qed (simp add: label_ok_Nil)

lemma extract_label_ok: "clean s \<Longrightarrow> label_ok (extract_label LE_TIMER_INTENT_LABEL_MAX s)"
  unfolding extract_label_def by (rule label_after_ok)

lemma skip_blanks_set: "set (skip_blanks s) \<subseteq> set s"
  by (auto simp: skip_blanks_def dest: set_dropWhileD)

lemma or_else_Some: "or_else a b = Some x \<longleftrightarrow> a = Some x \<or> a = None \<and> b = Some x"
  by (cases a) (auto simp: or_else_def)

lemma extract_cancel_label_ok:
  assumes "clean s" shows "label_ok (extract_cancel_label LE_TIMER_INTENT_LABEL_MAX s)"
proof (cases "first_cancel_verb s")
  case None
  then show ?thesis by (simp add: extract_cancel_label_def label_ok_Nil)
next
  case (Some v)
  obtain at n where v: "v = (at, n)" by (cases v)
  let ?c = "skip_blanks (drop (at + n) s)"
  have c: "clean ?c" using assms skip_blanks_set set_drop_subset by (metis clean_sub subset_trans)
  let ?l = "\<lambda>m. map_option (drop (length m)) (strstr ?c m)"
  have l: "clean (until_for start)" if m: "?l m = Some start" for m start
  proof -
    obtain hit where "strstr ?c m = Some hit" "start = drop (length m) hit" using m by auto
    then have "set start \<subseteq> set ?c" using strstr_set [of ?c m hit] set_drop_subset [of "length m" hit] by simp
    then show ?thesis using clean_sub [OF c] until_for_set [of start] by (metis subset_trans)
  qed
  let ?start = "or_else (?l '' called '') (or_else (?l '' for the '') (?l '' for my ''))"
  show ?thesis
  proof (cases ?start)
    case (Some start)
    then have "clean (until_for start)" using l unfolding or_else_Some by blast
    then show ?thesis using \<open>first_cancel_verb s = Some v\<close> v Some
      by (auto simp: extract_cancel_label_def Let_def label_ok_Nil split: option.split
          intro: copy_cancel_label_ok [rotated])
  next
    case None
    have "clean (take (k - j) (drop j ?c))" for k j
      using c by (auto intro: clean_sub dest: in_set_takeD in_set_dropD)
    then show ?thesis using \<open>first_cancel_verb s = Some v\<close> v None
      by (auto simp: extract_cancel_label_def Let_def label_ok_Nil split: option.split
          intro: copy_cancel_label_ok [rotated])
  qed
qed

text \<open>
  Whatever was said, the label of a request fits its buffer, names no unit of time, and consists of
  letters, digits and spaces only, so that it is safe to store and to write in a document.
\<close>

theorem timer_label_safe:
  "length (ti_label (le_timer_intent_parse t)) < LE_TIMER_INTENT_LABEL_MAX \<and>
   \<not> has_text (ti_label (le_timer_intent_parse t)) ''minute'' \<and>
   \<not> has_text (ti_label (le_timer_intent_parse t)) ''hour'' \<and>
   \<not> has_text (ti_label (le_timer_intent_parse t)) ''second'' \<and>
   list_all (\<lambda>c. isalnum c \<or> c = blank) (ti_label (le_timer_intent_parse t))"
proof -
  have "label_ok (ti_label (text_intent s))" if "clean s" for s
  proof -
    have "label_ok (ti_label (set_intent s))"
      using extract_label_ok [OF that] by (simp add: set_intent_def no_intent_def label_ok_Nil split: prod.split)
    moreover have "label_ok (ti_label (cancel_intent s i n))" for i n
      using extract_cancel_label_ok [OF that] by (simp add: cancel_intent_def no_intent_def label_ok_Nil Let_def)
    ultimately show ?thesis by (simp add: text_intent_def no_intent_def label_ok_Nil split: option.split prod.split)
  qed
  then have "label_ok (ti_label (le_timer_intent_parse t))"
    using clean_normalise by (simp add: le_timer_intent_parse_def no_intent_def label_ok_Nil)
  then show ?thesis by (simp add: label_ok_def list_all_iff)
qed

section \<open>Spoken durations\<close>

lemma dec_value_mono: "v \<le> dec_value v ds"
proof (induction ds arbitrary: v)
  case (Cons d ds)
  have "v \<le> v * 10 + digit_value d" by simp
  then show ?case using Cons [of "v * 10 + digit_value d"] by simp
qed simp

lemma digits_value_exact:
  "\<forall>c\<in>set ds. isdigit c \<Longrightarrow> dec_value v ds \<le> 100000 \<Longrightarrow> digits_value v ds = Some (dec_value v ds)"
proof (induction ds arbitrary: v)
  case (Cons d ds)
  have "v * 10 + digit_value d \<le> dec_value (v * 10 + digit_value d) ds" by (rule dec_value_mono)
  then show ?case using Cons by (simp add: Let_def)
qed simp

lemma nat_digits_word: "n \<le> 100000 \<Longrightarrow> word_value (nat_digits n) = Some n"
  using nat_digits_digits [of n] digits_value_exact [of "nat_digits n" 0] hd_in_set [of "nat_digits n"]
  by (simp add: word_value_def)

lemma short_digits: "n < 10 ^ k \<Longrightarrow> 0 < k \<Longrightarrow> length (nat_digits n) \<le> k"
  using nat_digits_length [of n "k - 1"] by simp

lemma nat_digits_short: "n \<le> 100000 \<Longrightarrow> short (nat_digits n)"
  using short_digits [of n 6] nat_digits_digits [of n] by (auto simp: short_def bare_def isdigit_def)

lemma nat_digits_neq: "\<not> isdigit (hd w) \<Longrightarrow> nat_digits n \<noteq> w" "\<not> isdigit (hd w) \<Longrightarrow> w \<noteq> nat_digits n"
  using nat_digits_digits [of n] hd_in_set [of "nat_digits n"] by auto

lemma half_of_word: "''half'' \<notin> set ws \<Longrightarrow> \<not> half_of ws u"
  by (auto simp: half_of_def dest!: set_mono_sublist)

lemma spoken_skip: "\<not> isalnum c \<Longrightarrow> spoken (c # s) = spoken s"
  by (simp add: spoken_def spoken_char_simps span_tokens_blank)

lemma spoken_Nil [simp]: "spoken [] = []"
  by (simp add: spoken_def)

definition lower :: "string \<Rightarrow> bool" where
  "lower w \<longleftrightarrow> w \<noteq> [] \<and> (\<forall>c\<in>set w. isalnum c \<and> tolower c = c)"

lemma spoken_word:
  assumes "lower w" "t = [] \<or> \<not> isalnum (hd t)"
  shows "spoken (w @ t) = w # spoken t"
proof -
  have m: "map spoken_char w = w" using assms(1) by (auto simp: lower_def spoken_char_simps intro: map_idI)
  have nb: "\<forall>c\<in>set w. c \<noteq> blank" using assms(1) by (auto simp: lower_def isalnum_def isalpha_def isdigit_def)
  obtain c v where w: "w = c # v" using assms(1) by (cases w) (auto simp: lower_def)
  have tb: "map spoken_char t = [] \<or> hd (map spoken_char t) = blank"
    using assms(2) by (cases t) (auto simp: spoken_char_simps)
  have "takeWhile (\<lambda>c. c \<noteq> blank) (v @ map spoken_char t) = v \<and>
      dropWhile (\<lambda>c. c \<noteq> blank) (v @ map spoken_char t) = map spoken_char t"
    using nb w tb by (intro takeWhile_all_append) auto
  then show ?thesis using m nb w by (simp add: spoken_def span_tokens_word)
qed

definition unit_word :: "nat \<Rightarrow> string \<Rightarrow> string" where
  "unit_word n u = u @ (if n = 1 then [] else ''s'')"

lemma lower_digits: "lower (nat_digits n)"
  using nat_digits_digits [of n] by (auto simp: lower_def isalnum_def tolower_def isdigit_def)

lemma spoken_counted:
  assumes "lower (unit_word n u)" "t = [] \<or> \<not> isalnum (hd t)"
  shows "spoken (counted (int n) u @ t) = nat_digits n # unit_word n u # spoken t"
proof -
  have b: "\<not> isalnum blank" by (simp add: isalnum_def isalpha_def isdigit_def)
  have "counted (int n) u @ t = nat_digits n @ blank # unit_word n u @ t"
    by (simp add: counted_def unit_word_def int_digits_def)
  then show ?thesis
    using b spoken_word [OF assms] spoken_word [OF lower_digits, of "blank # unit_word n u @ t" n]
    by (simp add: spoken_skip)
qed

lemma lower_units [simp]: "lower (unit_word n ''hour'')" "lower (unit_word n ''minute'')" "lower (unit_word n ''second'')"
  by (auto simp: unit_word_def lower_def isalnum_def isalpha_def tolower_def)

lemma counted_length: "n \<le> 100000 \<Longrightarrow> length u \<le> 6 \<Longrightarrow> length (counted (int n) u) \<le> 14"
  using short_digits [of n 6] by (auto simp: counted_def int_digits_def)

text \<open>The words of a duration as it is spoken.\<close>

definition said :: "nat \<Rightarrow> nat \<Rightarrow> nat \<Rightarrow> string list" where
  "said h m s =
     (if h \<noteq> 0 \<and> m \<noteq> 0 \<and> s \<noteq> 0 then
        [nat_digits h, unit_word h ''hour'', nat_digits m, unit_word m ''minute'', ''and'', nat_digits s, unit_word s ''second'']
      else if h \<noteq> 0 \<and> s \<noteq> 0 then
        [nat_digits h, unit_word h ''hour'', ''and'', nat_digits s, unit_word s ''second'']
      else if h \<noteq> 0 \<and> m \<noteq> 0 then
        [nat_digits h, unit_word h ''hour'', ''and'', nat_digits m, unit_word m ''minute'']
      else if h \<noteq> 0 then [nat_digits h, unit_word h ''hour'']
      else if m \<noteq> 0 \<and> s \<noteq> 0 then
        [nat_digits m, unit_word m ''minute'', ''and'', nat_digits s, unit_word s ''second'']
      else if m \<noteq> 0 then [nat_digits m, unit_word m ''minute''] else [nat_digits s, unit_word s ''second''])"

lemma spoken_and: "spoken ('' and '' @ t) = ''and'' # spoken t"
proof -
  have "spoken (''and'' @ blank # t) = ''and'' # spoken (blank # t)"
    by (rule spoken_word) (auto simp: lower_def isalnum_def isalpha_def isdigit_def tolower_def)
  then show ?thesis by (simp add: spoken_skip isalnum_def isalpha_def isdigit_def)
qed

lemma spoken_comma: "spoken ('', '' @ t) = spoken t"
  by (simp add: spoken_skip isalnum_def isalpha_def isdigit_def)

lemma spoken_pieces:
  assumes "lower (unit_word n u)"
  shows "spoken (counted (int n) u) = [nat_digits n, unit_word n u]"
    and "spoken (counted (int n) u @ '' and '' @ t) = nat_digits n # unit_word n u # ''and'' # spoken t"
    and "spoken (counted (int n) u @ '', '' @ t) = nat_digits n # unit_word n u # spoken t"
  using spoken_counted [OF assms, of "[]"] spoken_counted [OF assms, of "'' and '' @ t"] spoken_and [of t]
    spoken_counted [OF assms, of "'', '' @ t"] spoken_comma [of t]
  by (simp_all add: isalnum_def isalpha_def isdigit_def)

text \<open>The text of a duration by its hours, minutes and seconds.\<close>

definition hms_text :: "nat \<Rightarrow> nat \<Rightarrow> nat \<Rightarrow> string" where
  "hms_text h m s =
     (if h \<noteq> 0 \<and> m \<noteq> 0 \<and> s \<noteq> 0 then
        counted (int h) ''hour'' @ '', '' @ counted (int m) ''minute'' @ '' and '' @ counted (int s) ''second''
      else if h \<noteq> 0 \<and> s \<noteq> 0 then counted (int h) ''hour'' @ '' and '' @ counted (int s) ''second''
      else if h \<noteq> 0 \<and> m \<noteq> 0 then counted (int h) ''hour'' @ '' and '' @ counted (int m) ''minute''
      else if h \<noteq> 0 then counted (int h) ''hour''
      else if m \<noteq> 0 \<and> s \<noteq> 0 then counted (int m) ''minute'' @ '' and '' @ counted (int s) ''second''
      else if m \<noteq> 0 then counted (int m) ''minute'' else counted (int s) ''second'')"

lemma duration_text_hms:
  assumes "0 < n"
  shows "duration_text (int n) = hms_text (n div 3600) (n mod 3600 div 60) (n mod 60)"
proof -
  have e: "c_div (int n) 3600 = int (n div 3600)" "c_div (c_mod (int n) 3600) 60 = int (n mod 3600 div 60)"
    "c_mod (int n) 60 = int (n mod 60)" by (simp_all add: zdiv_int zmod_int)
  have "\<not> int n \<le> 0" using assms by simp
  then show ?thesis unfolding duration_text_def Let_def e hms_text_def by (simp only: of_nat_eq_0_iff if_False)
qed

lemma spoken_hms: "spoken (hms_text h m s) = said h m s"
  unfolding hms_text_def said_def
  by (cases "h = 0"; cases "m = 0"; cases "s = 0") (simp_all only: simp_thms if_True if_False spoken_pieces lower_units)

lemma hms_length: "h \<le> 100000 \<Longrightarrow> m \<le> 100000 \<Longrightarrow> s \<le> 100000 \<Longrightarrow> length (hms_text h m s) \<le> 60"
  using counted_length [of h "''hour''"] counted_length [of m "''minute''"] counted_length [of s "''second''"]
  unfolding hms_text_def
  by (cases "h = 0"; cases "m = 0"; cases "s = 0") (simp_all only: simp_thms if_True if_False length_append, simp_all)

lemma word_value_glue:
  "word_value ''for'' = None" "word_value ''and'' = None" "word_value ''hour'' = None" "word_value ''hours'' = None"
  "word_value ''minute'' = None" "word_value ''minutes'' = None"
  by code_simp+

lemma not_digits:
  "\<not> isdigit (CHR ''h'')" "\<not> isdigit (CHR ''m'')" "\<not> isdigit (CHR ''s'')" "\<not> isdigit (CHR ''a'')"
  "\<not> isdigit (CHR ''t'')" "\<not> isdigit (CHR ''f'')"
  by (simp_all add: isdigit_def)

lemmas said_simps = said_def unit_word_def seconds_of_def count_before_def mixed_before_def or_else_def
  nat_digits_word nat_digits_neq not_digits word_value_glue suffix_def

abbreviation asked :: "nat \<Rightarrow> nat \<Rightarrow> nat \<Rightarrow> string list" where
  "asked h m s \<equiv> [''set'', ''a'', ''timer'', ''for''] @ said h m s"

lemma asked_hours:
  "h \<le> 100000 \<Longrightarrow> seconds_of (asked h m s) ''hour'' ''hours'' 3600 = (h * 3600, h \<noteq> 0, False)"
  by (cases "h = 0"; cases "m = 0"; cases "s = 0"; cases "h = 1"; cases "m = 1"; cases "s = 1") (simp_all add: said_simps)

lemma asked_minutes:
  "m \<le> 100000 \<Longrightarrow> seconds_of (asked h m s) ''minute'' ''minutes'' 60 = (m * 60, m \<noteq> 0, False)"
  by (cases "h = 0"; cases "m = 0"; cases "s = 0"; cases "h = 1"; cases "m = 1"; cases "s = 1") (simp_all add: said_simps)

lemma asked_seconds:
  "s \<le> 100000 \<Longrightarrow> h \<noteq> 0 \<or> m \<noteq> 0 \<or> s \<noteq> 0 \<Longrightarrow>
   seconds_of (asked h m s) ''second'' ''seconds'' 1 = (s, s \<noteq> 0, False)"
  by (cases "h = 0"; cases "m = 0"; cases "s = 0"; cases "h = 1"; cases "m = 1"; cases "s = 1") (simp_all add: said_simps)

text \<open>The only words of such a request.\<close>

definition request_words :: "string list" where
  "request_words = [''set'', ''a'', ''timer'', ''for'', ''and'', ''hour'', ''hours'', ''minute'', ''minutes'',
     ''second'', ''seconds'']"

lemma asked_words:
  "w \<in> set (asked h m s) \<Longrightarrow>
   w \<in> set request_words \<or> w = nat_digits h \<or> w = nat_digits m \<or> w = nat_digits s"
  by (auto simp: said_def unit_word_def request_words_def split: if_splits)

lemma asked_not: "\<not> isdigit (hd w) \<Longrightarrow> w \<notin> set request_words \<Longrightarrow> w \<notin> set (asked h m s)"
  using asked_words [of w h m s] nat_digits_neq(2) [of w] by metis

lemma asked_short:
  "h \<le> 100000 \<Longrightarrow> m \<le> 100000 \<Longrightarrow> s \<le> 100000 \<Longrightarrow> w \<in> set (asked h m s) \<Longrightarrow> short w"
proof -
  have "\<forall>w\<in>set request_words. short w" by (simp add: request_words_def short_def bare_def)
  then show "h \<le> 100000 \<Longrightarrow> m \<le> 100000 \<Longrightarrow> s \<le> 100000 \<Longrightarrow> w \<in> set (asked h m s) \<Longrightarrow> short w"
    using asked_words [of w h m s] nat_digits_short by metis
qed

lemma duration_of_asked:
  assumes "h \<le> 100000" "m \<le> 100000" "s \<le> 100000" "h \<noteq> 0 \<or> m \<noteq> 0 \<or> s \<noteq> 0"
  shows "duration_of (asked h m s) = (h * 3600 + m * 60 + s, True)"
proof -
  have "''half'' \<notin> set (asked h m s)" by (rule asked_not) (simp_all add: isdigit_def request_words_def)
  then show ?thesis
    using assms half_of_word [of "asked h m s"]
    by (simp only: duration_of_def asked_hours asked_minutes asked_seconds Let_def prod.case) simp
qed

lemma heard_request:
  assumes "length (hms_text h m s) \<le> 60"
  shows "heard (''set a timer for '' @ hms_text h m s) = asked h m s"
proof -
  have b: "\<not> isalnum blank" by (simp add: isalnum_def isalpha_def isdigit_def)
  have l: "lower ''set''" "lower ''a''" "lower ''timer''" "lower ''for''"
    by (simp_all add: lower_def isalnum_def isalpha_def tolower_def)
  have w: "spoken (w @ blank # t) = w # spoken t" if "lower w" for w t
    using spoken_word [OF that, of "blank # t"] b by (simp add: spoken_skip)
  have "spoken (''set'' @ blank # ''a'' @ blank # ''timer'' @ blank # ''for'' @ blank # hms_text h m s) = asked h m s"
    unfolding w [OF l(1)] w [OF l(2)] w [OF l(3)] w [OF l(4)] spoken_hms by simp
  moreover have "''set'' @ blank # ''a'' @ blank # ''timer'' @ blank # ''for'' @ blank # t = ''set a timer for '' @ t" for t
    by simp
  ultimately have "spoken (''set a timer for '' @ hms_text h m s) = asked h m s" by metis
  then show ?thesis using assms heard_spoken [of "''set a timer for '' @ hms_text h m s"] by simp
qed

text \<open>What a request without commands, questions, negations or label markers asks for.\<close>

definition command_words :: "string list" where
  "command_words = [''stop'', ''dismiss'', ''shut'', ''turn'', ''how'', ''what'', ''left'', ''remaining'', ''check'',
     ''not'', ''never'', ''don'', ''the'', ''my'', ''called''] @ CANCEL_VERBS"

lemma command_words_bare: "\<forall>w\<in>set command_words. bare w \<and> length w < 62"
  by (simp add: command_words_def CANCEL_VERBS_def bare_def)

lemma command_words_apart: "\<forall>w\<in>set command_words. \<not> isdigit (hd w) \<and> w \<notin> set request_words"
  by code_simp

lemma no_label:
  assumes "\<forall>w\<in>set command_words. w \<notin> set (heard t)"
  shows "extract_label z (normalise NORMAL_MAX t) = []"
proof -
  have m: "strstr (normalise NORMAL_MAX t) (words_text vs) = None"
    if "vs \<noteq> []" "\<forall>w\<in>set vs. bare w" "last vs \<in> set command_words" for vs
  proof -
    have "\<not> sublist vs (heard t)" using that(1,3) assms set_mono_sublist [of vs "heard t"] last_in_set [of vs] by blast
    then show ?thesis using that strstr_words [of vs "heard t"] heard_text by auto
  qed
  have b: "bare ''for''" "bare ''the''" "bare ''my''" "bare ''called''" by (simp_all add: bare_def)
  have w: "'' for the '' = words_text [''for'', ''the'']" "'' for my '' = words_text [''for'', ''my'']"
    "'' called '' = words_text [''called'']" by (simp_all add: words_text_def)
  have "strstr (normalise NORMAL_MAX t) '' for the '' = None" "strstr (normalise NORMAL_MAX t) '' for my '' = None"
    "strstr (normalise NORMAL_MAX t) '' called '' = None"
    unfolding w using m [of "[''for'', ''the'']"] m [of "[''for'', ''my'']"] m [of "[''called'']"] b
    by (simp_all add: command_words_def)
  then show ?thesis unfolding extract_label_def by (simp only: label_after.simps option.case)
qed

lemma plain_request:
  assumes "\<forall>w\<in>set command_words. w \<notin> set (heard t)" "''timer'' \<in> set (heard t)" "\<forall>w\<in>set (heard t). short w"
    and "duration_of (heard t) = (n, True)" "0 < n"
  shows "le_timer_intent_parse t = no_intent\<lparr>ti_kind := LE_TIMER_INTENT_SET, ti_seconds := n\<rparr>"
proof -
  let ?x = "normalise NORMAL_MAX t"
  have no: "\<not> has_word ?x w" if "w \<in> set command_words" for w
    using that assms(1) command_words_bare by (simp add: has_word_heard)
  have fno: "find_word ?x w = None" if "w \<in> set command_words" for w
    using no [OF that] by (auto simp: has_word_def find_word_def split: option.splits)
  have cw: "set CANCEL_VERBS \<subseteq> set command_words"
    unfolding command_words_def set_append by (rule Un_upper2)
  have "first_cancel_verb ?x = None"
    using first_cancel_verb_found [of ?x] fno cw by (cases "first_cancel_verb ?x") (fastforce)+
  moreover have "mentions_timer ?x" using assms(2) by (simp add: mentions_timer_def has_word_heard bare_def)
  moreover have "\<not> silences ?x" "\<not> asks ?x" "\<not> negates_setting ?x"
    using no unfolding silences_def asks_def negates_setting_def by (simp_all add: command_words_def)
  moreover have "parse_duration ?x = (n, True)"
    using parse_duration_text [OF assms(3)] assms(4) heard_text(1) [of t] by simp
  ultimately have "text_intent ?x = no_intent\<lparr>ti_kind := LE_TIMER_INTENT_SET, ti_seconds := n\<rparr>"
    using no_label [OF assms(1)] assms(5) by (simp add: text_intent_def set_intent_def no_intent_def)
  moreover have "t \<noteq> []" using assms(2) by (auto simp: heard_def normalise_def span_tokens_blank NORMAL_MAX_def)
  ultimately show ?thesis by (simp add: le_timer_intent_parse_def)
qed

text \<open>
  A duration spoken back as the module spells it, of up to a hundred thousand hours, is understood
  as exactly that duration when a timer is asked for with it.
\<close>

theorem timer_duration_round_trip:
  assumes "0 < n" "n < 360000000"
  shows "le_timer_intent_parse (''set a timer for '' @ duration_text (int n)) =
    no_intent\<lparr>ti_kind := LE_TIMER_INTENT_SET, ti_seconds := n\<rparr>"
proof -
  let ?h = "n div 3600" and ?m = "n mod 3600 div 60" and ?s = "n mod 60"
  have b: "?h \<le> 100000" "?m \<le> 100000" "?s \<le> 100000" using assms(2) by (simp_all add: div_le_mono)
  have "n mod 60 = n mod 3600 mod 60" by (simp add: mod_mod_cancel)
  then have "?m * 60 + ?s = n mod 3600" by (simp only: div_mult_mod_eq)
  then have n: "?h * 3600 + ?m * 60 + ?s = n" by (simp only: add.assoc div_mult_mod_eq)
  then have nz: "?h \<noteq> 0 \<or> ?m \<noteq> 0 \<or> ?s \<noteq> 0" using assms(1) by auto
  have h: "heard (''set a timer for '' @ duration_text (int n)) = asked ?h ?m ?s"
    using heard_request [OF hms_length [OF b]] duration_text_hms [OF assms(1)] by simp
  have "w \<notin> set (asked ?h ?m ?s)" if "w \<in> set command_words" for w
    using that command_words_apart by (intro asked_not) auto
  moreover have "duration_of (asked ?h ?m ?s) = (n, True)" using duration_of_asked [OF b nz] unfolding n .
  moreover have "''timer'' \<in> set (asked ?h ?m ?s)" by simp
  moreover have "\<forall>w\<in>set (asked ?h ?m ?s). short w" using asked_short [OF b] by blast
  ultimately show ?thesis unfolding h [symmetric] using assms(1) by (intro plain_request) blast+
qed

theorem timer_duration_round_trip_witness:
  "ti_seconds (le_timer_intent_parse (''set a timer for '' @ duration_text 3905)) = 3905"
  using timer_duration_round_trip [of 3905] by (simp add: no_intent_def)

section \<open>Misunderstood phrases\<close>

lemma heard_spaced:
  assumes "\<forall>w\<in>set ws. lower w" "lower v" "length (spaced ws @ v) < 254"
  shows "heard (spaced ws @ v) = ws @ [v]"
proof -
  have b: "\<not> isalnum blank" by (simp add: isalnum_def isalpha_def isdigit_def)
  have "spoken (spaced ws @ v) = ws @ [v]" using assms(1)
  proof (induction ws)
    case Nil
    then show ?case using spoken_word [OF assms(2), of "[]"] by simp
  next
    case (Cons w ws)
    then show ?case using spoken_word [of w "blank # spaced ws @ v"] b by (simp add: spoken_skip)
  qed
  then show ?thesis using heard_spoken [OF assms(3)] by simp
qed

definition half_words :: "string list" where
  "half_words = [''set'', ''a'', ''timer'', ''for'', ''half'', ''an'', ''hour'', ''and'']"

definition second_words :: "string list" where
  "second_words = [''set'', ''a'', ''second'', ''timer'', ''for'']"

lemma phrase_words:
  "\<forall>w\<in>set half_words \<union> set second_words. lower w \<and> short w \<and> w \<notin> set command_words"
  "lower ''minutes''" "short ''minutes''" "''minutes'' \<notin> set command_words" "nat_digits n \<notin> set command_words"
proof -
  show "\<forall>w\<in>set half_words \<union> set second_words. lower w \<and> short w \<and> w \<notin> set command_words" by code_simp
  show "lower ''minutes''" "short ''minutes''" "''minutes'' \<notin> set command_words" by code_simp+
  show "nat_digits n \<notin> set command_words" using command_words_apart nat_digits_neq(1) [of _ n] by blast
qed

lemma phrase_request:
  assumes "n \<le> 100000" "ws = half_words \<or> ws = second_words"
    and "duration_of (ws @ [nat_digits n, ''minutes'']) = (k, True)" "0 < k"
  shows "ti_seconds (le_timer_intent_parse (spaced (ws @ [nat_digits n]) @ ''minutes'')) = k"
proof -
  have ws: "\<forall>w\<in>set ws. lower w \<and> short w \<and> w \<notin> set command_words" using assms(2) phrase_words(1) by auto
  have len: "length (spaced ws) \<le> 40" using assms(2) by (auto simp: half_words_def second_words_def)
  have l: "\<forall>w\<in>set (ws @ [nat_digits n]). lower w" using ws lower_digits by simp
  have "length (nat_digits n) \<le> 6" using assms(1) by (intro short_digits) simp_all
  then have "heard (spaced (ws @ [nat_digits n]) @ ''minutes'') = ws @ [nat_digits n, ''minutes'']"
    using heard_spaced [OF l phrase_words(2)] len by simp
  moreover have "\<forall>w\<in>set command_words. w \<notin> set (ws @ [nat_digits n, ''minutes''])"
    using ws phrase_words(4,5) by auto
  moreover have "''timer'' \<in> set (ws @ [nat_digits n, ''minutes''])"
    using assms(2) by (auto simp: half_words_def second_words_def)
  moreover have "\<forall>w\<in>set (ws @ [nat_digits n, ''minutes'']). short w"
    using ws phrase_words(3) nat_digits_short [OF assms(1)] by simp
  ultimately show ?thesis using plain_request assms(3,4) by (simp add: no_intent_def)
qed

lemma duration_of_half:
  assumes "n \<le> 100000" shows "duration_of (half_words @ [nat_digits n, ''minutes'']) = (5400 + 60 * n, True)"
proof -
  let ?ws = "half_words @ [nat_digits n, ''minutes'']"
  have v: "word_value ''an'' = Some 1" "word_value ''half'' = None" "word_value ''a'' = Some 1" "word_value ''set'' = None" by code_simp+
  have "seconds_of ?ws ''hour'' ''hours'' 3600 = (3600, True, False)"
    "seconds_of ?ws ''minute'' ''minutes'' 60 = (n * 60, True, False)"
    "seconds_of ?ws ''second'' ''seconds'' 1 = (0, False, False)"
    using assms by (simp_all add: half_words_def said_simps v)
  moreover have "sublist [''half'', ''an'', ''hour''] ?ws"
    unfolding half_words_def sublist_def
    by (intro exI [of _ "[''set'', ''a'', ''timer'', ''for'']"] exI [of _ "[''and'', nat_digits n, ''minutes'']"]) simp
  then have "half_of ?ws ''hour''" by (simp add: half_of_def)
  moreover have "''and'' \<in> set ?ws" by (simp add: half_words_def)
  ultimately show ?thesis by (simp only: duration_of_def Let_def prod.case) simp
qed

lemma duration_of_second:
  assumes "n \<le> 100000" shows "duration_of (second_words @ [nat_digits n, ''minutes'']) = (60 * n + 1, True)"
proof -
  let ?ws = "second_words @ [nat_digits n, ''minutes'']"
  have v: "word_value ''a'' = Some 1" "word_value ''set'' = None" by code_simp+
  have "seconds_of ?ws ''hour'' ''hours'' 3600 = (0, False, False)"
    "seconds_of ?ws ''minute'' ''minutes'' 60 = (n * 60, True, False)"
    "seconds_of ?ws ''second'' ''seconds'' 1 = (1, True, False)"
    using assms by (simp_all add: second_words_def said_simps v)
  moreover have "''half'' \<notin> set ?ws" using nat_digits_neq(2) [of "''half''" n] by (simp add: second_words_def isdigit_def)
  ultimately show ?thesis using half_of_word [of ?ws] by (simp only: duration_of_def Let_def prod.case) simp
qed

text \<open>
  Half a minute is understood as a minute and a half; half an hour and some minutes as an hour and
  a half and those minutes; an ordinal second adds a second to the timer; and of a number in the
  seventies or eighties only the last digit is heard.
\<close>

theorem timer_phrases_misread:
  assumes "n \<le> 100000"
  shows "ti_seconds (le_timer_intent_parse ''set a timer for half a minute'') = 90 \<and>
    ti_seconds (le_timer_intent_parse (''set a timer for half an hour and '' @ nat_digits n @ '' minutes'')) =
      5400 + 60 * n \<and>
    ti_seconds (le_timer_intent_parse (''set a second timer for '' @ nat_digits n @ '' minutes'')) = 60 * n + 1 \<and>
    ti_seconds (le_timer_intent_parse ''set a timer for eighty five minutes'') = 300"
proof (intro conjI)
  show "ti_seconds (le_timer_intent_parse ''set a timer for half a minute'') = 90" by code_simp
  show "ti_seconds (le_timer_intent_parse ''set a timer for eighty five minutes'') = 300" by code_simp
  have "''set a timer for half an hour and '' @ nat_digits n @ '' minutes'' = spaced (half_words @ [nat_digits n]) @ ''minutes''"
    by (simp add: half_words_def)
  then show "ti_seconds (le_timer_intent_parse (''set a timer for half an hour and '' @ nat_digits n @ '' minutes'')) =
      5400 + 60 * n"
    using phrase_request [OF assms disjI1 [OF refl] duration_of_half [OF assms]] by simp
  have "''set a second timer for '' @ nat_digits n @ '' minutes'' = spaced (second_words @ [nat_digits n]) @ ''minutes''"
    by (simp add: second_words_def)
  then show "ti_seconds (le_timer_intent_parse (''set a second timer for '' @ nat_digits n @ '' minutes'')) = 60 * n + 1"
    using phrase_request [OF assms disjI2 [OF refl] duration_of_second [OF assms]] by simp
qed

theorem timer_phrases_misread_witness:
  "ti_seconds (le_timer_intent_parse (''set a second timer for '' @ nat_digits 10 @ '' minutes'')) = 601"
  using timer_phrases_misread [of 10] by simp

end
