(* ===== verification/Radio_Ts.thy ===== *)
theory Radio_Ts
  imports Echo_Prelude
begin

text \<open>
  The MPEG transport stream demultiplexer of the internet radio player (adapter/radio_ts.c) and
  the loop of adapter/radiod.c that drives it over the chunks a socket returns.

  The array \<open>carry\<close> and its fill level are one list, the bytes in use; that it never outgrows the
  array is a theorem.  A pointer into a packet is the list from there on, longer than the length
  that goes with it, so that a read past the length would be visible.  A call that returns -1 is
  \<open>None\<close>; what it leaves in the state is kept.
\<close>

unbundle bit_operations_syntax

definition PKT :: nat where "PKT = 188"
definition PLD :: nat where "PLD = 184"
definition LE_RADIO_TS_RESYNC_PACKETS :: nat where "LE_RADIO_TS_RESYNC_PACKETS = 3"

record radio_ts =
  pmt_pid :: int
  audio_pid :: int
  in_pes :: bool
  synced :: bool
  lost :: nat
  carry :: bytes

definition le_radio_ts_reset :: radio_ts where
  "le_radio_ts_reset =
     \<lparr>pmt_pid = - 1, audio_pid = - 1, in_pes = False, synced = False, lost = 0, carry = []\<rparr>"

section \<open>One packet\<close>

definition bits12 :: "byte \<Rightarrow> byte \<Rightarrow> nat" where
  "bits12 hi lo = push_bit 8 (unat hi AND 0x0f) OR unat lo"

definition bits13 :: "byte \<Rightarrow> byte \<Rightarrow> nat" where
  "bits13 hi lo = push_bit 8 (unat hi AND 0x1f) OR unat lo"

definition payload_span :: "bytes \<Rightarrow> (bytes \<times> nat) option" where
  "payload_span pkt =
     (let control = unat (drop_bit 4 (pkt ! 3)) AND 3 in
      if control = 0 \<or> control = 2 then None
      else let span =
             (if control = 3 then
                let af = unat (pkt ! 4) in
                if PKT < 5 + af then None else Some (drop (5 + af) pkt, PKT - 5 - af)
              else Some (drop 4 pkt, PLD))
           in case span of None \<Rightarrow> None | Some (pay, len) \<Rightarrow> if 0 < len then Some (pay, len) else None)"

function pat_loop :: "radio_ts \<Rightarrow> bytes \<Rightarrow> nat \<Rightarrow> nat \<Rightarrow> radio_ts" where
  "pat_loop ts pay stop i =
     (if \<not> i + 4 \<le> stop then ts
      else if push_bit 8 (unat (pay ! i)) OR unat (pay ! (i + 1)) \<noteq> 0
      then ts\<lparr>pmt_pid := int (bits13 (pay ! (i + 2)) (pay ! (i + 3)))\<rparr>
      else pat_loop ts pay stop (i + 4))"
  by auto
termination by (relation "measure (\<lambda>(ts, pay, stop, i). stop - i)") auto

declare pat_loop.simps [simp del]

definition pat_section :: "radio_ts \<Rightarrow> bytes \<Rightarrow> nat \<Rightarrow> radio_ts" where
  "pat_section ts pay len =
     (if pay ! 0 \<noteq> 0x00 then ts
      else let sect = bits12 (pay ! 1) (pay ! 2) in
        if sect < 9 \<or> len < 3 + sect then ts
        else pat_loop ts pay (3 + sect - 4) 8)"

definition parse_pat :: "radio_ts \<Rightarrow> bytes \<Rightarrow> nat \<Rightarrow> radio_ts" where
  "parse_pat ts pay len =
     (if len < 1 then ts
      else let ptr = unat (pay ! 0) in
        if len < 1 + ptr + 12 then ts
        else pat_section ts (drop (1 + ptr) pay) (len - (1 + ptr)))"

function pmt_loop :: "radio_ts \<Rightarrow> bytes \<Rightarrow> nat \<Rightarrow> nat \<Rightarrow> radio_ts" where
  "pmt_loop ts pay stop i =
     (if \<not> i + 5 \<le> stop then ts
      else let type = unat (pay ! i); es = bits12 (pay ! (i + 3)) (pay ! (i + 4)) in
        if type = 0x0f \<or> type = 0x03 \<or> type = 0x04
        then let pid = int (bits13 (pay ! (i + 1)) (pay ! (i + 2))) in
          (if audio_pid ts \<noteq> pid then ts\<lparr>in_pes := False\<rparr> else ts)\<lparr>audio_pid := pid\<rparr>
        else pmt_loop ts pay stop (i + 5 + es))"
  by auto
termination by (relation "measure (\<lambda>(ts, pay, stop, i). stop - i)") auto

declare pmt_loop.simps [simp del]

definition pmt_section :: "radio_ts \<Rightarrow> bytes \<Rightarrow> nat \<Rightarrow> radio_ts" where
  "pmt_section ts pay len =
     (if pay ! 0 \<noteq> 0x02 then ts
      else let sect = bits12 (pay ! 1) (pay ! 2) in
        if sect < 13 \<or> len < 3 + sect then ts
        else pmt_loop ts pay (3 + sect - 4) (12 + bits12 (pay ! 10) (pay ! 11)))"

definition parse_pmt :: "radio_ts \<Rightarrow> bytes \<Rightarrow> nat \<Rightarrow> radio_ts" where
  "parse_pmt ts pay len =
     (if len < 1 then ts
      else let ptr = unat (pay ! 0) in
        if len < 1 + ptr + 13 then ts
        else pmt_section ts (drop (1 + ptr) pay) (len - (1 + ptr)))"

definition unit_start :: "bytes \<Rightarrow> bool" where
  "unit_start pkt \<longleftrightarrow> pkt ! 1 AND 0x40 \<noteq> 0"

definition audio_payload :: "radio_ts \<Rightarrow> bool \<Rightarrow> bytes \<Rightarrow> nat \<Rightarrow> radio_ts \<times> bytes" where
  "audio_payload ts start pay len =
     (if start then
        let ts = ts\<lparr>in_pes := False\<rparr> in
        if len < 9 \<or> pay ! 0 \<noteq> 0x00 \<or> pay ! 1 \<noteq> 0x00 \<or> pay ! 2 \<noteq> 0x01 then (ts, [])
        else let header = 9 + unat (pay ! 8) in
          if len < header then (ts, [])
          else (ts\<lparr>in_pes := True\<rparr>, take (len - header) (drop header pay))
      else if \<not> in_pes ts then (ts, [])
      else (ts, take len pay))"

definition process :: "radio_ts \<Rightarrow> bytes \<Rightarrow> radio_ts \<times> bytes" where
  "process ts pkt =
     (if unat (drop_bit 6 (pkt ! 3)) AND 3 \<noteq> 0 then (ts, [])
      else case payload_span pkt of None \<Rightarrow> (ts, [])
      | Some (pay, len) \<Rightarrow>
          let pid = int (bits13 (pkt ! 1) (pkt ! 2)) in
          if pid = 0 then (if unit_start pkt then parse_pat ts pay len else ts, [])
          else if pid = pmt_pid ts then (if unit_start pkt then parse_pmt ts pay len else ts, [])
          else if audio_pid ts < 0 \<or> pid \<noteq> audio_pid ts then (ts, [])
          else audio_payload ts (unit_start pkt) pay len)"

section \<open>Feeding a stream\<close>

definition refill :: "nat \<Rightarrow> radio_ts \<Rightarrow> bytes \<Rightarrow> radio_ts \<times> bytes" where
  "refill want ts inp =
     (let n = min (want - length (carry ts)) (length inp)
      in (ts\<lparr>carry := carry ts @ take n inp\<rparr>, drop n inp))"

fun find_lock_from :: "bytes \<Rightarrow> nat \<Rightarrow> nat list \<Rightarrow> nat option" where
  "find_lock_from c k [] = None"
| "find_lock_from c k (i # is') =
     (if c ! i = 0x47 \<and> c ! (i + k) = 0x47 then Some i else find_lock_from c k is')"

definition find_lock :: "bytes \<Rightarrow> nat option" where
  "find_lock c = find_lock_from c PKT [0..<length c - PKT]"

text \<open>One turn of the endless loop: go on, stop with the output so far, or give up.\<close>

datatype turn = Again radio_ts bytes bytes | Break radio_ts bytes bytes | Lost radio_ts

definition resync :: "radio_ts \<Rightarrow> bytes \<Rightarrow> bytes \<Rightarrow> turn" where
  "resync ts inp out =
     (let (ts, inp) = refill (PKT + 1) ts inp in
      if length (carry ts) < PKT + 1 then Break ts inp out
      else case find_lock (carry ts) of
        None \<Rightarrow>
          let n = (if PKT < length (carry ts) then length (carry ts) - PKT else 1);
              ts = ts\<lparr>lost := lost ts + n, carry := drop n (carry ts)\<rparr>
          in if LE_RADIO_TS_RESYNC_PACKETS * PKT < lost ts then Lost ts else Again ts inp out
      | Some at \<Rightarrow>
          Again (ts\<lparr>lost := lost ts + at, carry := drop at (carry ts), synced := True\<rparr>) inp out)"

definition feed_turn :: "radio_ts \<Rightarrow> bytes \<Rightarrow> bytes \<Rightarrow> nat \<Rightarrow> turn" where
  "feed_turn ts inp out cap =
     (if synced ts then
        let (ts, inp) = refill PKT ts inp in
        if length (carry ts) < PKT then Break ts inp out
        else if carry ts ! 0 = 0x47 then
          let (ts, add) = process ts (carry ts) in
          if cap - length out < length add then Break ts inp out
          else Again (ts\<lparr>carry := drop PKT (carry ts)\<rparr>) inp (out @ add)
        else resync (ts\<lparr>synced := False, lost := 0\<rparr>) inp out
      else resync ts inp out)"

lemma parse_frame [frame, simp]:
  "carry (parse_pat ts pay len) = carry ts" "synced (parse_pat ts pay len) = synced ts"
  "lost (parse_pat ts pay len) = lost ts"
  "carry (parse_pmt ts pay len) = carry ts" "synced (parse_pmt ts pay len) = synced ts"
  "lost (parse_pmt ts pay len) = lost ts"
proof -
  have pat: "carry (pat_loop ts p s i) = carry ts \<and> synced (pat_loop ts p s i) = synced ts \<and>
      lost (pat_loop ts p s i) = lost ts" for p s i
    by (induction ts p s i rule: pat_loop.induct) (subst (1 2 3) pat_loop.simps, simp)
  have pmt: "carry (pmt_loop ts p s i) = carry ts \<and> synced (pmt_loop ts p s i) = synced ts \<and>
      lost (pmt_loop ts p s i) = lost ts" for p s i
    by (induction ts p s i rule: pmt_loop.induct) (subst (1 2 3) pmt_loop.simps, simp add: Let_def)
  show "carry (parse_pat ts pay len) = carry ts" "synced (parse_pat ts pay len) = synced ts"
    "lost (parse_pat ts pay len) = lost ts"
    "carry (parse_pmt ts pay len) = carry ts" "synced (parse_pmt ts pay len) = synced ts"
    "lost (parse_pmt ts pay len) = lost ts"
    using pat pmt by (simp_all add: parse_pat_def parse_pmt_def pat_section_def pmt_section_def Let_def)
qed

lemma process_frame [frame, simp]:
  "carry (fst (process ts pkt)) = carry ts" "synced (fst (process ts pkt)) = synced ts"
  "lost (fst (process ts pkt)) = lost ts"
  by (simp_all add: process_def audio_payload_def Let_def split: option.split)

text \<open>Every turn that goes on uses up bytes or has found a packet, so the loop ends.\<close>

definition turn_measure :: "radio_ts \<Rightarrow> bytes \<Rightarrow> nat" where
  "turn_measure ts inp =
     2 * (length (carry ts) + length inp) +
     (if synced ts \<and> PKT \<le> length (carry ts) \<and> carry ts ! 0 = 0x47 then 0 else 1)"

lemma turn_measure_bounds:
  "2 * (length (carry ts) + length inp) \<le> turn_measure ts inp"
  "turn_measure ts inp \<le> 2 * (length (carry ts) + length inp) + 1"
  by (simp_all add: turn_measure_def)

lemma find_lock_some:
  "find_lock c = Some i \<Longrightarrow> i + PKT < length c \<and> c ! i = 0x47 \<and> c ! (i + PKT) = 0x47"
proof -
  have "find_lock_from c k is' = Some i \<Longrightarrow> i \<in> set is' \<and> c ! i = 0x47 \<and> c ! (i + k) = 0x47" for is' k
    by (induction is') (auto split: if_splits)
  from this [of PKT "[0..<length c - PKT]"] show "find_lock c = Some i \<Longrightarrow> ?thesis"
    by (auto simp: find_lock_def)
qed

lemma refill_eq:
  "refill want ts inp =
     (ts\<lparr>carry := carry ts @ take (want - length (carry ts)) inp\<rparr>,
      drop (want - length (carry ts)) inp)"
  by (simp add: refill_def Let_def min_def)

lemma resync_unfold:
  fixes ts inp
  defines "n \<equiv> PKT + 1 - length (carry ts)"
  defines "c \<equiv> carry ts @ take n inp"
  shows "resync ts inp out =
    (if length c < PKT + 1 then Break (ts\<lparr>carry := c\<rparr>) (drop n inp) out
     else case find_lock c of
       None \<Rightarrow>
         if LE_RADIO_TS_RESYNC_PACKETS * PKT < lost ts + (length c - PKT)
         then Lost (ts\<lparr>lost := lost ts + (length c - PKT), carry := drop (length c - PKT) c\<rparr>)
         else Again (ts\<lparr>lost := lost ts + (length c - PKT), carry := drop (length c - PKT) c\<rparr>) (drop n inp) out
     | Some at \<Rightarrow> Again (ts\<lparr>lost := lost ts + at, carry := drop at c, synced := True\<rparr>) (drop n inp) out)"
  unfolding c_def n_def resync_def refill_eq Let_def
  by (simp split: option.split del: length_append)

lemma feed_turn_unfold:
  fixes ts inp
  defines "n \<equiv> PKT - length (carry ts)"
  defines "t \<equiv> ts\<lparr>carry := carry ts @ take n inp\<rparr>"
  assumes "synced ts"
  shows "feed_turn ts inp out cap =
    (if length (carry t) < PKT then Break t (drop n inp) out
     else if carry t ! 0 = 0x47 then
       if cap - length out < length (snd (process t (carry t)))
       then Break (fst (process t (carry t))) (drop n inp) out
       else Again (fst (process t (carry t))\<lparr>carry := drop PKT (carry t)\<rparr>) (drop n inp)
              (out @ snd (process t (carry t)))
     else resync (t\<lparr>synced := False, lost := 0\<rparr>) (drop n inp) out)"
  unfolding t_def n_def using assms(3)
  by (simp add: feed_turn_def refill_eq Let_def split_beta del: length_append)

lemma feed_turn_unsynced: "\<not> synced ts \<Longrightarrow> feed_turn ts inp out cap = resync ts inp out"
  by (simp add: feed_turn_def)

lemma resync_measure:
  assumes again: "resync ts inp out = Again ts' inp' out'"
    and start: "\<not> (synced ts \<and> PKT \<le> length (carry ts) \<and> carry ts ! 0 = 0x47)"
  shows "turn_measure ts' inp' < turn_measure ts inp"
proof -
  define n where "n = PKT + 1 - length (carry ts)"
  define c where "c = carry ts @ take n inp"
  have total: "length c + length (drop n inp) = length (carry ts) + length inp" by (simp add: c_def)
  note eq = resync_unfold [of ts inp out, folded n_def, folded c_def]
  have full: "PKT < length c" using again by (simp add: eq split: if_splits)
  have was: "turn_measure ts inp = 2 * (length (carry ts) + length inp) + 1"
    unfolding turn_measure_def using start by (simp only: if_False)
  show ?thesis
  proof (cases "find_lock c")
    case None
    then have "carry ts' = drop (length c - PKT) c" "inp' = drop n inp"
      using again by (auto simp: eq split: if_splits)
    then have "length (carry ts') + length inp' < length (carry ts) + length inp" using full total by simp
    then show ?thesis unfolding was using turn_measure_bounds(2) [of ts' inp'] by simp
  next
    case (Some at)
    then have "carry ts' = drop at c" "inp' = drop n inp" "synced ts'"
      using again full by (auto simp: eq)
    moreover have at: "at + PKT < length c" "c ! at = 0x47" using find_lock_some [OF Some] by simp_all
    ultimately have "turn_measure ts' inp' = 2 * (length (drop at c) + length inp')"
      by (simp add: turn_measure_def)
    moreover have "length (drop at c) + length inp' \<le> length (carry ts) + length inp"
      using \<open>inp' = drop n inp\<close> total by simp
    ultimately show ?thesis unfolding was by simp
  qed
qed

lemma feed_turn_measure:
  assumes again: "feed_turn ts inp out cap = Again ts' inp' out'"
  shows "turn_measure ts' inp' < turn_measure ts inp"
proof (cases "synced ts")
  case False
  then show ?thesis using again by (intro resync_measure [of ts inp out]) (simp_all add: feed_turn_def)
next
  case True
  define n where "n = PKT - length (carry ts)"
  define t where "t = ts\<lparr>carry := carry ts @ take n inp\<rparr>"
  note eq = feed_turn_unfold [OF True, of inp out cap, folded n_def, folded t_def]
  have total: "length (carry t) + length (drop n inp) = length (carry ts) + length inp"
    by (simp add: t_def)
  have full: "PKT \<le> length (carry t)" using again by (simp add: eq split: if_splits)
  show ?thesis
  proof (cases "carry t ! 0 = 0x47")
    case True
    then have "carry ts' = drop PKT (carry t)" "inp' = drop n inp"
      using again full by (auto simp: eq split: if_splits)
    then have "length (carry ts') + length inp' + PKT \<le> length (carry ts) + length inp"
      using full total by simp
    moreover have "2 \<le> PKT" by (simp add: PKT_def)
    ultimately show ?thesis
      using turn_measure_bounds(1) [of ts inp] turn_measure_bounds(2) [of ts' inp'] by simp
  next
    case False
    then have "turn_measure ts' inp' < turn_measure (t\<lparr>synced := False, lost := 0\<rparr>) (drop n inp)"
      using again full by (intro resync_measure) (simp_all add: eq)
    also have "\<dots> \<le> turn_measure ts inp"
    proof -
      have "\<not> (synced ts \<and> PKT \<le> length (carry ts) \<and> carry ts ! 0 = 0x47)"
        using False by (auto simp: t_def n_def)
      then show ?thesis using total by (simp add: turn_measure_def)
    qed
    finally show ?thesis .
  qed
qed

function feed_loop :: "radio_ts \<Rightarrow> bytes \<Rightarrow> bytes \<Rightarrow> nat \<Rightarrow> radio_ts \<times> (bytes \<times> bytes) option" where
  "feed_loop ts inp out cap =
     (case feed_turn ts inp out cap of
        Again ts inp out \<Rightarrow> feed_loop ts inp out cap
      | Break ts inp out \<Rightarrow> (ts, Some (out, inp))
      | Lost ts \<Rightarrow> (ts, None))"
  by auto
termination
  by (relation "measure (\<lambda>(ts, inp, out, cap). turn_measure ts inp)") (auto dest: feed_turn_measure)

declare feed_loop.simps [simp del]

text \<open>The output and the number of input bytes taken, or nothing for -1.\<close>

definition le_radio_ts_feed ::
  "radio_ts \<Rightarrow> bytes \<Rightarrow> nat \<Rightarrow> radio_ts \<times> (bytes \<times> nat) option" where
  "le_radio_ts_feed ts inp cap =
     (if cap < PLD then (ts, None)
      else let (ts, r) = feed_loop ts inp [] cap
        in (ts, map_option (\<lambda>(out, rest). (out, length inp - length rest)) r))"

section \<open>The fetcher's loop over one segment\<close>

text \<open>
  The chunks are what \<open>icy_read\<close> delivers until the connection ends; the pipe takes every byte
  written to it.  The result is the demultiplexer, the bytes written and whether the segment was
  read to its end.  A turn that takes no input leaves the loop over the chunk.
\<close>

definition NET_CHUNK :: nat where "NET_CHUNK = 4096"

definition ADTS_MAX :: nat where "ADTS_MAX = NET_CHUNK + 2 * PKT"

function push_chunk :: "nat \<Rightarrow> radio_ts \<Rightarrow> bytes \<Rightarrow> radio_ts \<times> bytes \<times> bool" where
  "push_chunk cap ts chunk =
     (if chunk = [] then (ts, [], True)
      else case le_radio_ts_feed ts chunk cap of
        (ts, None) \<Rightarrow> (ts, [], False)
      | (ts, Some (made, taken)) \<Rightarrow>
          if taken = 0 then (ts, made, True)
          else let (ts, out, ok) = push_chunk cap ts (drop taken chunk) in (ts, made @ out, ok))"
  by auto
termination by (relation "measure (\<lambda>(cap, ts, chunk). length chunk)") auto

declare push_chunk.simps [simp del]

fun push_chunks :: "nat \<Rightarrow> radio_ts \<Rightarrow> bytes list \<Rightarrow> radio_ts \<times> bytes \<times> bool" where
  "push_chunks cap ts [] = (ts, [], True)"
| "push_chunks cap ts (chunk # chunks) =
     (case push_chunk cap ts chunk of
        (ts, out, False) \<Rightarrow> (ts, out, False)
      | (ts, out, True) \<Rightarrow> let (ts, out', ok) = push_chunks cap ts chunks in (ts, out @ out', ok))"

definition hls_fetch_segment :: "radio_ts \<Rightarrow> bytes list \<Rightarrow> radio_ts \<times> bytes \<times> bool" where
  "hls_fetch_segment ts chunks = push_chunks ADTS_MAX ts chunks"

end
