(* ===== verification/Radio_Stream.thy ===== *)
theory Radio_Stream
  imports Radio_Ts
begin

text \<open>
  What the demultiplexer of \<open>Radio_Ts\<close> promises: that its chunked, buffered and resumable
  loop is the machine that takes one byte at a time, however the stream is cut and however small
  the output buffer is, that it stays inside its buffers, that it always gets on, and that it
  recovers from garbage before the first packet but not from a loss it has reported.
\<close>

section \<open>The reference: one byte at a time\<close>

definition settle :: "radio_ts \<Rightarrow> (radio_ts \<times> bytes) option" where
  "settle ts =
     (if synced ts then
        if length (carry ts) < PKT then Some (ts, [])
        else if carry ts ! 0 = 0x47 then
          let (t, add) = process ts (carry ts) in Some (t\<lparr>carry := drop PKT (carry t)\<rparr>, add)
        else Some (ts\<lparr>synced := False, lost := 0\<rparr>, [])
      else if length (carry ts) < PKT + 1 then Some (ts, [])
      else if carry ts ! 0 = 0x47 \<and> carry ts ! PKT = 0x47 then
        let (t, add) = process (ts\<lparr>synced := True\<rparr>) (carry ts) in
        Some (t\<lparr>carry := drop PKT (carry t)\<rparr>, add)
      else if LE_RADIO_TS_RESYNC_PACKETS * PKT < lost ts + 1 then None
      else Some (ts\<lparr>lost := lost ts + 1, carry := drop 1 (carry ts)\<rparr>, []))"

definition emit :: "bytes \<Rightarrow> (radio_ts \<times> bytes) option \<Rightarrow> (radio_ts \<times> bytes) option" where
  "emit out r = map_option (\<lambda>(t, tail). (t, out @ tail)) r"

fun ts_run :: "radio_ts \<Rightarrow> bytes \<Rightarrow> (radio_ts \<times> bytes) option" where
  "ts_run ts [] = settle ts"
| "ts_run ts (b # bs) =
     (case settle ts of None \<Rightarrow> None
      | Some (t, out) \<Rightarrow> emit out (ts_run (t\<lparr>carry := carry t @ [b]\<rparr>) bs))"

lemma emit_simps [simp]:
  "emit [] r = r" "emit o1 (emit o2 r) = emit (o1 @ o2) r" "emit out None = None"
  "emit out (Some (t, tail)) = Some (t, out @ tail)" "emit out r = None \<longleftrightarrow> r = None"
  by (cases r; auto simp: emit_def)+

definition room :: "radio_ts \<Rightarrow> nat" where
  "room ts = (if synced ts then PKT else PKT + 1)"

abbreviation settled :: "radio_ts \<Rightarrow> bool" where
  "settled ts \<equiv> length (carry ts) < room ts"

text \<open>The invariant of the state between two calls.\<close>

definition ts_ok :: "radio_ts \<Rightarrow> bool" where
  "ts_ok ts \<longleftrightarrow> length (carry ts) \<le> PKT + 1 \<and>
     (if synced ts then PKT \<le> length (carry ts) \<longrightarrow> carry ts ! 0 = 0x47 else length (carry ts) \<le> PKT)"

lemma settle_settled [simp]: "settled ts \<Longrightarrow> settle ts = Some (ts, [])"
  by (auto simp: settle_def room_def split: if_splits)

lemma run_cong: "settle a = settle b \<Longrightarrow> ts_run a inp = ts_run b inp"
  by (cases inp) simp_all

lemma run_settle: "settle ts = Some (t, out) \<Longrightarrow> settled t \<Longrightarrow> ts_run ts inp = emit out (ts_run t inp)"
  by (cases inp) simp_all

lemma run_fill:
  "length (carry ts) + length xs \<le> room ts \<Longrightarrow>
     ts_run ts (xs @ ys) = ts_run (ts\<lparr>carry := carry ts @ xs\<rparr>) ys"
proof (induction xs arbitrary: ts)
  case (Cons x xs)
  then have "settled ts" by simp
  moreover have "room (ts\<lparr>carry := carry ts @ [x]\<rparr>) = room ts" by (simp add: room_def)
  ultimately show ?case using Cons by simp
qed simp

lemma run_refill:
  assumes "length (carry ts) \<le> room ts"
  defines "n \<equiv> room ts - length (carry ts)"
  shows "ts_run ts inp = ts_run (ts\<lparr>carry := carry ts @ take n inp\<rparr>) (drop n inp)"
  using run_fill [of ts "take n inp" "drop n inp"] assms by simp

text \<open>The machine is run on a stream cut in two by running it on the parts.\<close>

definition fits :: "radio_ts \<Rightarrow> bool" where
  "fits ts \<longleftrightarrow> length (carry ts) \<le> PKT + 1 \<and>
     (synced ts \<longrightarrow> length (carry ts) = PKT + 1 \<longrightarrow> carry ts ! 0 = 0x47)"

lemma ts_ok_fits: "ts_ok ts \<Longrightarrow> fits ts"
  by (auto simp: ts_ok_def fits_def)

lemma settled_snoc_fits: "settled ts \<Longrightarrow> fits (ts\<lparr>carry := carry ts @ [b]\<rparr>)"
  by (auto simp: fits_def room_def split: if_splits)

lemma settle_settles: "fits ts \<Longrightarrow> settle ts = Some (t, out) \<Longrightarrow> settled t"
  by (auto simp: settle_def room_def fits_def PKT_def split_beta split: if_splits)

lemma run_play_append:
  "fits ts \<Longrightarrow> ts_run ts (xs @ ys) =
     (case ts_run ts xs of None \<Rightarrow> None | Some (t, out) \<Rightarrow> emit out (ts_run t ys))"
proof (induction xs arbitrary: ts)
  case Nil
  show ?case
  proof (cases "settle ts")
    case None
    then show ?thesis by (cases ys) simp_all
  next
    case (Some to)
    obtain t out where "to = (t, out)" by (cases to)
    then show ?thesis using Some run_settle [of ts t out ys] settle_settles [OF Nil] by simp
  qed
next
  case (Cons x xs)
  show ?case
  proof (cases "settle ts")
    case (Some to)
    obtain t out where to: "to = (t, out)" by (cases to)
    then have "fits (t\<lparr>carry := carry t @ [x]\<rparr>)"
      using settle_settles [OF Cons.prems] Some by (simp add: settled_snoc_fits)
    from Cons.IH [OF this] show ?thesis
      using Some to by (cases "ts_run (t\<lparr>carry := carry t @ [x]\<rparr>) xs") auto
  qed simp
qed

section \<open>One packet's payload\<close>

lemma audio_payload_length: "length (snd (audio_payload ts start pay len)) \<le> len"
  by (auto simp: audio_payload_def Let_def)

lemma payload_span_le: "payload_span pkt = Some (pay, len) \<Longrightarrow> len \<le> PLD"
  by (auto simp: payload_span_def Let_def PKT_def PLD_def split: if_splits)

lemma process_length [bounds]: "length (snd (process ts pkt)) \<le> PLD"
  using audio_payload_length payload_span_le
  by (auto simp: process_def Let_def split: option.split) (meson le_trans)+

text \<open>A packet that gave bytes gives them again, which is what re-feeding relies on.\<close>

lemma audio_payload_again:
  "snd (audio_payload ts start pay len) \<noteq> [] \<Longrightarrow>
     fst (audio_payload ts start pay len) = ts\<lparr>in_pes := True\<rparr> \<and>
     audio_payload (ts\<lparr>in_pes := True\<rparr>) start pay len = audio_payload ts start pay len"
  by (auto simp: audio_payload_def Let_def split: if_splits)

lemma process_again:
  assumes "snd (process ts pkt) \<noteq> []"
  shows "process (fst (process ts pkt)) pkt = process ts pkt"
proof (cases "payload_span pkt")
  case None
  then show ?thesis using assms by (simp add: process_def)
next
  case (Some span)
  obtain pay len where span: "payload_span pkt = Some (pay, len)" using Some by (cases span) simp
  define a where "a = audio_payload ts (unit_start pkt) pay len"
  have audio: "process t pkt = audio_payload t (unit_start pkt) pay len"
    if "pmt_pid t = pmt_pid ts" "audio_pid t = audio_pid ts" for t
    using assms that by (simp add: process_def span Let_def split: if_splits)
  then have eq: "process ts pkt = a" by (simp add: a_def)
  then have "fst a = ts\<lparr>in_pes := True\<rparr>" "audio_payload (ts\<lparr>in_pes := True\<rparr>) (unit_start pkt) pay len = a"
    using assms audio_payload_again [of ts "unit_start pkt" pay len] by (simp_all add: a_def)
  then show ?thesis unfolding eq using audio [of "ts\<lparr>in_pes := True\<rparr>"] by simp
qed

text \<open>Nothing beyond the packet is read.\<close>

lemma pat_loop_local: "stop \<le> length pay \<Longrightarrow> pat_loop ts (pay @ x) stop i = pat_loop ts pay stop i"
  by (induction ts pay stop i rule: pat_loop.induct) (subst (1 2) pat_loop.simps, simp add: nth_append)

lemma pmt_loop_local: "stop \<le> length pay \<Longrightarrow> pmt_loop ts (pay @ x) stop i = pmt_loop ts pay stop i"
  by (induction ts pay stop i rule: pmt_loop.induct)
    (subst (1 2) pmt_loop.simps, simp add: nth_append Let_def)

lemma section_local:
  "12 \<le> len \<Longrightarrow> len \<le> length pay \<Longrightarrow> pat_section ts (pay @ x) len = pat_section ts pay len"
  "13 \<le> len \<Longrightarrow> len \<le> length pay \<Longrightarrow> pmt_section ts (pay @ x) len = pmt_section ts pay len"
  by (auto simp: pat_section_def pmt_section_def Let_def nth_append intro!: pat_loop_local pmt_loop_local)

lemma parse_local:
  assumes "len \<le> length pay"
  shows "parse_pat ts (pay @ x) len = parse_pat ts pay len"
    and "parse_pmt ts (pay @ x) len = parse_pmt ts pay len"
proof -
  have first: "1 \<le> len \<Longrightarrow> (pay @ x) ! 0 = pay ! 0" using assms by (cases pay) simp_all
  show "parse_pat ts (pay @ x) len = parse_pat ts pay len"
    using assms first by (auto simp: parse_pat_def Let_def section_local)
  show "parse_pmt ts (pay @ x) len = parse_pmt ts pay len"
    using assms first by (auto simp: parse_pmt_def Let_def section_local)
qed

lemma audio_payload_local:
  "len \<le> length pay \<Longrightarrow> audio_payload ts start (pay @ x) len = audio_payload ts start pay len"
  by (auto simp: audio_payload_def Let_def nth_append)

lemma payload_span_local:
  "length p = PKT \<Longrightarrow>
     payload_span (p @ x) = map_option (\<lambda>(pay, len). (pay @ x, len)) (payload_span p)"
  by (auto simp: payload_span_def Let_def nth_append PKT_def)

lemma payload_span_length: "length p = PKT \<Longrightarrow> payload_span p = Some (pay, len) \<Longrightarrow> length pay = len"
  by (auto simp: payload_span_def Let_def PKT_def PLD_def split: if_splits)

lemma process_local:
  assumes "length p = PKT"
  shows "process ts (p @ x) = process ts p"
proof (cases "payload_span p")
  case None
  then show ?thesis using assms by (simp add: process_def payload_span_local nth_append PKT_def)
next
  case (Some pl)
  obtain pay len where pl: "pl = (pay, len)" by (cases pl)
  have "(p @ x) ! i = p ! i" if "i < 4" for i using that assms by (simp add: nth_append PKT_def)
  then show ?thesis
    using assms payload_span_length [of p pay len]
    by (simp add: process_def payload_span_local Some pl unit_start_def Let_def
        parse_local audio_payload_local)
qed

section \<open>One turn of the loop\<close>

lemma find_lock_189:
  assumes "length c = PKT + 1"
  shows "find_lock c = (if c ! 0 = 0x47 \<and> c ! PKT = 0x47 then Some 0 else None)"
  using assms by (simp add: find_lock_def)

lemma resync_run:
  assumes ts: "\<not> synced ts" "length (carry ts) \<le> PKT"
  shows "case resync ts inp out of
      Again t i o' \<Rightarrow> o' = out \<and> ts_run ts inp = ts_run t i \<and> ts_ok t
    | Break t i o' \<Rightarrow> o' = out \<and> ts_run ts inp = ts_run t i \<and> ts_ok t \<and> i = [] \<and> settled t
    | Lost t \<Rightarrow> ts_run ts inp = None \<and> ts_ok t"
proof -
  define n where "n = PKT + 1 - length (carry ts)"
  define c where "c = carry ts @ take n inp"
  define t where "t = ts\<lparr>carry := c\<rparr>"
  note eq = resync_unfold [of ts inp out, folded n_def, folded c_def]
  have n: "room ts - length (carry ts) = n" and r: "room t = PKT + 1"
    using ts by (simp_all add: room_def n_def t_def)
  have run: "ts_run ts inp = ts_run t (drop n inp)"
    using run_refill [of ts inp] ts unfolding n by (simp add: c_def t_def room_def)
  have le: "length c \<le> PKT + 1" using ts by (auto simp: c_def n_def)
  show ?thesis
  proof (cases "length c < PKT + 1")
    case True
    then have "drop n inp = []" using ts by (simp add: c_def n_def)
    then show ?thesis using True run ts le by (simp add: eq ts_ok_def t_def room_def)
  next
    case False
    then have len: "length c = PKT + 1" using le by simp
    show ?thesis
    proof (cases "c ! 0 = 0x47 \<and> c ! PKT = 0x47")
      case True
      have "settle t = settle (t\<lparr>synced := True\<rparr>)"
        using True len ts by (simp add: settle_def t_def)
      then have "ts_run t (drop n inp) = ts_run (t\<lparr>synced := True\<rparr>) (drop n inp)" by (rule run_cong)
      moreover have "t\<lparr>synced := True\<rparr> = ts\<lparr>carry := c, synced := True\<rparr>" by (simp add: t_def)
      ultimately show ?thesis
        using True len run by (simp add: eq find_lock_189 ts_ok_def)
    next
      case no: False
      then have lock: "find_lock c = None" by (simp add: find_lock_189 [OF len])
      show ?thesis
      proof (cases "LE_RADIO_TS_RESYNC_PACKETS * PKT < lost ts + 1")
        case True
        then have "settle t = None" using no len ts by (auto simp: settle_def t_def)
        then have "ts_run t (drop n inp) = None" by (cases "drop n inp") simp_all
        then show ?thesis using True run ts len by (simp add: eq lock ts_ok_def)
      next
        case False
        define u where "u = ts\<lparr>lost := lost ts + 1, carry := drop 1 c\<rparr>"
        have "settle t = Some (u, [])"
          using False no len ts by (auto simp: settle_def t_def u_def)
        moreover have "settled u" using ts len by (simp add: u_def room_def)
        ultimately have "ts_run t (drop n inp) = ts_run u (drop n inp)"
          using run_settle [of t u "[]"] by simp
        then show ?thesis using False run ts len by (simp add: eq lock ts_ok_def u_def)
      qed
    qed
  qed
qed

lemma feed_turn_run:
  assumes ok: "ts_ok ts"
  shows "case feed_turn ts inp out cap of
      Again t i o' \<Rightarrow> \<exists>add. o' = out @ add \<and> length add \<le> cap - length out \<and>
        ts_run ts inp = emit add (ts_run t i) \<and> ts_ok t
    | Break t i o' \<Rightarrow> o' = out \<and> ts_run ts inp = ts_run t i \<and> ts_ok t \<and>
        (i = [] \<and> settled t \<or> cap < length out + PLD \<and> synced t \<and> PKT \<le> length (carry t))
    | Lost t \<Rightarrow> ts_run ts inp = None \<and> ts_ok t"
proof (cases "synced ts")
  case False
  then have "length (carry ts) \<le> PKT" using ok by (simp add: ts_ok_def)
  then show ?thesis using resync_run [OF False, where inp = inp and out = out] False
    by (simp add: feed_turn_unsynced split: turn.splits)
next
  case True
  define n where "n = PKT - length (carry ts)"
  define t where "t = ts\<lparr>carry := carry ts @ take n inp\<rparr>"
  note eq = feed_turn_unfold [OF True, of inp out cap, folded n_def, folded t_def]
  have st: "synced t" and len: "length (carry t) \<le> PKT + 1" and r: "room ts = PKT"
    using ok True by (auto simp: t_def n_def ts_ok_def room_def)
  have run: "ts_run ts inp = ts_run t (drop n inp)"
  proof (cases "length (carry ts) \<le> PKT")
    case True
    then show ?thesis using run_refill [of ts inp] r by (simp add: t_def n_def)
  next
    case False
    then show ?thesis by (simp add: t_def n_def)
  qed
  show ?thesis
  proof (cases "length (carry t) < PKT")
    case True
    then have "drop n inp = []" using n_def by (simp add: t_def)
    then show ?thesis using True run st by (simp add: eq ts_ok_def room_def)
  next
    case full: False
    show ?thesis
    proof (cases "carry t ! 0 = 0x47")
      case True
      define u where "u = fst (process t (carry t))"
      define add where "add = snd (process t (carry t))"
      have u: "carry u = carry t" "synced u" by (simp_all add: u_def st)
      have settle: "settle t = Some (u\<lparr>carry := drop PKT (carry t)\<rparr>, add)"
        using True full st by (simp add: settle_def u_def add_def split_beta)
      show ?thesis
      proof (cases "cap - length out < length add")
        case small: True
        then have "process u (carry t) = process t (carry t)"
          unfolding u_def add_def by (intro process_again) auto
        then have "settle u = settle t" using True full st u by (simp add: settle_def)
        then have "ts_run t (drop n inp) = ts_run u (drop n inp)" by (intro run_cong) simp
        moreover have "length add \<le> PLD" unfolding add_def by (rule process_length)
        ultimately show ?thesis
          using small True full run u len by (auto simp: eq u_def [symmetric] add_def [symmetric] ts_ok_def)
      next
        case fits: False
        have "settled (u\<lparr>carry := drop PKT (carry t)\<rparr>)" using u len by (simp add: room_def PKT_def)
        from run_settle [OF settle this] show ?thesis
          using fits True full run u len
          by (auto simp: eq u_def [symmetric] add_def [symmetric] ts_ok_def PKT_def)
      qed
    next
      case False
      define u where "u = t\<lparr>synced := False, lost := 0\<rparr>"
      have "length (carry ts) < PKT" using ok True False by (auto simp: ts_ok_def t_def n_def nth_append PKT_def split: if_splits)
      then have u: "\<not> synced u" "length (carry u) \<le> PKT" by (simp_all add: u_def t_def n_def)
      have "settle t = Some (u, [])" using False full st by (simp add: settle_def u_def)
      then have "ts_run t (drop n inp) = ts_run u (drop n inp)"
        using run_settle [of t u "[]"] u by (simp add: room_def)
      then show ?thesis
        using resync_run [OF u, where inp = "drop n inp" and out = out] False full run
        by (simp add: eq u_def [symmetric] split: turn.splits)
    qed
  qed
qed

section \<open>A whole call\<close>

lemma feed_loop_run:
  "ts_ok ts \<Longrightarrow> length out \<le> cap \<Longrightarrow>
     (case feed_loop ts inp out cap of
        (t, None) \<Rightarrow> ts_run ts inp = None \<and> ts_ok t
      | (t, Some (o', i)) \<Rightarrow> \<exists>add. o' = out @ add \<and> length o' \<le> cap \<and>
          ts_run ts inp = emit add (ts_run t i) \<and> ts_ok t \<and>
          (i = [] \<and> settled t \<or> cap < length o' + PLD \<and> synced t \<and> PKT \<le> length (carry t)))"
proof (induction ts inp out cap rule: feed_loop.induct)
  case (1 ts inp out cap)
  note turn = feed_turn_run [OF "1.prems"(1), where inp = inp and out = out and cap = cap]
  show ?case
  proof (cases "feed_turn ts inp out cap")
    case (Again t i o')
    then obtain add where add: "o' = out @ add" "length add \<le> cap - length out"
      "ts_run ts inp = emit add (ts_run t i)" "ts_ok t" using turn by auto
    then have "length o' \<le> cap" using "1.prems"(2) by simp
    from "1.IH" [OF Again add(4) this]
    have "case feed_loop t i o' cap of
        (u, None) \<Rightarrow> ts_run t i = None \<and> ts_ok u
      | (u, Some (p, j)) \<Rightarrow> \<exists>add. p = o' @ add \<and> length p \<le> cap \<and>
          ts_run t i = emit add (ts_run u j) \<and> ts_ok u \<and>
          (j = [] \<and> settled u \<or> cap < length p + PLD \<and> synced u \<and> PKT \<le> length (carry u))" .
    moreover have "feed_loop ts inp out cap = feed_loop t i o' cap"
      by (subst feed_loop.simps) (simp add: Again)
    ultimately show ?thesis using add by (auto split: prod.splits option.splits)
  next
    case (Break t i o')
    then have "feed_loop ts inp out cap = (t, Some (o', i))"
      by (subst feed_loop.simps) simp
    then show ?thesis using turn Break "1.prems"(2) by simp
  next
    case (Lost t)
    then have "feed_loop ts inp out cap = (t, None)"
      by (subst feed_loop.simps) simp
    then show ?thesis using turn Lost by simp
  qed
qed

text \<open>Bytes are only ever lost, and a packet that was played has lost its header.\<close>

definition held :: "radio_ts \<Rightarrow> bytes \<Rightarrow> bytes \<Rightarrow> nat" where
  "held ts inp out = length (carry ts) + length inp + length out"

lemma resync_held:
  "case resync ts inp out of
      Again t i o' \<Rightarrow> o' = out \<and> held t i o' \<le> held ts inp out \<and> (\<exists>k. i = drop k inp)
    | Break t i o' \<Rightarrow> o' = out \<and> held t i o' \<le> held ts inp out \<and> (\<exists>k. i = drop k inp)
    | Lost t \<Rightarrow> True"
proof -
  define n where "n = PKT + 1 - length (carry ts)"
  define c where "c = carry ts @ take n inp"
  note eq = resync_unfold [of ts inp out, folded n_def, folded c_def]
  define rest where "rest = drop n inp"
  have "length c + length rest = length (carry ts) + length inp" by (simp add: c_def rest_def)
  moreover have "\<exists>k. rest = drop k inp" by (auto simp: rest_def)
  ultimately show ?thesis unfolding eq rest_def [symmetric] by (auto simp: held_def split: option.split)
qed

lemma feed_turn_held:
  "case feed_turn ts inp out cap of
      Again t i o' \<Rightarrow> held t i o' + (if o' = out then 0 else 4) \<le> held ts inp out \<and> (\<exists>k. i = drop k inp)
    | Break t i o' \<Rightarrow> o' = out \<and> held t i o' \<le> held ts inp out \<and> (\<exists>k. i = drop k inp)
    | Lost t \<Rightarrow> True"
proof (cases "synced ts")
  case False
  then show ?thesis using resync_held [where ts = ts and inp = inp and out = out] by (simp add: feed_turn_unsynced split: turn.splits)
next
  case True
  define n where "n = PKT - length (carry ts)"
  define t where "t = ts\<lparr>carry := carry ts @ take n inp\<rparr>"
  note eq = feed_turn_unfold [OF True, of inp out cap, folded n_def, folded t_def]
  have same: "held t (drop n inp) out = held ts inp out" by (simp add: held_def t_def)
  show ?thesis
  proof (cases "PKT \<le> length (carry t) \<and> carry t ! 0 \<noteq> 0x47")
    case True
    then show ?thesis 
      using resync_held [where ts = "t\<lparr>synced := False, lost := 0\<rparr>" and inp = "drop n inp" and out = out] same
      by (auto simp: eq held_def split: turn.splits)
  next
    case False
    have "length (snd (process t (carry t))) + 4 \<le> PKT"
      using process_length [of t "carry t"] by (simp add: PLD_def PKT_def)
    then show ?thesis using same False by (auto simp: eq held_def)
  qed
qed

lemma feed_loop_held:
  "(case feed_loop ts inp out cap of (t, None) \<Rightarrow> True
    | (t, Some (o', i)) \<Rightarrow>
        held t i o' + (if o' = out then 0 else 4) \<le> held ts inp out \<and> (\<exists>k. i = drop k inp))"
proof (induction ts inp out cap rule: feed_loop.induct)
  case (1 ts inp out cap)
  note turn = feed_turn_held [where ts = ts and inp = inp and out = out and cap = cap]
  have eq: "feed_loop ts inp out cap =
     (case feed_turn ts inp out cap of
        Again ts inp out \<Rightarrow> feed_loop ts inp out cap
      | Break ts inp out \<Rightarrow> (ts, Some (out, inp))
      | Lost ts \<Rightarrow> (ts, None))" by (rule feed_loop.simps)
  show ?case
  proof (cases "feed_turn ts inp out cap")
    case (Again t i o')
    obtain u r where loop: "feed_loop t i o' cap = (u, r)" by fastforce
    show ?thesis
    proof (cases r)
      case None
      then show ?thesis by (simp add: eq Again loop)
    next
      case (Some pj)
      obtain p j where pj: "pj = (p, j)" by (cases pj)
      have "held u j p + (if p = o' then 0 else 4) \<le> held t i o'" "\<exists>k. j = drop k i"
        using "1.IH" [OF Again] by (simp_all add: loop Some pj)
      moreover have "held t i o' + (if o' = out then 0 else 4) \<le> held ts inp out" "\<exists>k. i = drop k inp"
        using turn Again by simp_all
      ultimately have "held u j p + (if p = out then 0 else 4) \<le> held ts inp out" "\<exists>k. j = drop k inp"
        by (auto split: if_splits)
      then show ?thesis by (simp add: eq Again loop Some pj)
    qed
  qed (use turn in \<open>simp_all add: eq\<close>)
qed

text \<open>What one call of the interface guarantees, given the state it is called in.\<close>

lemma feed_call:
  assumes "ts_ok ts" and "PLD \<le> cap"
  shows "case le_radio_ts_feed ts inp cap of
      (t, None) \<Rightarrow> ts_run ts inp = None \<and> ts_ok t
    | (t, Some (out, n)) \<Rightarrow>
        ts_run ts inp = emit out (ts_run t (drop n inp)) \<and> ts_ok t \<and> length out \<le> cap \<and>
        n \<le> length inp \<and> (inp \<noteq> [] \<longrightarrow> 0 < n) \<and>
        (length inp + PLD < cap \<longrightarrow> n = length inp \<and> settled t)"
proof -
  obtain t r where loop: "feed_loop ts inp [] cap = (t, r)" by fastforce
  note run = feed_loop_run [OF assms(1), where inp = inp and out = "[]" and cap = cap]
  show ?thesis
  proof (cases r)
    case None
    then show ?thesis using run assms(2) by (simp add: le_radio_ts_feed_def loop)
  next
    case (Some oi)
    obtain out i where oi: "oi = (out, i)" by (cases oi)
    have out: "length out \<le> cap" "ts_run ts inp = emit out (ts_run t i)" "ts_ok t"
      and why: "i = [] \<and> settled t \<or> cap < length out + PLD \<and> synced t \<and> PKT \<le> length (carry t)"
      using run by (simp_all add: loop Some oi)
    have held: "held t i out + (if out = [] then 0 else 4) \<le> held ts inp []" and "\<exists>k. i = drop k inp"
      using feed_loop_held [where ts = ts and inp = inp and out = "[]" and cap = cap] by (simp_all add: loop Some oi)
    then obtain k where k: "i = drop k inp" by blast
    then have i: "drop (length inp - length i) inp = i" "length i \<le> length inp"
      by (cases "k \<le> length inp"; simp)+
    have len: "length (carry ts) \<le> PKT + 1" using assms(1) by (simp add: ts_ok_def)
    have stuck: "cap < length inp + PLD \<and> length i < length inp" if "\<not> (i = [] \<and> settled t)"
    proof -
      have c: "cap < length out + PLD" "PKT \<le> length (carry t)" using why that by blast+
      then have "out \<noteq> []" using assms(2) by auto
      then show ?thesis using held c len by (simp add: held_def)
    qed
    have some: "inp \<noteq> [] \<longrightarrow> 0 < length inp - length i" using stuck by (cases "i = []") auto
    have all: "length inp + PLD < cap \<longrightarrow> length inp - length i = length inp \<and> settled t"
      using stuck by (cases "i = [] \<and> settled t") auto
    have "le_radio_ts_feed ts inp cap = (t, Some (out, length inp - length i))"
      using assms(2) by (simp add: le_radio_ts_feed_def loop Some oi)
    then show ?thesis using out i(1) some all by simp
  qed
qed

section \<open>Properties\<close>

interpretation radio: machine
  "\<lambda>ts. ts = le_radio_ts_reset" "\<lambda>ts (inp, cap). fst (le_radio_ts_feed ts inp cap)" ts_ok
proof
  show "ts_ok s" if "s = le_radio_ts_reset" for s using that by (simp add: ts_ok_def le_radio_ts_reset_def)
  show "ts_ok (case e of (inp, cap) \<Rightarrow> fst (le_radio_ts_feed s inp cap))" if "ts_ok s" for s e
  proof (cases e)
    case (Pair inp cap)
    then show ?thesis using feed_call [OF that, of cap inp] that
      by (cases "PLD \<le> cap") (auto simp: le_radio_ts_feed_def split: prod.splits option.splits)
  qed
qed

text \<open>
  Every call the demultiplexer can ever see, whatever the stream and whatever the size of the
  output buffer, leaves at most one packet and a byte in its 189-byte carry buffer, writes no
  more than the buffer holds, and takes at least one byte of a non-empty input unless it fails;
  so the caller that feeds the rest again always gets on.
\<close>

theorem radio_ts_buffers_bounded:
  assumes "radio.reach ts" and "PLD \<le> cap"
  shows "case le_radio_ts_feed ts inp cap of
      (t, None) \<Rightarrow> length (carry t) \<le> PKT + 1
    | (t, Some (out, n)) \<Rightarrow> length (carry t) \<le> PKT + 1 \<and>
        length out \<le> cap \<and> n \<le> length inp \<and> (inp \<noteq> [] \<longrightarrow> 0 < n)"
  using feed_call [OF radio.inv_reachable [OF assms(1)] assms(2), of inp]
  by (auto simp: ts_ok_def split: prod.splits option.splits)

section \<open>Chunks\<close>

lemma run_extend:
  assumes "ts_ok ts" and "ts_ok t" and "ts_run ts inp = emit out (ts_run t rest)"
  shows "ts_run ts (inp @ ys) = emit out (ts_run t (rest @ ys))"
  using assms by (cases "ts_run t rest") (auto simp: run_play_append ts_ok_fits)

lemma push_chunk_run:
  "ts_ok ts \<Longrightarrow> PLD \<le> cap \<Longrightarrow>
     (case push_chunk cap ts chunk of (t, out, ok) \<Rightarrow> ts_ok t \<and>
        ts_run ts chunk = (if ok then emit out (ts_run t []) else None) \<and>
        (ok \<longrightarrow> length chunk + PLD < cap \<longrightarrow> settled ts \<longrightarrow> settled t))"
proof (induction cap ts chunk rule: push_chunk.induct)
  case (1 cap ts chunk)
  show ?case
  proof (cases "chunk = []")
    case True
    then have "push_chunk cap ts chunk = (ts, [], True)" by (simp add: push_chunk.simps)
    then show ?thesis using "1.prems" True by simp
  next
    case False
    note call = feed_call [OF "1.prems", of chunk]
    obtain t r where feed: "le_radio_ts_feed ts chunk cap = (t, r)" by fastforce
    show ?thesis
    proof (cases r)
      case None
      then have "push_chunk cap ts chunk = (t, [], False)"
        using False by (subst push_chunk.simps) (simp add: feed)
      then show ?thesis using call None by (simp add: feed)
    next
      case (Some mn)
      obtain made n where mn: "mn = (made, n)" by (cases mn)
      have n: "0 < n" "ts_ok t" "ts_run ts chunk = emit made (ts_run t (drop n chunk))"
        and all: "length chunk + PLD < cap \<longrightarrow> n = length chunk \<and> settled t"
        using call False by (simp_all add: feed Some mn)
      obtain u out ok where push: "push_chunk cap t (drop n chunk) = (u, out, ok)" by (metis prod_cases3)
      have eq: "push_chunk cap ts chunk = (u, made @ out, ok)"
        using False n(1) by (subst push_chunk.simps) (simp add: feed Some mn push)
      have "case push_chunk cap t (drop n chunk) of (u, out, ok) \<Rightarrow> ts_ok u \<and>
          ts_run t (drop n chunk) = (if ok then emit out (ts_run u []) else None) \<and>
          (ok \<longrightarrow> length (drop n chunk) + PLD < cap \<longrightarrow> settled t \<longrightarrow> settled u)"
        using "1.IH" [OF False feed [symmetric] Some mn [symmetric]] n(1,2) "1.prems"(2) by simp
      then show ?thesis using n all by (auto simp: push eq)
    qed
  qed
qed

lemma push_chunks_run:
  "ts_ok ts \<Longrightarrow> PLD \<le> cap \<Longrightarrow>
     (case push_chunks cap ts chunks of (t, out, ok) \<Rightarrow> ts_ok t \<and>
        ts_run ts (concat chunks) = (if ok then emit out (ts_run t []) else None) \<and>
        (ok \<longrightarrow> (\<forall>c\<in>set chunks. length c + PLD < cap) \<longrightarrow> settled ts \<longrightarrow> settled t))"
proof (induction chunks arbitrary: ts)
  case (Cons c cs)
  note one = push_chunk_run [OF Cons.prems, of c]
  obtain t out ok where push: "push_chunk cap ts c = (t, out, ok)" by (metis prod_cases3)
  show ?case
  proof (cases ok)
    case True
    obtain u out' ok' where rest: "push_chunks cap t cs = (u, out', ok')" by (metis prod_cases3)
    have t: "ts_ok t" "ts_run ts c = emit out (ts_run t [])" using one True by (simp_all add: push)
    then have "ts_run ts (c @ concat cs) = emit out (ts_run t (concat cs))"
      using run_extend [OF Cons.prems(1), of t c out "[]"] by simp
    then show ?thesis using one Cons.IH [OF t(1) Cons.prems(2)] True by (auto simp: push rest)
  next
    case False
    then show ?thesis using one Cons.prems by (auto simp: push run_play_append ts_ok_fits)
  qed
qed simp

text \<open>
  C5: However the stream is cut into chunks and however small the output buffer is, as long as it
  holds one payload, the bytes played are those of the machine that takes one byte at a time
  (up to the packet that is still held back when the buffer was full at the end), and the stream
  is given up exactly when that machine gives it up.  In particular two ways to cut the same
  stream, with two buffers, agree.
\<close>

theorem radio_ts_chunking_immaterial:
  assumes "radio.reach ts" and "PLD \<le> cap" and "push_chunks cap ts chunks = (t, out, ok)"
  shows "ts_run ts (concat chunks) = (if ok then emit out (settle t) else None)"
  using push_chunks_run [OF radio.inv_reachable [OF assms(1)] assms(2), of chunks] assms(3) by simp

text \<open>
  A segment fetched by the player in chunks of at most its 4096-byte receive buffer yields
  the same audio bytes and the same demultiplexer state however the network cut it, because the
  player's output buffer is never full.
\<close>

theorem radio_segment_cuts_agree:
  assumes "radio.reach ts" and "settled ts"
    and "\<forall>c\<in>set cs. length c \<le> NET_CHUNK" and "\<forall>c\<in>set ds. length c \<le> NET_CHUNK"
    and "concat cs = concat ds"
    and "hls_fetch_segment ts cs = (t, out, True)"
  shows "hls_fetch_segment ts ds = (t, out, True)"
proof -
  have cap: "PLD \<le> ADTS_MAX" "NET_CHUNK + PLD < ADTS_MAX"
    by (simp_all add: PLD_def ADTS_MAX_def NET_CHUNK_def PKT_def)
  then have small: "\<forall>c\<in>set xs. length c \<le> NET_CHUNK \<Longrightarrow> \<forall>c\<in>set xs. length c + PLD < ADTS_MAX"
    for xs :: "bytes list" by fastforce
  note run = push_chunks_run [OF radio.inv_reachable [OF assms(1)] cap(1), folded hls_fetch_segment_def]
  have one: "ts_run ts (concat cs) = Some (t, out)"
    using run [of cs] assms small [of cs] by (simp add: hls_fetch_segment_def [symmetric])
  obtain u p ok where ds: "hls_fetch_segment ts ds = (u, p, ok)" by (metis prod_cases3)
  have "ok" using run [of ds] one assms(5) by (auto simp: ds split: if_splits)
  then have "ts_run ts (concat ds) = Some (u, p)"
    using run [of ds] assms(2,4) small [of ds] by (simp add: ds)
  then show ?thesis using one assms(5) ds \<open>ok\<close> by simp
qed

section \<open>Recovery\<close>

text \<open>The place in the stream has no part in what a packet means.\<close>

lemma process_place:
  "process (ts\<lparr>synced := s, lost := l, carry := c\<rparr>) pkt =
     (fst (process ts pkt)\<lparr>synced := s, lost := l, carry := c\<rparr>, snd (process ts pkt))"
proof -
  have pat: "pat_loop (ts\<lparr>synced := s, lost := l, carry := c\<rparr>) p e i =
      pat_loop ts p e i\<lparr>synced := s, lost := l, carry := c\<rparr>" for p e i
    by (induction ts p e i rule: pat_loop.induct) (subst (1 2) pat_loop.simps, simp)
  have pmt: "pmt_loop (ts\<lparr>synced := s, lost := l, carry := c\<rparr>) p e i =
      pmt_loop ts p e i\<lparr>synced := s, lost := l, carry := c\<rparr>" for p e i
    by (induction ts p e i rule: pmt_loop.induct) (subst (1 2) pmt_loop.simps, simp add: Let_def)
  have "parse_pat (ts\<lparr>synced := s, lost := l, carry := c\<rparr>) p n =
      parse_pat ts p n\<lparr>synced := s, lost := l, carry := c\<rparr>"
    "parse_pmt (ts\<lparr>synced := s, lost := l, carry := c\<rparr>) p n =
      parse_pmt ts p n\<lparr>synced := s, lost := l, carry := c\<rparr>" for p n
    by (simp_all add: parse_pat_def parse_pmt_def pat_section_def pmt_section_def Let_def pat pmt)
  then show ?thesis
    by (simp add: process_def audio_payload_def Let_def split: option.split)
qed

definition is_packet :: "bytes \<Rightarrow> bool" where
  "is_packet p \<longleftrightarrow> length p = PKT \<and> p ! 0 = 0x47"

fun play :: "radio_ts \<Rightarrow> bytes list \<Rightarrow> radio_ts \<times> bytes" where
  "play ts [] = (ts, [])"
| "play ts (p # ps) =
     (let (t, out) = process ts p; (u, out') = play t ps in (u, out @ out'))"

lemma run_packet:
  assumes "synced ts" and "carry ts = []" and "is_packet p"
  shows "ts_run ts (p @ rest) = emit (snd (process ts p)) (ts_run (fst (process ts p)) rest)"
proof -
  define t where "t = ts\<lparr>carry := p\<rparr>"
  have "ts_run ts (p @ rest) = ts_run t rest"
    using assms run_fill [of ts p rest] by (simp add: room_def is_packet_def t_def)
  moreover have "process t p = (fst (process ts p)\<lparr>carry := p\<rparr>, snd (process ts p))"
    using process_place [where ts = ts and s = "synced ts" and l = "lost ts" and c = p and pkt = p] by (simp add: t_def)
  then have "settle t = Some (fst (process ts p)\<lparr>carry := []\<rparr>, snd (process ts p))"
    using assms by (simp add: settle_def is_packet_def t_def)
  moreover have "fst (process ts p)\<lparr>carry := []\<rparr> = fst (process ts p)"
    using assms(2) by (simp add: radio_ts.equality)
  moreover have "settled (fst (process ts p))" using assms by (simp add: room_def PKT_def)
  ultimately show ?thesis using run_settle [of t] by simp
qed

lemma run_packets:
  "synced ts \<Longrightarrow> carry ts = [] \<Longrightarrow> list_all is_packet ps \<Longrightarrow> ts_run ts (concat ps) = Some (play ts ps)"
proof (induction ps arbitrary: ts)
  case Nil
  then show ?case by (simp add: settle_def PKT_def)
next
  case (Cons p ps)
  then show ?case using run_packet [of ts p "concat ps"] by (simp add: split_beta emit_def)
qed

lemma run_window:
  assumes "length (carry ts) \<le> room ts"
  shows "ts_run ts r = ts_run (ts\<lparr>carry := []\<rparr>) (carry ts @ r)"
  using run_fill [of "ts\<lparr>carry := []\<rparr>" "carry ts" r] assms by (simp add: room_def)

lemma run_drop:
  assumes ts: "\<not> synced ts" "carry ts = []" and w: "PKT < length w"
    and no: "\<not> (w ! 0 = 0x47 \<and> w ! PKT = 0x47)"
  shows "ts_run ts w =
    (if LE_RADIO_TS_RESYNC_PACKETS * PKT < lost ts + 1 then None
     else ts_run (ts\<lparr>lost := lost ts + 1\<rparr>) (tl w))"
proof -
  define c where "c = take (PKT + 1) w"
  define t where "t = ts\<lparr>carry := c\<rparr>"
  have len: "length c = PKT + 1" and c: "\<not> (c ! 0 = 0x47 \<and> c ! PKT = 0x47)"
    using w no by (auto simp: c_def)
  have run: "ts_run ts w = ts_run t (drop (PKT + 1) w)"
    using run_fill [of ts c "drop (PKT + 1) w"] ts len by (simp add: room_def t_def c_def)
  show ?thesis
  proof (cases "LE_RADIO_TS_RESYNC_PACKETS * PKT < lost ts + 1")
    case True
    then have "settle t = None" using ts len c by (auto simp: settle_def t_def)
    then have "ts_run t (drop (PKT + 1) w) = None" by (cases "drop (PKT + 1) w") simp_all
    then show ?thesis using run True by simp
  next
    case False
    define u where "u = ts\<lparr>lost := lost ts + 1, carry := drop 1 c\<rparr>"
    have "settle t = Some (u, [])" using False ts len c by (auto simp: settle_def t_def u_def)
    moreover have u: "settled u" using ts len by (simp add: u_def room_def)
    ultimately have "ts_run t (drop (PKT + 1) w) = ts_run u (drop (PKT + 1) w)"
      using run_settle [of t u "[]"] by simp
    also have "\<dots> = ts_run (u\<lparr>carry := []\<rparr>) (drop 1 c @ drop (PKT + 1) w)"
      using run_window [of u] u by (simp add: u_def)
    also have "drop 1 c @ drop (PKT + 1) w = tl w"
      using w by (cases w) (simp_all add: c_def)
    also have "u\<lparr>carry := []\<rparr> = ts\<lparr>lost := lost ts + 1\<rparr>" using ts by (simp add: u_def)
    finally show ?thesis using run False by simp
  qed
qed

lemma run_junk:
  assumes "\<not> synced ts" and "carry ts = []" and "0x47 \<notin> set junk" and "PKT \<le> length w"
    and "lost ts \<le> LE_RADIO_TS_RESYNC_PACKETS * PKT"
  shows "ts_run ts (junk @ w) =
    (if LE_RADIO_TS_RESYNC_PACKETS * PKT < lost ts + length junk then None
     else ts_run (ts\<lparr>lost := lost ts + length junk\<rparr>) w)"
  using assms
proof (induction junk arbitrary: ts)
  case (Cons x junk)
  have "ts_run ts ((x # junk) @ w) =
      (if LE_RADIO_TS_RESYNC_PACKETS * PKT < lost ts + 1 then None
       else ts_run (ts\<lparr>lost := lost ts + 1\<rparr>) (junk @ w))"
    using run_drop [of ts "(x # junk) @ w"] Cons.prems by auto
  then show ?case using Cons.IH [of "ts\<lparr>lost := lost ts + 1\<rparr>"] Cons.prems by auto
qed simp

lemma run_lock:
  assumes ts: "\<not> synced ts" "carry ts = []" and p: "is_packet p" "is_packet q"
  shows "ts_run ts (p @ q @ rest) = ts_run (ts\<lparr>synced := True\<rparr>) (p @ q @ rest)"
proof -
  obtain q' where q: "q = 0x47 # q'" using p(2) by (cases q) (auto simp: is_packet_def PKT_def)
  define t where "t = ts\<lparr>carry := p @ [0x47]\<rparr>"
  have len: "length p = PKT" using p by (simp add: is_packet_def)
  have p0: "(p @ [0x47]) ! 0 = 0x47" "(p @ [0x47]) ! PKT = 0x47"
    using p len by (simp_all add: is_packet_def nth_append PKT_def)
  have "ts_run ts (p @ q @ rest) = ts_run t (q' @ rest)"
    using run_fill [of ts "p @ [0x47]" "q' @ rest"] ts len by (simp add: q room_def t_def)
  also have "\<dots> = ts_run (t\<lparr>synced := True\<rparr>) (q' @ rest)"
    using ts p0 len by (intro run_cong) (simp add: settle_def t_def)
  also have "\<dots> = ts_run (ts\<lparr>synced := True\<rparr>) (p @ q @ rest)"
  proof -
    define u where "u = fst (process (ts\<lparr>synced := True\<rparr>) p)"
    have "t\<lparr>synced := True\<rparr> = ts\<lparr>synced := True, lost := lost ts, carry := p @ [0x47]\<rparr>"
      by (simp add: t_def)
    moreover have "u\<lparr>synced := True, lost := lost ts, carry := p @ [0x47]\<rparr> = u\<lparr>carry := p @ [0x47]\<rparr>"
      by (intro radio_ts.equality) (simp_all add: u_def)
    ultimately have "process (t\<lparr>synced := True\<rparr>) (p @ [0x47]) =
        (u\<lparr>carry := p @ [0x47]\<rparr>, snd (process (ts\<lparr>synced := True\<rparr>) p))"
      using process_place [where ts = "ts\<lparr>synced := True\<rparr>" and s = True and l = "lost ts"
          and c = "p @ [0x47]" and pkt = p]
      by (simp add: process_local [OF len] u_def [symmetric])
    then have "settle (t\<lparr>synced := True\<rparr>) =
        Some (u\<lparr>carry := [0x47]\<rparr>, snd (process (ts\<lparr>synced := True\<rparr>) p))"
      using p0 len by (simp add: settle_def t_def)
    moreover have u: "carry u = []" "synced u" using ts by (simp_all add: u_def)
    ultimately have "ts_run (t\<lparr>synced := True\<rparr>) (q' @ rest) =
        emit (snd (process (ts\<lparr>synced := True\<rparr>) p)) (ts_run (u\<lparr>carry := [0x47]\<rparr>) (q' @ rest))"
      by (intro run_settle) (simp_all add: room_def PKT_def)
    moreover have "ts_run (u\<lparr>carry := [0x47]\<rparr>) (q' @ rest) = ts_run u (q @ rest)"
      using u by (simp add: q room_def PKT_def)
    ultimately show ?thesis using run_packet [of "ts\<lparr>synced := True\<rparr>" p "q @ rest"] ts p(1)
      by (simp add: u_def)
  qed
  finally show ?thesis .
qed

lemma play_place:
  "play (ts\<lparr>synced := s, lost := l, carry := c\<rparr>) ps =
     (fst (play ts ps)\<lparr>synced := s, lost := l, carry := c\<rparr>, snd (play ts ps))"
  by (induction ps arbitrary: ts) (simp_all add: process_place split_beta)

text \<open>
  A stream that starts with bytes that are no sync byte is locked at its first packet and all
  its packets are played, exactly when the garbage is at most three packets long; one byte more
  and the whole call fails.
\<close>

theorem radio_ts_recovers:
  assumes "0x47 \<notin> set junk" and "2 \<le> length ps" and "list_all is_packet ps"
    and "length (junk @ concat ps) + PLD < cap"
  shows "if length junk \<le> LE_RADIO_TS_RESYNC_PACKETS * PKT
    then le_radio_ts_feed le_radio_ts_reset (junk @ concat ps) cap =
      (fst (play le_radio_ts_reset ps)\<lparr>synced := True, lost := length junk, carry := []\<rparr>,
       Some (snd (play le_radio_ts_reset ps), length (junk @ concat ps)))
    else snd (le_radio_ts_feed le_radio_ts_reset (junk @ concat ps) cap) = None"
proof -
  let ?ts = "le_radio_ts_reset"
  obtain p q rs where ps: "ps = p # q # rs" using assms(2) by (cases ps rule: remdups_adj.cases) auto
  have "length p = PKT" using assms(3) by (simp add: ps is_packet_def)
  then have run: "ts_run ?ts (junk @ concat ps) =
      (if LE_RADIO_TS_RESYNC_PACKETS * PKT < length junk then None
       else ts_run (?ts\<lparr>lost := length junk\<rparr>) (concat ps))"
    using run_junk [of ?ts junk "concat ps"] assms(1) by (simp add: ps le_radio_ts_reset_def)
  have ok: "ts_ok ?ts" by (simp add: ts_ok_def le_radio_ts_reset_def)
  have cap: "PLD \<le> cap" using assms(4) by simp
  obtain t r where feed: "le_radio_ts_feed ?ts (junk @ concat ps) cap = (t, r)" by fastforce
  note call = feed_call [OF ok cap, of "junk @ concat ps", unfolded feed]
  show ?thesis
  proof (cases "length junk \<le> LE_RADIO_TS_RESYNC_PACKETS * PKT")
    case True
    define u where "u = ?ts\<lparr>synced := True, lost := length junk, carry := []\<rparr>"
    have "ts_run (?ts\<lparr>lost := length junk\<rparr>) (concat ps) = ts_run u (concat ps)"
      using run_lock [of "?ts\<lparr>lost := length junk\<rparr>" p q "concat rs"] assms(3)
      by (simp add: ps u_def le_radio_ts_reset_def)
    also have "\<dots> = Some (play u ps)" using assms(3) by (intro run_packets) (simp_all add: u_def)
    finally have some: "ts_run ?ts (junk @ concat ps) = Some (play u ps)" using run True by simp
    have "r = Some (snd (play u ps), length (junk @ concat ps)) \<and> t = fst (play u ps)"
    proof (cases r)
      case None
      then show ?thesis using call some by simp
    next
      case (Some on)
      obtain out n where on: "on = (out, n)" by (cases on)
      have "n = length (junk @ concat ps)" "settled t"
        "ts_run ?ts (junk @ concat ps) = emit out (ts_run t (drop n (junk @ concat ps)))"
        using call assms(4) by (simp_all add: Some on)
      then show ?thesis using some by (auto simp: Some on)
    qed
    then show ?thesis using True by (simp add: feed u_def play_place)
  next
    case False
    then have "ts_run ?ts (junk @ concat ps) = None" using run by simp
    have "r = None"
    proof (rule ccontr)
      assume "r \<noteq> None"
      then obtain out n where on: "r = Some (out, n)" by fastforce
      have "n = length (junk @ concat ps)" "settled t"
        "ts_run ?ts (junk @ concat ps) = emit out (ts_run t (drop n (junk @ concat ps)))"
        using call assms(4) by (simp_all add: on)
      then show False using \<open>ts_run ?ts (junk @ concat ps) = None\<close> by simp
    qed
    then show ?thesis using False by (simp add: feed)
  qed
qed

section \<open>A reported loss\<close>

lemma feed_turn_lost:
  assumes ok: "ts_ok ts" and lost: "feed_turn ts inp out cap = Lost t"
  shows "\<not> synced t \<and> length (carry t) = PKT \<and> LE_RADIO_TS_RESYNC_PACKETS * PKT < lost t"
proof -
  have *: "\<not> synced t \<and> length (carry t) = PKT \<and> LE_RADIO_TS_RESYNC_PACKETS * PKT < lost t"
    if "resync u i out = Lost t" "\<not> synced u" for u i
    using that by (auto simp: resync_unfold split: if_splits option.splits)
  show ?thesis
  proof (cases "synced ts")
    case True
    then show ?thesis
      using lost * [of "ts\<lparr>carry := carry ts @ take (PKT - length (carry ts)) inp, synced := False, lost := 0\<rparr>"]
      by (auto simp: feed_turn_unfold [OF True] split: if_splits)
  next
    case False
    then show ?thesis using lost * by (simp add: feed_turn_unsynced)
  qed
qed

lemma feed_loop_lost:
  "ts_ok ts \<Longrightarrow> feed_loop ts inp out cap = (t, None) \<Longrightarrow>
     \<not> synced t \<and> length (carry t) = PKT \<and> LE_RADIO_TS_RESYNC_PACKETS * PKT < lost t"
proof (induction ts inp out cap rule: feed_loop.induct)
  case (1 ts inp out cap)
  note turn = feed_turn_run [OF "1.prems"(1), where inp = inp and out = out and cap = cap]
  show ?case
  proof (cases "feed_turn ts inp out cap")
    case (Again u i o')
    moreover have "ts_ok u" using turn Again by auto
    ultimately show ?thesis using "1.IH" [OF Again] "1.prems" by (simp add: feed_loop.simps [of ts])
  next
    case (Break u i o')
    then show ?thesis using "1.prems" by (simp add: feed_loop.simps [of ts])
  next
    case (Lost u)
    then show ?thesis using "1.prems" feed_turn_lost [OF "1.prems"(1) Lost]
      by (simp add: feed_loop.simps [of ts])
  qed
qed

lemma feed_again_lost:
  assumes "\<not> synced t" and "length (carry t) = PKT" and "LE_RADIO_TS_RESYNC_PACKETS * PKT < lost t"
    and "carry t ! 0 \<noteq> 0x47" and "inp \<noteq> []" and "PLD \<le> cap"
  shows "le_radio_ts_feed t inp cap =
    (t\<lparr>lost := lost t + 1, carry := tl (carry t) @ [hd inp]\<rparr>, None)"
proof -
  define c where "c = carry t @ take 1 inp"
  have len: "length c = PKT + 1" using assms by (cases inp) (simp_all add: c_def)
  have "c ! 0 \<noteq> 0x47" using assms by (simp add: c_def nth_append PKT_def)
  then have lock: "find_lock c = None" using find_lock_189 [OF len] by simp
  have tl: "drop 1 c = tl (carry t) @ [hd inp]"
    using assms by (cases "carry t"; cases inp) (simp_all add: c_def PKT_def)
  have "resync t inp [] = Lost (t\<lparr>lost := lost t + 1, carry := drop 1 c\<rparr>)"
  proof -
    have "carry t @ take (PKT + 1 - length (carry t)) inp = c" using assms(2) by (simp add: c_def)
    then show ?thesis using resync_unfold [of t inp "[]"] assms(1-3) len lock by simp
  qed
  then show ?thesis
    using assms tl by (simp add: le_radio_ts_feed_def feed_loop.simps [of t] feed_turn_unsynced)
qed

lemma fetch_again_lost:
  assumes "\<not> synced t" and "length (carry t) = PKT" and "LE_RADIO_TS_RESYNC_PACKETS * PKT < lost t"
    and "carry t ! 0 \<noteq> 0x47" and "seg \<noteq> []" and "hd seg \<noteq> []"
  shows "hls_fetch_segment t seg =
    (t\<lparr>lost := lost t + 1, carry := tl (carry t) @ [hd (hd seg)]\<rparr>, [], False)"
proof -
  obtain c cs where seg: "seg = c # cs" "c \<noteq> []" using assms by (cases seg) auto
  have "PLD \<le> ADTS_MAX" by (simp add: PLD_def ADTS_MAX_def NET_CHUNK_def)
  then show ?thesis
    using feed_again_lost [OF assms(1-4) seg(2)] seg
    by (simp add: hls_fetch_segment_def push_chunk.simps)
qed

definition fetch_all :: "radio_ts \<Rightarrow> bytes list list \<Rightarrow> radio_ts" where
  "fetch_all t segs = fold (\<lambda>seg t. fst (hls_fetch_segment t seg)) segs t"

lemma fetch_all_lost:
  "\<not> synced t \<Longrightarrow> length (carry t) = PKT \<Longrightarrow> LE_RADIO_TS_RESYNC_PACKETS * PKT < lost t \<Longrightarrow>
   length segs < PKT \<Longrightarrow> 0x47 \<notin> set (take (length segs + 1) (carry t)) \<Longrightarrow>
   list_all (\<lambda>seg. seg \<noteq> [] \<and> hd seg \<noteq> []) (segs @ [seg]) \<Longrightarrow>
     \<exists>u. hls_fetch_segment (fetch_all t segs) seg = (u, [], False)"
proof (induction segs arbitrary: t)
  case Nil
  then have "carry t ! 0 \<noteq> 0x47" by (cases "carry t") (auto simp: PKT_def)
  then show ?case using Nil fetch_again_lost [of t seg] by (simp add: fetch_all_def)
next
  case (Cons s segs)
  define u where "u = t\<lparr>lost := lost t + 1, carry := tl (carry t) @ [hd (hd s)]\<rparr>"
  have c: "carry t \<noteq> []" using Cons.prems(2) by (auto simp: PKT_def)
  then have "carry t ! 0 \<noteq> 0x47" using Cons.prems(5) by (cases "carry t") auto
  then have "hls_fetch_segment t s = (u, [], False)"
    using Cons.prems fetch_again_lost [of t s] by (simp add: u_def)
  then have "fetch_all t (s # segs) = fetch_all u segs" by (simp add: fetch_all_def)
  moreover have "take (length segs + 1) (carry u) = tl (take (length segs + 2) (carry t))"
    using c Cons.prems(2,4) by (cases "carry t") (simp_all add: u_def)
  then have "0x47 \<notin> set (take (length segs + 1) (carry u))"
    using Cons.prems(5) by (cases "take (length segs + 2) (carry t)") auto
  then have "\<exists>v. hls_fetch_segment (fetch_all u segs) seg = (v, [], False)"
    using Cons.prems c by (intro Cons.IH) (simp_all add: u_def)
  ultimately show ?case by simp
qed

text \<open>
  The player keeps one demultiplexer for all segments and skips a segment that fails, but a
  loss of sync that was reported is never forgotten: the count of lost bytes stays over its limit
  and the carry buffer stays full, so every later segment fails at its first byte and plays
  nothing, whatever it holds, until the old bytes have been shifted out one segment at a time.
  Five failures in a row end the player.
\<close>

theorem radio_ts_loss_is_permanent:
  assumes "radio.reach ts" and "PLD \<le> cap" and "le_radio_ts_feed ts inp cap = (t, None)"
    and "length segs < PKT" and "0x47 \<notin> set (take (length segs + 1) (carry t))"
    and "list_all (\<lambda>s. s \<noteq> [] \<and> hd s \<noteq> []) (segs @ [seg])"
  shows "\<exists>u. hls_fetch_segment (fetch_all t segs) seg = (u, [], False)"
proof -
  have "feed_loop ts inp [] cap = (t, None)"
    using assms(2,3) by (auto simp: le_radio_ts_feed_def split: prod.splits)
  from feed_loop_lost [OF radio.inv_reachable [OF assms(1)] this]
  show ?thesis using assms(4-6) by (intro fetch_all_lost) simp_all
qed

text \<open>
  Parsing one packet reads nothing but the 188 bytes of that packet: program tables, adaptation
  field and stream header are all checked against its length, so what follows it in the buffer
  cannot matter.
\<close>

theorem radio_ts_packet_reads_local:
  assumes "length p = PKT"
  shows "process ts (p @ x) = process ts p"
  by (rule process_local [OF assms])

section \<open>The properties at work\<close>

lemma radio_reach_reset: "radio.reach le_radio_ts_reset"
  by (simp add: radio.reach_start)

theorem radio_ts_buffers_bounded_witness:
  "radio.reach le_radio_ts_reset \<and> PLD \<le> 184 \<and>
   (case le_radio_ts_feed le_radio_ts_reset [0x47] 184 of
      (t, None) \<Rightarrow> length (carry t) \<le> PKT + 1
    | (t, Some (out, n)) \<Rightarrow> length (carry t) \<le> PKT + 1 \<and>
        length out \<le> 184 \<and> n \<le> length [0x47 :: byte] \<and> ([0x47 :: byte] \<noteq> [] \<longrightarrow> 0 < n))"
proof -
  have "radio.reach le_radio_ts_reset" by (intro radio.reach_start) simp
  moreover have "PLD \<le> 184" by (simp add: PLD_def)
  ultimately show ?thesis by (intro conjI radio_ts_buffers_bounded)
qed

theorem radio_ts_chunking_immaterial_witness:
  "ts_run le_radio_ts_reset (concat [[0x47], [0x40, 0x11]]) =
     emit [] (settle (le_radio_ts_reset\<lparr>carry := [0x47, 0x40, 0x11]\<rparr>))"
proof -
  have "push_chunks 184 le_radio_ts_reset [[0x47], [0x40, 0x11]] =
      (le_radio_ts_reset\<lparr>carry := [0x47, 0x40, 0x11]\<rparr>, [], True)" by code_simp
  then show ?thesis
    using radio_ts_chunking_immaterial [of le_radio_ts_reset 184 "[[0x47], [0x40, 0x11]]"]
    by (simp add: radio.reach_start PLD_def)
qed

theorem radio_segment_cuts_agree_witness:
  "hls_fetch_segment le_radio_ts_reset [[0x47, 0x40], [0x11]] =
     (le_radio_ts_reset\<lparr>carry := [0x47, 0x40, 0x11]\<rparr>, [], True)"
proof -
  have "hls_fetch_segment le_radio_ts_reset [[0x47], [0x40, 0x11]] =
      (le_radio_ts_reset\<lparr>carry := [0x47, 0x40, 0x11]\<rparr>, [], True)" by code_simp
  then show ?thesis
    by (rule radio_segment_cuts_agree [OF radio_reach_reset, rotated 4])
      (simp_all add: NET_CHUNK_def le_radio_ts_reset_def room_def PKT_def)
qed

theorem radio_ts_recovers_witness:
  "le_radio_ts_feed le_radio_ts_reset ([1, 2, 3] @ concat [0x47 # replicate 187 0, 0x47 # replicate 187 1]) 4000 =
     (fst (play le_radio_ts_reset [0x47 # replicate 187 0, 0x47 # replicate 187 1])
        \<lparr>synced := True, lost := 3, carry := []\<rparr>,
      Some (snd (play le_radio_ts_reset [0x47 # replicate 187 0, 0x47 # replicate 187 1]), 379))"
  using radio_ts_recovers [of "[1, 2, 3]" "[0x47 # replicate 187 0, 0x47 # replicate 187 1]" 4000]
  by (simp add: is_packet_def PKT_def PLD_def LE_RADIO_TS_RESYNC_PACKETS_def)

text \<open>Zeros are never a sync byte: the 565th is one too many.\<close>

definition zeros :: "nat \<Rightarrow> radio_ts" where
  "zeros l = le_radio_ts_reset\<lparr>lost := l, carry := replicate PKT 0\<rparr>"

lemma turn_zeros:
  "feed_turn (zeros l) (0 # inp) out cap =
     (if LE_RADIO_TS_RESYNC_PACKETS * PKT < l + 1 then Lost (zeros (l + 1)) else Again (zeros (l + 1)) inp out)"
proof -
  have c: "replicate PKT (0 :: byte) @ [0] = replicate (PKT + 1) 0" by (simp add: replicate_append_same)
  have "find_lock (replicate (PKT + 1) 0) = None" by (simp add: find_lock_189)
  then show ?thesis
    using resync_unfold [of "zeros l" "0 # inp" out]
    by (simp add: feed_turn_def zeros_def le_radio_ts_reset_def c [simplified])
qed

lemma feed_zeros:
  "k + l = LE_RADIO_TS_RESYNC_PACKETS * PKT \<Longrightarrow>
     feed_loop (zeros l) (replicate (k + 1) 0 @ rest) out cap = (zeros (k + l + 1), None)"
proof (induction k arbitrary: l)
  case 0
  then show ?case by (subst feed_loop.simps) (simp add: turn_zeros)
next
  case (Suc k)
  then have "\<not> LE_RADIO_TS_RESYNC_PACKETS * PKT < l + 1" by simp
  then have "feed_loop (zeros l) (replicate (Suc k + 1) 0 @ rest) out cap =
      feed_loop (zeros (l + 1)) (replicate (k + 1) 0 @ rest) out cap"
    by (subst feed_loop.simps) (simp add: turn_zeros)
  then show ?case using Suc.IH [of "l + 1"] Suc.prems by simp
qed

lemma PKT_pos: "0 < PKT"
  by (simp add: PKT_def)

lemma zeros_lost: "le_radio_ts_feed le_radio_ts_reset (replicate 753 0) 184 = (zeros 565, None)"
proof -
  define rest where "rest = replicate 564 (0 :: byte)"
  have split: "replicate 753 0 = replicate (PKT + 1) 0 @ rest"
    unfolding rest_def replicate_add [symmetric] by (simp add: PKT_def)
  have "find_lock (replicate (PKT + 1) 0) = None" by (simp add: find_lock_189)
  then have "feed_turn le_radio_ts_reset (replicate (PKT + 1) 0 @ rest) [] 184 = Again (zeros 1) rest []"
    using resync_unfold [of le_radio_ts_reset "replicate (PKT + 1) 0 @ rest" "[]"]
    by (simp add: feed_turn_def zeros_def le_radio_ts_reset_def LE_RADIO_TS_RESYNC_PACKETS_def PKT_pos del: replicate_Suc)
  then have "feed_loop le_radio_ts_reset (replicate 753 0) [] 184 = feed_loop (zeros 1) rest [] 184"
    unfolding split by (subst feed_loop.simps) simp
  also have "\<dots> = (zeros 565, None)"
    using feed_zeros [of 563 1 "[]" "[]" 184] by (simp add: rest_def LE_RADIO_TS_RESYNC_PACKETS_def PKT_def)
  finally show ?thesis by (simp add: le_radio_ts_feed_def PLD_def)
qed

theorem radio_ts_loss_is_permanent_witness:
  "\<exists>u. hls_fetch_segment (fetch_all (zeros 565) [[[0x47]], [[0x47, 0x40], [0]], [[0x47]]])
     [0x47 # replicate 187 0] = (u, [], False)"
proof (rule radio_ts_loss_is_permanent [OF radio_reach_reset _ zeros_lost])
  show "0x47 \<notin> set (take (length [[[0x47 :: byte]], [[0x47, 0x40], [0]], [[0x47]]] + 1) (carry (zeros 565)))"
    by (auto simp: zeros_def dest: in_set_takeD)
qed (simp_all add: PLD_def PKT_def)

theorem radio_ts_packet_reads_local_witness:
  "process le_radio_ts_reset ((0x47 # replicate 187 0) @ [1]) =
     process le_radio_ts_reset (0x47 # replicate 187 0)"
  by (rule radio_ts_packet_reads_local) (simp add: PKT_def)

end
