(* ===== verification/Esphome_Wire.thy ===== *)
theory Esphome_Wire
  imports Echo_Prelude
begin

text \<open>
  The wire format of the ESPHome native API: the frames of adapter/esphome_frame.c and the
  fields of the messages in adapter/esphome_proto.c.

  Both files decode a variable-length number with the same loop at two widths; it is one
  definition here, over the word length, the number of bytes allowed and the largest last byte.
  A buffer and its length are one list; an offset into the message is kept as the code keeps it.
\<close>

unbundle bit_operations_syntax

section \<open>Variable-length numbers\<close>

datatype 'a var_result = Got nat 'a | Short | Bad

function var_loop :: "nat \<Rightarrow> byte \<Rightarrow> bytes \<Rightarrow> nat \<Rightarrow> 'a::len word \<Rightarrow> 'a word var_result" where
  "var_loop most high p i v =
     (if \<not> i < most then Bad
      else if length p \<le> i then Short
      else if i = most - 1 \<and> high < p ! i then Bad
      else let v = v OR push_bit (7 * i) (ucast (p ! i AND 127)) in
        if p ! i AND 128 = 0 then Got (i + 1) v else var_loop most high p (i + 1) v)"
  by auto
termination by (relation "measure (\<lambda>(most, high, p, i, v). most - i)") auto

declare var_loop.simps [simp del]

definition frame_var :: "bytes \<Rightarrow> u32 var_result" where
  "frame_var p = var_loop 5 15 p 0 0"

definition proto_var :: "bytes \<Rightarrow> u64 var_result" where
  "proto_var p = var_loop 10 1 p 0 0"

lemma unat_drop_bit: "unat (drop_bit n v) = drop_bit n (unat (v :: 'a::len word))"
proof -
  have "unat v < 2 ^ LENGTH('a)" by (rule unsigned_less)
  then show ?thesis by (simp add: unsigned_drop_bit_eq take_bit_nat_eq_self)
qed

lemma drop_bit_less:
  assumes "drop_bit 7 v \<noteq> 0"
  shows "unat (drop_bit 7 v) < unat (v :: 'a::len word)"
proof -
  have div: "unat (drop_bit 7 v) = unat v div 128"
    unfolding unat_drop_bit by (simp add: drop_bit_eq_div)
  have "unat (drop_bit 7 v) \<noteq> 0" using assms by (simp add: unat_eq_0)
  then show ?thesis unfolding div by (simp add: Suc_le_eq)
qed

function put :: "'a::len word \<Rightarrow> bytes" where
  "put v =
     (if drop_bit 7 v = 0 then [ucast (v AND 127)]
      else (ucast (v AND 127) OR 128) # put (drop_bit 7 v))"
  by auto
termination by (relation "measure unat") (auto intro: drop_bit_less)

declare put.simps [simp del]

section \<open>Frames\<close>

definition EF_MAX_FRAME :: nat where "EF_MAX_FRAME = 65536"

text \<open>A complete frame: the bytes consumed, the message type and the length of its body.\<close>

datatype ef_result = Complete nat nat nat | Incomplete | Malformed

definition ef_body :: "bytes \<Rightarrow> nat \<Rightarrow> nat \<Rightarrow> nat \<Rightarrow> ef_result" where
  "ef_body p h l t =
     (if EF_MAX_FRAME < l then Malformed
      else if length p - h < l then Incomplete
      else Complete (h + l) t l)"

definition ef_parse :: "bytes \<Rightarrow> bool \<Rightarrow> ef_result" where
  "ef_parse p noise =
     (if p = [] then Incomplete
      else if p ! 0 \<noteq> (if noise then 1 else 0) then Malformed
      else if noise then
        if length p < 3 then Incomplete
        else ef_body p 3 (push_bit 8 (unat (p ! 1)) OR unat (p ! 2)) 0
      else case frame_var (drop 1 p) of Bad \<Rightarrow> Malformed | Short \<Rightarrow> Incomplete
      | Got u l \<Rightarrow>
          if EF_MAX_FRAME < unat l then Malformed
          else case frame_var (drop (1 + u) p) of Bad \<Rightarrow> Malformed | Short \<Rightarrow> Incomplete
          | Got u' t \<Rightarrow>
              if 65535 < unat t then Malformed else ef_body p (1 + u + u') (unat l) (unat t))"

definition ef_plain_encode :: "nat \<Rightarrow> u32 \<Rightarrow> bytes \<Rightarrow> bytes option" where
  "ef_plain_encode cap t data =
     (if EF_MAX_FRAME < length data \<or> 65535 < t then None
      else let h = [0] @ put (of_nat (length data) :: u32) @ put t in
        if cap < length h + length data then None else Some (h @ data))"

section \<open>Reading a message\<close>

record ep_reader =
  data :: bytes
  position :: nat
  seen :: nat
  error :: bool

record ep_field =
  number :: nat
  wire :: nat
  val :: u64
  bytes_of :: bytes

datatype ep_result = Field ep_field | Finished | Failed

definition ep_reader_init :: "bytes \<Rightarrow> ep_reader" where
  "ep_reader_init p = \<lparr>data = p, position = 0, seen = 0, error = False\<rparr>"

fun little_endian :: "bytes \<Rightarrow> nat \<Rightarrow> u64" where
  "little_endian [] k = 0"
| "little_endian (b # bs) k = push_bit k (ucast b) OR little_endian bs (k + 8)"

definition ep_value :: "ep_reader \<Rightarrow> ep_field \<Rightarrow> ep_reader \<times> ep_result" where
  "ep_value r f =
     (let p = drop (position r) (data r);
          n = length (data r) - position r;
          bad = (r\<lparr>error := True\<rparr>, Failed)
      in if wire f = 0 then
           case proto_var p of
             Got u v \<Rightarrow> (r\<lparr>position := position r + u\<rparr>, Field (f\<lparr>val := v\<rparr>))
           | _ \<Rightarrow> bad
         else if wire f = 1 \<or> wire f = 5 then
           let u = (if wire f = 1 then 8 else 4) in
           if n < u then bad
           else (r\<lparr>position := position r + u\<rparr>, Field (f\<lparr>val := little_endian (take u p) 0\<rparr>))
         else if wire f = 2 then
           case proto_var p of
             Got u v \<Rightarrow>
               if n - u < unat v then bad
               else (r\<lparr>position := position r + u + unat v\<rparr>,
                     Field (f\<lparr>bytes_of := take (unat v) (drop u p)\<rparr>))
           | _ \<Rightarrow> bad
         else bad)"

definition ep_next :: "ep_reader \<Rightarrow> ep_reader \<times> ep_result" where
  "ep_next r =
     (if error r then (r, Failed)
      else if position r = length (data r) then (r, Finished)
      else let r = r\<lparr>seen := seen r + 1\<rparr>; bad = (r\<lparr>error := True\<rparr>, Failed) in
        if 256 < seen r then bad
        else case proto_var (drop (position r) (data r)) of
          Got u tag \<Rightarrow>
            if tag < 8 \<or> 0x1fffffff < drop_bit 3 tag then bad
            else ep_value (r\<lparr>position := position r + u\<rparr>)
              \<lparr>number = unat (drop_bit 3 tag), wire = unat (tag AND 7), val = 0, bytes_of = []\<rparr>
        | _ \<Rightarrow> bad)"

definition ep_text :: "ep_field \<Rightarrow> nat \<Rightarrow> bytes option" where
  "ep_text f cap =
     (if wire f \<noteq> 2 \<or> cap \<le> length (bytes_of f) \<or> 0 \<in> set (bytes_of f) then None
      else Some (bytes_of f))"

section \<open>Writing a message\<close>

record ep_writer =
  out :: bytes
  capacity :: nat
  failed :: bool

definition raw :: "bytes \<Rightarrow> ep_writer \<Rightarrow> ep_writer" where
  "raw p w =
     (if failed w then w
      else if capacity w - length (out w) < length p then w\<lparr>failed := True\<rparr>
      else w\<lparr>out := out w @ p\<rparr>)"

definition putvar :: "u64 \<Rightarrow> ep_writer \<Rightarrow> ep_writer" where
  "putvar v w = raw (put v) w"

definition ep_uint :: "u32 \<Rightarrow> u64 \<Rightarrow> ep_writer \<Rightarrow> ep_writer" where
  "ep_uint f v w = putvar v (putvar (push_bit 3 (ucast f)) w)"

definition ep_fixed32 :: "u32 \<Rightarrow> u32 \<Rightarrow> ep_writer \<Rightarrow> ep_writer" where
  "ep_fixed32 f v w =
     raw (map (\<lambda>i. ucast (drop_bit (i * 8) v)) [0..<4]) (putvar (push_bit 3 (ucast f) OR 5) w)"

definition ep_bytes :: "u32 \<Rightarrow> bytes \<Rightarrow> ep_writer \<Rightarrow> ep_writer" where
  "ep_bytes f p w = raw p (putvar (of_nat (length p)) (putvar (push_bit 3 (ucast f) OR 2) w))"

section \<open>Progress of the reader\<close>

lemma var_loop_bounds:
  "var_loop most high p i v = Got u x \<Longrightarrow> i < u \<and> u \<le> length p \<and> u \<le> most"
proof (induction most high p i v rule: var_loop.induct)
  case (1 most high p i v)
  note step = "1.prems" [unfolded var_loop.simps [of most high p i v], unfolded Let_def]
  show ?case
  proof (cases "p ! i AND 128 = 0")
    case True
    then show ?thesis using step by (simp split: if_splits)
  next
    case False
    then have go: "i < most" "\<not> length p \<le> i" "\<not> (i = most - 1 \<and> high < p ! i)"
      using step by (simp_all split: if_splits)
    then have "var_loop most high p (i + 1) (v OR push_bit (7 * i) (ucast (p ! i AND 127))) = Got u x"
      using step False by (simp only: if_False not_False_eq_True simp_thms)
    from "1.IH" [OF _ _ go(3) refl False this] go show ?thesis by simp
  qed
qed

lemma proto_var_bounds: "proto_var p = Got u x \<Longrightarrow> 0 < u \<and> u \<le> length p"
  using var_loop_bounds unfolding proto_var_def by blast

lemma ep_value_keeps:
  "data (fst (ep_value r f)) = data r \<and> seen (fst (ep_value r f)) = seen r"
  by (auto simp: ep_value_def Let_def split: var_result.split)

lemma ep_value_position:
  "position r \<le> length (data r) \<Longrightarrow>
     position r \<le> position (fst (ep_value r f)) \<and> position (fst (ep_value r f)) \<le> length (data r)"
  by (auto simp: ep_value_def Let_def split: var_result.split dest!: proto_var_bounds)

text \<open>A field comes from \<open>ep_value\<close>, after a tag that was in order.\<close>

lemma ep_next_field:
  assumes "ep_next r = (r', Field f)"
  obtains u tag where "proto_var (drop (position r) (data r)) = Got u tag"
    "\<not> error r" "position r \<noteq> length (data r)" "seen r < 256" "\<not> tag < 8" "\<not> 0x1fffffff < drop_bit 3 tag"
    "ep_value (r\<lparr>seen := seen r + 1, position := position r + u\<rparr>)
       \<lparr>number = unat (drop_bit 3 tag), wire = unat (tag AND 7), val = 0, bytes_of = []\<rparr> = (r', Field f)"
  using assms that by (auto simp: ep_next_def Let_def split: if_splits var_result.splits)

lemma ep_next_seen:
  assumes "ep_next r = (r', Field f)"
  shows "seen r' = seen r + 1 \<and> seen r' \<le> 256 \<and> data r' = data r"
proof -
  obtain u fld where "ep_value (r\<lparr>seen := seen r + 1, position := position r + u\<rparr>) fld = (r', Field f)"
    and "seen r < 256" using assms by (rule ep_next_field)
  then show ?thesis using ep_value_keeps [of "r\<lparr>seen := seen r + 1, position := position r + u\<rparr>" fld] by simp
qed

section \<open>Looking a field up\<close>

text \<open>The loop of both getters: the first field of that number, and the reader as it is left.\<close>

function ep_find :: "ep_reader \<Rightarrow> nat \<Rightarrow> ep_reader \<times> ep_field option" where
  "ep_find r n =
     (case ep_next r of
        (r, Field f) \<Rightarrow> if number f = n then (r, Some f) else ep_find r n
      | (r, _) \<Rightarrow> (r, None))"
  by auto
termination by (relation "measure (\<lambda>(r, n). 257 - seen r)") (auto dest!: ep_next_seen [OF sym])

declare ep_find.simps [simp del]

definition ep_get_uint :: "bytes \<Rightarrow> nat \<Rightarrow> u64 \<Rightarrow> u64" where
  "ep_get_uint p n fallback =
     (case ep_find (ep_reader_init p) n of (r, Some f) \<Rightarrow> val f | (r, None) \<Rightarrow> fallback)"

text \<open>The text, or nothing for -1.\<close>

definition ep_get_text :: "bytes \<Rightarrow> nat \<Rightarrow> nat \<Rightarrow> bytes option" where
  "ep_get_text p n cap =
     (case ep_find (ep_reader_init p) n of
        (r, Some f) \<Rightarrow> ep_text f cap
      | (r, None) \<Rightarrow> if error r then None else Some [])"

end
