(* ===== verification/Esphome_Messages.thy ===== *)
theory Esphome_Messages
  imports Esphome_Wire "HOL-Library.Sublist"
begin

text \<open>
  What the ESPHome wire format of \<open>Esphome_Wire\<close> promises: numbers, frames and messages read
  back as they were written, a frame that is still arriving is never mistaken for a malformed
  one, and a writer never leaves its buffer.
\<close>

section \<open>Numbers\<close>

lemma mask7: "(127 :: 'a::len word) = mask 7"
  by (simp add: mask_eq_exp_minus_1)

lemma bit_127: "bit (127 :: 'a::len word) n \<longleftrightarrow> n < 7 \<and> n < LENGTH('a)"
  unfolding mask7 by (auto simp: bit_mask_iff)

lemma bit_128: "bit (128 :: byte) n \<longleftrightarrow> n = 7"
proof -
  have "bit ((2 :: byte) ^ 7) n \<longleftrightarrow> n = 7" unfolding bit_exp_iff by auto
  moreover have "(2 :: byte) ^ 7 = 128" by simp
  ultimately show ?thesis by (simp only:)
qed

lemmas wire_bits = bit_and_iff bit_or_iff bit_unsigned_iff bit_push_bit_iff bit_drop_bit_eq

text \<open>The masks under names, so that they stay masks.\<close>

definition m7 :: "'a::len word" where "m7 = 127"
definition m8 :: byte where "m8 = 128"

lemma bit_m7: "bit (m7 :: 'a::len word) n \<longleftrightarrow> n < 7 \<and> n < LENGTH('a)"
  unfolding m7_def by (rule bit_127)

lemma bit_m8: "bit m8 n \<longleftrightarrow> n = 7"
  unfolding m8_def by (rule bit_128)

lemma low_bits_byte:
  fixes v :: "'a::len word"
  assumes "8 \<le> LENGTH('a)"
  shows "ucast ((ucast (v AND 127) :: byte) AND 127) = v AND 127"
    "ucast (((ucast (v AND 127) :: byte) OR 128) AND 127) = v AND 127"
  unfolding m7_def [symmetric] m8_def [symmetric]
  using assms by (auto intro!: bit_word_eqI simp: wire_bits bit_m7 bit_m8)

lemma high_bit_byte:
  fixes v :: "'a::len word"
  shows "(ucast (v AND 127) :: byte) AND 128 = 0" "((ucast (v AND 127) :: byte) OR 128) AND 128 \<noteq> 0"
proof -
  show "(ucast (v AND 127) :: byte) AND 128 = 0"
    unfolding m7_def [symmetric] m8_def [symmetric]
    by (intro bit_word_eqI) (auto simp: wire_bits bit_m7 bit_m8)
  have "bit (((ucast (v AND m7) :: byte) OR m8) AND m8) 7" by (simp add: wire_bits bit_m8)
  then show "((ucast (v AND 127) :: byte) OR 128) AND 128 \<noteq> 0"
    unfolding m7_def m8_def by (metis bit_0_eq bot_apply bot_bool_def)
qed

lemma var_or: "(x :: 'a::len word) OR push_bit n (v AND 127) OR push_bit (n + 7) (drop_bit 7 v) = x OR push_bit n v"
  unfolding m7_def [symmetric]
proof (rule bit_word_eqI)
  fix i assume "i < LENGTH('a)"
  then show "bit (x OR push_bit n (v AND m7) OR push_bit (n + 7) (drop_bit 7 v)) i = bit (x OR push_bit n v) i"
    by (cases "i < n + 7") (auto simp: wire_bits bit_m7 dest: bit_imp_le_length)
qed

lemma and_127: "v AND 127 = take_bit 7 (v :: 'a::len word)"
  unfolding mask7 by (simp add: take_bit_eq_mask)

lemma unat_drop7: "unat (drop_bit 7 v) = unat (v :: 'a::len word) div 128"
  unfolding unat_drop_bit by (simp add: drop_bit_eq_div)

lemma drop7_fits:
  assumes "unat (v :: 'a::len word) < 2 ^ (n - 7 * i)" and "7 * (i + 1) \<le> n"
  shows "unat (drop_bit 7 v) < 2 ^ (n - 7 * (i + 1))"
proof -
  define m where "m = n - 7 * (i + 1)"
  have "n - 7 * i = m + 7" using assms(2) by (simp add: m_def)
  then have "unat v < 2 ^ m * 128" using assms(1) by (simp add: power_add)
  then show ?thesis unfolding unat_drop7 m_def [symmetric] by (rule less_mult_imp_div_less)
qed

text \<open>
  The loop reads a number back from the place it was put at.  The number may need at most the
  bits that the bytes left can carry, the last of them \<open>k\<close>.
\<close>

lemma var_loop_put:
  fixes v x :: "'a::len word"
  assumes "LENGTH('a) = 7 * (most - 1) + k" and "8 \<le> LENGTH('a)" and "k \<le> 7"
    and "\<And>w :: 'a word. unat w < 2 ^ k \<Longrightarrow> ucast (w AND 127) \<le> high"
    and "i < most" and "unat v < 2 ^ (LENGTH('a) - 7 * i)" and "length pre = i"
  shows "var_loop most high (pre @ put v @ rest) i x = Got (i + length (put v)) (x OR push_bit (7 * i) v)"
  using assms(5-)
proof (induction v arbitrary: i x pre rule: put.induct)
  case (1 v)
  define more where "more = (if drop_bit 7 v = 0 then [] else put (drop_bit 7 v))"
  define b where "b = (if drop_bit 7 v = 0 then ucast (v AND 127) else ucast (v AND 127) OR 128 :: byte)"
  have put: "put v = b # more" unfolding more_def b_def by (subst put.simps) simp
  have at: "(pre @ put v @ rest) ! i = b" "\<not> length (pre @ put v @ rest) \<le> i"
    using "1.prems"(3) put by (simp_all add: nth_append)
  have low: "ucast (b AND 127) = v AND 127" using low_bits_byte [OF assms(2), of v] by (simp add: b_def)
  have last: "drop_bit 7 v = 0 \<and> b \<le> high" if "i = most - 1"
  proof -
    have small: "unat v < 2 ^ k" using "1.prems"(2) that assms(1) by simp
    also have "(2 :: nat) ^ k \<le> 2 ^ 7" using assms(3) by (intro power_increasing) simp_all
    finally have "drop_bit 7 v = 0" using unat_drop7 [of v] by (simp add: unat_eq_0 [symmetric] del: unat_eq_0)
    then show ?thesis using assms(4) [OF small] by (simp add: b_def)
  qed
  have step: "var_loop most high (pre @ put v @ rest) i x =
      (if b AND 128 = 0 then Got (i + 1) (x OR push_bit (7 * i) (v AND 127))
       else var_loop most high (pre @ put v @ rest) (i + 1) (x OR push_bit (7 * i) (v AND 127)))"
    using "1.prems"(1) last unfolding var_loop.simps [of most high "pre @ put v @ rest" i x] at(1) low Let_def
    using at(2) by (auto simp: not_less)
  show ?case
  proof (cases "drop_bit 7 v = 0")
    case True
    have "v AND 127 = v"
      using True var_or [of 0 0 v] by simp
    then show ?thesis using step put True high_bit_byte(1) [of v] by (simp add: b_def more_def)
  next
    case False
    have i: "i + 1 < most" using last False "1.prems"(1) by (cases "i = most - 1") auto
    have "unat (drop_bit 7 v) < 2 ^ (LENGTH('a) - 7 * (i + 1))"
      using "1.prems"(2) i assms(1) by (intro drop7_fits) auto
    from "1.IH" [OF False i this, of "pre @ [b]" "x OR push_bit (7 * i) (v AND 127)"]
    show ?thesis using step put False high_bit_byte(2) [of v] "1.prems"(3) var_or [of x "7 * i" v]
      by (simp add: b_def more_def ac_simps)
  qed
qed

text \<open>A number that is still arriving is short, not bad.\<close>

lemma var_loop_short:
  fixes v x :: "'a::len word"
  assumes "LENGTH('a) = 7 * (most - 1) + k" and "k \<le> 7"
    and "i < most" and "unat v < 2 ^ (LENGTH('a) - 7 * i)" and "length pre = i" and "j < length (put v)"
  shows "var_loop most high (pre @ take j (put v)) i x = Short"
  using assms(3-)
proof (induction v arbitrary: i x pre j rule: put.induct)
  case (1 v)
  show ?case
  proof (cases j)
    case 0
    then show ?thesis using "1.prems" by (subst var_loop.simps) simp
  next
    case (Suc j')
    have False': "drop_bit 7 v \<noteq> 0"
    proof
      assume "drop_bit 7 v = 0"
      then have "length (put v) = 1" by (subst put.simps) simp
      then show False using Suc "1.prems"(4) by simp
    qed
    define b where "b = (ucast (v AND 127) OR 128 :: byte)"
    have put: "put v = b # put (drop_bit 7 v)" using False' unfolding b_def by (subst put.simps) simp
    have last: "i \<noteq> most - 1"
    proof
      assume "i = most - 1"
      then have "unat v < 2 ^ k" using "1.prems"(2) assms(1) by simp
      also have "(2 :: nat) ^ k \<le> 2 ^ 7" using assms(2) by (intro power_increasing) simp_all
      finally show False using unat_drop7 [of v] False' by (simp add: unat_eq_0 [symmetric] del: unat_eq_0)
    qed
    then have i: "i + 1 < most" using "1.prems"(1) by simp
    have "unat (drop_bit 7 v) < 2 ^ (LENGTH('a) - 7 * (i + 1))"
      using "1.prems"(2) i assms(1) by (intro drop7_fits) auto
    from "1.IH" [OF False' i this, of "pre @ [b]" j']
    have "var_loop most high (pre @ b # take j' (put (drop_bit 7 v))) (i + 1)
        (x OR push_bit (7 * i) (ucast (b AND 127))) = Short"
      using "1.prems"(3,4) Suc put by simp
    moreover have "b AND 128 \<noteq> 0" unfolding b_def by (rule high_bit_byte(2))
    moreover have "(pre @ take j (put v)) ! i = b" "\<not> length (pre @ take j (put v)) \<le> i"
      "pre @ take j (put v) = pre @ b # take j' (put (drop_bit 7 v))"
      using "1.prems"(3) Suc put by (simp_all add: nth_append)
    ultimately show ?thesis
      using last "1.prems"(1) unfolding var_loop.simps [of most high "pre @ take j (put v)" i x] Let_def
      by (simp only: if_True if_False not_False_eq_True simp_thms)
  qed
qed

lemma low_le:
  fixes w :: "'a::len word"
  assumes "unat w < 2 ^ k" and "k \<le> 7" and "unat high = 2 ^ k - 1"
  shows "ucast (w AND 127) \<le> (high :: byte)"
proof -
  have "unat (ucast (w AND 127) :: byte) \<le> unat (w AND 127)"
    by (simp add: unsigned_ucast_eq take_bit_nat_less_eq_self)
  also have "\<dots> \<le> unat w" by (simp add: and_127 unsigned_take_bit_eq take_bit_nat_less_eq_self)
  finally show ?thesis using assms by (simp add: word_le_nat_alt)
qed

lemma frame_var_put: "frame_var (put v @ rest) = Got (length (put v)) v"
  using var_loop_put [where most = 5 and k = 4 and high = 15 and i = 0 and pre = "[]" and x = 0 and v = v and rest = rest]
    unsigned_less [of v]
  by (simp add: frame_var_def low_le [of _ 4])

lemma proto_var_put: "proto_var (put v @ rest) = Got (length (put v)) v"
  using var_loop_put [where most = 10 and k = 1 and high = 1 and i = 0 and pre = "[]" and x = 0 and v = v and rest = rest]
    unsigned_less [of v]
  by (simp add: proto_var_def low_le [of _ 1])

lemma frame_var_short: "j < length (put (v :: u32)) \<Longrightarrow> frame_var (take j (put v)) = Short"
  using var_loop_short [where most = 5 and k = 4 and high = 15 and i = 0 and pre = "[]" and x = 0 and v = v and j = j]
    unsigned_less [of v]
  by (simp add: frame_var_def)

lemma put_nonempty [simp]: "put v \<noteq> []"
  by (subst put.simps) simp

section \<open>Frames\<close>

lemma plain_frame:
  assumes "ef_plain_encode cap t body = Some f"
  obtains n where "f = 0 # put n @ put t @ body" "unat (n :: u32) = length body"
    "length body \<le> EF_MAX_FRAME" "unat t \<le> 65535"
proof -
  let ?n = "of_nat (length body) :: u32"
  have n: "length body \<le> EF_MAX_FRAME" "\<not> 65535 < t" "f = 0 # put ?n @ put t @ body"
    using assms by (simp_all add: ef_plain_encode_def Let_def split: if_splits)
  moreover have "unat ?n = length body" using n(1) by (intro unat_of_nat_small) (simp add: EF_MAX_FRAME_def)
  moreover have "unat t \<le> 65535" using n(2) by (simp add: word_less_nat_alt)
  ultimately show ?thesis using that by blast
qed

text \<open>
  A frame that was written is read back as one frame of its type and length, whatever follows
  it on the connection, and its body is the last part of what the parser consumed.
\<close>

lemma frame_read_back:
  assumes "ef_plain_encode cap t body = Some f"
  shows "ef_parse (f @ rest) False = Complete (length f) (unat t) (length body) \<and>
    take (length body) (drop (length f - length body) (f @ rest)) = body"
proof -
  obtain n :: u32 where n: "f = 0 # put n @ put t @ body" "unat n = length body"
    "length body \<le> EF_MAX_FRAME" "unat t \<le> 65535"
    using assms by (rule plain_frame)
  have "frame_var (drop 1 (f @ rest)) = Got (length (put n)) n" by (simp add: n(1) frame_var_put)
  moreover have "frame_var (drop (1 + length (put n)) (f @ rest)) = Got (length (put t)) t"
    by (simp add: n(1) frame_var_put)
  ultimately have "ef_parse (f @ rest) False =
      ef_body (f @ rest) (1 + length (put n) + length (put t)) (length body) (unat t)"
    using n by (simp add: ef_parse_def)
  then show ?thesis using n by (simp add: ef_body_def)
qed

text \<open>
  While a written frame is still arriving the parser asks for more: no part of it that ends
  early is taken for a complete frame or for a malformed one.
\<close>

theorem esphome_frame_never_cut_short:
  assumes "ef_plain_encode cap t body = Some f" and "k < length f"
  shows "ef_parse (take k f) False = Incomplete"
proof -
  obtain n :: u32 where n: "f = 0 # put n @ put t @ body" "unat n = length body"
    "length body \<le> EF_MAX_FRAME" "unat t \<le> 65535"
    using assms(1) by (rule plain_frame)
  consider (zero) "k = 0" | (len) j where "k = j + 1" "j < length (put n)"
    | (kind) j where "k = 1 + length (put n) + j" "j < length (put t)"
    | (bod) j where "k = 1 + length (put n) + length (put t) + j" "j < length body"
  proof -
    have "k < 1 + length (put n) + length (put t) + length body" using assms(2) by (simp add: n(1))
    then show ?thesis
      using that(1) that(2) [of "k - 1"] that(3) [of "k - 1 - length (put n)"]
        that(4) [of "k - 1 - length (put n) - length (put t)"] by force
  qed
  then show ?thesis
  proof cases
    case zero
    then show ?thesis by (simp add: ef_parse_def)
  next
    case len
    then have "take k f = 0 # take j (put n)" by (simp add: n(1))
    then show ?thesis using frame_var_short [OF len(2)] by (simp add: ef_parse_def)
  next
    case kind
    then have "take k f = 0 # put n @ take j (put t)" by (simp add: n(1))
    then show ?thesis using frame_var_short [OF kind(2)] n by (simp add: ef_parse_def frame_var_put)
  next
    case bod
    then have "take k f = 0 # put n @ put t @ take j body" by (simp add: n(1))
    then show ?thesis using bod(2) n by (simp add: ef_parse_def frame_var_put ef_body_def)
  qed
qed

section \<open>The writer\<close>

text \<open>The fields the code writes, and the bytes of each.\<close>

datatype ep_item = Uint u32 u64 | Fixed u32 u32 | Bytes u32 bytes

fun write_item :: "ep_item \<Rightarrow> ep_writer \<Rightarrow> ep_writer" where
  "write_item (Uint f v) = ep_uint f v"
| "write_item (Fixed f v) = ep_fixed32 f v"
| "write_item (Bytes f p) = ep_bytes f p"

definition tag :: "u32 \<Rightarrow> u64 \<Rightarrow> u64" where
  "tag f w = push_bit 3 (ucast f) OR w"

fun pieces :: "ep_item \<Rightarrow> bytes list" where
  "pieces (Uint f v) = [put (tag f 0), put v]"
| "pieces (Fixed f v) = [put (tag f 5), map (\<lambda>i. ucast (drop_bit (i * 8) v)) [0..<4]]"
| "pieces (Bytes f p) = [put (tag f 2), put (of_nat (length p) :: u64), p]"

definition encode :: "ep_item \<Rightarrow> bytes" where
  "encode it = concat (pieces it)"

lemma write_item_pieces: "write_item it w = fold raw (pieces it) w"
  by (cases it) (simp_all add: ep_uint_def ep_fixed32_def ep_bytes_def putvar_def tag_def)

lemma raws_failed: "failed w \<Longrightarrow> fold raw ps w = w"
  by (induction ps) (simp_all add: raw_def)

lemma raws_fit:
  assumes "\<not> failed w" and "length (out w) \<le> capacity w"
  shows "if length (out w) + length (concat ps) \<le> capacity w
    then fold raw ps w = w\<lparr>out := out w @ concat ps\<rparr>
    else failed (fold raw ps w) \<and> length (out (fold raw ps w)) \<le> capacity w \<and>
      (\<exists>k. out (fold raw ps w) = out w @ take k (concat ps))"
  using assms
proof (induction ps arbitrary: w)
  case (Cons p ps)
  show ?case
  proof (cases "length (out w) + length p \<le> capacity w")
    case True
    define v where "v = w\<lparr>out := out w @ p\<rparr>"
    have v: "raw p w = v" using True Cons.prems by (simp add: raw_def v_def)
    show ?thesis
    proof (cases "length (out w) + length (concat (p # ps)) \<le> capacity w")
      case True
      then show ?thesis using Cons.IH [of v] Cons.prems v by (simp add: v_def)
    next
      case False
      then have "failed (fold raw ps v)" "length (out (fold raw ps v)) \<le> capacity w"
        and "\<exists>k. out (fold raw ps v) = out v @ take k (concat ps)"
        using Cons.IH [of v] Cons.prems True by (simp_all add: v_def)
      then obtain k where "out (fold raw ps v) = out v @ take k (concat ps)" by blast
      then have "out (fold raw ps v) = out w @ take (length p + k) (concat (p # ps))" by (simp add: v_def)
      then show ?thesis using False \<open>failed (fold raw ps v)\<close> \<open>length (out (fold raw ps v)) \<le> capacity w\<close> v
        by (metis fold_simps(2))
    qed
  next
    case False
    then have "raw p w = w\<lparr>failed := True\<rparr>" using Cons.prems by (simp add: raw_def)
    then have "fold raw (p # ps) w = w\<lparr>failed := True\<rparr>" by (simp add: raws_failed)
    moreover have "out w = out w @ take 0 (concat (p # ps))" by simp
    ultimately show ?thesis using False Cons.prems by (auto intro: exI [of _ 0])
  qed
qed simp

lemma writes_fit:
  fixes its cap
  defines "w \<equiv> fold write_item its \<lparr>out = [], capacity = cap, failed = False\<rparr>"
  defines "whole \<equiv> concat (map encode its)"
  shows "if length whole \<le> cap then w = \<lparr>out = whole, capacity = cap, failed = False\<rparr>
    else failed w \<and> length (out w) \<le> cap \<and> (\<exists>k. out w = take k whole)"
proof -
  have "fold write_item its v = fold raw (concat (map pieces its)) v" for v
    by (induction its arbitrary: v) (simp_all add: write_item_pieces)
  moreover have "concat (concat (map pieces its)) = concat (map encode its)"
    by (induction its) (simp_all add: encode_def)
  ultimately show ?thesis
    unfolding w_def whole_def
    using raws_fit [of "\<lparr>out = [], capacity = cap, failed = False\<rparr>" "concat (map pieces its)"]
    by (auto split: if_splits)
qed

text \<open>
  C38: A message is written completely exactly when it fits its buffer.  A writer that ran out of
  room stays failed, keeps what it had written until then and never leaves the buffer.
\<close>

theorem esphome_writer_refines:
  "let w = fold write_item its \<lparr>out = [], capacity = cap, failed = False\<rparr>;
       whole = concat (map encode its)
   in (failed w \<longleftrightarrow> cap < length whole) \<and> length (out w) \<le> cap \<and>
      (if failed w then \<exists>k. out w = take k whole else out w = whole)"
  using writes_fit [of its cap] by (auto simp: Let_def split: if_splits)

section \<open>The reader on written messages\<close>

definition tag_ok :: "u32 \<Rightarrow> bool" where
  "tag_ok f \<longleftrightarrow> 0 < f \<and> f \<le> 0x1fffffff"

fun item_ok :: "ep_item \<Rightarrow> bool" where
  "item_ok (Uint f v) \<longleftrightarrow> tag_ok f"
| "item_ok (Fixed f v) \<longleftrightarrow> tag_ok f"
| "item_ok (Bytes f p) \<longleftrightarrow> tag_ok f \<and> length p < 2 ^ 64"

fun field_of :: "ep_item \<Rightarrow> ep_field" where
  "field_of (Uint f v) = \<lparr>number = unat f, wire = 0, val = v, bytes_of = []\<rparr>"
| "field_of (Fixed f v) = \<lparr>number = unat f, wire = 5, val = ucast v, bytes_of = []\<rparr>"
| "field_of (Bytes f p) = \<lparr>number = unat f, wire = 2, val = 0, bytes_of = p\<rparr>"

lemma drop_push_tag: "drop_bit 3 (push_bit 3 (ucast (f :: u32) :: u64)) = ucast f"
  by (intro bit_word_eqI) (auto simp: wire_bits dest: bit_imp_le_length)

lemma tag_parts:
  assumes "take_bit 3 w = w"
  shows "drop_bit 3 (tag f w) = ucast f" "tag f w AND 7 = w"
proof -
  have "drop_bit 3 w = drop_bit 3 (take_bit 3 w)" by (simp only: assms)
  also have "\<dots> = 0" by (simp add: drop_bit_take_bit)
  finally show "drop_bit 3 (tag f w) = ucast f" by (simp add: tag_def drop_bit_or drop_push_tag)
  have "(7 :: u64) = mask 3" by (simp add: mask_eq_exp_minus_1)
  then have "tag f w AND 7 = take_bit 3 (tag f w)" by (simp add: take_bit_eq_mask)
  also have "\<dots> = take_bit 3 (push_bit 3 (ucast f :: u64)) OR take_bit 3 w" by (simp add: tag_def take_bit_or)
  also have "\<dots> = w" by (simp add: assms take_bit_push_bit)
  finally show "tag f w AND 7 = w" .
qed

lemma tag_accepted:
  assumes "tag_ok f" and "take_bit 3 w = w"
  shows "\<not> tag f w < 8" "\<not> 0x1fffffff < drop_bit 3 (tag f w)" "unat (drop_bit 3 (tag f w)) = unat f"
proof -
  have d: "drop_bit 3 (tag f w) = ucast f" by (rule tag_parts(1) [OF assms(2)])
  have "unat f < 2 ^ LENGTH(32)" by (rule unsigned_less)
  then have "unat f < 2 ^ LENGTH(64)" by simp
  then have u: "unat (ucast f :: u64) = unat f" by (simp add: unsigned_ucast_eq take_bit_nat_eq_self)
  show "unat (drop_bit 3 (tag f w)) = unat f" by (simp only: d u)
  have "unat f \<le> 0x1fffffff" using assms(1) by (simp add: tag_ok_def word_le_nat_alt)
  then show "\<not> 0x1fffffff < drop_bit 3 (tag f w)" by (simp add: d u word_less_nat_alt)
  show "\<not> tag f w < 8"
  proof
    assume "tag f w < 8"
    then have "unat (tag f w) < 8" by (simp add: word_less_nat_alt)
    then have "unat (drop_bit 3 (tag f w)) = 0" unfolding unat_drop_bit by (simp add: drop_bit_eq_div)
    then have "unat f = 0" unfolding d u .
    then show False using assms(1) by (simp add: tag_ok_def unat_eq_0)
  qed
qed

lemma little_endian_fixed:
  "little_endian (map (\<lambda>i. ucast (drop_bit (i * 8) v)) [0..<4]) 0 = (ucast (v :: u32) :: u64)"
proof -
  have four: "[0..<4] = [0, 1, 2, 3 :: nat]" by (simp add: upt_rec)
  show ?thesis
  proof (rule bit_word_eqI)
    fix n assume n: "n < LENGTH(64)"
    have "n < 16 \<or> n - 16 < 8 \<or> 24 + (n - 24) = n" by arith
    then show "bit (little_endian (map (\<lambda>i. ucast (drop_bit (i * 8) v)) [0..<4]) 0) n = bit (ucast v :: u64) n"
      using n by (auto simp: four wire_bits dest: bit_imp_le_length)
  qed
qed

lemma next_written:
  assumes "item_ok it" and "data r = pre @ encode it @ rest" and "position r = length pre"
    and "\<not> error r" and "seen r < 256"
  shows "ep_next r = (r\<lparr>seen := seen r + 1, position := position r + length (encode it)\<rparr>, Field (field_of it))"
proof -
  have pos: "position r \<noteq> length (data r)" using assms(2,3) by (cases it) (simp_all add: encode_def)
  define u where "u = r\<lparr>seen := seen r + 1\<rparr>"
  have step: "ep_next r =
      ep_value (u\<lparr>position := position r + length (put (tag f w))\<rparr>)
        \<lparr>number = unat f, wire = unat w, val = 0, bytes_of = []\<rparr>"
    if "drop (position r) (data r) = put (tag f w) @ body" "tag_ok f" "take_bit 3 w = w" for f w body
    using assms(4,5) pos tag_accepted [OF that(2,3)] tag_parts(2) [OF that(3)] that(1)
    by (simp add: ep_next_def Let_def proto_var_put u_def)
  have d: "drop (length pre) (data r) = encode it @ rest" using assms(2) by simp
  have small: "take_bit 3 (0 :: u64) = 0" "take_bit 3 (2 :: u64) = 2" "take_bit 3 (5 :: u64) = 5"
    by (simp_all add: take_bit_eq_mask mask_eq_exp_minus_1)
  show ?thesis
  proof (cases it)
    case (Uint f v)
    then have "drop (position r) (data r) = put (tag f 0) @ put v @ rest" using d assms(3) by (simp add: encode_def)
    from step [OF this] show ?thesis
      using Uint assms(1-3) small
      by (simp add: ep_value_def u_def encode_def proto_var_put)
  next
    case (Fixed f v)
    define q where "q = map (\<lambda>i. ucast (drop_bit (i * 8) v) :: byte) [0..<4]"
    have q: "length q = 4" "little_endian q 0 = ucast v" using little_endian_fixed [of v] by (simp_all add: q_def)
    have e: "encode (Fixed f v) = put (tag f 5) @ q" by (simp add: encode_def q_def)
    then have "drop (position r) (data r) = put (tag f 5) @ q @ rest" using d assms(3) Fixed by simp
    from step [OF this] show ?thesis
      using Fixed assms(1-3) small q by (simp add: ep_value_def u_def e)
  next
    case (Bytes f p)
    define l where "l = (of_nat (length p) :: u64)"
    have l: "unat l = length p" using assms(1) Bytes by (simp add: l_def unat_of_nat_small)
    have e: "encode (Bytes f p) = put (tag f 2) @ put l @ p" by (simp add: encode_def l_def)
    then have "drop (position r) (data r) = put (tag f 2) @ put l @ p @ rest" using d assms(3) Bytes by simp
    from step [OF this] show ?thesis
      using Bytes assms(1-3) small l by (simp add: ep_value_def u_def e proto_var_put)
  qed
qed

text \<open>All fields of a message, as the loops of its readers see them.\<close>

function ep_read_all :: "ep_reader \<Rightarrow> ep_field list option" where
  "ep_read_all r =
     (case ep_next r of
        (r, Field f) \<Rightarrow> map_option ((#) f) (ep_read_all r)
      | (r, Finished) \<Rightarrow> Some []
      | (r, Failed) \<Rightarrow> None)"
  by auto
termination by (relation "measure (\<lambda>r. 257 - seen r)") (auto dest!: ep_next_seen [OF sym])

declare ep_read_all.simps [simp del]

lemma read_written:
  assumes "list_all item_ok its" and "data r = pre @ concat (map encode its)" and "position r = length pre"
    and "\<not> error r" and "seen r + length its \<le> 256"
  shows "ep_read_all r = Some (map field_of its)"
  using assms
proof (induction its arbitrary: r pre)
  case Nil
  then show ?case by (subst ep_read_all.simps) (simp add: ep_next_def)
next
  case (Cons it its)
  let ?r = "r\<lparr>seen := seen r + 1, position := position r + length (encode it)\<rparr>"
  have "ep_next r = (?r, Field (field_of it))" using Cons.prems by (intro next_written) simp_all
  moreover have "ep_read_all ?r = Some (map field_of its)"
    using Cons.prems by (intro Cons.IH [of _ "pre @ encode it"]) simp_all
  ultimately show ?case by (subst ep_read_all.simps) simp
qed

lemma found_written:
  assumes "list_all item_ok its" and "data r = pre @ concat (map encode its)" and "position r = length pre"
    and "\<not> error r" and "seen r + length its \<le> 256"
  shows "snd (ep_find r n) = find (\<lambda>f. number f = n) (map field_of its) \<and>
    (snd (ep_find r n) = None \<longrightarrow> \<not> error (fst (ep_find r n)))"
  using assms
proof (induction its arbitrary: r pre)
  case Nil
  then show ?case by (subst (1 2 3) ep_find.simps) (simp add: ep_next_def)
next
  case (Cons it its)
  let ?r = "r\<lparr>seen := seen r + 1, position := position r + length (encode it)\<rparr>"
  have "ep_next r = (?r, Field (field_of it))" using Cons.prems by (intro next_written) simp_all
  then have "ep_find r n = (if number (field_of it) = n then (?r, Some (field_of it)) else ep_find ?r n)"
    by (subst ep_find.simps) simp
  moreover have "snd (ep_find ?r n) = find (\<lambda>f. number f = n) (map field_of its) \<and>
      (snd (ep_find ?r n) = None \<longrightarrow> \<not> error (fst (ep_find ?r n)))"
    using Cons.prems by (intro Cons.IH [of _ "pre @ encode it"]) simp_all
  ultimately show ?case by simp
qed

text \<open>The fields read determine the items, so the message format is a codec.\<close>

definition item_of :: "ep_field \<Rightarrow> ep_item" where
  "item_of f =
     (if wire f = 0 then Uint (of_nat (number f)) (val f)
      else if wire f = 5 then Fixed (of_nat (number f)) (ucast (val f))
      else Bytes (of_nat (number f)) (bytes_of f))"

lemma ucast_back: "ucast (ucast (v :: u32) :: u64) = v"
  by (intro bit_word_eqI) (auto simp: wire_bits)

lemma item_of_field: "item_of (field_of it) = it"
  by (cases it) (simp_all add: item_of_def ucast_back)

interpretation esphome_message: codec
  "\<lambda>its. list_all item_ok its \<and> length its \<le> 256"
  "\<lambda>its. concat (map encode its)"
  "\<lambda>p. map_option (map item_of) (ep_read_all (ep_reader_init p))"
proof
  fix its assume "list_all item_ok its \<and> length its \<le> 256"
  then have "ep_read_all (ep_reader_init (concat (map encode its))) = Some (map field_of its)"
    by (intro read_written [of _ _ "[]"]) (simp_all add: ep_reader_init_def)
  then show "map_option (map item_of) (ep_read_all (ep_reader_init (concat (map encode its)))) = Some its"
    by (simp add: item_of_field o_def)
qed

section \<open>Messages\<close>

lemma written_message:
  assumes "fold write_item its \<lparr>out = [], capacity = cap, failed = False\<rparr> = w" and "\<not> failed w"
  shows "out w = concat (map encode its)"
  using writes_fit [of its cap] assms by (auto split: if_splits)

text \<open>
  C9: A message written field by field into a buffer it fits, put into a frame and sent, is read
  back by the receiver as the same fields in the same order with the same values, whatever
  follows the frame on the connection.
\<close>

theorem esphome_message_over_the_wire:
  assumes "list_all item_ok its" and "length its \<le> 256"
    and "fold write_item its \<lparr>out = [], capacity = cap, failed = False\<rparr> = w" and "\<not> failed w"
    and "ef_plain_encode room t (out w) = Some f"
  shows "\<exists>u l. ef_parse (f @ rest) False = Complete u (unat t) l \<and>
    map_option (map item_of) (ep_read_all (ep_reader_init (take l (drop (u - l) (f @ rest))))) = Some its"
proof -
  have "map_option (map item_of) (ep_read_all (ep_reader_init (out w))) = Some its"
    using esphome_message.decode_encode [of its] assms(1,2) written_message [OF assms(3,4)] by simp
  then show ?thesis using frame_read_back [OF assms(5), of rest] by auto
qed

text \<open>
  Looking a field up in a written message gives the first field of that number: a number is its
  value, a text is its bytes when they fit and hold no zero byte, and a missing field is the
  fallback or the empty text.
\<close>

theorem esphome_lookup_first:
  assumes "list_all item_ok its" and "length its \<le> 256"
    and "fold write_item its \<lparr>out = [], capacity = cap, failed = False\<rparr> = w" and "\<not> failed w"
  shows "let found = find (\<lambda>f. number f = n) (map field_of its) in
    ep_get_uint (out w) n fallback = (case found of Some f \<Rightarrow> val f | None \<Rightarrow> fallback) \<and>
    ep_get_text (out w) n room = (case found of Some f \<Rightarrow> ep_text f room | None \<Rightarrow> Some [])"
proof -
  define found where "found = find (\<lambda>f. number f = n) (map field_of its)"
  have "snd (ep_find (ep_reader_init (out w)) n) = found \<and>
      (snd (ep_find (ep_reader_init (out w)) n) = None \<longrightarrow> \<not> error (fst (ep_find (ep_reader_init (out w)) n)))"
    unfolding found_def written_message [OF assms(3,4)]
    using assms(1,2) by (intro found_written [of _ _ "[]"]) (simp_all add: ep_reader_init_def)
  then show ?thesis
    by (auto simp: ep_get_uint_def ep_get_text_def found_def [symmetric] split: prod.splits option.splits)
qed

section \<open>The reader on any bytes\<close>

definition reader_ok :: "ep_reader \<Rightarrow> bool" where
  "reader_ok r \<longleftrightarrow> position r \<le> length (data r) \<and> (\<not> error r \<longrightarrow> seen r \<le> 256)"

lemma ep_value_field:
  assumes "ep_value r g = (r', Field f)"
  shows "number f = number g \<and> wire f = wire g \<and> wire g \<in> {0, 1, 2, 5} \<and>
    (bytes_of g = [] \<longrightarrow> sublist (bytes_of f) (data r))"
proof -
  have part: "sublist (take n (drop u (drop k xs))) xs" for n u k and xs :: bytes
    by (rule sublist_order.order_trans [OF sublist_take]) simp
  then show ?thesis
    using assms unfolding ep_value_def Let_def
    by (auto split: var_result.splits if_splits simp del: drop_drop)
qed

interpretation esphome_reader: machine
  "\<lambda>r. \<exists>p. r = ep_reader_init p" "\<lambda>r (_ :: unit). fst (ep_next r)" reader_ok
proof
  show "reader_ok r" if "\<exists>p. r = ep_reader_init p" for r
    using that by (auto simp: reader_ok_def ep_reader_init_def)
  show "reader_ok (fst (ep_next r))" if ok: "reader_ok r" for r
  proof (cases "error r \<or> position r = length (data r) \<or> 256 \<le> seen r")
    case True
    then show ?thesis using ok by (auto simp: reader_ok_def ep_next_def Let_def)
  next
    case False
    show ?thesis
    proof (cases "proto_var (drop (position r) (data r))")
      case (Got u tag)
      define v where "v = r\<lparr>seen := seen r + 1, position := position r + u\<rparr>"
      have "reader_ok (fst (ep_value v g))" for g
        using ep_value_keeps [of v g] ep_value_position [of v g] proto_var_bounds [OF Got] ok False
        by (auto simp: reader_ok_def v_def)
      moreover have "reader_ok (r\<lparr>seen := seen r + 1, error := True\<rparr>)" using ok by (simp add: reader_ok_def)
      ultimately show ?thesis using Got False by (simp add: ep_next_def Let_def v_def)
    qed (use ok False in \<open>simp_all add: reader_ok_def ep_next_def Let_def\<close>)
  qed
qed

text \<open>
  Reading any bytes at all, a field is only ever returned with a number between 1 and 2^29 - 1,
  a wire type the code knows and a text that is a part of the message; the reader stays inside the
  message and stops after 256 fields.
\<close>

theorem esphome_reader_in_bounds:
  assumes "esphome_reader.reach r" and "ep_next r = (r', Field f)"
  shows "position r < position r' \<and> position r' \<le> length (data r) \<and> seen r' \<le> 256 \<and>
    1 \<le> number f \<and> number f < 2 ^ 29 \<and> wire f \<in> {0, 1, 2, 5} \<and> sublist (bytes_of f) (data r)"
proof -
  have ok: "position r \<le> length (data r)" using esphome_reader.inv_reachable [OF assms(1)] by (simp add: reader_ok_def)
  obtain u tag where tag: "proto_var (drop (position r) (data r)) = Got u tag"
    "seen r < 256" "\<not> tag < 8" "\<not> 0x1fffffff < drop_bit 3 tag"
    "ep_value (r\<lparr>seen := seen r + 1, position := position r + u\<rparr>)
       \<lparr>number = unat (drop_bit 3 tag), wire = unat (tag AND 7), val = 0, bytes_of = []\<rparr> = (r', Field f)"
    using assms(2) by (rule ep_next_field)
  define v where "v = r\<lparr>seen := seen r + 1, position := position r + u\<rparr>"
  have u: "0 < u" "u \<le> length (data r) - position r" using proto_var_bounds [OF tag(1)] by simp_all
  have "position v \<le> length (data v)" using u ok by (simp add: v_def)
  then have pos: "position r < position r'" "position r' \<le> length (data r)"
    using ep_value_position [of v "\<lparr>number = unat (drop_bit 3 tag), wire = unat (tag AND 7), val = 0, bytes_of = []\<rparr>"]
      tag(5) u by (simp_all add: v_def)
  have f: "number f = unat (drop_bit 3 tag)" "wire f \<in> {0, 1, 2, 5}" "sublist (bytes_of f) (data r)"
    using ep_value_field [OF tag(5)] by simp_all
  have "unat (drop_bit 3 tag) = unat tag div 8" unfolding unat_drop_bit by (simp add: drop_bit_eq_div)
  then have "1 \<le> unat (drop_bit 3 tag)" using tag(3) by (simp add: word_less_nat_alt)
  moreover have "unat (drop_bit 3 tag) < 2 ^ 29" using tag(4) by (simp add: word_less_nat_alt)
  moreover have "seen r' \<le> 256" using ep_next_seen [OF assms(2)] by simp
  ultimately show ?thesis using pos f by simp
qed

section \<open>The properties at work\<close>

theorem esphome_frame_never_cut_short_witness:
  "ef_plain_encode 100 7 [1, 2, 3] = Some [0, 3, 7, 1, 2, 3] \<and> ef_parse (take 4 [0, 3, 7, 1, 2, 3]) False = Incomplete"
proof -
  have "ef_plain_encode 100 7 [1, 2, 3] = Some [0, 3, 7, 1, 2, 3]"
    by (simp add: ef_plain_encode_def EF_MAX_FRAME_def put.simps)
  then show ?thesis using esphome_frame_never_cut_short [of 100 7 "[1, 2, 3]" _ 4] by simp
qed

theorem esphome_message_over_the_wire_witness:
  "\<exists>u l. ef_parse ([0, 9, 7, 8, 172, 2, 18, 4, 116, 101, 115, 116] @ [0, 1]) False = Complete u (unat (7 :: u32)) l \<and>
    map_option (map item_of) (ep_read_all (ep_reader_init
      (take l (drop (u - l) ([0, 9, 7, 8, 172, 2, 18, 4, 116, 101, 115, 116] @ [0, 1]))))) =
    Some [Uint 1 300, Bytes 2 [116, 101, 115, 116]]"
proof -
  define w where "w = \<lparr>out = [8, 172, 2, 18, 4, 116, 101, 115, 116], capacity = 50, failed = False\<rparr>"
  have "fold write_item [Uint 1 300, Bytes 2 [116, 101, 115, 116]]
      \<lparr>out = [], capacity = 50, failed = False\<rparr> = w"
    by (simp add: ep_uint_def ep_bytes_def putvar_def raw_def put.simps w_def)
  moreover have "ef_plain_encode 100 7 (out w) = Some [0, 9, 7, 8, 172, 2, 18, 4, 116, 101, 115, 116]"
    by (simp add: ef_plain_encode_def EF_MAX_FRAME_def put.simps w_def)
  ultimately show ?thesis
    by (intro esphome_message_over_the_wire [of _ 50 w 100 7]) (simp_all add: tag_ok_def w_def)
qed

theorem esphome_lookup_first_witness:
  "ep_get_uint [8, 172, 2, 18, 4, 116, 101, 115, 116] 1 5 = 300 \<and>
   ep_get_text [8, 172, 2, 18, 4, 116, 101, 115, 116] 1 8 = None"
proof -
  define w where "w = \<lparr>out = [8, 172, 2, 18, 4, 116, 101, 115, 116], capacity = 50, failed = False\<rparr>"
  have "fold write_item [Uint 1 300, Bytes 2 [116, 101, 115, 116]]
      \<lparr>out = [], capacity = 50, failed = False\<rparr> = w"
    by (simp add: ep_uint_def ep_bytes_def putvar_def raw_def put.simps w_def)
  from esphome_lookup_first [OF _ _ this, of 1 5 8] show ?thesis
    by (simp add: tag_ok_def w_def ep_text_def)
qed

theorem esphome_reader_in_bounds_witness:
  "position (ep_reader_init [8, 1]) < 2 \<and> sublist (bytes_of \<lparr>number = 1, wire = 0, val = 1, bytes_of = []\<rparr>) [8, 1]"
proof -
  have "ep_next (ep_reader_init [8, 1]) =
      (\<lparr>data = [8, 1], position = 2, seen = 1, error = False\<rparr>,
       Field \<lparr>number = 1, wire = 0, val = 1, bytes_of = []\<rparr>)" by code_simp
  moreover have "esphome_reader.reach (ep_reader_init [8, 1])" by (rule esphome_reader.reach_start) blast
  ultimately show ?thesis using esphome_reader_in_bounds [of "ep_reader_init [8, 1]"] by (fastforce simp: ep_reader_init_def)
qed

end
