(* ===== verification/Boot_Control.thy ===== *)
theory Boot_Control
  imports Json_Documents
begin

text \<open>
  The boot-slot diagnostics of src/boot_control.c: the flat records that init leaves on the user
  data partition, read, filtered and rendered for the API.  The directory is a parameter, the
  contents of the file of a name if it is a regular file that can be read.  A C string is the
  list of its characters without the terminating zero; what is cut by a buffer is cut here.
\<close>

section \<open>Reading a record\<close>

definition LE_BOOT_CONTROL_TEXT :: nat where "LE_BOOT_CONTROL_TEXT = 64"
definition LE_BOOT_CONTROL_HISTORY_MAX :: nat where "LE_BOOT_CONTROL_HISTORY_MAX = 8"
definition LE_BOOT_CONTROL_HISTORY_LINE :: nat where "LE_BOOT_CONTROL_HISTORY_LINE = 256"
definition LE_BOOT_CONTROL_JSON_MAX :: nat where "LE_BOOT_CONTROL_JSON_MAX = 4096"
definition LE_BOOT_CONTROL_RECORD_MAX :: nat where "LE_BOOT_CONTROL_RECORD_MAX = 1024"
definition LE_BOOT_CONTROL_NUMBER_MAX :: nat where "LE_BOOT_CONTROL_NUMBER_MAX = 9999"
definition LE_BOOT_CONTROL_COUNT_MAX :: nat where "LE_BOOT_CONTROL_COUNT_MAX = 10000000"

type_synonym directory = "string \<Rightarrow> string option"

definition newline :: char where "newline = char_of (10 :: nat)"
definition carriage :: char where "carriage = char_of (13 :: nat)"
definition nul :: char where "nul = char_of (0 :: nat)"

definition read_regular :: "directory \<Rightarrow> string \<Rightarrow> nat \<Rightarrow> string option" where
  "read_regular files name out_size =
     map_option (\<lambda>s. takeWhile (\<lambda>c. c \<noteq> nul) (take (out_size - 1) s)) (files name)"

function field_value :: "string \<Rightarrow> string \<Rightarrow> nat \<Rightarrow> string option" where
  "field_value text key out_size =
     (if text = [] then None
      else let line = takeWhile (\<lambda>c. c \<noteq> newline) text in
        if length key < length line \<and> take (length key) line = key \<and> line ! length key = CHR ''=''
        then Some (takeWhile (\<lambda>c. c \<noteq> carriage) (take (out_size - 1) (drop (length key + 1) line)))
        else field_value (drop (length line + 1) text) key out_size)"
  by auto
termination by (relation "measure (\<lambda>(text, key, out_size). length text)") auto

declare field_value.simps [simp del]

fun bounded_digits :: "nat \<Rightarrow> nat \<Rightarrow> string \<Rightarrow> nat option" where
  "bounded_digits most value [] = Some value"
| "bounded_digits most value (c # cs) =
     (if \<not> isdigit c then None
      else let value = value * 10 + digit_value c in
        if most < value then None else bounded_digits most value cs)"

definition field_int :: "string \<Rightarrow> string \<Rightarrow> int \<Rightarrow> int" where
  "field_int text key fallback =
     (case field_value text key LE_BOOT_CONTROL_TEXT of None \<Rightarrow> fallback
      | Some raw \<Rightarrow>
          if raw = [] then fallback
          else case bounded_digits LE_BOOT_CONTROL_NUMBER_MAX 0 raw of
            None \<Rightarrow> fallback | Some value \<Rightarrow> int value)"

definition plain_int :: "string \<Rightarrow> int" where
  "plain_int text =
     (let raw = takeWhile (\<lambda>c. c \<noteq> newline \<and> c \<noteq> carriage) text in
      if raw = [] then - 1
      else case bounded_digits LE_BOOT_CONTROL_COUNT_MAX 0 raw of None \<Rightarrow> - 1 | Some value \<Rightarrow> int value)"

section \<open>Filtering\<close>

definition lower :: "char \<Rightarrow> bool" where "lower c \<longleftrightarrow> ord (CHR ''a'') \<le> ord c \<and> ord c \<le> ord (CHR ''z'')"
definition upper :: "char \<Rightarrow> bool" where "upper c \<longleftrightarrow> ord (CHR ''A'') \<le> ord c \<and> ord c \<le> ord (CHR ''Z'')"

definition token_char :: "char \<Rightarrow> bool" where
  "token_char c \<longleftrightarrow> lower c \<or> isdigit c \<or> c = CHR ''-'' \<or> c = CHR ''_'' \<or> c = CHR ''.''"

definition line_char :: "char \<Rightarrow> bool" where
  "line_char c \<longleftrightarrow> lower c \<or> upper c \<or> isdigit c \<or> c = CHR ''='' \<or> c = CHR ''-'' \<or> c = CHR ''_'' \<or>
     c = CHR ''.'' \<or> c = CHR ''/'' \<or> c = CHR '':'' \<or> c = CHR '',''"

definition safe_token :: "nat \<Rightarrow> string \<Rightarrow> string" where
  "safe_token out_size value =
     (let kept = take (out_size - 1) (filter token_char value) in if kept = [] then ''-'' else kept)"

definition safe_choice :: "nat \<Rightarrow> string \<Rightarrow> string list \<Rightarrow> string \<Rightarrow> string" where
  "safe_choice out_size value allowed fallback =
     take (out_size - 1) (if value \<in> set allowed then value else fallback)"

definition safe_line :: "nat \<Rightarrow> string \<Rightarrow> string" where
  "safe_line out_size value = take (out_size - 1) (filter line_char value)"

function history_loop :: "string \<Rightarrow> string list \<Rightarrow> string list" where
  "history_loop text found =
     (if text = [] \<or> LE_BOOT_CONTROL_HISTORY_MAX \<le> length found then found
      else let line = takeWhile (\<lambda>c. c \<noteq> newline) text;
               kept = safe_line LE_BOOT_CONTROL_HISTORY_LINE (take (LE_BOOT_CONTROL_HISTORY_LINE - 1) line)
        in history_loop (drop (length line + 1) text)
             (if line \<noteq> [] \<and> kept \<noteq> [] then found @ [kept] else found))"
  by auto
termination by (relation "measure (\<lambda>(text, found). length text)") auto

declare history_loop.simps [simp del]

definition read_history :: "directory \<Rightarrow> string list" where
  "read_history files =
     (case read_regular files ''boot-history'' (LE_BOOT_CONTROL_HISTORY_MAX * LE_BOOT_CONTROL_HISTORY_LINE) of
        None \<Rightarrow> [] | Some text \<Rightarrow> history_loop text [])"

section \<open>The report\<close>

record slot_state =
  priority :: int
  tries :: int
  success :: int

record le_boot_control =
  available :: bool
  state :: string
  mode :: string
  running_slot :: string
  selected_slot :: string
  pending_slot :: string
  last_check :: string
  slot_a :: slot_state
  slot_b :: slot_state
  boot_count :: int
  attempt :: int
  passed :: int
  strict_graph :: bool
  confirmed :: bool
  running_slot_tries :: int
  running_slot_success :: int
  history :: "string list"

definition read_slot_state :: "string \<Rightarrow> string \<Rightarrow> slot_state" where
  "read_slot_state text slot =
     \<lparr>priority = field_int text (''slot_'' @ slot @ ''_priority'') (- 1),
      tries = field_int text (''slot_'' @ slot @ ''_tries'') (- 1),
      success = field_int text (''slot_'' @ slot @ ''_success'') (- 1)\<rparr>"

definition states :: "string list" where
  "states = [''booting'', ''pending'', ''confirmed'', ''failed'', ''restarting'', ''skipped'']"
definition modes :: "string list" where "modes = [''first-boot'', ''ota'', ''none'']"
definition slots :: "string list" where "slots = [''a'', ''b'']"

text \<open>A field of the record that keeps its value when the record does not have it.\<close>

definition choice_field :: "string \<Rightarrow> string \<Rightarrow> string list \<Rightarrow> string \<Rightarrow> string \<Rightarrow> string" where
  "choice_field text key allowed fallback old =
     (case field_value text key LE_BOOT_CONTROL_TEXT of None \<Rightarrow> old
      | Some raw \<Rightarrow> safe_choice LE_BOOT_CONTROL_TEXT raw allowed fallback)"

definition no_slot :: slot_state where "no_slot = \<lparr>priority = - 1, tries = - 1, success = - 1\<rparr>"

definition unavailable :: le_boot_control where
  "unavailable =
     \<lparr>available = False, state = ''unavailable'', mode = ''none'', running_slot = ''-'',
      selected_slot = ''-'', pending_slot = ''-'', last_check = ''-'', slot_a = no_slot, slot_b = no_slot,
      boot_count = 0, attempt = 0, passed = 0, strict_graph = False, confirmed = False,
      running_slot_tries = - 1, running_slot_success = - 1, history = []\<rparr>"

definition read_health :: "string \<Rightarrow> le_boot_control \<Rightarrow> le_boot_control" where
  "read_health text v =
     (let st = choice_field text ''state'' states ''unknown'' (state v);
          run = choice_field text ''running_slot'' slots ''-'' (running_slot v);
          a = read_slot_state text ''a'';
          b = read_slot_state text ''b''
      in v\<lparr>available := True, state := st,
          mode := choice_field text ''mode'' modes ''unknown'' (mode v),
          running_slot := run,
          selected_slot := choice_field text ''selected_slot'' slots ''-'' (selected_slot v),
          pending_slot := choice_field text ''pending_slot'' slots ''-'' (pending_slot v),
          last_check := (case field_value text ''last_check'' LE_BOOT_CONTROL_TEXT of
              None \<Rightarrow> last_check v | Some raw \<Rightarrow> safe_token LE_BOOT_CONTROL_TEXT raw),
          slot_a := a, slot_b := b,
          boot_count := field_int text ''boot_count'' 0,
          attempt := field_int text ''attempt'' 0,
          passed := field_int text ''passed'' 0,
          strict_graph := (field_int text ''strict_graph'' 0 = 1),
          confirmed := (st = ''confirmed''),
          running_slot_tries :=
            (if run = ''a'' then tries a else if run = ''b'' then tries b else running_slot_tries v),
          running_slot_success :=
            (if run = ''a'' then success a else if run = ''b'' then success b else running_slot_success v)\<rparr>)"

definition le_boot_control_read :: "directory \<Rightarrow> le_boot_control" where
  "le_boot_control_read files =
     (let v = unavailable\<lparr>history := read_history files\<rparr>;
          v = (case read_regular files ''boot-health'' LE_BOOT_CONTROL_RECORD_MAX of
              None \<Rightarrow> v | Some text \<Rightarrow> read_health text v)
      in case read_regular files ''boot-count'' LE_BOOT_CONTROL_RECORD_MAX of
           None \<Rightarrow> v
         | Some text \<Rightarrow>
             let count = plain_int text in
             if 0 \<le> count \<and> boot_count v = 0 then v\<lparr>boot_count := count\<rparr> else v)"

section \<open>Rendering\<close>

definition bool_text :: "bool \<Rightarrow> string" where
  "bool_text b = (if b then ''true'' else ''false'')"

definition name_text :: "string \<Rightarrow> string" where
  "name_text k = [quote] @ k @ [quote] @ '':''"

definition string_text :: "string \<Rightarrow> string" where
  "string_text s = [quote] @ s @ [quote]"

definition slot_text :: "slot_state \<Rightarrow> string" where
  "slot_text s =
     ''{'' @ name_text ''priority'' @ int_digits (priority s) @
     '','' @ name_text ''tries'' @ int_digits (tries s) @
     '','' @ name_text ''success'' @ int_digits (success s) @ ''}''"

definition head_text :: "le_boot_control \<Rightarrow> string" where
  "head_text v =
     ''{'' @ name_text ''available'' @ bool_text (available v) @
     '','' @ name_text ''state'' @ string_text (state v) @
     '','' @ name_text ''mode'' @ string_text (mode v) @
     '','' @ name_text ''confirmed'' @ bool_text (confirmed v) @
     '','' @ name_text ''running_slot'' @ string_text (running_slot v) @
     '','' @ name_text ''selected_slot'' @ string_text (selected_slot v) @
     '','' @ name_text ''pending_slot'' @ string_text (pending_slot v) @
     '','' @ name_text ''boot_count'' @ int_digits (boot_count v) @
     '','' @ name_text ''attempt'' @ int_digits (attempt v) @
     '','' @ name_text ''passed'' @ int_digits (passed v) @
     '','' @ name_text ''last_check'' @ string_text (last_check v) @
     '','' @ name_text ''strict_graph'' @ bool_text (strict_graph v) @
     '','' @ name_text ''running_slot_tries'' @ int_digits (running_slot_tries v) @
     '','' @ name_text ''running_slot_success'' @ int_digits (running_slot_success v) @
     '','' @ name_text ''slot_a'' @ slot_text (slot_a v) @
     '','' @ name_text ''slot_b'' @ slot_text (slot_b v) @
     '','' @ name_text ''history'' @ ''[''"

text \<open>One \<^verbatim>\<open>snprintf\<close> at the end of what is there; nothing when it does not fit with its zero.\<close>

definition put_text :: "nat \<Rightarrow> string \<Rightarrow> string \<Rightarrow> string option" where
  "put_text out_size used piece =
     (if out_size \<le> length used + length piece then None else Some (used @ piece))"

fun put_history :: "nat \<Rightarrow> bool \<Rightarrow> string list \<Rightarrow> string \<Rightarrow> string option" where
  "put_history out_size first [] used = Some used"
| "put_history out_size first (h # hs) used =
     (case put_text out_size used ((if first then [] else '','') @ string_text h) of
        None \<Rightarrow> None | Some used \<Rightarrow> put_history out_size False hs used)"

definition le_boot_control_json :: "nat \<Rightarrow> le_boot_control \<Rightarrow> string option" where
  "le_boot_control_json out_size v =
     (if out_size = 0 then None
      else case put_text out_size [] (head_text v) of None \<Rightarrow> None
      | Some used \<Rightarrow> (case put_history out_size True (history v) used of None \<Rightarrow> None
        | Some used \<Rightarrow> put_text out_size used '']}''))"

end
