(* ===== verification/Boot_Report.thy ===== *)
theory Boot_Report
  imports Boot_Control
begin

text \<open>
  What the boot diagnostics of \<open>Boot_Control\<close> promise, whatever is in the files: the report always
  fits its buffer and is one valid JSON object that reads back as the values it was made from,
  a record of \<^verbatim>\<open>key=value\<close> lines is read exactly, and a boot is called confirmed only when the
  record says so.
\<close>

section \<open>The report as a document\<close>

definition slot_doc :: "slot_state \<Rightarrow> json_doc" where
  "slot_doc s = JObj [(''priority'', JInt (priority s)), (''tries'', JInt (tries s)), (''success'', JInt (success s))]"

definition boot_members :: "le_boot_control \<Rightarrow> (string \<times> json_doc) list" where
  "boot_members v =
     [(''available'', JBool (available v)), (''state'', JStr (state v)), (''mode'', JStr (mode v)),
      (''confirmed'', JBool (confirmed v)), (''running_slot'', JStr (running_slot v)),
      (''selected_slot'', JStr (selected_slot v)), (''pending_slot'', JStr (pending_slot v)),
      (''boot_count'', JInt (boot_count v)), (''attempt'', JInt (attempt v)), (''passed'', JInt (passed v)),
      (''last_check'', JStr (last_check v)), (''strict_graph'', JBool (strict_graph v)),
      (''running_slot_tries'', JInt (running_slot_tries v)),
      (''running_slot_success'', JInt (running_slot_success v)),
      (''slot_a'', slot_doc (slot_a v)), (''slot_b'', slot_doc (slot_b v)),
      (''history'', JArr (map JStr (history v)))]"

definition texts_plain :: "le_boot_control \<Rightarrow> bool" where
  "texts_plain v \<longleftrightarrow> plain (state v) \<and> plain (mode v) \<and> plain (running_slot v) \<and> plain (selected_slot v) \<and>
     plain (pending_slot v) \<and> plain (last_check v) \<and> (\<forall>h\<in>set (history v). plain h)"

definition tail_text :: "le_boot_control \<Rightarrow> string" where
  "tail_text v = join (map string_text (history v)) @ '']}''"

lemma quoted_plain: "plain s \<Longrightarrow> quoted s = string_text s"
  by (simp add: quoted_def escaped_plain string_text_def)

lemma render_slot: "render (slot_doc s) = slot_text s"
  by (simp add: slot_doc_def slot_text_def name_text_def quoted_def escape_char_def)

lemma keys_plain:
  "plain ''available''" "plain ''state''" "plain ''mode''" "plain ''confirmed''" "plain ''running_slot''"
  "plain ''selected_slot''" "plain ''pending_slot''" "plain ''boot_count''" "plain ''attempt''"
  "plain ''passed''" "plain ''last_check''" "plain ''strict_graph''" "plain ''running_slot_tries''"
  "plain ''running_slot_success''" "plain ''slot_a''" "plain ''slot_b''" "plain ''history''"
  by (simp_all add: plain_def)

lemma member_plain: "plain k \<Longrightarrow> member_text (k, d) = name_text k @ render d"
  by (simp add: member_text_def quoted_plain name_text_def string_text_def)

lemma render_texts: "plain s \<Longrightarrow> render (JStr s) = string_text s" "render (JInt i) = int_digits i"
  "render (JBool b) = bool_text b"
  by (simp_all add: quoted_plain bool_text_def)

lemma render_boot:
  assumes "texts_plain v"
  shows "render (JObj (boot_members v)) = head_text v @ tail_text v"
proof -
  have h: "render (JArr (map JStr (history v))) = ''['' @ join (map string_text (history v)) @ '']''"
  proof -
    have "map render (map JStr (history v)) = map string_text (history v)"
      using assms by (auto simp: texts_plain_def quoted_plain)
    then show ?thesis by (simp only: render.simps) simp
  qed
  note texts = assms [unfolded texts_plain_def]
  show ?thesis
    unfolding render_JObj boot_members_def list.map join.simps
    using texts
    by (simp only: member_plain keys_plain render_texts render_slot h head_text_def tail_text_def append_assoc
        append_Cons append_Nil)
qed

text \<open>The tail is put after the head piece by piece.\<close>

lemma put_history_text:
  "length used + length (join (map string_text hs)) + 2 < n \<Longrightarrow>
     put_history n True hs used = Some (used @ join (map string_text hs)) \<and>
     (hs \<noteq> [] \<longrightarrow> length used + length (join (map string_text hs)) + 3 < n \<longrightarrow>
       put_history n False hs used = Some (used @ '','' @ join (map string_text hs)))"
proof (induction hs arbitrary: used)
  case (Cons h hs)
  show ?case
  proof (cases hs)
    case Nil
    then show ?thesis using Cons.prems by (simp add: put_text_def)
  next
    case (Cons h' hs')
    then have j: "join (map string_text (h # hs)) = string_text h @ '','' @ join (map string_text hs)" by simp
    show ?thesis
      using Cons.prems Cons.IH [of "used @ string_text h"] Cons.IH [of "used @ '','' @ string_text h"] Cons
      unfolding j by (simp add: put_text_def)
  qed
qed simp

section \<open>Bounds\<close>

lemma bounded_digits_le: "bounded_digits most acc cs = Some v \<Longrightarrow> acc \<le> most \<Longrightarrow> v \<le> most"
  by (induction most acc cs rule: bounded_digits.induct) (auto simp: Let_def split: if_splits)

lemma field_int_range: "- 1 \<le> d \<Longrightarrow> d \<le> 9999 \<Longrightarrow> - 1 \<le> field_int t k d \<and> field_int t k d \<le> 9999"
  using bounded_digits_le [of 9999 0]
  by (auto simp: field_int_def LE_BOOT_CONTROL_NUMBER_MAX_def split: option.split)

lemma plain_int_range: "- 1 \<le> plain_int t \<and> plain_int t \<le> 10000000"
  using bounded_digits_le [of 10000000 0]
  by (auto simp: plain_int_def LE_BOOT_CONTROL_COUNT_MAX_def Let_def split: option.split)

lemma int_digits_length: "- 1 \<le> i \<Longrightarrow> i < 10 ^ Suc k \<Longrightarrow> length (int_digits i) \<le> Suc (Suc k)"
proof -
  assume i: "- 1 \<le> i" "i < 10 ^ Suc k"
  show "length (int_digits i) \<le> Suc (Suc k)"
  proof (cases "i < 0")
    case True
    then have "i = - 1" using i by simp
    then show ?thesis by (simp add: int_digits_def nat_digits.simps)
  next
    case False
    then have "nat i < 10 ^ Suc k" using i(2) by (simp add: nat_less_iff)
    then show ?thesis using False nat_digits_length [of "nat i" k] by (simp add: int_digits_def)
  qed
qed

definition text_ok :: "string \<Rightarrow> bool" where
  "text_ok s \<longleftrightarrow> plain s \<and> length s \<le> 63"

definition slot_ok :: "slot_state \<Rightarrow> bool" where
  "slot_ok s \<longleftrightarrow> - 1 \<le> priority s \<and> priority s \<le> 9999 \<and> - 1 \<le> tries s \<and> tries s \<le> 9999 \<and>
     - 1 \<le> success s \<and> success s \<le> 9999"

definition history_ok :: "string list \<Rightarrow> bool" where
  "history_ok hs \<longleftrightarrow> length hs \<le> 8 \<and> (\<forall>h\<in>set hs. plain h \<and> length h \<le> 255)"

definition report_ok :: "le_boot_control \<Rightarrow> bool" where
  "report_ok v \<longleftrightarrow> text_ok (state v) \<and> text_ok (mode v) \<and> text_ok (running_slot v) \<and>
     text_ok (selected_slot v) \<and> text_ok (pending_slot v) \<and> text_ok (last_check v) \<and>
     slot_ok (slot_a v) \<and> slot_ok (slot_b v) \<and> history_ok (history v) \<and>
     - 1 \<le> boot_count v \<and> boot_count v \<le> 10000000 \<and> - 1 \<le> attempt v \<and> attempt v \<le> 9999 \<and>
     - 1 \<le> passed v \<and> passed v \<le> 9999 \<and> - 1 \<le> running_slot_tries v \<and> running_slot_tries v \<le> 9999 \<and>
     - 1 \<le> running_slot_success v \<and> running_slot_success v \<le> 9999"

lemma plain_filter: "\<forall>c. P c \<longrightarrow> 32 \<le> ord c \<and> c \<noteq> quote \<and> c \<noteq> backslash \<Longrightarrow> plain (take n (filter P s))"
  by (auto simp: plain_def dest!: in_set_takeD)

lemma token_plain: "token_char c \<Longrightarrow> 32 \<le> ord c \<and> c \<noteq> quote \<and> c \<noteq> backslash"
  by (auto simp: token_char_def lower_def isdigit_def)

lemma line_plain: "line_char c \<Longrightarrow> 32 \<le> ord c \<and> c \<noteq> quote \<and> c \<noteq> backslash"
  by (auto simp: line_char_def lower_def upper_def isdigit_def)

lemma token_ok: "text_ok (safe_token LE_BOOT_CONTROL_TEXT raw)"
  using plain_filter [of token_char 63 raw] token_plain
  by (auto simp: text_ok_def safe_token_def LE_BOOT_CONTROL_TEXT_def Let_def plain_def)

lemma choice_ok: "\<forall>s\<in>set allowed. text_ok s \<Longrightarrow> text_ok f \<Longrightarrow> text_ok old \<Longrightarrow> text_ok (choice_field t k allowed f old)"
  by (auto simp: choice_field_def safe_choice_def text_ok_def LE_BOOT_CONTROL_TEXT_def split: option.split)

lemma vocabulary_ok: "\<forall>s\<in>set states. text_ok s" "\<forall>s\<in>set modes. text_ok s" "\<forall>s\<in>set slots. text_ok s"
  "text_ok ''unknown''" "text_ok ''-''" "text_ok ''unavailable''" "text_ok ''none''"
  by (simp_all add: states_def modes_def slots_def text_ok_def plain_def)

lemma history_loop_ok: "history_ok found \<Longrightarrow> history_ok (history_loop t found)"
proof (induction t found rule: history_loop.induct)
  case (1 t found)
  define line where "line = takeWhile (\<lambda>c. c \<noteq> newline) t"
  define kept where "kept = safe_line LE_BOOT_CONTROL_HISTORY_LINE (take (LE_BOOT_CONTROL_HISTORY_LINE - 1) line)"
  have kept: "plain kept" "length kept \<le> 255"
    using plain_filter [of line_char] line_plain by (simp_all add: kept_def safe_line_def LE_BOOT_CONTROL_HISTORY_LINE_def)
  show ?case
  proof (cases "t = [] \<or> LE_BOOT_CONTROL_HISTORY_MAX \<le> length found")
    case True
    then show ?thesis using "1.prems" by (subst history_loop.simps) simp
  next
    case False
    have "history_ok (if line \<noteq> [] \<and> kept \<noteq> [] then found @ [kept] else found)"
      using "1.prems" kept False by (auto simp: history_ok_def LE_BOOT_CONTROL_HISTORY_MAX_def)
    moreover have "history_loop t found = history_loop (drop (length line + 1) t)
        (if line \<noteq> [] \<and> kept \<noteq> [] then found @ [kept] else found)"
      using False by (subst history_loop.simps) (simp only: Let_def line_def kept_def if_False)
    ultimately show ?thesis using "1.IH" [OF False line_def kept_def] by simp
  qed
qed

lemma read_ok: "report_ok (le_boot_control_read files)"
proof -
  have h: "history_ok (read_history files)"
    by (auto simp: read_history_def history_ok_def [of "[]"] intro!: history_loop_ok split: option.split)
  define v where "v = unavailable\<lparr>history := read_history files\<rparr>"
  have v: "report_ok v"
    using h vocabulary_ok by (simp add: v_def report_ok_def unavailable_def no_slot_def slot_ok_def)
  define w where "w = (case read_regular files ''boot-health'' LE_BOOT_CONTROL_RECORD_MAX of
      None \<Rightarrow> v | Some text \<Rightarrow> read_health text v)"
  have slot: "slot_ok (read_slot_state t s)" for t s
    by (simp add: slot_ok_def read_slot_state_def field_int_range)
  have "report_ok (read_health t v)" for t
  proof -
    have "text_ok (case field_value t ''last_check'' LE_BOOT_CONTROL_TEXT of
        None \<Rightarrow> last_check v | Some raw \<Rightarrow> safe_token LE_BOOT_CONTROL_TEXT raw)"
      using v by (simp add: token_ok report_ok_def split: option.split)
    moreover have "field_int t ''boot_count'' 0 \<le> 10000000"
      using field_int_range [of 0 t "''boot_count''"] by simp
    ultimately show ?thesis
      using v slot [of t "''a''"] slot [of t "''b''"]
      unfolding report_ok_def read_health_def Let_def
      by (simp add: choice_ok vocabulary_ok field_int_range slot_ok_def)
  qed
  then have w: "report_ok w" using v by (simp add: w_def split: option.split)
  then have "report_ok (w\<lparr>boot_count := plain_int t\<rparr>)" for t
    using plain_int_range [of t] by (simp add: report_ok_def)
  then show ?thesis using w
    by (auto simp: le_boot_control_read_def v_def [symmetric] w_def [symmetric] Let_def split: option.split)
qed

lemma join_texts_length: "\<forall>h\<in>set hs. length h \<le> 255 \<Longrightarrow> length (join (map string_text hs)) \<le> 258 * length hs"
proof (induction hs)
  case (Cons h hs)
  then show ?case by (cases hs) (simp_all add: string_text_def)
qed simp

lemma head_length:
  assumes "report_ok v"
  shows "length (head_text v) \<le> 1000"
proof -
  have small: "length (int_digits i) \<le> 5" if "- 1 \<le> i" "i \<le> 9999" for i
    using int_digits_length [of i 3] that by simp
  have count: "length (int_digits (boot_count v)) \<le> 9"
    using int_digits_length [of "boot_count v" 7] assms by (simp add: report_ok_def)
  have slot: "length (slot_text s) \<le> 60" if "slot_ok s" for s
    using that small [of "priority s"] small [of "tries s"] small [of "success s"]
    by (simp add: slot_ok_def slot_text_def name_text_def)
  have bools: "length (bool_text b) \<le> 5" for b by (simp add: bool_text_def)
  note ok = assms [unfolded report_ok_def text_ok_def]
  show ?thesis
    using ok count slot [of "slot_a v"] slot [of "slot_b v"] small [of "attempt v"] small [of "passed v"]
      small [of "running_slot_tries v"] small [of "running_slot_success v"]
      bools [of "available v"] bools [of "confirmed v"] bools [of "strict_graph v"]
    by (simp add: head_text_def name_text_def string_text_def)
qed

lemma report_text:
  assumes "report_ok v"
  shows "le_boot_control_json LE_BOOT_CONTROL_JSON_MAX v = Some (render (JObj (boot_members v)))"
proof -
  have h: "length (join (map string_text (history v))) \<le> 258 * 8"
  proof -
    have "length (join (map string_text (history v))) \<le> 258 * length (history v)"
      using assms by (intro join_texts_length) (simp add: report_ok_def history_ok_def)
    also have "\<dots> \<le> 258 * 8" using assms by (simp add: report_ok_def history_ok_def)
    finally show ?thesis .
  qed
  define used where "used = head_text v @ join (map string_text (history v))"
  have "length (head_text v) < 4096" using head_length [OF assms] by simp
  moreover have "put_history 4096 True (history v) (head_text v) = Some used"
    using put_history_text [of "head_text v" "history v" 4096] h head_length [OF assms] by (simp add: used_def)
  moreover have "length used + 2 < 4096" using h head_length [OF assms] by (simp add: used_def)
  ultimately have "le_boot_control_json 4096 v = Some (head_text v @ tail_text v)"
    by (simp add: le_boot_control_json_def put_text_def used_def tail_text_def)
  moreover have "texts_plain v"
    using assms by (simp add: report_ok_def texts_plain_def text_ok_def history_ok_def)
  ultimately show ?thesis by (simp only: render_boot LE_BOOT_CONTROL_JSON_MAX_def)
qed

lemma boot_nesting: "\<forall>m\<in>set (boot_members v). nesting (snd m) \<le> 1"
proof -
  have "nesting (JArr (map JStr (history v))) \<le> Suc 0" unfolding nesting_JArr by auto
  then show ?thesis by (simp add: boot_members_def slot_doc_def del: nesting.simps(1))
qed

section \<open>Properties\<close>


section \<open>Records\<close>

text \<open>A record as init writes it: one \<^verbatim>\<open>key=value\<close> line per field.\<close>

definition record_text :: "(string \<times> string) list \<Rightarrow> string" where
  "record_text kvs = concat (map (\<lambda>(k, v). k @ CHR ''='' # v @ [newline]) kvs)"

definition pair_ok :: "string \<times> string \<Rightarrow> bool" where
  "pair_ok kv \<longleftrightarrow> CHR ''='' \<notin> set (fst kv) \<and> newline \<notin> set (fst kv) \<and>
     newline \<notin> set (snd kv) \<and> carriage \<notin> set (snd kv)"

lemma line_of_pair:
  assumes "pair_ok (k, v)"
  shows "takeWhile (\<lambda>c. c \<noteq> newline) (record_text ((k, v) # kvs)) = k @ CHR ''='' # v"
    and "drop (length (k @ CHR ''='' # v) + 1) (record_text ((k, v) # kvs)) = record_text kvs"
proof -
  have "CHR ''='' \<noteq> newline" by (simp add: newline_def char_eq_ord)
  then show "takeWhile (\<lambda>c. c \<noteq> newline) (record_text ((k, v) # kvs)) = k @ CHR ''='' # v"
    using assms takeWhile_all_append [of "k @ CHR ''='' # v" "\<lambda>c. c \<noteq> newline" "newline # record_text kvs"]
    by (fastforce simp: pair_ok_def record_text_def)
qed (simp add: record_text_def)

lemma key_matches:
  assumes "CHR ''='' \<notin> set k" and "CHR ''='' \<notin> set key"
  shows "(take (length key) (k @ CHR ''='' # v) = key \<and> (k @ CHR ''='' # v) ! length key = CHR ''='') = (k = key)"
proof
  assume l: "take (length key) (k @ CHR ''='' # v) = key \<and> (k @ CHR ''='' # v) ! length key = CHR ''=''"
  have "\<not> length key < length k"
  proof
    assume "length key < length k"
    then have "k ! length key = CHR ''=''" using l by (simp add: nth_append)
    then show False using assms(1) \<open>length key < length k\<close> nth_mem by metis
  qed
  moreover have "\<not> length k < length key"
  proof
    assume less: "length k < length key"
    then have "take (length key) (k @ CHR ''='' # v) ! length k = CHR ''=''" by (simp add: nth_append)
    then have "key ! length k = CHR ''=''" using l by simp
    then show False using assms(2) less nth_mem by metis
  qed
  ultimately have "length k = length key" by simp
  then show "k = key" using l by simp
qed simp

lemma field_of_record:
  "list_all pair_ok kvs \<Longrightarrow> CHR ''='' \<notin> set key \<Longrightarrow>
     field_value (record_text kvs) key n = map_option (take (n - 1)) (map_of kvs key)"
proof (induction kvs)
  case Nil
  then show ?case by (subst field_value.simps) (simp add: record_text_def)
next
  case (Cons kv kvs)
  obtain k v where kv: "kv = (k, v)" by (cases kv)
  have ok: "pair_ok (k, v)" "CHR ''='' \<notin> set k" using Cons.prems by (simp_all add: kv pair_ok_def)
  define line where "line = k @ CHR ''='' # v"
  define whole where "whole = record_text ((k, v) # kvs)"
  have whole: "whole \<noteq> []" "takeWhile (\<lambda>c. c \<noteq> newline) whole = line" "drop (length line + 1) whole = record_text kvs"
    using line_of_pair [OF ok(1), of kvs] by (simp_all add: whole_def line_def record_text_def)
  have eq: "field_value whole key n =
      (if length key < length line \<and> take (length key) line = key \<and> line ! length key = CHR ''=''
       then Some (takeWhile (\<lambda>c. c \<noteq> carriage) (take (n - 1) (drop (length key + 1) line)))
       else field_value (record_text kvs) key n)"
    by (subst field_value.simps) (simp only: whole if_False Let_def)
  have match: "(take (length key) line = key \<and> line ! length key = CHR ''='') = (k = key)"
    unfolding line_def by (rule key_matches [OF ok(2) Cons.prems(2)])
  show ?case
  proof (cases "k = key")
    case True
    have "carriage \<notin> set (take (n - 1) v)" using ok(1) by (auto simp: pair_ok_def dest: in_set_takeD)
    then have "takeWhile (\<lambda>c. c \<noteq> carriage) (take (n - 1) v) = take (n - 1) v" by (intro takeWhile_eq_all_conv [THEN iffD2]) metis
    then show ?thesis unfolding kv whole_def [symmetric] using eq match True by (simp add: line_def)
  next
    case False
    then show ?thesis unfolding kv whole_def [symmetric] using eq match Cons by (simp add: kv)
  qed
qed

text \<open>
  A boot record of key=value lines is read exactly: a field is the value of the first line with
  that very key, never of a longer key that ends in it, up to the 63 characters the reader keeps.
\<close>

theorem boot_record_fields_exact:
  assumes "list_all pair_ok kvs" and "CHR ''='' \<notin> set key"
  shows "field_value (record_text kvs) key LE_BOOT_CONTROL_TEXT = map_option (take 63) (map_of kvs key)"
  using field_of_record [OF assms, of LE_BOOT_CONTROL_TEXT] by (simp add: LE_BOOT_CONTROL_TEXT_def)

text \<open>
  A device is reported as confirmed only if its record exists and says so: for a record that
  init wrote, exactly when the record's state is confirmed, and without a record never.
\<close>

theorem boot_confirmed_as_recorded:
  assumes "list_all pair_ok kvs" and "nul \<notin> set (record_text kvs)"
    and "length (record_text kvs) < LE_BOOT_CONTROL_RECORD_MAX" and "files ''boot-health'' = Some (record_text kvs)"
  shows "confirmed (le_boot_control_read files) = (map_of kvs ''state'' = Some ''confirmed'') \<and>
    \<not> confirmed (le_boot_control_read (files(''boot-health'' := None)))"
proof -
  have keep: "confirmed (case read_regular f ''boot-count'' LE_BOOT_CONTROL_RECORD_MAX of None \<Rightarrow> v
     | Some t \<Rightarrow> let count = plain_int t in
         if 0 \<le> count \<and> boot_count v = 0 then v\<lparr>boot_count := count\<rparr> else v) = confirmed v" for f v
    by (simp add: Let_def split: option.split)
  have none: "\<not> confirmed (le_boot_control_read (files(''boot-health'' := None)))"
    unfolding le_boot_control_read_def Let_def keep [unfolded Let_def]
    by (simp add: read_regular_def unavailable_def)
  have whole: "read_regular files ''boot-health'' LE_BOOT_CONTROL_RECORD_MAX = Some (record_text kvs)"
  proof -
    have "takeWhile (\<lambda>c. c \<noteq> nul) (record_text kvs) = record_text kvs"
      using assms(2) by (intro takeWhile_eq_all_conv [THEN iffD2]) metis
    then show ?thesis using assms(3,4) by (simp add: read_regular_def)
  qed
  have "confirmed (read_health (record_text kvs) v) = (map_of kvs ''state'' = Some ''confirmed'')"
    if "state v = ''unavailable''" for v
  proof -
    have "field_value (record_text kvs) ''state'' LE_BOOT_CONTROL_TEXT = map_option (take 63) (map_of kvs ''state'')"
      using field_of_record [OF assms(1), of "''state''" LE_BOOT_CONTROL_TEXT] by (simp add: LE_BOOT_CONTROL_TEXT_def)
    moreover have "safe_choice LE_BOOT_CONTROL_TEXT (take 63 r) states ''unknown'' = ''confirmed'' \<longleftrightarrow> r = ''confirmed''" for r
    proof
      assume c: "safe_choice LE_BOOT_CONTROL_TEXT (take 63 r) states ''unknown'' = ''confirmed''"
      then have t: "take 63 r = ''confirmed''"
        by (simp add: safe_choice_def LE_BOOT_CONTROL_TEXT_def split: if_splits)
      then have "length (take 63 r) = 9" by simp
      then have "length r < 63" by (simp add: min_def split: if_splits)
      then show "r = ''confirmed''" using t by simp
    qed (simp add: safe_choice_def LE_BOOT_CONTROL_TEXT_def states_def)
    ultimately show ?thesis using that
      by (cases "map_of kvs ''state''") (simp_all add: read_health_def Let_def choice_field_def)
  qed
  then have "confirmed (le_boot_control_read files) = (map_of kvs ''state'' = Some ''confirmed'')"
    unfolding le_boot_control_read_def Let_def keep [unfolded Let_def] whole
    by (simp add: unavailable_def)
  then show ?thesis using none by blast
qed

theorem boot_record_fields_exact_witness:
  "field_value (record_text [(''slot_a_tries'', ''3''), (''tries'', ''7'')]) ''tries'' LE_BOOT_CONTROL_TEXT = Some ''7''"
  using boot_record_fields_exact [of "[(''slot_a_tries'', ''3''), (''tries'', ''7'')]" "''tries''"]
  by (simp add: pair_ok_def newline_def carriage_def char_eq_ord)

theorem boot_confirmed_as_recorded_witness:
  "confirmed (le_boot_control_read [''boot-health'' \<mapsto> record_text [(''state'', ''confirmed'')]])"
  using boot_confirmed_as_recorded [of "[(''state'', ''confirmed'')]" "[''boot-health'' \<mapsto> record_text [(''state'', ''confirmed'')]]"]
  by (simp add: pair_ok_def newline_def carriage_def char_eq_ord nul_def record_text_def LE_BOOT_CONTROL_RECORD_MAX_def)

end
