(* ===== verification/Timerd_State.thy ===== *)
theory Timerd_State
  imports Timer_Schedule C_Text
begin

text \<open>
  How the timer daemon keeps its schedule over a restart (adapter/timerd.c): the text it writes,
  one line per pending timer, the order in which the files are replaced, and how the text is read
  back into the schedule of \<open>Timer_Schedule\<close>.

  A C string is the list of its characters before the zero.  A line is cut as \<^verbatim>\<open>fgets\<close> cuts it.  The
  file system is the contents of the four names the daemon uses; each system call may fail, which
  is an argument.  The width of \<^verbatim>\<open>unsigned long\<close> is an argument of the header parser.
\<close>

unbundle bit_operations_syntax

section \<open>Labels\<close>

definition state_hex_value :: "char \<Rightarrow> nat option" where
  "state_hex_value c =
     (if isdigit c then Some (ord c - ord (CHR ''0''))
      else if ord (CHR ''a'') \<le> ord c \<and> ord c \<le> ord (CHR ''f'') then Some (ord c - ord (CHR ''a'') + 10)
      else if ord (CHR ''A'') \<le> ord c \<and> ord c \<le> ord (CHR ''F'') then Some (ord c - ord (CHR ''A'') + 10)
      else None)"

definition hex_digit :: "nat \<Rightarrow> char" where
  "hex_digit n = ''0123456789abcdef'' ! n"

definition state_encode_label :: "nat \<Rightarrow> string \<Rightarrow> string option" where
  "state_encode_label out_size label =
     (if LE_TIMER_LABEL_MAX \<le> length label \<or> out_size < 6 + length label * 2 then None
      else Some (''@hex:'' @ concat (map (\<lambda>c. [hex_digit (ord c div 16), hex_digit (ord c mod 16)]) label)))"

fun hex_pairs :: "string \<Rightarrow> string option" where
  "hex_pairs (a # b # cs) =
     (case (state_hex_value a, state_hex_value b) of
        (Some high, Some low) \<Rightarrow> map_option ((#) (char_of (high * 16 + low))) (hex_pairs cs)
      | _ \<Rightarrow> None)"
| "hex_pairs _ = Some []"

text \<open>The label as the text up to its first zero byte, which is all its readers see of it.\<close>

definition state_decode_label :: "string \<Rightarrow> nat \<Rightarrow> string option" where
  "state_decode_label text out_size =
     (if out_size = 0 then None
      else if take 5 text \<noteq> ''@hex:'' then (if out_size \<le> length text then None else Some text)
      else let h = drop 5 text in
        if odd (length h) \<or> out_size \<le> length h div 2 then None
        else map_option (takeWhile (\<lambda>c. c \<noteq> char_of (0 :: nat))) (hex_pairs h))"

section \<open>The header of a line\<close>

definition skip_space :: "string \<Rightarrow> string" where
  "skip_space = dropWhile isspace"

record header =
  h_kind :: string
  h_restore_id :: u32
  h_due :: int
  h_label :: string
  h_format :: nat

definition header_format :: "string \<Rightarrow> nat \<times> string" where
  "header_format cursor =
     (if (take 2 cursor = ''v2'' \<or> take 2 cursor = ''v3'') \<and> 2 < length cursor \<and> isspace (cursor ! 2)
      then (digit_value (cursor ! 1), skip_space (drop 2 cursor)) else (0, cursor))"

definition header_id :: "nat \<Rightarrow> nat \<Rightarrow> string \<Rightarrow> (u32 \<times> string) option" where
  "header_id w format cursor =
     (if format \<noteq> 3 then Some (0, cursor)
      else case strtoul w cursor of None \<Rightarrow> None
      | Some (value, erange, rest) \<Rightarrow>
          if erange \<or> value = 0 \<or> 2 ^ 32 - 1 < value \<or> (rest \<noteq> [] \<and> \<not> isspace (hd rest)) then None
          else Some (of_nat value, skip_space rest))"

definition header_due :: "nat \<Rightarrow> string \<Rightarrow> (int \<times> string) option" where
  "header_due format cursor =
     (case strto_int cursor of None \<Rightarrow> None
      | Some (v, rest) \<Rightarrow>
          if snd (clamp 64 v) \<or> (rest \<noteq> [] \<and> \<not> isspace (hd rest)) then None
          else Some (v, if rest = [] then [] else if 2 \<le> format then skip_space rest else tl rest))"

definition state_parse_header :: "nat \<Rightarrow> string \<Rightarrow> nat \<Rightarrow> header option" where
  "state_parse_header w line kind_size =
     (let (format, cursor) = header_format (skip_space line);
          kind = takeWhile (\<lambda>c. \<not> isspace c) cursor;
          cursor = dropWhile (\<lambda>c. \<not> isspace c) cursor
      in if kind = [] \<or> kind_size \<le> length kind \<or> cursor = [] then None
         else case header_id w format (skip_space cursor) of None \<Rightarrow> None
         | Some (restore_id, cursor) \<Rightarrow>
             (case header_due format cursor of None \<Rightarrow> None
              | Some (due, label) \<Rightarrow>
                  Some \<lparr>h_kind = kind, h_restore_id = restore_id, h_due = due, h_label = label, h_format = format\<rparr>))"

section \<open>Writing the schedule\<close>

definition saved_due :: "int \<Rightarrow> int \<Rightarrow> le_timer \<Rightarrow> int" where
  "saved_due now_ms now_epoch t =
     (if tm_kind t = LE_TIMER_ALARM then tm_due_epoch t
      else now_epoch + c_div (tm_due_monotonic_ms t - now_ms) 1000)"

definition kind_name :: "timer_kind \<Rightarrow> string" where
  "kind_name k = (if k = LE_TIMER_ALARM then ''alarm'' else ''countdown'')"

text \<open>The line of a timer; no line for a free or a ringing slot; nothing when a label does not fit.\<close>

definition save_line :: "int \<Rightarrow> int \<Rightarrow> le_timer \<Rightarrow> string option" where
  "save_line now_ms now_epoch t =
     (if tm_state t = LE_TIMER_STATE_FREE \<or> tm_state t = LE_TIMER_STATE_RINGING then Some []
      else case state_encode_label (6 + LE_TIMER_LABEL_MAX * 2) (tm_label t) of None \<Rightarrow> None
      | Some label \<Rightarrow>
          Some (''v3 '' @ kind_name (tm_kind t) @ '' '' @ nat_digits (unat (tm_id t)) @ '' '' @
                int_digits (saved_due now_ms now_epoch t) @ '' '' @ label @ [newline]))"

fun save_lines :: "int \<Rightarrow> int \<Rightarrow> le_timer list \<Rightarrow> string option" where
  "save_lines now_ms now_epoch [] = Some []"
| "save_lines now_ms now_epoch (t # ts) =
     (case save_line now_ms now_epoch t of None \<Rightarrow> None
      | Some line \<Rightarrow> map_option (\<lambda>rest. line @ rest) (save_lines now_ms now_epoch ts))"

section \<open>Reading the schedule\<close>

definition LINE_SIZE :: nat where "LINE_SIZE = 256"

definition fgets_lines :: "string \<Rightarrow> string list" where
  "fgets_lines = cut_lines LINE_SIZE"

definition strip_line_end :: "string \<Rightarrow> string" where
  "strip_line_end s = rev (dropWhile (\<lambda>c. c = newline \<or> c = char_of (13 :: nat)) (rev s))"

definition line_label :: "header \<Rightarrow> string option" where
  "line_label h =
     (let text = strip_line_end (h_label h) in
      if 2 \<le> h_format h then state_decode_label text LE_TIMER_LABEL_MAX
      else if LE_TIMER_LABEL_MAX \<le> length text then None else Some text)"

definition restore_line :: "header \<Rightarrow> string \<Rightarrow> int \<Rightarrow> int \<Rightarrow> le_timer_set \<Rightarrow> le_timer_set" where
  "restore_line h label now_ms now_epoch s =
     (let result =
        (if h_kind h = ''alarm'' then
           Some (if 3 \<le> h_format h
                 then le_timer_restore_alarm_with_id s (h_restore_id h) (h_due h) (Some label) now_epoch now_ms
                 else le_timer_restore_alarm s (h_due h) (Some label) now_epoch now_ms)
         else if h_kind h = ''countdown'' then
           Some (if 3 \<le> h_format h
                 then le_timer_restore_countdown_with_id s (h_restore_id h) (h_due h) (Some label) now_epoch now_ms
                 else le_timer_restore_countdown s (h_due h) (Some label) now_epoch now_ms)
         else None)
      in case result of None \<Rightarrow> s
         | Some (Inl _) \<Rightarrow> s\<lparr>ts_missed := ts_missed s + 1\<rparr>
         | Some (Inr (_, s')) \<Rightarrow> s')"

definition load_line :: "nat \<Rightarrow> int \<Rightarrow> int \<Rightarrow> string \<Rightarrow> le_timer_set \<Rightarrow> le_timer_set" where
  "load_line w now_ms now_epoch line s =
     (case state_parse_header w (takeWhile (\<lambda>c. c \<noteq> char_of (0 :: nat)) line) 16 of None \<Rightarrow> s
      | Some h \<Rightarrow> (case line_label h of None \<Rightarrow> s | Some label \<Rightarrow> restore_line h label now_ms now_epoch s))"

definition load_text :: "nat \<Rightarrow> int \<Rightarrow> int \<Rightarrow> string \<Rightarrow> le_timer_set \<Rightarrow> le_timer_set" where
  "load_text w now_ms now_epoch text s = fold (load_line w now_ms now_epoch) (fgets_lines text) s"

end
