(* ===== verification/Timerd_Restart.thy ===== *)
theory Timerd_Restart
  imports Timerd_State
begin

text \<open>
  What a restart of the timer daemon keeps: the text \<open>Timerd_State\<close> writes is read back, through
  the line cutter, the header parser and the label decoder, as the pending timers it was written
  from, under their ids.
\<close>

section \<open>Labels\<close>

definition no_nul :: "string \<Rightarrow> bool" where
  "no_nul s \<longleftrightarrow> char_of (0 :: nat) \<notin> set s"

lemma hex_digits_checked:
  "list_all (\<lambda>n. state_hex_value (hex_digit n) = Some n \<and> \<not> isspace (hex_digit n) \<and> 0 < ord (hex_digit n)) [0..<16]"
  by code_simp

lemma hex_digit_value: "n < 16 \<Longrightarrow> state_hex_value (hex_digit n) = Some n"
  using hex_digits_checked by (simp only: list_all_iff set_upt) simp

lemma hex_digit_text: "n < 16 \<Longrightarrow> \<not> isspace (hex_digit n) \<and> 0 < ord (hex_digit n)"
  using hex_digits_checked by (simp only: list_all_iff set_upt) simp

definition hex_text :: "string \<Rightarrow> string" where
  "hex_text l = concat (map (\<lambda>c. [hex_digit (ord c div 16), hex_digit (ord c mod 16)]) l)"

lemma ord_div_16: "ord c div 16 < 16"
  using ord_lt_256 [of c] by (simp add: less_mult_imp_div_less)

lemma hex_pairs_text: "hex_pairs (hex_text l) = Some l"
proof (induction l)
  case (Cons c l)
  have "ord c div 16 * 16 + ord c mod 16 = ord c" by simp
  then show ?case using Cons by (simp add: hex_text_def hex_digit_value ord_div_16)
qed (simp add: hex_text_def)

lemma hex_text_length [simp]: "length (hex_text l) = 2 * length l"
  by (induction l) (simp_all add: hex_text_def)

lemma hex_text_chars: "c \<in> set (hex_text l) \<Longrightarrow> \<not> isspace c \<and> 0 < ord c"
  by (induction l) (auto simp: hex_text_def hex_digit_text ord_div_16)

lemma encode_label:
  "length l < LE_TIMER_LABEL_MAX \<Longrightarrow>
     state_encode_label (6 + LE_TIMER_LABEL_MAX * 2) l = Some (''@hex:'' @ hex_text l)"
  by (simp add: state_encode_label_def hex_text_def)

lemma decode_label:
  assumes "length l < LE_TIMER_LABEL_MAX" and "no_nul l"
  shows "state_decode_label (''@hex:'' @ hex_text l) LE_TIMER_LABEL_MAX = Some l"
proof -
  have "takeWhile (\<lambda>c. c \<noteq> char_of (0 :: nat)) l = l"
    using assms(2) unfolding no_nul_def by (intro takeWhile_eq_all_conv [THEN iffD2]) metis
  then show ?thesis using assms(1) by (simp add: state_decode_label_def hex_pairs_text)
qed

section \<open>One line\<close>

lemma skip_space_stop: "s = [] \<or> \<not> isspace (hd s) \<Longrightarrow> skip_space s = s"
  by (cases s) (auto simp: skip_space_def)

lemma space_is_space: "isspace (CHR '' '')"
  by (simp add: isspace_def)

lemma skip_one_space: "\<not> isspace c \<Longrightarrow> skip_space (CHR '' '' # c # s) = c # s"
  by (simp add: skip_space_def space_is_space)

lemma int_digits_nat: "int_digits (int n) = nat_digits n"
  by (simp add: int_digits_def)

lemma nat_digits_first: "\<exists>c cs. nat_digits n = c # cs \<and> \<not> isspace c"
  using nat_digits_digits [of n] nat_digits_nonempty [of n] digit_not_space by (cases "nat_digits n") auto

lemma int_digits_first: "\<exists>c cs. int_digits i = c # cs \<and> \<not> isspace c"
  using nat_digits_first [of "nat i"] by (auto simp: int_digits_def isspace_def)

definition line_of :: "int \<Rightarrow> int \<Rightarrow> le_timer \<Rightarrow> string" where
  "line_of now_ms now_epoch t =
     ''v3 '' @ kind_name (tm_kind t) @ '' '' @ nat_digits (unat (tm_id t)) @ '' '' @
     int_digits (saved_due now_ms now_epoch t) @ '' '' @ (''@hex:'' @ hex_text (tm_label t)) @ [newline]"

definition due_fits :: "int \<Rightarrow> bool" where
  "due_fits d \<longleftrightarrow> - (2 ^ 63) \<le> d \<and> d < 2 ^ 63"

lemma kind_name_word: "takeWhile (\<lambda>c. \<not> isspace c) (kind_name k @ CHR '' '' # s) = kind_name k"
  "dropWhile (\<lambda>c. \<not> isspace c) (kind_name k @ CHR '' '' # s) = CHR '' '' # s"
  "kind_name k \<noteq> []" "length (kind_name k) < 16" "\<not> isspace (hd (kind_name k))"
  by (simp_all add: kind_name_def isspace_def)

lemma header_id_digits:
  assumes "32 \<le> w" and "i \<noteq> 0" and "\<not> isspace c"
  shows "header_id w 3 (nat_digits (unat i) @ CHR '' '' # c # s) = Some (i, c # s)"
proof -
  have "strto_int (nat_digits (unat i) @ CHR '' '' # c # s) = Some (int (unat i), CHR '' '' # c # s)"
    unfolding int_digits_nat [symmetric] by (rule strto_int_digits) (simp add: isdigit_def)
  moreover have "unat i < 2 ^ 32" using unsigned_less [of i] by simp
  moreover have "uint i < 2 ^ w"
  proof -
    have "uint i < 2 ^ 32" using unsigned_less [of i, where ?'a = int] by simp
    also have "(2 :: int) ^ 32 \<le> 2 ^ w" using assms(1) by (intro power_increasing) simp_all
    finally show ?thesis .
  qed
  ultimately have "strtoul w (nat_digits (unat i) @ CHR '' '' # c # s) = Some (unat i, False, CHR '' '' # c # s)"
    by (simp add: strtoul_def)
  moreover have "unat i \<noteq> 0" using assms(2) by (simp add: unat_eq_0)
  ultimately show ?thesis
    using assms(3) \<open>unat i < 2 ^ 32\<close> skip_one_space [of c s] by (simp add: header_id_def isspace_def)
qed

lemma header_due_digits:
  assumes "due_fits d" and "\<not> isspace c"
  shows "header_due 3 (int_digits d @ CHR '' '' # c # s) = Some (d, c # s)"
proof -
  have "strto_int (int_digits d @ CHR '' '' # c # s) = Some (d, CHR '' '' # c # s)"
    using strto_int_digits [of "CHR '' '' # c # s" d] by (simp add: isdigit_def)
  then show ?thesis
    using assms skip_one_space [of c s] by (simp add: header_due_def clamp_def due_fits_def isspace_def)
qed

lemma parse_saved_line:
  assumes "32 \<le> w" and "tm_id t \<noteq> 0" and "due_fits (saved_due now_ms now_epoch t)"
  shows "state_parse_header w (line_of now_ms now_epoch t) 16 =
    Some \<lparr>h_kind = kind_name (tm_kind t), h_restore_id = tm_id t, h_due = saved_due now_ms now_epoch t,
      h_label = ''@hex:'' @ hex_text (tm_label t) @ [newline], h_format = 3\<rparr>"
proof -
  let ?due = "saved_due now_ms now_epoch t"
  let ?label = "''@hex:'' @ hex_text (tm_label t) @ [newline]"
  let ?after_id = "int_digits ?due @ CHR '' '' # ?label"
  let ?after_kind = "nat_digits (unat (tm_id t)) @ CHR '' '' # ?after_id"
  let ?after_v3 = "kind_name (tm_kind t) @ CHR '' '' # ?after_kind"
  have line: "line_of now_ms now_epoch t = CHR ''v'' # CHR ''3'' # CHR '' '' # ?after_v3"
    by (simp add: line_of_def)
  have hd: "skip_space (CHR '' '' # ?after_v3) = ?after_v3"
    using kind_name_word(3,5) [of "tm_kind t"] skip_one_space [of "hd (kind_name (tm_kind t))"]
    by (cases "kind_name (tm_kind t)") simp_all
  have fmt: "header_format (skip_space (line_of now_ms now_epoch t)) = (3, ?after_v3)"
    unfolding line using hd by (simp add: header_format_def skip_space_def isspace_def digit_value_def)
  have id: "header_id w 3 (skip_space (CHR '' '' # ?after_kind)) = Some (tm_id t, ?after_id)"
  proof -
    obtain c s where c: "nat_digits (unat (tm_id t)) = c # s" "\<not> isspace c" using nat_digits_first by blast
    obtain d u where d: "int_digits ?due = d # u" "\<not> isspace d" using int_digits_first by blast
    have "skip_space (CHR '' '' # ?after_kind) = ?after_kind" using c skip_one_space by simp
    then show ?thesis using header_id_digits [OF assms(1,2) d(2), of "u @ CHR '' '' # ?label"] d by simp
  qed
  have due: "header_due 3 ?after_id = Some (?due, ?label)"
    using header_due_digits [OF assms(3), of "CHR ''@''" "''hex:'' @ hex_text (tm_label t) @ [newline]"]
    by (simp add: isspace_def)
  show ?thesis
    unfolding state_parse_header_def Let_def fmt prod.case kind_name_word id option.case due
    using kind_name_word(3,4) [of "tm_kind t"] by simp
qed

section \<open>The lines of the file\<close>

lemma fgets_line:
  "newline \<notin> set l \<Longrightarrow> length l + 1 < LINE_SIZE \<Longrightarrow> fgets_lines (l @ newline # rest) = (l @ [newline]) # fgets_lines rest"
  unfolding fgets_lines_def by (rule cut_line)

lemma kind_chars: "c \<in> set (kind_name k) \<Longrightarrow> \<not> isspace c \<and> 0 < ord c"
  by (auto simp: kind_name_def isspace_def split: if_splits)

lemma digit_chars: "isdigit c \<Longrightarrow> \<not> isspace c \<and> 0 < ord c"
  by (simp add: isdigit_def isspace_def)

lemma int_digits_chars: "c \<in> set (int_digits i) \<Longrightarrow> \<not> isspace c \<and> 0 < ord c"
  using nat_digits_digits digit_chars by (auto simp: int_digits_def isspace_def split: if_splits)

lemma newline_space: "isspace newline"
  by (simp add: newline_def isspace_def)

lemma int_digits_length64: "due_fits d \<Longrightarrow> length (int_digits d) \<le> 20"
proof -
  assume d: "due_fits d"
  have "nat (- d) < 10 ^ Suc 18" if "d < 0" using d that by (simp add: due_fits_def nat_less_iff)
  moreover have "nat d < 10 ^ Suc 18" if "\<not> d < 0" using d that by (simp add: due_fits_def nat_less_iff)
  ultimately show ?thesis
    using nat_digits_length [of "nat (- d)" 18] nat_digits_length [of "nat d" 18]
    by (auto simp: int_digits_def)
qed

definition good_chars :: "string \<Rightarrow> bool" where
  "good_chars s \<longleftrightarrow> (\<forall>c\<in>set s. c \<noteq> newline \<and> 0 < ord c)"

lemma good_append: "good_chars (s @ t) \<longleftrightarrow> good_chars s \<and> good_chars t"
  by (auto simp: good_chars_def)

lemma good_text: "(\<And>c. c \<in> set s \<Longrightarrow> \<not> isspace c \<and> 0 < ord c) \<Longrightarrow> good_chars s"
  using newline_space by (auto simp: good_chars_def)

lemma good_nonzero: "good_chars s \<Longrightarrow> \<forall>c\<in>set s. c \<noteq> char_of (0 :: nat)"
  by (auto simp: good_chars_def)

lemma good_literals: "good_chars ''v3 ''" "good_chars '' ''" "good_chars ''@hex:''"
  by (simp_all add: good_chars_def newline_def char_eq_ord)

lemma good_parts: "good_chars (kind_name k)" "good_chars (nat_digits n)" "good_chars (int_digits i)"
  "good_chars (hex_text l)"
  using kind_chars nat_digits_digits digit_chars int_digits_chars hex_text_chars
  by (blast intro: good_text)+

lemma line_body:
  assumes "length (tm_label t) < LE_TIMER_LABEL_MAX" and "due_fits (saved_due now_ms now_epoch t)"
  obtains l where "line_of now_ms now_epoch t = l @ [newline]" "newline \<notin> set l" "length l + 1 < LINE_SIZE"
    "\<forall>c\<in>set (line_of now_ms now_epoch t). c \<noteq> char_of (0 :: nat)"
proof -
  let ?due = "int_digits (saved_due now_ms now_epoch t)"
  let ?l = "''v3 '' @ kind_name (tm_kind t) @ '' '' @ nat_digits (unat (tm_id t)) @ '' '' @ ?due @ '' '' @
     (''@hex:'' @ hex_text (tm_label t))"
  have line: "line_of now_ms now_epoch t = ?l @ [newline]" by (simp add: line_of_def)
  have "unat (tm_id t) < 10 ^ Suc 9" using unsigned_less [of "tm_id t", where ?'a = nat] by simp
  then have "length (nat_digits (unat (tm_id t))) \<le> 10" using nat_digits_length by fastforce
  moreover have "length (kind_name (tm_kind t)) \<le> 9" by (simp add: kind_name_def)
  moreover have "length ?due \<le> 20" by (rule int_digits_length64 [OF assms(2)])
  ultimately have "length ?l + 1 < LINE_SIZE" using assms(1) by (simp add: LE_TIMER_LABEL_MAX_def LINE_SIZE_def)
  moreover have "good_chars ?l"
    unfolding good_append by (intro conjI good_literals good_parts)
  moreover have "\<forall>c\<in>set (?l @ [newline]). c \<noteq> char_of (0 :: nat)"
    using good_nonzero [OF \<open>good_chars ?l\<close>] by (simp only: set_append ball_Un) (simp add: newline_def char_eq_ord)
  ultimately show ?thesis using line by (intro that [of ?l]) (auto simp only: good_chars_def)
qed

lemma strip_newline:
  assumes "\<not> isspace (last s)" and "s \<noteq> []"
  shows "strip_line_end (s @ [newline]) = s"
proof -
  obtain u c where s: "s = u @ [c]" using assms(2) that by (cases s rule: rev_cases) auto
  then have "c \<noteq> newline" "c \<noteq> char_of (13 :: nat)"
    using assms(1) newline_space by (auto simp: isspace_def)
  then show ?thesis by (simp add: strip_line_end_def s)
qed

lemma label_last: "\<not> isspace (last (''@hex:'' @ hex_text l)) \<and> ''@hex:'' @ hex_text l \<noteq> []"
proof (cases "hex_text l = []")
  case False
  then show ?thesis using hex_text_chars [of "last (hex_text l)" l] by simp
qed (simp add: isspace_def)

text \<open>A saved line brings its timer back, or is counted as missed.\<close>

definition restored :: "int \<Rightarrow> int \<Rightarrow> int \<Rightarrow> int \<Rightarrow> le_timer \<Rightarrow> le_timer" where
  "restored now_ms now_epoch later_ms later_epoch t =
     timer_zero\<lparr>tm_id := tm_id t, tm_kind := tm_kind t, tm_state := LE_TIMER_STATE_PENDING,
       tm_due_epoch := saved_due now_ms now_epoch t,
       tm_due_monotonic_ms := later_ms + (saved_due now_ms now_epoch t - later_epoch) * 1000,
       tm_label := tm_label t\<rparr>"

definition in_time :: "int \<Rightarrow> int \<Rightarrow> int \<Rightarrow> le_timer \<Rightarrow> bool" where
  "in_time now_ms now_epoch later_epoch t \<longleftrightarrow>
     later_epoch - LE_TIMER_MISS_GRACE_SECONDS \<le> saved_due now_ms now_epoch t \<and>
     (tm_kind t = LE_TIMER_COUNTDOWN \<longrightarrow> saved_due now_ms now_epoch t \<le> later_epoch + LE_TIMER_MAX_SECONDS)"

definition saveable :: "int \<Rightarrow> int \<Rightarrow> le_timer \<Rightarrow> bool" where
  "saveable now_ms now_epoch t \<longleftrightarrow> length (tm_label t) < LE_TIMER_LABEL_MAX \<and> no_nul (tm_label t) \<and>
     tm_id t \<noteq> 0 \<and> due_fits (saved_due now_ms now_epoch t)"

lemma load_saved_line:
  assumes "32 \<le> w" and "saveable now_ms now_epoch t"
  shows "load_line w later_ms later_epoch (line_of now_ms now_epoch t) s =
    (case restore_timer s (tm_kind t) (tm_id t) (saved_due now_ms now_epoch t) (Some (tm_label t)) later_epoch later_ms of
       Inl _ \<Rightarrow> s\<lparr>ts_missed := ts_missed s + 1\<rparr> | Inr (_, s') \<Rightarrow> s')"
proof -
  note ok = assms(2) [unfolded saveable_def]
  obtain l where "\<forall>c\<in>set (line_of now_ms now_epoch t). c \<noteq> char_of (0 :: nat)"
    using ok line_body by blast
  then have line: "takeWhile (\<lambda>c. c \<noteq> char_of (0 :: nat)) (line_of now_ms now_epoch t) = line_of now_ms now_epoch t"
    by (intro takeWhile_eq_all_conv [THEN iffD2])
  have label: "line_label \<lparr>h_kind = k, h_restore_id = i, h_due = d,
      h_label = ''@hex:'' @ hex_text (tm_label t) @ [newline], h_format = 3\<rparr> = Some (tm_label t)" for k i d
    using strip_newline [of "''@hex:'' @ hex_text (tm_label t)"] label_last [of "tm_label t"]
      decode_label [of "tm_label t"] ok by (simp add: line_label_def)
  have parse: "state_parse_header w (line_of now_ms now_epoch t) 16 =
    Some \<lparr>h_kind = kind_name (tm_kind t), h_restore_id = tm_id t, h_due = saved_due now_ms now_epoch t,
      h_label = ''@hex:'' @ hex_text (tm_label t) @ [newline], h_format = 3\<rparr>"
    using parse_saved_line assms(1) ok by blast
  show ?thesis
    unfolding load_line_def line parse option.case label
    by (cases "tm_kind t")
      (simp_all add: restore_line_def kind_name_def le_timer_restore_alarm_with_id_def
        le_timer_restore_countdown_with_id_def)
qed

section \<open>The whole file\<close>

abbreviation is_pending :: "le_timer \<Rightarrow> bool" where
  "is_pending t \<equiv> tm_state t = LE_TIMER_STATE_PENDING"

lemma save_pending: "saveable now_ms now_epoch t \<Longrightarrow> is_pending t \<Longrightarrow>
    save_line now_ms now_epoch t = Some (line_of now_ms now_epoch t)"
  by (simp add: save_line_def saveable_def encode_label line_of_def)

lemma save_all:
  assumes "\<forall>t\<in>set ts. is_pending t \<longrightarrow> saveable now_ms now_epoch t"
  shows "save_lines now_ms now_epoch ts = Some (concat (map (line_of now_ms now_epoch) (filter is_pending ts)))"
  using assms
proof (induction ts)
  case (Cons t ts)
  show ?case
  proof (cases "is_pending t")
    case True
    then show ?thesis using Cons save_pending by simp
  next
    case False
    then have "save_line now_ms now_epoch t = Some []" by (cases "tm_state t") (simp_all add: save_line_def)
    then show ?thesis using Cons False by simp
  qed
qed simp

lemma cut_all:
  "\<forall>t\<in>set ts. saveable now_ms now_epoch t \<Longrightarrow>
   fgets_lines (concat (map (line_of now_ms now_epoch) ts)) = map (line_of now_ms now_epoch) ts"
proof (induction ts)
  case (Cons t ts)
  then obtain l where "line_of now_ms now_epoch t = l @ [newline]" "newline \<notin> set l" "length l + 1 < LINE_SIZE"
    using line_body [of t now_ms now_epoch] by (metis list.set_intros(1) saveable_def)
  then show ?case using Cons fgets_line [of l] by simp
qed (simp add: fgets_lines_def)

definition slots :: "le_timer list \<Rightarrow> le_timer list" where
  "slots ts = ts @ replicate (LE_TIMER_MAX - length ts) timer_zero"

lemma scan_slots: "\<forall>t\<in>set ts. \<not> free t \<Longrightarrow>
    scan_from (\<lambda>t. free t) i (ts @ timer_zero # u) = Some (i + length ts)"
  by (induction ts arbitrary: i) simp_all

lemma put_slots: "length ts < LE_TIMER_MAX \<Longrightarrow> (slots ts)[length ts := t] = slots (ts @ [t])"
  by (cases "LE_TIMER_MAX - length ts") (auto simp: slots_def Suc_diff_Suc list_update_append)

lemma restore_into_slots:
  assumes "ts_timers s = slots ts" and "length ts < LE_TIMER_MAX" and "\<forall>u\<in>set ts. is_pending u \<and> tm_id u \<noteq> tm_id t"
    and "saveable now_ms now_epoch t" and "LE_TIMER_CLOCK_VALID_EPOCH \<le> later_epoch"
  shows "case restore_timer s (tm_kind t) (tm_id t) (saved_due now_ms now_epoch t) (Some (tm_label t)) later_epoch later_ms of
      Inl _ \<Rightarrow> \<not> in_time now_ms now_epoch later_epoch t
    | Inr (_, s') \<Rightarrow> in_time now_ms now_epoch later_epoch t \<and> ts_missed s' = ts_missed s \<and>
        ts_timers s' = slots (ts @ [restored now_ms now_epoch later_ms later_epoch t])"
proof -
  have nf: "\<forall>u\<in>set ts. \<not> free u" using assms(3) by auto
  obtain u where u: "slots ts = ts @ timer_zero # u"
    using assms(2) by (cases "LE_TIMER_MAX - length ts") (auto simp: slots_def)
  have slot: "free_slot s = Some (length ts)"
    unfolding free_slot_def assms(1) u using scan_slots [OF nf, of 0] by simp
  have find: "le_timer_find s (tm_id t) = None"
    unfolding find_None assms(1) using assms(3) by (auto simp: slots_def)
  have label: "set_label (Some (tm_label t)) = tm_label t"
    using assms(4) by (simp add: saveable_def set_label_def LE_TIMER_LABEL_MAX_def)
  have i: "tm_id t \<noteq> 0" using assms(4) by (simp add: saveable_def)
  show ?thesis
    unfolding restore_timer_def Let_def find slot label
    using assms(1,5) i put_slots [OF assms(2)]
    by (auto simp: in_time_def put_timer_def restored_def restore_ids_def split: if_splits)
qed

lemma load_all:
  assumes "\<forall>t\<in>set ts. saveable now_ms now_epoch t" and "distinct (map tm_id (ts0 @ ts))"
    and "length ts0 + length ts \<le> LE_TIMER_MAX" and "\<forall>u\<in>set ts0. is_pending u"
    and "32 \<le> w" and "LE_TIMER_CLOCK_VALID_EPOCH \<le> later_epoch" and "ts_timers s = slots ts0"
  shows "let s' = fold (load_line w later_ms later_epoch) (map (line_of now_ms now_epoch) ts) s in
    ts_timers s' = slots (ts0 @ map (restored now_ms now_epoch later_ms later_epoch)
      (filter (in_time now_ms now_epoch later_epoch) ts)) \<and>
    ts_missed s' = ts_missed s + of_nat (length (filter (\<lambda>t. \<not> in_time now_ms now_epoch later_epoch t) ts))"
  using assms
proof (induction ts arbitrary: ts0 s)
  case (Cons t ts)
  let ?r = "restored now_ms now_epoch later_ms later_epoch t"
  let ?s = "load_line w later_ms later_epoch (line_of now_ms now_epoch t) s"
  have t: "saveable now_ms now_epoch t" and id: "tm_id t \<notin> tm_id ` set ts0"
    using Cons.prems(1,2) by simp_all
  have fresh: "\<forall>u\<in>set ts0. is_pending u \<and> tm_id u \<noteq> tm_id t"
    using Cons.prems(4) id by (metis imageI)
  note res = restore_into_slots [OF Cons.prems(7) _ fresh t Cons.prems(6), where later_ms = later_ms]
  have r: "tm_id ?r = tm_id t" "is_pending ?r" by (simp_all add: restored_def)
  show ?case
  proof (cases "in_time now_ms now_epoch later_epoch t")
    case True
    then have s: "ts_timers ?s = slots (ts0 @ [?r])" "ts_missed ?s = ts_missed s"
      using res Cons.prems(3) unfolding load_saved_line [OF Cons.prems(5) t]
      by (auto split: sum.splits)
    have "distinct (map tm_id ((ts0 @ [?r]) @ ts))" using Cons.prems(2) r by simp
    then show ?thesis
      using Cons.IH [of "ts0 @ [?r]" ?s] Cons.prems r s True by (simp add: Let_def)
  next
    case False
    then have s: "ts_timers ?s = slots ts0" "ts_missed ?s = ts_missed s + 1"
      using res Cons.prems(3,7) unfolding load_saved_line [OF Cons.prems(5) t]
      by (auto split: sum.splits)
    then show ?thesis
      using Cons.IH [of ts0 ?s] Cons.prems False by (simp add: Let_def)
  qed
qed simp

lemma pending_ids: "ids_ok s \<Longrightarrow> distinct (map tm_id (filter is_pending (ts_timers s)))"
  by (rule distinct_live_ids) auto

text \<open>The text of a schedule brings back its pending timers that are still in time, and only them.\<close>

lemma saved_text_restores:
  assumes "timers_wf s" and "ids_ok s" and "32 \<le> w" and "LE_TIMER_CLOCK_VALID_EPOCH \<le> later_epoch"
    and "\<forall>t\<in>set (ts_timers s). is_pending t \<longrightarrow> saveable now_ms now_epoch t"
  shows "case save_lines now_ms now_epoch (ts_timers s) of None \<Rightarrow> False
    | Some file \<Rightarrow>
        let s' = load_text w later_ms later_epoch file le_timer_set_init;
            kept = filter (in_time now_ms now_epoch later_epoch) (filter is_pending (ts_timers s));
            lost = filter (\<lambda>t. \<not> in_time now_ms now_epoch later_epoch t) (filter is_pending (ts_timers s))
        in ts_timers s' = map (restored now_ms now_epoch later_ms later_epoch) kept @
             replicate (LE_TIMER_MAX - length kept) timer_zero \<and> ts_missed s' = of_nat (length lost)"
proof -
  let ?ts = "filter is_pending (ts_timers s)"
  have ok: "\<forall>t\<in>set ?ts. saveable now_ms now_epoch t" using assms(5) by simp
  have n: "length [] + length ?ts \<le> LE_TIMER_MAX"
    using assms(1) length_filter_le [of is_pending "ts_timers s"] by (simp add: timers_wf_def)
  have init: "ts_timers le_timer_set_init = slots []" "ts_missed le_timer_set_init = 0"
    by (simp_all add: le_timer_set_init_def slots_def)
  have ids: "distinct (map tm_id ([] @ ?ts))" using pending_ids [OF assms(2)] by simp
  note all = load_all [OF ok ids n _ assms(3,4) init(1), where later_ms = later_ms]
  show ?thesis
    unfolding save_all [OF assms(5)] option.case load_text_def cut_all [OF ok]
    using all init(2) by (simp add: Let_def slots_def)
qed

text \<open>A countdown and an alarm, read back ten seconds later.\<close>

definition two_timers :: le_timer_set where
  "two_timers = le_timer_set_init\<lparr>ts_next_id := 3, ts_timers :=
     [timer_zero\<lparr>tm_id := 1, tm_state := LE_TIMER_STATE_PENDING, tm_due_monotonic_ms := 905000, tm_label := ''tea''\<rparr>,
      timer_zero\<lparr>tm_id := 2, tm_kind := LE_TIMER_ALARM, tm_state := LE_TIMER_STATE_PENDING,
        tm_due_epoch := 1600000100\<rparr>] @ replicate 14 timer_zero\<rparr>"

lemma two_timers_ok: "ids_ok two_timers" "timers_wf two_timers"
  "\<forall>t\<in>set (ts_timers two_timers). is_pending t \<longrightarrow> saveable 5000 1600000000 t"
  by (auto simp: ids_ok_def two_timers_def le_timer_set_init_def timer_zero_def nth_Cons timers_wf_def timer_limits
      saveable_def saved_due_def due_fits_def no_nul_def char_eq_ord c_div_def split: nat.splits)

text \<open>
  A countdown added before the clock is set costs a saved timer.  The schedule is read only once
  the clock is valid, but new ids start at one at once: the saved timer of id one is then refused as a
  duplicate, whatever its due time, and counted as one that came due while the device was down.\<close>

theorem timerd_early_countdown_drops_saved:
  assumes "le_timer_add_countdown le_timer_set_init seconds label early_ms = Inr (i, s)"
    and "32 \<le> w" and "saveable now_ms now_epoch t" and "tm_id t = 1"
  shows "load_text w later_ms later_epoch (line_of now_ms now_epoch t) s = s\<lparr>ts_missed := 1\<rparr>"
proof -
  have cut: "fgets_lines (line_of now_ms now_epoch t) = [line_of now_ms now_epoch t]"
    using cut_all [of "[t]" now_ms now_epoch] assms(3) by simp
  have slot: "free_slot le_timer_set_init = Some 0"
    by (simp add: free_slot_def le_timer_set_init_def LE_TIMER_MAX_def numeral_eq_Suc)
  have found: "le_timer_find s 1 \<noteq> None" and missed: "ts_missed s = 0"
    using assms(1) unfolding le_timer_add_countdown_def slot find_None
    by (auto simp: put_timer_def le_timer_set_init_def Let_def LE_TIMER_MAX_def split: if_splits
      intro!: bexI [OF _ set_update_memI])
  have "\<exists>e. restore_timer s k 1 due l later_epoch later_ms = Inl e" for k due l
    using found by (auto simp: restore_timer_def Let_def)
  then obtain e where "restore_timer s (tm_kind t) (tm_id t) (saved_due now_ms now_epoch t) (Some (tm_label t))
      later_epoch later_ms = Inl e"
    unfolding assms(4) by blast
  then show ?thesis
    unfolding load_text_def cut using load_saved_line [OF assms(2,3)] missed by simp
qed

theorem timerd_early_countdown_drops_saved_witness:
  "case le_timer_add_countdown le_timer_set_init 60 (Some ''egg'') 5000 of Inl _ \<Rightarrow> False
    | Inr (_, s) \<Rightarrow> load_text 32 9000 1600000000 (line_of 0 1600000000 (hd (ts_timers two_timers))) s =
        s\<lparr>ts_missed := 1\<rparr>"
proof -
  obtain i s where add: "le_timer_add_countdown le_timer_set_init 60 (Some ''egg'') 5000 = Inr (i, s)"
    by (auto simp: le_timer_add_countdown_def timer_limits free_slot_def le_timer_set_init_def numeral_eq_Suc Let_def)
  have "load_text 32 9000 1600000000 (line_of 0 1600000000 (hd (ts_timers two_timers))) s = s\<lparr>ts_missed := 1\<rparr>"
    by (rule timerd_early_countdown_drops_saved [OF add])
      (simp_all add: two_timers_def saveable_def saved_due_def due_fits_def no_nul_def char_eq_ord timer_zero_def
        c_div_def timer_limits)
  then show ?thesis using add by simp
qed

end
