(* ===== verification/Timerd_Files.thy ===== *)
theory Timerd_Files
  imports Timerd_Restart
begin

text \<open>
  How the timer daemon replaces its schedule on disk (adapter/timerd.c): the new text is written
  beside the old one, the old file becomes the backup through a hard link, and a rename commits.

  A disk gives the four names of the daemon their files and the files their bytes, so that a hard
  link shares its bytes.  Which system calls fail, and how much of the text reaches the file before
  the writing stops, are arguments.  A save returns, beside its result, the disk after each of its
  calls, in order: where the daemon may be killed.
\<close>

section \<open>The disk\<close>

datatype file_name = State_File | Temporary | Backup | Backup_Temporary

record disk =
  inode :: "file_name \<Rightarrow> nat option"
  bytes :: "nat \<Rightarrow> string"
  unused :: nat

definition file_text :: "disk \<Rightarrow> file_name \<Rightarrow> string option" where
  "file_text d n = map_option (bytes d) (inode d n)"

definition open_truncated :: "file_name \<Rightarrow> disk \<Rightarrow> disk" where
  "open_truncated n d =
     (case inode d n of
        Some i \<Rightarrow> d\<lparr>bytes := (bytes d)(i := [])\<rparr>
      | None \<Rightarrow> d\<lparr>inode := (inode d)(n \<mapsto> unused d), bytes := (bytes d)(unused d := []), unused := unused d + 1\<rparr>)"

definition write_file :: "file_name \<Rightarrow> string \<Rightarrow> disk \<Rightarrow> disk" where
  "write_file n s d = (case inode d n of None \<Rightarrow> d | Some i \<Rightarrow> d\<lparr>bytes := (bytes d)(i := s)\<rparr>)"

definition unlink_file :: "file_name \<Rightarrow> disk \<Rightarrow> disk" where
  "unlink_file n d = d\<lparr>inode := (inode d)(n := None)\<rparr>"

text \<open>A link to a name that exists fails; a rename between two names of one file does nothing.\<close>

definition link_file :: "file_name \<Rightarrow> file_name \<Rightarrow> disk \<Rightarrow> disk option" where
  "link_file a b d =
     (if inode d a = None \<or> inode d b \<noteq> None then None else Some (d\<lparr>inode := (inode d)(b := inode d a)\<rparr>))"

definition rename_file :: "file_name \<Rightarrow> file_name \<Rightarrow> disk \<Rightarrow> disk option" where
  "rename_file a b d =
     (if inode d a = None then None
      else if inode d a = inode d b then Some d
      else Some (d\<lparr>inode := (inode d)(b := inode d a, a := None)\<rparr>))"

section \<open>Saving\<close>

datatype file_call = Open_State | Open_Temporary | Mode_Temporary | Stream_Temporary | Write_Temporary
  | Flush_Temporary | Close_Temporary | Access_State | Unlink_Backup_Temporary | Mode_State | Link_State
  | Rename_Backup | Sync_Backup | Rename_State | Mode_New | Sync_New | Unlink_Temporary

datatype state_save_result = STATE_SAVE_FAILED | STATE_SAVE_OK | STATE_SAVE_COMMITTED_DURABILITY_FAILED

definition drop_temporary :: "(file_call \<Rightarrow> bool) \<Rightarrow> disk \<Rightarrow> disk" where
  "drop_temporary fails d = (if fails Unlink_Temporary then d else unlink_file Temporary d)"

definition drop_backup_temporary :: "(file_call \<Rightarrow> bool) \<Rightarrow> disk \<Rightarrow> disk" where
  "drop_backup_temporary fails d =
     (if fails Unlink_Backup_Temporary then d else unlink_file Backup_Temporary d)"

text \<open>The new text beside the old file: the disks passed, and whether it is all there.\<close>

definition write_temporary :: "(file_call \<Rightarrow> bool) \<Rightarrow> string \<Rightarrow> string option \<Rightarrow> disk \<Rightarrow> bool \<times> disk list" where
  "write_temporary fails partial text d =
     (let opened = open_truncated Temporary d;
          some = write_file Temporary partial opened;
          all = write_file Temporary (the text) opened
      in if fails Open_Temporary then (False, [])
         else if fails Mode_Temporary then (False, [opened])
         else if fails Stream_Temporary then (False, [opened, drop_temporary fails opened])
         else if text = None \<or> fails Write_Temporary \<or> fails Flush_Temporary
           then (False, [opened, some, drop_temporary fails some])
         else if fails Close_Temporary then (False, [opened, some, all, drop_temporary fails all])
         else (True, [opened, some, all]))"

text \<open>The old file as the backup: the disks passed, and whether the save may go on.\<close>

definition preserve_old :: "(file_call \<Rightarrow> bool) \<Rightarrow> disk \<Rightarrow> bool \<times> disk list" where
  "preserve_old fails d =
     (let clean = drop_backup_temporary fails d;
          stop = (\<lambda>d. let d1 = drop_backup_temporary fails d in [d, d1, drop_temporary fails d1])
      in if fails Mode_State \<or> fails Link_State then (False, stop clean)
         else case link_file State_File Backup_Temporary clean of
           None \<Rightarrow> (False, stop clean)
         | Some linked \<Rightarrow>
             if fails Rename_Backup then (False, clean # stop linked)
             else (case rename_file Backup_Temporary Backup linked of
                 None \<Rightarrow> (False, clean # stop linked)
               | Some kept \<Rightarrow>
                   if fails Sync_Backup then (False, [clean, linked, kept, drop_temporary fails kept])
                   else (True, [clean, linked, kept])))"

definition commit_new :: "(file_call \<Rightarrow> bool) \<Rightarrow> disk \<Rightarrow> state_save_result \<times> disk list" where
  "commit_new fails d =
     (case (if fails Rename_State then None else rename_file Temporary State_File d) of
        None \<Rightarrow> (STATE_SAVE_FAILED, [drop_temporary fails d])
      | Some d1 \<Rightarrow>
          (if fails Mode_New \<or> fails Sync_New then STATE_SAVE_COMMITTED_DURABILITY_FAILED else STATE_SAVE_OK, [d1]))"

definition replace_state ::
  "(file_call \<Rightarrow> bool) \<Rightarrow> string \<Rightarrow> string option \<Rightarrow> bool \<Rightarrow> disk \<Rightarrow> state_save_result \<times> disk list" where
  "replace_state fails partial text commit_pending d =
     (let (written, ds) = write_temporary fails partial text d; d1 = last (d # ds) in
      if \<not> written then (STATE_SAVE_FAILED, ds)
      else
        let (kept, es) =
              (if \<not> commit_pending \<and> inode d1 State_File \<noteq> None \<and> \<not> fails Access_State
               then preserve_old fails d1 else (True, []));
            d2 = last (d1 # es)
        in if \<not> kept then (STATE_SAVE_FAILED, ds @ es)
           else let (result, fs) = commit_new fails d2 in (result, ds @ es @ fs))"

section \<open>The daemon's schedule and its file\<close>

record timerd =
  td_timers :: le_timer_set
  td_dirty :: bool
  td_state_loaded :: bool
  td_commit_pending :: bool
  td_disk :: disk

definition state_load_at :: "(file_call \<Rightarrow> bool) \<Rightarrow> nat \<Rightarrow> int \<Rightarrow> int \<Rightarrow> timerd \<Rightarrow> bool \<times> timerd" where
  "state_load_at fails w now_ms now_epoch c =
     (if now_epoch < LE_TIMER_CLOCK_VALID_EPOCH then (False, c)
      else case (if fails Open_State then None else file_text (td_disk c) State_File) of
        None \<Rightarrow> (True, c)
      | Some text \<Rightarrow> (True, c\<lparr>td_timers := load_text w now_ms now_epoch text (td_timers c)\<rparr>))"

definition state_save_at ::
  "(file_call \<Rightarrow> bool) \<Rightarrow> string \<Rightarrow> nat \<Rightarrow> int \<Rightarrow> int \<Rightarrow> timerd \<Rightarrow> state_save_result \<times> timerd \<times> disk list" where
  "state_save_at fails partial w now_ms now_epoch c =
     (let (loaded, c1) =
            (if td_state_loaded c then (True, c)
             else let (ok, c1) = state_load_at fails w now_ms now_epoch c
               in (ok, if ok then c1\<lparr>td_state_loaded := True\<rparr> else c1))
      in if \<not> loaded \<or> now_epoch < LE_TIMER_CLOCK_VALID_EPOCH then (STATE_SAVE_FAILED, c1, [])
         else let text = save_lines now_ms now_epoch (ts_timers (td_timers c1));
                  (result, ds) = replace_state fails partial text (td_commit_pending c1) (td_disk c1)
           in (result,
               c1\<lparr>td_disk := last (td_disk c1 # ds),
                 td_commit_pending :=
                   (case result of STATE_SAVE_FAILED \<Rightarrow> td_commit_pending c1
                    | STATE_SAVE_OK \<Rightarrow> False | STATE_SAVE_COMMITTED_DURABILITY_FAILED \<Rightarrow> True)\<rparr>, ds))"

definition save_if_dirty ::
  "(file_call \<Rightarrow> bool) \<Rightarrow> string \<Rightarrow> nat \<Rightarrow> int \<Rightarrow> int \<Rightarrow> timerd \<Rightarrow> timerd" where
  "save_if_dirty fails partial w now_ms now_epoch c =
     (if \<not> td_dirty c then c
      else let (result, c1, _) = state_save_at fails partial w now_ms now_epoch c
        in case result of STATE_SAVE_OK \<Rightarrow> c1\<lparr>td_dirty := False\<rparr>
          | STATE_SAVE_COMMITTED_DURABILITY_FAILED \<Rightarrow> c1\<lparr>td_commit_pending := True\<rparr>
          | STATE_SAVE_FAILED \<Rightarrow> c1)"

section \<open>What the calls keep\<close>

text \<open>Every file has its own bytes, and the temporary name shares its file with no other.\<close>

definition disk_ok :: "disk \<Rightarrow> bool" where
  "disk_ok d \<longleftrightarrow> (\<forall>n i. inode d n = Some i \<longrightarrow> i < unused d) \<and>
     (\<forall>n. n \<noteq> Temporary \<longrightarrow> inode d Temporary \<noteq> None \<longrightarrow> inode d n \<noteq> inode d Temporary)"

text \<open>What a reader of the schedule and of its backup sees.\<close>

definition seen :: "disk \<Rightarrow> string option \<times> string option" where
  "seen d = (file_text d State_File, file_text d Backup)"

lemma other_text: "disk_ok d \<Longrightarrow> inode d Temporary = Some i \<Longrightarrow> n \<noteq> Temporary \<Longrightarrow>
    file_text (d\<lparr>bytes := (bytes d)(i := s)\<rparr>) n = file_text d n"
  by (cases "inode d n") (auto simp: disk_ok_def file_text_def)

lemma ok_bytes [simp]: "disk_ok (d\<lparr>bytes := b\<rparr>) = disk_ok d"
  by (simp add: disk_ok_def)

lemma open_keeps:
  assumes "disk_ok d"
  shows "disk_ok (open_truncated Temporary d) \<and> seen (open_truncated Temporary d) = seen d \<and>
    inode (open_truncated Temporary d) Temporary \<noteq> None"
proof (cases "inode d Temporary")
  case None
  have other: "inode d n \<noteq> Some (unused d)" for n using assms by (auto simp: disk_ok_def)
  have same: "file_text (open_truncated Temporary d) n = file_text d n" if "n \<noteq> Temporary" for n
    using that None other [of n] by (cases "inode d n") (simp_all add: open_truncated_def file_text_def)
  have "disk_ok (open_truncated Temporary d)"
    using assms None other unfolding disk_ok_def open_truncated_def by (auto intro: less_SucI)
  then show ?thesis using same None by (simp add: seen_def open_truncated_def)
next
  case (Some i)
  then show ?thesis using assms other_text [OF assms Some] by (simp add: open_truncated_def seen_def)
qed

lemma write_keeps:
  "disk_ok d \<Longrightarrow> disk_ok (write_file Temporary s d) \<and> seen (write_file Temporary s d) = seen d \<and>
    inode (write_file Temporary s d) = inode d"
  using other_text by (auto simp: write_file_def seen_def split: option.split)

lemma unlink_keeps: "n = Temporary \<or> n = Backup_Temporary \<Longrightarrow> disk_ok d \<Longrightarrow>
    disk_ok (unlink_file n d) \<and> seen (unlink_file n d) = seen d \<and>
    (\<forall>m. m \<noteq> n \<longrightarrow> file_text (unlink_file n d) m = file_text d m)"
  by (auto simp: unlink_file_def disk_ok_def seen_def file_text_def)

lemma drop_keeps:
  "disk_ok d \<Longrightarrow> disk_ok (drop_temporary fails d) \<and> seen (drop_temporary fails d) = seen d"
  "disk_ok d \<Longrightarrow> disk_ok (drop_backup_temporary fails d) \<and> seen (drop_backup_temporary fails d) = seen d \<and>
     file_text (drop_backup_temporary fails d) Temporary = file_text d Temporary"
  using unlink_keeps by (simp_all add: drop_temporary_def drop_backup_temporary_def)

lemma link_keeps:
  assumes "disk_ok d" and "link_file State_File Backup_Temporary d = Some e"
  shows "disk_ok e \<and> seen e = seen d \<and> file_text e Backup_Temporary = file_text d State_File \<and>
    file_text e Temporary = file_text d Temporary"
  using assms by (auto simp: link_file_def disk_ok_def seen_def file_text_def split: if_splits)

lemma rename_backup_keeps:
  assumes "disk_ok d" and "rename_file Backup_Temporary Backup d = Some e"
  shows "disk_ok e \<and> seen e = (file_text d State_File, file_text d Backup_Temporary) \<and>
    file_text e Temporary = file_text d Temporary"
  using assms by (auto simp: rename_file_def disk_ok_def seen_def file_text_def split: if_splits)

lemma rename_state_keeps:
  assumes "disk_ok d" and "rename_file Temporary State_File d = Some e"
  shows "disk_ok e \<and> seen e = (file_text d Temporary, file_text d Backup)"
  using assms by (auto simp: rename_file_def disk_ok_def seen_def file_text_def split: if_splits)

section \<open>One save\<close>

text \<open>What a list of disks shows: the last of them, and that all of them show one of some views.\<close>

definition shows_only :: "(string option \<times> string option) set \<Rightarrow> disk list \<Rightarrow> bool" where
  "shows_only V ds \<longleftrightarrow> (\<forall>d\<in>set ds. disk_ok d \<and> seen d \<in> V)"

lemma shows_simps [simp]:
  "shows_only V []" "shows_only V (d # ds) \<longleftrightarrow> disk_ok d \<and> seen d \<in> V \<and> shows_only V ds"
  "shows_only V (ds @ es) \<longleftrightarrow> shows_only V ds \<and> shows_only V es"
  by (auto simp: shows_only_def)

lemma shows_more: "shows_only V ds \<Longrightarrow> V \<subseteq> U \<Longrightarrow> shows_only U ds"
  by (auto simp: shows_only_def)

lemma write_temporary_keeps:
  assumes "disk_ok d" and "write_temporary fails partial text d = (written, ds)"
  shows "shows_only {seen d} ds \<and>
    (written \<longrightarrow> text \<noteq> None \<and> ds \<noteq> [] \<and> file_text (last ds) Temporary = text)"
proof -
  note opened = open_keeps [OF assms(1)]
  then have w: "disk_ok (write_file Temporary s (open_truncated Temporary d)) \<and>
      seen (write_file Temporary s (open_truncated Temporary d)) = seen d" for s
    using write_keeps by metis
  moreover have "file_text (write_file Temporary s (open_truncated Temporary d)) Temporary = Some s" for s
    using opened by (auto simp: write_file_def file_text_def)
  ultimately show ?thesis
    using assms(2) opened drop_keeps(1)
    by (auto simp: write_temporary_def Let_def split: if_splits)
qed

lemma preserve_old_keeps:
  assumes "disk_ok d" and "preserve_old fails d = (kept, ds)"
  shows "shows_only {seen d, (file_text d State_File, file_text d State_File)} ds \<and>
    (kept \<longrightarrow> ds \<noteq> [] \<and> seen (last ds) = (file_text d State_File, file_text d State_File) \<and>
       file_text (last ds) Temporary = file_text d Temporary)"
proof -
  let ?clean = "drop_backup_temporary fails d"
  have clean: "disk_ok ?clean" "seen ?clean = seen d" "file_text ?clean Temporary = file_text d Temporary"
    using drop_keeps(2) [OF assms(1)] by auto
  have st: "file_text e State_File = file_text d State_File" if "seen e = seen d" for e
    using that by (simp add: seen_def)
  have stop: "shows_only {seen d} [e, drop_backup_temporary fails e, drop_temporary fails (drop_backup_temporary fails e)]"
    if "disk_ok e" "seen e = seen d" for e
    using that drop_keeps by simp
  show ?thesis
  proof (cases "link_file State_File Backup_Temporary ?clean")
    case None
    then have "\<not> kept \<and> ds = [?clean, drop_backup_temporary fails ?clean,
        drop_temporary fails (drop_backup_temporary fails ?clean)]"
      using assms(2) by (auto simp: preserve_old_def Let_def split: if_splits)
    then show ?thesis using stop [OF clean(1,2)] by simp
  next
    case (Some linked)
    note l = link_keeps [OF clean(1) Some]
    have linked: "disk_ok linked" "seen linked = seen d" "file_text linked Backup_Temporary = file_text d State_File"
      "file_text linked Temporary = file_text d Temporary"
      using l clean st [of ?clean] by simp_all
    show ?thesis
    proof (cases "fails Mode_State \<or> fails Link_State")
      case True
      then have "\<not> kept \<and> ds = [?clean, drop_backup_temporary fails ?clean,
          drop_temporary fails (drop_backup_temporary fails ?clean)]"
        using assms(2) by (auto simp: preserve_old_def Let_def)
      then show ?thesis using stop [OF clean(1,2)] by simp
    next
      case go: False
      show ?thesis
      proof (cases "fails Rename_Backup \<or> rename_file Backup_Temporary Backup linked = None")
        case True
        then have "\<not> kept \<and> ds = [?clean, linked, drop_backup_temporary fails linked,
            drop_temporary fails (drop_backup_temporary fails linked)]"
          using assms(2) go Some by (auto simp: preserve_old_def Let_def split: if_splits)
        then show ?thesis using stop [OF linked(1,2)] clean by simp
      next
        case False
        then obtain e where e: "rename_file Backup_Temporary Backup linked = Some e" by auto
        note r = rename_backup_keeps [OF linked(1) e]
        have seen: "seen e = (file_text d State_File, file_text d State_File)"
          using r linked st [of linked] by simp
        have "(kept, ds) = (if fails Sync_Backup then (False, [?clean, linked, e, drop_temporary fails e])
            else (True, [?clean, linked, e]))"
          using assms(2) go Some e False by (simp add: preserve_old_def Let_def)
        then show ?thesis
          using clean linked r seen drop_keeps(1) [of e fails] by (simp split: if_splits)
      qed
    qed
  qed
qed

lemma commit_keeps:
  assumes "disk_ok d" and "commit_new fails d = (result, ds)"
  shows "ds \<noteq> [] \<and>
    (if result = STATE_SAVE_FAILED then shows_only {seen d} ds
     else shows_only {(file_text d Temporary, file_text d Backup)} ds)"
  using assms drop_keeps(1) [OF assms(1)] rename_state_keeps [OF assms(1)]
  by (auto simp: commit_new_def split: if_splits option.splits)

text \<open>
  The backup a committed save leaves.  A save shows at every moment the old files, or the old
  schedule over the backup it leaves, or the new schedule over it; and it ends on the last exactly
  when it says that it has committed.\<close>

definition backup_left :: "(file_call \<Rightarrow> bool) \<Rightarrow> bool \<Rightarrow> disk \<Rightarrow> string option" where
  "backup_left fails pending d =
     (if pending \<or> file_text d State_File = None \<or> fails Access_State then file_text d Backup
      else file_text d State_File)"

definition old_views :: "(file_call \<Rightarrow> bool) \<Rightarrow> bool \<Rightarrow> disk \<Rightarrow> (string option \<times> string option) set" where
  "old_views fails pending d = {seen d, (file_text d State_File, backup_left fails pending d)}"

lemma keep_keeps:
  assumes "disk_ok d" and "(if \<not> pending \<and> inode d State_File \<noteq> None \<and> \<not> fails Access_State
      then preserve_old fails d else (True, [])) = (kept, es)"
  shows "shows_only (old_views fails pending d) es \<and> (kept \<longrightarrow> disk_ok (last (d # es)) \<and>
    file_text (last (d # es)) Temporary = file_text d Temporary \<and>
    seen (last (d # es)) = (file_text d State_File, backup_left fails pending d))"
proof -
  have st: "inode d State_File = None \<longleftrightarrow> file_text d State_File = None" by (simp add: file_text_def)
  show ?thesis
  proof (cases "pending \<or> file_text d State_File = None \<or> fails Access_State")
    case True
    then have "kept" "es = []" using assms(2) st by (auto split: if_splits)
    then show ?thesis using assms(1) True by (auto simp: backup_left_def seen_def)
  next
    case False
    then have p: "preserve_old fails d = (kept, es)" using assms(2) st by simp
    have b: "backup_left fails pending d = file_text d State_File" using False by (simp only: backup_left_def if_False)
    show ?thesis
      using preserve_old_keeps [OF assms(1) p] last_in_set [of es] unfolding old_views_def b
      by (auto simp: shows_only_def)
  qed
qed

lemma replace_keeps:
  assumes "disk_ok d" and "replace_state fails partial text pending d = (result, ds)"
  shows "if result = STATE_SAVE_FAILED then shows_only (old_views fails pending d) ds
    else shows_only (insert (text, backup_left fails pending d) (old_views fails pending d)) ds \<and>
      text \<noteq> None \<and> ds \<noteq> [] \<and> seen (last ds) = (text, backup_left fails pending d)"
proof -
  obtain written ds1 where w: "write_temporary fails partial text d = (written, ds1)" by fastforce
  note wk = write_temporary_keeps [OF assms(1) w]
  then have ds1: "shows_only (old_views fails pending d) ds1"
    by (auto simp: old_views_def intro: shows_more)
  show ?thesis
  proof (cases written)
    case False
    then show ?thesis using assms(2) w ds1 by (auto simp: replace_state_def)
  next
    case True
    define d1 where "d1 = last ds1"
    have d1: "disk_ok d1" "seen d1 = seen d" "file_text d1 Temporary = text" "text \<noteq> None" "ds1 \<noteq> []"
      using True wk last_in_set [of ds1] by (auto simp: d1_def shows_only_def)
    then have same: "old_views fails pending d1 = old_views fails pending d"
        "backup_left fails pending d1 = backup_left fails pending d" "file_text d1 State_File = file_text d State_File"
      by (simp_all add: old_views_def backup_left_def seen_def)
    obtain kept es where k: "(if \<not> pending \<and> inode d1 State_File \<noteq> None \<and> \<not> fails Access_State
        then preserve_old fails d1 else (True, [])) = (kept, es)" by fastforce
    note kk = keep_keeps [OF d1(1) k, unfolded same d1(3)]
    have "last (d # ds1) = d1" using d1(5) by (simp add: d1_def)
    then have eq: "(result, ds) = (if \<not> kept then (STATE_SAVE_FAILED, ds1 @ es)
        else let (result, fs) = commit_new fails (last (d1 # es)) in (result, ds1 @ es @ fs))"
      using assms(2) True unfolding replace_state_def w prod.case Let_def
      by (simp only: k prod.case not_True_eq_False if_False)
    show ?thesis
    proof (cases kept)
      case False
      then show ?thesis using eq ds1 kk by simp
    next
      case kept: True
      obtain r fs where c: "commit_new fails (last (d1 # es)) = (r, fs)" by fastforce
      then have e: "result = r" "ds = ds1 @ es @ fs" using eq kept by (simp_all del: last.simps)
      have old: "seen (last (d1 # es)) \<in> old_views fails pending d"
          "file_text (last (d1 # es)) Backup = backup_left fails pending d"
          "file_text (last (d1 # es)) Temporary = text" "disk_ok (last (d1 # es))"
        using kk kept by (simp_all add: old_views_def seen_def del: last.simps)
      note ck = commit_keeps [OF old(4) c, unfolded old(2,3)]
      show ?thesis
      proof (cases "r = STATE_SAVE_FAILED")
        case True
        then show ?thesis using ck e ds1 kk old(1) by (auto simp: shows_only_def)
      next
        case False
        then have "last fs \<in> set fs" "shows_only {(text, backup_left fails pending d)} fs" using ck by simp_all
        then show ?thesis using False ck e ds1 kk d1(4) by (auto simp: shows_only_def)
      qed
    qed
  qed
qed

lemma replace_succeeds: "fst (replace_state (\<lambda>_. False) partial (Some text) pending d) = STATE_SAVE_OK"
proof -
  let ?all = "write_file Temporary text (open_truncated Temporary d)"
  have t: "inode ?all Temporary \<noteq> None"
    by (auto simp: write_file_def open_truncated_def split: option.split)
  have commit: "fst (commit_new (\<lambda>_. False) e) = STATE_SAVE_OK" if "inode e Temporary \<noteq> None" for e
    using that by (auto simp: commit_new_def rename_file_def)
  have keep: "\<exists>es. preserve_old (\<lambda>_. False) e = (True, es) \<and> es \<noteq> [] \<and> inode (last es) Temporary \<noteq> None"
    if "inode e Temporary \<noteq> None" "inode e State_File \<noteq> None" for e
    using that by (auto simp: preserve_old_def Let_def drop_backup_temporary_def unlink_file_def link_file_def
      rename_file_def)
  obtain es where "preserve_old (\<lambda>_. False) ?all = (True, es) \<and> es \<noteq> [] \<and> inode (last es) Temporary \<noteq> None"
    if "inode ?all State_File \<noteq> None" using keep [OF t] by blast
  then show ?thesis
    using t commit by (auto simp: replace_state_def write_temporary_def Let_def split_beta)
qed

section \<open>Saves over time\<close>

text \<open>A save in the daemon's life: what fails, what partial text is left, and the schedule's text.\<close>

record save =
  sv_fails :: "file_call \<Rightarrow> bool"
  sv_partial :: string
  sv_text :: "string option"

text \<open>Disk, commit flag, and the text of the last save that was reported durable.\<close>

type_synonym saves = "disk \<times> bool \<times> string option"

definition next_pending :: "state_save_result \<Rightarrow> bool \<Rightarrow> bool" where
  "next_pending result pending =
     (case result of STATE_SAVE_FAILED \<Rightarrow> pending | STATE_SAVE_OK \<Rightarrow> False
      | STATE_SAVE_COMMITTED_DURABILITY_FAILED \<Rightarrow> True)"

definition save_once :: "saves \<Rightarrow> save \<Rightarrow> saves" where
  "save_once c v =
     (case c of (d, pending, durable) \<Rightarrow>
        let (result, ds) = replace_state (sv_fails v) (sv_partial v) (sv_text v) pending d
        in (last (d # ds), next_pending result pending, if result = STATE_SAVE_OK then sv_text v else durable))"

text \<open>
  The last durable schedule is in the state file, or it is the backup while a newer one is committed
  and not yet known to be durable.\<close>

definition durable_kept :: "saves \<Rightarrow> bool" where
  "durable_kept c =
     (case c of (d, pending, durable) \<Rightarrow> disk_ok d \<and>
        (durable \<noteq> None \<longrightarrow> (if pending then snd (seen d) = durable else fst (seen d) = durable)))"

definition access_honest :: "save \<Rightarrow> bool" where
  "access_honest v \<longleftrightarrow> \<not> sv_fails v Access_State"

lemma save_once_keeps:
  assumes "durable_kept c" and "access_honest v"
  shows "durable_kept (save_once c v)"
proof -
  obtain d pending durable where c: "c = (d, pending, durable)" by (cases c) auto
  obtain result ds where r: "replace_state (sv_fails v) (sv_partial v) (sv_text v) pending d = (result, ds)" by fastforce
  have ok: "disk_ok d" and dur: "durable \<noteq> None \<Longrightarrow> (if pending then snd (seen d) = durable else fst (seen d) = durable)"
    using assms(1) by (simp_all add: durable_kept_def c)
  note rk = replace_keeps [OF ok r]
  have last: "disk_ok (last (d # ds))"
    using ok rk last_in_set [of ds] by (auto simp: shows_only_def split: if_splits)
  have left: "durable \<noteq> None \<Longrightarrow> backup_left (sv_fails v) pending d = durable"
    using dur assms(2) by (cases pending) (auto simp: backup_left_def access_honest_def seen_def)
  have failed: "result = STATE_SAVE_FAILED \<Longrightarrow> durable \<noteq> None \<Longrightarrow>
      (if pending then snd (seen (last (d # ds))) = durable else fst (seen (last (d # ds))) = durable)"
    using rk dur left last_in_set [of ds] by (auto simp: shows_only_def old_views_def seen_def)
  show ?thesis
  proof (cases result)
    case STATE_SAVE_FAILED
    then show ?thesis using failed last
      by (cases durable) (simp_all add: durable_kept_def save_once_def c r next_pending_def del: last.simps)
  next
    case STATE_SAVE_OK
    then show ?thesis using rk last by (simp add: durable_kept_def save_once_def c r next_pending_def)
  next
    case STATE_SAVE_COMMITTED_DURABILITY_FAILED
    then show ?thesis using rk last left by (simp add: durable_kept_def save_once_def c r next_pending_def)
  qed
qed


section \<open>The daemon over a restart\<close>


text \<open>A daemon with a countdown and an alarm, saved on an empty disk.\<close>

definition empty_disk :: disk where
  "empty_disk = \<lparr>inode = \<lambda>_. None, bytes = \<lambda>_. [], unused = 0\<rparr>"

definition fresh_timerd :: "le_timer_set \<Rightarrow> disk \<Rightarrow> bool \<Rightarrow> timerd" where
  "fresh_timerd s d loaded = \<lparr>td_timers = s, td_dirty = False, td_state_loaded = loaded, td_commit_pending = False,
     td_disk = d\<rparr>"



text \<open>Two saves, the second committed but not durable, and a third that cannot be written.\<close>

definition some_saves :: "save list" where
  "some_saves =
     [\<lparr>sv_fails = \<lambda>_. False, sv_partial = [], sv_text = Some ''a''\<rparr>,
      \<lparr>sv_fails = \<lambda>k. k = Sync_New, sv_partial = [], sv_text = Some ''b''\<rparr>]"

definition torn_save :: save where
  "torn_save = \<lparr>sv_fails = \<lambda>k. k = Write_Temporary, sv_partial = ''c'', sv_text = Some ''cd''\<rparr>"


end
