(* ===== verification/Adapter_Wire.thy ===== *)
theory Adapter_Wire
  imports Json
begin

text \<open>
  The protocol between the daemons (adapter/adapter_client.c and adapter/adapter_server.c): how a
  request is composed and taken apart, how it is answered, and how the caller finds its answer among
  the lines it receives.

  Both files hold the same small readers and writers; they are modelled once.  \<open>skip_ws\<close> and
  \<open>hex_value\<close> are those of \<open>Json\<close>, whose text both files repeat.  A message is the list of its
  characters before the zero; the width of \<^verbatim>\<open>unsigned long\<close> is an argument \<open>w\<close>.
\<close>

definition LE_ADAPTER_PROTO_VERSION :: nat where "LE_ADAPTER_PROTO_VERSION = 1"
definition LE_ADAPTER_MSG_MAX :: nat where "LE_ADAPTER_MSG_MAX = 4096"

datatype adapter_error = LE_ADAPTER_ERR_CONNECT | LE_ADAPTER_ERR_IO | LE_ADAPTER_ERR_TIMEOUT
  | LE_ADAPTER_ERR_PROTO | LE_ADAPTER_ERR_REJECTED | LE_ADAPTER_ERR_NOMEM

section \<open>Reading\<close>

text \<open>The value after the first occurrence of the quoted key that a colon follows.\<close>

function find_key_from :: "string \<Rightarrow> string \<Rightarrow> string option" where
  "find_key_from p needle =
     (case (if needle = [] then None else strstr p needle) of
        None \<Rightarrow> None
      | Some q \<Rightarrow>
          (let v = skip_ws (drop (length needle) q)
           in if v \<noteq> [] \<and> hd v = CHR '':'' then Some (skip_ws (tl v))
              else find_key_from (drop (length needle) q) needle))"
  by auto
termination
proof (relation "measure (length o fst)")
  fix p needle q :: string
  assume "(if needle = [] then None else strstr p needle) = Some q"
  then have "needle \<noteq> []" "strstr p needle = Some q" by (auto split: if_splits)
  then have "0 < length needle" "length q \<le> length p" "0 < length q"
    using strstr_length [of p needle q] strstr_Some [of p needle q] by auto
  then show "((drop (length needle) q, needle), p, needle) \<in> measure (length o fst)"
  proof -
    have "length q - length needle < length p"
      using diff_less [of "length needle" "length q"] \<open>0 < length needle\<close> \<open>0 < length q\<close> \<open>length q \<le> length p\<close>
      by linarith
    then show ?thesis by simp
  qed
qed simp

declare find_key_from.simps [simp del]

definition adapter_find_key :: "string \<Rightarrow> string \<Rightarrow> string option" where
  "adapter_find_key json key =
     (let needle = quote # key @ [quote]
      in if 64 \<le> length needle then None else find_key_from json needle)"

definition parse_ulong_value :: "nat \<Rightarrow> string \<Rightarrow> nat option" where
  "parse_ulong_value w p =
     (if p = [] \<or> \<not> isdigit (hd p) then None
      else case strtoul w p of None \<Rightarrow> None
      | Some (v, erange, rest) \<Rightarrow>
          (let after = skip_ws rest
           in if erange \<or> after = [] \<or> (hd after \<noteq> CHR '','' \<and> hd after \<noteq> CHR ''}'') then None else Some v))"

definition parse_bool_value :: "string \<Rightarrow> bool option" where
  "parse_bool_value p =
     (let stops = (\<lambda>s. s = [] \<or> hd s = CHR '','' \<or> hd s = CHR ''}'' \<or> hd s = CHR '']'') in
      if take 4 p = ''true'' \<and> stops (drop 4 p) then Some True
      else if take 5 p = ''false'' \<and> stops (drop 5 p) then Some False else None)"

text \<open>What follows a string whose opening quote has been passed; nothing when it does not close.\<close>

fun skip_string :: "string \<Rightarrow> string" where
  "skip_string [] = []"
| "skip_string (q # s) =
     (if q = backslash \<and> s \<noteq> [] then skip_string (tl s)
      else if q = quote then s else skip_string s)"

lemma skip_string_length: "length (skip_string s) \<le> length s"
  by (induction s rule: skip_string.induct) auto

definition closes :: "char \<Rightarrow> char \<Rightarrow> bool" where
  "closes opened c \<longleftrightarrow> \<not> (opened = CHR ''{'' \<and> c \<noteq> CHR ''}'') \<and> \<not> (opened = CHR ''['' \<and> c \<noteq> CHR '']'')"

text \<open>The walk to the bracket that closes the first one; the stack of open brackets, innermost first.\<close>

function bracket_loop :: "char list \<Rightarrow> string \<Rightarrow> string option" where
  "bracket_loop stack [] = None"
| "bracket_loop stack (q # s) =
     (if q = quote then bracket_loop stack (skip_string s)
      else if q = CHR ''{'' \<or> q = CHR ''['' then
        (if LE_ADAPTER_MSG_MAX \<le> length stack then None else bracket_loop (q # stack) s)
      else if q = CHR ''}'' \<or> q = CHR '']'' then
        (case stack of [] \<Rightarrow> None
         | opened # outer \<Rightarrow>
             if \<not> closes opened q then None
             else if outer = [] then Some s else bracket_loop outer s)
      else bracket_loop stack s)"
  by pat_completeness auto
termination
  by (relation "measure (length o snd)") (auto simp: less_Suc_eq_le skip_string_length)

definition json_value_end :: "string \<Rightarrow> string option" where
  "json_value_end p =
     (if p = [] \<or> (hd p \<noteq> CHR ''{'' \<and> hd p \<noteq> CHR ''['') then None else bracket_loop [] p)"

datatype read_error = Malformed | Too_Small

definition simple_escape :: "char \<Rightarrow> char option" where
  "simple_escape e =
     (if e = quote \<or> e = backslash \<or> e = CHR ''/'' then Some e
      else if e = CHR ''b'' then Some (char_of (8 :: nat)) else if e = CHR ''f'' then Some (char_of (12 :: nat))
      else if e = CHR ''n'' then Some (char_of (10 :: nat)) else if e = CHR ''r'' then Some (char_of (13 :: nat))
      else if e = CHR ''t'' then Some (char_of (9 :: nat)) else None)"

text \<open>The character of a \<^verbatim>\<open>\u\<close> escape is taken from the first two of its four digits.\<close>

definition unicode_escape :: "string \<Rightarrow> (char \<times> string) option" where
  "unicode_escape s =
     (case s of
        a # b # c # d # rest \<Rightarrow>
          (case (hex_value a, hex_value b, hex_value c, hex_value d) of
             (Some h, Some l, Some _, Some _) \<Rightarrow> if h * 16 + l = 0 then None else Some (char_of (h * 16 + l), rest)
           | _ \<Rightarrow> None)
      | _ \<Rightarrow> None)"

text \<open>The next character of a string and what follows it.\<close>

definition read_char :: "char \<Rightarrow> string \<Rightarrow> (char \<times> string) option" where
  "read_char c s =
     (if c = backslash then
        (case s of [] \<Rightarrow> None
         | e # s1 \<Rightarrow> if e = CHR ''u'' then unicode_escape s1 else map_option (\<lambda>x. (x, s1)) (simple_escape e))
      else if ord c < 32 then None else Some (c, s))"

lemma read_char_length: "read_char c s = Some (x, r) \<Longrightarrow> length r \<le> length s"
  by (auto simp: read_char_def unicode_escape_def split: if_splits list.splits option.splits)

function read_string_loop :: "nat \<Rightarrow> nat \<Rightarrow> string \<Rightarrow> read_error + (string \<times> string)" where
  "read_string_loop out_size used [] = Inl Malformed"
| "read_string_loop out_size used (q # s) =
     (if q = quote then Inr ([], s)
      else case read_char q s of
        None \<Rightarrow> Inl Malformed
      | Some (c, rest) \<Rightarrow>
          if out_size \<le> used + 1 then Inl Too_Small
          else (case read_string_loop out_size (used + 1) rest of
              Inl e \<Rightarrow> Inl e | Inr (text, after) \<Rightarrow> Inr (c # text, after)))"
  by pat_completeness auto
termination
  by (relation "measure (length o snd o snd)") (auto dest: read_char_length)

definition json_read_string :: "nat \<Rightarrow> string \<Rightarrow> read_error + (string \<times> string)" where
  "json_read_string out_size p =
     (if p = [] \<or> hd p \<noteq> quote then Inl Malformed else read_string_loop out_size 0 (tl p))"

section \<open>Writing\<close>

definition adapter_escape :: "char \<Rightarrow> string" where
  "adapter_escape c =
     (if c = quote \<or> c = backslash then [backslash, c]
      else if ord c = 8 then [backslash, CHR ''b''] else if ord c = 12 then [backslash, CHR ''f'']
      else if ord c = 10 then [backslash, CHR ''n''] else if ord c = 13 then [backslash, CHR ''r'']
      else if ord c = 9 then [backslash, CHR ''t'']
      else if ord c < 32 then
        [backslash, CHR ''u'', CHR ''0'', CHR ''0'', ''0123456789abcdef'' ! (ord c div 16), ''0123456789abcdef'' ! (ord c mod 16)]
      else [c])"

text \<open>The buffer with the text after what it holds, if there is room; \<open>length buf < n\<close>.\<close>

fun append_json_string :: "nat \<Rightarrow> string \<Rightarrow> string \<Rightarrow> string option" where
  "append_json_string n buf [] = (if n \<le> length buf then None else Some buf)"
| "append_json_string n buf (c # cs) =
     (if n < length buf \<or> n - length buf - 1 < length (adapter_escape c) then None
      else append_json_string n (buf @ adapter_escape c) cs)"

text \<open>A formatted text after what the buffer holds, refused when it is cut.\<close>

definition append_text :: "nat \<Rightarrow> string \<Rightarrow> string \<Rightarrow> string option" where
  "append_text n text buf = (if n \<le> length buf + length text then None else Some (buf @ text))"

section \<open>The server side\<close>

text \<open>The command and the text of the arguments, and the id as far as it was found.\<close>

definition le_adapter_parse_request :: "nat \<Rightarrow> nat \<Rightarrow> string \<Rightarrow> nat \<Rightarrow> (string \<times> string) option \<times> nat" where
  "le_adapter_parse_request w cmd_size msg initial =
     (case json_value_end msg of None \<Rightarrow> (None, initial)
      | Some root_end \<Rightarrow>
        if skip_ws root_end \<noteq> [] then (None, initial)
        else if Option.bind (adapter_find_key msg ''v'') (parse_ulong_value w) \<noteq> Some LE_ADAPTER_PROTO_VERSION
          then (None, initial)
        else case Option.bind (adapter_find_key msg ''id'') (parse_ulong_value w) of None \<Rightarrow> (None, initial)
        | Some ident \<Rightarrow>
          (case map_option (json_read_string cmd_size) (adapter_find_key msg ''cmd'') of
             Some (Inr (cmd, cmd_end)) \<Rightarrow>
               (if skip_ws cmd_end = [] \<or> hd (skip_ws cmd_end) \<noteq> CHR '','' then None
                else case adapter_find_key msg ''args'' of None \<Rightarrow> None
                | Some args \<Rightarrow>
                    if args = [] \<or> hd args \<noteq> CHR ''{'' then None
                    else (case json_value_end args of None \<Rightarrow> None
                      | Some args_end \<Rightarrow>
                          (let after = skip_ws args_end
                           in if after = [] \<or> (hd after \<noteq> CHR '','' \<and> hd after \<noteq> CHR ''}'') then None
                              else Some (cmd, take (length args - length after) args))))
           | _ \<Rightarrow> None, ident))"

definition line_feed :: char where "line_feed = char_of (10 :: nat)"

definition le_adapter_respond_ok :: "nat \<Rightarrow> nat \<Rightarrow> string \<Rightarrow> string option" where
  "le_adapter_respond_ok n ident data =
     append_text n (''{\"v\":1,\"id\":'' @ nat_digits ident @ '',\"ok\":true,\"data\":'' @ data @ ''}'' @ [line_feed]) []"

definition le_adapter_respond_err :: "nat \<Rightarrow> nat \<Rightarrow> string \<Rightarrow> string option" where
  "le_adapter_respond_err n ident error_msg =
     Option.bind (append_text n (''{\"v\":1,\"id\":'' @ nat_digits ident @ '',\"ok\":false,\"error\":\"'') [])
       (\<lambda>buf. Option.bind (append_json_string n buf error_msg) (append_text n (''\"}'' @ [line_feed])))"

definition le_adapter_format_event :: "nat \<Rightarrow> string \<Rightarrow> string \<Rightarrow> string option" where
  "le_adapter_format_event n event_type data =
     Option.bind (append_text n ''{\"v\":1,\"event\":\"'' [])
       (\<lambda>buf. Option.bind (append_json_string n buf event_type)
         (append_text n (''\",\"data\":'' @ data @ ''}'' @ [line_feed])))"

text \<open>
  What a daemon writes back for a message: its own answer to the command, where there is room for it.
  The handler gives the data of an acceptance or the text of a refusal.\<close>

definition serve_client :: "nat \<Rightarrow> (string \<Rightarrow> string \<Rightarrow> string + string) \<Rightarrow> string \<Rightarrow> string option" where
  "serve_client w dispatch msg =
     (case le_adapter_parse_request w 64 msg 0 of
        (None, ident) \<Rightarrow> le_adapter_respond_err LE_ADAPTER_MSG_MAX ident ''malformed request''
      | (Some (cmd, args), ident) \<Rightarrow>
          (case dispatch cmd args of
             Inl error \<Rightarrow> le_adapter_respond_err LE_ADAPTER_MSG_MAX ident error
           | Inr data \<Rightarrow> le_adapter_respond_ok LE_ADAPTER_MSG_MAX ident data))"

section \<open>The client side\<close>

definition LE_ADAPTER_MAX_SKIPPED_EVENTS :: nat where "LE_ADAPTER_MAX_SKIPPED_EVENTS = 16"

text \<open>
  The next line of a connection, from the bytes kept of earlier reads and those still on the wire.
  A read gives up to so many bytes as there is room for, or is interrupted and repeated, or it or the
  wait for it fails; the end of the stream is a read of nothing.\<close>

datatype read_event = Arrive nat | Again | Failed adapter_error

fun read_line :: "nat \<Rightarrow> string \<Rightarrow> string \<Rightarrow> read_event list \<Rightarrow>
    (adapter_error + string) \<times> string \<times> string \<times> read_event list" where
  "read_line n input wire events =
     (if n < 2 then (Inl LE_ADAPTER_ERR_PROTO, input, wire, events)
      else if line_feed \<in> set input then
        (let line = takeWhile (\<lambda>c. c \<noteq> line_feed) input
         in if n \<le> length line then (Inl LE_ADAPTER_ERR_PROTO, input, wire, events)
            else (Inr line, drop (length line + 1) input, wire, events))
      else if LE_ADAPTER_MSG_MAX \<le> length input then (Inl LE_ADAPTER_ERR_PROTO, input, wire, events)
      else case events of
        [] \<Rightarrow> (Inl LE_ADAPTER_ERR_TIMEOUT, input, wire, [])
      | Arrive k # es \<Rightarrow>
          (let b = take (min k (LE_ADAPTER_MSG_MAX - length input)) wire
           in if b = [] then (Inl LE_ADAPTER_ERR_IO, input, wire, es)
              else read_line n (input @ b) (drop (length b) wire) es)
      | Again # es \<Rightarrow> read_line n input wire es
      | Failed e # es \<Rightarrow> (Inl e, input, wire, es))"

declare read_line.simps [simp del]

definition compose_request :: "nat \<Rightarrow> string \<Rightarrow> string \<Rightarrow> string option" where
  "compose_request ident cmd args =
     (let head = append_text LE_ADAPTER_MSG_MAX (''{\"v\":1,\"id\":'' @ nat_digits ident @ '',\"cmd\":\"'') [];
          named = Option.bind head (\<lambda>buf. append_json_string LE_ADAPTER_MSG_MAX buf cmd)
      in case Option.bind named (append_text LE_ADAPTER_MSG_MAX ''\",\"args\":'') of None \<Rightarrow> None
         | Some buf \<Rightarrow>
             (case json_value_end (skip_ws args) of None \<Rightarrow> None
              | Some after \<Rightarrow>
                  if hd (skip_ws args) \<noteq> CHR ''{'' \<or> skip_ws after \<noteq> [] then None
                  else append_text LE_ADAPTER_MSG_MAX (args @ ''}'' @ [line_feed]) buf))"

text \<open>What one received line is to the call with this id.\<close>

datatype reply = Broken | Event | Accepted | Rejected

definition classify :: "nat \<Rightarrow> nat \<Rightarrow> string \<Rightarrow> reply" where
  "classify w ident line =
     (if Option.bind (adapter_find_key line ''v'') (parse_ulong_value w) \<noteq> Some LE_ADAPTER_PROTO_VERSION then Broken
      else case adapter_find_key line ''id'' of
        None \<Rightarrow>
          (case map_option (json_read_string LE_ADAPTER_MSG_MAX) (adapter_find_key line ''event'') of
             Some (Inr _) \<Rightarrow> Event | _ \<Rightarrow> Broken)
      | Some value \<Rightarrow>
          if parse_ulong_value w value \<noteq> Some ident then Broken
          else (case Option.bind (adapter_find_key line ''ok'') parse_bool_value of
              None \<Rightarrow> Broken | Some ok \<Rightarrow> if ok then Accepted else Rejected))"

definition accepted_data :: "nat \<Rightarrow> string \<Rightarrow> adapter_error + string" where
  "accepted_data out_size line =
     (case adapter_find_key line ''data'' of None \<Rightarrow> Inl LE_ADAPTER_ERR_PROTO
      | Some data \<Rightarrow>
          (case json_value_end data of None \<Rightarrow> Inl LE_ADAPTER_ERR_PROTO
           | Some data_end \<Rightarrow>
               (let after = skip_ws data_end; n = length data - length data_end
                in if after = [] \<or> (hd after \<noteq> CHR ''}'' \<and> hd after \<noteq> CHR '','') then Inl LE_ADAPTER_ERR_PROTO
                   else if out_size = 0 then Inr [] else if out_size \<le> n then Inl LE_ADAPTER_ERR_IO
                   else Inr (take n data))))"

text \<open>The text of a refusal goes to the caller, cut to its buffer.\<close>

definition rejected_text :: "nat \<Rightarrow> string \<Rightarrow> adapter_error \<times> string" where
  "rejected_text out_size line =
     (case map_option (json_read_string LE_ADAPTER_MSG_MAX) (adapter_find_key line ''error'') of
        Some (Inr (text, _)) \<Rightarrow> (LE_ADAPTER_ERR_REJECTED, take (out_size - 1) text)
      | _ \<Rightarrow> (LE_ADAPTER_ERR_PROTO, []))"

text \<open>
  A received line or the failure of its reading, one after the other: the answer of the call, what
  is left in the caller's buffer, and the lines not read.\<close>

fun await_reply :: "nat \<Rightarrow> nat \<Rightarrow> nat \<Rightarrow> nat \<Rightarrow> (adapter_error + string) list \<Rightarrow>
    (adapter_error option \<times> string) \<times> (adapter_error + string) list" where
  "await_reply w ident out_size skipped [] = ((Some LE_ADAPTER_ERR_TIMEOUT, []), [])"
| "await_reply w ident out_size skipped (Inl e # lines) = ((Some e, []), lines)"
| "await_reply w ident out_size skipped (Inr line # lines) =
     (case classify w ident line of
        Broken \<Rightarrow> ((Some LE_ADAPTER_ERR_PROTO, []), lines)
      | Event \<Rightarrow>
          if LE_ADAPTER_MAX_SKIPPED_EVENTS < skipped + 1 then ((Some LE_ADAPTER_ERR_PROTO, []), lines)
          else await_reply w ident out_size (skipped + 1) lines
      | Accepted \<Rightarrow>
          (case accepted_data out_size line of Inl e \<Rightarrow> ((Some e, []), lines) | Inr data \<Rightarrow> ((None, data), lines))
      | Rejected \<Rightarrow> (case rejected_text out_size line of (e, text) \<Rightarrow> ((Some e, text), lines)))"

text \<open>
  A call: the request goes to the peer, a function from its text to the lines that come back; the
  answer, and the id of the next call.\<close>

definition le_adapter_call ::
  "nat \<Rightarrow> (string \<Rightarrow> (adapter_error + string) list) \<Rightarrow> nat \<Rightarrow> string \<Rightarrow> string \<Rightarrow> nat \<Rightarrow>
   (adapter_error option \<times> string) \<times> nat" where
  "le_adapter_call w peer next_id cmd args out_size =
     (let ident = (if next_id = 0 then 1 else next_id)
      in (case compose_request ident cmd args of
            None \<Rightarrow> (Some LE_ADAPTER_ERR_PROTO, [])
          | Some request \<Rightarrow> fst (await_reply w ident out_size 0 (peer request)),
          (ident + 1) mod 2 ^ w))"

end
