(* ===== verification/Adapter_Calls.thy ===== *)
theory Adapter_Calls
  imports Adapter_Wire
begin

text \<open>
  A call through the protocol of \<open>Adapter_Wire\<close>: the daemon sees the command and the arguments the
  caller gave, and the caller sees what the daemon answered, whatever events arrive in between and
  however the stream is cut.
\<close>

section \<open>Escaped text\<close>

definition escaped_text :: "string \<Rightarrow> string" where
  "escaped_text s = concat (map adapter_escape s)"

lemma escaped_text_simps [simp]: "escaped_text [] = []" "escaped_text (c # s) = adapter_escape c @ escaped_text s"
  by (simp_all add: escaped_text_def)

text \<open>The characters the escapes carry: all but the control characters without a letter.\<close>

definition carried :: "char \<Rightarrow> bool" where
  "carried c \<longleftrightarrow> 32 \<le> ord c \<or> ord c \<in> {8, 9, 10, 12, 13}"

lemma hex_digit_16: "n < 16 \<Longrightarrow> ''0123456789abcdef'' ! n \<noteq> quote \<and> ''0123456789abcdef'' ! n \<noteq> backslash"
  by (simp add: numeral_eq_Suc less_Suc_eq) (elim disjE; simp)

lemma escape_cases:
  obtains "adapter_escape c = [c]" "c \<noteq> quote" "c \<noteq> backslash" "32 \<le> ord c"
  | e where "adapter_escape c = [backslash, e]" "e \<noteq> CHR ''u''" "simple_escape e = Some c" "carried c"
  | a b where "adapter_escape c = [backslash, CHR ''u'', CHR ''0'', CHR ''0'', a, b]" "\<not> carried c"
      "a \<noteq> quote" "a \<noteq> backslash" "b \<noteq> quote" "b \<noteq> backslash"
proof -
  consider "c = quote \<or> c = backslash" | "ord c \<in> {8, 9, 10, 12, 13}"
    | "c \<noteq> quote" "c \<noteq> backslash" "32 \<le> ord c"
    | "ord c < 32" "ord c \<notin> {8, 9, 10, 12, 13}"
    by fastforce
  then show ?thesis
  proof cases
    case 1
    then show ?thesis using that(2) [of c] by (auto simp: adapter_escape_def simple_escape_def carried_def)
  next
    case 2
    then have "c \<noteq> quote" "c \<noteq> backslash" by auto
    moreover have "c = char_of (ord c)" by simp
    ultimately show ?thesis using 2 that(2)
      by (elim insertE emptyE) (simp_all add: adapter_escape_def simple_escape_def carried_def)
  next
    case 3
    then show ?thesis using that(1) by (simp add: adapter_escape_def)
  next
    case 4
    then have "c \<noteq> quote" "c \<noteq> backslash" by auto
    then show ?thesis
      using 4 that(3) hex_digit_16 [of "ord c div 16"] hex_digit_16 [of "ord c mod 16"]
      by (auto simp: adapter_escape_def carried_def)
  qed
qed

lemma escaped_longer: "length s \<le> length (escaped_text s)"
proof (induction s)
  case (Cons c s)
  then show ?case by (cases c rule: escape_cases) simp_all
qed simp

lemma append_escaped:
  "length buf < n \<Longrightarrow> append_json_string n buf s =
     (if length buf + length (escaped_text s) < n then Some (buf @ escaped_text s) else None)"
proof (induction s arbitrary: buf)
  case (Cons c s)
  show ?case
  proof (cases "n - length buf - 1 < length (adapter_escape c)")
    case False
    then have "length (buf @ adapter_escape c) < n" using Cons.prems by simp
    then show ?thesis using Cons.IH [of "buf @ adapter_escape c"] False Cons.prems by (simp add: add.assoc)
  qed (use Cons.prems in auto)
qed simp

lemma read_escaped:
  "\<forall>c\<in>set s. carried c \<Longrightarrow> used + length s < z \<Longrightarrow>
   read_string_loop z used (escaped_text s @ quote # r) = Inr (s, r)"
proof (induction s arbitrary: used)
  case (Cons c s)
  then have "carried c" by simp
  then show ?case
  proof (cases c rule: escape_cases)
    case 1
    then show ?thesis using Cons by (simp add: read_char_def)
  next
    case (2 e)
    then show ?thesis using Cons by (simp add: read_char_def)
  qed simp
qed simp

lemma skip_escaped: "skip_string (escaped_text s @ quote # r) = r"
proof (induction s)
  case (Cons c s)
  show ?case by (cases c rule: escape_cases) (use Cons in simp_all)
qed simp

section \<open>Finding a key\<close>

lemma find_skip: "quote \<notin> set p \<Longrightarrow> find_key_from (p @ s) (quote # n) = find_key_from s (quote # n)"
  by (subst (1 2) find_key_from.simps) (simp add: strstr_skip)

lemma find_no_match:
  "strip_prefix needle (c # s) = None \<Longrightarrow> find_key_from (c # s) needle = find_key_from s needle"
  by (subst (1 2) find_key_from.simps) simp

lemma skip_ws_colon: "skip_ws (CHR '':'' # v) = CHR '':'' # v" "skip_ws (CHR '','' # v) = CHR '','' # v"
  by (simp_all add: skip_ws_def ws_def)

lemma find_match:
  "find_key_from (quote # k @ quote # CHR '':'' # v) (quote # k @ [quote]) = Some (skip_ws v)"
  using strip_prefix_append [of "quote # k @ [quote]" "CHR '':'' # v"]
  by (subst find_key_from.simps) (simp add: skip_ws_colon Let_def)

lemma find_comma:
  "find_key_from (quote # k @ quote # CHR '','' # v) (quote # k @ [quote]) = find_key_from (CHR '','' # v) (quote # k @ [quote])"
  using strip_prefix_append [of "quote # k @ [quote]" "CHR '','' # v"]
  by (subst find_key_from.simps) (simp add: skip_ws_colon Let_def)

text \<open>Text between quotes that is not the key is passed, up to the quote that ends it.\<close>

lemma find_between:
  assumes "quote \<notin> set k" and "quote \<notin> set a" and "k \<noteq> a"
  shows "find_key_from (quote # a @ quote # s) (quote # k @ [quote]) = find_key_from (quote # s) (quote # k @ [quote])"
proof -
  have "strip_prefix (quote # k @ [quote]) (quote # a @ quote # s) = None"
    using strip_prefix_sep [OF assms(1,2), of "[]" s] assms(3) by simp
  then show ?thesis using find_skip [OF assms(2), of "quote # s"] find_no_match by simp
qed

definition quoted_parts :: "string list \<Rightarrow> string \<Rightarrow> string" where
  "quoted_parts parts s = foldr (\<lambda>a r. a @ quote # r) parts s"

lemma quoted_parts_simps [simp]:
  "quoted_parts [] s = s" "quoted_parts (a # parts) s = a @ quote # quoted_parts parts s"
  by (simp_all add: quoted_parts_def)

lemma find_past:
  assumes "quote \<notin> set k" and "\<forall>a\<in>set parts. quote \<notin> set a \<and> a \<noteq> k"
  shows "find_key_from (quote # quoted_parts parts s) (quote # k @ [quote]) = find_key_from (quote # s) (quote # k @ [quote])"
  using assms(2)
proof (induction parts)
  case (Cons a parts)
  have "k \<noteq> a" "quote \<notin> set a" using Cons.prems by auto
  then show ?case using find_between [OF assms(1)] Cons by simp
qed simp

lemma key_found:
  assumes "quote \<notin> set k" and "length k < 62" and "\<forall>a\<in>set (p # parts). quote \<notin> set a \<and> a \<noteq> k"
  shows "adapter_find_key (p @ quote # quoted_parts parts (k @ quote # CHR '':'' # v)) k = Some (skip_ws v)"
  using assms find_skip [of p] find_past [OF assms(1), of parts] find_match by (simp add: adapter_find_key_def)

text \<open>A key is not found inside an escaped text.\<close>

lemma escaped_is_key:
  "quote \<notin> set k \<Longrightarrow> backslash \<notin> set k \<Longrightarrow>
   strip_prefix (k @ [quote]) (escaped_text s @ quote # r) \<noteq> None \<Longrightarrow> escaped_text s = k"
proof (induction s arbitrary: k)
  case Nil
  then show ?case by (cases k) auto
next
  case (Cons c s)
  then show ?case by (cases c rule: escape_cases; cases k) (auto split: if_splits)
qed

lemma find_past_escaped:
  assumes "quote \<notin> set k" and "backslash \<notin> set k" and "CHR '','' \<notin> set k" and "k \<noteq> []"
  shows "find_key_from (quote # escaped_text s @ quote # CHR '','' # quote # k @ quote # CHR '':'' # v) (quote # k @ [quote])
      = Some (skip_ws v)" (is "find_key_from (quote # escaped_text s @ ?tail) ?n = _")
proof -
  have hit: "find_key_from (CHR '','' # quote # k @ quote # CHR '':'' # v) ?n = Some (skip_ws v)"
    using find_skip [of "[CHR '','']"] find_match by simp
  have quoted: "find_key_from (quote # escaped_text s @ ?tail) ?n = Some (skip_ws v)"
    if inner: "find_key_from (escaped_text s @ ?tail) ?n = Some (skip_ws v)" for s
  proof (cases "strip_prefix (k @ [quote]) (escaped_text s @ ?tail) = None")
    case True
    then show ?thesis using find_no_match [of ?n quote "escaped_text s @ ?tail"] inner by simp
  next
    case False
    then have "escaped_text s = k" using escaped_is_key assms(1,2) by blast
    then show ?thesis using find_comma hit by simp
  qed
  have "find_key_from (escaped_text s @ ?tail) ?n = Some (skip_ws v)"
  proof (induction s)
    case Nil
    have "strip_prefix ?n ?tail = None" using assms by (cases k) auto
    then show ?case using find_no_match hit by simp
  next
    case (Cons c s)
    then show ?case
    proof (cases c rule: escape_cases)
      case 1
      then show ?thesis using Cons find_skip [of "[c]"] by simp
    next
      case (2 e)
      then show ?thesis using Cons quoted [OF Cons] find_skip [of "[backslash]"] find_skip [of "[backslash, e]"]
        by (cases "e = quote") simp_all
    next
      case (3 a b)
      then show ?thesis using Cons find_skip [of "adapter_escape c"] by simp
    qed
  qed
  then show ?thesis by (rule quoted)
qed

section \<open>Brackets\<close>

lemma skip_string_append: "skip_string s \<noteq> [] \<Longrightarrow> skip_string (s @ t) = skip_string s @ t"
  by (induction s rule: skip_string.induct) (auto split: if_splits)

definition neutral :: "char \<Rightarrow> bool" where
  "neutral c \<longleftrightarrow> c \<noteq> quote \<and> c \<notin> set ''{}[]''"

lemma bracket_neutral: "\<forall>c\<in>set p. neutral c \<Longrightarrow> bracket_loop stack (p @ s) = bracket_loop stack s"
  by (induction p) (simp_all add: neutral_def)

lemma bracket_append: "bracket_loop stack s = Some r \<Longrightarrow> bracket_loop stack (s @ t) = Some (r @ t)"
proof (induction stack s rule: bracket_loop.induct)
  case (2 stack q s)
  show ?case
  proof (cases "q = quote")
    case True
    then have "skip_string s \<noteq> []" using "2.prems" by auto
    then show ?thesis using 2 True by (simp add: skip_string_append)
  next
    case False
    then show ?thesis using 2 by (auto split: if_splits list.splits)
  qed
qed simp

text \<open>A balanced text inside open brackets is passed as a whole.\<close>

lemma bracket_frame:
  "bracket_loop stack s = Some r \<Longrightarrow> base \<noteq> [] \<Longrightarrow> length stack + length base + length s \<le> LE_ADAPTER_MSG_MAX \<Longrightarrow>
   bracket_loop (stack @ base) (s @ t) = bracket_loop base (r @ t)"
proof (induction stack s rule: bracket_loop.induct)
  case (2 stack q s)
  show ?case
  proof (cases "q = quote")
    case True
    then have "skip_string s \<noteq> []" using "2.prems" by auto
    moreover have "length stack + length base + length (skip_string s) \<le> LE_ADAPTER_MSG_MAX"
      using "2.prems"(3) skip_string_length [of s] by simp
    ultimately show ?thesis using "2.IH"(1) [OF True _ "2.prems"(2)] "2.prems"(1) True
      by (simp add: skip_string_append)
  next
    case nq: False
    show ?thesis
    proof (cases "q = CHR ''{'' \<or> q = CHR ''[''")
      case True
      then have "\<not> LE_ADAPTER_MSG_MAX \<le> length (stack @ base)" "\<not> LE_ADAPTER_MSG_MAX \<le> length stack"
        using "2.prems"(3) by simp_all
      moreover from this have "bracket_loop (q # stack) s = Some r" using "2.prems"(1) nq True by simp
      ultimately show ?thesis using "2.IH"(2) [OF nq True] "2.prems"(2,3) nq True by simp
    next
      case no: False
      show ?thesis
      proof (cases "q = CHR ''}'' \<or> q = CHR '']''")
        case True
        then obtain opened outer where st: "stack = opened # outer" "closes opened q"
          using "2.prems"(1) nq no by (auto split: list.splits if_splits)
        show ?thesis
        proof (cases "outer = []")
          case True
          then show ?thesis using "2.prems"(1,2) nq no st \<open>q = CHR ''}'' \<or> q = CHR '']''\<close> by simp
        next
          case False
          then show ?thesis
            using "2.IH"(3) [OF nq no True st(1)] "2.prems" nq no st True by simp
        qed
      next
        case False
        then show ?thesis using "2.IH"(4) [OF nq no False] "2.prems" nq no by simp
      qed
    qed
  qed
qed simp

section \<open>Numbers and words\<close>

lemma digits_no_quote: "quote \<notin> set (nat_digits n)" "\<forall>c\<in>set (nat_digits n). neutral c"
proof -
  have "isdigit c \<Longrightarrow> neutral c" for c by (auto simp: isdigit_def neutral_def)
  then show "\<forall>c\<in>set (nat_digits n). neutral c" using nat_digits_digits by blast
  then show "quote \<notin> set (nat_digits n)" by (auto simp: neutral_def)
qed

lemma parse_ulong_digits:
  assumes "n < 2 ^ w"
  shows "parse_ulong_value w (nat_digits n @ CHR '','' # s) = Some n"
proof -
  have first: "nat_digits n @ CHR '','' # s \<noteq> []" "isdigit (hd (nat_digits n @ CHR '','' # s))"
    using nat_digits_nonempty [of n] nat_digits_digits [of n] by (cases "nat_digits n"; simp)+
  have "strtoul w (nat_digits n @ CHR '','' # s) = Some (n, False, CHR '','' # s)"
    by (rule strtoul_digits [OF assms]) (simp add: isdigit_def)
  then show ?thesis using first unfolding parse_ulong_value_def by (simp add: skip_ws_colon)
qed

lemma one_digit: "CHR ''1'' # s = nat_digits 1 @ s"
proof -
  have "char_of (49 :: nat) = CHR ''1''" by code_simp
  then show ?thesis by (simp add: nat_digits.simps [of "Suc 0"])
qed

lemma parse_version: "0 < w \<Longrightarrow> parse_ulong_value w (CHR ''1'' # CHR '','' # s) = Some LE_ADAPTER_PROTO_VERSION"
  unfolding one_digit LE_ADAPTER_PROTO_VERSION_def by (rule parse_ulong_digits) (simp add: one_less_power flip: One_nat_def)

lemma skip_ws_digits: "skip_ws (nat_digits n @ s) = nat_digits n @ s"
proof -
  obtain c cs where c: "nat_digits n = c # cs" using nat_digits_nonempty by (cases "nat_digits n") auto
  then have "isdigit c" using nat_digits_digits [of n] by simp
  then show ?thesis using c by (auto simp: skip_ws_def ws_def isdigit_def)
qed

lemma skip_ws_here: "\<not> ws c \<Longrightarrow> skip_ws (c # s) = c # s"
  by (simp add: skip_ws_def)

text \<open>The beginning all answers and requests share.\<close>

definition message :: "nat \<Rightarrow> string \<Rightarrow> string" where
  "message ident s = ''{\"v\":1,\"id\":'' @ nat_digits ident @ CHR '','' # quote # s"

lemma message_version:
  assumes "0 < w"
  shows "Option.bind (adapter_find_key (message ident s) ''v'') (parse_ulong_value w) = Some LE_ADAPTER_PROTO_VERSION"
proof -
  have "message ident s = ''{'' @ quote # quoted_parts [] (''v'' @ quote # CHR '':'' # ''1,\"id\":'' @ nat_digits ident @ CHR '','' # quote # s)"
    by (simp add: message_def)
  then have "adapter_find_key (message ident s) ''v'' = Some (skip_ws (''1,\"id\":'' @ nat_digits ident @ CHR '','' # quote # s))"
    by (simp only:) (rule key_found; simp)
  then show ?thesis using parse_version [OF assms] by (simp add: skip_ws_here ws_def)
qed

lemma message_id: "adapter_find_key (message ident s) ''id'' = Some (nat_digits ident @ CHR '','' # quote # s)"
proof -
  have "message ident s = ''{'' @ quote # quoted_parts [''v'', '':1,''] (''id'' @ quote # CHR '':'' # nat_digits ident @ CHR '','' # quote # s)"
    by (simp add: message_def)
  then have "adapter_find_key (message ident s) ''id'' = Some (skip_ws (nat_digits ident @ CHR '','' # quote # s))"
    by (simp only:) (rule key_found; simp)
  then show ?thesis by (simp add: skip_ws_digits)
qed

lemma message_key:
  assumes "quote \<notin> set k" and "length k < 62" and "k \<noteq> ''v''" and "k \<noteq> ''id''" and "CHR '':'' \<notin> set k" and "CHR ''{'' \<notin> set k"
    and "\<forall>a\<in>set parts. quote \<notin> set a \<and> a \<noteq> k"
  shows "adapter_find_key (message ident (quoted_parts parts (k @ quote # CHR '':'' # v))) k = Some (skip_ws v)"
proof -
  let ?first = "[''v'', '':1,'', ''id'', CHR '':'' # nat_digits ident @ [CHR '','']]"
  have "\<forall>a\<in>set (''{'' # ?first). quote \<notin> set a \<and> a \<noteq> k"
    using assms(3-6) digits_no_quote(1) [of ident] by (simp only: set_simps ball_simps) (auto simp del: append_Cons)
  then have "\<forall>a\<in>set (''{'' # ?first @ parts). quote \<notin> set a \<and> a \<noteq> k"
    using assms(7) by (simp only: set_simps set_append) blast
  then have "adapter_find_key (''{'' @ quote # quoted_parts (?first @ parts) (k @ quote # CHR '':'' # v)) k = Some (skip_ws v)"
    by (rule key_found [OF assms(1,2)])
  then show ?thesis by (simp add: message_def)
qed

section \<open>The request arrives\<close>

definition request_text :: "nat \<Rightarrow> string \<Rightarrow> string \<Rightarrow> string" where
  "request_text ident cmd args =
     message ident (''cmd'' @ quote # '':'' @ quote # escaped_text cmd @ quote # '','' @ quote # ''args'' @ quote # CHR '':'' #
       args @ ''}'' @ [line_feed])"

text \<open>A text in braces that closes at its end.\<close>

definition object_text :: "string \<Rightarrow> bool" where
  "object_text s \<longleftrightarrow> (\<exists>u. s = CHR ''{'' # u) \<and> json_value_end s = Some []"

lemma object_text_here: "object_text s \<Longrightarrow> skip_ws (s @ t) = s @ t"
  by (auto simp: object_text_def skip_ws_def ws_def)

lemma compose_text:
  assumes "object_text args" and "length (request_text ident cmd args) < LE_ADAPTER_MSG_MAX"
  shows "compose_request ident cmd args = Some (request_text ident cmd args)"
proof -
  have here: "skip_ws args = args" using object_text_here [OF assms(1), of "[]"] by simp
  have obj: "json_value_end args = Some []" "hd args = CHR ''{''" using assms(1) by (auto simp: object_text_def)
  show ?thesis
    using assms(2) obj here
    by (simp add: compose_request_def append_text_def append_escaped request_text_def message_def Let_def skip_ws_def)
qed

lemma message_brackets: "json_value_end (message ident s) = bracket_loop ''{'' (quote # s)"
  using bracket_neutral [OF digits_no_quote(2), of "''{''" ident "CHR '','' # quote # s"]
  by (simp add: message_def json_value_end_def LE_ADAPTER_MSG_MAX_def)

lemma object_framed:
  assumes "object_text s" and "length s < LE_ADAPTER_MSG_MAX"
  shows "bracket_loop ''{'' (s @ CHR ''}'' # t) = Some t"
proof -
  have "bracket_loop [] s = Some []" using assms(1) by (auto simp: object_text_def json_value_end_def)
  from bracket_frame [OF this, of "''{''" "CHR ''}'' # t"] show ?thesis
    using assms(2) by (simp add: closes_def)
qed

lemma request_brackets:
  assumes "object_text args" and "length args < LE_ADAPTER_MSG_MAX"
  shows "json_value_end (request_text ident cmd args) = Some [line_feed]"
  using object_framed [OF assms] skip_escaped [of cmd]
  by (simp add: request_text_def message_brackets)

lemma skip_line_feed: "skip_ws [line_feed] = []" "skip_ws (CHR ''}'' # s) = CHR ''}'' # s"
  by (simp_all add: skip_ws_def ws_def line_feed_def char_eq_ord)

lemma request_command:
  "adapter_find_key (request_text ident cmd args) ''cmd'' =
     Some (quote # escaped_text cmd @ quote # '','' @ quote # ''args'' @ quote # CHR '':'' # args @ ''}'' @ [line_feed])"
  using message_key [of "''cmd''" "[]" ident]
  by (simp add: request_text_def skip_ws_here ws_def)

lemma request_arguments:
  assumes "object_text args"
  shows "adapter_find_key (request_text ident cmd args) ''args'' = Some (args @ ''}'' @ [line_feed])"
proof -
  let ?tail = "quote # escaped_text cmd @ quote # CHR '','' # quote # ''args'' @ quote # CHR '':'' # args @ ''}'' @ [line_feed]"
  let ?parts = "[''v'', '':1,'', ''id'', CHR '':'' # nat_digits ident @ [CHR '',''], ''cmd'']"
  have "find_key_from (request_text ident cmd args) (quote # ''args'' @ [quote]) =
      find_key_from (quote # quoted_parts ?parts (CHR '':'' # ?tail)) (quote # ''args'' @ [quote])"
    using find_skip [of "''{''"] by (simp add: request_text_def message_def)
  also have "\<dots> = find_key_from (quote # CHR '':'' # ?tail) (quote # ''args'' @ [quote])"
    using digits_no_quote(1) [of ident] by (intro find_past) auto
  also have "\<dots> = find_key_from ?tail (quote # ''args'' @ [quote])"
    using find_no_match [of "quote # ''args'' @ [quote]" quote "CHR '':'' # ?tail"] find_skip [of "'':''"] by simp
  also have "\<dots> = Some (skip_ws (args @ ''}'' @ [line_feed]))"
    by (rule find_past_escaped) simp_all
  finally show ?thesis using object_text_here [OF assms] by (simp add: adapter_find_key_def)
qed

lemma request_parsed:
  assumes "object_text args" and "length args < LE_ADAPTER_MSG_MAX" and "ident < 2 ^ w" and "0 < w"
    and "\<forall>c\<in>set cmd. carried c" and "length cmd < cmd_size"
  shows "le_adapter_parse_request w cmd_size (request_text ident cmd args) initial = (Some (cmd, args), ident)"
proof -
  have cmd: "json_read_string cmd_size (quote # escaped_text cmd @ quote # s) = Inr (cmd, s)" for s
    using read_escaped [OF assms(5), of 0 cmd_size s] assms(6) by (simp add: json_read_string_def)
  have idn: "Option.bind (adapter_find_key (request_text ident cmd args) ''id'') (parse_ulong_value w) = Some ident"
    using parse_ulong_digits [OF assms(3)] by (simp add: request_text_def message_id)
  have ver: "Option.bind (adapter_find_key (request_text ident cmd args) ''v'') (parse_ulong_value w) = Some LE_ADAPTER_PROTO_VERSION"
    unfolding request_text_def by (rule message_version [OF assms(4)])
  obtain u where u: "args = CHR ''{'' # u" using assms(1) by (auto simp: object_text_def)
  have "json_value_end args = Some []" using assms(1) by (simp add: object_text_def)
  then have e: "json_value_end (args @ ''}'' @ [line_feed]) = Some (''}'' @ [line_feed])"
    using bracket_append [of "[]" args "[]" "''}'' @ [line_feed]"] u by (simp add: json_value_end_def)
  show ?thesis
    unfolding le_adapter_parse_request_def request_brackets [OF assms(1,2)] option.case skip_line_feed ver idn
      request_command option.map cmd sum.case request_arguments [OF assms(1)] e
    using u by (simp add: skip_ws_colon skip_line_feed)
qed

section \<open>The answer arrives\<close>

definition ok_line :: "nat \<Rightarrow> string \<Rightarrow> string" where
  "ok_line ident data = message ident (''ok'' @ quote # '':true,'' @ quote # ''data'' @ quote # CHR '':'' # data @ ''}'')"

definition err_line :: "nat \<Rightarrow> string \<Rightarrow> string" where
  "err_line ident e =
     message ident (''ok'' @ quote # '':false,'' @ quote # ''error'' @ quote # '':'' @ quote # escaped_text e @ quote # ''}'')"

definition event_line :: "string \<Rightarrow> string \<Rightarrow> string" where
  "event_line event_type data =
     ''{\"v\":1,\"event\":\"'' @ escaped_text event_type @ quote # '',\"data\":'' @ data @ ''}''"

lemma respond_lines:
  "le_adapter_respond_ok n ident data =
     (if length (ok_line ident data) + 1 < n then Some (ok_line ident data @ [line_feed]) else None)"
  "le_adapter_respond_err n ident e =
     (if length (err_line ident e) + 1 < n then Some (err_line ident e @ [line_feed]) else None)"
  "le_adapter_format_event n event_type data =
     (if length (event_line event_type data) + 1 < n then Some (event_line event_type data @ [line_feed]) else None)"
  by (auto simp: le_adapter_respond_ok_def le_adapter_respond_err_def le_adapter_format_event_def append_text_def
      append_escaped ok_line_def err_line_def event_line_def message_def)

lemma ok_classified:
  assumes "ident < 2 ^ w" and "0 < w"
  shows "classify w ident (ok_line ident data) = Accepted"
proof -
  have "adapter_find_key (ok_line ident data) ''ok'' = Some (''true,\"data\":'' @ data @ ''}'')"
    using message_key [of "''ok''" "[]" ident] by (simp add: ok_line_def skip_ws_here ws_def)
  moreover have "adapter_find_key (ok_line ident data) ''id'' =
      Some (nat_digits ident @ CHR '','' # quote # ''ok'' @ quote # '':true,'' @ quote # ''data'' @ quote # CHR '':'' # data @ ''}'')"
    by (simp add: ok_line_def message_id)
  ultimately show ?thesis
    using message_version [OF assms(2)] parse_ulong_digits [OF assms(1)]
    unfolding classify_def by (simp add: ok_line_def parse_bool_value_def)
qed

lemma err_classified:
  assumes "ident < 2 ^ w" and "0 < w"
  shows "classify w ident (err_line ident e) = Rejected"
proof -
  let ?rest = "quote # ''error'' @ quote # '':'' @ quote # escaped_text e @ quote # ''}''"
  have "adapter_find_key (err_line ident e) ''ok'' = Some (''false,'' @ ?rest)"
    using message_key [of "''ok''" "[]" ident] by (simp add: err_line_def skip_ws_here ws_def)
  moreover have "adapter_find_key (err_line ident e) ''id'' =
      Some (nat_digits ident @ CHR '','' # quote # ''ok'' @ quote # '':false,'' @ ?rest)"
    by (simp add: err_line_def message_id)
  ultimately show ?thesis
    using message_version [OF assms(2)] parse_ulong_digits [OF assms(1)]
    unfolding classify_def by (simp add: err_line_def parse_bool_value_def)
qed

lemma ok_data:
  assumes "json_value_end data = Some []" and "length data < out_size"
  shows "accepted_data out_size (ok_line ident data) = Inr data"
proof -
  obtain q u where u: "data = q # u" "q = CHR ''{'' \<or> q = CHR ''[''"
    using assms(1) by (cases data) (auto simp: json_value_end_def split: if_splits)
  then have "adapter_find_key (ok_line ident data) ''data'' = Some (data @ ''}'')"
    using message_key [of "''data''" "[''ok'', '':true,'']" ident] by (auto simp: ok_line_def skip_ws_here ws_def)
  moreover have "json_value_end (data @ ''}'') = Some ''}''"
    using bracket_append [of "[]" data "[]" "''}''"] assms(1) u by (auto simp: json_value_end_def)
  ultimately show ?thesis
    using assms(2) by (simp add: accepted_data_def skip_line_feed Let_def)
qed

lemma err_value: "adapter_find_key (err_line ident e) ''error'' = Some (quote # escaped_text e @ quote # ''}'')"
  using message_key [of "''error''" "[''ok'', '':false,'']" ident] by (simp add: err_line_def skip_ws_here ws_def)

lemma err_text:
  assumes "\<forall>c\<in>set e. carried c" and "length e < LE_ADAPTER_MSG_MAX"
  shows "rejected_text out_size (err_line ident e) = (LE_ADAPTER_ERR_REJECTED, take (out_size - 1) e)"
  using read_escaped [OF assms(1), of 0 LE_ADAPTER_MSG_MAX] assms(2)
  by (simp add: rejected_text_def err_value json_read_string_def)

text \<open>An event that carries no id is passed over.\<close>

definition quiet_event :: "string \<Rightarrow> bool" where
  "quiet_event line \<longleftrightarrow> (\<exists>event_type data. line = event_line event_type data \<and> (\<forall>c\<in>set event_type. carried c) \<and>
     length event_type < LE_ADAPTER_MSG_MAX) \<and> adapter_find_key line ''id'' = None"

lemma event_classified:
  assumes "quiet_event line" and "0 < w"
  shows "classify w ident line = Event"
proof -
  obtain event_type data where line: "line = event_line event_type data" "\<forall>c\<in>set event_type. carried c"
      "length event_type < LE_ADAPTER_MSG_MAX" and no_id: "adapter_find_key line ''id'' = None"
    using assms(1) by (auto simp: quiet_event_def)
  let ?contents = "quote # escaped_text event_type @ quote # '',\"data\":'' @ data @ ''}''"
  have "line = ''{'' @ quote # quoted_parts [] (''v'' @ quote # CHR '':'' # ''1,\"event\":'' @ ?contents)"
    by (simp add: line event_line_def)
  then have "adapter_find_key line ''v'' = Some (skip_ws (''1,\"event\":'' @ ?contents))"
    by (simp only:) (rule key_found; simp)
  then have ver: "Option.bind (adapter_find_key line ''v'') (parse_ulong_value w) = Some LE_ADAPTER_PROTO_VERSION"
    using parse_version [OF assms(2)] by (simp add: skip_ws_here ws_def)
  have "line = ''{'' @ quote # quoted_parts [''v'', '':1,''] (''event'' @ quote # CHR '':'' # ?contents)"
    by (simp add: line event_line_def)
  then have "adapter_find_key line ''event'' = Some (skip_ws ?contents)"
    by (simp only:) (rule key_found; simp)
  then show ?thesis
    using ver no_id read_escaped [OF line(2), of 0 LE_ADAPTER_MSG_MAX] line(3)
    by (simp add: classify_def skip_ws_here ws_def json_read_string_def)
qed

lemma events_skipped:
  "\<forall>line\<in>set events. quiet_event line \<Longrightarrow> 0 < w \<Longrightarrow> skipped + length events \<le> LE_ADAPTER_MAX_SKIPPED_EVENTS \<Longrightarrow>
   await_reply w ident out_size skipped (map Inr events @ lines) = await_reply w ident out_size (skipped + length events) lines"
  by (induction events arbitrary: skipped) (simp_all add: event_classified)

section \<open>Calls\<close>



lemma read_control:
  "\<exists>c\<in>set s. \<not> carried c \<Longrightarrow> used + length s < z \<Longrightarrow>
   read_string_loop z used (escaped_text s @ quote # r) = Inl Malformed"
proof (induction s arbitrary: used)
  case (Cons c s)
  show ?case
  proof (cases c rule: escape_cases)
    case 1
    then show ?thesis using Cons by (auto simp: read_char_def carried_def)
  next
    case (2 e)
    then show ?thesis using Cons by (auto simp: read_char_def)
  next
    case (3 a b)
    then show ?thesis by (simp add: read_char_def unicode_escape_def hex_value_def split: option.split)
  qed
qed simp

text \<open>
  A refusal whose text has a control character is not understood.  The writer escapes the character
  with the four digits of its code, the reader takes the first two of them, which are zeros: the caller
  gets a protocol error and loses the text of the refusal.\<close>

theorem adapter_control_refusal_lost:
  assumes "0 < w" and "0 < ident" and "ident < 2 ^ w" and "object_text args" and "\<forall>c\<in>set cmd. carried c"
    and "length cmd < 64" and "length (request_text ident cmd args) < LE_ADAPTER_MSG_MAX"
    and "dispatch cmd args = Inl e" and "\<exists>c\<in>set e. \<not> carried c" and "length (err_line ident e) + 1 < LE_ADAPTER_MSG_MAX"
  shows "fst (le_adapter_call w
      (\<lambda>request. map Inr (map butlast (case serve_client w dispatch request of None \<Rightarrow> [] | Some line \<Rightarrow> [line])))
      ident cmd args out_size) = (Some LE_ADAPTER_ERR_PROTO, [])"
proof -
  have len: "length args < LE_ADAPTER_MSG_MAX" using assms(7) by (simp add: request_text_def message_def)
  note parsed = request_parsed [OF assms(4) len assms(3,1,5,6), where initial = 0]
  have "length e < LE_ADAPTER_MSG_MAX" using escaped_longer [of e] assms(10) by (simp add: err_line_def message_def)
  then have "rejected_text out_size (err_line ident e) = (LE_ADAPTER_ERR_PROTO, [])"
    using read_control [OF assms(9), of 0 LE_ADAPTER_MSG_MAX]
    by (simp add: rejected_text_def err_value json_read_string_def)
  moreover have "serve_client w dispatch (request_text ident cmd args) = Some (err_line ident e @ [line_feed])"
    using parsed assms(8,10) by (simp add: serve_client_def respond_lines)
  ultimately show ?thesis
    using assms(2) err_classified [OF assms(3,1)] by (simp add: le_adapter_call_def compose_text [OF assms(4,7)])
qed

theorem adapter_control_refusal_lost_witness:
  "fst (le_adapter_call 64
      (\<lambda>request. map Inr (map butlast
        (case serve_client 64 (\<lambda>cmd args. Inl [char_of (27 :: nat)]) request of None \<Rightarrow> [] | Some line \<Rightarrow> [line])))
      7 ''status'' ''{}'' 20) = (Some LE_ADAPTER_ERR_PROTO, [])"
proof (rule adapter_control_refusal_lost)
  show "object_text ''{}''" unfolding object_text_def by (intro conjI exI [of _ "''}''"]) (simp, code_simp)
  show "length (request_text 7 ''status'' ''{}'') < LE_ADAPTER_MSG_MAX" by code_simp
  show "length (err_line 7 [char_of (27 :: nat)]) + 1 < LE_ADAPTER_MSG_MAX" by code_simp
qed (simp_all add: carried_def)

section \<open>Lines\<close>

fun arrivals :: "read_event list \<Rightarrow> nat" where
  "arrivals [] = 0"
| "arrivals (ev # es) = (case ev of Arrive k \<Rightarrow> 1 | _ \<Rightarrow> 0) + arrivals es"

definition no_failure :: "read_event \<Rightarrow> bool" where
  "no_failure ev = (case ev of Arrive k \<Rightarrow> 0 < k | Again \<Rightarrow> True | Failed e \<Rightarrow> False)"

lemma takeWhile_line: "line_feed \<notin> set line \<Longrightarrow> takeWhile (\<lambda>c. c \<noteq> line_feed) (line @ line_feed # r) = line"
  using takeWhile_all_append [of line "\<lambda>c. c \<noteq> line_feed" "line_feed # r"] by fastforce

lemma line_later:
  assumes "input @ wire = line @ line_feed # rest" and "line_feed \<notin> set input"
  obtains u where "line = input @ u" "wire = u @ line_feed # rest"
proof -
  obtain us where "input = line @ us \<and> us @ wire = line_feed # rest \<or> input @ us = line \<and> wire = us @ line_feed # rest"
    using assms(1) unfolding append_eq_append_conv2 by blast
  then show ?thesis using that assms(2) by (cases us) auto
qed

lemma line_in_input:
  assumes "input @ wire = line @ line_feed # rest" and "line_feed \<in> set input" and "line_feed \<notin> set line"
  obtains more where "input = line @ line_feed # more" "more @ wire = rest"
proof -
  obtain us where "input = line @ us \<and> us @ wire = line_feed # rest \<or> input @ us = line \<and> wire = us @ line_feed # rest"
    using assms(1) unfolding append_eq_append_conv2 by blast
  then show ?thesis using that assms(2,3) by (cases us) auto
qed

lemma line_here:
  assumes "input @ wire = line @ line_feed # rest" and "length line < length input"
  obtains more where "input = line @ line_feed # more" "more @ wire = rest"
proof -
  obtain us where "input = line @ us \<and> us @ wire = line_feed # rest \<or> input @ us = line \<and> wire = us @ line_feed # rest"
    using assms(1) unfolding append_eq_append_conv2 by blast
  then show ?thesis using that assms(2) by (cases us) auto
qed

text \<open>
  A line is put together however it arrives.  Whatever part of it was read before and however many
  bytes each read gives, the next line of the stream is returned and nothing after it is lost.\<close>

theorem adapter_line_reassembled:
  assumes "input @ wire = line @ line_feed # rest" and "line_feed \<notin> set line" and "length line < n"
    and "2 \<le> n" and "n \<le> LE_ADAPTER_MSG_MAX" and "\<forall>ev\<in>set events. no_failure ev"
    and "length line + 1 \<le> length input + arrivals events"
  shows "case read_line n input wire events of (got, input1, wire1, events1) \<Rightarrow>
    got = Inr line \<and> input1 @ wire1 = rest"
  using assms
proof (induction events arbitrary: input wire)
  case Nil
  then have "length line < length input" by simp
  then obtain more where m: "input = line @ line_feed # more" "more @ wire = rest"
    using line_here Nil.prems(1) by blast
  then show ?case using Nil.prems takeWhile_line [OF Nil.prems(2)] by (subst read_line.simps) (simp add: Let_def)
next
  case (Cons ev es)
  show ?case
  proof (cases "line_feed \<in> set input")
    case True
    then obtain more where m: "input = line @ line_feed # more" "more @ wire = rest"
      using Cons.prems(1,2) line_in_input by blast
    then show ?thesis using Cons.prems takeWhile_line [OF Cons.prems(2)] by (subst read_line.simps) (simp add: Let_def)
  next
    case False
    then obtain u where u: "line = input @ u" "wire = u @ line_feed # rest"
      using Cons.prems(1) line_later by blast
    have room: "length input < LE_ADAPTER_MSG_MAX" using Cons.prems(3,5) u(1) by simp
    show ?thesis
    proof (cases ev)
      case (Arrive k)
      define b where "b = take (min k (LE_ADAPTER_MSG_MAX - length input)) wire"
      have k: "0 < k" using Cons.prems(6) Arrive by (simp add: no_failure_def)
      have "wire \<noteq> []" using u(2) by simp
      then have "b \<noteq> []" using k room by (simp add: b_def)
      moreover have "b @ drop (length b) wire = wire"
        unfolding b_def length_take by (simp add: min_def)
      ultimately have b: "b \<noteq> []" "(input @ b) @ drop (length b) wire = line @ line_feed # rest"
        using Cons.prems(1) by simp_all
      have "length line + 1 \<le> length (input @ b) + arrivals es"
        using Cons.prems(7) Arrive b(1) by (cases b) simp_all
      then have "case read_line n (input @ b) (drop (length b) wire) es of (got, input1, wire1, events1) \<Rightarrow>
          got = Inr line \<and> input1 @ wire1 = rest"
        using Cons.IH [OF b(2)] Cons.prems by simp
      then show ?thesis
        using False room Arrive b(1) Cons.prems(4)
        by (subst read_line.simps) (simp add: Let_def flip: b_def)
    next
      case Again
      then show ?thesis using Cons False room by (subst read_line.simps) simp
    next
      case (Failed e)
      then show ?thesis using Cons.prems(6) by (simp add: no_failure_def)
    qed
  qed
qed

theorem adapter_line_reassembled_witness:
  "case read_line 4096 ''ab'' (''c'' @ line_feed # ''de'') [Again, Arrive 1, Arrive 5] of (got, input1, wire1, events1) \<Rightarrow>
    got = Inr ''abc'' \<and> input1 @ wire1 = ''de''"
  by (rule adapter_line_reassembled)
    (simp_all add: line_feed_def char_eq_ord LE_ADAPTER_MSG_MAX_def no_failure_def)

end
