(* ===== verification/Auth_Sha.thy ===== *)
theory Auth_Sha
  imports Echo_Prelude
begin

text \<open>
  The hash of src/auth.c: its compression function, the buffered update and the padding, and what
  they compute, which is SHA-256 of all the bytes given.

  The block and its fill level are one list, the bytes in use; the bytes beyond are never read before
  they are written.
\<close>

unbundle bit_operations_syntax

section \<open>The compression function\<close>

definition rotr :: "u32 \<Rightarrow> nat \<Rightarrow> u32" where
  "rotr x n = drop_bit n x OR push_bit (32 - n) x"

definition ch :: "u32 \<Rightarrow> u32 \<Rightarrow> u32 \<Rightarrow> u32" where
  "ch x y z = (x AND y) XOR (NOT x AND z)"

definition maj :: "u32 \<Rightarrow> u32 \<Rightarrow> u32 \<Rightarrow> u32" where
  "maj x y z = (x AND y) XOR (x AND z) XOR (y AND z)"

definition round_constants :: "u32 list" where
  "round_constants = concat
    [[0x428a2f98, 0x71374491, 0xb5c0fbcf, 0xe9b5dba5], [0x3956c25b, 0x59f111f1, 0x923f82a4, 0xab1c5ed5],
     [0xd807aa98, 0x12835b01, 0x243185be, 0x550c7dc3], [0x72be5d74, 0x80deb1fe, 0x9bdc06a7, 0xc19bf174],
     [0xe49b69c1, 0xefbe4786, 0x0fc19dc6, 0x240ca1cc], [0x2de92c6f, 0x4a7484aa, 0x5cb0a9dc, 0x76f988da],
     [0x983e5152, 0xa831c66d, 0xb00327c8, 0xbf597fc7], [0xc6e00bf3, 0xd5a79147, 0x06ca6351, 0x14292967],
     [0x27b70a85, 0x2e1b2138, 0x4d2c6dfc, 0x53380d13], [0x650a7354, 0x766a0abb, 0x81c2c92e, 0x92722c85],
     [0xa2bfe8a1, 0xa81a664b, 0xc24b8b70, 0xc76c51a3], [0xd192e819, 0xd6990624, 0xf40e3585, 0x106aa070],
     [0x19a4c116, 0x1e376c08, 0x2748774c, 0x34b0bcb5], [0x391c0cb3, 0x4ed8aa4a, 0x5b9cca4f, 0x682e6ff3],
     [0x748f82ee, 0x78a5636f, 0x84c87814, 0x8cc70208], [0x90befffa, 0xa4506ceb, 0xbef9a3f7, 0xc67178f2]]"

definition initial_hash :: "u32 list" where
  "initial_hash =
    [0x6a09e667, 0xbb67ae85, 0x3c6ef372, 0xa54ff53a, 0x510e527f, 0x9b05688c, 0x1f83d9ab, 0x5be0cd19]"

definition word_at :: "8 word list \<Rightarrow> nat \<Rightarrow> u32" where
  "word_at b i =
     push_bit 24 (ucast (b ! (i * 4))) OR push_bit 16 (ucast (b ! (i * 4 + 1))) OR
     push_bit 8 (ucast (b ! (i * 4 + 2))) OR ucast (b ! (i * 4 + 3))"

definition next_word :: "u32 list \<Rightarrow> nat \<Rightarrow> u32" where
  "next_word w i =
     (let s0 = rotr (w ! (i - 15)) 7 XOR rotr (w ! (i - 15)) 18 XOR drop_bit 3 (w ! (i - 15));
          s1 = rotr (w ! (i - 2)) 17 XOR rotr (w ! (i - 2)) 19 XOR drop_bit 10 (w ! (i - 2))
      in w ! (i - 16) + s0 + w ! (i - 7) + s1)"

definition schedule :: "8 word list \<Rightarrow> u32 list" where
  "schedule b = fold (\<lambda>i w. w @ [next_word w i]) [16..<64] (map (word_at b) [0..<16])"

type_synonym registers = "u32 \<times> u32 \<times> u32 \<times> u32 \<times> u32 \<times> u32 \<times> u32 \<times> u32"

fun sha_round :: "u32 \<times> u32 \<Rightarrow> registers \<Rightarrow> registers" where
  "sha_round (k, w) (a, b, c, d, e, f, g, h) =
     (let s1 = rotr e 6 XOR rotr e 11 XOR rotr e 25;
          t1 = h + s1 + ch e f g + k + w;
          s0 = rotr a 2 XOR rotr a 13 XOR rotr a 22;
          t2 = s0 + maj a b c
      in (t1 + t2, a, b, c, d + t1, e, f, g))"

definition sha256_block :: "u32 list \<Rightarrow> 8 word list \<Rightarrow> u32 list" where
  "sha256_block h b =
     (case fold sha_round (zip round_constants (schedule b)) (h ! 0, h ! 1, h ! 2, h ! 3, h ! 4, h ! 5, h ! 6, h ! 7) of
        (r0, r1, r2, r3, r4, r5, r6, r7) \<Rightarrow>
          [h ! 0 + r0, h ! 1 + r1, h ! 2 + r2, h ! 3 + r3, h ! 4 + r4, h ! 5 + r5, h ! 6 + r6, h ! 7 + r7])"

section \<open>The buffered hash\<close>

record sha256 =
  sh_h :: "u32 list"
  sh_bits :: u64
  sh_block :: "8 word list"

definition sha256_init :: sha256 where
  "sha256_init = \<lparr>sh_h = initial_hash, sh_bits = 0, sh_block = []\<rparr>"

text \<open>The loop fills the block; it never starts with a full one, where it would not advance.\<close>

function sha256_update :: "sha256 \<Rightarrow> 8 word list \<Rightarrow> sha256" where
  "sha256_update ctx bytes =
     (if bytes = [] \<or> 64 \<le> length (sh_block ctx) then ctx
      else
        (let n = min (64 - length (sh_block ctx)) (length bytes);
             block = sh_block ctx @ take n bytes;
             ctx1 = ctx\<lparr>sh_block := block, sh_bits := sh_bits ctx + of_nat n * 8\<rparr>;
             ctx2 = (if length block = 64 then ctx1\<lparr>sh_h := sha256_block (sh_h ctx1) block, sh_block := []\<rparr> else ctx1)
         in sha256_update ctx2 (drop n bytes)))"
  by auto
termination by (relation "measure (length o snd)") auto

declare sha256_update.simps [simp del]

text \<open>Zeros up to the length of the last block; the block never holds more than 64 bytes.\<close>

function pad_block :: "u32 list \<Rightarrow> 8 word list \<Rightarrow> u32 list \<times> 8 word list" where
  "pad_block h block =
     (if length block = 56 \<or> 64 < length block then (h, block)
      else if length block = 64 then pad_block (sha256_block h block) [0]
      else pad_block h (block @ [0]))"
  by auto
termination
  by (relation "measure (\<lambda>(h, block). if length block \<le> 56 then 56 - length block else 120 - length block)") auto

declare pad_block.simps [simp del]

definition length_bytes :: "u64 \<Rightarrow> 8 word list" where
  "length_bytes bits = map (\<lambda>i. ucast (drop_bit (56 - i * 8) bits)) [0..<8]"

definition word_bytes :: "u32 \<Rightarrow> 8 word list" where
  "word_bytes x = [ucast (drop_bit 24 x), ucast (drop_bit 16 x), ucast (drop_bit 8 x), ucast x]"

definition sha256_final :: "sha256 \<Rightarrow> 8 word list" where
  "sha256_final ctx =
     (let (h, block) = pad_block (sh_h ctx) (sh_block ctx @ [0x80])
      in concat (map word_bytes (sha256_block h (block @ length_bytes (sh_bits ctx)))))"

section \<open>SHA-256\<close>

text \<open>The reference: all whole blocks of the padded message, one after the other.\<close>

function absorb :: "u32 list \<Rightarrow> 8 word list \<Rightarrow> u32 list \<times> 8 word list" where
  "absorb h m = (if length m < 64 then (h, m) else absorb (sha256_block h (take 64 m)) (drop 64 m))"
  by auto
termination by (relation "measure (length o snd)") auto

declare absorb.simps [simp del]

definition padding :: "nat \<Rightarrow> 8 word list" where
  "padding n = 0x80 # replicate ((119 - n mod 64) mod 64) 0 @ length_bytes (of_nat n * 8)"

definition sha256_of :: "8 word list \<Rightarrow> 8 word list" where
  "sha256_of m = concat (map word_bytes (fst (absorb initial_hash (m @ padding (length m)))))"

lemma absorb_short: "length m < 64 \<Longrightarrow> absorb h m = (h, m)"
  by (subst absorb.simps) simp

lemma absorb_block: "length b = 64 \<Longrightarrow> absorb h (b @ m) = absorb (sha256_block h b) m"
  by (subst absorb.simps) simp

lemma absorb_append: "absorb h (m @ n) = (case absorb h m of (h', r) \<Rightarrow> absorb h' (r @ n))"
proof (induction h m rule: absorb.induct)
  case (1 h m)
  show ?case
  proof (cases "length m < 64")
    case True
    then show ?thesis by (simp add: absorb_short)
  next
    case False
    have "absorb h ((take 64 m @ drop 64 m) @ n) = absorb (sha256_block h (take 64 m)) (drop 64 m @ n)"
      using False absorb_block [of "take 64 m" h "drop 64 m @ n"] by (simp only: append_assoc) simp
    then have "absorb h (m @ n) = absorb (sha256_block h (take 64 m)) (drop 64 m @ n)"
      by (simp only: append_take_drop_id)
    moreover have "absorb h m = absorb (sha256_block h (take 64 m)) (drop 64 m)"
      using False by (subst absorb.simps) simp
    ultimately show ?thesis using 1 False by simp
  qed
qed

lemma absorb_rest: "length (snd (absorb h m)) = length m mod 64"
proof (induction h m rule: absorb.induct)
  case (1 h m)
  show ?case
  proof (cases "length m < 64")
    case False
    then have "length (snd (absorb h m)) = (length m - 64) mod 64" using 1 by (subst absorb.simps) simp
    then show ?thesis using False by (simp add: le_mod_geq)
  qed (simp add: absorb_short)
qed

text \<open>An update absorbs the bytes after those of the block.\<close>

lemma update_absorbs:
  "length (sh_block ctx) < 64 \<Longrightarrow>
   sha256_update ctx m =
     (case absorb (sh_h ctx) (sh_block ctx @ m) of (h, r) \<Rightarrow>
        \<lparr>sh_h = h, sh_bits = sh_bits ctx + of_nat (length m) * 8, sh_block = r\<rparr>)"
proof (induction ctx m rule: sha256_update.induct)
  case (1 ctx m)
  show ?case
  proof (cases "m = []")
    case True
    then show ?thesis using 1(2) by (subst sha256_update.simps) (simp add: absorb_short)
  next
    case False
    define n where "n = min (64 - length (sh_block ctx)) (length m)"
    define block where "block = sh_block ctx @ take n m"
    define ctx1 where "ctx1 = ctx\<lparr>sh_block := block, sh_bits := sh_bits ctx + of_nat n * 8\<rparr>"
    define ctx2 where
      "ctx2 = (if length block = 64 then ctx1\<lparr>sh_h := sha256_block (sh_h ctx1) block, sh_block := []\<rparr> else ctx1)"
    have n: "n \<le> length m" "length block = length (sh_block ctx) + n" "length block \<le> 64"
      using 1(2) by (simp_all add: n_def block_def)
    have step: "sha256_update ctx m = sha256_update ctx2 (drop n m)"
      using False 1(2) by (subst sha256_update.simps) (simp add: Let_def n_def block_def ctx1_def ctx2_def)
    have IH: "length (sh_block ctx2) < 64 \<Longrightarrow> sha256_update ctx2 (drop n m) =
        (case absorb (sh_h ctx2) (sh_block ctx2 @ drop n m) of (h, r) \<Rightarrow>
          \<lparr>sh_h = h, sh_bits = sh_bits ctx2 + of_nat (length (drop n m)) * 8, sh_block = r\<rparr>)"
      using 1(1) [OF _ n_def block_def ctx1_def ctx2_def] False 1(2) by simp
    have bits: "sh_bits ctx2 + of_nat (length (drop n m)) * 8 = sh_bits ctx + of_nat (length m) * 8"
      using n(1) by (simp add: ctx2_def ctx1_def of_nat_diff algebra_simps)
    have bm: "block @ drop n m = sh_block ctx @ m" by (simp add: block_def)
    show ?thesis
    proof (cases "length block = 64")
      case True
      then have "absorb (sh_h ctx) (sh_block ctx @ m) = absorb (sh_h ctx2) (sh_block ctx2 @ drop n m)"
        using absorb_block [OF True, of "sh_h ctx" "drop n m"] by (simp add: ctx2_def ctx1_def flip: bm)
      moreover have "length (sh_block ctx2) < 64" using True by (simp add: ctx2_def)
      ultimately show ?thesis using step IH bits by simp
    next
      case False
      then have "sh_block ctx2 = block" "sh_h ctx2 = sh_h ctx" by (simp_all add: ctx2_def ctx1_def)
      moreover have "length block < 64" using False n(3) by simp
      ultimately show ?thesis using step IH bits bm by simp
    qed
  qed
qed

section \<open>The hash of the whole\<close>

definition zeros_for :: "nat \<Rightarrow> nat" where
  "zeros_for n = (if n \<le> 56 then 56 - n else 120 - n)"

lemma pad_absorbs:
  "length block \<le> 64 \<Longrightarrow>
   length (snd (pad_block h block)) = 56 \<and>
   absorb h (block @ replicate (zeros_for (length block)) 0 @ t) =
     absorb (fst (pad_block h block)) (snd (pad_block h block) @ t)"
proof (induction h block rule: pad_block.induct)
  case (1 h block)
  consider "length block = 56" | "length block = 64" | "length block \<noteq> 56" "length block < 64" using 1(3) by linarith
  then show ?case
  proof cases
    case 1
    then show ?thesis by (subst (1 2 3) pad_block.simps) (simp add: zeros_for_def)
  next
    case 2
    have "replicate (zeros_for (length block)) (0 :: 8 word) = [0] @ replicate (zeros_for 1) 0"
      using 2 by (simp add: zeros_for_def numeral_eq_Suc)
    then show ?thesis
      using 1(1) 2 absorb_block [OF 2] by (subst (1 2 3) pad_block.simps) simp
  next
    case 3
    have "zeros_for (length block) = Suc (zeros_for (length (block @ [0 :: 8 word])))"
      using 3 by (auto simp: zeros_for_def)
    then show ?thesis using 1(2) 3 by (subst (1 2 3) pad_block.simps) simp
  qed
qed

lemma zeros_padding: "(119 - n mod 64) mod 64 = zeros_for (n mod 64 + 1)"
proof -
  have aux: "(119 - r) mod 64 = zeros_for (r + 1)" if "r < 64" for r :: nat
  proof (cases "r \<le> 55")
    case True
    then have "119 - r = 55 - r + 64" by simp
    then have "(119 - r) mod 64 = (55 - r) mod 64" by (simp only: mod_add_self2)
    then show ?thesis using True by (simp add: zeros_for_def)
  next
    case False
    then show ?thesis using that by (simp add: zeros_for_def)
  qed
  show ?thesis by (rule aux) simp
qed

lemma length_bytes_length [simp]: "length (length_bytes b) = 8"
  by (simp add: length_bytes_def)

lemma final_of:
  assumes "absorb initial_hash m = (h, r)"
  shows "sha256_final \<lparr>sh_h = h, sh_bits = of_nat (length m) * 8, sh_block = r\<rparr> = sha256_of m"
proof -
  let ?t = "length_bytes (of_nat (length m) * 8)"
  have r: "length r = length m mod 64" using absorb_rest [of initial_hash m] assms by simp
  then have "length (r @ [0x80 :: 8 word]) \<le> 64" by (simp add: Suc_le_eq)
  note pad = pad_absorbs [OF this, of h ?t]
  obtain h' b where p: "pad_block h (r @ [0x80]) = (h', b)" by fastforce
  have "absorb initial_hash (m @ padding (length m)) = absorb h (r @ padding (length m))"
    unfolding absorb_append [of initial_hash m] assms by simp
  also have "\<dots> = absorb h ((r @ [0x80]) @ replicate (zeros_for (length (r @ [0x80 :: 8 word]))) 0 @ ?t)"
  proof -
    have "zeros_for (length (r @ [0x80 :: 8 word])) = (119 - length m mod 64) mod 64"
      using r zeros_padding [of "length m"] by simp
    then show ?thesis by (simp add: padding_def)
  qed
  also have "\<dots> = absorb h' (b @ ?t)" using pad p by simp
  also have "\<dots> = (sha256_block h' (b @ ?t), [])"
    using pad p absorb_block [of "b @ ?t" h' "[]"] by (simp add: absorb_short)
  finally show ?thesis using p by (simp add: sha256_final_def sha256_of_def)
qed

lemma hash_streams: "sha256_final (foldl sha256_update sha256_init pieces) = sha256_of (concat pieces)"
proof -
  have "foldl sha256_update sha256_init ps =
      (case absorb initial_hash (concat ps) of (h, r) \<Rightarrow>
        \<lparr>sh_h = h, sh_bits = of_nat (length (concat ps)) * 8, sh_block = r\<rparr>)" for ps
  proof (induction ps rule: rev_induct)
    case Nil
    then show ?case by (simp add: sha256_init_def absorb_short)
  next
    case (snoc p ps)
    obtain h r where a: "absorb initial_hash (concat ps) = (h, r)" by fastforce
    then have "length r < 64" using absorb_rest [of initial_hash "concat ps"] by simp
    then show ?case
      using snoc a update_absorbs [of "\<lparr>sh_h = h, sh_bits = of_nat (length (concat ps)) * 8, sh_block = r\<rparr>" p]
        absorb_append [of initial_hash "concat ps" p]
      by (simp add: distrib_right split: prod.split)
  qed
  then show ?thesis using final_of by (simp split: prod.split)
qed

text \<open>
  The buffered hash is SHA-256 of all the bytes.  However the bytes are divided over the updates, the
  digest is the fold of the compression function over the padded message.\<close>

theorem auth_hash_streams:
  "sha256_final (foldl sha256_update sha256_init pieces) = sha256_of (concat pieces)"
  by (rule hash_streams)

end
