(* ===== verification/Auth_Vectors.thy ===== *)
theory Auth_Vectors
  imports Auth_Sha
begin

text \<open>
  A vector of the standard (FIPS 180-4) for the hash of src/auth.c, evaluated on the streaming code.
\<close>

lemma sha256_of_abc: "sha256_of [0x61, 0x62, 0x63] =
    [0xba, 0x78, 0x16, 0xbf, 0x8f, 0x01, 0xcf, 0xea, 0x41, 0x41, 0x40, 0xde, 0x5d, 0xae, 0x22, 0x23,
     0xb0, 0x03, 0x61, 0xa3, 0x96, 0x17, 0x7a, 0x9c, 0xb4, 0x10, 0xff, 0x61, 0xf2, 0x00, 0x15, 0xad]"
  by code_simp

text \<open>
  C41. The hash of the three letters abc, fed to the streaming interface, is the digest that the
  standard gives for it.
\<close>

theorem auth_hash_standard_vector:
  "sha256_final (sha256_update sha256_init (map of_char ''abc'')) =
    [0xba, 0x78, 0x16, 0xbf, 0x8f, 0x01, 0xcf, 0xea, 0x41, 0x41, 0x40, 0xde, 0x5d, 0xae, 0x22, 0x23,
     0xb0, 0x03, 0x61, 0xa3, 0x96, 0x17, 0x7a, 0x9c, 0xb4, 0x10, 0xff, 0x61, 0xf2, 0x00, 0x15, 0xad]"
proof -
  have "map of_char ''abc'' = [0x61, 0x62, 0x63 :: 8 word]" by simp
  then show ?thesis using hash_streams [of "[[0x61, 0x62, 0x63]]"] sha256_of_abc by simp
qed

end
