(* ===== verification/Auth_Store.thy ===== *)
theory Auth_Store
  imports Auth_Sha C_Text
begin

text \<open>
  Accounts and sessions of the web interface (src/auth.c and src/auth_user_management.inc).

  The arrays of users and their count are one list; the sessions are the eight slots, one with an
  empty token being free.  The clock, the random bytes and the contents of a file are arguments; a
  file is written as a whole, behind a rename, or not at all.  NULL arguments are left out, and so is
  the wiping of buffers.
\<close>

definition LE_AUTH_SESSION_SECONDS :: int where "LE_AUTH_SESSION_SECONDS = 12 * 60 * 60"
definition LE_AUTH_MAX_USERS :: nat where "LE_AUTH_MAX_USERS = 8"
definition LE_AUTH_MAX_SESSIONS :: nat where "LE_AUTH_MAX_SESSIONS = 8"
definition LE_AUTH_USERNAME_MAX :: nat where "LE_AUTH_USERNAME_MAX = 32"
definition LE_AUTH_TOKEN_MAX :: nat where "LE_AUTH_TOKEN_MAX = 65"
definition LE_AUTH_PASSWORD_MAX :: nat where "LE_AUTH_PASSWORD_MAX = 128"
definition LE_AUTH_USERS_LINE_MAX :: nat where "LE_AUTH_USERS_LINE_MAX = 192"

record le_auth_user =
  au_username :: string
  au_salt :: string
  au_digest :: string

record le_auth_session_slot =
  as_token :: string
  as_username :: string
  as_expires :: int
  as_persisted :: bool

record le_auth_db =
  db_enabled :: bool
  db_users :: "le_auth_user list"
  db_sessions :: "le_auth_session_slot list"
  db_evicted :: bool

definition no_session :: le_auth_session_slot where
  "no_session = \<lparr>as_token = [], as_username = [], as_expires = 0, as_persisted = False\<rparr>"

definition empty_db :: le_auth_db where
  "empty_db = \<lparr>db_enabled = False, db_users = [], db_sessions = replicate LE_AUTH_MAX_SESSIONS no_session,
     db_evicted = False\<rparr>"

section \<open>Texts\<close>

definition hex_of_bytes :: "8 word list \<Rightarrow> string" where
  "hex_of_bytes bs = concat (map (\<lambda>b. [hex_nibble (unat b div 16), hex_nibble (unat b mod 16)]) bs)"

definition digest_hex :: "8 word list \<Rightarrow> string" where
  "digest_hex d = hex_of_bytes d"

definition hash_password :: "string \<Rightarrow> string \<Rightarrow> string" where
  "hash_password salt password =
     digest_hex (sha256_final (sha256_update (sha256_update (sha256_update sha256_init
       (map of_char salt)) (map of_char '':'')) (map of_char password)))"

text \<open>The comparison that looks at every character of the longer text.\<close>

definition char_or_0 :: "string \<Rightarrow> nat \<Rightarrow> u32" where
  "char_or_0 s i = (if i < length s then of_nat (ord (s ! i)) else 0)"

definition constant_equal :: "string \<Rightarrow> string \<Rightarrow> bool" where
  "constant_equal a b \<longleftrightarrow>
     fold (\<lambda>i diff. diff OR (char_or_0 a i XOR char_or_0 b i)) [0..<max (length a) (length b)]
       (ucast (of_nat (length a) XOR of_nat (length b) :: u64)) = 0"

definition hex_digit_char :: "char \<Rightarrow> bool" where
  "hex_digit_char c \<longleftrightarrow> isdigit c \<or> (97 \<le> ord c \<and> ord c \<le> 102) \<or> (65 \<le> ord c \<and> ord c \<le> 70)"

definition valid_hex :: "string \<Rightarrow> bool" where
  "valid_hex s \<longleftrightarrow> list_all hex_digit_char s"

definition le_auth_fold_username :: "nat \<Rightarrow> string \<Rightarrow> string" where
  "le_auth_fold_username n s = map tolower (take (n - 1) s)"

definition folded :: "string \<Rightarrow> string" where
  "folded s = le_auth_fold_username LE_AUTH_USERNAME_MAX s"

section \<open>The file of users\<close>

text \<open>The text before the first \<open>c\<close>, and the text after it.\<close>

definition split_at :: "char \<Rightarrow> string \<Rightarrow> (string \<times> string) option" where
  "split_at c s = (case dropWhile (\<lambda>x. x \<noteq> c) s of [] \<Rightarrow> None | _ # r \<Rightarrow> Some (takeWhile (\<lambda>x. x \<noteq> c) s, r))"

definition split_fields :: "string \<Rightarrow> (string \<times> string \<times> string \<times> string) option" where
  "split_fields s =
     (case split_at (CHR '':'') s of None \<Rightarrow> None
      | Some (user, s1) \<Rightarrow>
        (case split_at (CHR '':'') s1 of None \<Rightarrow> None
         | Some (how, s2) \<Rightarrow>
           map_option (\<lambda>(salt, digest). (user, how, salt, digest)) (split_at (CHR '':'') s2)))"

definition fields_valid :: "string \<Rightarrow> string \<Rightarrow> string \<Rightarrow> bool" where
  "fields_valid how salt digest \<longleftrightarrow> how = ''sha256'' \<and> 16 \<le> length salt \<and> length salt \<le> 64 \<and> valid_hex salt \<and>
     length digest = 64 \<and> valid_hex digest"

definition load_user :: "string \<Rightarrow> le_auth_user option" where
  "load_user line =
     (let user = dropWhile (\<lambda>c. c = CHR '' '' \<or> c = char_of (9 :: nat)) (takeWhile (\<lambda>c. c \<noteq> char_of (0 :: nat)) line)
      in if user = [] \<or> hd user = CHR ''#'' then None
         else case split_fields (takeWhile (\<lambda>c. c \<noteq> newline) user) of None \<Rightarrow> None
         | Some (name, how, salt, digest) \<Rightarrow>
             if name = [] \<or> LE_AUTH_USERNAME_MAX \<le> length name \<or> \<not> fields_valid how salt digest then None
             else Some \<lparr>au_username = folded name, au_salt = salt, au_digest = digest\<rparr>)"

text \<open>The accounts of the lines; nothing when two names are one account.\<close>

fun load_users :: "le_auth_user list \<Rightarrow> string list \<Rightarrow> le_auth_user list option" where
  "load_users users [] = Some users"
| "load_users users (l # ls) =
     (if LE_AUTH_MAX_USERS \<le> length users then Some users
      else case load_user l of None \<Rightarrow> load_users users ls
      | Some u \<Rightarrow> if au_username u \<in> set (map au_username users) then None else load_users (users @ [u]) ls)"

text \<open>The result and the accounts; the file is nothing when it cannot be opened.\<close>

definition le_auth_load :: "string \<Rightarrow> string option \<Rightarrow> int \<times> le_auth_db" where
  "le_auth_load path file =
     (if path = [] then (0, empty_db)
      else case Option.bind file (\<lambda>text. load_users [] (cut_lines 256 text)) of
        None \<Rightarrow> (- 1, empty_db)
      | Some users \<Rightarrow> (if users = [] then - 1 else 0, empty_db\<lparr>db_users := users, db_enabled := users \<noteq> []\<rparr>))"

definition user_line :: "le_auth_user \<Rightarrow> string" where
  "user_line u = au_username u @ '':sha256:'' @ au_salt u @ '':'' @ au_digest u @ [newline]"

text \<open>The new file, when all its calls succeed.\<close>

definition write_users_file :: "bool \<Rightarrow> le_auth_user list \<Rightarrow> string option" where
  "write_users_file writes users =
     (if users = [] \<or> LE_AUTH_MAX_USERS < length users \<or> \<not> writes then None
      else Some (concat (map user_line users)))"

section \<open>Changing the accounts\<close>

definition name_char :: "char \<Rightarrow> bool" where
  "name_char c \<longleftrightarrow> isalnum c \<or> c = CHR ''.'' \<or> c = CHR ''_'' \<or> c = CHR ''-''"

definition valid_username :: "string \<Rightarrow> bool" where
  "valid_username s \<longleftrightarrow> s \<noteq> [] \<and> length s < LE_AUTH_USERNAME_MAX \<and> list_all name_char s"

definition reserved_username :: "string \<Rightarrow> bool" where
  "reserved_username s \<longleftrightarrow> folded s \<in> set [''root'', ''.'', ''..'', ''libreecho-ssh'']"

text \<open>The accounts with one more; the file and the accounts change together or not at all.\<close>

definition append_user :: "bool \<Rightarrow> le_auth_user \<Rightarrow> le_auth_db \<Rightarrow> (le_auth_db \<times> string) option" where
  "append_user writes u db =
     map_option (\<lambda>text. (db\<lparr>db_users := db_users db @ [u], db_enabled := True\<rparr>, text))
       (write_users_file writes (db_users db @ [u]))"

definition le_auth_add_user ::
  "8 word list option \<Rightarrow> bool \<Rightarrow> string \<Rightarrow> string \<Rightarrow> le_auth_db \<Rightarrow> (le_auth_db \<times> string) option" where
  "le_auth_add_user random writes username password db =
     (if \<not> valid_username username \<or> reserved_username username \<or> length password < 8 \<or>
         LE_AUTH_PASSWORD_MAX < length password \<or> LE_AUTH_MAX_USERS \<le> length (db_users db) \<or>
         folded username \<in> set (map au_username (db_users db)) then None
      else case random of None \<Rightarrow> None
      | Some bytes \<Rightarrow>
          (let salt = hex_of_bytes bytes in
           append_user writes \<lparr>au_username = folded username, au_salt = salt, au_digest = hash_password salt password\<rparr> db))"

definition strip_newlines :: "string \<Rightarrow> string" where
  "strip_newlines s = rev (dropWhile (\<lambda>c. c = newline \<or> c = char_of (13 :: nat)) (rev s))"

definition le_auth_users_line_valid :: "string \<Rightarrow> bool" where
  "le_auth_users_line_valid line =
     (if line = [] \<or> LE_AUTH_USERS_LINE_MAX \<le> length line then False
      else case split_fields (strip_newlines line) of None \<Rightarrow> False
      | Some (name, how, salt, digest) \<Rightarrow>
          CHR '':'' \<notin> set digest \<and> valid_username name \<and> fields_valid how salt digest \<and>
          list_all (\<lambda>c. tolower c = c) name)"

definition le_auth_add_users_line :: "bool \<Rightarrow> string \<Rightarrow> le_auth_db \<Rightarrow> (le_auth_db \<times> string) option" where
  "le_auth_add_users_line writes line db =
     (if \<not> le_auth_users_line_valid line then None
      else case split_fields (strip_newlines line) of None \<Rightarrow> None
      | Some (name, how, salt, digest) \<Rightarrow>
          if reserved_username name \<or> LE_AUTH_MAX_USERS \<le> length (db_users db) \<or>
             folded name \<in> set (map au_username (db_users db)) then None
          else append_user writes \<lparr>au_username = folded name, au_salt = salt, au_digest = digest\<rparr> db)"

definition forget_user :: "string \<Rightarrow> le_auth_session_slot \<Rightarrow> le_auth_session_slot" where
  "forget_user name s = (if as_username s = name then s\<lparr>as_token := []\<rparr> else s)"

definition le_auth_remove_user :: "bool \<Rightarrow> string \<Rightarrow> le_auth_db \<Rightarrow> (le_auth_db \<times> string) option" where
  "le_auth_remove_user writes username db =
     (if \<not> valid_username username \<or> length (db_users db) \<le> 1 \<or>
         folded username \<notin> set (map au_username (db_users db)) then None
      else
        (let users = filter (\<lambda>u. au_username u \<noteq> folded username) (db_users db) in
         map_option (\<lambda>text. (db\<lparr>db_users := users, db_enabled := users \<noteq> [],
             db_sessions := map (forget_user (folded username)) (db_sessions db)\<rparr>, text))
           (write_users_file writes users)))"

section \<open>Sessions\<close>

definition slot_free :: "int \<Rightarrow> le_auth_session_slot \<Rightarrow> bool" where
  "slot_free now s \<longleftrightarrow> as_token s = [] \<or> as_expires s \<le> now"

fun first_free :: "int \<Rightarrow> nat \<Rightarrow> le_auth_session_slot list \<Rightarrow> nat option" where
  "first_free now i [] = None"
| "first_free now i (s # ss) = (if slot_free now s then Some i else first_free now (i + 1) ss)"

definition issue_token ::
  "8 word list option \<Rightarrow> int \<Rightarrow> string \<Rightarrow> nat \<Rightarrow> le_auth_db \<Rightarrow> (string \<times> le_auth_db) option" where
  "issue_token random now username token_size db =
     (if token_size < LE_AUTH_TOKEN_MAX then None
      else case random of None \<Rightarrow> None
      | Some bytes \<Rightarrow>
          (let slot = (case first_free now 0 (db_sessions db) of None \<Rightarrow> 0 | Some i \<Rightarrow> i);
               old = db_sessions db ! slot;
               token = hex_of_bytes bytes
           in Some (token, db\<lparr>db_evicted := as_token old \<noteq> [] \<and> as_persisted old,
                db_sessions := (db_sessions db)[slot := \<lparr>as_token = token, as_username = username,
                  as_expires = now + LE_AUTH_SESSION_SECONDS, as_persisted = False\<rparr>]\<rparr>)))"

fun find_user :: "string \<Rightarrow> le_auth_user list \<Rightarrow> le_auth_user option" where
  "find_user name [] = None"
| "find_user name (u # us) = (if constant_equal (au_username u) name then Some u else find_user name us)"

definition le_auth_login ::
  "8 word list option \<Rightarrow> int \<Rightarrow> string \<Rightarrow> string \<Rightarrow> nat \<Rightarrow> le_auth_db \<Rightarrow> (string \<times> le_auth_db) option" where
  "le_auth_login random now username password token_size db =
     (if \<not> db_enabled db \<or> LE_AUTH_PASSWORD_MAX < length password then None
      else case find_user (folded username) (db_users db) of None \<Rightarrow> None
      | Some u \<Rightarrow>
          if \<not> constant_equal (au_digest u) (hash_password (au_salt u) password) then None
          else issue_token random now (folded username) token_size db)"

text \<open>The name of the session with the token; sessions passed on the way that have expired are freed.\<close>

fun session_loop :: "int \<Rightarrow> string \<Rightarrow> le_auth_session_slot list \<Rightarrow> string option \<times> le_auth_session_slot list" where
  "session_loop now token [] = (None, [])"
| "session_loop now token (s # ss) =
     (if as_expires s \<le> now then (let (r, ss') = session_loop now token ss in (r, s\<lparr>as_token := []\<rparr> # ss'))
      else if constant_equal (as_token s) token then (Some (as_username s), s # ss)
      else (let (r, ss') = session_loop now token ss in (r, s # ss')))"

definition le_auth_session :: "int \<Rightarrow> string \<Rightarrow> le_auth_db \<Rightarrow> string option \<times> le_auth_db" where
  "le_auth_session now token db =
     (if \<not> db_enabled db \<or> token = [] then (None, db)
      else let (r, ss) = session_loop now token (db_sessions db) in (r, db\<lparr>db_sessions := ss\<rparr>))"

definition sign_out :: "string \<Rightarrow> le_auth_session_slot \<Rightarrow> le_auth_session_slot" where
  "sign_out token s = (if constant_equal (as_token s) token then s\<lparr>as_token := []\<rparr> else s)"

definition le_auth_logout :: "string \<Rightarrow> le_auth_db \<Rightarrow> le_auth_db" where
  "le_auth_logout token db = db\<lparr>db_sessions := map (sign_out token) (db_sessions db)\<rparr>"

section \<open>The file of sessions\<close>

definition session_line :: "le_auth_session_slot \<Rightarrow> string" where
  "session_line s = as_token s @ '' '' @ as_username s @ '' '' @ int_digits (as_expires s) @ [newline]"

definition save_sessions :: "bool \<Rightarrow> le_auth_db \<Rightarrow> string" where
  "save_sessions persisted_only db =
     concat (map session_line (filter (\<lambda>s. as_token s \<noteq> [] \<and> (persisted_only \<longrightarrow> as_persisted s)) (db_sessions db)))"

text \<open>The session is marked as persisted only when the file with it was written.\<close>

fun first_token :: "string \<Rightarrow> nat \<Rightarrow> le_auth_session_slot list \<Rightarrow> nat option" where
  "first_token token i [] = None"
| "first_token token i (s # ss) = (if constant_equal (as_token s) token then Some i else first_token token (i + 1) ss)"

definition le_auth_save_issued_session :: "bool \<Rightarrow> string \<Rightarrow> le_auth_db \<Rightarrow> (le_auth_db \<times> string) option" where
  "le_auth_save_issued_session writes token db =
     (if token = [] then None
      else case first_token token 0 (db_sessions db) of None \<Rightarrow> None
      | Some i \<Rightarrow>
          (let db1 = db\<lparr>db_sessions := (db_sessions db)[i := (db_sessions db ! i)\<lparr>as_persisted := True\<rparr>]\<rparr>
           in if writes then Some (db1, save_sessions True db1) else None))"

text \<open>What the format \<^verbatim>\<open>%64s %31s %lld\<close> reads.\<close>

definition scan_word :: "nat \<Rightarrow> string \<Rightarrow> (string \<times> string) option" where
  "scan_word n s =
     (let t = dropWhile isspace s; word = take n (takeWhile (\<lambda>c. \<not> isspace c) t)
      in if word = [] then None else Some (word, drop (length word) t))"

definition scan_session :: "string \<Rightarrow> (string \<times> string \<times> int) option" where
  "scan_session line =
     (case scan_word 64 (takeWhile (\<lambda>c. c \<noteq> char_of (0 :: nat)) line) of None \<Rightarrow> None
      | Some (token, s1) \<Rightarrow>
        (case scan_word 31 s1 of None \<Rightarrow> None
         | Some (name, s2) \<Rightarrow> map_option (\<lambda>(v, _). (token, name, fst (clamp 64 v))) (strto_int s2)))"

fun load_session_lines :: "int \<Rightarrow> le_auth_user list \<Rightarrow> nat \<Rightarrow> string list \<Rightarrow> le_auth_session_slot list \<Rightarrow> le_auth_session_slot list" where
  "load_session_lines now users slot [] ss = ss"
| "load_session_lines now users slot (l # ls) ss =
     (if LE_AUTH_MAX_SESSIONS \<le> slot then ss
      else case scan_session l of None \<Rightarrow> load_session_lines now users slot ls ss
      | Some (token, name, expires) \<Rightarrow>
          if expires \<le> now \<or> name \<notin> set (map au_username users) then load_session_lines now users slot ls ss
          else load_session_lines now users (slot + 1) ls
            (ss[slot := \<lparr>as_token = token, as_username = name, as_expires = expires, as_persisted = True\<rparr>]))"

definition le_auth_load_sessions :: "int \<Rightarrow> string \<Rightarrow> le_auth_db \<Rightarrow> le_auth_db" where
  "le_auth_load_sessions now text db =
     db\<lparr>db_sessions := load_session_lines now (db_users db) 0 (cut_lines 256 text) (db_sessions db)\<rparr>"

end
