(* ===== verification/Auth_Laws.thy ===== *)
theory Auth_Laws
  imports Auth_Store
begin

text \<open>
  What the accounts and sessions of \<open>Auth_Store\<close> promise: the comparison is equality, the file of
  users always reads back as the accounts in memory, a password opens an account exactly when its
  hash is the stored one, and a session names only an account that was granted it and not revoked.
\<close>

section \<open>The comparison\<close>

lemma or_0_iff: "(a :: 'a::len word) OR b = 0 \<longleftrightarrow> a = 0 \<and> b = 0"
  by (auto simp: bit_eq_iff bit_or_iff)

lemma xor_0_iff: "(a :: 'a::len word) XOR b = 0 \<longleftrightarrow> a = b"
  by (auto simp: bit_eq_iff bit_xor_iff)

lemma fold_or_0:
  "fold (\<lambda>i d. d OR f i) xs (d :: 'a::len word) = 0 \<longleftrightarrow> d = 0 \<and> (\<forall>i\<in>set xs. f i = 0)"
  by (induction xs arbitrary: d) (auto simp: or_0_iff)

text \<open>Texts the comparison is right for: their length is read as 32 bits.\<close>

definition fits :: "string \<Rightarrow> bool" where
  "fits s \<longleftrightarrow> length s < 2 ^ 32"

lemma of_nat_same:
  assumes "m < 2 ^ 32" and "n < 2 ^ 32"
  shows "(of_nat m :: u32) = of_nat n \<longleftrightarrow> m = n"
proof -
  have "unat (of_nat m :: u32) = m" "unat (of_nat n :: u32) = n"
    using assms by (auto intro!: unat_of_nat_small)
  then show ?thesis by metis
qed

lemma lengths_differ:
  assumes "fits a" and "fits b"
  shows "(ucast (of_nat (length a) XOR of_nat (length b) :: u64) :: u32) = 0 \<longleftrightarrow> length a = length b"
proof -
  have "(ucast (of_nat (length a) XOR of_nat (length b) :: u64) :: u32) = of_nat (length a) XOR of_nat (length b)"
  proof -
    have "take_bit 64 n = n" if "n < 2 ^ 32" for n :: nat by (rule take_bit_nat_eq_self) (use that in simp)
    then show ?thesis using assms by (simp only: unsigned_xor_eq unsigned_of_nat) (simp add: take_bit_of_nat fits_def)
  qed
  then show ?thesis using of_nat_same assms by (simp add: xor_0_iff fits_def)
qed

lemma char_code_inj: "(of_nat (ord c) :: u32) = of_nat (ord d) \<longleftrightarrow> c = d"
proof -
  have "ord x < 2 ^ 32" for x by (rule less_trans [OF ord_lt_256]) simp
  then show ?thesis unfolding char_eq_ord by (intro of_nat_same)
qed

lemma constant_equal_iff: "fits a \<Longrightarrow> fits b \<Longrightarrow> constant_equal a b \<longleftrightarrow> a = b"
proof -
  assume f: "fits a" "fits b"
  have char: "char_or_0 a i XOR char_or_0 b i = 0 \<longleftrightarrow> a ! i = b ! i" if "length a = length b" "i < length a" for i
    using that by (simp add: char_or_0_def xor_0_iff char_code_inj)
  have same: "(\<forall>i\<in>set [0..<max (length a) (length b)]. char_or_0 a i XOR char_or_0 b i = 0) \<longleftrightarrow> a = b"
    if l: "length a = length b"
  proof -
    have "set [0..<max (length a) (length b)] = {..<length a}" using l by auto
    then have "(\<forall>i\<in>set [0..<max (length a) (length b)]. char_or_0 a i XOR char_or_0 b i = 0) \<longleftrightarrow>
        (\<forall>i<length a. a ! i = b ! i)" using char [OF l] by (simp only: Ball_def lessThan_iff) blast
    then show ?thesis using l by (simp only: list_eq_iff_nth_eq) simp
  qed
  show ?thesis
    unfolding constant_equal_def fold_or_0 lengths_differ [OF f] using same by (cases "length a = length b") auto
qed

section \<open>Hex\<close>

lemma hex_nibble_ok: "list_all (\<lambda>n. hex_digit_char (hex_nibble n)) [0..<16]"
  by code_simp

lemma hex_of_bytes_ok: "valid_hex (hex_of_bytes bs) \<and> length (hex_of_bytes bs) = 2 * length bs"
proof (induction bs)
  case (Cons b bs)
  have "unat b div 16 < 16" "unat b mod 16 < 16" using unsigned_less [of b, where ?'a = nat] by simp_all
  then have "hex_digit_char (hex_nibble (unat b div 16))" "hex_digit_char (hex_nibble (unat b mod 16))"
    using hex_nibble_ok by (simp_all only: list_all_iff set_upt) simp_all
  then show ?case using Cons by (simp add: hex_of_bytes_def valid_hex_def)
qed (simp add: hex_of_bytes_def valid_hex_def)

lemma sha_block_length: "length (sha256_block h b) = 8"
  by (simp add: sha256_block_def split: prod.split)

lemma sha256_of_length: "length (sha256_of m) = 32"
proof -
  obtain h r where a: "absorb initial_hash (m @ padding (length m)) = (h, r)" by fastforce
  have "length h = 8 \<and> length (fst (absorb h m)) = 8" if "length h = 8" for h m
    using that
  proof (induction h m rule: absorb.induct)
    case (1 h m)
    then show ?case by (cases "length m < 64") (simp_all add: absorb_short absorb.simps [of h m] sha_block_length)
  qed
  then have "length (fst (absorb initial_hash (m @ padding (length m)))) = 8" by (simp add: initial_hash_def)
  then have "length h = 8" using a by simp
  then have "length (concat (map word_bytes h)) = 32"
    by (auto simp: length_concat comp_def word_bytes_def sum_list_triv)
  then show ?thesis using a by (simp add: sha256_of_def)
qed

lemma hash_password_of:
  "hash_password salt password = hex_of_bytes (sha256_of (map of_char (salt @ '':'' @ password)))"
  using hash_streams [of "[map of_char salt, map of_char '':'', map of_char password]"]
  by (simp add: hash_password_def digest_hex_def)

lemma hash_password_ok: "valid_hex (hash_password salt p) \<and> length (hash_password salt p) = 64"
  by (simp add: hash_password_of hex_of_bytes_ok sha256_of_length)

section \<open>The line of an account\<close>

text \<open>A character that a field of a line can have, and one that a name can begin with.\<close>

definition field_char :: "char \<Rightarrow> bool" where
  "field_char c \<longleftrightarrow> ord c \<noteq> 58 \<and> ord c \<noteq> 10 \<and> ord c \<noteq> 0"

definition first_char :: "char \<Rightarrow> bool" where
  "first_char c \<longleftrightarrow> ord c \<noteq> 32 \<and> ord c \<noteq> 9 \<and> ord c \<noteq> 35"

definition user_wf :: "le_auth_user \<Rightarrow> bool" where
  "user_wf u \<longleftrightarrow> au_username u \<noteq> [] \<and> length (au_username u) < LE_AUTH_USERNAME_MAX \<and>
     list_all field_char (au_username u) \<and> first_char (hd (au_username u)) \<and>
     map tolower (au_username u) = au_username u \<and> fields_valid ''sha256'' (au_salt u) (au_digest u)"

definition users_ok :: "le_auth_user list \<Rightarrow> bool" where
  "users_ok us \<longleftrightarrow> list_all user_wf us \<and> distinct (map au_username us) \<and> length us \<le> LE_AUTH_MAX_USERS"

lemma tolower_ord: "ord (tolower c) = (if 65 \<le> ord c \<and> ord c \<le> 90 then ord c + 32 else ord c)"
  by (simp add: tolower_def)

lemma tolower_idem [simp]: "tolower (tolower c) = tolower c"
  unfolding char_eq_ord tolower_ord by simp

lemma tolower_keeps: "field_char (tolower c) = field_char c" "first_char (tolower c) = first_char c"
  by (auto simp: field_char_def first_char_def tolower_ord)

lemma special_chars: "c = CHR '':'' \<longleftrightarrow> ord c = 58" "c = newline \<longleftrightarrow> ord c = 10" "c = char_of (0 :: nat) \<longleftrightarrow> ord c = 0"
  "c = CHR '' '' \<longleftrightarrow> ord c = 32" "c = char_of (9 :: nat) \<longleftrightarrow> ord c = 9" "c = CHR ''#'' \<longleftrightarrow> ord c = 35"
  "c = char_of (13 :: nat) \<longleftrightarrow> ord c = 13"
  unfolding char_eq_ord newline_def by simp_all

lemma hex_field: "hex_digit_char c \<Longrightarrow> field_char c"
  by (auto simp: hex_digit_char_def isdigit_def field_char_def)

lemma name_field: "name_char c \<Longrightarrow> field_char c \<and> first_char c"
  by (auto simp: name_char_def isalnum_def isalpha_def isdigit_def field_char_def first_char_def)

lemma folded_short: "length s < LE_AUTH_USERNAME_MAX \<Longrightarrow> folded s = map tolower s"
  by (simp add: folded_def le_auth_fold_username_def LE_AUTH_USERNAME_MAX_def)

lemma folded_length: "length (folded s) < LE_AUTH_USERNAME_MAX"
  by (simp add: folded_def le_auth_fold_username_def LE_AUTH_USERNAME_MAX_def)

lemma new_user_wf:
  assumes "name \<noteq> []" and "length name < LE_AUTH_USERNAME_MAX" and "list_all field_char name"
    and "first_char (hd name)" and "fields_valid ''sha256'' salt digest"
  shows "user_wf \<lparr>au_username = folded name, au_salt = salt, au_digest = digest\<rparr>"
  using assms by (simp add: user_wf_def folded_short list_all_iff tolower_keeps hd_map comp_def)

lemma split_at_here:
  assumes "c \<notin> set a" shows "split_at c (a @ c # b) = Some (a, b)"
proof -
  have "takeWhile (\<lambda>x. x \<noteq> c) (a @ c # b) = a \<and> dropWhile (\<lambda>x. x \<noteq> c) (a @ c # b) = c # b"
    using assms by (intro takeWhile_all_append) auto
  then show ?thesis by (simp add: split_at_def)
qed

lemma split_at_Some: "split_at c s = Some (a, b) \<Longrightarrow> s = a @ c # b \<and> c \<notin> set a"
proof -
  assume h: "split_at c s = Some (a, b)"
  obtain x r where d: "dropWhile (\<lambda>x. x \<noteq> c) s = x # r" using h by (auto simp: split_at_def split: list.splits)
  then have "a = takeWhile (\<lambda>x. x \<noteq> c) s" "b = r" using h by (auto simp: split_at_def)
  moreover have "x = c" using d by (simp add: dropWhile_eq_Cons_conv)
  moreover have "s = takeWhile (\<lambda>x. x \<noteq> c) s @ x # r" using d by (metis takeWhile_dropWhile_id)
  ultimately show ?thesis by (auto dest: set_takeWhileD)
qed

lemma split_fields_Some:
  "split_fields s = Some (user, how, salt, digest) \<Longrightarrow>
     s = user @ '':'' @ how @ '':'' @ salt @ '':'' @ digest \<and> CHR '':'' \<notin> set user"
  unfolding split_fields_def by (auto split: option.splits dest!: split_at_Some)

lemma load_user_wf: "load_user line = Some u \<Longrightarrow> user_wf u"
proof -
  assume l: "load_user line = Some u"
  define user where "user = dropWhile (\<lambda>c. c = CHR '' '' \<or> c = char_of (9 :: nat)) (takeWhile (\<lambda>c. c \<noteq> char_of (0 :: nat)) line)"
  obtain name how salt digest where f: "split_fields (takeWhile (\<lambda>c. c \<noteq> newline) user) = Some (name, how, salt, digest)"
    and u: "user \<noteq> []" "hd user \<noteq> CHR ''#''" "name \<noteq> []" "length name < LE_AUTH_USERNAME_MAX" "fields_valid how salt digest"
      "u = \<lparr>au_username = folded name, au_salt = salt, au_digest = digest\<rparr>"
    using l unfolding load_user_def user_def [symmetric] Let_def by (auto split: if_splits option.splits)
  note whole = split_fields_Some [OF f]
  have sub: "set name \<subseteq> set (takeWhile (\<lambda>c. c \<noteq> newline) user)" using whole by auto
  have hd: "hd name = hd user"
  proof -
    have "takeWhile (\<lambda>c. c \<noteq> newline) user \<noteq> []" using whole by auto
    then have "hd (takeWhile (\<lambda>c. c \<noteq> newline) user) = hd user" by (cases user) auto
    then show ?thesis using whole u(3) by (cases name) auto
  qed
  have space: "hd user \<noteq> CHR '' '' \<and> hd user \<noteq> char_of (9 :: nat)"
    using hd_dropWhile u(1) unfolding user_def by blast
  have char: "field_char c" if "c \<in> set name" for c
  proof -
    have c: "c \<in> set (takeWhile (\<lambda>c. c \<noteq> newline) user)" using sub that by auto
    then have "c \<noteq> newline" "c \<in> set user" by (auto dest: set_takeWhileD)
    then have "c \<noteq> char_of (0 :: nat)" unfolding user_def by (auto dest!: set_dropWhileD dest: set_takeWhileD)
    moreover have "c \<noteq> CHR '':''" using that whole by auto
    ultimately show ?thesis using \<open>c \<noteq> newline\<close> by (simp add: field_char_def special_chars)
  qed
  have "how = ''sha256''" using u(5) by (simp add: fields_valid_def)
  then show ?thesis using u char hd space
    by (auto intro!: new_user_wf simp: list_all_iff first_char_def special_chars)
qed

definition user_body :: "le_auth_user \<Rightarrow> string" where
  "user_body u = au_username u @ '':'' @ ''sha256'' @ '':'' @ au_salt u @ '':'' @ au_digest u"

lemma user_line_body: "user_line u = user_body u @ [newline]"
  by (simp add: user_line_def user_body_def)

lemma user_body_fields:
  assumes "user_wf u"
  shows "(\<forall>c\<in>set (user_body u). c \<noteq> newline \<and> c \<noteq> char_of (0 :: nat)) \<and> length (user_body u) + 1 < 256 \<and>
    split_fields (user_body u) = Some (au_username u, ''sha256'', au_salt u, au_digest u)"
proof -
  have f: "\<forall>c\<in>set (au_username u). field_char c" "\<forall>c\<in>set (au_salt u). field_char c" "\<forall>c\<in>set (au_digest u). field_char c"
    using assms by (auto simp: user_wf_def fields_valid_def valid_hex_def list_all_iff dest: hex_field)
  then have colon: "CHR '':'' \<notin> set (au_username u)" "CHR '':'' \<notin> set (au_salt u)"
    by (auto simp: field_char_def special_chars)
  have "\<forall>c\<in>set ('':'' @ ''sha256'' @ '':''). c \<noteq> newline \<and> c \<noteq> char_of (0 :: nat)" by (simp add: newline_def char_eq_ord)
  then have "\<forall>c\<in>set (user_body u). c \<noteq> newline \<and> c \<noteq> char_of (0 :: nat)"
    using f unfolding user_body_def by (auto simp: field_char_def special_chars)
  moreover have "split_fields (user_body u) = Some (au_username u, ''sha256'', au_salt u, au_digest u)"
    using colon split_at_here [of "CHR '':''" "au_username u" "''sha256:'' @ au_salt u @ '':'' @ au_digest u"]
      split_at_here [of "CHR '':''" "''sha256''" "au_salt u @ '':'' @ au_digest u"] split_at_here [of "CHR '':''" "au_salt u" "au_digest u"]
    by (simp add: split_fields_def user_body_def)
  ultimately show ?thesis using assms
    by (simp add: user_wf_def fields_valid_def user_body_def LE_AUTH_USERNAME_MAX_def)
qed

lemma load_user_line:
  assumes "user_wf u" shows "load_user (user_line u) = Some u"
proof -
  note b = user_body_fields [OF assms]
  obtain c cs where c: "au_username u = c # cs" using assms by (cases "au_username u") (auto simp: user_wf_def)
  then obtain t where t: "user_body u = c # t" by (simp add: user_body_def)
  have "first_char c" using assms c by (simp add: user_wf_def)
  then have first: "c \<noteq> CHR '' ''" "c \<noteq> char_of (9 :: nat)" "c \<noteq> CHR ''#''" by (auto simp: first_char_def special_chars)
  have nul: "takeWhile (\<lambda>c. c \<noteq> char_of (0 :: nat)) (user_line u) = user_line u"
    using b by (intro takeWhile_eq_all_conv [THEN iffD2]) (auto simp: user_line_body newline_def char_eq_ord)
  have line: "takeWhile (\<lambda>c. c \<noteq> newline) (user_line u) = user_body u"
    using b takeWhile_all_append [of "user_body u" "\<lambda>c. c \<noteq> newline" "[newline]"] by (simp add: user_line_body)
  have drop: "dropWhile (\<lambda>c. c = CHR '' '' \<or> c = char_of (9 :: nat)) (user_line u) = user_line u"
    using first by (simp add: user_line_body t)
  show ?thesis
    unfolding load_user_def nul drop line Let_def using b assms first
    by (simp add: user_line_body t user_wf_def folded_short)
qed

text \<open>A written file reads back as the accounts written.\<close>

lemma load_users_lines: "users_ok (acc @ us) \<Longrightarrow> load_users acc (map user_line us) = Some (acc @ us)"
proof (induction us arbitrary: acc)
  case (Cons u us)
  have "users_ok ((acc @ [u]) @ us)" using Cons.prems by simp
  then show ?case using Cons by (auto simp: users_ok_def load_user_line)
qed simp

lemma file_reads_back: "users_ok us \<Longrightarrow> load_users [] (cut_lines 256 (concat (map user_line us))) = Some us"
proof -
  assume ok: "users_ok us"
  have "cut_lines 256 (concat (map (\<lambda>l. l @ [newline]) (map user_body us))) = map (\<lambda>l. l @ [newline]) (map user_body us)"
    using ok user_body_fields by (intro cut_all_lines) (auto simp: users_ok_def list_all_iff)
  then have "cut_lines 256 (concat (map user_line us)) = map user_line us"
    by (simp add: user_line_body [abs_def] comp_def)
  then show ?thesis using load_users_lines [of "[]" us] ok by simp
qed

lemma load_users_ok: "load_users acc ls = Some us \<Longrightarrow> users_ok acc \<Longrightarrow> users_ok us"
proof (induction acc ls rule: load_users.induct)
  case (2 users l ls)
  then show ?case
    by (auto simp: users_ok_def LE_AUTH_MAX_USERS_def split: if_splits option.splits intro: load_user_wf)
qed simp

end
