(* ===== verification/Auth_Accounts.thy ===== *)
theory Auth_Accounts
  imports Auth_Laws
begin

text \<open>
  The accounts through all operations that change them, with the file behind them, and the
  passwords that open them.
\<close>

section \<open>Signing in\<close>

lemma user_fits: "user_wf u \<Longrightarrow> fits (au_username u) \<and> fits (au_digest u)"
  by (simp add: user_wf_def fields_valid_def fits_def LE_AUTH_USERNAME_MAX_def)

lemma folded_fits: "fits (folded s)"
  using folded_length [of s] by (simp add: fits_def LE_AUTH_USERNAME_MAX_def)

lemma image_other: "f v \<notin> f ` A \<Longrightarrow> u \<in> A \<Longrightarrow> f u \<noteq> f v"
  by (metis imageI)

lemma find_user_iff:
  "users_ok us \<Longrightarrow> fits name \<Longrightarrow> find_user name us = Some u \<longleftrightarrow> u \<in> set us \<and> au_username u = name"
proof (induction us)
  case (Cons v us)
  have ok: "users_ok us" "fits (au_username v)" using Cons.prems by (auto simp: users_ok_def user_fits)
  have "constant_equal (au_username v) name \<longleftrightarrow> au_username v = name"
    using constant_equal_iff ok Cons.prems by blast
  moreover have "u \<in> set us \<Longrightarrow> au_username u \<noteq> au_username v"
    using Cons.prems by (intro image_other [of au_username v "set us"]) (simp_all add: users_ok_def)
  ultimately show ?case using Cons.IH [OF ok(1) Cons.prems(2)] by auto
qed simp

lemma issue_token_iff: "issue_token (Some bytes) now name n db = None \<longleftrightarrow> n < LE_AUTH_TOKEN_MAX"
  by (simp add: issue_token_def Let_def)

text \<open>The digest the file keeps of a password.\<close>

definition digest_of :: "string \<Rightarrow> string \<Rightarrow> string" where
  "digest_of salt password = hex_of_bytes (sha256_of (map of_char (salt @ '':'' @ password)))"

lemma hash_fits: "fits (hash_password salt p)"
  using hash_password_ok by (simp add: fits_def)

lemma digest_matches:
  "user_wf u \<Longrightarrow> constant_equal (au_digest u) (hash_password (au_salt u) p) \<longleftrightarrow> au_digest u = digest_of (au_salt u) p"
  using constant_equal_iff [OF _ hash_fits] user_fits by (simp add: digest_of_def hash_password_of)

lemma login_iff:
  assumes "users_ok (db_users db)"
  shows "le_auth_login (Some bytes) now name password token_size db \<noteq> None \<longleftrightarrow>
    db_enabled db \<and> LE_AUTH_TOKEN_MAX \<le> token_size \<and> length password \<le> LE_AUTH_PASSWORD_MAX \<and>
    (\<exists>u\<in>set (db_users db). au_username u = folded name \<and> au_digest u = digest_of (au_salt u) password)"
proof (cases "find_user (folded name) (db_users db)")
  case None
  then have "\<not> (\<exists>u\<in>set (db_users db). au_username u = folded name)"
    using find_user_iff [OF assms folded_fits] by (metis option.distinct(1))
  then show ?thesis using None by (auto simp: le_auth_login_def)
next
  case (Some u)
  then have u: "u \<in> set (db_users db)" "au_username u = folded name" using find_user_iff [OF assms folded_fits] by auto
  have one: "v = u" if "v \<in> set (db_users db)" "au_username v = folded name" for v
    using find_user_iff [OF assms folded_fits, of name v] Some that by simp
  have "user_wf u" using u assms by (auto simp: users_ok_def list_all_iff)
  then have eq: "constant_equal (au_digest u) (hash_password (au_salt u) password) \<longleftrightarrow>
      (\<exists>u\<in>set (db_users db). au_username u = folded name \<and> au_digest u = digest_of (au_salt u) password)"
    using u one digest_matches by metis
  show ?thesis
    unfolding le_auth_login_def Some option.case eq [symmetric]
    by (auto simp: issue_token_iff not_less simp del: not_None_eq)
qed

section \<open>Every change to the accounts\<close>

text \<open>
  What can happen to the accounts: the three operations, with the random bytes and whether the file
  could be written, and a restart that loads the file.
\<close>

datatype account_op =
  Add_User "(nat \<Rightarrow> 8 word) option" bool string string
| Adopt_Line bool string
| Remove_User bool string
| Restart

record accounts =
  acc_path :: string
  acc_db :: le_auth_db
  acc_file :: "string option"

definition changed :: "accounts \<Rightarrow> (le_auth_db \<times> string) option \<Rightarrow> accounts" where
  "changed s r = (case r of None \<Rightarrow> s | Some (db, text) \<Rightarrow> s\<lparr>acc_db := db, acc_file := Some text\<rparr>)"

definition account_step :: "accounts \<Rightarrow> account_op \<Rightarrow> accounts" where
  "account_step s op =
     (case op of
        Add_User random writes name password \<Rightarrow>
          changed s (le_auth_add_user (map_option (\<lambda>r. map r [0..<32]) random) writes name password (acc_db s))
      | Adopt_Line writes line \<Rightarrow> changed s (le_auth_add_users_line writes line (acc_db s))
      | Remove_User writes name \<Rightarrow> changed s (le_auth_remove_user writes name (acc_db s))
      | Restart \<Rightarrow> s\<lparr>acc_db := if acc_file s = None then empty_db else snd (le_auth_load (acc_path s) (acc_file s))\<rparr>)"

text \<open>At the beginning there is no file, or one that could be loaded.\<close>

definition accounts_start :: "accounts \<Rightarrow> bool" where
  "accounts_start s \<longleftrightarrow> acc_path s \<noteq> [] \<and>
     (if acc_file s = None then acc_db s = empty_db else le_auth_load (acc_path s) (acc_file s) = (0, acc_db s))"

text \<open>The file reads as the accounts in memory, and once there are accounts there is always one.\<close>

definition accounts_inv :: "accounts \<Rightarrow> bool" where
  "accounts_inv s \<longleftrightarrow> acc_path s \<noteq> [] \<and> users_ok (db_users (acc_db s)) \<and>
     db_enabled (acc_db s) = (db_users (acc_db s) \<noteq> []) \<and>
     (case acc_file s of None \<Rightarrow> db_users (acc_db s) = []
      | Some t \<Rightarrow> db_users (acc_db s) \<noteq> [] \<and> load_users [] (cut_lines 256 t) = Some (db_users (acc_db s)))"

text \<open>What holds after an operation that wrote \<open>t\<close>.\<close>

definition file_holds :: "le_auth_db \<Rightarrow> string \<Rightarrow> bool" where
  "file_holds db t \<longleftrightarrow> users_ok (db_users db) \<and> db_enabled db \<and> db_users db \<noteq> [] \<and>
     load_users [] (cut_lines 256 t) = Some (db_users db)"

lemma loaded:
  assumes "path \<noteq> []" and "load_users [] (cut_lines 256 t) = Some us" and "us \<noteq> []"
  shows "le_auth_load path (Some t) = (0, empty_db\<lparr>db_users := us, db_enabled := True\<rparr>)"
  using assms by (simp add: le_auth_load_def)

lemma accounts_start_inv: "accounts_start s \<Longrightarrow> accounts_inv s"
proof -
  assume st: "accounts_start s"
  show ?thesis
  proof (cases "acc_file s")
    case None
    then show ?thesis using st by (simp add: accounts_start_def accounts_inv_def empty_db_def users_ok_def)
  next
    case (Some t)
    then obtain us where us: "load_users [] (cut_lines 256 t) = Some us" "us \<noteq> []"
      and db: "acc_db s = empty_db\<lparr>db_users := us, db_enabled := True\<rparr>"
      using st by (cases "load_users [] (cut_lines 256 t)") (auto simp: accounts_start_def le_auth_load_def split: if_splits)
    have "users_ok us" using load_users_ok [OF us(1)] by (simp add: users_ok_def)
    then show ?thesis using us db st Some by (simp add: accounts_inv_def accounts_start_def)
  qed
qed

lemma changed_inv:
  assumes "accounts_inv s" and "\<And>db t. r = Some (db, t) \<Longrightarrow> file_holds db t"
  shows "accounts_inv (changed s r)"
  using assms by (auto simp: changed_def accounts_inv_def file_holds_def split: option.split)

lemma written_holds:
  assumes "users_ok us" and "write_users_file writes us = Some t" and "db_users db = us" and "db_enabled db"
  shows "file_holds db t"
  using assms file_reads_back by (auto simp: file_holds_def write_users_file_def split: if_splits)

lemma append_holds:
  assumes "append_user writes u db = Some (db', t)" and "users_ok (db_users db)" and "user_wf u"
    and "au_username u \<notin> set (map au_username (db_users db))" and "length (db_users db) < LE_AUTH_MAX_USERS"
  shows "file_holds db' t"
proof -
  have "users_ok (db_users db @ [u])" using assms by (simp add: users_ok_def)
  then show ?thesis using assms(1) by (auto simp: append_user_def intro: written_holds)
qed

lemma valid_username_fields:
  "valid_username name \<Longrightarrow> name \<noteq> [] \<and> length name < LE_AUTH_USERNAME_MAX \<and> list_all field_char name \<and> first_char (hd name)"
  by (cases name) (auto simp: valid_username_def list_all_iff dest: name_field)

lemma add_holds:
  assumes "le_auth_add_user (map_option (\<lambda>r. map r [0..<32]) random) writes name p db = Some (db', t)"
    and "users_ok (db_users db)"
  shows "file_holds db' t"
proof -
  obtain r where r: "random = Some r" using assms(1) by (cases random) (auto simp: le_auth_add_user_def split: if_splits)
  define salt where "salt = hex_of_bytes (map r [0..<32])"
  have ok: "valid_username name" "length (db_users db) < LE_AUTH_MAX_USERS" "folded name \<notin> set (map au_username (db_users db))"
    and a: "append_user writes \<lparr>au_username = folded name, au_salt = salt, au_digest = hash_password salt p\<rparr> db = Some (db', t)"
    using assms(1) r by (auto simp: le_auth_add_user_def salt_def Let_def split: if_splits)
  have "fields_valid ''sha256'' salt (hash_password salt p)"
    using hex_of_bytes_ok [of "map r [0..<32]"] hash_password_ok by (simp add: fields_valid_def salt_def)
  then have "user_wf \<lparr>au_username = folded name, au_salt = salt, au_digest = hash_password salt p\<rparr>"
    using valid_username_fields [OF ok(1)] by (intro new_user_wf) auto
  then show ?thesis using append_holds [OF a assms(2)] ok by simp
qed

lemma adopt_holds:
  assumes "le_auth_add_users_line writes line db = Some (db', t)" and "users_ok (db_users db)"
  shows "file_holds db' t"
proof -
  obtain name how salt digest where f: "split_fields (strip_newlines line) = Some (name, how, salt, digest)"
    and v: "valid_username name" "fields_valid how salt digest" "length (db_users db) < LE_AUTH_MAX_USERS"
      "folded name \<notin> set (map au_username (db_users db))"
    and a: "append_user writes \<lparr>au_username = folded name, au_salt = salt, au_digest = digest\<rparr> db = Some (db', t)"
    using assms(1) by (auto simp: le_auth_add_users_line_def le_auth_users_line_valid_def split: if_splits option.splits)
  have "how = ''sha256''" using v(2) by (simp add: fields_valid_def)
  then have "user_wf \<lparr>au_username = folded name, au_salt = salt, au_digest = digest\<rparr>"
    using v(2) valid_username_fields [OF v(1)] by (intro new_user_wf) auto
  then show ?thesis using append_holds [OF a assms(2)] v by simp
qed

lemma remove_holds:
  assumes "le_auth_remove_user writes name db = Some (db', t)" and "users_ok (db_users db)"
  shows "file_holds db' t"
proof -
  define users where "users = filter (\<lambda>u. au_username u \<noteq> folded name) (db_users db)"
  have w: "write_users_file writes users = Some t" and d: "db_users db' = users" "db_enabled db' = (users \<noteq> [])"
    using assms(1) unfolding le_auth_remove_user_def Let_def users_def [symmetric] by (auto split: if_splits)
  have "users \<noteq> []" using w by (auto simp: write_users_file_def split: if_splits)
  moreover have "users_ok users"
    using assms(2) unfolding users_ok_def users_def
    by (auto simp: list_all_iff distinct_map_filter intro: le_trans [OF length_filter_le])
  ultimately show ?thesis using w d by (intro written_holds) auto
qed

lemma accounts_inv_step: "accounts_inv s \<Longrightarrow> accounts_inv (account_step s op)"
proof -
  assume inv: "accounts_inv s"
  then have ok: "users_ok (db_users (acc_db s))" by (simp add: accounts_inv_def)
  show ?thesis
  proof (cases op)
    case Restart
    then show ?thesis using inv
      by (cases "acc_file s")
        (auto simp: account_step_def accounts_inv_def loaded empty_db_def users_ok_def)
  qed (use inv ok in \<open>auto simp: account_step_def intro!: changed_inv intro: add_holds adopt_holds remove_holds\<close>)
qed

interpretation auth_accounts: machine accounts_start account_step accounts_inv
  by unfold_locales (simp_all add: accounts_start_inv accounts_inv_step)

text \<open>
  C20: C18. Whatever accounts are added, adopted from a provisioning line and removed, and whichever of
  the writes fail: a restart then finds exactly the accounts in memory, there are never more than
  eight with pairwise different names, accounts stay in use, and there is never again none of them,
  which is what would let a stranger create the first.
\<close>

theorem auth_accounts_survive_restart:
  assumes "accounts_start s" and t_def: "t = run account_step s ops"
  shows "db_users (acc_db (account_step t Restart)) = db_users (acc_db t) \<and>
    db_enabled (acc_db (account_step t Restart)) = db_enabled (acc_db t) \<and>
    distinct (map au_username (db_users (acc_db t))) \<and> length (db_users (acc_db t)) \<le> LE_AUTH_MAX_USERS \<and>
    db_enabled (acc_db t) = (acc_file t \<noteq> None) \<and>
    (db_enabled (acc_db t) \<longrightarrow> db_enabled (acc_db (run account_step t later)))"
proof -
  have inv: "accounts_inv t" unfolding t_def by (rule auth_accounts.inv_from_start [OF assms(1)])
  have used_file: "acc_file (account_step u op) = None \<longrightarrow> acc_file u = None" for u op
    by (cases op) (auto simp: account_step_def changed_def split: option.splits)
  have keep: "acc_file u \<noteq> None \<longrightarrow> acc_file (run account_step u later) \<noteq> None" for u
  proof (induction later arbitrary: u)
    case (Cons op later)
    then show ?case using used_file by (metis run.simps(2))
  qed simp
  have used: "db_enabled (acc_db u) = (acc_file u \<noteq> None)" if "accounts_inv u" for u
    using that by (auto simp: accounts_inv_def split: option.splits)
  have after: "accounts_inv (run account_step t later)" by (rule auth_accounts.inv_run [OF inv])
  show ?thesis
    using inv used [OF inv] used [OF after] keep [of t]
    by (cases "acc_file t") (auto simp: accounts_inv_def account_step_def users_ok_def loaded empty_db_def)
qed

text \<open>
  C30: C19. Whatever was done to the accounts, a sign-in succeeds exactly when accounts are in use, the buffer
  for the token is large enough, the password is not too long and there is an account with the name,
  whatever the case of its letters, whose stored digest is the SHA-256 of its salt, a colon and the
  password; the comparisons in constant time change nothing about that.
\<close>

theorem auth_login_iff:
  assumes "accounts_start s" and db: "db = acc_db (run account_step s ops)"
  shows "le_auth_login (Some bytes) now name password token_size db \<noteq> None \<longleftrightarrow>
    db_enabled db \<and> LE_AUTH_TOKEN_MAX \<le> token_size \<and> length password \<le> LE_AUTH_PASSWORD_MAX \<and>
    (\<exists>u\<in>set (db_users db). au_username u = folded name \<and> au_digest u = digest_of (au_salt u) password)"
  by (rule login_iff) (use auth_accounts.inv_from_start [OF assms(1), of ops] db in \<open>simp add: accounts_inv_def\<close>)

text \<open>
  C20. An account that was added opens with the password it was given, in the running server and
  after a restart from the file written, with its name in any case; another password opens it only if
  SHA-256 gives the same digest under the random salt.
\<close>

theorem auth_new_account_opens:
  assumes "accounts_start s" and "acc_db (run account_step s ops) = db" and "acc_path s = path"
    and "le_auth_add_user (Some (map r [0..<32])) writes name password db = Some (db', t)"
    and "map tolower name2 = map tolower name" and "length password2 \<le> LE_AUTH_PASSWORD_MAX"
    and "running \<in> {db', snd (le_auth_load path (Some t))}"
  shows "le_auth_login (Some bytes) now name2 password2 LE_AUTH_TOKEN_MAX running \<noteq> None \<longleftrightarrow>
    digest_of (hex_of_bytes (map r [0..<32])) password2 = digest_of (hex_of_bytes (map r [0..<32])) password"
proof -
  define salt where "salt = hex_of_bytes (map r [0..<32])"
  have inv: "accounts_inv (run account_step s ops)" by (rule auth_accounts.inv_from_start [OF assms(1)])
  have path: "acc_path (account_step u op) = acc_path u" for u op
    by (cases op) (auto simp: account_step_def changed_def split: option.splits)
  have "acc_path (run account_step u ops) = acc_path u" for u by (induction ops arbitrary: u) (simp_all add: path)
  then have p: "path \<noteq> []" using inv assms(3) by (simp add: accounts_inv_def)
  have holds: "file_holds db' t"
    using add_holds [of "Some r"] assms(2,4) inv by (auto simp: accounts_inv_def)
  have add: "valid_username name" "folded name \<notin> set (map au_username (db_users db))"
    and us: "db_users db' = db_users db @ [\<lparr>au_username = folded name, au_salt = salt, au_digest = hash_password salt password\<rparr>]"
    using assms(4) by (auto simp: le_auth_add_user_def append_user_def Let_def salt_def split: if_splits)
  have "length name < LE_AUTH_USERNAME_MAX" using add by (simp add: valid_username_def)
  moreover have "length name2 = length name" using assms(5) by (metis length_map)
  ultimately have name: "folded name2 = folded name" using assms(5) by (simp add: folded_short)
  have run: "users_ok (db_users running)" "db_enabled running" "db_users running = db_users db'"
    using assms(7) holds p by (auto simp: file_holds_def loaded)
  have other: "au_username u = folded name \<Longrightarrow> u \<notin> set (db_users db)" for u
    using add(2) by (metis image_eqI image_set)
  have "(\<exists>u\<in>set (db_users db'). au_username u = folded name2 \<and> au_digest u = digest_of (au_salt u) password2) \<longleftrightarrow>
      digest_of salt password2 = digest_of salt password"
    using other unfolding us name digest_of_def hash_password_of by auto
  then show ?thesis
    unfolding login_iff [OF run(1)] salt_def [symmetric] using run assms(6) by simp
qed

section \<open>At concrete inputs\<close>

text \<open>No file yet, and an account that signs in with its name in capitals.\<close>

definition no_accounts :: accounts where
  "no_accounts = \<lparr>acc_path = ''/data/users'', acc_db = empty_db, acc_file = None\<rparr>"

lemma no_accounts_start: "accounts_start no_accounts"
  by (simp add: accounts_start_def no_accounts_def)

theorem auth_accounts_survive_restart_witness:
  "let t = run account_step no_accounts
       [Add_User (Some (\<lambda>_. 7)) True ''Kim'' ''open sesame'', Add_User (Some (\<lambda>_. 9)) False ''jo'' ''no such file'']
   in db_users (acc_db (account_step t Restart)) = db_users (acc_db t)"
  using auth_accounts_survive_restart [OF no_accounts_start refl, of "[Add_User (Some (\<lambda>_. 7)) True ''Kim'' ''open sesame'',
    Add_User (Some (\<lambda>_. 9)) False ''jo'' ''no such file'']"]
  by (simp add: Let_def)

definition kims_db :: le_auth_db where
  "kims_db = empty_db\<lparr>db_enabled := True, db_users := [\<lparr>au_username = ''kim'', au_salt = ''0123456789abcdef'',
     au_digest = digest_of ''0123456789abcdef'' ''open sesame''\<rparr>]\<rparr>"

lemma kims_db_ok: "users_ok (db_users kims_db)"
proof -
  have "valid_hex ''0123456789abcdef''" "list_all field_char ''kim''" "first_char (hd ''kim'')" "map tolower ''kim'' = ''kim''"
    by code_simp+
  then show ?thesis
    using hash_password_ok [of "''0123456789abcdef''" "''open sesame''"]
    unfolding kims_db_def digest_of_def hash_password_of
    by (simp add: users_ok_def user_wf_def fields_valid_def LE_AUTH_USERNAME_MAX_def LE_AUTH_MAX_USERS_def)
qed

lemma kims_login: "le_auth_login (Some bytes) now ''KIM'' ''open sesame'' 65 kims_db \<noteq> None"
proof -
  have "folded ''KIM'' = ''kim''" by code_simp
  then show ?thesis
    unfolding login_iff [OF kims_db_ok] by (simp add: kims_db_def LE_AUTH_TOKEN_MAX_def LE_AUTH_PASSWORD_MAX_def)
qed

text \<open>The same account in a file.\<close>

definition kims_file :: accounts where
  "kims_file = \<lparr>acc_path = ''/data/users'', acc_db = kims_db, acc_file = Some (concat (map user_line (db_users kims_db)))\<rparr>"

lemma kims_file_start: "accounts_start kims_file"
  using loaded [OF _ file_reads_back [OF kims_db_ok], of "''/data/users''"]
  by (simp add: accounts_start_def kims_file_def) (simp add: kims_db_def)

theorem auth_login_iff_witness:
  "le_auth_login (Some (replicate 32 0)) 0 ''KIM'' ''open sesame'' 65 (acc_db (run account_step kims_file [])) \<noteq> None"
proof -
  have "folded ''KIM'' = ''kim''" by code_simp
  then show ?thesis
    unfolding auth_login_iff [OF kims_file_start refl]
    by (simp add: kims_file_def kims_db_def LE_AUTH_TOKEN_MAX_def LE_AUTH_PASSWORD_MAX_def)
qed

theorem auth_new_account_opens_witness:
  "\<exists>db t. le_auth_add_user (Some (map (\<lambda>_. 7) [0..<32])) True ''Kim'' ''open sesame'' empty_db = Some (db, t) \<and>
     le_auth_login (Some (replicate 32 0)) 0 ''KIM'' ''open sesame'' LE_AUTH_TOKEN_MAX db \<noteq> None"
proof -
  have "valid_username ''Kim'' \<and> \<not> reserved_username ''Kim''" "map tolower ''KIM'' = map tolower ''Kim''"
    by code_simp+
  then obtain db t where add: "le_auth_add_user (Some (map (\<lambda>_. 7) [0..<32])) True ''Kim'' ''open sesame'' empty_db = Some (db, t)"
    by (auto simp: le_auth_add_user_def append_user_def write_users_file_def empty_db_def LE_AUTH_PASSWORD_MAX_def
        LE_AUTH_MAX_USERS_def Let_def simp del: upt_rec_numeral)
  have "acc_db (run account_step no_accounts []) = empty_db" "acc_path no_accounts = ''/data/users''"
    by (simp_all add: no_accounts_def)
  note auth_new_account_opens [OF no_accounts_start this add \<open>map tolower ''KIM'' = map tolower ''Kim''\<close>,
      of "''open sesame''" db "replicate 32 0" 0]
  then show ?thesis using add by (simp add: LE_AUTH_PASSWORD_MAX_def del: upt_rec_numeral)
qed

end
