(* ===== verification/Auth_Sessions.thy ===== *)
theory Auth_Sessions
  imports Auth_Accounts
begin

text \<open>
  The sessions of the web interface: which answers they can give after any sequence of sign-ins,
  checks, sign-outs and changes to the accounts, what leaves a session alone, and what a restart
  finds of them.
\<close>

section \<open>What a check answers\<close>

definition answers :: "int \<Rightarrow> string \<Rightarrow> le_auth_session_slot \<Rightarrow> bool" where
  "answers now token s \<longleftrightarrow> now < as_expires s \<and> as_token s = token"

definition tokens_fit :: "le_auth_session_slot list \<Rightarrow> bool" where
  "tokens_fit ss \<longleftrightarrow> list_all (\<lambda>s. fits (as_token s)) ss"

lemma session_loop_result:
  "tokens_fit ss \<Longrightarrow> fits token \<Longrightarrow>
     fst (session_loop now token ss) = map_option as_username (find (answers now token) ss)"
  by (induction ss) (auto simp: tokens_fit_def answers_def constant_equal_iff split: prod.splits)

lemma session_loop_sessions:
  "s \<in> set (snd (session_loop now token ss)) \<Longrightarrow> s \<in> set ss \<or> as_token s = []"
  by (induction ss) (auto split: prod.splits if_splits)

text \<open>Only expired sessions are changed by a check.\<close>

lemma session_loop_find:
  "now \<le> later \<Longrightarrow> t \<noteq> [] \<Longrightarrow>
     find (answers later t) (snd (session_loop now token ss)) = find (answers later t) ss"
  by (induction ss) (auto simp: answers_def split: prod.splits)

lemma session_answer:
  assumes "db_enabled db" and "token \<noteq> []" and "tokens_fit (db_sessions db)" and "fits token"
  shows "fst (le_auth_session now token db) = map_option as_username (find (answers now token) (db_sessions db))"
  using assms session_loop_result [of "db_sessions db" token now]
  by (cases "session_loop now token (db_sessions db)") (simp add: le_auth_session_def)

section \<open>Grants\<close>

text \<open>
  What can happen to the sessions.  Beside the data of the server we keep the grants: the token, the
  name and the end of every sign-in that was not signed out and whose account was not removed since.
\<close>

datatype session_op =
  Login "nat \<Rightarrow> 8 word" int string string nat
| Check int string
| Logout string
| Remove bool string
| Add "nat \<Rightarrow> 8 word" bool string string

record granted =
  g_db :: le_auth_db
  g_grants :: "(string \<times> string \<times> int) set"

definition session_step :: "granted \<Rightarrow> session_op \<Rightarrow> granted" where
  "session_step g op =
     (case op of
        Login random now name password n \<Rightarrow>
          (case le_auth_login (Some (map random [0..<32])) now name password n (g_db g) of
             None \<Rightarrow> g
           | Some (token, db) \<Rightarrow>
               \<lparr>g_db = db, g_grants = insert (token, folded name, now + LE_AUTH_SESSION_SECONDS) (g_grants g)\<rparr>)
      | Check now token \<Rightarrow> g\<lparr>g_db := snd (le_auth_session now token (g_db g))\<rparr>
      | Logout token \<Rightarrow>
          \<lparr>g_db = le_auth_logout token (g_db g), g_grants = {(t, n, e) \<in> g_grants g. t \<noteq> token}\<rparr>
      | Remove writes name \<Rightarrow>
          (case le_auth_remove_user writes name (g_db g) of None \<Rightarrow> g
           | Some (db, _) \<Rightarrow> \<lparr>g_db = db, g_grants = {(t, n, e) \<in> g_grants g. n \<noteq> folded name}\<rparr>)
      | Add random writes name password \<Rightarrow>
          (case le_auth_add_user (Some (map random [0..<32])) writes name password (g_db g) of None \<Rightarrow> g
           | Some (db, _) \<Rightarrow> g\<lparr>g_db := db\<rparr>))"

definition session_granted :: "(string \<times> string \<times> int) set \<Rightarrow> le_auth_session_slot \<Rightarrow> bool" where
  "session_granted G s \<longleftrightarrow> as_token s = [] \<or>
     (fits (as_token s) \<and> (as_token s, as_username s, as_expires s) \<in> G)"

definition sessions_inv :: "granted \<Rightarrow> bool" where
  "sessions_inv g \<longleftrightarrow> length (db_sessions (g_db g)) = LE_AUTH_MAX_SESSIONS \<and>
     (\<forall>s\<in>set (db_sessions (g_db g)). session_granted (g_grants g) s)"

definition sessions_start :: "granted \<Rightarrow> bool" where
  "sessions_start g \<longleftrightarrow> db_sessions (g_db g) = replicate LE_AUTH_MAX_SESSIONS no_session"

lemma sessions_fit: "sessions_inv g \<Longrightarrow> tokens_fit (db_sessions (g_db g))"
  by (auto simp: sessions_inv_def tokens_fit_def list_all_iff session_granted_def fits_def)

lemma granted_mono: "session_granted G s \<Longrightarrow> G \<subseteq> H \<Longrightarrow> session_granted H s"
  by (auto simp: session_granted_def)

lemma hex_fits: "fits (hex_of_bytes (map r [0..<32]))"
  by (simp add: fits_def hex_of_bytes_ok)

lemma login_sessions:
  assumes "le_auth_login (Some (map r [0..<32])) now name p n db = Some (token, db')"
  shows "\<exists>i. token = hex_of_bytes (map r [0..<32]) \<and> db_sessions db' = (db_sessions db)[i :=
    \<lparr>as_token = token, as_username = folded name, as_expires = now + LE_AUTH_SESSION_SECONDS, as_persisted = False\<rparr>]
    \<and> i = (case first_free now 0 (db_sessions db) of None \<Rightarrow> 0 | Some i \<Rightarrow> i)
    \<and> db_enabled db' = db_enabled db \<and> db_users db' = db_users db"
proof -
  have "issue_token (Some (map r [0..<32])) now (folded name) n db = Some (token, db')"
    using assms by (auto simp: le_auth_login_def split: if_splits option.splits)
  then show ?thesis unfolding issue_token_def Let_def by (auto split: if_splits)
qed

lemma constant_equal_same: "constant_equal a a"
proof -
  have "fold (\<lambda>i d. d OR (char_or_0 a i XOR char_or_0 a i)) xs (0 :: u32) = 0" for xs
    by (induction xs) simp_all
  then show ?thesis by (simp add: constant_equal_def)
qed

lemma sessions_inv_step: "sessions_inv g \<Longrightarrow> sessions_inv (session_step g op)"
proof -
  assume inv: "sessions_inv g"
  then have len: "length (db_sessions (g_db g)) = LE_AUTH_MAX_SESSIONS"
    and all: "\<And>s. s \<in> set (db_sessions (g_db g)) \<Longrightarrow> session_granted (g_grants g) s"
    by (simp_all add: sessions_inv_def)
  show ?thesis
  proof (cases op)
    case (Login r now name p n)
    show ?thesis
    proof (cases "le_auth_login (Some (map r [0..<32])) now name p n (g_db g)")
      case (Some res)
      obtain token db where res: "res = (token, db)" by fastforce
      define G where "G = insert (token, folded name, now + LE_AUTH_SESSION_SECONDS) (g_grants g)"
      from login_sessions [OF Some [unfolded res]] obtain i where
        t: "token = hex_of_bytes (map r [0..<32])" and
        d: "db_sessions db = (db_sessions (g_db g))[i := \<lparr>as_token = token, as_username = folded name,
             as_expires = now + LE_AUTH_SESSION_SECONDS, as_persisted = False\<rparr>]" by blast
      have "session_granted G s" if "s \<in> set (db_sessions db)" for s
      proof -
        have "s \<in> insert \<lparr>as_token = token, as_username = folded name, as_expires = now + LE_AUTH_SESSION_SECONDS,
            as_persisted = False\<rparr> (set (db_sessions (g_db g)))"
          using that set_update_subset_insert unfolding d by fast
        then show ?thesis
        proof
          assume "s = \<lparr>as_token = token, as_username = folded name, as_expires = now + LE_AUTH_SESSION_SECONDS,
            as_persisted = False\<rparr>"
          moreover have "fits token" unfolding t by (rule hex_fits)
          ultimately show ?thesis by (simp add: session_granted_def G_def)
        next
          assume "s \<in> set (db_sessions (g_db g))"
          then show ?thesis using all by (auto intro: granted_mono simp: G_def)
        qed
      qed
      moreover have "session_step g op = \<lparr>g_db = db, g_grants = G\<rparr>"
        using Login Some res by (simp add: session_step_def G_def)
      ultimately show ?thesis using len by (simp add: sessions_inv_def d)
    qed (use Login inv in \<open>simp add: session_step_def\<close>)
  next
    case (Check now token)
    have "length (snd (session_loop now token ss)) = length ss" for ss
      by (induction ss) (auto split: prod.split)
    then have "length (db_sessions (snd (le_auth_session now token (g_db g)))) = LE_AUTH_MAX_SESSIONS"
      using len by (simp add: le_auth_session_def split: prod.split) (metis snd_conv)
    moreover have "session_granted (g_grants g) s" if "s \<in> set (db_sessions (snd (le_auth_session now token (g_db g))))" for s
    proof -
      have "s \<in> set (db_sessions (g_db g)) \<or> as_token s = []"
        using that session_loop_sessions [of s now token "db_sessions (g_db g)"]
        by (auto simp: le_auth_session_def split: if_splits prod.splits)
      then show ?thesis using all by (auto simp: session_granted_def)
    qed
    ultimately show ?thesis using Check by (simp add: session_step_def sessions_inv_def)
  next
    case (Logout token)
    have "session_granted {(t, n, e) \<in> g_grants g. t \<noteq> token} (sign_out token s)"
      if "s \<in> set (db_sessions (g_db g))" for s
      using all [OF that] constant_equal_same [of token] by (auto simp: session_granted_def sign_out_def)
    then show ?thesis using Logout len by (simp add: session_step_def sessions_inv_def le_auth_logout_def)
  next
    case (Remove writes name)
    have "session_granted {(t, n, e) \<in> g_grants g. n \<noteq> folded name} (forget_user (folded name) s)"
      if "s \<in> set (db_sessions (g_db g))" for s
      using all [OF that] by (auto simp: session_granted_def forget_user_def)
    then show ?thesis using Remove inv len
      by (auto simp: session_step_def sessions_inv_def le_auth_remove_user_def Let_def split: option.split if_splits)
  next
    case (Add r writes name p)
    have "db_sessions db = db_sessions (g_db g)"
      if "le_auth_add_user (Some (map r [0..<32])) writes name p (g_db g) = Some (db, t)" for db t
      using that by (auto simp: le_auth_add_user_def append_user_def Let_def split: if_splits)
    then show ?thesis using Add inv by (auto simp: session_step_def sessions_inv_def split: option.split)
  qed
qed

lemma sessions_start_inv: "sessions_start g \<Longrightarrow> sessions_inv g"
  by (auto simp: sessions_start_def sessions_inv_def session_granted_def no_session_def)

interpretation auth_sessions: machine sessions_start session_step sessions_inv
  by unfold_locales (simp_all add: sessions_start_inv sessions_inv_step)

text \<open>
  C7: C21. A session that is answered was granted: whatever sign-ins, checks, sign-outs and changes to the
  accounts came before, a check that names somebody was given a token that a successful sign-in of
  that account issued, whose time has not run out, which was not signed out and whose account was not
  removed since, not even to be added again.
\<close>

theorem auth_session_only_granted:
  assumes "sessions_start g" and "fits token"
    and "fst (le_auth_session now token (g_db (run session_step g ops))) = Some name"
  shows "\<exists>expires. (token, name, expires) \<in> g_grants (run session_step g ops) \<and> now < expires"
proof -
  define t where "t = run session_step g ops"
  have inv: "sessions_inv t" unfolding t_def by (rule auth_sessions.inv_from_start [OF assms(1)])
  have on: "db_enabled (g_db t)" "token \<noteq> []"
    using assms(3) by (auto simp: t_def le_auth_session_def split: if_splits)
  have "map_option as_username (find (answers now token) (db_sessions (g_db t))) = Some name"
    using assms(3) session_answer [OF on sessions_fit [OF inv] assms(2), of now] by (simp add: t_def)
  then obtain s where "find (answers now token) (db_sessions (g_db t)) = Some s" "name = as_username s" by auto
  then have "s \<in> set (db_sessions (g_db t))" "answers now token s" "name = as_username s"
    by (auto simp: find_Some_iff)
  then show ?thesis using inv on(2) unfolding t_def [symmetric]
    by (auto simp: sessions_inv_def session_granted_def answers_def)
qed

section \<open>What leaves a session alone\<close>

lemma find_update:
  "\<not> P (xs ! i) \<Longrightarrow> \<not> P x \<Longrightarrow> i < length xs \<Longrightarrow> find P (xs[i := x]) = find P xs"
  by (induction xs arbitrary: i) (auto split: nat.split)

lemma find_map_same:
  assumes "\<And>x. x \<in> set xs \<Longrightarrow> P (f x) = P x \<and> (P x \<longrightarrow> f x = x)"
  shows "find P (map f xs) = find P xs"
  using assms by (induction xs) auto

lemma first_free_slot: "first_free now i ss = Some k \<Longrightarrow> i \<le> k \<and> k - i < length ss \<and> slot_free now (ss ! (k - i))"
proof (induction now i ss rule: first_free.induct)
  case (2 now i s ss)
  then show ?case by (cases "slot_free now s") (auto simp: nth_Cons')
qed simp

text \<open>
  An operation that does not concern the session of \<open>token\<close> and \<open>name\<close> by the time \<open>now\<close>: another
  sign-in that finds a free slot, a sign-out of another token, the removal of another account.
\<close>

definition unconcerned :: "int \<Rightarrow> string \<Rightarrow> string \<Rightarrow> granted \<Rightarrow> session_op \<Rightarrow> bool" where
  "unconcerned now token name g op \<longleftrightarrow>
     (case op of
        Login random at _ _ _ \<Rightarrow>
          at \<le> now \<and> hex_of_bytes (map random [0..<32]) \<noteq> token \<and> list_ex (slot_free at) (db_sessions (g_db g))
      | Check at _ \<Rightarrow> at \<le> now
      | Logout t \<Rightarrow> fits t \<and> t \<noteq> token
      | Remove _ n \<Rightarrow> folded n \<noteq> name
      | Add _ _ _ _ \<Rightarrow> True)"

lemma first_free_ex: "list_ex (slot_free now) ss \<Longrightarrow> first_free now i ss \<noteq> None"
  by (induction ss arbitrary: i) auto

lemma unconcerned_find:
  assumes inv: "sessions_inv g" and u: "unconcerned now token name g op" and t: "token \<noteq> []"
    and s: "find (answers now token) (db_sessions (g_db g)) = Some s" "as_username s = name"
    and uniq: "\<And>x. x \<in> set (db_sessions (g_db g)) \<Longrightarrow> as_token x = token \<Longrightarrow> as_username x = name"
  shows "find (answers now token) (db_sessions (g_db (session_step g op))) = Some s"
proof (cases op)
  case (Login r at n p m)
  show ?thesis
  proof (cases "le_auth_login (Some (map r [0..<32])) at n p m (g_db g)")
    case (Some res)
    obtain new db where res: "res = (new, db)" by fastforce
    obtain i where free: "first_free at 0 (db_sessions (g_db g)) = Some i"
      using u Login first_free_ex by (fastforce simp: unconcerned_def)
    have slot: "i < length (db_sessions (g_db g))" "slot_free at (db_sessions (g_db g) ! i)"
      using first_free_slot [OF free] by simp_all
    have "at \<le> now" "hex_of_bytes (map r [0..<32]) \<noteq> token" using u Login by (simp_all add: unconcerned_def)
    then have "\<not> answers now token (db_sessions (g_db g) ! i)" using slot(2) t
      by (auto simp: answers_def slot_free_def)
    then have "find (answers now token) (db_sessions db) = find (answers now token) (db_sessions (g_db g))"
      using login_sessions [OF Some [unfolded res]] free slot \<open>hex_of_bytes (map r [0..<32]) \<noteq> token\<close>
      by (auto simp: answers_def intro!: find_update)
    then show ?thesis using Login Some res s by (simp add: session_step_def)
  qed (use Login s in \<open>simp add: session_step_def\<close>)
next
  case (Check at other)
  then have "at \<le> now" using u by (simp add: unconcerned_def)
  then show ?thesis using Check s session_loop_find [of at now token other "db_sessions (g_db g)"] t
    by (cases "session_loop at other (db_sessions (g_db g))") (auto simp: session_step_def le_auth_session_def)
next
  case (Logout other)
  have "sign_out other x = (if as_token x = other then x\<lparr>as_token := []\<rparr> else x)"
    if "x \<in> set (db_sessions (g_db g))" for x
    using that sessions_fit [OF inv] u Logout constant_equal_iff [of "as_token x" other]
    by (auto simp: sign_out_def tokens_fit_def list_all_iff unconcerned_def)
  then have "find (answers now token) (map (sign_out other) (db_sessions (g_db g))) =
      find (answers now token) (db_sessions (g_db g))"
    using u Logout t by (intro find_map_same) (auto simp: answers_def unconcerned_def)
  then have "find (answers now token) (db_sessions (le_auth_logout other (g_db g))) =
      find (answers now token) (db_sessions (g_db g))" by (simp add: le_auth_logout_def)
  then show ?thesis using Logout s by (simp add: session_step_def)
next
  case (Remove writes n)
  have "find (answers now token) (map (forget_user (folded n)) (db_sessions (g_db g))) =
      find (answers now token) (db_sessions (g_db g))"
    using u Remove t uniq by (intro find_map_same) (auto simp: answers_def forget_user_def unconcerned_def)
  then show ?thesis using Remove s
    by (auto simp: session_step_def le_auth_remove_user_def Let_def split: option.split)
next
  case (Add r writes n p)
  then show ?thesis using s
    by (auto simp: session_step_def le_auth_add_user_def append_user_def Let_def split: option.split)
qed

lemma enabled_step: "db_enabled (g_db g) \<Longrightarrow> db_enabled (g_db (session_step g op))"
  by (cases op)
    (auto simp: session_step_def le_auth_logout_def le_auth_remove_user_def write_users_file_def le_auth_add_user_def
      append_user_def le_auth_session_def Let_def split: option.split prod.split dest: login_sessions)

fun all_unconcerned :: "int \<Rightarrow> string \<Rightarrow> string \<Rightarrow> granted \<Rightarrow> session_op list \<Rightarrow> bool" where
  "all_unconcerned now token name g [] = True"
| "all_unconcerned now token name g (op # ops) =
     (unconcerned now token name g op \<and> all_unconcerned now token name (session_step g op) ops)"

text \<open>A token that was issued for one account only.\<close>

definition issued_only_for :: "string \<Rightarrow> string \<Rightarrow> granted \<Rightarrow> bool" where
  "issued_only_for name token g \<longleftrightarrow> (\<forall>(t, n, e)\<in>g_grants g. t = token \<longrightarrow> n = name)"

lemma issued_step:
  "issued_only_for name token g \<Longrightarrow> unconcerned now token name g op \<Longrightarrow> issued_only_for name token (session_step g op)"
  by (cases op)
    (auto simp: session_step_def issued_only_for_def unconcerned_def split: option.split dest: login_sessions)

lemma issued_names:
  assumes "sessions_inv g" and "issued_only_for name token g" and "token \<noteq> []"
    and "x \<in> set (db_sessions (g_db g))" and "as_token x = token"
  shows "as_username x = name"
  using assms unfolding sessions_inv_def session_granted_def issued_only_for_def by fastforce

lemma unconcerned_run:
  assumes "sessions_inv g" and "issued_only_for name token g" and "token \<noteq> []"
    and "find (answers now token) (db_sessions (g_db g)) = Some s" and "as_username s = name"
    and "all_unconcerned now token name g ops"
  shows "find (answers now token) (db_sessions (g_db (run session_step g ops))) = Some s"
  using assms
proof (induction ops arbitrary: g)
  case (Cons op ops)
  have "find (answers now token) (db_sessions (g_db (session_step g op))) = Some s"
    using Cons.prems issued_names [OF Cons.prems(1-3)] by (intro unconcerned_find) auto
  then show ?case using Cons sessions_inv_step issued_step by (simp, blast)
qed simp

text \<open>
  C22. A session lasts: a token that names an account at some time still does so at that time after any
  operations that come before and do not concern it, which are checks of any token, sign-outs of other
  tokens, the removal of other accounts, new accounts, and sign-ins as long as one of the eight slots is
  free or has run out.
\<close>

theorem auth_session_lasts:
  assumes "sessions_start g" and t_def: "t = run session_step g before" and "fits token"
    and "issued_only_for name token t"
    and "fst (le_auth_session now token (g_db t)) = Some name"
    and "all_unconcerned now token name t ops"
  shows "fst (le_auth_session now token (g_db (run session_step t ops))) = Some name"
proof -
  have inv: "sessions_inv t" unfolding t_def by (rule auth_sessions.inv_from_start [OF assms(1)])
  have on: "db_enabled (g_db t)" "token \<noteq> []"
    using assms(5) by (auto simp: le_auth_session_def split: if_splits)
  have "map_option as_username (find (answers now token) (db_sessions (g_db t))) = Some name"
    using assms(5) session_answer [OF on sessions_fit [OF inv] assms(3), of now] by simp
  then obtain s where s: "find (answers now token) (db_sessions (g_db t)) = Some s" "as_username s = name" by auto
  have "db_enabled (g_db u) \<Longrightarrow> db_enabled (g_db (run session_step u ops))" for u
    by (induction ops arbitrary: u) (simp_all add: enabled_step)
  then have "db_enabled (g_db (run session_step t ops))" using on by blast
  then show ?thesis
    using session_answer [OF _ on(2) sessions_fit [OF auth_sessions.inv_run [OF inv]] assms(3), of ops now]
      unconcerned_run [OF inv assms(4) on(2) s assms(6)] s(2) by simp
qed

section \<open>The file of sessions\<close>

text \<open>A session as the server makes them for the names it accepts itself.\<close>

definition storable :: "le_auth_session_slot \<Rightarrow> bool" where
  "storable s \<longleftrightarrow> length (as_token s) = 64 \<and> valid_hex (as_token s) \<and> valid_username (as_username s) \<and>
     0 \<le> as_expires s \<and> as_expires s < 2 ^ 63"

definition session_body :: "le_auth_session_slot \<Rightarrow> string" where
  "session_body s = as_token s @ '' '' @ as_username s @ '' '' @ int_digits (as_expires s)"

lemma session_line_body: "session_line s = session_body s @ [newline]"
  by (simp add: session_line_def session_body_def)

definition plain_char :: "char \<Rightarrow> bool" where
  "plain_char c \<longleftrightarrow> 32 < ord c"

lemma plain_chars: "hex_digit_char c \<Longrightarrow> plain_char c" "name_char c \<Longrightarrow> plain_char c" "isdigit c \<Longrightarrow> plain_char c"
  by (auto simp: hex_digit_char_def name_char_def isalnum_def isalpha_def isdigit_def plain_char_def)

lemma plain_not: "plain_char c \<Longrightarrow> \<not> isspace c \<and> c \<noteq> newline \<and> c \<noteq> char_of (0 :: nat)"
  by (auto simp: plain_char_def isspace_def newline_def char_eq_ord)

lemma scan_word_plain:
  assumes "\<forall>c\<in>set w. plain_char c" and "w \<noteq> []" and "length w \<le> n"
  shows "scan_word n (w @ CHR '' '' # r) = Some (w, CHR '' '' # r) \<and>
    scan_word n (CHR '' '' # w @ CHR '' '' # r) = Some (w, CHR '' '' # r)"
proof -
  have sp: "isspace (CHR '' '')" by (simp add: isspace_def)
  have "takeWhile (\<lambda>c. \<not> isspace c) (w @ CHR '' '' # r) = w"
    using assms(1) plain_not sp takeWhile_all_append [of w "\<lambda>c. \<not> isspace c" "CHR '' '' # r"] by auto
  moreover have "dropWhile isspace (w @ CHR '' '' # r) = w @ CHR '' '' # r"
    using assms(1,2) plain_not by (cases w) auto
  ultimately show ?thesis using assms(2,3) sp by (cases n) (simp_all add: scan_word_def Let_def)
qed

lemma scan_session_line: 
  assumes "storable s" shows "scan_session (session_line s) = Some (as_token s, as_username s, as_expires s)"
proof -
  have plain: "\<forall>c\<in>set (as_token s). plain_char c" "\<forall>c\<in>set (as_username s). plain_char c"
    using assms plain_chars by (auto simp: storable_def valid_hex_def valid_username_def list_all_iff)
  have e: "as_expires s \<ge> 0" "as_expires s < 2 ^ 63" using assms by (simp_all add: storable_def)
  then have digits: "\<forall>c\<in>set (int_digits (as_expires s)). plain_char c"
    using nat_digits_digits plain_chars by (auto simp: int_digits_def)
  have "\<forall>c\<in>set (session_line s). c \<noteq> char_of (0 :: nat)"
    using plain digits plain_not by (auto simp: session_line_def newline_def char_eq_ord)
  then have nul: "takeWhile (\<lambda>c. c \<noteq> char_of (0 :: nat)) (session_line s) = session_line s"
    by (intro takeWhile_eq_all_conv [THEN iffD2]) auto
  have parts: "as_token s \<noteq> []" "as_username s \<noteq> []" "length (as_token s) \<le> 64" "length (as_username s) \<le> 31"
    using assms by (auto simp: storable_def valid_username_def LE_AUTH_USERNAME_MAX_def)
  have sp: "isspace (CHR '' '')" "\<not> isdigit newline" by (simp_all add: isspace_def isdigit_def newline_def)
  have number: "strto_int (CHR '' '' # int_digits (as_expires s) @ [newline]) = Some (as_expires s, [newline])"
  proof -
    have "strto_int (CHR '' '' # x) = strto_int x" for x by (simp add: strto_int_def sp)
    then show ?thesis using strto_int_digits [of "[newline]" "as_expires s"] sp by simp
  qed
  have "clamp 64 (as_expires s) = (as_expires s, False)" using e by (simp add: clamp_def)
  then show ?thesis
    using scan_word_plain [OF plain(1) parts(1,3)] scan_word_plain [OF plain(2) parts(2,4)] number
    unfolding scan_session_def nul by (simp add: session_line_def)
qed

text \<open>The sessions a file brings back at the time \<open>now\<close>.\<close>

definition brought_back :: "int \<Rightarrow> le_auth_user list \<Rightarrow> le_auth_session_slot \<Rightarrow> bool" where
  "brought_back now users s \<longleftrightarrow> now < as_expires s \<and> as_username s \<in> set (map au_username users)"

lemma load_one_line:
  assumes "storable x" and "brought_back now users x" and "k < LE_AUTH_MAX_SESSIONS"
  shows "load_session_lines now users k (session_line x # ls) ss =
    load_session_lines now users (Suc k) ls (ss[k := x\<lparr>as_persisted := True\<rparr>])"
  using assms scan_session_line [OF assms(1)] unfolding brought_back_def
  by (cases x) (simp add: le_auth_session_slot.defs)

lemma load_lines:
  assumes "list_all storable xs" and "k + length (filter (brought_back now users) xs) \<le> LE_AUTH_MAX_SESSIONS"
    and "length ss = LE_AUTH_MAX_SESSIONS"
  shows "load_session_lines now users k (map session_line xs) ss =
    take k ss @ map (\<lambda>s. s\<lparr>as_persisted := True\<rparr>) (filter (brought_back now users) xs) @
    drop (k + length (filter (brought_back now users) xs)) ss"
  using assms
proof (induction xs arbitrary: k ss)
  case (Cons x xs)
  have scan: "scan_session (session_line x) = Some (as_token x, as_username x, as_expires x)"
    using Cons.prems by (simp add: scan_session_line)
  show ?case
  proof (cases "brought_back now users x")
    case True
    then have k: "k < LE_AUTH_MAX_SESSIONS" using Cons.prems by simp
    have "load_session_lines now users (Suc k) (map session_line xs) (ss[k := x\<lparr>as_persisted := True\<rparr>]) =
        take (Suc k) (ss[k := x\<lparr>as_persisted := True\<rparr>]) @ map (\<lambda>s. s\<lparr>as_persisted := True\<rparr>) (filter (brought_back now users) xs) @
        drop (Suc k + length (filter (brought_back now users) xs)) (ss[k := x\<lparr>as_persisted := True\<rparr>])"
      using Cons.prems True by (intro Cons.IH) simp_all
    then show ?thesis
      using True k Cons.prems load_one_line [of x now users k] by (simp add: take_Suc_conv_app_nth)
  next
    case False
    then have "load_session_lines now users k (map session_line (x # xs)) ss = load_session_lines now users k (map session_line xs) ss"
      by (cases xs) (auto simp: scan brought_back_def)
    then show ?thesis using Cons False by simp
  qed
qed simp

lemma saved_lines:
  assumes "list_all storable xs"
  shows "cut_lines 256 (concat (map session_line xs)) = map session_line xs"
proof -
  have short: "newline \<notin> set (session_body s) \<and> length (session_body s) + 1 < 256" if s: "storable s" for s
  proof -
    have "\<forall>c\<in>set (as_token s @ as_username s @ int_digits (as_expires s)). plain_char c"
      using s plain_chars nat_digits_digits
      by (auto simp: storable_def valid_hex_def valid_username_def list_all_iff int_digits_def)
    then have "newline \<notin> set (as_token s @ as_username s @ int_digits (as_expires s))" using plain_not by blast
    moreover have "newline \<notin> set '' ''" by (simp add: newline_def char_eq_ord)
    moreover have "length (int_digits (as_expires s)) \<le> Suc 18"
      using s nat_digits_length [of "nat (as_expires s)" 18] by (auto simp: storable_def int_digits_def)
    moreover have "length (as_token s) = 64" "length (as_username s) \<le> 31"
      using s by (auto simp: storable_def valid_username_def LE_AUTH_USERNAME_MAX_def)
    ultimately show ?thesis by (simp add: session_body_def)
  qed
  have "cut_lines 256 (concat (map (\<lambda>l. l @ [newline]) (map session_body xs))) = map (\<lambda>l. l @ [newline]) (map session_body xs)"
    using assms short by (intro cut_all_lines) (auto simp: list_all_iff)
  then show ?thesis by (simp add: session_line_body [abs_def] comp_def)
qed


section \<open>At concrete inputs\<close>

definition kims_start :: granted where
  "kims_start = \<lparr>g_db = kims_db, g_grants = {}\<rparr>"

definition kims_sign_in :: session_op where
  "kims_sign_in = Login (\<lambda>_. 7) 100 ''KIM'' ''open sesame'' 65"

definition kims_token :: string where
  "kims_token = hex_of_bytes (map (\<lambda>_. 7) [0..<32])"

definition kims_session :: le_auth_session_slot where
  "kims_session = \<lparr>as_token = kims_token, as_username = ''kim'', as_expires = 43300, as_persisted = False\<rparr>"

lemma kims_start_ok: "sessions_start kims_start"
  by (simp add: sessions_start_def kims_start_def kims_db_def empty_db_def)

lemma kims_step:
  obtains db where "session_step kims_start kims_sign_in = \<lparr>g_db = db, g_grants = {(kims_token, ''kim'', 43300)}\<rparr>"
    and "db_sessions db = kims_session # replicate 7 no_session" and "db_enabled db"
proof -
  obtain token db where l: "le_auth_login (Some (map (\<lambda>_. 7) [0..<32])) 100 ''KIM'' ''open sesame'' 65 kims_db = Some (token, db)"
    using kims_login [of "map (\<lambda>_. 7) [0..<32]" 100] by fastforce
  have "folded ''KIM'' = ''kim''" by code_simp
  moreover have "db_sessions kims_db = replicate 8 no_session" "db_enabled kims_db"
    by (simp_all add: kims_db_def empty_db_def LE_AUTH_MAX_SESSIONS_def)
  moreover have "replicate 8 no_session = no_session # replicate 7 no_session"
    by (simp add: eval_nat_numeral)
  ultimately have "token = kims_token" "db_sessions db = kims_session # replicate 7 no_session" "db_enabled db"
    using login_sessions [OF l]
    by (simp_all add: kims_token_def kims_session_def slot_free_def no_session_def LE_AUTH_SESSION_SECONDS_def)
  then show ?thesis
    using that [of db] l \<open>folded ''KIM'' = ''kim''\<close>
    by (simp add: session_step_def kims_sign_in_def kims_start_def LE_AUTH_SESSION_SECONDS_def)
qed

lemma kims_token_fits: "fits kims_token" "kims_token \<noteq> []" "length kims_token = 64" "valid_hex kims_token"
  using hex_of_bytes_ok [of "map (\<lambda>_. 7) [0..<32]"] hex_fits [of "\<lambda>_. 7"] unfolding kims_token_def by auto

lemma kims_check: "fst (le_auth_session 200 kims_token (g_db (session_step kims_start kims_sign_in))) = Some ''kim''"
proof (rule kims_step)
  fix db assume d: "session_step kims_start kims_sign_in = \<lparr>g_db = db, g_grants = {(kims_token, ''kim'', 43300)}\<rparr>"
    "db_sessions db = kims_session # replicate 7 no_session" "db_enabled db"
  have "tokens_fit (db_sessions db)"
    using kims_token_fits by (simp add: d tokens_fit_def kims_session_def list_all_iff no_session_def fits_def)
  then show ?thesis
    using session_answer [of db kims_token 200] kims_token_fits by (simp add: d answers_def kims_session_def)
qed

theorem auth_session_only_granted_witness:
  "\<exists>expires. (kims_token, ''kim'', expires) \<in> g_grants (run session_step kims_start [kims_sign_in]) \<and> 200 < expires"
  using auth_session_only_granted [OF kims_start_ok kims_token_fits(1), of 200 "[kims_sign_in]" "''kim''"] kims_check
  by simp

theorem auth_session_lasts_witness:
  "fst (le_auth_session 200 kims_token (g_db (run session_step (session_step kims_start kims_sign_in)
     [Check 150 ''no such token'', Logout ''no such token'']))) = Some ''kim''"
proof (rule kims_step)
  fix db assume d: "session_step kims_start kims_sign_in = \<lparr>g_db = db, g_grants = {(kims_token, ''kim'', 43300)}\<rparr>"
  have "''no such token'' \<noteq> kims_token"
  proof
    assume "''no such token'' = kims_token"
    then show False using kims_token_fits(3) by (simp flip: \<open>''no such token'' = kims_token\<close>)
  qed
  then have all: "all_unconcerned 200 kims_token ''kim'' (session_step kims_start kims_sign_in)
      [Check 150 ''no such token'', Logout ''no such token'']"
    by (simp add: unconcerned_def fits_def)
  have only: "issued_only_for ''kim'' kims_token (session_step kims_start kims_sign_in)"
    by (simp add: issued_only_for_def d)
  have "session_step kims_start kims_sign_in = run session_step kims_start [kims_sign_in]" by simp
  then show ?thesis by (rule auth_session_lasts [OF kims_start_ok _ kims_token_fits(1) only kims_check all])
qed


end
