(* ===== verification/Mdns_Messages.thy ===== *)
theory Mdns_Messages
  imports C_Text
begin

text \<open>
  The messages with which a service registers at the discovery daemon (src/adapter/mdns_lease.c): what
  names and metadata are accepted, and the two formats on the wire.

  A field of the metadata is a C string, the characters before the zero; a message is the bytes
  received.  The \<open>seen\<close> bits of the decoder are the fields that have been set.  NULL arguments are
  left out.
\<close>

definition LE_MDNS_ESPHOME_PACKET_MAX :: nat where "LE_MDNS_ESPHOME_PACKET_MAX = 1536"
definition LE_MDNS_SENDSPIN_PACKET_MAX :: nat where "LE_MDNS_SENDSPIN_PACKET_MAX = 192"
definition LE_MDNS_ESPHOME_NOISE :: string where "LE_MDNS_ESPHOME_NOISE = ''Noise_NNpsk0_25519_ChaChaPoly_SHA256''"

record le_mdns_esphome_metadata =
  md_version :: string
  md_mac :: string
  md_platform :: string
  md_board :: string
  md_network :: string
  md_friendly_name :: string
  md_api_encryption :: string
  md_project_name :: string
  md_project_version :: string

text \<open>The table of the fields: key and size of the buffer; and the values in its order.\<close>

definition mdns_fields :: "(string \<times> nat) list" where
  "mdns_fields = [(''version'', 32), (''mac'', 18), (''platform'', 16), (''board'', 32), (''network'', 16),
     (''friendly_name'', 64), (''api_encryption'', 48), (''project_name'', 64), (''project_version'', 32)]"

definition field_values :: "le_mdns_esphome_metadata \<Rightarrow> string list" where
  "field_values m = [md_version m, md_mac m, md_platform m, md_board m, md_network m, md_friendly_name m,
     md_api_encryption m, md_project_name m, md_project_version m]"

definition metadata_of :: "string list \<Rightarrow> le_mdns_esphome_metadata" where
  "metadata_of v = \<lparr>md_version = v ! 0, md_mac = v ! 1, md_platform = v ! 2, md_board = v ! 3, md_network = v ! 4,
     md_friendly_name = v ! 5, md_api_encryption = v ! 6, md_project_name = v ! 7, md_project_version = v ! 8\<rparr>"

section \<open>What is accepted\<close>

definition mdns_hex :: "char \<Rightarrow> nat option" where
  "mdns_hex c =
     (if isdigit c then Some (ord c - 48)
      else if 97 \<le> ord c \<and> ord c \<le> 102 then Some (ord c - 97 + 10)
      else if 65 \<le> ord c \<and> ord c \<le> 70 then Some (ord c - 65 + 10) else None)"

text \<open>The first byte of a longer sequence: its bits, how many follow, and the least code point.\<close>

definition utf8_lead :: "char \<Rightarrow> (nat \<times> nat \<times> nat) option" where
  "utf8_lead c =
     (if 194 \<le> ord c \<and> ord c \<le> 223 then Some (ord c mod 32, 1, 128)
      else if 224 \<le> ord c \<and> ord c \<le> 239 then Some (ord c mod 16, 2, 2048)
      else if 240 \<le> ord c \<and> ord c \<le> 244 then Some (ord c mod 8, 3, 65536) else None)"

fun utf8_tail :: "nat \<Rightarrow> nat \<Rightarrow> string \<Rightarrow> (nat \<times> string) option" where
  "utf8_tail 0 cp s = Some (cp, s)"
| "utf8_tail (Suc n) cp [] = None"
| "utf8_tail (Suc n) cp (c # s) = (if ord c div 64 \<noteq> 2 then None else utf8_tail n (cp * 64 + ord c mod 64) s)"

definition bad_code_point :: "nat \<Rightarrow> nat \<Rightarrow> bool" where
  "bad_code_point minimum cp \<longleftrightarrow> cp < minimum \<or> 1114111 < cp \<or> (55296 \<le> cp \<and> cp \<le> 57343) \<or>
     cp = 65534 \<or> cp = 65535 \<or> (128 \<le> cp \<and> cp \<le> 159)"

lemma utf8_tail_length: "utf8_tail n cp s = Some (v, r) \<Longrightarrow> length r \<le> length s"
  by (induction n cp s rule: utf8_tail.induct) (auto split: if_splits)

function utf8_valid :: "string \<Rightarrow> bool" where
  "utf8_valid [] = True"
| "utf8_valid (c # s) =
     (if ord c < 128 then \<not> (ord c < 32 \<or> ord c = 127) \<and> utf8_valid s
      else case utf8_lead c of None \<Rightarrow> False
      | Some (bits, count, minimum) \<Rightarrow>
          (case utf8_tail count bits s of None \<Rightarrow> False
           | Some (cp, r) \<Rightarrow> \<not> bad_code_point minimum cp \<and> utf8_valid r))"
  by pat_completeness auto
termination
  by (relation "measure length") (auto dest: utf8_tail_length)

definition mac_octet :: "string \<Rightarrow> nat \<Rightarrow> nat option" where
  "mac_octet mac i =
     (let p = i * (if length mac = 17 then 3 else 2) in
      case (mdns_hex (mac ! p), mdns_hex (mac ! (p + 1))) of
        (Some high, Some low) \<Rightarrow>
          if length mac = 17 \<and> i < 5 \<and> mac ! (p + 2) \<noteq> CHR '':'' then None else Some (high * 16 + low)
      | _ \<Rightarrow> None)"

definition mac_valid :: "string \<Rightarrow> bool" where
  "mac_valid mac \<longleftrightarrow> (length mac = 12 \<or> length mac = 17) \<and>
     (let octets = map (mac_octet mac) [0..<6] in
      list_all (\<lambda>b. b \<noteq> None) octets \<and> list_ex (\<lambda>b. b \<noteq> Some 0) octets \<and> list_ex (\<lambda>b. b \<noteq> Some 255) octets \<and>
      even (the (hd octets)))"

definition field_fits :: "nat \<Rightarrow> string \<Rightarrow> bool" where
  "field_fits n s \<longleftrightarrow> s \<noteq> [] \<and> length s < n \<and> utf8_valid s"

definition metadata_valid :: "le_mdns_esphome_metadata \<Rightarrow> bool" where
  "metadata_valid m \<longleftrightarrow>
     list_all2 (\<lambda>(_, n) s. field_fits n s) mdns_fields (field_values m) \<and>
     (md_platform m = ''LibreEcho'' \<or> md_platform m = ''Linux'') \<and> md_board m = ''radar-puffin'' \<and>
     (md_network m = ''wifi'' \<or> md_network m = ''ethernet'') \<and> md_api_encryption m = LE_MDNS_ESPHOME_NOISE \<and>
     mac_valid (md_mac m)"

definition sendspin_name_valid :: "string \<Rightarrow> bool" where
  "sendspin_name_valid name \<longleftrightarrow> field_fits 64 name"

section \<open>Writing\<close>

definition hex_of_text :: "string \<Rightarrow> string" where
  "hex_of_text s = concat (map (\<lambda>c. [hex_nibble (ord c div 16), hex_nibble (ord c mod 16)]) s)"

fun encode_fields :: "nat \<Rightarrow> string \<Rightarrow> ((string \<times> nat) \<times> string) list \<Rightarrow> string option" where
  "encode_fields capacity message [] = Some message"
| "encode_fields capacity message (((key, _), v) # fs) =
     (if capacity - length message \<le> length key + 2 + length v * 2 then None
      else encode_fields capacity (message @ '' '' @ key @ ''='' @ hex_of_text v) fs)"

definition le_mdns_esphome_encode :: "nat \<Rightarrow> nat \<Rightarrow> le_mdns_esphome_metadata \<Rightarrow> string option" where
  "le_mdns_esphome_encode capacity port m =
     (if capacity = 0 \<or> port = 0 \<or> 65535 < port \<or> \<not> metadata_valid m then None
      else
        (let head = ''ESPHOME/1 '' @ nat_digits port in
         if capacity \<le> length head then None
         else case encode_fields capacity head (zip mdns_fields (field_values m)) of None \<Rightarrow> None
         | Some message \<Rightarrow>
             if capacity < length message + 2 \<or> LE_MDNS_ESPHOME_PACKET_MAX < length message + 2 then None
             else Some (message @ [newline])))"

definition le_mdns_sendspin_encode :: "nat \<Rightarrow> nat \<Rightarrow> string \<Rightarrow> string option" where
  "le_mdns_sendspin_encode room port name =
     (if port = 0 \<or> 65535 < port \<or> \<not> sendspin_name_valid name then None
      else
        (let capacity = min room LE_MDNS_SENDSPIN_PACKET_MAX;
             head = ''SENDSPIN/1 '' @ nat_digits port @ '' name=''
         in if capacity \<le> length head \<or> capacity < length head + length name * 2 + 2 then None
            else Some (head @ hex_of_text name @ [newline])))"

section \<open>Reading\<close>

fun port_loop :: "nat \<Rightarrow> string \<Rightarrow> (nat \<times> string) option" where
  "port_loop n [] = Some (n, [])"
| "port_loop n (c # s) =
     (if isdigit c then (if 65535 < n * 10 + digit_value c then None else port_loop (n * 10 + digit_value c) s)
      else Some (n, c # s))"

fun hex_chars :: "string \<Rightarrow> string option" where
  "hex_chars (a # b # s) =
     (case (mdns_hex a, mdns_hex b) of
        (Some high, Some low) \<Rightarrow> map_option (\<lambda>t. char_of (high * 16 + low) # t) (hex_chars s)
      | _ \<Rightarrow> None)"
| "hex_chars [] = Some []"
| "hex_chars [a] = None"

definition hex_field :: "nat \<Rightarrow> string \<Rightarrow> string option" where
  "hex_field n v =
     (if v = [] \<or> odd (length v) \<or> n \<le> length v div 2 then None
      else case hex_chars v of None \<Rightarrow> None
      | Some t \<Rightarrow> if char_of (0 :: nat) \<in> set t then None else Some t)"

fun field_index :: "string \<Rightarrow> nat \<Rightarrow> (string \<times> nat) list \<Rightarrow> nat option" where
  "field_index key i [] = None"
| "field_index key i ((k, _) # fs) = (if k = key then Some i else field_index key (i + 1) fs)"

text \<open>One field after its blank: the fields with it set, and what follows.\<close>

definition read_field :: "string option list \<Rightarrow> string \<Rightarrow> (string option list \<times> string) option" where
  "read_field parsed s =
     (let key = takeWhile (\<lambda>c. c \<noteq> CHR ''='' \<and> c \<noteq> CHR '' '') s;
          r = dropWhile (\<lambda>c. c \<noteq> CHR ''='' \<and> c \<noteq> CHR '' '') s
      in if r = [] \<or> hd r \<noteq> CHR ''='' then None
         else case field_index key 0 mdns_fields of None \<Rightarrow> None
         | Some i \<Rightarrow>
             if parsed ! i \<noteq> None then None
             else map_option (\<lambda>t. (parsed[i := Some t], dropWhile (\<lambda>c. c \<noteq> CHR '' '') (tl r)))
               (hex_field (snd (mdns_fields ! i)) (takeWhile (\<lambda>c. c \<noteq> CHR '' '') (tl r))))"

lemma read_field_length: "read_field parsed s = Some (p, r) \<Longrightarrow> length r \<le> length s"
proof -
  assume "read_field parsed s = Some (p, r)"
  then have "r = dropWhile (\<lambda>c. c \<noteq> CHR '' '') (tl (dropWhile (\<lambda>c. c \<noteq> CHR ''='' \<and> c \<noteq> CHR '' '') s))"
    unfolding read_field_def Let_def by (auto split: if_splits option.splits)
  then have "length r \<le> length (tl (dropWhile (\<lambda>c. c \<noteq> CHR ''='' \<and> c \<noteq> CHR '' '') s))"
    by (simp only: length_dropWhile_le)
  also have "\<dots> \<le> length (dropWhile (\<lambda>c. c \<noteq> CHR ''='' \<and> c \<noteq> CHR '' '') s)" by simp
  finally show ?thesis using length_dropWhile_le le_trans by blast
qed

function read_fields :: "string option list \<Rightarrow> string \<Rightarrow> string option list option" where
  "read_fields parsed [] = Some parsed"
| "read_fields parsed (c # s) =
     (if c \<noteq> CHR '' '' then None
      else case read_field parsed s of None \<Rightarrow> None | Some (p, r) \<Rightarrow> read_fields p r)"
  by pat_completeness auto
termination
  by (relation "measure (length o snd)") (auto dest: read_field_length)

definition framed :: "string \<Rightarrow> nat \<Rightarrow> nat \<Rightarrow> string \<Rightarrow> (nat \<times> string) option" where
  "framed head least most s =
     (if length s < least \<or> most \<le> length s \<or> last s \<noteq> newline \<or> char_of (0 :: nat) \<in> set s then None
      else case strip_prefix head (butlast s) of None \<Rightarrow> None
      | Some r \<Rightarrow> if r = [] \<or> ord (hd r) < 49 \<or> 57 < ord (hd r) then None else port_loop 0 r)"

definition le_mdns_esphome_decode :: "string \<Rightarrow> (nat \<times> le_mdns_esphome_metadata) option" where
  "le_mdns_esphome_decode message =
     (case framed ''ESPHOME/1 '' 12 LE_MDNS_ESPHOME_PACKET_MAX message of None \<Rightarrow> None
      | Some (port, r) \<Rightarrow>
          (case read_fields (replicate (length mdns_fields) None) r of None \<Rightarrow> None
           | Some parsed \<Rightarrow>
               if None \<in> set parsed \<or> \<not> metadata_valid (metadata_of (map the parsed)) then None
               else Some (port, metadata_of (map the parsed))))"

definition le_mdns_sendspin_decode :: "string \<Rightarrow> (nat \<times> string) option" where
  "le_mdns_sendspin_decode message =
     (case framed ''SENDSPIN/1 '' 20 LE_MDNS_SENDSPIN_PACKET_MAX message of None \<Rightarrow> None
      | Some (port, r) \<Rightarrow>
          (case strip_prefix '' name='' r of None \<Rightarrow> None
           | Some v \<Rightarrow>
               (case hex_field 64 v of None \<Rightarrow> None
                | Some name \<Rightarrow> if sendspin_name_valid name then Some (port, name) else None)))"

end
