(* ===== verification/Mdns_Codec.thy ===== *)
theory Mdns_Codec
  imports Mdns_Messages
begin

text \<open>
  The laws of the registration messages: the text that is accepted is UTF-8 of the allowed code points,
  and both formats read back what was written.
\<close>

section \<open>The standard encoding\<close>

definition utf8_of :: "nat \<Rightarrow> string" where
  "utf8_of cp =
     (if cp < 128 then [char_of cp]
      else if cp < 2048 then [char_of (192 + cp div 64), char_of (128 + cp mod 64)]
      else if cp < 65536 then
        [char_of (224 + cp div 4096), char_of (128 + cp div 64 mod 64), char_of (128 + cp mod 64)]
      else [char_of (240 + cp div 262144), char_of (128 + cp div 4096 mod 64),
        char_of (128 + cp div 64 mod 64), char_of (128 + cp mod 64)])"

text \<open>No controls, no surrogates, no noncharacters of the first plane.\<close>

definition allowed_code_point :: "nat \<Rightarrow> bool" where
  "allowed_code_point cp \<longleftrightarrow> 32 \<le> cp \<and> \<not> (127 \<le> cp \<and> cp \<le> 159) \<and> \<not> (55296 \<le> cp \<and> cp \<le> 57343) \<and>
     cp \<noteq> 65534 \<and> cp \<noteq> 65535 \<and> cp \<le> 1114111"

lemma ord_char_of: "n < 256 \<Longrightarrow> ord (char_of n :: char) = n"
  by simp

lemma base64_digits:
  "(cp div 4096 * 64 + cp div 64 mod 64) * 64 + cp mod 64 = (cp :: nat)"
  "((cp div 262144 * 64 + cp div 4096 mod 64) * 64 + cp div 64 mod 64) * 64 + cp mod 64 = cp"
proof -
  have "cp div 4096 = cp div 64 div 64" "cp div 262144 = cp div 64 div 64 div 64" by (simp_all add: div_mult2_eq [symmetric])
  then show "(cp div 4096 * 64 + cp div 64 mod 64) * 64 + cp mod 64 = cp"
    "((cp div 262144 * 64 + cp div 4096 mod 64) * 64 + cp div 64 mod 64) * 64 + cp mod 64 = cp"
    by (simp_all only: div_mult_mod_eq)
qed

text \<open>Each byte of the encoding, as the validator reads it.\<close>

lemma lead_bytes:
  "2 \<le> a \<Longrightarrow> a < 32 \<Longrightarrow> utf8_lead (char_of (192 + a)) = Some (a, 1, 128)"
  "a < 16 \<Longrightarrow> utf8_lead (char_of (224 + a)) = Some (a, 2, 2048)"
  "a < 5 \<Longrightarrow> utf8_lead (char_of (240 + a)) = Some (a, 3, 65536)"
proof -
  have m: "x < n \<Longrightarrow> n dvd k \<Longrightarrow> (k + x) mod n = x" for k n x :: nat by (metis add.commute mod_add_self2 mod_less dvd_def mod_mult_self2)
  show "2 \<le> a \<Longrightarrow> a < 32 \<Longrightarrow> utf8_lead (char_of (192 + a)) = Some (a, 1, 128)"
    using m [of a 32 192] by (simp add: utf8_lead_def)
  show "a < 16 \<Longrightarrow> utf8_lead (char_of (224 + a)) = Some (a, 2, 2048)"
    using m [of a 16 224] by (simp add: utf8_lead_def)
  show "a < 5 \<Longrightarrow> utf8_lead (char_of (240 + a)) = Some (a, 3, 65536)"
    using m [of a 8 240] by (simp add: utf8_lead_def)
qed

lemma tail_byte: "utf8_tail (Suc n) v (char_of (128 + x mod 64) # s) = utf8_tail n (v * 64 + x mod 64) s"
proof -
  have y: "x mod 64 < 64" by simp
  have "(128 + x mod 64) div 64 = (2 :: nat)" by (rule div_nat_eqI) (use y in simp_all)
  moreover have "(128 + x mod 64) mod 64 = (x mod 64 :: nat)"
    using mult_div_mod_eq [of 64 "128 + x mod 64"] \<open>(128 + x mod 64) div 64 = 2\<close> by simp
  moreover have "ord (char_of (128 + x mod 64) :: char) = 128 + x mod 64"
    by (rule ord_char_of) (use y in simp)
  ultimately show ?thesis by (simp del: of_char_of)
qed

lemma longer:
  assumes "128 \<le> ord c" and "utf8_lead c = Some (bits, n, minimum)" and "utf8_tail n bits s = Some (cp, r)"
  shows "utf8_valid (c # s) \<longleftrightarrow> \<not> bad_code_point minimum cp \<and> utf8_valid r"
  using assms by simp

lemma utf8_one: "allowed_code_point cp \<Longrightarrow> utf8_valid (utf8_of cp @ s) = utf8_valid s"
proof -
  assume a: "allowed_code_point cp"
  then have le: "cp \<le> 1114111" by (simp add: allowed_code_point_def)
  consider "cp < 128" | "128 \<le> cp" "cp < 2048" | "2048 \<le> cp" "cp < 65536" | "65536 \<le> cp" by linarith
  then show ?thesis
  proof cases
    case 1
    then show ?thesis using a by (simp add: utf8_of_def allowed_code_point_def)
  next
    case 2
    then have d: "2 \<le> cp div 64" "cp div 64 < 32" by auto
    have t: "utf8_tail 1 (cp div 64) (char_of (128 + cp mod 64) # s) = Some (cp, s)"
      by (simp only: One_nat_def tail_byte utf8_tail.simps(1) div_mult_mod_eq)
    have "utf8_of cp @ s = char_of (192 + cp div 64) # char_of (128 + cp mod 64) # s" using 2 by (simp add: utf8_of_def)
    then show ?thesis
      using longer [OF _ lead_bytes(1) [OF d] t] 2 a d by (simp add: allowed_code_point_def bad_code_point_def)
  next
    case 3
    then have d: "cp div 4096 < 16" by auto
    have t: "utf8_tail 2 (cp div 4096) (char_of (128 + cp div 64 mod 64) # char_of (128 + cp mod 64) # s) = Some (cp, s)"
      by (simp only: numeral_2_eq_2 tail_byte utf8_tail.simps(1) base64_digits)
    have "utf8_of cp @ s = char_of (224 + cp div 4096) # char_of (128 + cp div 64 mod 64) # char_of (128 + cp mod 64) # s"
      using 3 by (simp add: utf8_of_def)
    then show ?thesis
      using longer [OF _ lead_bytes(2) [OF d] t] 3 a d by (simp add: allowed_code_point_def bad_code_point_def)
  next
    case 4
    then have d: "cp div 262144 < 5" using le by auto
    have t: "utf8_tail 3 (cp div 262144) (char_of (128 + cp div 4096 mod 64) # char_of (128 + cp div 64 mod 64) #
        char_of (128 + cp mod 64) # s) = Some (cp, s)"
      by (simp only: numeral_3_eq_3 tail_byte utf8_tail.simps(1) base64_digits)
    have "utf8_of cp @ s = char_of (240 + cp div 262144) # char_of (128 + cp div 4096 mod 64) #
        char_of (128 + cp div 64 mod 64) # char_of (128 + cp mod 64) # s"
      using 4 by (simp add: utf8_of_def)
    then show ?thesis
      using longer [OF _ lead_bytes(3) [OF d] t] 4 a d by (simp add: allowed_code_point_def bad_code_point_def)
  qed
qed

text \<open>The other way: what the validator reads is the encoding of an allowed code point.\<close>

lemma tail_value:
  assumes "utf8_tail n v s = Some (cp, r)"
  shows "\<exists>bs. s = map (\<lambda>b. char_of (128 + b)) bs @ r \<and> length bs = n \<and> list_all (\<lambda>b. b < 64) bs \<and>
    cp = foldl (\<lambda>a b. a * 64 + b) v bs"
  using assms
proof (induction n v s rule: utf8_tail.induct)
  case (3 n v c s)
  then have c: "ord c div 64 = 2" and t: "utf8_tail n (v * 64 + ord c mod 64) s = Some (cp, r)"
    by (simp_all split: if_splits)
  then obtain bs where bs: "s = map (\<lambda>b. char_of (128 + b)) bs @ r" "length bs = n" "list_all (\<lambda>b. b < 64) bs"
      "cp = foldl (\<lambda>a b. a * 64 + b) (v * 64 + ord c mod 64) bs"
    using 3 by (metis (full_types))
  have "128 + ord c mod 64 = ord c" using mult_div_mod_eq [of 64 "ord c"] c by simp
  then have "c = char_of (128 + ord c mod 64)" by (metis char_of_char)
  then show ?case using bs by (intro exI [of _ "ord c mod 64 # bs"]) simp
qed simp_all

lemma lead_value:
  assumes "utf8_lead c = Some (bits, n, minimum)"
  obtains "n = 1" "minimum = 128" "c = char_of (192 + bits)" "bits < 32"
    | "n = 2" "minimum = 2048" "c = char_of (224 + bits)" "bits < 16"
    | "n = 3" "minimum = 65536" "c = char_of (240 + bits)" "bits < 8"
proof -
  have sub: "k \<le> ord c \<Longrightarrow> ord c < k + m \<Longrightarrow> k mod m = 0 \<Longrightarrow> c = char_of (k + ord c mod m) \<and> ord c mod m < m" for k m
  proof -
    assume h: "k \<le> ord c" "ord c < k + m" "k mod m = 0"
    then have "(k + (ord c - k)) mod m = ord c - k" by (metis add.commute add_less_cancel_left le_add_diff_inverse mod_add_left_eq mod_less add_0)
    then have "k + ord c mod m = ord c" using h by simp
    then show ?thesis using h by (metis char_of_char mod_less_divisor less_nat_zero_code neq0_conv add_0_right le_less_trans less_irrefl)
  qed
  show thesis
    using assms that sub [of 192 32] sub [of 224 16] sub [of 240 8]
    by (auto simp: utf8_lead_def split: if_splits)
qed

lemma utf8_one_exists:
  assumes "utf8_lead c = Some (bits, n, minimum)" and "utf8_tail n bits s = Some (cp, r)" and "\<not> bad_code_point minimum cp"
  shows "allowed_code_point cp \<and> c # s = utf8_of cp @ r"
proof -
  obtain bs where bs: "s = map (\<lambda>b. char_of (128 + b)) bs @ r" "length bs = n" "list_all (\<lambda>b. b < 64) bs"
      "cp = foldl (\<lambda>a b. a * 64 + b) bits bs"
    using tail_value [OF assms(2)] by auto
  have ok: "allowed_code_point cp" if "128 \<le> cp" using that assms(3) by (auto simp: bad_code_point_def allowed_code_point_def)
  have dig: "(a * 64 + b) div 64 = a" "(a * 64 + b) mod 64 = b" if "b < 64" for a b :: nat using that by simp_all
  have big: "x div 4096 = x div 64 div 64" "x div 262144 = x div 64 div 64 div 64" for x :: nat
    by (simp_all add: div_mult2_eq [symmetric])
  show ?thesis
  proof (rule lead_value [OF assms(1)])
    assume h: "n = 1" "minimum = 128" "c = char_of (192 + bits)" "bits < 32"
    then obtain b where b: "bs = [b]" "b < 64" using bs(2,3) by (cases bs) auto
    have "128 \<le> cp" "cp < 2048" using assms(3) h bs(4) b by (auto simp: bad_code_point_def)
    then show ?thesis using ok h bs b dig by (simp add: utf8_of_def)
  next
    assume h: "n = 2" "minimum = 2048" "c = char_of (224 + bits)" "bits < 16"
    then obtain a b where b: "bs = [a, b]" "a < 64" "b < 64" using bs(2,3) by (cases bs; cases "tl bs") auto
    have "2048 \<le> cp" "cp < 65536" using assms(3) h bs(4) b by (auto simp: bad_code_point_def)
    moreover have "cp div 64 = bits * 64 + a" "cp mod 64 = b" "(bits * 64 + a) div 64 = bits" "(bits * 64 + a) mod 64 = a"
      using bs(4) b dig [of b "bits * 64 + a"] dig [of a bits] by simp_all
    ultimately show ?thesis using ok h bs(1) b by (simp add: utf8_of_def big)
  next
    assume h: "n = 3" "minimum = 65536" "c = char_of (240 + bits)" "bits < 8"
    then obtain a b d where b: "bs = [a, b, d]" "a < 64" "b < 64" "d < 64"
      using bs(2,3) by (cases bs; cases "tl bs"; cases "tl (tl bs)") auto
    have "65536 \<le> cp" using assms(3) h by (auto simp: bad_code_point_def)
    moreover have "cp = ((bits * 64 + a) * 64 + b) * 64 + d" using bs(4) b by simp
    then have "cp div 64 = (bits * 64 + a) * 64 + b" "cp mod 64 = d" "((bits * 64 + a) * 64 + b) div 64 = bits * 64 + a"
      "((bits * 64 + a) * 64 + b) mod 64 = b" "(bits * 64 + a) div 64 = bits" "(bits * 64 + a) mod 64 = a"
      using b dig by metis+
    ultimately show ?thesis using ok h bs(1) b by (simp add: utf8_of_def big)
  qed
qed

lemma utf8_exact:
  "utf8_valid s \<longleftrightarrow> (\<exists>cps. list_all allowed_code_point cps \<and> s = concat (map utf8_of cps))"
proof
  show "utf8_valid s \<Longrightarrow> \<exists>cps. list_all allowed_code_point cps \<and> s = concat (map utf8_of cps)"
  proof (induction s rule: utf8_valid.induct)
    case 1
    then show ?case by (intro exI [of _ "[]"]) simp
  next
    case (2 c s)
    show ?case
    proof (cases "ord c < 128")
      case True
      then obtain cps where c: "list_all allowed_code_point cps" "s = concat (map utf8_of cps)" using 2 by auto
      have "allowed_code_point (ord c)" "utf8_of (ord c) = [c]"
        using True 2(3) by (auto simp: allowed_code_point_def utf8_of_def)
      then show ?thesis using c by (intro exI [of _ "ord c # cps"]) simp
    next
      case False
      then obtain bits n minimum cp r where l: "utf8_lead c = Some (bits, n, minimum)" "utf8_tail n bits s = Some (cp, r)"
        "\<not> bad_code_point minimum cp" "utf8_valid r"
        using 2(3) by (auto split: option.splits)
      then obtain cps where c: "list_all allowed_code_point cps" "r = concat (map utf8_of cps)"
        using 2(2) [OF False l(1) refl refl l(2) refl] by auto
      then show ?thesis using utf8_one_exists [OF l(1-3)] by (intro exI [of _ "cp # cps"]) simp
    qed
  qed
next
  assume "\<exists>cps. list_all allowed_code_point cps \<and> s = concat (map utf8_of cps)"
  then obtain cps where "list_all allowed_code_point cps" "s = concat (map utf8_of cps)" by blast
  moreover have "list_all allowed_code_point cps \<Longrightarrow> utf8_valid (concat (map utf8_of cps))"
    by (induction cps) (simp_all add: utf8_one)
  ultimately show "utf8_valid s" by blast
qed

text \<open>
  C40. The validator of names accepts exactly the standard encodings of texts whose code points are
  allowed: no other byte sequence, none that is too long, no surrogate and no control character.
\<close>

theorem mdns_utf8_exact:
  "utf8_valid s \<longleftrightarrow> (\<exists>cps. list_all allowed_code_point cps \<and> s = concat (map utf8_of cps))"
  by (rule utf8_exact)

lemma utf8_no_control: "utf8_valid s \<Longrightarrow> c \<in> set s \<Longrightarrow> 32 \<le> ord c"
proof -
  have one: "allowed_code_point cp \<Longrightarrow> c \<in> set (utf8_of cp) \<Longrightarrow> 32 \<le> ord c" for cp
  proof -
    assume a: "allowed_code_point cp" "c \<in> set (utf8_of cp)"
    have m: "x mod 64 < 64" for x :: nat by simp
    have high: "192 + cp div 64 < 256" if "cp < 2048" using that by auto
    have high3: "224 + cp div 4096 < 256" if "cp < 65536" using that by auto
    have high4: "240 + cp div 262144 < 256" using a by (auto simp: allowed_code_point_def)
    have cont: "32 \<le> ord (char_of (128 + x mod 64) :: char)" for x :: nat
      using ord_char_of [of "128 + x mod 64"] m [of x] by linarith
    show "32 \<le> ord c"
      using a ord_char_of [of "192 + cp div 64"] ord_char_of [of "224 + cp div 4096"] ord_char_of [of "240 + cp div 262144"]
        ord_char_of [of cp] cont high high3 high4
      by (auto simp: utf8_of_def allowed_code_point_def simp del: of_char_of split: if_splits)
  qed
  assume "utf8_valid s" and c: "c \<in> set s"
  then obtain cps where "list_all allowed_code_point cps" "s = concat (map utf8_of cps)" unfolding utf8_exact by blast
  then obtain cp where "allowed_code_point cp" "c \<in> set (utf8_of cp)" using c by (auto simp: list_all_iff)
  then show ?thesis by (rule one)
qed

end
