(* ===== verification/Mdns_Wire.thy ===== *)
theory Mdns_Wire
  imports Mdns_Codec
begin

text \<open>
  Both registration formats read back what they write, and what they accept is valid.
\<close>

section \<open>Hex\<close>

lemma nibbles: "list_all (\<lambda>n. mdns_hex (hex_nibble n) = Some n \<and> 48 \<le> ord (hex_nibble n) \<and>
    hex_nibble n \<noteq> CHR ''='') [0..<16]"
  by code_simp

lemma nibble: "n < 16 \<Longrightarrow> mdns_hex (hex_nibble n) = Some n \<and> 48 \<le> ord (hex_nibble n) \<and> hex_nibble n \<noteq> CHR ''=''"
  using nibbles by (simp only: list_all_iff set_upt) simp

lemma nibbles_of: "ord c div 16 < 16" "ord c mod 16 < 16"
  using ord_lt_256 [of c] by linarith+

lemma hex_of_text_simps [simp]:
  "hex_of_text [] = []"
  "hex_of_text (c # s) = hex_nibble (ord c div 16) # hex_nibble (ord c mod 16) # hex_of_text s"
  by (simp_all add: hex_of_text_def)

lemma hex_length [simp]: "length (hex_of_text s) = 2 * length s"
  by (induction s) simp_all

lemma hex_chars_text [simp]: "hex_chars (hex_of_text s) = Some s"
proof (induction s)
  case (Cons c s)
  have "char_of (ord c div 16 * 16 + ord c mod 16) = c" by (simp only: div_mult_mod_eq char_of_char)
  then show ?case using Cons nibble [OF nibbles_of(1), of c] nibble [OF nibbles_of(2), of c] by simp
qed simp

lemma mdns_hex_chars: "c \<in> set (hex_of_text s) \<Longrightarrow> 48 \<le> ord c \<and> c \<noteq> CHR ''=''"
  by (induction s) (use nibble nibbles_of in auto)

lemma hex_field_text: "field_fits n v \<Longrightarrow> hex_field n (hex_of_text v) = Some v"
proof -
  assume f: "field_fits n v"
  then have "char_of (0 :: nat) \<notin> set v" using utf8_no_control by (fastforce simp: field_fits_def)
  moreover have "hex_of_text v \<noteq> []" using f by (cases v) (simp_all add: field_fits_def)
  ultimately show ?thesis using f by (simp add: hex_field_def field_fits_def)
qed

section \<open>The port\<close>

lemma dec_value_ge: "acc \<le> dec_value acc ds"
proof (induction ds arbitrary: acc)
  case (Cons c ds)
  have "acc \<le> acc * 10 + digit_value c" by simp
  also have "\<dots> \<le> dec_value (acc * 10 + digit_value c) ds" by (rule Cons.IH)
  finally show ?case by simp
qed simp

lemma port_digits:
  assumes "list_all isdigit ds" and "dec_value n ds \<le> 65535" and "r = [] \<or> \<not> isdigit (hd r)"
  shows "port_loop n (ds @ r) = Some (dec_value n ds, r)"
  using assms
proof (induction ds arbitrary: n)
  case Nil
  then show ?case by (cases r) simp_all
next
  case (Cons c ds)
  have "n * 10 + digit_value c \<le> 65535"
    using Cons.prems(2) dec_value_ge [of "n * 10 + digit_value c" ds] by simp
  then show ?case using Cons by simp
qed

lemma port_first_digit: "0 < n \<Longrightarrow> 49 \<le> ord (hd (nat_digits n)) \<and> ord (hd (nat_digits n)) \<le> 57"
proof (induction n rule: nat_digits.induct)
  case (1 n)
  then show ?case by (subst (1 2) nat_digits.simps) (auto simp: hd_append)
qed

lemma framed_text:
  assumes "0 < port" and "port \<le> 65535" and "r = [] \<or> \<not> isdigit (hd r)"
    and "char_of (0 :: nat) \<notin> set (head @ r)"
    and "least \<le> length (head @ nat_digits port @ r) + 1" and "length (head @ nat_digits port @ r) + 1 < most"
  shows "framed head least most (head @ nat_digits port @ r @ [newline]) = Some (port, r)"
proof -
  have digits: "list_all isdigit (nat_digits port)" using nat_digits_digits by (simp add: list_all_iff)
  then have "char_of (0 :: nat) \<notin> set (nat_digits port)" by (auto simp: list_all_iff isdigit_def)
  moreover have "char_of (0 :: nat) \<noteq> newline" by (simp add: newline_def char_eq_ord)
  ultimately have nul: "char_of (0 :: nat) \<notin> set (head @ nat_digits port @ r @ [newline])" using assms(4) by simp
  have "butlast (head @ nat_digits port @ r @ [newline]) = head @ nat_digits port @ r" by (simp add: butlast_append)
  moreover have "hd (nat_digits port @ r) = hd (nat_digits port)" by (simp add: hd_append)
  moreover have "port_loop 0 (nat_digits port @ r) = Some (port, r)"
    using port_digits [OF digits, of 0 r] assms(2,3) by simp
  ultimately show ?thesis
    unfolding framed_def using port_first_digit [OF assms(1)] nul assms(5,6) by simp
qed

lemma port_length: "port \<le> 65535 \<Longrightarrow> length (nat_digits port) \<le> 5"
  using nat_digits_length [of port 4] by simp

section \<open>The fields\<close>

lemma field_index_nth:
  "distinct (map fst fs) \<Longrightarrow> k < length fs \<Longrightarrow> field_index (fst (fs ! k)) i fs = Some (i + k)"
proof (induction fs arbitrary: i k)
  case (Cons f fs)
  show ?case
  proof (cases k)
    case (Suc j)
    have "fst (fs ! j) \<in> set (map fst fs)" using Cons.prems(2) Suc by (simp only: set_map) simp
    moreover have "fst f \<notin> set (map fst fs)" using Cons.prems(1) by simp
    ultimately have "fst f \<noteq> fst (fs ! j)" by metis
    then show ?thesis using Cons Suc by (cases f) simp
  qed (cases f, simp)
qed simp

definition field_text :: "(string \<times> nat) \<times> string \<Rightarrow> string" where
  "field_text f = '' '' @ fst (fst f) @ ''='' @ hex_of_text (snd f)"

lemma mdns_keys:
  "distinct (map fst mdns_fields)" "list_all (\<lambda>(k, n). CHR ''='' \<notin> set k \<and> CHR '' '' \<notin> set k) mdns_fields"
  "length mdns_fields = 9" "list_all (\<lambda>(k, n). length k \<le> 15 \<and> n \<le> 64) mdns_fields"
  "list_all (\<lambda>(k, n). list_all (\<lambda>c. 32 < ord c) k) mdns_fields"
  by code_simp+

lemma read_field_text:
  assumes k: "k < 9" and free: "parsed ! k = None" and f: "field_fits (snd (mdns_fields ! k)) v"
    and rest: "rest = [] \<or> hd rest = CHR '' ''"
  shows "read_field parsed (fst (mdns_fields ! k) @ CHR ''='' # hex_of_text v @ rest) = Some (parsed[k := Some v], rest)"
proof -
  define key where "key = fst (mdns_fields ! k)"
  have key: "\<forall>c\<in>set key. c \<noteq> CHR ''='' \<and> c \<noteq> CHR '' ''"
    using mdns_keys(2,3) k by (auto simp: list_all_length key_def split: prod.splits) (metis fst_conv surj_pair)+
  have hex: "\<forall>c\<in>set (hex_of_text v). c \<noteq> CHR '' ''" using mdns_hex_chars by fastforce
  have a: "takeWhile (\<lambda>c. c \<noteq> CHR ''='' \<and> c \<noteq> CHR '' '') (key @ CHR ''='' # hex_of_text v @ rest) = key \<and>
      dropWhile (\<lambda>c. c \<noteq> CHR ''='' \<and> c \<noteq> CHR '' '') (key @ CHR ''='' # hex_of_text v @ rest) = CHR ''='' # hex_of_text v @ rest"
    using key by (intro takeWhile_all_append) auto
  have b: "takeWhile (\<lambda>c. c \<noteq> CHR '' '') (hex_of_text v @ rest) = hex_of_text v \<and>
      dropWhile (\<lambda>c. c \<noteq> CHR '' '') (hex_of_text v @ rest) = rest"
    using hex rest by (intro takeWhile_all_append) auto
  have "field_index key 0 mdns_fields = Some k" unfolding key_def using field_index_nth [OF mdns_keys(1), of k 0] k mdns_keys(3) by simp
  then show ?thesis
    unfolding read_field_def Let_def key_def [symmetric] using a b free hex_field_text [OF f] by simp
qed

lemma read_fields_text:
  assumes "length vs = 9" and "list_all2 (\<lambda>(_, n) s. field_fits n s) mdns_fields vs" and "k \<le> 9"
  shows "read_fields (map Some (take k vs) @ replicate (9 - k) None)
      (concat (map field_text (drop k (zip mdns_fields vs)))) = Some (map Some vs)"
  using assms(3)
proof (induction "9 - k" arbitrary: k)
  case 0
  then show ?case using assms(1) mdns_keys(3) by simp
next
  case (Suc n)
  then have k: "k < 9" by simp
  have len: "length (zip mdns_fields vs) = 9" using assms(1) mdns_keys(3) by simp
  define rest where "rest = concat (map field_text (drop (Suc k) (zip mdns_fields vs)))"
  have d: "drop k (zip mdns_fields vs) = (mdns_fields ! k, vs ! k) # drop (Suc k) (zip mdns_fields vs)"
    using k len assms(1) mdns_keys(3) by (simp add: Cons_nth_drop_Suc [symmetric])
  have f: "field_fits (snd (mdns_fields ! k)) (vs ! k)"
    using assms(2) k mdns_keys(3) by (auto simp: list_all2_conv_all_nth split: prod.splits) (metis snd_conv surj_pair)
  define parsed where "parsed = map Some (take k vs) @ replicate (9 - k) None"
  have free: "parsed ! k = None" using k assms(1) by (simp add: parsed_def nth_append)
  have "parsed[k := Some (vs ! k)] = map Some (take (Suc k) vs) @ replicate (9 - Suc k) None"
  proof -
    have "replicate (9 - k) (None :: string option) = None # replicate (9 - Suc k) None"
      using k by (simp add: Suc_diff_Suc [symmetric])
    then show ?thesis using k assms(1) by (simp add: parsed_def list_update_append take_Suc_conv_app_nth)
  qed
  moreover have "rest = [] \<or> hd rest = CHR '' ''"
    by (cases "drop (Suc k) (zip mdns_fields vs)") (simp_all add: rest_def field_text_def)
  ultimately have "read_field parsed (fst (mdns_fields ! k) @ CHR ''='' # hex_of_text (vs ! k) @ rest) =
      Some (map Some (take (Suc k) vs) @ replicate (9 - Suc k) None, rest)"
    using read_field_text [OF k free f] by simp
  moreover have "read_fields (map Some (take (Suc k) vs) @ replicate (9 - Suc k) None) rest = Some (map Some vs)"
    unfolding rest_def using Suc(1) [of "Suc k"] Suc(2,3) by linarith
  ultimately show ?case unfolding d parsed_def [symmetric]
    by (simp add: field_text_def rest_def [symmetric])
qed

lemma encode_fields_text:
  "length (message @ concat (map field_text fs)) < capacity \<Longrightarrow>
     encode_fields capacity message fs = Some (message @ concat (map field_text fs))"
proof (induction capacity message fs rule: encode_fields.induct)
  case (2 capacity message key n v fs)
  then have "length (message @ field_text ((key, n), v)) < capacity" by simp
  then have "\<not> capacity - length message \<le> length key + 2 + length v * 2" by (simp add: field_text_def)
  then show ?case using 2 by (simp add: field_text_def)
qed simp

section \<open>Round trips\<close>

lemma metadata_of_values [simp]: "metadata_of (field_values m) = m"
  by (simp add: metadata_of_def field_values_def eval_nat_numeral)

lemma values_length [simp]: "length (field_values m) = 9"
  by (simp add: field_values_def)

lemma valid_fields: "metadata_valid m \<Longrightarrow> list_all2 (\<lambda>(_, n) s. field_fits n s) mdns_fields (field_values m)"
  by (simp add: metadata_valid_def)

lemma fields_length:
  assumes "metadata_valid m"
  shows "length (concat (map field_text (zip mdns_fields (field_values m)))) \<le> 1287"
proof -
  have "length (field_text f) \<le> 143" if f: "f \<in> set (zip mdns_fields (field_values m))" for f
  proof -
    obtain k n v where kv: "f = ((k, n), v)" by (metis surj_pair)
    have "field_fits n v" using valid_fields [OF assms] f kv by (auto simp: list_all2_iff)
    moreover have "(k, n) \<in> set mdns_fields" using f kv by (auto dest: set_zip_leftD)
    then have "length k \<le> 15" "n \<le> 64" using mdns_keys(4) by (auto simp: list_all_iff)
    ultimately show ?thesis by (simp add: kv field_text_def field_fits_def)
  qed
  then have "sum_list (map (length o field_text) (zip mdns_fields (field_values m))) \<le>
      sum_list (map (\<lambda>_. 143) (zip mdns_fields (field_values m)))" by (intro sum_list_mono) simp
  then show ?thesis by (simp add: length_concat comp_def sum_list_triv mdns_keys(3))
qed

lemma field_chars:
  assumes "c \<in> set (concat (map field_text (zip mdns_fields vs)))" shows "c \<noteq> char_of (0 :: nat)"
proof -
  obtain k n v where f: "((k, n), v) \<in> set (zip mdns_fields vs)" "c \<in> set (field_text ((k, n), v))"
    using assms by auto
  have "(k, n) \<in> set mdns_fields" using f by (auto dest: set_zip_leftD)
  then have "\<forall>c\<in>set k. 32 < ord c" using mdns_keys(5) by (auto simp: list_all_iff)
  then have "0 < ord c" using f(2) mdns_hex_chars [of c v] by (auto simp: field_text_def)
  then show ?thesis by (auto simp: char_eq_ord)
qed

lemma esphome_encoded:
  assumes "0 < port" and "port \<le> 65535" and "metadata_valid m"
  shows "le_mdns_esphome_encode LE_MDNS_ESPHOME_PACKET_MAX port m =
      Some (''ESPHOME/1 '' @ nat_digits port @ concat (map field_text (zip mdns_fields (field_values m))) @ [newline])"
  using assms fields_length [OF assms(3)] port_length [OF assms(2)]
    encode_fields_text [of "''ESPHOME/1 '' @ nat_digits port" "zip mdns_fields (field_values m)" LE_MDNS_ESPHOME_PACKET_MAX]
  unfolding le_mdns_esphome_encode_def LE_MDNS_ESPHOME_PACKET_MAX_def by (simp add: Let_def)

lemma first_field: "vs \<noteq> [] \<Longrightarrow> concat (map field_text (zip mdns_fields vs)) \<noteq> [] \<and>
    hd (concat (map field_text (zip mdns_fields vs))) = CHR '' ''"
  by (cases vs) (simp_all add: mdns_fields_def field_text_def)

lemma esphome_decoded:
  assumes "0 < port" and "port \<le> 65535" and "metadata_valid m"
  shows "le_mdns_esphome_decode (''ESPHOME/1 '' @ nat_digits port @
      concat (map field_text (zip mdns_fields (field_values m))) @ [newline]) = Some (port, m)"
proof -
  define r where "r = concat (map field_text (zip mdns_fields (field_values m)))"
  have first: "r \<noteq> []" "hd r = CHR '' ''" unfolding r_def using first_field [of "field_values m"] by (auto simp: field_values_def)
  have "framed ''ESPHOME/1 '' 12 LE_MDNS_ESPHOME_PACKET_MAX (''ESPHOME/1 '' @ nat_digits port @ r @ [newline]) = Some (port, r)"
  proof (rule framed_text [OF assms(1,2)])
    show "r = [] \<or> \<not> isdigit (hd r)" using first by (simp add: isdigit_def)
    have "list_all (\<lambda>c. c \<noteq> char_of (0 :: nat)) ''ESPHOME/1 ''" by code_simp
    then show "char_of (0 :: nat) \<notin> set (''ESPHOME/1 '' @ r)"
      using field_chars unfolding r_def list_all_iff by (metis Un_iff set_append)
    show "12 \<le> length (''ESPHOME/1 '' @ nat_digits port @ r) + 1"
      using first nat_digits_nonempty [of port] by (cases "nat_digits port"; cases r) auto
    show "length (''ESPHOME/1 '' @ nat_digits port @ r) + 1 < LE_MDNS_ESPHOME_PACKET_MAX"
      using fields_length [OF assms(3)] port_length [OF assms(2)] by (simp add: r_def LE_MDNS_ESPHOME_PACKET_MAX_def)
  qed
  moreover have "read_fields (replicate (length mdns_fields) None) r = Some (map Some (field_values m))"
    using read_fields_text [OF values_length valid_fields [OF assms(3)], of 0] by (simp add: r_def mdns_keys(3))
  ultimately show ?thesis
    using assms(3) unfolding le_mdns_esphome_decode_def r_def [symmetric] by (auto simp: comp_def)
qed

lemma esphome_round_trip:
  "0 < port \<Longrightarrow> port \<le> 65535 \<Longrightarrow> metadata_valid m \<Longrightarrow>
     \<exists>s. le_mdns_esphome_encode LE_MDNS_ESPHOME_PACKET_MAX port m = Some s \<and> le_mdns_esphome_decode s = Some (port, m)"
  using esphome_encoded esphome_decoded by blast

interpretation mdns_esphome: codec
  "\<lambda>(port, m). 0 < port \<and> port \<le> 65535 \<and> metadata_valid m"
  "\<lambda>(port, m). the (le_mdns_esphome_encode LE_MDNS_ESPHOME_PACKET_MAX port m)"
  le_mdns_esphome_decode
  by unfold_locales (auto dest: esphome_round_trip)

lemma sendspin_encoded:
  assumes "0 < port" and "port \<le> 65535" and "sendspin_name_valid name"
  shows "le_mdns_sendspin_encode LE_MDNS_SENDSPIN_PACKET_MAX port name =
    Some (''SENDSPIN/1 '' @ nat_digits port @ '' name='' @ hex_of_text name @ [newline])"
  using assms port_length [OF assms(2)]
  by (simp add: le_mdns_sendspin_encode_def Let_def LE_MDNS_SENDSPIN_PACKET_MAX_def sendspin_name_valid_def field_fits_def)

lemma sendspin_decoded:
  assumes "0 < port" and "port \<le> 65535" and "sendspin_name_valid name"
  shows "le_mdns_sendspin_decode (''SENDSPIN/1 '' @ nat_digits port @ '' name='' @ hex_of_text name @ [newline]) =
    Some (port, name)"
proof -
  have fits: "field_fits 64 name" using assms(3) by (simp add: sendspin_name_valid_def)
  define r where "r = '' name='' @ hex_of_text name"
  have n: "name \<noteq> []" "length name < 64" using fits by (simp_all add: field_fits_def)
  have "framed ''SENDSPIN/1 '' 20 LE_MDNS_SENDSPIN_PACKET_MAX (''SENDSPIN/1 '' @ nat_digits port @ r @ [newline]) = Some (port, r)"
  proof (rule framed_text [OF assms(1,2)])
    show "r = [] \<or> \<not> isdigit (hd r)" by (simp add: r_def isdigit_def)
    have "list_all (\<lambda>c. c \<noteq> char_of (0 :: nat)) (''SENDSPIN/1 '' @ '' name='')" by code_simp
    moreover have "char_of (0 :: nat) \<notin> set (hex_of_text name)" using mdns_hex_chars by fastforce
    ultimately show "char_of (0 :: nat) \<notin> set (''SENDSPIN/1 '' @ r)"
      unfolding r_def list_all_iff by (metis Un_iff set_append)
    show "20 \<le> length (''SENDSPIN/1 '' @ nat_digits port @ r) + 1"
      using n(1) nat_digits_nonempty [of port] by (cases "nat_digits port"; cases name) (auto simp: r_def)
    show "length (''SENDSPIN/1 '' @ nat_digits port @ r) + 1 < LE_MDNS_SENDSPIN_PACKET_MAX"
      using n(2) port_length [OF assms(2)] by (simp add: r_def LE_MDNS_SENDSPIN_PACKET_MAX_def)
  qed
  then show ?thesis
    using assms(3) hex_field_text [OF fits] by (simp add: le_mdns_sendspin_decode_def r_def)
qed

lemma sendspin_round_trip:
  "0 < port \<Longrightarrow> port \<le> 65535 \<Longrightarrow> sendspin_name_valid name \<Longrightarrow>
     \<exists>s. le_mdns_sendspin_encode LE_MDNS_SENDSPIN_PACKET_MAX port name = Some s \<and> le_mdns_sendspin_decode s = Some (port, name)"
  using sendspin_encoded sendspin_decoded by blast

interpretation mdns_sendspin: codec
  "\<lambda>(port, name). 0 < port \<and> port \<le> 65535 \<and> sendspin_name_valid name"
  "\<lambda>(port, name). the (le_mdns_sendspin_encode LE_MDNS_SENDSPIN_PACKET_MAX port name)"
  le_mdns_sendspin_decode
  by unfold_locales (auto dest: sendspin_round_trip)

text \<open>
  C40. Every registration that is in order can be written into a packet of the size the client has and
  is read back by the daemon as the port and the metadata; nothing is cut off, and different
  registrations are different packets.
\<close>

theorem mdns_registration_round_trip:
  assumes "0 < port" and "port \<le> 65535" and "metadata_valid m"
  shows "\<exists>s. le_mdns_esphome_encode LE_MDNS_ESPHOME_PACKET_MAX port m = Some s \<and>
      le_mdns_esphome_decode s = Some (port, m) \<and>
      (\<forall>port2 m2. 0 < port2 \<and> port2 \<le> 65535 \<and> metadata_valid m2 \<and>
        le_mdns_esphome_encode LE_MDNS_ESPHOME_PACKET_MAX port2 m2 = Some s \<longrightarrow> port2 = port \<and> m2 = m)"
proof -
  obtain s where s: "le_mdns_esphome_encode LE_MDNS_ESPHOME_PACKET_MAX port m = Some s" "le_mdns_esphome_decode s = Some (port, m)"
    using esphome_round_trip [OF assms] by blast
  have "port2 = port \<and> m2 = m" if "0 < port2" "port2 \<le> 65535" "metadata_valid m2"
    "le_mdns_esphome_encode LE_MDNS_ESPHOME_PACKET_MAX port2 m2 = Some s" for port2 m2
    using mdns_esphome.encode_inj [of "(port, m)" "(port2, m2)"] that s assms by simp
  then show ?thesis using s by blast
qed

lemma framed_port: "framed head least most s = Some (port, r) \<Longrightarrow> 0 < port \<and> port \<le> 65535"
proof -
  have small: "port_loop n s = Some (p, r) \<Longrightarrow> n \<le> 65535 \<Longrightarrow> n \<le> p \<and> p \<le> 65535" for n s p r
  proof (induction n s rule: port_loop.induct)
    case (2 n c s)
    show ?case
    proof (cases "isdigit c")
      case True
      then have "n * 10 + digit_value c \<le> p \<and> p \<le> 65535" using 2 by (auto split: if_splits)
      then show ?thesis by simp
    qed (use 2 in simp)
  qed simp
  assume f: "framed head least most s = Some (port, r)"
  then obtain t where t: "port_loop 0 t = Some (port, r)" "t \<noteq> []" "49 \<le> ord (hd t)" "ord (hd t) \<le> 57"
    by (auto simp: framed_def split: if_splits option.splits)
  then obtain c t2 where c: "t = c # t2" by (cases t) auto
  then have "port_loop (digit_value c) t2 = Some (port, r)" "digit_value c \<le> 9" "0 < digit_value c"
    using t by (auto simp: isdigit_def digit_value_def split: if_splits)
  then show ?thesis using small [of "digit_value c" t2 port r] by simp
qed

text \<open>
  C40. What the daemon accepts as a registration is in order, whoever sent it: the port is one, each of
  the nine fields is there and fits its buffer as valid text, and the address is not a group address.
\<close>

theorem mdns_accepted_in_order:
  assumes "le_mdns_esphome_decode s = Some (port, m)"
  shows "0 < port \<and> port \<le> 65535 \<and> metadata_valid m \<and> length s < LE_MDNS_ESPHOME_PACKET_MAX"
proof -
  obtain r where "framed ''ESPHOME/1 '' 12 LE_MDNS_ESPHOME_PACKET_MAX s = Some (port, r)" "metadata_valid m"
    using assms by (auto simp: le_mdns_esphome_decode_def split: option.splits if_splits)
  moreover from this have "length s < LE_MDNS_ESPHOME_PACKET_MAX" by (auto simp: framed_def split: if_splits)
  ultimately show ?thesis using framed_port by blast
qed

section \<open>At concrete inputs\<close>

definition kitchen :: le_mdns_esphome_metadata where
  "kitchen = \<lparr>md_version = ''2024.6'', md_mac = ''02:00:5e:10:00:01'', md_platform = ''LibreEcho'', md_board = ''radar-puffin'',
     md_network = ''wifi'', md_friendly_name = ''Kitchen <1>'', md_api_encryption = LE_MDNS_ESPHOME_NOISE,
     md_project_name = ''libreecho.ui'', md_project_version = ''1.0''\<rparr>"

lemma kitchen_valid: "metadata_valid kitchen"
  by code_simp

theorem mdns_registration_round_trip_witness:
  "\<exists>s. le_mdns_esphome_encode LE_MDNS_ESPHOME_PACKET_MAX 6053 kitchen = Some s \<and> le_mdns_esphome_decode s = Some (6053, kitchen)"
  using mdns_registration_round_trip [of 6053, OF _ _ kitchen_valid] by auto

theorem mdns_accepted_in_order_witness:
  "\<exists>s. le_mdns_esphome_decode s = Some (6053, kitchen) \<and> length s < LE_MDNS_ESPHOME_PACKET_MAX"
proof -
  obtain s where "le_mdns_esphome_decode s = Some (6053, kitchen)" using esphome_round_trip [of 6053, OF _ _ kitchen_valid] by auto
  then show ?thesis using mdns_accepted_in_order [of s] by blast
qed

end
