(* ===== verification/Mdns_Lease.thy ===== *)
theory Mdns_Lease
  imports Mdns_Wire
begin

text \<open>
  Publishing a registration (the second half of src/adapter/mdns_lease.c): the XML document of a
  service, its way into the directory that the discovery server reads, and its withdrawal.

  The directory is a map from names to contents; what each call on it does is an argument.  The lease
  has no owner when \<open>ml_owner\<close> is negative.
\<close>

section \<open>The document\<close>

definition append_text_to :: "nat \<Rightarrow> string \<Rightarrow> string \<Rightarrow> string option" where
  "append_text_to capacity out s = (if capacity - length out \<le> length s then None else Some (out @ s))"

definition xml_escape :: "char \<Rightarrow> string" where
  "xml_escape c =
     (if c = CHR ''&'' then ''&amp;'' else if c = CHR ''<'' then ''&lt;'' else if c = CHR ''>'' then ''&gt;''
      else if ord c = 34 then ''&quot;'' else if ord c = 39 then ''&apos;'' else [c])"

fun append_xml :: "nat \<Rightarrow> string \<Rightarrow> string \<Rightarrow> string option" where
  "append_xml capacity out [] = Some out"
| "append_xml capacity out (c # s) =
     (case append_text_to capacity out (xml_escape c) of None \<Rightarrow> None | Some out' \<Rightarrow> append_xml capacity out' s)"

text \<open>The sequence of additions a registration makes to its document.\<close>

datatype xml_piece = ADD string | XML string

fun write_pieces :: "nat \<Rightarrow> string \<Rightarrow> xml_piece list \<Rightarrow> string option" where
  "write_pieces capacity out [] = Some out"
| "write_pieces capacity out (ADD s # ps) =
     (case append_text_to capacity out s of None \<Rightarrow> None | Some out' \<Rightarrow> write_pieces capacity out' ps)"
| "write_pieces capacity out (XML s # ps) =
     (case append_xml capacity out s of None \<Rightarrow> None | Some out' \<Rightarrow> write_pieces capacity out' ps)"

definition document_head :: string where
  "document_head = ''<?xml version=\"1.0\"?><!DOCTYPE service-group SYSTEM \"avahi-service.dtd\">'' @ [newline] @
     ''<service-group><name replace-wildcards=\"no\">''"

definition document_end :: string where
  "document_end = ''</service></service-group>'' @ [newline]"

definition field_pieces :: "(string \<times> nat) \<times> string \<Rightarrow> xml_piece list" where
  "field_pieces f = [ADD ''<txt-record>'', ADD (fst (fst f)), ADD ''='', XML (snd f), ADD ''</txt-record>'']"

definition esphome_pieces :: "nat \<Rightarrow> le_mdns_esphome_metadata \<Rightarrow> xml_piece list" where
  "esphome_pieces port m =
     [ADD document_head, XML (md_friendly_name m), ADD ''</name><service><type>_esphomelib._tcp</type><port>'',
      ADD (nat_digits port), ADD ''</port>''] @
     concat (map field_pieces (zip mdns_fields (field_values m))) @ [ADD document_end]"

definition sendspin_pieces :: "nat \<Rightarrow> string \<Rightarrow> xml_piece list" where
  "sendspin_pieces port name =
     [ADD document_head, XML name, ADD ''</name><service><type>_sendspin._tcp</type><port>'',
      ADD (nat_digits port), ADD ''</port>'', ADD ''<txt-record>path=/sendspin</txt-record><txt-record>name='',
      XML name, ADD (''</txt-record>'' @ document_end)]"

section \<open>The lease\<close>

record le_mdns_lease =
  ml_owner :: int
  ml_generation :: nat
  ml_filename :: string

definition le_mdns_lease_init :: le_mdns_lease where
  "le_mdns_lease_init = \<lparr>ml_owner = - 1, ml_generation = 0, ml_filename = []\<rparr>"

definition ULONG_MAX :: nat where "ULONG_MAX = 2 ^ 64 - 1"

type_synonym directory = "string \<rightharpoonup> string"

text \<open>What the calls do: how much can be written, and which of the others work.\<close>

record directory_calls =
  dc_open :: bool
  dc_written :: nat
  dc_sync :: bool
  dc_close :: bool
  dc_link :: bool
  dc_unlink_old :: bool
  dc_unlink_new :: bool
  dc_unlink_temp :: bool

text \<open>A file that is not there counts as removed.\<close>

definition unlinkat :: "bool \<Rightarrow> string \<Rightarrow> directory \<Rightarrow> bool \<times> directory" where
  "unlinkat works name d = (if name \<notin> dom d then (True, d) else if works then (True, d(name := None)) else (False, d))"

definition le_mdns_lease_withdraw ::
  "bool \<Rightarrow> int \<Rightarrow> le_mdns_lease \<Rightarrow> directory \<Rightarrow> bool \<times> le_mdns_lease \<times> directory" where
  "le_mdns_lease_withdraw works owner lease d =
     (if owner < 0 \<or> ml_owner lease \<noteq> owner then (False, lease, d)
      else
        (let (gone, d') = (if ml_filename lease = [] then (True, d) else unlinkat works (ml_filename lease) d) in
         if gone then (True, lease\<lparr>ml_filename := [], ml_owner := - 1\<rparr>, d') else (False, lease, d')))"

definition service_name :: "string \<Rightarrow> nat \<Rightarrow> string" where
  "service_name prefix n = prefix @ ''-'' @ nat_digits n @ ''.service''"

definition temp_name :: "string \<Rightarrow> nat \<Rightarrow> string" where
  "temp_name prefix n = prefix @ ''-'' @ nat_digits n @ ''.tmp''"

definition drop_temp :: "directory_calls \<Rightarrow> string \<Rightarrow> directory \<Rightarrow> directory" where
  "drop_temp c temp d = snd (unlinkat (dc_unlink_temp c) temp d)"

definition publish ::
  "directory_calls \<Rightarrow> string \<Rightarrow> int \<Rightarrow> string \<Rightarrow> le_mdns_lease \<Rightarrow> directory \<Rightarrow> bool \<times> le_mdns_lease \<times> directory" where
  "publish c prefix owner xml old d =
     (let lease = old\<lparr>ml_generation := ml_generation old + 1\<rparr>;
          name = service_name prefix (ml_generation lease);
          temp = temp_name prefix (ml_generation lease)
      in if \<not> dc_open c \<or> temp \<in> dom d then (False, lease, d)
         else
           (let d1 = d(temp \<mapsto> take (dc_written c) xml) in
            if dc_written c < length xml \<or> \<not> dc_sync c \<or> \<not> dc_close c \<or> \<not> dc_link c \<or> name \<in> dom d1
            then (False, lease, drop_temp c temp d1)
            else
              (let d2 = d1(name \<mapsto> xml);
                   (gone, d3) = (if ml_filename lease = [] then (True, d2) else unlinkat (dc_unlink_old c) (ml_filename lease) d2)
               in if gone then (True, lease\<lparr>ml_filename := name, ml_owner := owner\<rparr>, drop_temp c temp d3)
                  else (False, lease, drop_temp c temp (snd (unlinkat (dc_unlink_new c) name d3))))))"

definition lease_taken :: "int \<Rightarrow> le_mdns_lease \<Rightarrow> bool" where
  "lease_taken owner lease \<longleftrightarrow> 0 \<le> ml_owner lease \<and> ml_owner lease \<noteq> owner"

definition le_mdns_lease_register_esphome ::
  "directory_calls \<Rightarrow> int \<Rightarrow> nat \<Rightarrow> le_mdns_esphome_metadata \<Rightarrow> le_mdns_lease \<Rightarrow> directory \<Rightarrow> bool \<times> le_mdns_lease \<times> directory" where
  "le_mdns_lease_register_esphome c owner port m lease d =
     (if owner < 0 \<or> port < 1 \<or> 65535 < port \<or> \<not> metadata_valid m \<or> lease_taken owner lease \<or>
         ml_generation lease = ULONG_MAX then (False, lease, d)
      else case write_pieces 4096 [] (esphome_pieces port m) of None \<Rightarrow> (False, lease, d)
      | Some xml \<Rightarrow> publish c ''esphome'' owner xml lease d)"

definition le_mdns_lease_register_sendspin ::
  "directory_calls \<Rightarrow> int \<Rightarrow> nat \<Rightarrow> string \<Rightarrow> le_mdns_lease \<Rightarrow> directory \<Rightarrow> bool \<times> le_mdns_lease \<times> directory" where
  "le_mdns_lease_register_sendspin c owner port name lease d =
     (if owner < 0 \<or> port < 1 \<or> 65535 < port \<or> \<not> sendspin_name_valid name \<or> lease_taken owner lease \<or>
         ml_generation lease = ULONG_MAX then (False, lease, d)
      else case write_pieces 1024 [] (sendspin_pieces port name) of None \<Rightarrow> (False, lease, d)
      | Some xml \<Rightarrow> publish c ''sendspin'' owner xml lease d)"

section \<open>The document says what was registered\<close>

fun piece_text :: "xml_piece \<Rightarrow> string" where
  "piece_text (ADD s) = s"
| "piece_text (XML s) = concat (map xml_escape s)"

text \<open>Nothing is cut off: the additions give the whole text, or fail when it does not fit.\<close>

lemma append_xml_exact:
  "length out < capacity \<Longrightarrow> append_xml capacity out s =
     (if length (out @ concat (map xml_escape s)) < capacity then Some (out @ concat (map xml_escape s)) else None)"
  by (induction capacity out s rule: append_xml.induct) (auto simp: append_text_to_def split: option.splits)

lemma write_pieces_exact:
  "length out < capacity \<Longrightarrow> write_pieces capacity out ps =
     (if length (out @ concat (map piece_text ps)) < capacity then Some (out @ concat (map piece_text ps)) else None)"
proof (induction capacity out ps rule: write_pieces.induct)
  case (3 capacity out s ps)
  then show ?case by (auto simp: append_xml_exact split: option.splits)
qed (auto simp: append_text_to_def split: option.splits)

lemma xml_escape_length: "length (xml_escape c) \<le> 6"
  by (simp add: xml_escape_def)

lemma xml_text_length: "length (concat (map xml_escape s)) \<le> 6 * length s"
proof (induction s)
  case (Cons c s)
  then show ?case using xml_escape_length [of c] by simp
qed simp

lemma field_pieces_length:
  assumes "(f, v) \<in> set (zip mdns_fields (field_values m))" and "metadata_valid m"
  shows "length (concat (map piece_text (field_pieces (f, v)))) \<le> 41 + 6 * snd f"
proof -
  have "field_fits (snd f) v" using valid_fields [OF assms(2)] assms(1) by (cases f) (auto simp: list_all2_iff)
  then have "length (concat (map xml_escape v)) \<le> 6 * snd f"
    using xml_text_length [of v] by (auto simp: field_fits_def)
  moreover have "f \<in> set mdns_fields" using assms(1) by (auto dest: set_zip_leftD)
  then have "(case f of (k, n) \<Rightarrow> length k \<le> 15 \<and> n \<le> 64)" using mdns_keys(4) unfolding list_all_iff by blast
  then have "length (fst f) \<le> 15" by (cases f) simp
  ultimately show ?thesis by (simp add: field_pieces_def)
qed

text \<open>A reader of such documents: the tags, each with the text after it, entities resolved.\<close>

definition entities :: "(string \<times> char) list" where
  "entities = [(''amp;'', CHR ''&''), (''lt;'', CHR ''<''), (''gt;'', CHR ''>''), (''quot;'', char_of (34 :: nat)),
     (''apos;'', char_of (39 :: nat))]"

fun entity :: "(string \<times> char) list \<Rightarrow> string \<Rightarrow> (char \<times> string) option" where
  "entity [] s = None"
| "entity ((e, c) # es) s = (case strip_prefix e s of Some r \<Rightarrow> Some (c, r) | None \<Rightarrow> entity es s)"

lemma entity_length: "entity es s = Some (c, r) \<Longrightarrow> length r \<le> length s"
  by (induction es s rule: entity.induct) (auto simp: strip_prefix_Some split: option.splits)

function xml_unescape :: "string \<Rightarrow> string" where
  "xml_unescape [] = []"
| "xml_unescape (c # s) =
     (if c = CHR ''&'' then (case entity entities s of Some (d, r) \<Rightarrow> d # xml_unescape r | None \<Rightarrow> c # xml_unescape s)
      else c # xml_unescape s)"
  by pat_completeness auto
termination
  by (relation "measure length") (auto dest: entity_length)

lemma unescape_one: "xml_unescape (xml_escape c @ s) = c # xml_unescape s"
proof -
  have "c = CHR ''&'' \<or> c = CHR ''<'' \<or> c = CHR ''>'' \<or> ord c = 34 \<or> ord c = 39 \<or>
      xml_escape c = [c] \<and> c \<noteq> CHR ''&''" by (auto simp: xml_escape_def)
  then show ?thesis
  proof (elim disjE)
    assume "ord c = 34"
    then have "c = char_of (34 :: nat)" by (metis char_of_char)
    then show ?thesis by (simp add: xml_escape_def entities_def)
  next
    assume "ord c = 39"
    then have "c = char_of (39 :: nat)" by (metis char_of_char)
    then show ?thesis by (simp add: xml_escape_def entities_def)
  next
    assume "xml_escape c = [c] \<and> c \<noteq> CHR ''&''"
    then show ?thesis by simp
  qed (simp_all add: xml_escape_def entities_def)
qed

lemma unescape_escape [simp]: "xml_unescape (concat (map xml_escape s)) = s"
  by (induction s) (simp_all add: unescape_one)

lemma escaped_chars: "c \<in> set (concat (map xml_escape s)) \<Longrightarrow> c \<noteq> CHR ''<'' \<and> c \<noteq> CHR ''>''"
proof -
  have "list_all (\<lambda>c. c \<noteq> CHR ''<'' \<and> c \<noteq> CHR ''>'') (xml_escape d)" for d
    by (auto simp: xml_escape_def)
  then show "c \<in> set (concat (map xml_escape s)) \<Longrightarrow> c \<noteq> CHR ''<'' \<and> c \<noteq> CHR ''>''"
    by (auto simp: list_all_iff)
qed

function xml_parts :: "string \<Rightarrow> (string \<times> string) list" where
  "xml_parts [] = []"
| "xml_parts (c # s) =
     (if c \<noteq> CHR ''<'' then xml_parts s
      else (takeWhile (\<lambda>c. c \<noteq> CHR ''>'') s,
            xml_unescape (takeWhile (\<lambda>c. c \<noteq> CHR ''<'') (tl (dropWhile (\<lambda>c. c \<noteq> CHR ''>'') s))))
        # xml_parts (dropWhile (\<lambda>c. c \<noteq> CHR ''<'') (tl (dropWhile (\<lambda>c. c \<noteq> CHR ''>'') s))))"
  by pat_completeness auto
termination
proof (relation "measure length")
  fix c :: char and s :: string
  have "length (dropWhile (\<lambda>c. c \<noteq> CHR ''<'') (tl (dropWhile (\<lambda>c. c \<noteq> CHR ''>'') s))) \<le> length (tl (dropWhile (\<lambda>c. c \<noteq> CHR ''>'') s))"
    by (rule length_dropWhile_le)
  also have "\<dots> \<le> length (dropWhile (\<lambda>c. c \<noteq> CHR ''>'') s)" by simp
  also have "\<dots> \<le> length s" by (rule length_dropWhile_le)
  finally show "(dropWhile (\<lambda>c. c \<noteq> CHR ''<'') (tl (dropWhile (\<lambda>c. c \<noteq> CHR ''>'') s)), c # s) \<in> measure length" by simp
qed simp_all

definition item_text :: "string \<times> string \<Rightarrow> string" where
  "item_text i = CHR ''<'' # fst i @ CHR ''>'' # concat (map xml_escape (snd i))"

lemma parts_items:
  "list_all (\<lambda>(t, _). CHR ''>'' \<notin> set t) items \<Longrightarrow> xml_parts (concat (map item_text items)) = items"
proof (induction items)
  case (Cons i items)
  obtain t x where i: "i = (t, x)" by fastforce
  define rest where "rest = concat (map item_text items)"
  have rest: "rest = [] \<or> hd rest = CHR ''<''" by (cases items) (simp_all add: rest_def item_text_def)
  have a: "takeWhile (\<lambda>c. c \<noteq> CHR ''>'') (t @ CHR ''>'' # concat (map xml_escape x) @ rest) = t \<and>
      dropWhile (\<lambda>c. c \<noteq> CHR ''>'') (t @ CHR ''>'' # concat (map xml_escape x) @ rest) = CHR ''>'' # concat (map xml_escape x) @ rest"
    using Cons.prems i by (intro takeWhile_all_append) auto
  have b: "takeWhile (\<lambda>c. c \<noteq> CHR ''<'') (concat (map xml_escape x) @ rest) = concat (map xml_escape x) \<and>
      dropWhile (\<lambda>c. c \<noteq> CHR ''<'') (concat (map xml_escape x) @ rest) = rest"
    using escaped_chars rest by (intro takeWhile_all_append) blast+
  have "item_text i @ rest = CHR ''<'' # t @ CHR ''>'' # concat (map xml_escape x) @ rest" by (simp add: item_text_def i)
  then show ?case using Cons a b by (simp add: rest_def [symmetric] i)
qed simp

text \<open>What a registration should say.\<close>

definition document_items :: "string \<Rightarrow> string \<Rightarrow> nat \<Rightarrow> string list \<Rightarrow> (string \<times> string) list" where
  "document_items name service port records =
     [(''?xml version=\"1.0\"?'', []), (''!DOCTYPE service-group SYSTEM \"avahi-service.dtd\"'', [newline]),
      (''service-group'', []), (''name replace-wildcards=\"no\"'', name), (''/name'', []), (''service'', []),
      (''type'', service), (''/type'', []), (''port'', nat_digits port), (''/port'', [])] @
     concat (map (\<lambda>r. [(''txt-record'', r), (''/txt-record'', [])]) records) @
     [(''/service'', []), (''/service-group'', [newline])]"

lemma plain_escape: "list_all (\<lambda>c. xml_escape c = [c]) s \<Longrightarrow> concat (map xml_escape s) = s"
  by (induction s) simp_all

lemma digits_escape: "concat (map xml_escape (nat_digits n)) = nat_digits n"
proof (rule plain_escape)
  have "isdigit c \<Longrightarrow> xml_escape c = [c]" for c
    unfolding xml_escape_def char_eq_ord isdigit_def by simp
  then show "list_all (\<lambda>c. xml_escape c = [c]) (nat_digits n)" using nat_digits_digits by (auto simp: list_all_iff)
qed

lemma keys_escape: "list_all (\<lambda>(k, _). list_all (\<lambda>c. xml_escape c = [c]) k) mdns_fields"
  by code_simp

lemma item_texts:
  "item_text (''txt-record'', r) = ''<txt-record>'' @ concat (map xml_escape r)"
  "item_text (''/txt-record'', []) = ''</txt-record>''"
  by (simp_all add: item_text_def)

lemma records_text:
  "concat (map item_text (concat (map (\<lambda>r. [(''txt-record'', r), (''/txt-record'', [])]) records))) =
     concat (map (\<lambda>r. ''<txt-record>'' @ concat (map xml_escape r) @ ''</txt-record>'') records)"
  by (induction records) (simp_all add: item_texts)

lemma name_escape: "concat (map xml_escape ''_esphomelib._tcp'') = ''_esphomelib._tcp''"
  "concat (map xml_escape ''_sendspin._tcp'') = ''_sendspin._tcp''"
  "concat (map xml_escape ''path=/sendspin'') = ''path=/sendspin''"
  "concat (map xml_escape ''name='') = ''name=''" "concat (map xml_escape [newline]) = [newline]"
  by code_simp+

lemma document_text:
  assumes "concat (map xml_escape service) = service"
  shows "concat (map item_text (document_items name service port records)) =
    document_head @ concat (map xml_escape name) @ ''</name><service><type>'' @ service @ ''</type><port>'' @
    nat_digits port @ ''</port>'' @
    concat (map (\<lambda>r. ''<txt-record>'' @ concat (map xml_escape r) @ ''</txt-record>'') records) @ document_end"
proof -
  have "item_text (t, []) = CHR ''<'' # t @ ''>''" "item_text (t, [newline]) = CHR ''<'' # t @ CHR ''>'' # [newline]"
    "item_text (t, service) = CHR ''<'' # t @ CHR ''>'' # service"
    "item_text (t, nat_digits port) = CHR ''<'' # t @ CHR ''>'' # nat_digits port"
    "item_text (t, name) = CHR ''<'' # t @ CHR ''>'' # concat (map xml_escape name)" for t
    using assms name_escape(5) digits_escape unfolding item_text_def fst_conv snd_conv by simp_all
  then show ?thesis
    unfolding document_items_def map_append concat_append records_text document_head_def document_end_def
    by (simp del: append.simps add: append.simps)
qed

lemma document_tags: "list_all (\<lambda>(t, _). CHR ''>'' \<notin> set t) (document_items name service port records)"
  by (simp add: document_items_def list_all_iff)

lemma document_parts:
  "concat (map xml_escape service) = service \<Longrightarrow>
   xml_parts (document_head @ concat (map xml_escape name) @ ''</name><service><type>'' @ service @ ''</type><port>'' @
    nat_digits port @ ''</port>'' @
    concat (map (\<lambda>r. ''<txt-record>'' @ concat (map xml_escape r) @ ''</txt-record>'') records) @ document_end) =
   document_items name service port records"
  using parts_items [OF document_tags, of name service port records] by (simp only: document_text)

definition txt_records :: "le_mdns_esphome_metadata \<Rightarrow> string list" where
  "txt_records m = map (\<lambda>((k, _), v). k @ ''='' @ v) (zip mdns_fields (field_values m))"

lemma esphome_text:
  "concat (map piece_text (esphome_pieces port m)) =
    document_head @ concat (map xml_escape (md_friendly_name m)) @ ''</name><service><type>'' @ ''_esphomelib._tcp'' @
    ''</type><port>'' @ nat_digits port @ ''</port>'' @
    concat (map (\<lambda>r. ''<txt-record>'' @ concat (map xml_escape r) @ ''</txt-record>'') (txt_records m)) @ document_end"
proof -
  have eq: "xml_escape (CHR ''='') = ''=''" by code_simp
  have "concat (map piece_text (concat (map field_pieces fs))) =
      concat (map (\<lambda>r. ''<txt-record>'' @ concat (map xml_escape r) @ ''</txt-record>'') (map (\<lambda>((k, _), v). k @ ''='' @ v) fs))"
    if "\<forall>f\<in>set fs. fst f \<in> set mdns_fields" for fs
    using that
  proof (induction fs)
    case (Cons f fs)
    obtain k n v where f: "f = ((k, n), v)" by (metis surj_pair)
    have "concat (map xml_escape k) = k"
      using keys_escape Cons.prems f by (intro plain_escape) (auto simp: list_all_iff)
    then show ?case using Cons by (simp add: f field_pieces_def eq)
  qed simp
  moreover have "\<forall>f\<in>set (zip mdns_fields (field_values m)). fst f \<in> set mdns_fields" by (auto dest: set_zip_leftD)
  ultimately show ?thesis by (simp add: esphome_pieces_def txt_records_def)
qed

lemma field_sizes: "sum_list (map (\<lambda>f. 41 + 6 * snd f) mdns_fields) = 2301"
  by code_simp

lemma fields_pieces_length:
  assumes "metadata_valid m"
  shows "length (concat (map piece_text (concat (map field_pieces (zip mdns_fields (field_values m)))))) \<le> 2301"
proof -
  have "sum_list (map (\<lambda>f. length (concat (map piece_text (field_pieces f)))) (zip mdns_fields (field_values m))) \<le>
      sum_list (map (\<lambda>f. 41 + 6 * snd (fst f)) (zip mdns_fields (field_values m)))"
    using field_pieces_length [OF _ assms] by (intro sum_list_mono) (metis prod.collapse)
  also have "\<dots> = sum_list (map (\<lambda>f. 41 + 6 * snd f) (map fst (zip mdns_fields (field_values m))))"
    by (simp add: comp_def)
  also have "\<dots> = 2301" using field_sizes mdns_keys(3) by (simp add: map_fst_zip)
  finally have "sum_list (map (\<lambda>f. length (concat (map piece_text (field_pieces f)))) (zip mdns_fields (field_values m))) \<le> 2301" .
  moreover have "length (concat (map piece_text (concat (map field_pieces fs)))) =
      sum_list (map (\<lambda>f. length (concat (map piece_text (field_pieces f)))) fs)" for fs
    by (induction fs) simp_all
  ultimately show ?thesis by simp
qed

lemma document_lengths: "length document_head = 117" "length document_end = 27"
  by (simp_all add: document_head_def document_end_def)

lemma esphome_document:
  assumes "port \<le> 65535" and "metadata_valid m"
  shows "\<exists>xml. write_pieces 4096 [] (esphome_pieces port m) = Some xml \<and>
    xml_parts xml = document_items (md_friendly_name m) ''_esphomelib._tcp'' port (txt_records m)"
proof -
  have "field_fits 64 (md_friendly_name m)"
    using valid_fields [OF assms(2)] by (simp add: mdns_fields_def field_values_def)
  then have "length (concat (map xml_escape (md_friendly_name m))) \<le> 378"
    using xml_text_length [of "md_friendly_name m"] by (simp add: field_fits_def)
  then have "length (concat (map piece_text (esphome_pieces port m))) < 4096"
    using fields_pieces_length [OF assms(2)] document_lengths port_length [OF assms(1)] by (simp add: esphome_pieces_def)
  then have "write_pieces 4096 [] (esphome_pieces port m) = Some (concat (map piece_text (esphome_pieces port m)))"
    using write_pieces_exact [of "[]" 4096 "esphome_pieces port m"] by simp
  then show ?thesis unfolding esphome_text using document_parts [OF name_escape(1)] by blast
qed

lemma sendspin_document:
  assumes "port \<le> 65535" and "sendspin_name_valid name" and "length name \<le> 62"
  shows "\<exists>xml. write_pieces 1024 [] (sendspin_pieces port name) = Some xml \<and>
    xml_parts xml = document_items name ''_sendspin._tcp'' port [''path=/sendspin'', ''name='' @ name]"
proof -
  have "length (concat (map xml_escape name)) \<le> 372" using xml_text_length [of name] assms(3) by simp
  then have "length (concat (map piece_text (sendspin_pieces port name))) < 1024"
    using document_lengths port_length [OF assms(1)] by (simp add: sendspin_pieces_def)
  then have w: "write_pieces 1024 [] (sendspin_pieces port name) = Some (concat (map piece_text (sendspin_pieces port name)))"
    using write_pieces_exact [of "[]" 1024 "sendspin_pieces port name"] by simp
  have "concat (map piece_text (sendspin_pieces port name)) =
    document_head @ concat (map xml_escape name) @ ''</name><service><type>'' @ ''_sendspin._tcp'' @ ''</type><port>'' @
    nat_digits port @ ''</port>'' @
    concat (map (\<lambda>r. ''<txt-record>'' @ concat (map xml_escape r) @ ''</txt-record>'') [''path=/sendspin'', ''name='' @ name]) @ document_end"
    using name_escape(3,4) by (simp add: sendspin_pieces_def)
  then show ?thesis using w document_parts [OF name_escape(2)] by (metis (no_types, lifting))
qed

text \<open>
  C29: C40. The document published for a registration in order says exactly what was registered: whatever
  characters the fields have, a reader of XML finds the tags of the template, the name, the port, and
  for each field one record of its key and value; the buffer is always enough for a service of
  ESPHome, and for a Sendspin player whose name has at most 62 of the 63 bytes allowed.
\<close>

theorem mdns_document_exact:
  assumes "port \<le> 65535" and "metadata_valid m" and "sendspin_name_valid name" and "length name \<le> 62"
  shows "(\<exists>xml. write_pieces 4096 [] (esphome_pieces port m) = Some xml \<and>
      xml_parts xml = document_items (md_friendly_name m) ''_esphomelib._tcp'' port (txt_records m)) \<and>
    (\<exists>xml. write_pieces 1024 [] (sendspin_pieces port name) = Some xml \<and>
      xml_parts xml = document_items name ''_sendspin._tcp'' port [''path=/sendspin'', ''name='' @ name])"
  using esphome_document [OF assms(1,2)] sendspin_document [OF assms(1,3,4)] by (rule conjI)

theorem mdns_document_exact_witness:
  "\<exists>xml. write_pieces 4096 [] (esphome_pieces 6053 kitchen) = Some xml \<and>
     xml_parts xml = document_items ''Kitchen <1>'' ''_esphomelib._tcp'' 6053 (txt_records kitchen)"
proof -
  have "sendspin_name_valid ''Kitchen''" by code_simp
  then show ?thesis using mdns_document_exact [OF _ kitchen_valid _ , of 6053 "''Kitchen''"] by (simp add: kitchen_def)
qed

text \<open>
  A name of sixty-three quotation marks is valid and is sent and received, but its document does
  not fit the buffer, so the player is refused.
\<close>

theorem mdns_quoted_name_refused:
  "sendspin_name_valid (replicate 63 (char_of (34 :: nat))) \<and>
   write_pieces 1024 [] (sendspin_pieces 8927 (replicate 63 (char_of (34 :: nat)))) = None"
proof
  show "sendspin_name_valid (replicate 63 (char_of (34 :: nat)))" by code_simp
  define q where "q = replicate 63 (char_of (34 :: nat) :: char)"
  have "length (xml_escape (char_of (34 :: nat))) = 6" by code_simp
  then have "length (concat (map xml_escape (replicate n (char_of (34 :: nat))))) = 6 * n" for n
    by (induction n) simp_all
  then have "length (concat (map xml_escape q)) = 378" unfolding q_def by simp
  moreover have "length (nat_digits 8927) = 4" by (simp add: nat_digits.simps)
  ultimately have "\<not> length (concat (map piece_text (sendspin_pieces 8927 q))) < 1024"
    using document_lengths by (simp add: sendspin_pieces_def)
  then have "write_pieces 1024 [] (sendspin_pieces 8927 q) = None"
    using write_pieces_exact [of "[]" 1024 "sendspin_pieces 8927 q"] by simp
  then show "write_pieces 1024 [] (sendspin_pieces 8927 (replicate 63 (char_of (34 :: nat)))) = None"
    unfolding q_def .
qed

end
