(* ===== verification/Mdns_Daemon.thy ===== *)
theory Mdns_Daemon
  imports Mdns_Lease
begin

text \<open>
  The discovery daemon around the leases (src/adapter/mdnsd.c): the connections it serves, the turn of
  each in a round of the poll loop, and what is published as a result.

  What the world answers in a round is given to it: a connection that was accepted, the messages, the
  hang-ups, whether the process behind a connection is still there at both places where it is asked,
  and the calls on the directory.  The executable behind a connection, which decides what it may
  register, belongs to the connection.  A free place has a negative descriptor.  The child processes
  and their signals are left out.
\<close>

definition CLIENTS :: nat where "CLIENTS = 4"

datatype owner_kind = OWNER_NONE | OWNER_ESPHOME | OWNER_SENDSPIN

record mdns_client =
  mc_fd :: int
  mc_kind :: owner_kind
  mc_deadline :: int

record mdnsd =
  dm_lease :: le_mdns_lease
  dm_sendspin :: le_mdns_lease
  dm_dir :: directory
  dm_clients :: "mdns_client list"
  dm_running :: bool
  dm_result :: int

definition no_client :: mdns_client where
  "no_client = \<lparr>mc_fd = - 1, mc_kind = OWNER_NONE, mc_deadline = 0\<rparr>"

text \<open>Files of an earlier run; all of them go, or the daemon does not start.\<close>

definition stale_name :: "string \<Rightarrow> bool" where
  "stale_name name \<longleftrightarrow> strip_prefix ''wyoming-'' name \<noteq> None \<or> strip_prefix ''esphome-'' name \<noteq> None \<or>
     strip_prefix ''sendspin-'' name \<noteq> None \<or> name = ''wyoming.service'' \<or> name = ''esphome.service''"

definition clear_stale :: "(string \<Rightarrow> bool) \<Rightarrow> directory \<Rightarrow> bool \<times> directory" where
  "clear_stale works d =
     (\<forall>name\<in>dom d. stale_name name \<longrightarrow> works name, \<lambda>name. if stale_name name \<and> works name then None else d name)"

definition mdnsd_init :: "directory \<Rightarrow> mdnsd" where
  "mdnsd_init d = \<lparr>dm_lease = le_mdns_lease_init, dm_sendspin = le_mdns_lease_init, dm_dir = d,
     dm_clients = replicate CLIENTS no_client, dm_running = True, dm_result = 0\<rparr>"

section \<open>A round\<close>

record turn_input =
  ti_message :: "string option option"
  ti_hangup :: bool
  ti_alive_message :: bool
  ti_alive_end :: bool
  ti_ready :: bool
  ti_calls :: directory_calls
  ti_withdraw :: bool

record round_input =
  ri_now :: int
  ri_accepted :: "(int \<times> owner_kind) option"
  ri_turns :: "turn_input list"

text \<open>A new connection takes the first free place; without one it is closed.  Its descriptor is not open already.\<close>

fun place_client :: "mdns_client \<Rightarrow> mdns_client list \<Rightarrow> mdns_client list" where
  "place_client c [] = []"
| "place_client c (x # xs) = (if 0 \<le> mc_fd x then x # place_client c xs else c # xs)"

definition accept_client :: "round_input \<Rightarrow> mdnsd \<Rightarrow> mdnsd" where
  "accept_client r s =
     (case ri_accepted r of None \<Rightarrow> s
      | Some (fd, kind) \<Rightarrow>
          if fd < 0 \<or> fd \<in> set (map mc_fd (dm_clients s)) then s
          else s\<lparr>dm_clients := place_client \<lparr>mc_fd = fd, mc_kind = kind, mc_deadline = ri_now r + 2000\<rparr> (dm_clients s)\<rparr>)"

definition peer_still_owner :: "bool \<Rightarrow> mdns_client \<Rightarrow> owner_kind \<Rightarrow> bool" where
  "peer_still_owner alive c kind \<longleftrightarrow> alive \<and> mc_kind c = kind"

text \<open>The state, the answer, and whether the connection is to be closed.\<close>

definition reply_line :: "string \<Rightarrow> string" where
  "reply_line s = s @ [newline]"

definition answer_sendspin :: "turn_input \<Rightarrow> mdns_client \<Rightarrow> string \<Rightarrow> mdnsd \<Rightarrow> mdnsd \<times> string \<times> bool" where
  "answer_sendspin t c message s =
     (case le_mdns_sendspin_decode message of None \<Rightarrow> (s, reply_line ''error'', True)
      | Some (port, name) \<Rightarrow>
          if \<not> peer_still_owner (ti_alive_message t) c OWNER_SENDSPIN then (s, reply_line ''error'', True)
          else (case le_mdns_lease_register_sendspin (ti_calls t) (mc_fd c) port name (dm_sendspin s) (dm_dir s) of
            (ok, lease, d) \<Rightarrow>
              (s\<lparr>dm_sendspin := lease, dm_dir := d\<rparr>, reply_line (if ok then ''pending'' else ''error''), \<not> ok)))"

definition answer_esphome :: "turn_input \<Rightarrow> mdns_client \<Rightarrow> string \<Rightarrow> mdnsd \<Rightarrow> mdnsd \<times> string \<times> bool" where
  "answer_esphome t c message s =
     (case le_mdns_esphome_decode message of None \<Rightarrow> (s, reply_line ''error'', True)
      | Some (port, m) \<Rightarrow>
          if \<not> peer_still_owner (ti_alive_message t) c OWNER_ESPHOME then (s, reply_line ''error'', True)
          else (case le_mdns_lease_register_esphome (ti_calls t) (mc_fd c) port m (dm_lease s) (dm_dir s) of
            (ok, lease, d) \<Rightarrow>
              (s\<lparr>dm_lease := lease, dm_dir := d\<rparr>, reply_line (if ok then ''pending'' else ''error''), \<not> ok)))"

definition handle_message :: "turn_input \<Rightarrow> mdns_client \<Rightarrow> string \<Rightarrow> mdnsd \<Rightarrow> mdnsd \<times> string \<times> bool" where
  "handle_message t c message s =
     (if message = reply_line ''STATUS/1'' then (s, reply_line (if ti_ready t then ''running'' else ''degraded''), True)
      else if 11 < length message \<and> strip_prefix ''SENDSPIN/1 '' message \<noteq> None then answer_sendspin t c message s
      else answer_esphome t c message s)"

definition receive :: "turn_input \<Rightarrow> mdns_client \<Rightarrow> mdnsd \<Rightarrow> mdnsd \<times> string \<times> bool" where
  "receive t c s =
     (case ti_message t of None \<Rightarrow> (s, [], False)
      | Some None \<Rightarrow> (s, reply_line ''error'', True)
      | Some (Some message) \<Rightarrow> handle_message t c message s)"

definition owned_kind :: "int \<Rightarrow> mdnsd \<Rightarrow> owner_kind" where
  "owned_kind fd s =
     (if ml_owner (dm_lease s) = fd then OWNER_ESPHOME
      else if ml_owner (dm_sendspin s) = fd then OWNER_SENDSPIN else OWNER_NONE)"

text \<open>Giving up what a connection owns; when that fails the daemon stops.\<close>

definition withdraw_owned :: "bool \<Rightarrow> int \<Rightarrow> mdnsd \<Rightarrow> mdnsd" where
  "withdraw_owned works fd s =
     (case owned_kind fd s of
        OWNER_ESPHOME \<Rightarrow>
          (case le_mdns_lease_withdraw works fd (dm_lease s) (dm_dir s) of (ok, lease, d) \<Rightarrow>
             if ok then s\<lparr>dm_lease := lease, dm_dir := d\<rparr> else s\<lparr>dm_result := 1, dm_running := False\<rparr>)
      | OWNER_SENDSPIN \<Rightarrow>
          (case le_mdns_lease_withdraw works fd (dm_sendspin s) (dm_dir s) of (ok, lease, d) \<Rightarrow>
             if ok then s\<lparr>dm_sendspin := lease, dm_dir := d\<rparr> else s\<lparr>dm_result := 1, dm_running := False\<rparr>)
      | OWNER_NONE \<Rightarrow> s)"

definition client_turn :: "int \<Rightarrow> nat \<Rightarrow> turn_input \<Rightarrow> mdnsd \<Rightarrow> mdnsd" where
  "client_turn now i t s =
     (let c = dm_clients s ! i in
      if mc_fd c < 0 then s
      else
        (let (s1, reply, bad) = receive t c s;
             owned = owned_kind (mc_fd c) s1;
             close_client = (bad \<or> ti_hangup t \<or>
               (owned \<noteq> OWNER_NONE \<and> \<not> peer_still_owner (ti_alive_end t) c owned) \<or>
               (owned = OWNER_NONE \<and> mc_deadline c \<le> now))
         in if close_client
            then (withdraw_owned (ti_withdraw t) (mc_fd c) s1)\<lparr>dm_clients := (dm_clients s)[i := no_client]\<rparr>
            else s1))"

definition mdnsd_round :: "mdnsd \<Rightarrow> round_input \<Rightarrow> mdnsd" where
  "mdnsd_round s r =
     (if \<not> dm_running s then s
      else fold (\<lambda>i s. client_turn (ri_now r) i (ri_turns r ! i) s) [0..<min CLIENTS (length (ri_turns r))] (accept_client r s))"

definition mdnsd_shutdown :: "bool \<Rightarrow> bool \<Rightarrow> mdnsd \<Rightarrow> mdnsd" where
  "mdnsd_shutdown first second s =
     (let (_, lease, d) = le_mdns_lease_withdraw first (ml_owner (dm_lease s)) (dm_lease s) (dm_dir s);
          (_, sendspin, d2) = le_mdns_lease_withdraw second (ml_owner (dm_sendspin s)) (dm_sendspin s) d
      in s\<lparr>dm_lease := lease, dm_sendspin := sendspin, dm_dir := d2\<rparr>)"

section \<open>The services in the directory\<close>

definition services :: "string \<Rightarrow> directory \<Rightarrow> directory" where
  "services p d = (\<lambda>name. if \<exists>n. name = service_name p n then d name else None)"

lemma service_names:
  "service_name p n = service_name p m \<longleftrightarrow> n = m"
  "service_name p n \<noteq> temp_name q m"
  "service_name ''esphome'' n \<noteq> service_name ''sendspin'' m"
proof -
  show "service_name p n = service_name p m \<longleftrightarrow> n = m"
    unfolding service_name_def by (metis append_same_eq same_append_eq nat_digits_value)
  have "last (service_name p n) = CHR ''e''" "last (temp_name q m) = CHR ''p''"
    by (simp_all add: service_name_def temp_name_def)
  then show "service_name p n \<noteq> temp_name q m" by auto
  show "service_name ''esphome'' n \<noteq> service_name ''sendspin'' m" by (simp add: service_name_def)
qed

lemma services_update [simp]:
  "services p (d(temp_name q n := v)) = services p d"
  "services p (d(service_name p n := v)) = (services p d)(service_name p n := v)"
  "services ''esphome'' (d(service_name ''sendspin'' n := v)) = services ''esphome'' d"
  "services ''sendspin'' (d(service_name ''esphome'' n := v)) = services ''sendspin'' d"
  using service_names by (auto simp: services_def fun_eq_iff) metis+

lemma services_drop_temp [simp]: "services p (drop_temp c (temp_name q n) d) = services p d"
  by (simp add: drop_temp_def unlinkat_def)

text \<open>What a lease has published: nothing, or one document.\<close>

definition lease_files :: "(string \<Rightarrow> bool) \<Rightarrow> string \<Rightarrow> le_mdns_lease \<Rightarrow> directory \<Rightarrow> bool" where
  "lease_files P p lease d \<longleftrightarrow>
     (if ml_filename lease = [] then services p d = Map.empty
      else \<exists>n xml. n \<le> ml_generation lease \<and> ml_filename lease = service_name p n \<and>
        services p d = [service_name p n \<mapsto> xml] \<and> P xml)"

lemma publish_result:
  assumes "publish c p owner xml lease d = (ok, lease', d')"
  shows "ml_generation lease' = ml_generation lease + 1 \<and>
    (if ok then ml_owner lease' = owner \<and> ml_filename lease' = service_name p (ml_generation lease + 1)
     else ml_owner lease' = ml_owner lease \<and> ml_filename lease' = ml_filename lease)"
  using assms unfolding publish_def Let_def by (auto split: if_splits prod.splits)

lemma unlinkat_result: "unlinkat works name d = (gone, d') \<Longrightarrow> d' = (if gone then d(name := None) else d)"
  by (auto simp: unlinkat_def fun_eq_iff split: if_splits)

lemma unlinkat_works: "unlinkat True name d = (True, d(name := None))"
  by (auto simp: unlinkat_def fun_eq_iff)

text \<open>
  All that a publication does to the services of its prefix, when the removal of the new file after a
  failure, whose result the code ignores, works.
\<close>

lemma publish_services:
  assumes "publish c p owner xml lease d = (ok, lease', d')" and "dc_unlink_new c"
    and old: "ml_filename lease = [] \<or> (\<exists>n \<le> ml_generation lease. ml_filename lease = service_name p n)"
    and new: "services p d (service_name p (ml_generation lease + 1)) = None"
  shows "services p d' =
    (if ok then (if ml_filename lease = [] then services p d else (services p d)(ml_filename lease := None))
       (service_name p (ml_generation lease + 1) \<mapsto> xml) else services p d)"
proof -
  define nm where "nm = service_name p (ml_generation lease + 1)"
  define tm where "tm = temp_name p (ml_generation lease + 1)"
  define d1 where "d1 = d(tm \<mapsto> take (dc_written c) xml)"
  have s1: "services p d1 = services p d" by (simp add: d1_def tm_def)
  have drop: "services p (drop_temp c tm e) = services p e" for e by (simp add: tm_def)
  have upd: "services p (e(nm := v)) = (services p e)(nm := v)" for e v by (simp add: nm_def)
  have undo: "(services p d)(nm := None) = services p d" using new by (auto simp: nm_def fun_eq_iff)
  define d2 where "d2 = (if ml_filename lease = [] then (True, d1(nm \<mapsto> xml))
    else unlinkat (dc_unlink_old c) (ml_filename lease) (d1(nm \<mapsto> xml)))"
  obtain gone d3 where g: "d2 = (gone, d3)" by fastforce
  have d': "(ok \<and> gone \<and> d' = drop_temp c tm d3) \<or>
      (\<not> ok \<and> (d' = d \<or> d' = drop_temp c tm d1 \<or> \<not> gone \<and> d' = drop_temp c tm (snd (unlinkat True nm d3))))"
    using assms(1,2) g by (auto simp: publish_def Let_def nm_def tm_def d1_def d2_def split: if_splits prod.splits)
  have d3: "d3 = (if gone then (if ml_filename lease = [] then d1(nm \<mapsto> xml) else d1(nm \<mapsto> xml, ml_filename lease := None)) else d1(nm \<mapsto> xml))"
    using g by (auto simp: d2_def dest!: unlinkat_result split: if_splits)
  have "services p d3 = (if ml_filename lease = [] then services p d else (services p d)(ml_filename lease := None))(nm \<mapsto> xml)" if gone
  proof (cases "ml_filename lease = []")
    case False
    then obtain n where n: "n \<le> ml_generation lease" "ml_filename lease = service_name p n" using old by blast
    then have "ml_filename lease \<noteq> nm" by (simp add: nm_def service_names(1))
    moreover have "services p (e(ml_filename lease := v)) = (services p e)(ml_filename lease := v)" for e v by (simp add: n)
    ultimately show ?thesis using that False by (simp add: d3 upd s1 fun_upd_twist)
  qed (use that in \<open>simp add: d3 upd s1\<close>)
  moreover have "services p (snd (unlinkat True nm d3)) = services p d" if "\<not> gone"
    using that by (simp add: d3 unlinkat_works upd s1 undo)
  ultimately show ?thesis using d' unfolding nm_def [symmetric] by (auto simp: drop s1)
qed

lemma services_other:
  assumes "services q (d(x := None)) = services q d"
  shows "services q (snd (unlinkat w x d)) = services q d"
proof -
  obtain g e where "unlinkat w x d = (g, e)" by fastforce
  then show ?thesis using unlinkat_result [of w x d g e] assms by (cases g) simp_all
qed

lemma publish_other:
  assumes pub: "publish c p owner xml lease d = (ok, lease', d')"
    and other: "\<And>n e v. services q (e(service_name p n := v)) = services q e"
    and old: "ml_filename lease = [] \<or> (\<exists>n. ml_filename lease = service_name p n)"
  shows "services q d' = services q d"
proof -
  have gone: "services q (snd (unlinkat w (service_name p n) e)) = services q e" for w n e
    by (rule services_other) (rule other)
  have named: "services q (snd (unlinkat w (ml_filename lease) e)) = services q e" if "ml_filename lease \<noteq> []" for w e
    using old that gone by auto
  have pair: "unlinkat w x e = (g, f) \<Longrightarrow> f = snd (unlinkat w x e)" for w x e g f by simp
  show ?thesis using pub
    by (auto simp: publish_def Let_def other gone split: if_splits prod.splits dest!: pair) (simp add: named other)+
qed

section \<open>What always holds\<close>

text \<open>A lease and the services of its prefix.\<close>

definition lease_ok :: "(string \<Rightarrow> bool) \<Rightarrow> string \<Rightarrow> le_mdns_lease \<Rightarrow> directory \<Rightarrow> bool" where
  "lease_ok P p lease d \<longleftrightarrow> lease_files P p lease d \<and>
     (if ml_filename lease = [] then ml_owner lease = - 1 else 0 \<le> ml_owner lease)"

lemma lease_ok_name: "lease_ok P p lease d \<Longrightarrow>
    ml_filename lease = [] \<or> (\<exists>n \<le> ml_generation lease. ml_filename lease = service_name p n)"
  by (auto simp: lease_ok_def lease_files_def split: if_splits)

lemma service_not_empty [simp]: "service_name p n \<noteq> []" "[] \<noteq> service_name p n"
  by (simp_all add: service_name_def)

lemma publish_lease_ok:
  assumes "publish c p owner xml lease d = (ok, lease', d')" and "dc_unlink_new c"
    and inv: "lease_ok P p lease d" and "P xml" and "0 \<le> owner"
  shows "lease_ok P p lease' d'"
proof -
  have r: "ml_generation lease' = ml_generation lease + 1"
    "if ok then ml_owner lease' = owner \<and> ml_filename lease' = service_name p (ml_generation lease + 1)
     else ml_owner lease' = ml_owner lease \<and> ml_filename lease' = ml_filename lease"
    using publish_result [OF assms(1)] by auto
  have files: "if ml_filename lease = [] then services p d = Map.empty
      else \<exists>n old. n \<le> ml_generation lease \<and> ml_filename lease = service_name p n \<and>
        services p d = [service_name p n \<mapsto> old] \<and> P old"
    using inv by (auto simp: lease_ok_def lease_files_def split: if_splits)
  then have new: "services p d (service_name p (ml_generation lease + 1)) = None"
    by (auto simp: service_names(1) split: if_splits)
  note s = publish_services [OF assms(1,2) lease_ok_name [OF inv] new]
  show ?thesis
  proof (cases ok)
    case True
    have "(if ml_filename lease = [] then services p d else (services p d)(ml_filename lease := None)) = Map.empty"
      using files by (auto simp: fun_eq_iff split: if_splits)
    then have "services p d' = [service_name p (ml_generation lease + 1) \<mapsto> xml]" using s True by simp
    then show ?thesis using r True assms(4,5) by (auto simp: lease_ok_def lease_files_def)
  next
    case False
    then have "services p d' = services p d" "ml_filename lease' = ml_filename lease" "ml_owner lease' = ml_owner lease"
      using s r by simp_all
    then show ?thesis using inv r(1) by (auto simp: lease_ok_def lease_files_def intro: le_SucI split: if_splits)
  qed
qed

lemma withdraw_lease_ok:
  assumes "le_mdns_lease_withdraw works owner lease d = (True, lease', d')" and inv: "lease_ok P p lease d"
  shows "lease_ok P p lease' d' \<and> ml_owner lease' = - 1"
proof -
  have "lease' = lease\<lparr>ml_filename := [], ml_owner := - 1\<rparr>" and
    d': "d' = (if ml_filename lease = [] then d else d(ml_filename lease := None))"
    using assms(1) by (auto simp: le_mdns_lease_withdraw_def split: if_splits prod.splits dest!: unlinkat_result)
  moreover have "services p d' = Map.empty"
    using inv by (auto simp: d' lease_ok_def lease_files_def fun_eq_iff split: if_splits)
  ultimately show ?thesis by (simp add: lease_ok_def lease_files_def)
qed

lemma withdraw_other:
  assumes "le_mdns_lease_withdraw works owner lease d = (ok, lease', d')"
    and "\<And>n e v. services q (e(service_name p n := v)) = services q e"
    and "ml_filename lease = [] \<or> (\<exists>n. ml_filename lease = service_name p n)"
  shows "services q d' = services q d"
  using assms by (auto simp: le_mdns_lease_withdraw_def split: if_splits prod.splits dest!: unlinkat_result)

text \<open>The documents of registrations that are in order.\<close>

definition esphome_doc :: "string \<Rightarrow> bool" where
  "esphome_doc xml \<longleftrightarrow> (\<exists>port m. 0 < port \<and> port \<le> 65535 \<and> metadata_valid m \<and>
     write_pieces 4096 [] (esphome_pieces port m) = Some xml)"

definition sendspin_doc :: "string \<Rightarrow> bool" where
  "sendspin_doc xml \<longleftrightarrow> (\<exists>port name. 0 < port \<and> port \<le> 65535 \<and> sendspin_name_valid name \<and>
     write_pieces 1024 [] (sendspin_pieces port name) = Some xml)"

lemma register_esphome_ok:
  assumes "le_mdns_lease_register_esphome c owner port m lease d = (ok, lease', d')" and "dc_unlink_new c"
    and "lease_ok esphome_doc ''esphome'' lease d"
  shows "lease_ok esphome_doc ''esphome'' lease' d' \<and> services ''sendspin'' d' = services ''sendspin'' d \<and>
    ml_owner lease' = (if ok then owner else ml_owner lease)"
proof (cases "(ok, lease', d') = (False, lease, d)")
  case False
  then obtain xml where x: "write_pieces 4096 [] (esphome_pieces port m) = Some xml" "0 < port" "port \<le> 65535" "metadata_valid m" "0 \<le> owner"
    and p: "publish c ''esphome'' owner xml lease d = (ok, lease', d')"
    using assms(1) by (auto simp: le_mdns_lease_register_esphome_def split: if_splits option.splits)
  have "esphome_doc xml" using x by (auto simp: esphome_doc_def)
  then show ?thesis
    using publish_lease_ok [OF p assms(2,3) _ x(5)] publish_other [OF p, of "''sendspin''"] publish_result [OF p]
      lease_ok_name [OF assms(3)] by auto
qed (use assms in auto)

lemma register_sendspin_ok:
  assumes "le_mdns_lease_register_sendspin c owner port name lease d = (ok, lease', d')" and "dc_unlink_new c"
    and "lease_ok sendspin_doc ''sendspin'' lease d"
  shows "lease_ok sendspin_doc ''sendspin'' lease' d' \<and> services ''esphome'' d' = services ''esphome'' d \<and>
    ml_owner lease' = (if ok then owner else ml_owner lease)"
proof (cases "(ok, lease', d') = (False, lease, d)")
  case False
  then obtain xml where x: "write_pieces 1024 [] (sendspin_pieces port name) = Some xml" "0 < port" "port \<le> 65535" "sendspin_name_valid name" "0 \<le> owner"
    and p: "publish c ''sendspin'' owner xml lease d = (ok, lease', d')"
    using assms(1) by (auto simp: le_mdns_lease_register_sendspin_def split: if_splits option.splits)
  have "sendspin_doc xml" using x by (auto simp: sendspin_doc_def)
  then show ?thesis
    using publish_lease_ok [OF p assms(2,3) _ x(5)] publish_other [OF p, of "''esphome''"] publish_result [OF p]
      lease_ok_name [OF assms(3)] by auto
qed (use assms in auto)

lemma lease_ok_services: "lease_ok P p lease d \<Longrightarrow> services p d' = services p d \<Longrightarrow> lease_ok P p lease d'"
  unfolding lease_ok_def lease_files_def by metis

text \<open>The connections: as many places as there are, different descriptors, and the owners among them.\<close>

definition connected :: "mdns_client list \<Rightarrow> owner_kind \<Rightarrow> int \<Rightarrow> bool" where
  "connected cs kind owner \<longleftrightarrow> 0 \<le> owner \<longrightarrow> (\<exists>c\<in>set cs. mc_fd c = owner \<and> mc_kind c = kind)"

definition open_fds :: "mdns_client list \<Rightarrow> int list" where
  "open_fds cs = map mc_fd (filter (\<lambda>c. 0 \<le> mc_fd c) cs)"

definition leases_inv :: "mdnsd \<Rightarrow> bool" where
  "leases_inv s \<longleftrightarrow> length (dm_clients s) = CLIENTS \<and> distinct (open_fds (dm_clients s)) \<and>
     lease_ok esphome_doc ''esphome'' (dm_lease s) (dm_dir s) \<and>
     lease_ok sendspin_doc ''sendspin'' (dm_sendspin s) (dm_dir s) \<and>
     connected (dm_clients s) OWNER_ESPHOME (ml_owner (dm_lease s)) \<and>
     connected (dm_clients s) OWNER_SENDSPIN (ml_owner (dm_sendspin s))"

definition mdnsd_inv :: "mdnsd \<Rightarrow> bool" where
  "mdnsd_inv s \<longleftrightarrow> (dm_running s \<longrightarrow> leases_inv s)"

text \<open>A message changes the lease of the kind of its connection, or nothing.\<close>

lemma answer_sendspin_cases:
  assumes "answer_sendspin t c message s = (s1, reply, bad)"
  obtains "s1 = s"
    | port name ok lease d where "le_mdns_lease_register_sendspin (ti_calls t) (mc_fd c) port name (dm_sendspin s) (dm_dir s) = (ok, lease, d)"
      "s1 = s\<lparr>dm_sendspin := lease, dm_dir := d\<rparr>" "mc_kind c = OWNER_SENDSPIN"
proof (cases "le_mdns_sendspin_decode message")
  case None
  then show thesis using assms that(1) by (simp add: answer_sendspin_def)
next
  case (Some a)
  obtain port name where a: "a = (port, name)" by fastforce
  obtain ok lease d where r:
    "le_mdns_lease_register_sendspin (ti_calls t) (mc_fd c) port name (dm_sendspin s) (dm_dir s) = (ok, lease, d)"
    by (rule prod_cases3)
  show thesis
  proof (cases "peer_still_owner (ti_alive_message t) c OWNER_SENDSPIN")
    case True
    then show thesis using that(2) [OF r] assms by (simp add: answer_sendspin_def Some a r peer_still_owner_def)
  next
    case False
    then show thesis using assms that(1) by (simp add: answer_sendspin_def Some a)
  qed
qed

lemma answer_esphome_cases:
  assumes "answer_esphome t c message s = (s1, reply, bad)"
  obtains "s1 = s"
    | port m ok lease d where "le_mdns_lease_register_esphome (ti_calls t) (mc_fd c) port m (dm_lease s) (dm_dir s) = (ok, lease, d)"
      "s1 = s\<lparr>dm_lease := lease, dm_dir := d\<rparr>" "mc_kind c = OWNER_ESPHOME"
proof (cases "le_mdns_esphome_decode message")
  case None
  then show thesis using assms that(1) by (simp add: answer_esphome_def)
next
  case (Some a)
  obtain port m where a: "a = (port, m)" by fastforce
  obtain ok lease d where r:
    "le_mdns_lease_register_esphome (ti_calls t) (mc_fd c) port m (dm_lease s) (dm_dir s) = (ok, lease, d)"
    by (rule prod_cases3)
  show thesis
  proof (cases "peer_still_owner (ti_alive_message t) c OWNER_ESPHOME")
    case True
    then show thesis using that(2) [OF r] assms by (simp add: answer_esphome_def Some a r peer_still_owner_def)
  next
    case False
    then show thesis using assms that(1) by (simp add: answer_esphome_def Some a)
  qed
qed

lemma receive_cases:
  assumes "receive t c s = (s1, reply, bad)"
  obtains "s1 = s" | message where "answer_sendspin t c message s = (s1, reply, bad)"
    | message where "answer_esphome t c message s = (s1, reply, bad)"
  using assms unfolding receive_def handle_message_def by (auto split: option.splits if_splits)

lemma receive_inv:
  assumes "leases_inv s" and "c \<in> set (dm_clients s)" and "0 \<le> mc_fd c" and "dc_unlink_new (ti_calls t)"
    and "receive t c s = (s1, reply, bad)"
  shows "leases_inv s1 \<and> dm_clients s1 = dm_clients s \<and> dm_running s1 = dm_running s"
proof -
  consider (same) "s1 = s"
    | (esphome) port m ok lease d where "le_mdns_lease_register_esphome (ti_calls t) (mc_fd c) port m (dm_lease s) (dm_dir s) = (ok, lease, d)"
        "s1 = s\<lparr>dm_lease := lease, dm_dir := d\<rparr>" "mc_kind c = OWNER_ESPHOME"
    | (sendspin) port name ok lease d where "le_mdns_lease_register_sendspin (ti_calls t) (mc_fd c) port name (dm_sendspin s) (dm_dir s) = (ok, lease, d)"
        "s1 = s\<lparr>dm_sendspin := lease, dm_dir := d\<rparr>" "mc_kind c = OWNER_SENDSPIN"
    using receive_cases [OF assms(5)] answer_sendspin_cases answer_esphome_cases by metis
  then show ?thesis
  proof cases
    case same
    then show ?thesis using assms(1) by simp
  next
    case esphome
    have l: "lease_ok esphome_doc ''esphome'' (dm_lease s) (dm_dir s)" "lease_ok sendspin_doc ''sendspin'' (dm_sendspin s) (dm_dir s)"
      using assms(1) by (auto simp: leases_inv_def)
    note r = register_esphome_ok [OF esphome(1) assms(4) l(1)]
    have "connected (dm_clients s) OWNER_ESPHOME (ml_owner lease)"
      using r assms(1,2) esphome(3) by (auto simp: leases_inv_def connected_def split: if_splits)
    then show ?thesis using r esphome(2) assms(1) lease_ok_services [OF l(2)] by (simp add: leases_inv_def)
  next
    case sendspin
    have l: "lease_ok esphome_doc ''esphome'' (dm_lease s) (dm_dir s)" "lease_ok sendspin_doc ''sendspin'' (dm_sendspin s) (dm_dir s)"
      using assms(1) by (auto simp: leases_inv_def)
    note r = register_sendspin_ok [OF sendspin(1) assms(4) l(2)]
    have "connected (dm_clients s) OWNER_SENDSPIN (ml_owner lease)"
      using r assms(1,2) sendspin(3) by (auto simp: leases_inv_def connected_def split: if_splits)
    then show ?thesis using r sendspin(2) assms(1) lease_ok_services [OF l(1)] by (simp add: leases_inv_def)
  qed
qed

lemma same_client:
  "distinct (open_fds cs) \<Longrightarrow> c \<in> set cs \<Longrightarrow> d \<in> set cs \<Longrightarrow> mc_fd c = mc_fd d \<Longrightarrow> 0 \<le> mc_fd c \<Longrightarrow> c = d"
  unfolding open_fds_def distinct_map by (auto dest: inj_onD)

lemma free_place:
  assumes "distinct (open_fds cs)" shows "distinct (open_fds (cs[i := no_client]))"
proof (cases "i < length cs")
  case True
  have "cs = take i cs @ cs ! i # drop (Suc i) cs" using True by (rule id_take_nth_drop)
  then have "distinct (open_fds (take i cs @ cs ! i # drop (Suc i) cs))" using assms by simp
  then have "distinct (open_fds (take i cs @ drop (Suc i) cs))" by (auto simp: open_fds_def split: if_splits)
  then show ?thesis using True by (simp add: upd_conv_take_nth_drop open_fds_def) (simp add: no_client_def)
qed (use assms in \<open>simp add: list_update_beyond\<close>)

lemma connected_free:
  assumes "connected cs kind owner" and "owner \<noteq> mc_fd (cs ! i)"
  shows "connected (cs[i := no_client]) kind owner"
proof -
  have "\<exists>d\<in>set (cs[i := no_client]). mc_fd d = owner \<and> mc_kind d = kind" if nn: "0 \<le> owner"
  proof -
    obtain c where c: "c \<in> set cs" "mc_fd c = owner" "mc_kind c = kind" using assms(1) nn by (auto simp: connected_def)
    then obtain j where j: "j < length cs" "cs ! j = c" by (auto simp: in_set_conv_nth)
    then have "j \<noteq> i" using assms(2) c by auto
    then have "c \<in> set (cs[i := no_client])" using j by (metis length_list_update nth_list_update_neq nth_mem)
    then show ?thesis using c by blast
  qed
  then show ?thesis by (simp add: connected_def)
qed

lemma place_client_members:
  "length (place_client c cs) = length cs" "d \<in> set (place_client c cs) \<Longrightarrow> d = c \<or> d \<in> set cs"
  "d \<in> set cs \<Longrightarrow> 0 \<le> mc_fd d \<Longrightarrow> d \<in> set (place_client c cs)"
  by (induction cs) (auto split: if_splits)

lemma place_client_distinct:
  assumes "distinct (open_fds cs)" and "mc_fd c \<notin> set (map mc_fd cs)"
  shows "distinct (open_fds (place_client c cs))"
  using assms
proof (induction cs)
  case (Cons x cs)
  show ?case
  proof (cases "0 \<le> mc_fd x")
    case True
    have "mc_fd d \<noteq> mc_fd x" if "d \<in> set (place_client c cs)" "0 \<le> mc_fd d" for d
    proof -
      have "mc_fd x \<notin> mc_fd ` {d \<in> set cs. 0 \<le> mc_fd d}" using Cons.prems(1) True by (simp add: open_fds_def)
      then have "d \<in> set cs \<Longrightarrow> mc_fd d \<noteq> mc_fd x" using that(2) by (metis (mono_tags, lifting) imageI mem_Collect_eq)
      then show ?thesis using place_client_members(2) [OF that(1)] Cons.prems(2) by auto
    qed
    then have "mc_fd x \<notin> mc_fd ` {d \<in> set (place_client c cs). 0 \<le> mc_fd d}"
      by (metis (mono_tags, lifting) imageE mem_Collect_eq)
    moreover have "distinct (open_fds (place_client c cs))"
      using Cons.IH Cons.prems by (simp add: open_fds_def split: if_splits)
    ultimately show ?thesis using True by (simp add: open_fds_def)
  qed (use Cons.prems in \<open>auto simp: open_fds_def\<close>)
qed (simp add: open_fds_def)

lemma accept_inv: "leases_inv s \<Longrightarrow> leases_inv (accept_client r s) \<and> dm_running (accept_client r s) = dm_running s"
proof -
  assume inv: "leases_inv s"
  show ?thesis
  proof (cases "accept_client r s = s")
    case False
    then obtain fd kind where f: "ri_accepted r = Some (fd, kind)" "0 \<le> fd" "fd \<notin> set (map mc_fd (dm_clients s))"
      by (auto simp: accept_client_def split: option.splits if_splits)
    define c where "c = \<lparr>mc_fd = fd, mc_kind = kind, mc_deadline = ri_now r + 2000\<rparr>"
    have p: "accept_client r s = s\<lparr>dm_clients := place_client c (dm_clients s)\<rparr>"
      using f by (simp add: accept_client_def c_def)
    have facts: "length (place_client c (dm_clients s)) = length (dm_clients s)" "distinct (open_fds (place_client c (dm_clients s)))"
      "{d \<in> set (dm_clients s). 0 \<le> mc_fd d} \<subseteq> set (place_client c (dm_clients s))"
      using place_client_members place_client_distinct [of "dm_clients s" c] inv f by (auto simp: leases_inv_def c_def)
    have "connected (dm_clients s) k owner \<Longrightarrow> connected (place_client c (dm_clients s)) k owner" for k owner
      using facts(3) unfolding connected_def by fastforce
    then show ?thesis using p facts(1,2) inv by (simp add: leases_inv_def)
  qed (use inv in simp)
qed

lemma turn_inv:
  assumes inv: "leases_inv s" and "dm_running s" and "i < CLIENTS" and tidy: "dc_unlink_new (ti_calls t)"
  shows "mdnsd_inv (client_turn now i t s)"
proof -
  define c where "c = dm_clients s ! i"
  have c: "c \<in> set (dm_clients s)" using inv assms(3) by (simp add: c_def leases_inv_def)
  obtain s1 reply bad where r: "receive t c s = (s1, reply, bad)" by (rule prod_cases3)
  show ?thesis
  proof (cases "0 \<le> mc_fd c")
    case True
    note r1 = receive_inv [OF inv c True tidy r]
    then have i1: "leases_inv s1" "dm_clients s1 = dm_clients s" by auto
    then have ok: "lease_ok esphome_doc ''esphome'' (dm_lease s1) (dm_dir s1)"
        "lease_ok sendspin_doc ''sendspin'' (dm_sendspin s1) (dm_dir s1)"
      and con: "connected (dm_clients s) OWNER_ESPHOME (ml_owner (dm_lease s1))"
        "connected (dm_clients s) OWNER_SENDSPIN (ml_owner (dm_sendspin s1))"
      and len: "length (dm_clients s) = CLIENTS" and dis: "distinct (open_fds (dm_clients s))"
      by (auto simp: leases_inv_def)
    define w where "w = (withdraw_owned (ti_withdraw t) (mc_fd c) s1)\<lparr>dm_clients := (dm_clients s)[i := no_client]\<rparr>"
    have both: "\<not> (ml_owner (dm_lease s1) = mc_fd c \<and> ml_owner (dm_sendspin s1) = mc_fd c)"
      using con True same_client [OF dis] unfolding connected_def by (metis owner_kind.distinct(5))
    have "mdnsd_inv w"
    proof (cases "owned_kind (mc_fd c) s1")
      case OWNER_NONE
      then have "ml_owner (dm_lease s1) \<noteq> mc_fd c" "ml_owner (dm_sendspin s1) \<noteq> mc_fd c"
        by (auto simp: owned_kind_def split: if_splits)
      then show ?thesis
        using OWNER_NONE ok con len free_place [OF dis, of i] connected_free [of "dm_clients s" _ _ i]
        by (simp add: w_def withdraw_owned_def mdnsd_inv_def leases_inv_def c_def)
    next
      case OWNER_ESPHOME
      then have o: "ml_owner (dm_lease s1) = mc_fd c" by (auto simp: owned_kind_def split: if_splits)
      obtain fin lease d where wd: "le_mdns_lease_withdraw (ti_withdraw t) (mc_fd c) (dm_lease s1) (dm_dir s1) = (fin, lease, d)"
        by (rule prod_cases3)
      show ?thesis
      proof (cases fin)
        case True
        note l = withdraw_lease_ok [OF wd [unfolded eqTrueI [OF True]] ok(1)]
        have "services ''sendspin'' d = services ''sendspin'' (dm_dir s1)"
          using withdraw_other [OF wd, of "''sendspin''" "''esphome''"] lease_ok_name [OF ok(1)] by auto
        then show ?thesis
          using OWNER_ESPHOME wd True l o both len free_place [OF dis, of i] connected_free [OF con(2), of i]
            lease_ok_services [OF ok(2)]
          by (simp add: w_def withdraw_owned_def mdnsd_inv_def leases_inv_def c_def connected_def)
      qed (use OWNER_ESPHOME wd in \<open>simp add: w_def withdraw_owned_def mdnsd_inv_def\<close>)
    next
      case OWNER_SENDSPIN
      then have o: "ml_owner (dm_sendspin s1) = mc_fd c" "ml_owner (dm_lease s1) \<noteq> mc_fd c"
        by (auto simp: owned_kind_def split: if_splits)
      obtain fin lease d where wd: "le_mdns_lease_withdraw (ti_withdraw t) (mc_fd c) (dm_sendspin s1) (dm_dir s1) = (fin, lease, d)"
        by (rule prod_cases3)
      show ?thesis
      proof (cases fin)
        case True
        note l = withdraw_lease_ok [OF wd [unfolded eqTrueI [OF True]] ok(2)]
        have "services ''esphome'' d = services ''esphome'' (dm_dir s1)"
          using withdraw_other [OF wd, of "''esphome''" "''sendspin''"] lease_ok_name [OF ok(2)] by auto
        then show ?thesis
          using OWNER_SENDSPIN wd True l o len free_place [OF dis, of i] connected_free [OF con(1), of i]
            lease_ok_services [OF ok(1)]
          by (simp add: w_def withdraw_owned_def mdnsd_inv_def leases_inv_def c_def connected_def)
      qed (use OWNER_SENDSPIN wd in \<open>simp add: w_def withdraw_owned_def mdnsd_inv_def\<close>)
    qed
    moreover have "mdnsd_inv s1" using i1 by (simp add: mdnsd_inv_def)
    moreover have "client_turn now i t s \<in> {s1, w}"
      using True unfolding client_turn_def c_def [symmetric] Let_def w_def by (auto simp: r)
    ultimately show ?thesis by auto
  next
    case False
    then show ?thesis using inv by (simp add: client_turn_def c_def [symmetric] mdnsd_inv_def)
  qed
qed

section \<open>All rounds\<close>

text \<open>
  The one call whose failure would leave a service behind, and whose result the code ignores, is the
  removal of a new file when the old one could not be removed; in a tidy round it works.
\<close>

definition tidy_turn :: "turn_input \<Rightarrow> turn_input" where
  "tidy_turn t = t\<lparr>ti_calls := (ti_calls t)\<lparr>dc_unlink_new := True\<rparr>\<rparr>"

definition tidy_round :: "round_input \<Rightarrow> round_input" where
  "tidy_round r = r\<lparr>ri_turns := map tidy_turn (ri_turns r)\<rparr>"

definition mdnsd_step :: "mdnsd \<Rightarrow> round_input \<Rightarrow> mdnsd" where
  "mdnsd_step s r = mdnsd_round s (tidy_round r)"

definition mdnsd_start :: "mdnsd \<Rightarrow> bool" where
  "mdnsd_start s \<longleftrightarrow> (\<exists>works d d0. clear_stale works d = (True, d0) \<and> s = mdnsd_init d0)"

lemma receive_running: "receive t c s = (s1, reply, bad) \<Longrightarrow> dm_running s1 = dm_running s"
  by (erule receive_cases; (erule answer_sendspin_cases answer_esphome_cases)?; simp)

lemma withdraw_stopped: "\<not> dm_running s \<Longrightarrow> \<not> dm_running (withdraw_owned works fd s)"
  by (auto simp: withdraw_owned_def split: owner_kind.split prod.split)

lemma turn_stopped: "\<not> dm_running s \<Longrightarrow> \<not> dm_running (client_turn now i t s)"
  unfolding client_turn_def Let_def
  by (cases "receive t (dm_clients s ! i) s") (auto simp: receive_running withdraw_stopped)

lemma turns_inv:
  "mdnsd_inv s \<Longrightarrow> \<forall>i\<in>set is. i < CLIENTS \<and> dc_unlink_new (ti_calls (turns ! i)) \<Longrightarrow>
     mdnsd_inv (fold (\<lambda>i s. client_turn now i (turns ! i) s) is s)"
proof (induction "is" arbitrary: s)
  case (Cons i "is")
  have "mdnsd_inv (client_turn now i (turns ! i) s)"
  proof (cases "dm_running s")
    case True
    then show ?thesis using Cons.prems turn_inv by (simp add: mdnsd_inv_def)
  qed (simp add: mdnsd_inv_def turn_stopped)
  then show ?case using Cons by simp
qed simp

lemma step_inv: "mdnsd_inv s \<Longrightarrow> mdnsd_inv (mdnsd_step s r)"
proof (cases "dm_running s")
  case True
  assume "mdnsd_inv s"
  then have "mdnsd_inv (accept_client (tidy_round r) s)" using True accept_inv by (simp add: mdnsd_inv_def)
  then show ?thesis using True unfolding mdnsd_step_def mdnsd_round_def
    by (simp add: turns_inv tidy_round_def tidy_turn_def)
qed (simp add: mdnsd_step_def mdnsd_round_def)

lemma stale_services:
  assumes "clear_stale works d = (True, d0)"
  shows "services ''esphome'' d0 = Map.empty \<and> services ''sendspin'' d0 = Map.empty"
proof -
  have "stale_name (service_name ''esphome'' n)" "stale_name (service_name ''sendspin'' n)" for n
    by (simp_all add: stale_name_def service_name_def)
  moreover have "d0 x = None" if "stale_name x" for x
    using assms that by (cases "x \<in> dom d") (auto simp: clear_stale_def split: if_splits)
  ultimately show ?thesis by (auto simp: services_def fun_eq_iff)
qed

lemma start_inv: "mdnsd_start s \<Longrightarrow> mdnsd_inv s"
proof -
  assume "mdnsd_start s"
  then obtain works d d0 where "clear_stale works d = (True, d0)" and s: "s = mdnsd_init d0" by (auto simp: mdnsd_start_def)
  then have "services ''esphome'' d0 = Map.empty" "services ''sendspin'' d0 = Map.empty" using stale_services by blast+
  moreover have "open_fds (replicate CLIENTS no_client) = []" by (simp add: open_fds_def no_client_def)
  ultimately show ?thesis
    by (simp add: s mdnsd_init_def mdnsd_inv_def leases_inv_def lease_ok_def lease_files_def le_mdns_lease_init_def connected_def)
qed

interpretation mdnsd: machine mdnsd_start mdnsd_step mdnsd_inv
  by unfold_locales (simp_all add: start_inv step_inv)

text \<open>What is published under a prefix, and by whom.\<close>

definition published_by :: "(string \<Rightarrow> bool) \<Rightarrow> string \<Rightarrow> owner_kind \<Rightarrow> le_mdns_lease \<Rightarrow> mdnsd \<Rightarrow> bool" where
  "published_by P p kind lease s \<longleftrightarrow>
     (if ml_owner lease < 0 then services p (dm_dir s) = Map.empty
      else (\<exists>c\<in>set (dm_clients s). mc_fd c = ml_owner lease \<and> mc_kind c = kind) \<and>
        (\<exists>xml. services p (dm_dir s) = [ml_filename lease \<mapsto> xml] \<and> P xml))"

lemma lease_ok_published:
  "lease_ok P p lease (dm_dir s) \<Longrightarrow> connected (dm_clients s) kind (ml_owner lease) \<Longrightarrow> published_by P p kind lease s"
  by (auto simp: lease_ok_def lease_files_def connected_def published_by_def split: if_splits)

lemma shutdown_empty:
  assumes "lease_ok P p lease d" and "le_mdns_lease_withdraw True (ml_owner lease) lease d = (ok, lease', d')"
  shows "services p d' = Map.empty"
proof (cases "ml_filename lease = []")
  case True
  then show ?thesis using assms by (auto simp: lease_ok_def lease_files_def le_mdns_lease_withdraw_def)
next
  case False
  then have "0 \<le> ml_owner lease" using assms(1) by (simp add: lease_ok_def)
  then have "ok" "ml_filename lease' = []" using assms(2) False by (auto simp: le_mdns_lease_withdraw_def unlinkat_works)
  then show ?thesis using withdraw_lease_ok [OF _ assms(1), of True "ml_owner lease" lease' d'] assms(2)
    by (auto simp: lease_ok_def lease_files_def)
qed


text \<open>
  C40. A record is withdrawn with its owner: when a connection keeps a lease through its turn, the
  process that made it was still there at the end of the turn and the connection was not hung up.
\<close>

theorem mdns_owner_checked:
  assumes "mdnsd_start s" and t: "t = run mdnsd_step s rounds" and "dm_running t" and "i < CLIENTS"
    and tidy: "dc_unlink_new (ti_calls inp)"
    and c: "c = dm_clients t ! i" "0 \<le> mc_fd c"
    and u: "u = client_turn now i inp t" "dm_running u"
    and owner: "ml_owner (dm_lease u) = mc_fd c \<or> ml_owner (dm_sendspin u) = mc_fd c"
  shows "ti_alive_end inp \<and> \<not> ti_hangup inp \<and> dm_clients u ! i = c"
proof -
  have inv: "leases_inv t" using mdnsd.inv_from_start [OF assms(1)] assms(3) unfolding t mdnsd_inv_def by blast
  have mem: "c \<in> set (dm_clients t)" using inv assms(4) c by (simp add: leases_inv_def)
  obtain s1 reply bad where r: "receive inp c t = (s1, reply, bad)" by (rule prod_cases3)
  have i1: "leases_inv s1" "dm_clients s1 = dm_clients t" using receive_inv [OF inv mem c(2) tidy r] by auto
  have dis: "distinct (open_fds (dm_clients s1))" and con: "connected (dm_clients s1) OWNER_ESPHOME (ml_owner (dm_lease s1))"
    "connected (dm_clients s1) OWNER_SENDSPIN (ml_owner (dm_sendspin s1))" using i1 by (auto simp: leases_inv_def)
  have both: "\<not> (ml_owner (dm_lease s1) = mc_fd c \<and> ml_owner (dm_sendspin s1) = mc_fd c)"
    using con c(2) same_client [OF dis] unfolding connected_def by (metis owner_kind.distinct(5))
  define w where "w = (withdraw_owned (ti_withdraw inp) (mc_fd c) s1)\<lparr>dm_clients := (dm_clients t)[i := no_client]\<rparr>"
  have gone: "ml_owner (dm_lease w) \<noteq> mc_fd c \<and> ml_owner (dm_sendspin w) \<noteq> mc_fd c" if "dm_running w"
  proof -
    have "le_mdns_lease_withdraw x f l d = (True, l', d') \<Longrightarrow> ml_owner l' = - 1" for x f l d l' d'
      by (auto simp: le_mdns_lease_withdraw_def split: if_splits prod.splits)
    then show ?thesis using that both c(2) unfolding w_def withdraw_owned_def owned_kind_def
      by (auto split: if_splits prod.splits)
  qed
  have turn: "u = (if bad \<or> ti_hangup inp \<or>
      (owned_kind (mc_fd c) s1 \<noteq> OWNER_NONE \<and> \<not> peer_still_owner (ti_alive_end inp) c (owned_kind (mc_fd c) s1)) \<or>
      (owned_kind (mc_fd c) s1 = OWNER_NONE \<and> mc_deadline c \<le> now) then w else s1)"
    using c(2) unfolding u(1) client_turn_def c(1) [symmetric] w_def Let_def r by simp
  then have "u = s1" "\<not> ti_hangup inp"
    "owned_kind (mc_fd c) s1 = OWNER_NONE \<or> peer_still_owner (ti_alive_end inp) c (owned_kind (mc_fd c) s1)"
    using gone u(2) owner by (auto split: if_splits)
  moreover have "owned_kind (mc_fd c) u \<noteq> OWNER_NONE" using owner by (auto simp: owned_kind_def)
  ultimately show ?thesis using i1(2) c(1) by (auto simp: peer_still_owner_def)
qed

section \<open>At concrete inputs\<close>

text \<open>The kitchen registers over a connection accepted in the round before.\<close>

definition calls_work :: directory_calls where
  "calls_work = \<lparr>dc_open = True, dc_written = 5000, dc_sync = True, dc_close = True, dc_link = True, dc_unlink_old = True,
     dc_unlink_new = True, dc_unlink_temp = True\<rparr>"

definition kitchen_calls :: turn_input where
  "kitchen_calls = \<lparr>ti_message = Some (le_mdns_esphome_encode LE_MDNS_ESPHOME_PACKET_MAX 6053 kitchen), ti_hangup = False,
     ti_alive_message = True, ti_alive_end = True, ti_ready = True, ti_calls = calls_work, ti_withdraw = True\<rparr>"

definition kitchen_connects :: round_input where
  "kitchen_connects = \<lparr>ri_now = 100, ri_accepted = Some (7, OWNER_ESPHOME), ri_turns = []\<rparr>"

definition kitchen_client :: mdns_client where
  "kitchen_client = \<lparr>mc_fd = 7, mc_kind = OWNER_ESPHOME, mc_deadline = 2100\<rparr>"

lemma kitchen_start: "mdnsd_start (mdnsd_init Map.empty)"
proof -
  have "clear_stale (\<lambda>_. True) Map.empty = (True, Map.empty)" by (simp add: clear_stale_def fun_eq_iff)
  then show ?thesis unfolding mdnsd_start_def by blast
qed

lemma kitchen_connected:
  "run mdnsd_step (mdnsd_init Map.empty) [kitchen_connects] =
     (mdnsd_init Map.empty)\<lparr>dm_clients := [kitchen_client, no_client, no_client, no_client]\<rparr>"
  by (simp add: mdnsd_step_def mdnsd_round_def tidy_round_def kitchen_connects_def mdnsd_init_def accept_client_def
      kitchen_client_def no_client_def CLIENTS_def eval_nat_numeral)

lemma kitchen_turn:
  defines "t \<equiv> (mdnsd_init Map.empty)\<lparr>dm_clients := [kitchen_client, no_client, no_client, no_client]\<rparr>"
  shows "dm_running (client_turn 200 0 kitchen_calls t) \<and> ml_owner (dm_lease (client_turn 200 0 kitchen_calls t)) = 7"
proof -
  obtain message where m: "le_mdns_esphome_encode LE_MDNS_ESPHOME_PACKET_MAX 6053 kitchen = Some message"
    "le_mdns_esphome_decode message = Some (6053, kitchen)"
    using esphome_round_trip [of 6053, OF _ _ kitchen_valid] by auto
  obtain xml where x: "write_pieces 4096 [] (esphome_pieces 6053 kitchen) = Some xml"
    using esphome_document [OF _ kitchen_valid, of 6053] by auto
  have "length xml < 4096" using x write_pieces_exact [of "[]" 4096 "esphome_pieces 6053 kitchen"] by (auto split: if_splits)
  then have "\<exists>lease d. le_mdns_lease_register_esphome calls_work 7 6053 kitchen le_mdns_lease_init Map.empty = (True, lease, d) \<and> ml_owner lease = 7"
    using service_names(2)
    by (simp add: le_mdns_lease_register_esphome_def kitchen_valid lease_taken_def le_mdns_lease_init_def ULONG_MAX_def x
        publish_def calls_work_def Let_def)
  then obtain lease d where r: "le_mdns_lease_register_esphome calls_work 7 6053 kitchen le_mdns_lease_init Map.empty = (True, lease, d)"
    and o: "ml_owner lease = 7" by blast
  have f: "\<exists>r. framed ''ESPHOME/1 '' 12 LE_MDNS_ESPHOME_PACKET_MAX message = Some (6053, r)"
    using m(2) by (auto simp: le_mdns_esphome_decode_def split: option.splits if_splits)
  then obtain rest where "butlast message = ''ESPHOME/1 '' @ rest"
    by (auto simp: framed_def strip_prefix_Some split: if_splits option.splits)
  then have e: "hd message = CHR ''E''" "message \<noteq> []" by (cases message; auto split: if_splits)+
  then have "message \<noteq> reply_line ''STATUS/1''" "strip_prefix ''SENDSPIN/1 '' message = None"
    by (cases message; simp add: reply_line_def)+
  then have "receive kitchen_calls kitchen_client t =
      (t\<lparr>dm_lease := lease, dm_dir := d\<rparr>, reply_line ''pending'', False)"
    using m r by (simp add: receive_def kitchen_calls_def handle_message_def answer_esphome_def peer_still_owner_def
        kitchen_client_def t_def mdnsd_init_def)
  then show ?thesis using o
    by (simp add: client_turn_def t_def kitchen_client_def owned_kind_def peer_still_owner_def kitchen_calls_def mdnsd_init_def)
qed


theorem mdns_owner_checked_witness:
  "dm_clients (client_turn 200 0 kitchen_calls (run mdnsd_step (mdnsd_init Map.empty) [kitchen_connects])) ! 0 = kitchen_client"
  using mdns_owner_checked [OF kitchen_start refl, of "[kitchen_connects]" 0 kitchen_calls kitchen_client _ 200]
    kitchen_turn unfolding kitchen_connected
  by (simp add: mdnsd_init_def CLIENTS_def kitchen_calls_def calls_work_def kitchen_client_def)

end
