(* ===== verification/Ws_Stream.thy ===== *)
theory Ws_Stream
  imports C_Text "HOL-Library.Sublist"
begin

text \<open>
  The byte stream under the WebSocket client (src/adapter/ws_client.c): the loops that read an exact
  number of bytes, write all of a buffer and collect random bytes, against a stream and a clock that
  answer as they like.

  The answers are scripts.  A script that has run out answers with an error and a clock that has run out
  cannot be read, which \<^verbatim>\<open>monotonic_ms\<close> reports as 0, so every run of the code that returns is a run of
  the model.  The world also records what was read from and written to the stream.
\<close>

section \<open>The world\<close>

datatype recv_answer = Arrived bytes | Nothing_Yet | Recv_Broken
datatype send_answer = Took nat | Not_Now | Send_Broken
datatype random_answer = Random bytes | Interrupted | No_Random

record ws_world =
  ww_clock :: "nat list"
  ww_arrivals :: "recv_answer list"
  ww_accepts :: "send_answer list"
  ww_random :: "random_answer list"
  ww_read :: bytes
  ww_sent :: bytes

definition monotonic_ms :: "ws_world \<Rightarrow> nat \<times> ws_world" where
  "monotonic_ms w = (case ww_clock w of [] \<Rightarrow> (0, w) | t # ts \<Rightarrow> (t, w\<lparr>ww_clock := ts\<rparr>))"

lemma monotonic_ms_frame [simp, frame]:
  "ww_arrivals (snd (monotonic_ms w)) = ww_arrivals w" "ww_accepts (snd (monotonic_ms w)) = ww_accepts w"
  "ww_random (snd (monotonic_ms w)) = ww_random w" "ww_read (snd (monotonic_ms w)) = ww_read w"
  "ww_sent (snd (monotonic_ms w)) = ww_sent w"
  by (simp_all add: monotonic_ms_def split: list.split)

section \<open>The connection\<close>

definition LE_WS_MAX_PAYLOAD :: nat where "LE_WS_MAX_PAYLOAD = 64 * 1024"

text \<open>The two receive buffers with their fill levels are the lists of the bytes in use.\<close>

record le_ws =
  ws_urandom :: bool
  ws_connected :: bool
  ws_close_received :: bool
  ws_send_timeout_ms :: int
  ws_frames_in :: u64
  ws_frames_out :: u64
  ws_bytes_in :: u64
  ws_bytes_out :: u64
  ws_read_header :: bytes
  ws_read_payload :: bytes

section \<open>Reading an exact number of bytes\<close>

datatype read_outcome = Read_Done | Read_Error | Read_Timeout | Read_Closed

text \<open>
  One call of the stream's \<^verbatim>\<open>recv\<close> for at most \<open>n\<close> bytes: what arrived beyond them stays for the next
  call, and an arrival of no bytes is the end of the stream.
\<close>

fun ws_recv :: "nat \<Rightarrow> ws_world \<Rightarrow> (recv_answer \<times> ws_world)" where
  "ws_recv n w =
     (case ww_arrivals w of
        [] \<Rightarrow> (Recv_Broken, w)
      | Arrived bs # as \<Rightarrow>
          (Arrived (take n bs),
           w\<lparr>ww_arrivals := (if n < length bs then Arrived (drop n bs) # as else as), ww_read := ww_read w @ take n bs\<rparr>)
      | a # as \<Rightarrow> (a, w\<lparr>ww_arrivals := as\<rparr>))"

declare ws_recv.simps [simp del]

fun answer_size :: "recv_answer \<Rightarrow> nat" where
  "answer_size (Arrived bs) = Suc (length bs)"
| "answer_size a = 1"

definition unread :: "ws_world \<Rightarrow> nat" where
  "unread w = sum_list (map answer_size (ww_arrivals w))"

lemma ws_recv_unread:
  "ws_recv n w = (Arrived bs, w') \<Longrightarrow> bs \<noteq> [] \<Longrightarrow> unread w' + length bs \<le> unread w"
  "ws_recv n w = (Nothing_Yet, w') \<Longrightarrow> unread w' < unread w"
  by (auto simp: ws_recv.simps unread_def split: list.splits recv_answer.splits if_splits)

lemma unread_clock [simp]: "unread (snd (monotonic_ms w)) = unread w"
  by (simp add: unread_def)

function read_exact_progress :: "nat \<Rightarrow> nat \<Rightarrow> bytes \<Rightarrow> ws_world \<Rightarrow> read_outcome \<times> bytes \<times> ws_world" where
  "read_exact_progress len deadline buf w =
     (if len \<le> length buf then (Read_Done, buf, w)
      else
        case ws_recv (len - length buf) w of
          (Arrived bs, w1) \<Rightarrow>
            if bs = [] then (Read_Closed, buf, w1) else read_exact_progress len deadline (buf @ bs) w1
        | (Recv_Broken, w1) \<Rightarrow> (Read_Error, buf, w1)
        | (Nothing_Yet, w1) \<Rightarrow>
            let (now, w2) = monotonic_ms w1
            in if deadline \<le> now then (Read_Timeout, buf, w2) else read_exact_progress len deadline buf w2)"
  by pat_completeness auto
termination
proof (relation "measure (\<lambda>(len, deadline, buf, w). len - length buf + unread w)", goal_cases)
  case (2 len deadline buf w a w1 bs)
  then have "ws_recv (len - length buf) w = (Arrived bs, w1)" by simp
  from ws_recv_unread(1) [OF this 2(4)] 2 show ?case by (cases bs) simp_all
next
  case (3 len deadline buf w a w1 q now w2)
  then have r: "ws_recv (len - length buf) w = (Nothing_Yet, w1)" by simp
  have "monotonic_ms w1 = (now, w2)" using 3 by simp
  then have "unread w2 = unread w1" using unread_clock [of w1] by simp
  then show ?case using ws_recv_unread(2) [OF r] by simp
qed simp

declare read_exact_progress.simps [simp del]

section \<open>Writing all of a buffer\<close>

function write_loop :: "nat \<Rightarrow> bytes \<Rightarrow> ws_world \<Rightarrow> bool \<times> ws_world" where
  "write_loop deadline buf w =
     (if buf = [] then (True, w)
      else
        case ww_accepts w of
          [] \<Rightarrow> (False, snd (monotonic_ms w))
        | a # as \<Rightarrow>
            let w1 = w\<lparr>ww_accepts := as\<rparr>
            in case a of
                 Took n \<Rightarrow>
                   if n = 0 then (False, w1)
                   else write_loop deadline (drop n buf) (w1\<lparr>ww_sent := ww_sent w @ take n buf\<rparr>)
               | Not_Now \<Rightarrow>
                   let (now, w2) = monotonic_ms w1
                   in if deadline \<le> now then (False, w2) else write_loop deadline buf w2
               | Send_Broken \<Rightarrow> (False, snd (monotonic_ms w1)))"
  by pat_completeness auto
termination
proof (relation "measure (\<lambda>(deadline, buf, w). length (ww_accepts w))", goal_cases)
  case (3 deadline buf w a as w1 now w2)
  then show ?case using monotonic_ms_frame(2) [of w1] by (simp add: prod_eq_iff)
qed simp_all

declare write_loop.simps [simp del]

definition write_all :: "le_ws \<Rightarrow> bytes \<Rightarrow> ws_world \<Rightarrow> bool \<times> ws_world" where
  "write_all ws buf w =
     (let (now, w1) = monotonic_ms w
      in write_loop (now + nat (if 0 < ws_send_timeout_ms ws then ws_send_timeout_ms ws else 5000)) buf w1)"

section \<open>Random bytes\<close>

fun random_loop :: "nat \<Rightarrow> bytes \<Rightarrow> random_answer list \<Rightarrow> bytes option \<times> random_answer list" where
  "random_loop len out [] = (if len \<le> length out then Some out else None, [])"
| "random_loop len out (a # as) =
     (if len \<le> length out then (Some out, a # as)
      else
        case a of
          Interrupted \<Rightarrow> random_loop len out as
        | No_Random \<Rightarrow> (None, as)
        | Random bs \<Rightarrow>
            (case take (len - length out) bs of [] \<Rightarrow> (None, as) | b # more_bytes \<Rightarrow> random_loop len (out @ b # more_bytes) as))"

definition random_bytes :: "le_ws \<Rightarrow> nat \<Rightarrow> ws_world \<Rightarrow> bytes option \<times> ws_world" where
  "random_bytes ws len w =
     (if \<not> ws_urandom ws then (None, w)
      else let (out, as) = random_loop len [] (ww_random w) in (out, w\<lparr>ww_random := as\<rparr>))"

section \<open>What the loops do\<close>

lemma random_loop_length: "random_loop len out as = (Some r, as') \<Longrightarrow> length out \<le> len \<Longrightarrow> length r = len"
  by (induction len out as rule: random_loop.induct)
    (fastforce split: if_splits random_answer.splits list.splits dest: arg_cong [of _ _ length])+

lemma random_bytes_length: "random_bytes ws len w = (Some r, w') \<Longrightarrow> length r = len"
  by (auto simp: random_bytes_def split: if_splits prod.splits dest: random_loop_length)

lemma random_bytes_frame [simp, frame]:
  "ww_arrivals (snd (random_bytes ws n w)) = ww_arrivals w" "ww_read (snd (random_bytes ws n w)) = ww_read w"
  "ww_sent (snd (random_bytes ws n w)) = ww_sent w"
  by (simp_all add: random_bytes_def split: prod.split)

lemma write_loop_effect:
  "write_loop deadline buf w = (ok, w') \<Longrightarrow>
   ww_arrivals w' = ww_arrivals w \<and> ww_read w' = ww_read w \<and> ww_random w' = ww_random w \<and>
   (\<exists>p. prefix p buf \<and> ww_sent w' = ww_sent w @ p \<and> (ok \<longrightarrow> p = buf))"
proof (induction deadline buf w arbitrary: ok w' rule: write_loop.induct)
  case (1 deadline buf w)
  show ?case
  proof (cases "buf = []")
    case True
    then show ?thesis using 1(3) by (subst (asm) write_loop.simps) simp
  next
    case ne: False
    show ?thesis
    proof (cases "ww_accepts w")
      case Nil
      then show ?thesis using 1(3) ne by (subst (asm) write_loop.simps) auto
    next
      case (Cons a as)
      define w1 where "w1 = w\<lparr>ww_accepts := as\<rparr>"
      show ?thesis
      proof (cases a)
        case (Took n)
        show ?thesis
        proof (cases "n = 0")
          case True
          then show ?thesis using 1(3) ne Cons Took by (subst (asm) write_loop.simps) auto
        next
          case False
          then have step: "write_loop deadline (drop n buf) (w1\<lparr>ww_sent := ww_sent w @ take n buf\<rparr>) = (ok, w')"
            using 1(3) ne Cons Took by (subst (asm) write_loop.simps) (simp add: w1_def)
          from 1(1) [OF ne Cons w1_def Took False step] obtain p where
            p: "prefix p (drop n buf)" "ww_sent w' = ww_sent w @ take n buf @ p" "ok \<longrightarrow> p = drop n buf"
              "ww_arrivals w' = ww_arrivals w" "ww_read w' = ww_read w" "ww_random w' = ww_random w"
            by (auto simp: w1_def)
          from p(1) obtain q where "drop n buf = p @ q" by (auto simp: prefix_def)
          then have "prefix (take n buf @ p) buf" by (metis append_assoc append_take_drop_id prefixI)
          moreover have "ok \<longrightarrow> take n buf @ p = buf" using p(3) by simp
          ultimately show ?thesis using p by blast
        qed
      next
        case Not_Now
        obtain now w2 where m: "monotonic_ms w1 = (now, w2)" by fastforce
        have fr: "ww_arrivals w2 = ww_arrivals w" "ww_read w2 = ww_read w" "ww_random w2 = ww_random w" "ww_sent w2 = ww_sent w"
          using monotonic_ms_frame [of w1, unfolded m snd_conv] by (simp_all add: w1_def)
        show ?thesis
        proof (cases "deadline \<le> now")
          case True
          then have "ok = False \<and> w' = w2"
            using 1(3) ne Cons Not_Now m by (subst (asm) write_loop.simps) (simp add: w1_def)
          then show ?thesis using fr by auto
        next
          case False
          then have "write_loop deadline buf w2 = (ok, w')"
            using 1(3) ne Cons Not_Now m by (subst (asm) write_loop.simps) (simp add: w1_def)
          from 1(2) [OF ne Cons w1_def Not_Now m [symmetric] refl False this] show ?thesis using fr by simp
        qed
      next
        case Send_Broken
        then have "ok = False \<and> w' = snd (monotonic_ms w1)"
          using 1(3) ne Cons by (subst (asm) write_loop.simps) (simp add: w1_def)
        then show ?thesis by (auto simp: w1_def)
      qed
    qed
  qed
qed

lemma write_all_effect:
  assumes "write_all ws buf w = (ok, w')"
  shows "ww_arrivals w' = ww_arrivals w" "ww_read w' = ww_read w" "ww_random w' = ww_random w"
    "\<exists>p. prefix p buf \<and> ww_sent w' = ww_sent w @ p \<and> (ok \<longrightarrow> p = buf)"
proof -
  obtain now w1 where m: "monotonic_ms w = (now, w1)" by fastforce
  have e: "write_loop (now + nat (if 0 < ws_send_timeout_ms ws then ws_send_timeout_ms ws else 5000)) buf w1 = (ok, w')"
    using assms m by (simp add: write_all_def)
  note fr = monotonic_ms_frame [of w, unfolded m snd_conv]
  show "ww_arrivals w' = ww_arrivals w" "ww_read w' = ww_read w" "ww_random w' = ww_random w"
    "\<exists>p. prefix p buf \<and> ww_sent w' = ww_sent w @ p \<and> (ok \<longrightarrow> p = buf)"
    using write_loop_effect [OF e] fr by auto
qed

text \<open>Everything taken from the stream is in the buffer, in order.\<close>

lemma ws_recv_effect:
  assumes "ws_recv n w = (a, w')"
  shows "ww_sent w' = ww_sent w" "ww_random w' = ww_random w" "ww_accepts w' = ww_accepts w"
    "\<And>bs. a = Arrived bs \<Longrightarrow> ww_read w' = ww_read w @ bs \<and> length bs \<le> n"
    "unread w' \<le> unread w"
    "(\<forall>bs. a \<noteq> Arrived bs) \<Longrightarrow> ww_read w' = ww_read w"
  using assms by (auto simp: ws_recv.simps unread_def split: list.splits recv_answer.splits if_splits)

lemma read_exact_progress_effect:
  "read_exact_progress len deadline buf w = (r, buf', w') \<Longrightarrow>
   \<exists>d. buf' = buf @ d \<and> ww_read w' = ww_read w @ d \<and> ww_sent w' = ww_sent w \<and> ww_random w' = ww_random w \<and>
     ww_accepts w' = ww_accepts w \<and> unread w' + length d \<le> unread w \<and>
     (r = Read_Done \<longleftrightarrow> len \<le> length buf') \<and> (length buf \<le> len \<longrightarrow> length buf' \<le> len) \<and>
     (len \<le> length buf \<longrightarrow> d = [])"
proof (induction len deadline buf w arbitrary: r buf' w' rule: read_exact_progress.induct)
  case (1 len deadline buf w)
  show ?case
  proof (cases "len \<le> length buf")
    case True
    then show ?thesis using 1(3) by (subst (asm) read_exact_progress.simps) auto
  next
    case more: False
    obtain a w1 where rc: "ws_recv (len - length buf) w = (a, w1)" by fastforce
    note fr = ws_recv_effect [OF rc]
    show ?thesis
    proof (cases a)
      case (Arrived bs)
      show ?thesis
      proof (cases "bs = []")
        case True
        then have "r = Read_Closed \<and> buf' = buf \<and> w' = w1"
          using 1(3) more rc Arrived by (subst (asm) read_exact_progress.simps) simp
        then show ?thesis using fr(1-5) Arrived True more by auto
      next
        case False
        then have "read_exact_progress len deadline (buf @ bs) w1 = (r, buf', w')"
          using 1(3) more rc Arrived by (subst (asm) read_exact_progress.simps) simp
        from 1(1) [OF more rc [symmetric] Arrived False this] obtain d where
          d: "buf' = (buf @ bs) @ d" "ww_read w' = ww_read w1 @ d" "ww_sent w' = ww_sent w1" "ww_random w' = ww_random w1"
            "ww_accepts w' = ww_accepts w1" "unread w' + length d \<le> unread w1" "(r = Read_Done) = (len \<le> length buf')"
            "length (buf @ bs) \<le> len \<longrightarrow> length buf' \<le> len" by blast
        have "unread w1 + length bs \<le> unread w" using ws_recv_unread(1) rc Arrived False by blast
        moreover have "ww_read w1 = ww_read w @ bs" "length bs \<le> len - length buf" using fr(4) Arrived by blast+
        ultimately show ?thesis using d fr(1-3) more by (intro exI [of _ "bs @ d"]) simp
      qed
    next
      case Nothing_Yet
      obtain now w2 where m: "monotonic_ms w1 = (now, w2)" by fastforce
      note fm = monotonic_ms_frame [of w1, unfolded m snd_conv] unread_clock [of w1, unfolded m snd_conv]
      have rd: "ww_read w1 = ww_read w" using fr(6) Nothing_Yet by simp
      show ?thesis
      proof (cases "deadline \<le> now")
        case True
        then have "r = Read_Timeout \<and> buf' = buf \<and> w' = w2"
          using 1(3) more rc Nothing_Yet m by (subst (asm) read_exact_progress.simps) simp
        then show ?thesis using fr(1-3,5) fm rd more by auto
      next
        case False
        then have "read_exact_progress len deadline buf w2 = (r, buf', w')"
          using 1(3) more rc Nothing_Yet m by (subst (asm) read_exact_progress.simps) simp
        from 1(2) [OF more rc [symmetric] Nothing_Yet m [symmetric] refl False this] show ?thesis
          using fr(1-3,5) fm rd more by auto
      qed
    next
      case Recv_Broken
      then have "r = Read_Error \<and> buf' = buf \<and> w' = w1"
        using 1(3) more rc by (subst (asm) read_exact_progress.simps) simp
      then show ?thesis using fr(1-3,5,6) Recv_Broken more by auto
    qed
  qed
qed

end
