(* ===== verification/Ws_Frames.thy ===== *)
theory Ws_Frames
  imports Ws_Stream
begin

text \<open>
  The frames of the WebSocket client (src/adapter/ws_client.c): sending with a fresh mask, and reading
  that is resumed after a timeout.
\<close>

unbundle bit_operations_syntax

section \<open>Sending a frame\<close>

definition OPCODE_TEXT :: byte where "OPCODE_TEXT = 0x1"
definition OPCODE_CLOSE :: byte where "OPCODE_CLOSE = 0x8"
definition OPCODE_PING :: byte where "OPCODE_PING = 0x9"
definition OPCODE_PONG :: byte where "OPCODE_PONG = 0xA"

definition length_byte :: "nat \<Rightarrow> nat \<Rightarrow> byte" where
  "length_byte len shift = ucast (drop_bit shift (of_nat len :: u64))"

definition frame_header :: "byte \<Rightarrow> nat \<Rightarrow> bytes" where
  "frame_header opcode len =
     (0x80 OR opcode) #
     (if len < 126 then [0x80 OR of_nat len]
      else if len \<le> 0xffff then [0x80 OR 126, length_byte len 8, of_nat len]
      else (0x80 OR 127) # map (\<lambda>i. length_byte len (56 - i * 8)) [0..<8])"

definition masked :: "bytes \<Rightarrow> nat \<Rightarrow> bytes \<Rightarrow> bytes" where
  "masked key offset chunk = map (\<lambda>(i, b). b XOR key ! ((offset + i) mod 4)) (enumerate 0 chunk)"

function send_chunks :: "le_ws \<Rightarrow> bytes \<Rightarrow> bytes \<Rightarrow> nat \<Rightarrow> ws_world \<Rightarrow> bool \<times> ws_world" where
  "send_chunks ws key body offset w =
     (if length body \<le> offset then (True, w)
      else
        case write_all ws (masked key offset (take 512 (drop offset body))) w of
          (False, w1) \<Rightarrow> (False, w1)
        | (True, w1) \<Rightarrow> send_chunks ws key body (offset + 512) w1)"
  by pat_completeness auto
termination by (relation "measure (\<lambda>(ws, key, body, offset, w). length body - offset)") auto

declare send_chunks.simps [simp del]

definition send_frame :: "le_ws \<Rightarrow> byte \<Rightarrow> bytes \<Rightarrow> ws_world \<Rightarrow> bool \<times> le_ws \<times> ws_world" where
  "send_frame ws opcode payload w =
     (if \<not> ws_connected ws \<or> LE_WS_MAX_PAYLOAD < length payload then (False, ws, w)
      else
        case random_bytes ws 4 w of
          (None, w1) \<Rightarrow> (False, ws, w1)
        | (Some key, w1) \<Rightarrow>
            let header = frame_header opcode (length payload) @ key
            in case write_all ws header w1 of
                 (False, w2) \<Rightarrow> (False, ws, w2)
               | (True, w2) \<Rightarrow>
                   (case send_chunks ws key payload 0 w2 of
                      (False, w3) \<Rightarrow> (False, ws, w3)
                    | (True, w3) \<Rightarrow>
                        (True,
                         ws\<lparr>ws_frames_out := ws_frames_out ws + 1,
                            ws_bytes_out := ws_bytes_out ws + of_nat (length header + length payload)\<rparr>, w3)))"

definition le_ws_send_text :: "le_ws \<Rightarrow> bytes \<Rightarrow> ws_world \<Rightarrow> bool \<times> le_ws \<times> ws_world" where
  "le_ws_send_text ws payload w = send_frame ws OPCODE_TEXT payload w"

definition le_ws_send_close :: "le_ws \<Rightarrow> int \<Rightarrow> ws_world \<Rightarrow> bool \<times> le_ws \<times> ws_world" where
  "le_ws_send_close ws code w =
     (if \<not> ws_connected ws then (False, ws, w)
      else send_frame ws OPCODE_CLOSE [of_int (code div 256), of_int code] w)"

section \<open>Reading a frame\<close>

definition be_value :: "bytes \<Rightarrow> nat" where
  "be_value bs = foldl (\<lambda>v b. v * 256 + unat b) 0 bs"

text \<open>The bytes the header has in all, for its second byte, and the payload length it then gives.\<close>

definition header_size :: "byte \<Rightarrow> nat" where
  "header_size b = (if b AND 0x7f = 126 then 4 else if b AND 0x7f = 127 then 10 else 2)"

definition header_payload :: "bytes \<Rightarrow> nat" where
  "header_payload header =
     (let n = header ! 1 AND 0x7f
      in if n = 126 then be_value (take 2 (drop 2 header))
         else if n = 127 then be_value (take 8 (drop 2 header)) else unat n)"

definition is_fin :: "byte \<Rightarrow> bool" where "is_fin b \<longleftrightarrow> b AND 0x80 \<noteq> 0"
definition opcode_of :: "byte \<Rightarrow> byte" where "opcode_of b = b AND 0x0f"

definition read_body :: "nat \<Rightarrow> nat \<Rightarrow> le_ws \<Rightarrow> ws_world \<Rightarrow> read_outcome \<times> le_ws \<times> ws_world" where
  "read_body capacity deadline ws w =
     (let n = header_payload (ws_read_header ws); b0 = ws_read_header ws ! 0
      in if capacity < n then (Read_Error, ws, w)
         else
           case (if n = 0 then (Read_Done, ws_read_payload ws, w)
                 else read_exact_progress n deadline (ws_read_payload ws) w) of
             (Read_Done, payload, w1) \<Rightarrow>
               let ws1 = ws\<lparr>ws_read_payload := payload\<rparr>
               in if OPCODE_CLOSE \<le> opcode_of b0 \<and> (\<not> is_fin b0 \<or> 125 < n) then (Read_Error, ws1, w1)
                  else
                    let ws2 = ws1\<lparr>ws_frames_in := ws_frames_in ws + 1, ws_bytes_in := ws_bytes_in ws + of_nat n\<rparr>
                    in (if \<not> is_fin b0 \<and> opcode_of b0 \<noteq> OPCODE_CLOSE then Read_Error else Read_Done, ws2, w1)
           | (r, payload, w1) \<Rightarrow> (r, ws\<lparr>ws_read_payload := payload\<rparr>, w1))"

definition read_frame :: "nat \<Rightarrow> nat \<Rightarrow> le_ws \<Rightarrow> ws_world \<Rightarrow> read_outcome \<times> le_ws \<times> ws_world" where
  "read_frame capacity deadline ws w =
     (case read_exact_progress 2 deadline (ws_read_header ws) w of
        (Read_Done, header, w1) \<Rightarrow>
          let ws1 = ws\<lparr>ws_read_header := header\<rparr>
          in if header ! 0 AND 0x70 \<noteq> 0 \<or> header ! 1 AND 0x80 \<noteq> 0 then (Read_Error, ws1, w1)
             else
               (case read_exact_progress (header_size (header ! 1)) deadline header w1 of
                  (Read_Done, header2, w2) \<Rightarrow>
                    read_body capacity deadline (ws\<lparr>ws_read_header := header2\<rparr>) w2
                | (r, header2, w2) \<Rightarrow> (r, ws\<lparr>ws_read_header := header2\<rparr>, w2))
      | (r, header, w1) \<Rightarrow> (r, ws\<lparr>ws_read_header := header\<rparr>, w1))"

text \<open>What \<^verbatim>\<open>read_frame\<close> reports of a frame it has read: the opcode and the payload.\<close>

definition frame_opcode :: "le_ws \<Rightarrow> byte" where
  "frame_opcode ws = opcode_of (ws_read_header ws ! 0)"

definition frame_payload :: "le_ws \<Rightarrow> bytes" where
  "frame_payload ws = take (header_payload (ws_read_header ws)) (ws_read_payload ws)"

definition forget_frame :: "le_ws \<Rightarrow> le_ws" where
  "forget_frame ws = ws\<lparr>ws_read_header := [], ws_read_payload := []\<rparr>"

section \<open>The frame at the head of the bytes\<close>

text \<open>
  The reference: the first frame of a whole sequence of bytes, with what follows it.
\<close>

datatype frame_parse = Incomplete | Malformed | Frame byte bytes bytes

definition frame_refused :: "byte \<Rightarrow> nat \<Rightarrow> bool" where
  "frame_refused b0 n \<longleftrightarrow>
     (OPCODE_CLOSE \<le> opcode_of b0 \<and> (\<not> is_fin b0 \<or> 125 < n)) \<or> (\<not> is_fin b0 \<and> opcode_of b0 \<noteq> OPCODE_CLOSE)"

definition next_frame :: "nat \<Rightarrow> bytes \<Rightarrow> frame_parse" where
  "next_frame capacity s =
     (if length s < 2 then Incomplete
      else if s ! 0 AND 0x70 \<noteq> 0 \<or> s ! 1 AND 0x80 \<noteq> 0 then Malformed
      else if length s < header_size (s ! 1) then Incomplete
      else if capacity < header_payload s then Malformed
      else if length s < header_size (s ! 1) + header_payload s then Incomplete
      else if frame_refused (s ! 0) (header_payload s) then Malformed
      else Frame (opcode_of (s ! 0)) (take (header_payload s) (drop (header_size (s ! 1)) s))
             (drop (header_size (s ! 1) + header_payload s) s))"

definition held :: "le_ws \<Rightarrow> bytes" where
  "held ws = ws_read_header ws @ ws_read_payload ws"

text \<open>What a timeout leaves: part of a header, or a header and part of its payload.\<close>

definition resumable :: "le_ws \<Rightarrow> bool" where
  "resumable ws \<longleftrightarrow>
     (2 < length (ws_read_header ws) \<longrightarrow> length (ws_read_header ws) \<le> header_size (ws_read_header ws ! 1)) \<and>
     (ws_read_payload ws \<noteq> [] \<longrightarrow>
        2 \<le> length (ws_read_header ws) \<and> length (ws_read_header ws) = header_size (ws_read_header ws ! 1) \<and>
        length (ws_read_payload ws) \<le> header_payload (ws_read_header ws))"

lemma header_size_range: "2 \<le> header_size b" "header_size b \<le> 10"
  by (simp_all add: header_size_def)

lemma header_payload_append:
  "2 \<le> length h \<Longrightarrow> header_size (h ! 1) \<le> length h \<Longrightarrow> header_payload (h @ t) = header_payload h"
  by (simp add: header_payload_def header_size_def nth_append Let_def split: if_splits)

lemma nth_two [simp]: "2 \<le> length h \<Longrightarrow> (h @ t) ! 0 = h ! 0" "2 \<le> length h \<Longrightarrow> (h @ t) ! Suc 0 = h ! Suc 0"
  by (auto simp: nth_append)

lemma next_frame_append:
  "next_frame c s = Frame op p r \<Longrightarrow> next_frame c (s @ t) = Frame op p (r @ t)"
  "next_frame c s = Malformed \<Longrightarrow> next_frame c (s @ t) = Malformed"
  using header_payload_append [of s t] header_size_range [of "s ! 1"]
  by (auto simp: next_frame_def not_less split: if_splits)

lemma next_frame_shorter: "next_frame c s = Frame op p r \<Longrightarrow> length r + 2 \<le> length s"
  using header_size_range [of "s ! 1"] by (auto simp: next_frame_def split: if_splits)

lemma read_body_effect:
  assumes ok: "resumable ws" "length (ws_read_header ws) = header_size (ws_read_header ws ! 1)"
    and flags: "ws_read_header ws ! 0 AND 0x70 = 0" "ws_read_header ws ! 1 AND 0x80 = 0"
    and r: "read_body capacity deadline ws w = (r, ws', w')"
  shows "\<exists>d. held ws' = held ws @ d \<and> ww_read w' = ww_read w @ d \<and> ww_sent w' = ww_sent w \<and>
     unread w' + length d \<le> unread w \<and> resumable ws' \<and>
     ws_connected ws' = ws_connected ws \<and>
     (r = Read_Done \<longrightarrow> next_frame capacity (held ws') = Frame (frame_opcode ws') (frame_payload ws') []) \<and>
     (r = Read_Timeout \<or> r = Read_Closed \<longrightarrow> next_frame capacity (held ws') = Incomplete) \<and>
     (r = Read_Error \<longrightarrow> next_frame capacity (held ws') \<in> {Incomplete, Malformed})"
proof -
  define h where "h = ws_read_header ws"
  define n where "n = header_payload h"
  have h: "2 \<le> length h" "header_size (h ! 1) = length h" using ok(2) header_size_range [of "h ! 1"] by (simp_all add: h_def)
  have pn: "length (ws_read_payload ws) \<le> n" using ok(1) by (cases "ws_read_payload ws = []") (simp_all add: resumable_def h_def n_def)
  have nf: "next_frame capacity (h @ p) =
      (if capacity < n then Malformed else if length p < n then Incomplete
       else if frame_refused (h ! 0) n then Malformed else Frame (opcode_of (h ! 0)) (take n p) (drop n p))" for p
    using h flags header_payload_append [of h p] by (simp add: next_frame_def n_def) (simp add: h_def)
  show ?thesis
  proof (cases "capacity < n")
    case True
    then have e: "r = Read_Error" "ws' = ws" "w' = w" using r by (simp_all add: read_body_def Let_def n_def h_def)
    show ?thesis using True e ok nf [of "ws_read_payload ws"] by (simp add: held_def h_def)
  next
    case False
    obtain q p w1 where re: "(if n = 0 then (Read_Done, ws_read_payload ws, w)
        else read_exact_progress n deadline (ws_read_payload ws) w) = (q, p, w1)" by (rule prod_cases3)
    obtain d where d: "p = ws_read_payload ws @ d" "ww_read w1 = ww_read w @ d" "ww_sent w1 = ww_sent w"
        "unread w1 + length d \<le> unread w" "q = Read_Done \<longleftrightarrow> n \<le> length p" "length p \<le> n"
    proof (cases "n = 0")
      case True
      then show ?thesis using that [of "[]"] re pn by simp
    next
      case False
      then have "read_exact_progress n deadline (ws_read_payload ws) w = (q, p, w1)" using re by simp
      from read_exact_progress_effect [OF this] show ?thesis using that pn by blast
    qed
    have step: "read_body capacity deadline ws w =
        (case (q, p, w1) of
             (Read_Done, payload, w1) \<Rightarrow>
               let ws1 = ws\<lparr>ws_read_payload := payload\<rparr>
               in if OPCODE_CLOSE \<le> opcode_of (h ! 0) \<and> (\<not> is_fin (h ! 0) \<or> 125 < n) then (Read_Error, ws1, w1)
                  else
                    let ws2 = ws1\<lparr>ws_frames_in := ws_frames_in ws + 1, ws_bytes_in := ws_bytes_in ws + of_nat n\<rparr>
                    in (if \<not> is_fin (h ! 0) \<and> opcode_of (h ! 0) \<noteq> OPCODE_CLOSE then Read_Error else Read_Done, ws2, w1)
           | (r, payload, w1) \<Rightarrow> (r, ws\<lparr>ws_read_payload := payload\<rparr>, w1))"
      using False re by (simp only: read_body_def Let_def n_def h_def if_False)
    have out: "ws_read_header ws' = h" "ws_read_payload ws' = p" "w' = w1" "ws_connected ws' = ws_connected ws"
      "r = Read_Done \<longleftrightarrow> q = Read_Done \<and> \<not> frame_refused (h ! 0) n" "q \<noteq> Read_Done \<Longrightarrow> r = q"
      "r = Read_Error \<or> r = q"
      using r step by (auto simp: h_def Let_def frame_refused_def split: read_outcome.splits if_splits)
    have res: "resumable ws'" using out(1,2) d(6) h by (simp add: resumable_def n_def)
    have hd: "held ws' = h @ p" "held ws' = held ws @ d" using out(1,2) d(1) by (simp_all add: held_def h_def)
    have fp: "frame_opcode ws' = opcode_of (h ! 0)" "frame_payload ws' = take n p"
      using out(1,2) by (simp_all add: frame_opcode_def frame_payload_def n_def)
    show ?thesis
    proof (intro exI [of _ d] conjI impI)
      show "next_frame capacity (held ws') = Frame (frame_opcode ws') (frame_payload ws') []" if "r = Read_Done"
      proof -
        have "\<not> frame_refused (h ! 0) n" "length p = n" using that out(5) d(5,6) by auto
        then show ?thesis using False by (simp add: hd(1) nf fp)
      qed
      show "next_frame capacity (held ws') = Incomplete" if "r = Read_Timeout \<or> r = Read_Closed"
      proof -
        have "q \<noteq> Read_Done" using that out(5,7) by (cases q) auto
        then show ?thesis using d(5,6) False by (simp add: hd(1) nf)
      qed
      show "next_frame capacity (held ws') \<in> {Incomplete, Malformed}" if "r = Read_Error"
        using that out(5) d(5,6) False by (auto simp add: hd(1) nf)
    qed (use d out res hd in simp_all)
  qed
qed

lemma resumable_header:
  "length h \<le> 2 \<or> length h \<le> header_size (h ! 1) \<Longrightarrow> ws_read_payload ws = [] \<Longrightarrow> resumable (ws\<lparr>ws_read_header := h\<rparr>)"
  by (auto simp: resumable_def)

lemma next_frame_short:
  "length h < 2 \<or> length h < header_size (h ! 1) \<Longrightarrow> h ! 0 AND 0x70 = 0 \<or> length h < 2 \<Longrightarrow>
   h ! 1 AND 0x80 = 0 \<or> length h < 2 \<Longrightarrow> next_frame c h = Incomplete"
  by (auto simp: next_frame_def)

lemma read_frame_effect:
  assumes ok: "resumable ws" and r: "read_frame capacity deadline ws w = (r, ws', w')"
  shows "\<exists>d. held ws' = held ws @ d \<and> ww_read w' = ww_read w @ d \<and> ww_sent w' = ww_sent w \<and>
     unread w' + length d \<le> unread w \<and> (r = Read_Timeout \<longrightarrow> resumable ws') \<and>
     ws_connected ws' = ws_connected ws \<and>
     (r = Read_Done \<longrightarrow> next_frame capacity (held ws') = Frame (frame_opcode ws') (frame_payload ws') []) \<and>
     (r = Read_Timeout \<or> r = Read_Closed \<longrightarrow> next_frame capacity (held ws') = Incomplete) \<and>
     (r = Read_Error \<longrightarrow> next_frame capacity (held ws') \<in> {Incomplete, Malformed})"
proof -
  define h where "h = ws_read_header ws"
  obtain q1 h1 w1 where r1: "read_exact_progress 2 deadline h w = (q1, h1, w1)" by (rule prod_cases3)
  from read_exact_progress_effect [OF this] obtain d1 where
    d1: "h1 = h @ d1" "ww_read w1 = ww_read w @ d1" "ww_sent w1 = ww_sent w" "unread w1 + length d1 \<le> unread w"
      "q1 = Read_Done \<longleftrightarrow> 2 \<le> length h1" "length h \<le> 2 \<longrightarrow> length h1 \<le> 2" "2 \<le> length h \<longrightarrow> d1 = []" by blast
  have h1: "length h1 \<le> 2 \<or> length h1 \<le> header_size (h1 ! 1)"
    using ok d1 by (cases "length h \<le> 2") (auto simp: resumable_def h_def)
  have pay1: "ws_read_payload ws = [] \<or> d1 = []"
    using ok d1(7) unfolding resumable_def h_def by blast
  have nopay: "ws_read_payload ws = []" if "length h1 < header_size (h1 ! 1) \<or> length h1 < 2"
    using ok d1 that by (cases "length h \<le> 2") (auto simp: resumable_def h_def not_le)
  show ?thesis
  proof (cases "q1 = Read_Done")
    case False
    then have e: "r = q1" "ws' = ws\<lparr>ws_read_header := h1\<rparr>" "w' = w1"
      using r r1 by (auto simp: read_frame_def h_def split: read_outcome.splits)
    have "length h1 < 2" using False d1(5) by simp
    moreover have "ws_read_payload ws = []" using nopay calculation by simp
    ultimately show ?thesis
      using e d1 False resumable_header [of h1 ws] next_frame_short [of h1] by (simp add: held_def h_def)
  next
    case True
    have l1: "2 \<le> length h1" using True d1(5) by simp
    show ?thesis
    proof (cases "h1 ! 0 AND 0x70 \<noteq> 0 \<or> h1 ! 1 AND 0x80 \<noteq> 0")
      case bad: True
      then have e: "r = Read_Error" "ws' = ws\<lparr>ws_read_header := h1\<rparr>" "w' = w1"
        using r r1 True by (simp_all add: read_frame_def h_def Let_def)
      have "next_frame capacity (h1 @ ws_read_payload ws) = Malformed"
        using bad l1 by (simp add: next_frame_def)
      moreover have "held ws' = held ws @ d1"
        using e(2) d1(1) pay1 by (auto simp: held_def h_def)
      moreover have "held ws' = h1 @ ws_read_payload ws" using e(2) by (simp add: held_def)
      moreover have "ws_connected ws' = ws_connected ws" using e(2) by simp
      ultimately show ?thesis using e(1,3) d1(2-4) by (intro exI [of _ d1]) simp
    next
      case good: False
      obtain q2 h2 w2 where r2: "read_exact_progress (header_size (h1 ! 1)) deadline h1 w1 = (q2, h2, w2)"
        by (rule prod_cases3)
      from read_exact_progress_effect [OF this] obtain d2 where
        d2: "h2 = h1 @ d2" "ww_read w2 = ww_read w1 @ d2" "ww_sent w2 = ww_sent w1" "unread w2 + length d2 \<le> unread w1"
          "q2 = Read_Done \<longleftrightarrow> header_size (h1 ! 1) \<le> length h2"
          "length h1 \<le> header_size (h1 ! 1) \<longrightarrow> length h2 \<le> header_size (h1 ! 1)"
          "header_size (h1 ! 1) \<le> length h1 \<longrightarrow> d2 = []" by blast
      have b2: "h2 ! 0 = h1 ! 0" "h2 ! 1 = h1 ! 1" using d2(1) l1 by simp_all
      have l2: "2 \<le> length h2" "length h2 \<le> header_size (h2 ! 1)"
        using d2 l1 b2 h1 header_size_range [of "h1 ! 1"] by auto
      have pay: "ws_read_payload ws = [] \<or> (d1 = [] \<and> d2 = [])"
      proof (cases "ws_read_payload ws = []")
        case False
        then have "length h = header_size (h ! 1)" "2 \<le> length h" using ok by (simp_all add: resumable_def h_def)
        then show ?thesis using d1(1,7) d2(7) by simp
      qed simp
      show ?thesis
      proof (cases "q2 = Read_Done")
        case False
        then have e: "r = q2" "ws' = ws\<lparr>ws_read_header := h2\<rparr>" "w' = w2"
          using r r1 r2 True good by (auto simp: read_frame_def h_def Let_def split: read_outcome.splits)
        have "length h2 < header_size (h2 ! 1)" using False d2(5) b2 by simp
        moreover have "length h1 < header_size (h1 ! 1)" using calculation b2 d2(1) by simp
        moreover have "ws_read_payload ws = []" using nopay calculation(2) by simp
        ultimately have nf: "next_frame capacity h2 = Incomplete" and rs: "resumable ws'" and p0: "ws_read_payload ws = []"
          using e b2 good next_frame_short [of h2] resumable_header [of h2 ws] l2 by auto
        have "held ws' = h2" "held ws' = held ws @ d1 @ d2" using e p0 d1(1) d2(1) by (simp_all add: held_def h_def)
        moreover have "ww_read w' = ww_read w @ d1 @ d2" "unread w' + length (d1 @ d2) \<le> unread w" "ww_sent w' = ww_sent w"
          "ws_connected ws' = ws_connected ws" using e d1 d2 by simp_all
        ultimately show ?thesis using nf rs False e(1) by (intro exI [of _ "d1 @ d2"]) simp
      next
        case done2: True
        define ws2 where "ws2 = ws\<lparr>ws_read_header := h2\<rparr>"
        have len: "length h2 = header_size (h2 ! 1)" using done2 d2(5) b2 l2 by simp
        have rb: "read_body capacity deadline ws2 w2 = (r, ws', w')"
          using r r1 r2 True good done2 by (simp add: read_frame_def h_def Let_def ws2_def)
        have "resumable ws2" 
        proof (cases "ws_read_payload ws = []")
          case True
          then show ?thesis using len by (simp add: resumable_def ws2_def)
        next
          case False
          then have "h2 = h" using pay d1(1) d2(1) by simp
          then show ?thesis using ok by (simp add: ws2_def h_def)
        qed
        from read_body_effect [OF this _ _ _ rb] obtain d where
          d: "held ws' = held ws2 @ d" "ww_read w' = ww_read w2 @ d" "ww_sent w' = ww_sent w2"
            "unread w' + length d \<le> unread w2" "resumable ws'" "ws_connected ws' = ws_connected ws2"
            "r = Read_Done \<longrightarrow> next_frame capacity (held ws') = Frame (frame_opcode ws') (frame_payload ws') []"
            "r = Read_Timeout \<or> r = Read_Closed \<longrightarrow> next_frame capacity (held ws') = Incomplete"
            "r = Read_Error \<longrightarrow> next_frame capacity (held ws') \<in> {Incomplete, Malformed}"
          using len good b2 by (auto simp: ws2_def)
        have "held ws2 = held ws @ d1 @ d2" using pay d1 d2 by (auto simp: held_def ws2_def h_def)
        then have "held ws' = held ws @ (d1 @ d2 @ d)" "ww_read w' = ww_read w @ (d1 @ d2 @ d)"
          "unread w' + length (d1 @ d2 @ d) \<le> unread w" using d d1 d2 by simp_all
        then show ?thesis using d d1 d2 by (intro exI [of _ "d1 @ d2 @ d"]) (simp add: ws2_def)
      qed
    qed
  qed
qed

end
