(* ===== verification/Ws_Reading.thy ===== *)
theory Ws_Reading
  imports Ws_Frames
begin

text \<open>
  Reading text messages (\<^verbatim>\<open>le_ws_read_text\<close> of src/adapter/ws_client.c), and what a whole session of calls
  reads: the frames of all the bytes that arrived, however they were cut and whenever a call gave up
  waiting.
\<close>

section \<open>One call\<close>

text \<open>The answers of the call; 0, 1, 2 and -1 in the code.\<close>

datatype text_result = Nothing_To_Report | Message | Peer_Closed | Failed

text \<open>
  The turns of the loop.  A turn reads one frame; what it held before is forgotten then unless it timed out.
\<close>

lemma unread_same: "ww_arrivals w' = ww_arrivals w \<Longrightarrow> unread w' = unread w"
  by (simp add: unread_def)

lemma masked_append: "masked key o1 (xs @ ys) = masked key o1 xs @ masked key (o1 + length xs) ys"
proof -
  have "masked key o1 xs = map (\<lambda>i. xs ! i XOR key ! ((o1 + i) mod 4)) [0..<length xs]" for o1 xs
    by (rule nth_equalityI) (simp_all add: masked_def nth_enumerate_eq)
  then show ?thesis by (intro nth_equalityI) (auto simp: nth_append add.assoc)
qed

lemma send_chunks_effect:
  "send_chunks ws key body offset w = (ok, w') \<Longrightarrow>
   ww_arrivals w' = ww_arrivals w \<and> ww_read w' = ww_read w \<and>
   (ok \<longrightarrow> ww_sent w' = ww_sent w @ masked key offset (drop offset body))"
proof (induction ws key body offset w arbitrary: ok w' rule: send_chunks.induct)
  case (1 ws key body offset w)
  show ?case
  proof (cases "length body \<le> offset")
    case True
    then show ?thesis using 1(2) by (subst (asm) send_chunks.simps) (auto simp: masked_def)
  next
    case False
    obtain q w1 where wa: "write_all ws (masked key offset (take 512 (drop offset body))) w = (q, w1)" by fastforce
    note fr = write_all_effect [OF wa]
    show ?thesis
    proof (cases q)
      case True
      then have "send_chunks ws key body (offset + 512) w1 = (ok, w')"
        using 1(2) False wa by (subst (asm) send_chunks.simps) simp
      from 1(1) [OF False wa [symmetric] _ this] True
      have IH: "ww_arrivals w' = ww_arrivals w1" "ww_read w' = ww_read w1"
        "ok \<longrightarrow> ww_sent w' = ww_sent w1 @ masked key (offset + 512) (drop (offset + 512) body)" by auto
      have "masked key offset (drop offset body) =
          masked key offset (take 512 (drop offset body)) @ masked key (offset + 512) (drop (offset + 512) body)"
      proof (cases "length (drop offset body) < 512")
        case True
        then show ?thesis by (simp add: masked_def)
      next
        case False
        then show ?thesis
          using masked_append [of key offset "take 512 (drop offset body)" "drop 512 (drop offset body)"]
            append_take_drop_id [of 512 "drop offset body"] by (simp only: drop_drop length_take add.commute) simp
      qed
      then show ?thesis using IH fr True by auto
    next
      case no: False
      then show ?thesis using 1(2) False wa fr by (subst (asm) send_chunks.simps) simp
    qed
  qed
qed

definition client_frame :: "bytes \<Rightarrow> byte \<Rightarrow> bytes \<Rightarrow> bytes" where
  "client_frame key opcode payload = frame_header opcode (length payload) @ key @ masked key 0 payload"

lemma send_frame_effect:
  assumes "send_frame ws opcode payload w = (ok, ws', w')"
  shows "ww_arrivals w' = ww_arrivals w \<and> ww_read w' = ww_read w \<and> ws_connected ws' = ws_connected ws \<and>
    ws_read_header ws' = ws_read_header ws \<and> ws_read_payload ws' = ws_read_payload ws \<and>
    (ok \<longrightarrow> ws_connected ws \<and> length payload \<le> LE_WS_MAX_PAYLOAD \<and>
      (\<exists>key. length key = 4 \<and> ww_sent w' = ww_sent w @ client_frame key opcode payload))"
proof (cases "\<not> ws_connected ws \<or> LE_WS_MAX_PAYLOAD < length payload")
  case True
  then show ?thesis using assms by (auto simp: send_frame_def)
next
  case False
  obtain k w1 where rb: "random_bytes ws 4 w = (k, w1)" by fastforce
  note f1 = random_bytes_frame [of ws 4 w, unfolded rb snd_conv]
  show ?thesis
  proof (cases k)
    case None
    then show ?thesis using assms False rb f1 by (auto simp: send_frame_def)
  next
    case (Some key)
    have lk: "length key = 4" using random_bytes_length rb Some by blast
    obtain q2 w2 where h: "write_all ws (frame_header opcode (length payload) @ key) w1 = (q2, w2)" by fastforce
    note f2 = write_all_effect [OF h]
    obtain q3 w3 where c: "send_chunks ws key payload 0 w2 = (q3, w3)" by fastforce
    note f3 = send_chunks_effect [OF c]
    show ?thesis
    proof (cases "q2 \<and> q3")
      case True
      then have e: "ok" "w' = w3" "ws_connected ws' = ws_connected ws" "ws_read_header ws' = ws_read_header ws"
          "ws_read_payload ws' = ws_read_payload ws"
        using assms False rb Some h c by (auto simp: send_frame_def Let_def)
      have "ww_sent w3 = ww_sent w @ client_frame key opcode payload"
        using True f1 f2 f3 by (auto simp: client_frame_def)
      then show ?thesis using e f1 f2 f3 lk False by auto
    next
      case no: False
      then have "\<not> ok \<and> ws' = ws \<and> (w' = w2 \<or> w' = w3)"
        using assms False rb Some h c by (auto simp: send_frame_def Let_def split: bool.splits)
      then show ?thesis using f1 f2 f3 by auto
    qed
  qed
qed

lemma read_exact_size:
  assumes "read_exact_progress len deadline buf w = (r, buf', w')"
  shows "unread w' + length buf' \<le> unread w + length buf" "r = Read_Done \<Longrightarrow> len \<le> length buf'" "length buf \<le> length buf'"
  using read_exact_progress_effect [OF assms] by auto

lemma read_body_progress:
  assumes "read_body capacity deadline ws w = (Read_Done, ws', w')"
  shows "ws_read_header ws' = ws_read_header ws \<and>
    unread w' + length (ws_read_payload ws') \<le> unread w + length (ws_read_payload ws)"
proof -
  obtain q p w1 where re: "(if header_payload (ws_read_header ws) = 0 then (Read_Done, ws_read_payload ws, w)
      else read_exact_progress (header_payload (ws_read_header ws)) deadline (ws_read_payload ws) w) = (q, p, w1)"
    by (rule prod_cases3)
  have "unread w1 + length p \<le> unread w + length (ws_read_payload ws)"
  proof (cases "header_payload (ws_read_header ws) = 0")
    case True
    then show ?thesis using re by simp
  next
    case False
    then show ?thesis using read_exact_size(1) [OF re [unfolded if_not_P [OF False]]] by simp
  qed
  then show ?thesis using assms re
    by (auto simp: read_body_def Let_def split: if_splits read_outcome.splits)
qed

lemma read_frame_progress:
  assumes "read_frame capacity deadline ws w = (Read_Done, ws', w')"
  shows "2 \<le> length (ws_read_header ws') \<and> unread w' + length (held ws') \<le> unread w + length (held ws)"
proof -
  obtain q1 h1 w1 where r1: "read_exact_progress 2 deadline (ws_read_header ws) w = (q1, h1, w1)" by (rule prod_cases3)
  obtain q2 h2 w2 where r2: "read_exact_progress (header_size (h1 ! 1)) deadline h1 w1 = (q2, h2, w2)" by (rule prod_cases3)
  have "q1 = Read_Done" "q2 = Read_Done"
    and b: "read_body capacity deadline (ws\<lparr>ws_read_header := h2\<rparr>) w2 = (Read_Done, ws', w')"
    using assms r1 r2 by (auto simp: read_frame_def Let_def split: read_outcome.splits if_splits)
  then show ?thesis
    using read_exact_size [OF r1] read_exact_size [OF r2] read_body_progress [OF b] by (simp add: held_def)
qed

lemma forget_frame_fields [simp]:
  "ws_read_header (forget_frame ws) = []" "ws_read_payload (forget_frame ws) = []"
  "ws_connected (forget_frame ws) = ws_connected ws" "held (forget_frame ws) = []"
  by (simp_all add: forget_frame_def held_def)

function read_turns :: "nat \<Rightarrow> nat \<Rightarrow> le_ws \<Rightarrow> ws_world \<Rightarrow> text_result \<times> bytes \<times> le_ws \<times> ws_world" where
  "read_turns out_size deadline ws w =
     (case read_frame (LE_WS_MAX_PAYLOAD - 1) deadline ws w of
        (Read_Timeout, ws1, w1) \<Rightarrow> (Nothing_To_Report, [], ws1, w1)
      | (Read_Closed, ws1, w1) \<Rightarrow> (Peer_Closed, [], (forget_frame ws1)\<lparr>ws_close_received := True\<rparr>, w1)
      | (Read_Error, ws1, w1) \<Rightarrow> (Failed, [], forget_frame ws1, w1)
      | (Read_Done, ws1, w1) \<Rightarrow>
          let opcode = frame_opcode ws1; payload = frame_payload ws1; ws2 = forget_frame ws1
          in if opcode = OPCODE_PING then
               (case send_frame ws2 OPCODE_PONG payload w1 of
                  (False, ws3, w2) \<Rightarrow> (Failed, [], ws3, w2)
                | (True, ws3, w2) \<Rightarrow> read_turns out_size deadline ws3 w2)
             else if opcode = OPCODE_PONG then read_turns out_size deadline ws2 w1
             else if opcode = OPCODE_CLOSE then (Peer_Closed, [], ws2\<lparr>ws_close_received := True\<rparr>, w1)
             else if opcode \<noteq> OPCODE_TEXT \<or> out_size \<le> length payload then (Failed, [], ws2, w1)
             else (Message, payload, ws2, w1))"
  by pat_completeness auto
termination
proof (relation "measure (\<lambda>(out_size, deadline, ws, w). unread w + length (held ws))", goal_cases)
  case (2 out_size deadline ws w r p ws1 w1 opcode payload ws2 ok q ws3 w2)
  then have rf: "read_frame (LE_WS_MAX_PAYLOAD - 1) deadline ws w = (Read_Done, ws1, w1)"
    and sf: "send_frame (forget_frame ws1) OPCODE_PONG (frame_payload ws1) w1 = (True, ws3, w2)" by simp_all
  have "unread w2 = unread w1" "held ws3 = []"
    using send_frame_effect [OF sf] unread_same [of w2 w1] by (simp_all add: held_def)
  moreover have "2 \<le> length (held ws1)" "unread w1 + length (held ws1) \<le> unread w + length (held ws)"
    using read_frame_progress [OF rf] by (simp_all add: held_def)
  ultimately show ?case by simp
next
  case (3 out_size deadline ws w r p ws1 w1 opcode payload ws2)
  then have rf: "read_frame (LE_WS_MAX_PAYLOAD - 1) deadline ws w = (Read_Done, ws1, w1)" by simp
  have "2 \<le> length (held ws1)" "unread w1 + length (held ws1) \<le> unread w + length (held ws)"
    using read_frame_progress [OF rf] by (simp_all add: held_def)
  then show ?case using 3(6) by simp
qed simp

declare read_turns.simps [simp del]

definition le_ws_read_text :: "nat \<Rightarrow> int \<Rightarrow> le_ws \<Rightarrow> ws_world \<Rightarrow> text_result \<times> bytes \<times> le_ws \<times> ws_world" where
  "le_ws_read_text out_size timeout_ms ws w =
     (if \<not> ws_connected ws \<or> out_size = 0 then (Failed, [], ws, w)
      else
        let (now, w1) = monotonic_ms w
        in read_turns out_size (now + nat (if 0 < timeout_ms then timeout_ms else 100)) ws w1)"

definition le_ws_close :: "le_ws \<Rightarrow> le_ws" where
  "le_ws_close ws = (forget_frame ws)\<lparr>ws_connected := False, ws_urandom := False\<rparr>"

section \<open>All frames of the bytes\<close>

function all_frames :: "bytes \<Rightarrow> (byte \<times> bytes) list \<times> bytes" where
  "all_frames s =
     (case next_frame (LE_WS_MAX_PAYLOAD - 1) s of
        Frame opcode payload rest \<Rightarrow> (let (fs, r) = all_frames rest in ((opcode, payload) # fs, r))
      | _ \<Rightarrow> ([], s))"
  by pat_completeness auto
termination
  by (relation "measure length") (auto dest: next_frame_shorter)

declare all_frames.simps [simp del]

lemma all_frames_append:
  "all_frames s = (fs, r) \<Longrightarrow> all_frames (s @ t) = (case all_frames (r @ t) of (gs, r') \<Rightarrow> (fs @ gs, r'))"
proof (induction s arbitrary: fs r rule: all_frames.induct)
  case (1 s)
  show ?case
  proof (cases "next_frame (LE_WS_MAX_PAYLOAD - 1) s")
    case Incomplete
    then have "fs = [] \<and> r = s" using 1(2) by (subst (asm) all_frames.simps) simp
    then show ?thesis by simp
  next
    case Malformed
    then have "fs = [] \<and> r = s" using 1(2) by (subst (asm) all_frames.simps) simp
    then show ?thesis by simp
  next
    case (Frame op p rest)
    obtain fs1 r1 where a: "all_frames rest = (fs1, r1)" by fastforce
    have "all_frames s = ((op, p) # fs1, r1)" using Frame a by (subst all_frames.simps) simp
    then have f: "fs = (op, p) # fs1" "r = r1" using 1(2) by simp_all
    have "all_frames (s @ t) = (case all_frames (rest @ t) of (gs, r') \<Rightarrow> ((op, p) # gs, r'))"
      using next_frame_append(1) [OF Frame, of t] by (subst all_frames.simps) simp
    then show ?thesis using 1(1) [OF Frame a] f by (simp split: prod.split)
  qed
qed

text \<open>The frames a call answers or passes over, and the answers it writes.\<close>

definition control_only :: "(byte \<times> bytes) list \<Rightarrow> bool" where
  "control_only fs \<longleftrightarrow> list_all (\<lambda>(opcode, payload). opcode = OPCODE_PING \<or> opcode = OPCODE_PONG) fs"

definition pings :: "(byte \<times> bytes) list \<Rightarrow> bytes list" where
  "pings fs = map snd (filter (\<lambda>(opcode, payload). opcode = OPCODE_PING) fs)"

definition texts :: "(byte \<times> bytes) list \<Rightarrow> bytes list" where
  "texts fs = map snd (filter (\<lambda>(opcode, payload). opcode = OPCODE_TEXT) fs)"

definition pongs_written :: "bytes list \<Rightarrow> bytes \<Rightarrow> bool" where
  "pongs_written ps out \<longleftrightarrow>
     (\<exists>keys. length keys = length ps \<and> list_all (\<lambda>k. length k = 4) keys \<and>
        out = concat (map2 (\<lambda>k p. client_frame k OPCODE_PONG p) keys ps))"

lemma pongs_written_Nil [simp]: "pongs_written [] out \<longleftrightarrow> out = []"
  by (simp add: pongs_written_def)

lemma pongs_written_Cons:
  "length key = 4 \<Longrightarrow> pongs_written ps out \<Longrightarrow> pongs_written (p # ps) (client_frame key OPCODE_PONG p @ out)"
  unfolding pongs_written_def
proof (elim exE conjE)
  fix keys
  assume "length key = 4" "length keys = length ps" "list_all (\<lambda>k. length k = 4) keys"
    "out = concat (map2 (\<lambda>k p. client_frame k OPCODE_PONG p) keys ps)"
  then show "\<exists>keys. length keys = length (p # ps) \<and> list_all (\<lambda>k. length k = 4) keys \<and>
      client_frame key OPCODE_PONG p @ out = concat (map2 (\<lambda>k p. client_frame k OPCODE_PONG p) keys (p # ps))"
    by (intro exI [of _ "key # keys"]) simp
qed

lemma pongs_written_append:
  "pongs_written ps out \<Longrightarrow> pongs_written qs out' \<Longrightarrow> pongs_written (ps @ qs) (out @ out')"
  unfolding pongs_written_def
  by (elim exE conjE, rule_tac x = "keys @ keysa" in exI) simp

lemma controls_simps [simp]:
  "control_only []" "pings [] = []" "texts [] = []"
  "pings ((op, p) # fs) = (if op = OPCODE_PING then p # pings fs else pings fs)"
  "texts ((op, p) # fs) = (if op = OPCODE_TEXT then p # texts fs else texts fs)"
  "control_only ((op, p) # fs) \<longleftrightarrow> (op = OPCODE_PING \<or> op = OPCODE_PONG) \<and> control_only fs"
  "pings (fs @ gs) = pings fs @ pings gs" "texts (fs @ gs) = texts fs @ texts gs"
  by (simp_all add: control_only_def pings_def texts_def)

lemma control_no_text: "control_only fs \<Longrightarrow> texts fs = []"
  by (induction fs) (auto simp: control_only_def texts_def OPCODE_PING_def OPCODE_PONG_def OPCODE_TEXT_def)

lemma opcodes_differ [simp]:
  "OPCODE_TEXT \<noteq> OPCODE_PING" "OPCODE_CLOSE \<noteq> OPCODE_PING" "OPCODE_PONG \<noteq> OPCODE_PING"
  by (simp_all add: OPCODE_TEXT_def OPCODE_PING_def OPCODE_CLOSE_def OPCODE_PONG_def)

lemma all_frames_step:
  "next_frame (LE_WS_MAX_PAYLOAD - 1) s = Frame op p [] \<Longrightarrow>
   all_frames (s @ t) = (case all_frames t of (fs, r) \<Rightarrow> ((op, p) # fs, r))"
  using next_frame_append(1) [of "LE_WS_MAX_PAYLOAD - 1" s op p "[]" t] by (subst all_frames.simps) simp

lemma all_frames_stop:
  "next_frame (LE_WS_MAX_PAYLOAD - 1) s \<in> {Incomplete, Malformed} \<Longrightarrow> all_frames s = ([], s)"
  by (subst all_frames.simps) auto

text \<open>What a call that does not fail has read and written.\<close>

lemma all_frames_Nil [simp]: "all_frames [] = ([], [])"
  by (subst all_frames.simps) (simp add: next_frame_def)

definition call_read :: "text_result \<Rightarrow> bytes \<Rightarrow> bytes \<Rightarrow> (byte \<times> bytes) list \<Rightarrow> le_ws \<Rightarrow> bool" where
  "call_read res out s fs ws' \<longleftrightarrow>
     (case res of
        Nothing_To_Report \<Rightarrow> all_frames s = (fs, held ws') \<and> out = [] \<and>
          next_frame (LE_WS_MAX_PAYLOAD - 1) (held ws') = Incomplete
      | Message \<Rightarrow> all_frames s = (fs @ [(OPCODE_TEXT, out)], []) \<and> held ws' = []
      | Peer_Closed \<Rightarrow> (\<exists>p. all_frames s = (fs @ [(OPCODE_CLOSE, p)], [])) \<or>
          (\<exists>r. all_frames s = (fs, r) \<and> next_frame (LE_WS_MAX_PAYLOAD - 1) r = Incomplete)
      | Failed \<Rightarrow> True)"

lemma call_read_Cons:
  assumes "all_frames s = (case all_frames t of (gs, r) \<Rightarrow> ((op, p) # gs, r))" "call_read res out t fs ws'"
  shows "call_read res out s ((op, p) # fs) ws'"
  using assms by (cases res) (auto simp: call_read_def split: prod.splits)

lemma read_turns_effect:
  "read_turns out_size deadline ws w = (res, out, ws', w') \<Longrightarrow> resumable ws \<Longrightarrow> ws_connected ws \<Longrightarrow> res \<noteq> Failed \<Longrightarrow>
   \<exists>d fs pw. ww_read w' = ww_read w @ d \<and> ww_sent w' = ww_sent w @ pw \<and> pongs_written (pings fs) pw \<and>
     control_only fs \<and> resumable ws' \<and> ws_connected ws' \<and> call_read res out (held ws @ d) fs ws' \<and>
     (res = Message \<longrightarrow> length out < out_size)"
proof (induction out_size deadline ws w arbitrary: res out ws' w' rule: read_turns.induct)
  case (1 out_size deadline ws w)
  obtain q ws1 w1 where rf: "read_frame (LE_WS_MAX_PAYLOAD - 1) deadline ws w = (q, ws1, w1)" by (rule prod_cases3)
  from read_frame_effect [OF 1(4) rf] obtain d where
    d: "held ws1 = held ws @ d" "ww_read w1 = ww_read w @ d" "ww_sent w1 = ww_sent w" "q = Read_Timeout \<longrightarrow> resumable ws1"
      "ws_connected ws1"
      "q = Read_Done \<longrightarrow> next_frame (LE_WS_MAX_PAYLOAD - 1) (held ws1) = Frame (frame_opcode ws1) (frame_payload ws1) []"
      "q = Read_Timeout \<or> q = Read_Closed \<longrightarrow> next_frame (LE_WS_MAX_PAYLOAD - 1) (held ws1) = Incomplete"
    using 1(5) by blast
  have res0: "resumable (forget_frame ws1)" by (simp add: resumable_def)
  show ?case
  proof (cases q)
    case Read_Error
    then show ?thesis using 1(3,6) rf by (subst (asm) read_turns.simps) simp
  next
    case Read_Timeout
    then have e: "res = Nothing_To_Report" "out = []" "ws' = ws1" "w' = w1"
      using 1(3) rf by (subst (asm) read_turns.simps, simp)+
    have "call_read res out (held ws @ d) [] ws'"
      using e d(7) Read_Timeout all_frames_stop [of "held ws1"] by (simp add: call_read_def flip: d(1))
    then show ?thesis using e d Read_Timeout by (intro exI [of _ d] exI [of _ "[]"]) simp
  next
    case Read_Closed
    then have e: "res = Peer_Closed" "out = []" "ws' = (forget_frame ws1)\<lparr>ws_close_received := True\<rparr>" "w' = w1"
      using 1(3) rf by (subst (asm) read_turns.simps, simp)+
    have "call_read res out (held ws @ d) [] ws'"
      using e d(7) Read_Closed all_frames_stop [of "held ws1"] by (simp add: call_read_def flip: d(1))
    then show ?thesis using e d res0 by (intro exI [of _ d] exI [of _ "[]"]) (simp add: resumable_def)
  next
    case Read_Done
    have nf: "next_frame (LE_WS_MAX_PAYLOAD - 1) (held ws @ d) = Frame (frame_opcode ws1) (frame_payload ws1) []"
      using d(1,6) Read_Done by simp
    note step = all_frames_step [OF nf]
    have one: "all_frames (held ws @ d) = ([(frame_opcode ws1, frame_payload ws1)], [])"
      using step [of "[]"] by simp
    define wsf where "wsf = forget_frame ws1"
    have wsf: "held wsf = []" "resumable wsf" "ws_connected wsf" using res0 d(5) by (simp_all add: wsf_def)
    consider (ping) "frame_opcode ws1 = OPCODE_PING" | (pong) "frame_opcode ws1 = OPCODE_PONG"
      | (other) "frame_opcode ws1 \<noteq> OPCODE_PING" "frame_opcode ws1 \<noteq> OPCODE_PONG" by blast
    then show ?thesis
    proof cases
      case ping
      obtain ok ws3 w2 where sf: "send_frame wsf OPCODE_PONG (frame_payload ws1) w1 = (ok, ws3, w2)" by (rule prod_cases3)
      have ok: "ok" and rt: "read_turns out_size deadline ws3 w2 = (res, out, ws', w')"
        using 1(3,6) rf Read_Done ping sf
        by (subst (asm) read_turns.simps, simp add: Let_def wsf_def split: bool.splits)+
      note se = send_frame_effect [OF sf]
      from se ok obtain key where
        key: "length key = 4" "ww_sent w2 = ww_sent w1 @ client_frame key OPCODE_PONG (frame_payload ws1)" by blast
      have "resumable ws3" "ws_connected ws3" "held ws3 = []"
        using se wsf by (simp_all add: resumable_def held_def wsf_def)
      with 1(1) [OF rf [symmetric] Read_Done _ refl refl refl ping _ _ _ rt _ _ 1(6)] sf ok
      obtain d2 fs pw where
        IH: "ww_read w' = ww_read w2 @ d2" "ww_sent w' = ww_sent w2 @ pw" "pongs_written (pings fs) pw" "control_only fs"
          "resumable ws'" "ws_connected ws'" "call_read res out d2 fs ws'" "res = Message \<longrightarrow> length out < out_size"
        by (simp add: wsf_def) blast
      have "call_read res out (held ws @ d @ d2) ((OPCODE_PING, frame_payload ws1) # fs) ws'"
        using call_read_Cons [OF step IH(7)] ping by simp
      then show ?thesis using IH d key se ping
        by (intro exI [of _ "d @ d2"] exI [of _ "(OPCODE_PING, frame_payload ws1) # fs"]
            exI [of _ "client_frame key OPCODE_PONG (frame_payload ws1) @ pw"]) (simp add: pongs_written_Cons)
    next
      case pong
      have rt: "read_turns out_size deadline wsf w1 = (res, out, ws', w')"
        using 1(3) rf Read_Done pong by (subst (asm) read_turns.simps) (simp add: Let_def wsf_def)
      from 1(2) [OF rf [symmetric] Read_Done _ refl refl wsf_def _ pong rt wsf(2,3) 1(6)] pong
      obtain d2 fs pw where
        IH: "ww_read w' = ww_read w1 @ d2" "ww_sent w' = ww_sent w1 @ pw" "pongs_written (pings fs) pw" "control_only fs"
          "resumable ws'" "ws_connected ws'" "call_read res out d2 fs ws'" "res = Message \<longrightarrow> length out < out_size"
        using wsf(1) by auto
      have "call_read res out (held ws @ d @ d2) ((OPCODE_PONG, frame_payload ws1) # fs) ws'"
        using call_read_Cons [OF step IH(7)] pong by simp
      then show ?thesis using IH d pong
        by (intro exI [of _ "d @ d2"] exI [of _ "(OPCODE_PONG, frame_payload ws1) # fs"] exI [of _ pw]) simp
    next
      case other
      show ?thesis
      proof (cases "frame_opcode ws1 = OPCODE_CLOSE")
        case True
        then have e: "res = Peer_Closed" "ws' = wsf\<lparr>ws_close_received := True\<rparr>" "w' = w1"
          using 1(3) rf Read_Done other by (subst (asm) read_turns.simps, simp add: Let_def wsf_def)+
        have cr: "call_read res out (held ws @ d) [] ws'" using e(1) one True by (simp add: call_read_def)
        have "resumable ws'" using e(2) by (simp add: resumable_def wsf_def)
        then show ?thesis using e d wsf cr by (intro exI [of _ d] exI [of _ "[]"]) simp
      next
        case False
        then have "\<not> (frame_opcode ws1 \<noteq> OPCODE_TEXT \<or> out_size \<le> length (frame_payload ws1))"
          using 1(3,6) rf Read_Done other by (subst (asm) read_turns.simps) (auto simp: Let_def split: if_splits)
        then have e: "res = Message" "out = frame_payload ws1" "ws' = wsf" "w' = w1" "frame_opcode ws1 = OPCODE_TEXT"
            "length out < out_size"
          using 1(3) rf Read_Done other False by (subst (asm) read_turns.simps, auto simp add: Let_def wsf_def)+
        have "call_read res out (held ws @ d) [] ws'" using e one wsf by (simp add: call_read_def)
        then show ?thesis using e d wsf by (intro exI [of _ d] exI [of _ "[]"]) simp
      qed
    qed
  qed
qed

section \<open>A session of calls\<close>

text \<open>
  The calls of a session with their buffer sizes and timeouts, until one fails or finds the peer gone;
  the texts they gave.\<close>

fun read_calls :: "(nat \<times> int) list \<Rightarrow> le_ws \<Rightarrow> ws_world \<Rightarrow> (bytes list \<times> le_ws \<times> ws_world) option" where
  "read_calls [] ws w = Some ([], ws, w)"
| "read_calls ((out_size, timeout_ms) # calls) ws w =
     (case le_ws_read_text out_size timeout_ms ws w of
        (Nothing_To_Report, _, ws1, w1) \<Rightarrow> read_calls calls ws1 w1
      | (Message, out, ws1, w1) \<Rightarrow> map_option (\<lambda>(ts, r). (out # ts, r)) (read_calls calls ws1 w1)
      | _ \<Rightarrow> None)"

lemma le_ws_read_text_effect:
  assumes "le_ws_read_text out_size timeout_ms ws w = (res, out, ws', w')" "resumable ws" "res \<noteq> Failed"
  shows "\<exists>d fs pw. ww_read w' = ww_read w @ d \<and> ww_sent w' = ww_sent w @ pw \<and> pongs_written (pings fs) pw \<and>
     control_only fs \<and> resumable ws' \<and> ws_connected ws' \<and> call_read res out (held ws @ d) fs ws' \<and>
     (res = Message \<longrightarrow> length out < out_size)"
proof -
  obtain now w1 where m: "monotonic_ms w = (now, w1)" by fastforce
  have c: "ws_connected ws" and
    r: "read_turns out_size (now + nat (if 0 < timeout_ms then timeout_ms else 100)) ws w1 = (res, out, ws', w')"
    using assms m by (auto simp: le_ws_read_text_def split: if_splits)
  show ?thesis
    using read_turns_effect [OF r assms(2) c assms(3)] monotonic_ms_frame [of w, unfolded m snd_conv] by simp
qed

lemma read_calls_effect:
  "read_calls calls ws w = Some (ts, ws', w') \<Longrightarrow> resumable ws \<Longrightarrow> all_frames (held ws) = ([], held ws) \<Longrightarrow>
   \<exists>d fs pw. ww_read w' = ww_read w @ d \<and> all_frames (held ws @ d) = (fs, held ws') \<and> ts = texts fs \<and>
     ww_sent w' = ww_sent w @ pw \<and> pongs_written (pings fs) pw"
proof (induction calls ws w arbitrary: ts rule: read_calls.induct)
  case (1 ws w)
  then show ?case by (intro exI [of _ "[]"]) simp
next
  case (2 out_size timeout_ms calls ws w)
  obtain res out ws1 w1 where r: "le_ws_read_text out_size timeout_ms ws w = (res, out, ws1, w1)" by (rule prod_cases4)
  have ok: "res = Nothing_To_Report \<or> res = Message" using 2(3) r by (cases res) auto
  with le_ws_read_text_effect [OF r 2(4)] obtain d fs pw where
    d: "ww_read w1 = ww_read w @ d" "ww_sent w1 = ww_sent w @ pw" "pongs_written (pings fs) pw" "control_only fs"
      "resumable ws1" "call_read res out (held ws @ d) fs ws1" by fastforce
  define gs where "gs = (if res = Message then fs @ [(OPCODE_TEXT, out)] else fs)"
  have af: "all_frames (held ws @ d) = (gs, held ws1)" using d(6) ok by (auto simp: call_read_def gs_def)
  have tg: "texts gs = (if res = Message then [out] else [])" "pings gs = pings fs"
    using control_no_text [OF d(4)] by (simp_all add: gs_def)
  obtain ts1 where ts1: "read_calls calls ws1 w1 = Some (ts1, ws', w')" "ts = texts gs @ ts1"
    using 2(3) r ok tg by (auto split: prod.splits)
  have nf: "all_frames (held ws1) = ([], held ws1)"
    using all_frames_append [OF af, of "[]"] af by (simp split: prod.splits)
  have "\<exists>d fs pw. ww_read w' = ww_read w1 @ d \<and> all_frames (held ws1 @ d) = (fs, held ws') \<and> ts1 = texts fs \<and>
     ww_sent w' = ww_sent w1 @ pw \<and> pongs_written (pings fs) pw"
    using 2(1,2) r ok ts1(1) d(5) nf by (elim disjE) simp_all
  then obtain d2 fs2 pw2 where
    d2: "ww_read w' = ww_read w1 @ d2" "all_frames (held ws1 @ d2) = (fs2, held ws')" "ts1 = texts fs2"
      "ww_sent w' = ww_sent w1 @ pw2" "pongs_written (pings fs2) pw2" by blast
  have "all_frames (held ws @ d @ d2) = (gs @ fs2, held ws')"
    using all_frames_append [OF af, of d2] d2(2) by simp
  moreover have "pongs_written (pings (gs @ fs2)) (pw @ pw2)"
    using pongs_written_append [OF d(3) d2(5)] tg by simp
  ultimately show ?case
    using d d2 ts1(2) by (intro exI [of _ "d @ d2"] exI [of _ "gs @ fs2"] exI [of _ "pw @ pw2"]) simp
qed

text \<open>
  C17: reading is the parsing of all the bytes.  Whatever pieces the bytes arrive in and whichever calls
  give up waiting in between, the calls of a session together give the text messages of the frames of all
  bytes read, in order and each once, keep the unfinished last frame for the next call, and answer every
  ping with a pong of its payload.\<close>

theorem ws_reading_exact:
  assumes "read_calls calls ws w = Some (ts, ws', w')" and "held ws = []" and "ww_read w = []" and "ww_sent w = []"
  shows "ts = texts (fst (all_frames (ww_read w'))) \<and> held ws' = snd (all_frames (ww_read w')) \<and>
    pongs_written (pings (fst (all_frames (ww_read w')))) (ww_sent w')"
proof -
  have "resumable ws" using assms(2) by (simp add: resumable_def held_def)
  from read_calls_effect [OF assms(1) this] show ?thesis using assms by auto
qed

text \<open>A pair of frames that arrives in four pieces with a timeout in the middle of the first.\<close>

lemma ws_reading_exact_witness:
  "\<exists>ts ws' w'. read_calls [(10, 100), (10, 100)]
       \<lparr>ws_urandom = True, ws_connected = True, ws_close_received = False, ws_send_timeout_ms = 0, ws_frames_in = 0,
        ws_frames_out = 0, ws_bytes_in = 0, ws_bytes_out = 0, ws_read_header = [], ws_read_payload = []\<rparr>
       \<lparr>ww_clock = [0, 200, 300, 310], ww_arrivals = [Arrived [0x81], Nothing_Yet, Arrived [2, 104], Nothing_Yet, Arrived [105, 0x89]],
        ww_accepts = [], ww_random = [], ww_read = [], ww_sent = []\<rparr> = Some (ts, ws', w') \<and>
     ts = texts (fst (all_frames (ww_read w'))) \<and> held ws' = snd (all_frames (ww_read w')) \<and>
     pongs_written (pings (fst (all_frames (ww_read w')))) (ww_sent w') \<and> ts = [[104, 105]]"
proof -
  let ?ws = "\<lparr>ws_urandom = True, ws_connected = True, ws_close_received = False, ws_send_timeout_ms = 0, ws_frames_in = 0,
        ws_frames_out = 0, ws_bytes_in = 0, ws_bytes_out = 0, ws_read_header = [], ws_read_payload = []\<rparr>"
  let ?w = "\<lparr>ww_clock = [0, 200, 300, 310], ww_arrivals = [Arrived [0x81], Nothing_Yet, Arrived [2, 104], Nothing_Yet, Arrived [105, 0x89]],
        ww_accepts = [], ww_random = [], ww_read = [], ww_sent = []\<rparr>"
  have e: "map_option fst (read_calls [(10, 100), (10, 100)] ?ws ?w) = Some [[104, 105]]"
    by (simp add: le_ws_read_text_def read_turns.simps read_frame_def read_body_def read_exact_progress.simps ws_recv.simps
        monotonic_ms_def forget_frame_def frame_opcode_def frame_payload_def header_size_def header_payload_def opcode_of_def
        is_fin_def OPCODE_TEXT_def OPCODE_PING_def OPCODE_PONG_def OPCODE_CLOSE_def LE_WS_MAX_PAYLOAD_def)
  then obtain ts ws' w' where r: "read_calls [(10, 100), (10, 100)] ?ws ?w = Some (ts, ws', w')" "ts = [[104, 105]]"
    by auto
  then show ?thesis using ws_reading_exact [OF r(1)] by (auto simp: held_def)
qed

section \<open>Sending\<close>

text \<open>
  The receiver of RFC 6455: the first frame of the bytes a client sent, its length in one of three forms, its payload
  unmasked with the key that follows the length.\<close>

fun unmask :: "bytes \<Rightarrow> bytes \<Rightarrow> bytes" where
  "unmask key [] = []"
| "unmask key (b # bs) = (b XOR hd key) # unmask (tl key @ [hd key]) bs"

definition server_reads :: "bytes \<Rightarrow> (bool \<times> byte \<times> bytes \<times> bytes) option" where
  "server_reads s =
     (if length s < 2 \<or> \<not> bit (s ! 1) 7 then None
      else
        let n7 = unat (take_bit 7 (s ! 1));
            k = (if n7 = 126 then 2 else if n7 = 127 then 8 else 0);
            n = (if k = 0 then n7 else foldl (\<lambda>v b. v * 256 + unat b) 0 (take k (drop 2 s)));
            after = drop k (drop 2 s);
            body = drop 4 after
        in if length s < 2 + k + 4 + n then None
           else Some (bit (s ! 0) 7, take_bit 4 (s ! 0), unmask (take 4 after) (take n body), drop n body))"

lemma unmask_masked:
  "length key = 4 \<Longrightarrow> unmask (rotate o1 key) (masked key o1 bs) = bs"
proof (induction bs arbitrary: o1)
  case (Cons b bs)
  have m: "masked key o1 (b # bs) = (b XOR key ! (o1 mod 4)) # masked key (Suc o1) bs"
    using masked_append [of key o1 "[b]" bs] by (simp add: masked_def)
  have "rotate o1 key \<noteq> []" using Cons.prems by auto
  moreover have "hd (rotate o1 key) = key ! (o1 mod 4)"
    using Cons.prems hd_rotate_conv_nth [of key o1] by fastforce
  moreover have "tl (rotate o1 key) @ [hd (rotate o1 key)] = rotate (Suc o1) key"
    using calculation(1) by (cases "rotate o1 key") (simp_all add: rotate_Suc)
  moreover have "unmask (rotate (Suc o1) key) (masked key (Suc o1) bs) = bs" using Cons by blast
  ultimately show ?case using m by (simp add: xor.assoc)
qed (simp add: masked_def)

lemma length_byte_value: "unat (length_byte len k) = len mod 2 ^ 64 div 2 ^ k mod 256"
proof -
  have "unat (length_byte len k) = unat (drop_bit k (of_nat len :: u64)) mod 256"
    by (simp add: length_byte_def unsigned_ucast_eq take_bit_eq_mod)
  also have "unat (drop_bit k (of_nat len :: u64)) = len mod 2 ^ 64 div 2 ^ k"
    unfolding unat_drop_bit_eq unfolding drop_bit_eq_div by (simp add: unat_of_nat take_bit_eq_mod)
  finally show ?thesis .
qed

lemma masked_length [simp]: "length (masked key o1 bs) = length bs"
  by (simp add: masked_def)

lemma length_bits:
  "n < 128 \<Longrightarrow> unat (take_bit 7 (0x80 OR of_nat n :: byte)) = n" "bit (0x80 OR b :: byte) 7"
proof -
  show "unat (take_bit 7 (0x80 OR of_nat n :: byte)) = n" if "n < 128"
    using that by (simp add: take_bit_of_nat unat_of_nat take_bit_nat_eq_self)
  show "bit (0x80 OR b :: byte) 7" by (simp add: bit_or_iff)
qed

lemma first_byte_bits:
  "opcode < 16 \<Longrightarrow> take_bit 4 (0x80 OR opcode :: byte) = opcode" "bit (0x80 OR opcode :: byte) 7"
proof -
  show "take_bit 4 (0x80 OR opcode :: byte) = opcode" if "opcode < 16"
  proof -
    have "unat opcode < 16" using that by (simp add: word_less_nat_alt)
    then have "take_bit 4 opcode = opcode" by (simp add: word_unat_eq_iff unsigned_take_bit_eq take_bit_nat_eq_self)
    then show ?thesis by simp
  qed
  show "bit (0x80 OR opcode :: byte) 7" by (simp add: bit_or_iff)
qed

lemma length_forms:
  "n \<le> 0xffff \<Longrightarrow> foldl (\<lambda>v b. v * 256 + unat b) 0 [length_byte n 8, of_nat n] = n"
  "n \<le> LE_WS_MAX_PAYLOAD \<Longrightarrow>
     foldl (\<lambda>v b. v * 256 + unat b) 0 (map (\<lambda>i. length_byte n (56 - i * 8)) [0..<8]) = n"
proof -
  show "foldl (\<lambda>v b. v * 256 + unat b) 0 [length_byte n 8, of_nat n] = n" if "n \<le> 0xffff"
    using that by (simp add: length_byte_value unat_of_nat take_bit_eq_mod)
  show "foldl (\<lambda>v b. v * 256 + unat b) 0 (map (\<lambda>i. length_byte n (56 - i * 8)) [0..<8]) = n"
    if "n \<le> LE_WS_MAX_PAYLOAD"
  proof -
    have n: "n \<le> 65536" using that by (simp add: LE_WS_MAX_PAYLOAD_def)
    then have "n div 2 ^ k = 0" if "17 \<le> k" for k
      using that power_increasing [of 17 k "2 :: nat"] by (intro div_less) simp
    then have "unat (length_byte n k) = 0" if "17 \<le> k" for k using that n by (simp add: length_byte_value)
    moreover have "n div 65536 mod 256 = n div 65536" using n by (intro mod_less) simp
    moreover have "n div 65536 * 256 + n div 256 mod 256 = n div 256"
      using div_mult2_eq [of n 256 256] by simp
    ultimately show ?thesis using n by (simp add: upt_rec length_byte_value)
  qed
qed

lemma server_reads_client_frame:
  assumes "length key = 4" "length payload \<le> LE_WS_MAX_PAYLOAD" "opcode < 16"
  shows "server_reads (client_frame key opcode payload @ rest) = Some (True, opcode, payload, rest)"
proof -
  define n where "n = length payload"
  have un: "unmask key (masked key 0 payload) = payload" using unmask_masked [OF assms(1), of 0] by simp
  consider "n < 126" | "126 \<le> n" "n \<le> 0xffff" | "0xffff < n" by linarith
  then show ?thesis
  proof cases
    case 1
    then show ?thesis
      using assms un length_bits(1) [of n] length_bits(2) [of "of_nat n"] first_byte_bits(1) [OF assms(3)] first_byte_bits(2) [of opcode]
      by (simp add: server_reads_def client_frame_def frame_header_def flip: n_def)
  next
    case 2
    then show ?thesis
      using assms un length_bits(1) [of 126] length_bits(2) [of 126] first_byte_bits(1) [OF assms(3)] first_byte_bits(2) [of opcode] length_forms(1) [of n]
      by (simp add: server_reads_def client_frame_def frame_header_def flip: n_def)
  next
    case 3
    have l: "length (map (\<lambda>i. length_byte n (56 - i * 8)) [0..<8]) = 8" by simp
    show ?thesis
      using 3 assms un length_bits(1) [of 127] length_bits(2) [of 127] first_byte_bits(1) [OF assms(3)] first_byte_bits(2) [of opcode] length_forms(2) [of n] l
      by (simp add: server_reads_def client_frame_def frame_header_def flip: n_def)
  qed
qed

text \<open>
  C35: a frame that was sent is read by the receiver.  Whatever pieces the stream takes the bytes in, whatever key was drawn
  and whichever of the three length forms the payload needs, the bytes written for a frame are read as one final,
  masked frame with the opcode and the payload, and what comes after it is left.\<close>

theorem ws_sent_frame_read:
  assumes "send_frame ws opcode payload w = (True, ws', w')" and "opcode < 16"
  shows "\<exists>s. ww_sent w' = ww_sent w @ s \<and> server_reads (s @ rest) = Some (True, opcode, payload, rest)"
proof -
  from send_frame_effect [OF assms(1)] obtain key where
    "length key = 4" "ww_sent w' = ww_sent w @ client_frame key opcode payload" "length payload \<le> LE_WS_MAX_PAYLOAD"
    by blast
  then show ?thesis using server_reads_client_frame assms(2) by blast
qed

lemma ws_sent_frame_read_witness:
  "\<exists>ws' w'. send_frame
       \<lparr>ws_urandom = True, ws_connected = True, ws_close_received = False, ws_send_timeout_ms = 0, ws_frames_in = 0,
        ws_frames_out = 0, ws_bytes_in = 0, ws_bytes_out = 0, ws_read_header = [], ws_read_payload = []\<rparr> OPCODE_TEXT [104, 105]
       \<lparr>ww_clock = [0, 10, 20], ww_arrivals = [], ww_accepts = [Took 1, Not_Now, Took 9, Took 2],
        ww_random = [Interrupted, Random [1, 2], Random [3, 4, 5]], ww_read = [], ww_sent = [7]\<rparr> = (True, ws', w') \<and>
     (\<exists>s. ww_sent w' = [7] @ s \<and> server_reads (s @ [9]) = Some (True, OPCODE_TEXT, [104, 105], [9]))"
proof -
  let ?ws = "\<lparr>ws_urandom = True, ws_connected = True, ws_close_received = False, ws_send_timeout_ms = 0, ws_frames_in = 0,
        ws_frames_out = 0, ws_bytes_in = 0, ws_bytes_out = 0, ws_read_header = [], ws_read_payload = []\<rparr>"
  let ?w = "\<lparr>ww_clock = [0, 10, 20], ww_arrivals = [], ww_accepts = [Took 1, Not_Now, Took 9, Took 2],
        ww_random = [Interrupted, Random [1, 2], Random [3, 4, 5]], ww_read = [], ww_sent = [7]\<rparr>"
  have "fst (send_frame ?ws OPCODE_TEXT [104, 105] ?w)"
    by (simp add: send_frame_def random_bytes_def frame_header_def write_all_def write_loop.simps send_chunks.simps
        masked_def monotonic_ms_def LE_WS_MAX_PAYLOAD_def)
  then obtain ws' w' where r: "send_frame ?ws OPCODE_TEXT [104, 105] ?w = (True, ws', w')"
    by (cases "send_frame ?ws OPCODE_TEXT [104, 105] ?w") auto
  have "OPCODE_TEXT < 16" by (simp add: OPCODE_TEXT_def)
  from ws_sent_frame_read [OF r this, of "[9]"] r show ?thesis by auto
qed

section \<open>Frames that are refused\<close>

text \<open>What the client does not take: extension bits, a mask, too long a payload, a fragment, a long control frame.\<close>

definition violation :: "bytes \<Rightarrow> bool" where
  "violation s \<longleftrightarrow> 2 \<le> length s \<and>
     (bit (s ! 0) 6 \<or> bit (s ! 0) 5 \<or> bit (s ! 0) 4 \<or> bit (s ! 1) 7 \<or>
      (header_size (s ! 1) \<le> length s \<and> LE_WS_MAX_PAYLOAD \<le> header_payload s) \<or>
      (header_size (s ! 1) + header_payload s \<le> length s \<and>
        (\<not> bit (s ! 0) 7 \<or> (bit (s ! 0) 3 \<and> 125 < header_payload s))))"

lemma bit_of_and:
  fixes b :: byte
  shows "b AND 0x70 \<noteq> 0 \<longleftrightarrow> bit b 6 \<or> bit b 5 \<or> bit b 4" "b AND 0x80 \<noteq> 0 \<longleftrightarrow> bit b 7"
    "OPCODE_CLOSE \<le> opcode_of b \<longleftrightarrow> bit b 3"
proof -
  have all8: "(\<forall>n<8. P n) \<longleftrightarrow> P 0 \<and> P 1 \<and> P 2 \<and> P 3 \<and> P 4 \<and> P 5 \<and> P 6 \<and> P (7 :: nat)" for P
    by (simp add: numeral_eq_Suc All_less_Suc) blast
  have eq8: "x = y \<longleftrightarrow> (\<forall>n<8. bit x n = bit y n)" for x y :: byte
    by (auto intro: bit_word_eqI)
  show "b AND 0x70 \<noteq> 0 \<longleftrightarrow> bit b 6 \<or> bit b 5 \<or> bit b 4" "b AND 0x80 \<noteq> 0 \<longleftrightarrow> bit b 7"
    by (auto simp: eq8 all8 bit_and_iff)
  have "opcode_of b = take_bit 4 b" by (simp add: opcode_of_def take_bit_eq_mask mask_eq_exp_minus_1)
  moreover have "bit b 3 \<longleftrightarrow> odd (unat b div 8)"

  proof -
    have "bit b 3 \<longleftrightarrow> bit (unat b) 3" by (simp add: bit_unsigned_iff)
    then show ?thesis by (simp add: bit_iff_odd [of "unat b"])
  qed
  moreover have "8 \<le> u mod 16 \<longleftrightarrow> odd (u div 8)" for u :: nat by presburger
  ultimately show "OPCODE_CLOSE \<le> opcode_of b \<longleftrightarrow> bit b 3"
    by (simp add: OPCODE_CLOSE_def word_le_nat_alt unsigned_take_bit_eq take_bit_eq_mod [of 4 "unat b"])
qed

lemma close_is_control: "opcode_of b = OPCODE_CLOSE \<Longrightarrow> bit b 3"
  using bit_of_and(3) [of b] by simp

lemma violation_malformed: "violation s \<Longrightarrow> next_frame (LE_WS_MAX_PAYLOAD - 1) s = Malformed"
  using header_size_range(1) [of "s ! 1"] bit_of_and(3) [of "s ! 0"] order_refl [of OPCODE_CLOSE]
  by (auto simp: violation_def next_frame_def bit_of_and frame_refused_def is_fin_def LE_WS_MAX_PAYLOAD_def
      dest: close_is_control)

text \<open>
  C36: a frame in violation ends the call with an error.  When the bytes that a call reads have such a frame, after any
  frames before it, the call fails and gives no text, however the bytes arrived.\<close>

theorem ws_violation_refused:
  assumes "le_ws_read_text out_size timeout_ms ws w = (res, out, ws', w')" and "held ws = []" and "ww_read w = []"
    and "violation (snd (all_frames (ww_read w')))"
  shows "res = Failed"
proof (rule ccontr)
  assume f: "res \<noteq> Failed"
  have ok: "resumable ws" using assms(2) by (simp add: resumable_def held_def)
  from le_ws_read_text_effect [OF assms(1) ok f] obtain fs where "call_read res out (ww_read w') fs ws'"
    using assms(2,3) by auto
  moreover have "next_frame (LE_WS_MAX_PAYLOAD - 1) (snd (all_frames (ww_read w'))) = Malformed"
    using assms(4) by (rule violation_malformed)
  ultimately show False using f
    by (cases res) (auto simp: call_read_def next_frame_def [of _ "[]"])
qed

lemma ws_violation_refused_witness:
  "\<exists>ws' w'. le_ws_read_text 10 100
       \<lparr>ws_urandom = True, ws_connected = True, ws_close_received = False, ws_send_timeout_ms = 0, ws_frames_in = 0,
        ws_frames_out = 0, ws_bytes_in = 0, ws_bytes_out = 0, ws_read_header = [], ws_read_payload = []\<rparr>
       \<lparr>ww_clock = [0], ww_arrivals = [Arrived [0x8A, 0], Arrived [0x81, 0x81, 1, 2, 3, 4, 5]],
        ww_accepts = [], ww_random = [], ww_read = [], ww_sent = []\<rparr> = (Failed, [], ws', w') \<and>
     ww_read w' = [0x8A, 0, 0x81, 0x81] \<and> violation (snd (all_frames (ww_read w')))"
proof -
  let ?ws = "\<lparr>ws_urandom = True, ws_connected = True, ws_close_received = False, ws_send_timeout_ms = 0, ws_frames_in = 0,
        ws_frames_out = 0, ws_bytes_in = 0, ws_bytes_out = 0, ws_read_header = [], ws_read_payload = []\<rparr>"
  let ?w = "\<lparr>ww_clock = [0], ww_arrivals = [Arrived [0x8A, 0], Arrived [0x81, 0x81, 1, 2, 3, 4, 5]],
        ww_accepts = [], ww_random = [], ww_read = [], ww_sent = []\<rparr>"
  obtain res out ws' w' where r: "le_ws_read_text 10 100 ?ws ?w = (res, out, ws', w')" by (rule prod_cases4)
  have w': "ww_read w' = [0x8A, 0, 0x81, 0x81] \<and> out = []"
    using r by (auto simp add: le_ws_read_text_def read_turns.simps read_frame_def read_body_def read_exact_progress.simps ws_recv.simps
        monotonic_ms_def forget_frame_def frame_opcode_def frame_payload_def header_size_def header_payload_def opcode_of_def
        is_fin_def OPCODE_TEXT_def OPCODE_PING_def OPCODE_PONG_def OPCODE_CLOSE_def LE_WS_MAX_PAYLOAD_def)
  then have v: "violation (snd (all_frames (ww_read w')))"
    by (simp add: all_frames.simps next_frame_def header_size_def header_payload_def frame_refused_def opcode_of_def
        is_fin_def OPCODE_CLOSE_def LE_WS_MAX_PAYLOAD_def violation_def)
  from ws_violation_refused [OF r _ _ v] have "res = Failed" by (simp add: held_def)
  then show ?thesis using r w' v by auto
qed

end
