(* ===== verification/Ws_Handshake.thy ===== *)
theory Ws_Handshake
  imports Ws_Reading Live_B64
begin

text \<open>
  The opening handshake of the WebSocket client (src/adapter/ws_client.c): the SHA-1 it brings for the
  accept check, the two readers of response headers and the exchange itself.

  As in the code a response is a C string: the readers see it up to a NUL byte.
\<close>

unbundle bit_operations_syntax

section \<open>SHA-1\<close>

text \<open>The block and its fill level are the list of the bytes in use.\<close>

record sha1 =
  s1_h :: "u32 list"
  s1_length :: u64
  s1_block :: bytes

definition rol :: "u32 \<Rightarrow> nat \<Rightarrow> u32" where
  "rol x n = push_bit n x OR drop_bit (32 - n) x"

definition sha1_init :: sha1 where
  "sha1_init = \<lparr>s1_h = [0x67452301, 0xEFCDAB89, 0x98BADCFE, 0x10325476, 0xC3D2E1F0], s1_length = 0, s1_block = []\<rparr>"

definition block_word :: "bytes \<Rightarrow> nat \<Rightarrow> u32" where
  "block_word b i =
     push_bit 24 (ucast (b ! (i * 4))) OR push_bit 16 (ucast (b ! (i * 4 + 1))) OR
     push_bit 8 (ucast (b ! (i * 4 + 2))) OR ucast (b ! (i * 4 + 3))"

definition block_words :: "bytes \<Rightarrow> u32 list" where
  "block_words b =
     fold (\<lambda>i w. w @ [rol (w ! (i - 3) XOR w ! (i - 8) XOR w ! (i - 14) XOR w ! (i - 16)) 1]) [16..<80]
       (map (block_word b) [0..<16])"

fun sha1_round :: "nat \<times> u32 \<Rightarrow> u32 \<times> u32 \<times> u32 \<times> u32 \<times> u32 \<Rightarrow> u32 \<times> u32 \<times> u32 \<times> u32 \<times> u32" where
  "sha1_round (i, w) (a, b, c, d, e) =
     (let (f, k) =
        (if i < 20 then ((b AND c) OR (NOT b AND d), 0x5A827999)
         else if i < 40 then (b XOR c XOR d, 0x6ED9EBA1)
         else if i < 60 then ((b AND c) OR (b AND d) OR (c AND d), 0x8F1BBCDC)
         else (b XOR c XOR d, 0xCA62C1D6))
      in (rol a 5 + f + e + k + w, a, rol b 30, c, d))"

definition sha1_block :: "u32 list \<Rightarrow> bytes \<Rightarrow> u32 list" where
  "sha1_block h block =
     (case fold sha1_round (enumerate 0 (block_words block)) (h ! 0, h ! 1, h ! 2, h ! 3, h ! 4) of
        (a, b, c, d, e) \<Rightarrow> [h ! 0 + a, h ! 1 + b, h ! 2 + c, h ! 3 + d, h ! 4 + e])"

text \<open>The loop fills the block; it never starts with a full one, where it would not advance.\<close>

function sha1_fill :: "sha1 \<Rightarrow> bytes \<Rightarrow> sha1" where
  "sha1_fill s p =
     (if p = [] \<or> 64 \<le> length (s1_block s) then s
      else
        let n = min (64 - length (s1_block s)) (length p);
            block = s1_block s @ take n p
        in sha1_fill
             (if length block = 64 then s\<lparr>s1_h := sha1_block (s1_h s) block, s1_block := []\<rparr> else s\<lparr>s1_block := block\<rparr>)
             (drop n p))"
  by auto
termination by (relation "measure (length o snd)") auto

declare sha1_fill.simps [simp del]

definition sha1_update :: "sha1 \<Rightarrow> bytes \<Rightarrow> sha1" where
  "sha1_update s p = sha1_fill (s\<lparr>s1_length := s1_length s + of_nat (length p)\<rparr>) p"

text \<open>Zeros up to the length of the last block, which comes at the latest after 64 of them.\<close>

fun sha1_zeros :: "nat \<Rightarrow> sha1 \<Rightarrow> sha1" where
  "sha1_zeros 0 s = s"
| "sha1_zeros (Suc k) s = (if length (s1_block s) = 56 then s else sha1_zeros k (sha1_update s [0]))"

definition sha1_final :: "sha1 \<Rightarrow> bytes" where
  "sha1_final s =
     (let bits = s1_length s * 8;
          padded = sha1_zeros 64 (sha1_update s [0x80]);
          last_block = sha1_update padded (map (\<lambda>i. ucast (drop_bit (56 - i * 8) bits)) [0..<8])
      in concat (map (\<lambda>x. [ucast (drop_bit 24 x), ucast (drop_bit 16 x), ucast (drop_bit 8 x), ucast x])
           (take 5 (s1_h last_block))))"

section \<open>The accept check\<close>

definition WS_GUID :: string where "WS_GUID = ''258EAFA5-E914-47DA-95CA-C5AB0DC85B11''"

definition crlf :: string where "crlf = [char_of (13 :: nat), char_of (10 :: nat)]"

definition char_bytes :: "string \<Rightarrow> bytes" where
  "char_bytes s = map (\<lambda>c. of_nat (of_char c)) s"

definition expected_accept :: "string \<Rightarrow> string" where
  "expected_accept key = le_b64_encode (sha1_final (sha1_update sha1_init (char_bytes (key @ WS_GUID)))) 64"

definition blank :: "char \<Rightarrow> bool" where "blank c \<longleftrightarrow> ord c = 32 \<or> ord c = 9"

definition same_ci :: "string \<Rightarrow> string \<Rightarrow> bool" where
  "same_ci a b \<longleftrightarrow> map tolower a = map tolower b"

text \<open>What comes before and after the first colon, wherever it is.\<close>

definition at_colon :: "string \<Rightarrow> (string \<times> string) option" where
  "at_colon s =
     (case dropWhile (\<lambda>c. c \<noteq> CHR '':'') s of [] \<Rightarrow> None | _ # after \<Rightarrow> Some (takeWhile (\<lambda>c. c \<noteq> CHR '':'') s, after))"

definition value_accepted :: "string \<Rightarrow> string \<Rightarrow> bool" where
  "value_accepted expected v \<longleftrightarrow>
     (case strip_prefix expected (dropWhile blank v) of
        None \<Rightarrow> False | Some r \<Rightarrow> r \<noteq> [] \<and> (ord (hd r) = 13 \<or> ord (hd r) = 10))"

function accept_scan :: "string \<Rightarrow> string \<Rightarrow> bool" where
  "accept_scan expected header =
     (case strstr header crlf of
        None \<Rightarrow> False
      | Some t \<Rightarrow>
          (case at_colon (drop 2 t) of
             None \<Rightarrow> False
           | Some (name, after) \<Rightarrow>
               if same_ci name ''Sec-WebSocket-Accept'' then value_accepted expected after
               else accept_scan expected (drop 2 t)))"
  by pat_completeness auto
termination
proof (relation "measure (length o snd)")
  fix expected header t p name after
  assume "strstr header crlf = Some t"
  then show "((expected, drop 2 t), expected, header) \<in> measure (length \<circ> snd)"
    using strstr_length [of header crlf t] strstr_Some [of header crlf t] by (auto simp: crlf_def)
qed simp

declare accept_scan.simps [simp del]

definition accept_matches :: "string \<Rightarrow> string \<Rightarrow> bool" where
  "accept_matches response key =
     (length (key @ WS_GUID) < 128 \<and> expected_accept key \<noteq> [] \<and> accept_scan (expected_accept key) response)"

section \<open>Tokens of a header\<close>

definition separator :: "char \<Rightarrow> bool" where "separator c \<longleftrightarrow> blank c \<or> c = CHR '',''"

function has_item :: "string \<Rightarrow> string \<Rightarrow> bool" where
  "has_item token s =
     (if s = [] then False
      else
        let v = dropWhile separator s
        in same_ci (takeWhile (Not \<circ> separator) v) token \<or> has_item token (dropWhile (Not \<circ> separator) v))"
  by pat_completeness auto
termination
proof (relation "measure (length o snd)")
  fix token s v :: string
  assume s: "s \<noteq> []" and v: "v = dropWhile separator s"
  have "length (dropWhile P t) \<le> length t" for P and t :: string by (induction t) auto
  then have le: "length v \<le> length s" "length (dropWhile (Not \<circ> separator) v) \<le> length v" by (simp_all add: v)
  have "length (dropWhile (Not \<circ> separator) v) < length s"
  proof (cases v)
    case Nil
    then show ?thesis using s by simp
  next
    case (Cons c cs)
    then have "\<not> separator c" using v by (metis hd_dropWhile list.distinct(1) list.sel(1))
    then have "length (dropWhile (Not \<circ> separator) v) \<le> length cs"
      using \<open>\<And>P t. length (dropWhile P t) \<le> length t\<close> Cons by simp
    then show ?thesis using le Cons by simp
  qed
  then show "((token, dropWhile (Not \<circ> separator) v), token, s) \<in> measure (length \<circ> snd)" by simp
qed simp

declare has_item.simps [simp del]

function response_header_has_token :: "string \<Rightarrow> string \<Rightarrow> string \<Rightarrow> bool" where
  "response_header_has_token line header_name token =
     (case strstr line crlf of
        None \<Rightarrow> False
      | Some t \<Rightarrow>
          (case at_colon (drop 2 t) of
             None \<Rightarrow> False
           | Some (name, v) \<Rightarrow>
               if \<not> same_ci name header_name then response_header_has_token (drop 2 t) header_name token
               else
                 (case strstr v crlf of
                    None \<Rightarrow> False
                  | Some e \<Rightarrow> has_item token (take (length v - length e) v))))"
  by pat_completeness auto
termination
proof (relation "measure (length o fst)")
  fix line header_name token t p name v
  assume "strstr line crlf = Some t"
  then show "((drop 2 t, header_name, token), line, header_name, token) \<in> measure (length \<circ> fst)"
    using strstr_length [of line crlf t] strstr_Some [of line crlf t] by (auto simp: crlf_def)
qed simp

declare response_header_has_token.simps [simp del]

section \<open>The exchange\<close>

text \<open>Headers are read one byte at a time up to the blank line.\<close>

datatype response_outcome = Response string | Too_Large | No_Answer | Closed_Early

definition byte_char :: "byte \<Rightarrow> char" where "byte_char b = char_of (unat b)"

function read_response :: "nat \<Rightarrow> bytes \<Rightarrow> ws_world \<Rightarrow> response_outcome \<times> ws_world" where
  "read_response deadline response w =
     (if 2048 \<le> length response + 1 then (Too_Large, w)
      else
        case read_exact_progress 1 deadline [] w of
          (Read_Timeout, _, w1) \<Rightarrow> (No_Answer, w1)
        | (Read_Error, _, w1) \<Rightarrow> (Closed_Early, w1)
        | (Read_Closed, _, w1) \<Rightarrow> (Closed_Early, w1)
        | (Read_Done, b, w1) \<Rightarrow>
            let response1 = response @ take 1 b
            in if 4 \<le> length response1 \<and> drop (length response1 - 4) response1 = [13, 10, 13, 10]
               then (Response (map byte_char response1), w1)
               else read_response deadline response1 w1)"
  by pat_completeness auto
termination
proof (relation "measure (\<lambda>(deadline, response, w). 2048 - length response)", goal_cases)
  case (2 deadline response w x y b w1 response1)
  then have r: "read_exact_progress 1 deadline [] w = (Read_Done, b, w1)" by simp
  have "length response1 = length response + 1"
    using read_exact_progress_effect [OF r] 2(5) by auto
  then show ?case using 2(1) by simp
qed simp

declare read_response.simps [simp del]

definition handshake_request :: "string \<Rightarrow> string \<Rightarrow> string \<Rightarrow> string \<Rightarrow> string" where
  "handshake_request path host key extra_headers =
     ''GET '' @ path @ '' HTTP/1.1'' @ crlf @ ''Host: '' @ host @ crlf @ ''Upgrade: websocket'' @ crlf @
     ''Connection: Upgrade'' @ crlf @ ''Sec-WebSocket-Key: '' @ key @ crlf @ ''Sec-WebSocket-Version: 13'' @ crlf @
     extra_headers @ crlf"

definition c_string :: "string \<Rightarrow> string" where
  "c_string s = takeWhile (\<lambda>c. ord c \<noteq> 0) s"

definition switched :: "string \<Rightarrow> bool" where
  "switched response \<longleftrightarrow>
     strip_prefix ''HTTP/1.1 101 '' response \<noteq> None \<or> strip_prefix ''HTTP/1.0 101 '' response \<noteq> None"

definition upgrade_verified :: "string \<Rightarrow> string \<Rightarrow> bool" where
  "upgrade_verified response key \<longleftrightarrow>
     response_header_has_token response ''Upgrade'' ''websocket'' \<and>
     response_header_has_token response ''Connection'' ''upgrade'' \<and> accept_matches response key"

definition fresh_ws :: le_ws where
  "fresh_ws =
     \<lparr>ws_urandom = True, ws_connected = False, ws_close_received = False, ws_send_timeout_ms = 0, ws_frames_in = 0,
      ws_frames_out = 0, ws_bytes_in = 0, ws_bytes_out = 0, ws_read_header = [], ws_read_payload = []\<rparr>"

text \<open>The sentence for the caller is cut to its buffer; \<open>urandom\<close> says whether the random device opens.\<close>

definition say :: "nat \<Rightarrow> string \<Rightarrow> string" where
  "say detail_size message = take (detail_size - 1) (''GPT-Live unavailable: '' @ message)"

definition le_ws_connect ::
  "bool \<Rightarrow> string \<Rightarrow> string \<Rightarrow> string \<Rightarrow> int \<Rightarrow> nat \<Rightarrow> ws_world \<Rightarrow> (string + unit) \<times> le_ws \<times> ws_world" where
  "le_ws_connect urandom host path extra_headers timeout_ms detail_size w =
     (let ws = fresh_ws; fail = (\<lambda>message w. (Inl (say detail_size message), le_ws_close ws, w));
          no_random = ''no source of random for the socket handshake.''
      in if \<not> urandom then fail no_random w
         else
           case random_bytes ws 16 w of
             (None, w1) \<Rightarrow> fail no_random w1
           | (Some nonce, w1) \<Rightarrow>
               let key = le_b64_encode nonce 32; request = handshake_request path host key extra_headers
               in if key = [] then fail no_random w1
                  else if 1024 \<le> length request then fail ''handshake too large.'' w1
                  else
                    let (now, w2) = monotonic_ms w1;
                        deadline = now + nat (if 0 < timeout_ms then timeout_ms else 8000)
                    in case write_all ws (char_bytes request) w2 of
                         (False, w3) \<Rightarrow> fail ''could not send the handshake.'' w3
                       | (True, w3) \<Rightarrow>
                           (case read_response deadline [] w3 of
                              (Too_Large, w4) \<Rightarrow> fail ''handshake response too large.'' w4
                            | (No_Answer, w4) \<Rightarrow> fail ''the server did not answer in time.'' w4
                            | (Closed_Early, w4) \<Rightarrow> fail ''the connection closed during the handshake.'' w4
                            | (Response response, w4) \<Rightarrow>
                                if \<not> switched (c_string response) then fail ''the server refused the WebSocket upgrade.'' w4
                                else if \<not> upgrade_verified (c_string response) key
                                  then fail ''the WebSocket handshake did not verify.'' w4
                                else (Inr (), ws\<lparr>ws_connected := True\<rparr>, w4)))"

section \<open>What is read of the stream\<close>

definition ends_headers :: "bytes \<Rightarrow> bool" where
  "ends_headers r \<longleftrightarrow> 4 \<le> length r \<and> drop (length r - 4) r = [13, 10, 13, 10]"

lemma read_response_exact:
  "read_response deadline response w = (Response text, w') \<Longrightarrow>
   \<exists>d. d \<noteq> [] \<and> ww_read w' = ww_read w @ d \<and> text = map byte_char (response @ d) \<and> ends_headers (response @ d) \<and>
     (\<forall>k. 0 < k \<and> k < length d \<longrightarrow> \<not> ends_headers (response @ take k d)) \<and> length (response @ d) < 2048 \<and>
     ww_sent w' = ww_sent w"
proof (induction deadline response w rule: read_response.induct)
  case (1 deadline response w)
  obtain q b w1 where re: "read_exact_progress 1 deadline [] w = (q, b, w1)" by (rule prod_cases3)
  have short: "length response + 1 < 2048" and q: "q = Read_Done"
    using 1(2) re by (subst (asm) read_response.simps, simp split: if_splits read_outcome.splits)+
  from read_exact_progress_effect [OF re] q
  have b: "length b = 1" "ww_read w1 = ww_read w @ b" "ww_sent w1 = ww_sent w" by auto
  then obtain c where c: "b = [c]" by (cases b) auto
  show ?case
  proof (cases "ends_headers (response @ b)")
    case True
    then have "text = map byte_char (response @ b) \<and> w' = w1"
      using 1(2) re q short by (subst (asm) read_response.simps) (simp add: ends_headers_def Let_def c)
    then show ?thesis using True b short by (intro exI [of _ b]) auto
  next
    case False
    then have rr: "read_response deadline (response @ b) w1 = (Response text, w')"
      using 1(2) re q short by (subst (asm) read_response.simps) (auto simp: ends_headers_def Let_def c)
    from 1(1) [OF _ re [symmetric] q refl refl] rr short False obtain d where
      d: "ww_read w' = ww_read w1 @ d" "text = map byte_char ((response @ b) @ d)" "ends_headers ((response @ b) @ d)"
        "\<forall>k. 0 < k \<and> k < length d \<longrightarrow> \<not> ends_headers ((response @ b) @ take k d)" "length ((response @ b) @ d) < 2048"
        "ww_sent w' = ww_sent w1" "d \<noteq> []"
      by (auto simp: ends_headers_def c)
    have "\<not> ends_headers (response @ take k (b @ d))" if "0 < k" "k < length (b @ d)" for k
    proof (cases "k = 1")
      case True
      then show ?thesis using False b(1) by simp
    next
      case False
      then have "take k (b @ d) = b @ take (k - 1) d" "0 < k - 1" "k - 1 < length d" using that b(1) by simp_all
      then show ?thesis using d(4) by simp
    qed
    then show ?thesis using d b by (intro exI [of _ "b @ d"]) auto
  qed
qed

section \<open>What the readers of the response find\<close>

text \<open>A response in order: a status line, header fields and the blank line.\<close>

definition cr :: char where "cr = char_of (13 :: nat)"
definition lf :: char where "lf = char_of (10 :: nat)"

fun render_fields :: "(string \<times> string) list \<Rightarrow> string" where
  "render_fields [] = crlf"
| "render_fields ((n, v) # fs) = n @ CHR '':'' # v @ crlf @ render_fields fs"

definition render :: "string \<Rightarrow> (string \<times> string) list \<Rightarrow> string" where
  "render status fs = status @ crlf @ render_fields fs"

definition field_ok :: "string \<times> string \<Rightarrow> bool" where
  "field_ok f \<longleftrightarrow> CHR '':'' \<notin> set (fst f) \<and> cr \<notin> set (fst f) \<and> cr \<notin> set (snd f) \<and> lf \<notin> set (snd f)"

definition first_field :: "string \<Rightarrow> (string \<times> string) list \<Rightarrow> string option" where
  "first_field h fs = map_option snd (find (\<lambda>(n, v). same_ci n h) fs)"

text \<open>A value lists a token when the token stands in it between separators.\<close>

definition lists_token :: "string \<Rightarrow> string \<Rightarrow> bool" where
  "lists_token v token \<longleftrightarrow>
     (\<exists>a item b. v = a @ item @ b \<and> (a = [] \<or> separator (last a)) \<and> (b = [] \<or> separator (hd b)) \<and>
        list_all (Not \<circ> separator) item \<and> same_ci item token)"

lemma crlf_cr: "crlf = [cr, lf]"
  by (simp add: crlf_def cr_def lf_def)

lemma next_line: "cr \<notin> set p \<Longrightarrow> strstr (p @ crlf @ s) crlf = Some (crlf @ s)"
  using strstr_skip [of cr p "crlf @ s" "[lf]"] by (simp add: crlf_cr strstr_here)

lemma at_colon_field: "CHR '':'' \<notin> set n \<Longrightarrow> at_colon (n @ CHR '':'' # s) = Some (n, s)"
proof -
  assume "CHR '':'' \<notin> set n"
  then have "dropWhile (\<lambda>c. c \<noteq> CHR '':'') (n @ CHR '':'' # s) = CHR '':'' # s \<and>
      takeWhile (\<lambda>c. c \<noteq> CHR '':'') (n @ CHR '':'' # s) = n" by (induction n) auto
  then show ?thesis by (simp add: at_colon_def)
qed

lemma cr_not_colon [simp]: "cr \<noteq> CHR '':''" "lf \<noteq> CHR '':''" "cr \<noteq> lf"
  by (code_simp, code_simp, code_simp)

lemma at_colon_end: "at_colon crlf = None"
  by (simp add: at_colon_def crlf_cr)

lemma drop_crlf [simp]: "drop 2 (crlf @ s) = s"
  by (simp add: crlf_def)

lemma first_field_simps [simp]:
  "first_field h [] = None"
  "first_field h ((n, v) # fs) = (if same_ci n h then Some v else first_field h fs)"
  by (simp_all add: first_field_def)

lemma same_line_prefix:
  "cr \<notin> set a \<Longrightarrow> lf \<notin> set a \<Longrightarrow> cr \<notin> set b \<Longrightarrow> lf \<notin> set b \<Longrightarrow>
   (\<exists>r. b @ crlf @ s = a @ r \<and> r \<noteq> [] \<and> (hd r = cr \<or> hd r = lf)) \<longleftrightarrow> b = a"
proof (induction a arbitrary: b)
  case Nil
  then show ?case by (cases b) (auto simp: crlf_cr)
next
  case (Cons x a)
  then show ?case by (cases b) (auto simp: crlf_cr)
qed

lemma value_accepted_line:
  assumes "cr \<notin> set expected" "lf \<notin> set expected" "cr \<notin> set v" "lf \<notin> set v"
  shows "value_accepted expected (v @ crlf @ s) \<longleftrightarrow> dropWhile blank v = expected"
proof -
  have d: "dropWhile blank (v @ crlf @ s) = dropWhile blank v @ crlf @ s"
    using assms(3) by (induction v) (auto simp: crlf_cr blank_def cr_def)
  have sub: "set (dropWhile blank v) \<subseteq> set v" using set_dropWhileD by fastforce
  have "value_accepted expected (v @ crlf @ s) \<longleftrightarrow>
      (\<exists>r. dropWhile blank v @ crlf @ s = expected @ r \<and> r \<noteq> [] \<and> (hd r = cr \<or> hd r = lf))"
    unfolding value_accepted_def d
    by (cases "strip_prefix expected (dropWhile blank v @ crlf @ s)")
      (auto simp: strip_prefix_Some cr_def lf_def char_eq_ord simp flip: not_None_eq)
  then show ?thesis
    using same_line_prefix [of expected "dropWhile blank v" s] assms sub by blast
qed

lemma accept_scan_fields:
  "cr \<notin> set p \<Longrightarrow> list_all field_ok fs \<Longrightarrow> cr \<notin> set expected \<Longrightarrow> lf \<notin> set expected \<Longrightarrow>
   accept_scan expected (p @ crlf @ render_fields fs) =
     (case first_field ''Sec-WebSocket-Accept'' fs of
        None \<Rightarrow> False | Some v \<Rightarrow> dropWhile blank v = expected)"
proof (induction fs arbitrary: p)
  case Nil
  then show ?case by (subst accept_scan.simps) (simp add: next_line at_colon_end del: drop_append)
next
  case (Cons f fs)
  obtain n v where f: "f = (n, v)" by (cases f) blast
  have ok: "CHR '':'' \<notin> set n" "cr \<notin> set (n @ CHR '':'' # v)" "cr \<notin> set v" "lf \<notin> set v"
    using Cons.prems(2) by (auto simp: field_ok_def f)
  have IH: "accept_scan expected ((n @ CHR '':'' # v) @ crlf @ render_fields fs) =
      (case first_field ''Sec-WebSocket-Accept'' fs of None \<Rightarrow> False | Some v \<Rightarrow> dropWhile blank v = expected)"
    using Cons.IH [OF ok(2)] Cons.prems by simp
  show ?case
    using Cons.prems(1,3,4) ok IH value_accepted_line [of expected v]
    by (subst accept_scan.simps) (simp add: next_line at_colon_field f del: drop_append)
qed

lemma same_ci_Nil [simp]: "same_ci [] t \<longleftrightarrow> t = []"
  by (simp add: same_ci_def)

lemma lists_skip:
  assumes "token \<noteq> []"
  shows "lists_token s token \<longleftrightarrow> lists_token (dropWhile separator s) token"
proof (induction s)
  case (Cons c s)
  have "lists_token (c # s) token \<longleftrightarrow> lists_token s token" if "separator c"
  proof
    assume "lists_token (c # s) token"
    then obtain a item b where l: "c # s = a @ item @ b" "a = [] \<or> separator (last a)" "b = [] \<or> separator (hd b)"
        "list_all (Not \<circ> separator) item" "same_ci item token" unfolding lists_token_def by blast
    have "item \<noteq> []" using l(5) assms by auto
    then have "a \<noteq> []" using l(1,4) that by (cases a; cases item) auto
    then obtain a' where a: "a = c # a'" using l(1) by (cases a) auto
    then have "s = a' @ item @ b" "a' = [] \<or> separator (last a')" using l(1,2) by (auto split: if_splits)
    then show "lists_token s token" using l unfolding lists_token_def by blast
  next
    assume "lists_token s token"
    then obtain a item b where l: "s = a @ item @ b" "a = [] \<or> separator (last a)" "b = [] \<or> separator (hd b)"
        "list_all (Not \<circ> separator) item" "same_ci item token" unfolding lists_token_def by blast
    then have "c # s = (c # a) @ item @ b" "separator (last (c # a))" using that by auto
    then show "lists_token (c # s) token" using l unfolding lists_token_def by blast
  qed
  then show ?case using Cons by simp
qed simp

lemma lists_word:
  assumes "token \<noteq> []" and w: "list_all (Not \<circ> separator) w" and r: "r = [] \<or> separator (hd r)"
  shows "lists_token (w @ r) token \<longleftrightarrow> same_ci w token \<or> lists_token r token"
proof
  assume "lists_token (w @ r) token"
  then obtain a item b where l: "w @ r = a @ item @ b" "a = [] \<or> separator (last a)" "b = [] \<or> separator (hd b)"
      "list_all (Not \<circ> separator) item" "same_ci item token" unfolding lists_token_def by blast
  have ne: "item \<noteq> []" using l(5) assms(1) by auto
  show "same_ci w token \<or> lists_token r token"
  proof (cases "length a < length w")
    case True
    then obtain w' where w': "w = a @ w'" "w' @ r = item @ b" using l(1) by (auto simp: append_eq_append_conv2)
    have "a = []" using l(2) w w'(1) by (cases a rule: rev_cases) auto
    then have eq: "w @ r = item @ b" using w' by simp
    have "w = item"
    proof (cases "length item \<le> length w")
      case True
      then obtain u where u: "w = item @ u" "b = u @ r" using eq by (auto simp: append_eq_append_conv2)
      then show ?thesis using l(3) w by (cases u) auto
    next
      case False
      then obtain u where u: "item = w @ u" "r = u @ b" using eq by (auto simp: append_eq_append_conv2)
      then show ?thesis using r l(4) False by (cases u) auto
    qed
    then show ?thesis using l(5) by simp
  next
    case False
    then obtain u where u: "a = w @ u" "r = u @ item @ b" using l(1) by (auto simp: append_eq_append_conv2)
    moreover have "u = [] \<or> separator (last u)" using l(2) u(1) by (cases u rule: rev_cases) auto
    ultimately show ?thesis using l unfolding lists_token_def by blast
  qed
next
  assume "same_ci w token \<or> lists_token r token"
  then show "lists_token (w @ r) token"
  proof
    assume "same_ci w token"
    then show ?thesis using w r unfolding lists_token_def by (intro exI [of _ "[]"] exI [of _ w] exI [of _ r]) simp
  next
    assume "lists_token r token"
    then obtain a item b where l: "r = a @ item @ b" "a = [] \<or> separator (last a)" "b = [] \<or> separator (hd b)"
        "list_all (Not \<circ> separator) item" "same_ci item token" unfolding lists_token_def by blast
    have ne: "item \<noteq> []" using l(5) assms(1) by auto
    have "a \<noteq> [] \<or> w = []" using r l(1,4) ne by (cases a; cases item) auto
    then have "w @ a = [] \<or> separator (last (w @ a))" using l(2) by auto
    moreover have "w @ r = (w @ a) @ item @ b" using l(1) by simp
    ultimately show ?thesis using l unfolding lists_token_def by blast
  qed
qed

lemma has_item_lists: "token \<noteq> [] \<Longrightarrow> has_item token s = lists_token s token"
proof (induction token s rule: has_item.induct)
  case (1 token s)
  show ?case
  proof (cases "s = []")
    case True
    then show ?thesis using 1(2) by (subst has_item.simps) (auto simp: lists_token_def same_ci_def)
  next
    case False
    define v where "v = dropWhile separator s"
    define w where "w = takeWhile (Not \<circ> separator) v"
    define r where "r = dropWhile (Not \<circ> separator) v"
    have "has_item token s \<longleftrightarrow> same_ci w token \<or> has_item token r"
      using False by (subst has_item.simps) (simp add: Let_def v_def w_def r_def)
    moreover have "lists_token s token \<longleftrightarrow> lists_token (w @ r) token"
      using lists_skip [OF 1(2), of s] by (simp add: v_def w_def r_def)
    moreover have "list_all (Not \<circ> separator) w"
      unfolding w_def list_all_iff using set_takeWhileD by fastforce
    moreover have "r = [] \<or> separator (hd r)"
      using hd_dropWhile [of "Not \<circ> separator" v] by (auto simp: r_def)
    moreover have "has_item token r = lists_token r token" if "\<not> same_ci w token"
      using 1(1) [OF False v_def] 1(2) that by (simp add: w_def r_def)
    ultimately show ?thesis using lists_word [OF 1(2)] by blast
  qed
qed

lemma has_token_fields:
  "cr \<notin> set p \<Longrightarrow> list_all field_ok fs \<Longrightarrow> token \<noteq> [] \<Longrightarrow>
   response_header_has_token (p @ crlf @ render_fields fs) h token =
     (case first_field h fs of None \<Rightarrow> False | Some v \<Rightarrow> lists_token v token)"
proof (induction fs arbitrary: p)
  case Nil
  then show ?case
    by (subst response_header_has_token.simps) (simp add: next_line at_colon_end del: drop_append)
next
  case (Cons f fs)
  obtain n v where f: "f = (n, v)" by (cases f) blast
  have ok: "CHR '':'' \<notin> set n" "cr \<notin> set (n @ CHR '':'' # v)" "cr \<notin> set v"
    using Cons.prems(2) by (auto simp: field_ok_def f)
  have IH: "response_header_has_token ((n @ CHR '':'' # v) @ crlf @ render_fields fs) h token =
      (case first_field h fs of None \<Rightarrow> False | Some v \<Rightarrow> lists_token v token)"
    using Cons.IH [OF ok(2)] Cons.prems by simp
  show ?case
    using Cons.prems(1,3) ok IH next_line [of v "render_fields fs"]
    by (subst response_header_has_token.simps) (simp add: next_line at_colon_field f has_item_lists del: drop_append)
qed

section \<open>A verified upgrade\<close>

lemma sha1_block_length: "length (sha1_block h block) = 5"
  by (simp add: sha1_block_def split: prod.split)

lemma sha1_fill_length: "length (s1_h s) = 5 \<Longrightarrow> length (s1_h (sha1_fill s p)) = 5"
proof (induction s p rule: sha1_fill.induct)
  case (1 s p)
  then show ?case by (subst sha1_fill.simps) (auto simp: Let_def sha1_block_length)
qed

lemma sha1_update_length: "length (s1_h s) = 5 \<Longrightarrow> length (s1_h (sha1_update s p)) = 5"
  by (simp add: sha1_update_def sha1_fill_length)

lemma sha1_zeros_length: "length (s1_h s) = 5 \<Longrightarrow> length (s1_h (sha1_zeros k s)) = 5"
  by (induction k s rule: sha1_zeros.induct) (simp_all add: sha1_update_length)

lemma sha1_final_length: "length (s1_h s) = 5 \<Longrightarrow> length (sha1_final s) = 20"
proof -
  assume "length (s1_h s) = 5"
  then have "length (s1_h (sha1_update (sha1_zeros 64 (sha1_update s [0x80])) q)) = 5" for q
    by (simp add: sha1_update_length sha1_zeros_length)
  moreover have "length (concat (map (\<lambda>x. [f x, g x, h x, k x]) ys)) = 4 * length ys"
    for f g h k :: "u32 \<Rightarrow> byte" and ys by (induction ys) simp_all
  ultimately show ?thesis by (simp add: sha1_final_def Let_def)
qed

lemma b64_digit_chars: "b64_digit g k \<in> set alphabet"
  using six_bits [of "drop_bit k g"] length_alphabet by (simp add: b64_digit_def)

lemma b64_chars: "set (b64_encode_loop xs) \<subseteq> insert (CHR ''='') (set alphabet)"
  by (induction xs rule: b64_encode_loop.induct) (simp_all add: Let_def b64_digit_chars)

lemma expected_accept_line:
  "expected_accept key \<noteq> [] \<and> cr \<notin> set (expected_accept key) \<and> lf \<notin> set (expected_accept key) \<and>
   list_all (Not \<circ> blank) (expected_accept key)"
proof -
  define d where "d = sha1_final (sha1_update sha1_init (char_bytes (key @ WS_GUID)))"
  have d: "length d = 20" unfolding d_def by (intro sha1_final_length sha1_update_length) (simp add: sha1_init_def)
  then have e: "expected_accept key = b64_encode_loop d"
    by (simp add: expected_accept_def le_b64_encode_def le_b64_encoded_size_def flip: d_def)
  have "length (expected_accept key) = 28" using d by (simp add: e length_encode_loop le_b64_encoded_size_def)
  moreover have "cr \<notin> insert (CHR ''='') (set alphabet)" "lf \<notin> insert (CHR ''='') (set alphabet)"
    by (code_simp, code_simp)
  moreover have "list_all (Not \<circ> blank) (CHR ''='' # alphabet)" by code_simp
  then have "c \<in> insert (CHR ''='') (set alphabet) \<Longrightarrow> \<not> blank c" for c by (auto simp: list_all_iff)
  then have "list_all (Not \<circ> blank) (expected_accept key)" using b64_chars [of d] e by (auto simp: list_all_iff)
  ultimately show ?thesis using b64_chars [of d] e by auto
qed

text \<open>
  C37: what makes an upgrade verified.  For a response in order the first fields named Upgrade and Connection,
  whatever the case of their letters, must list the tokens, and the first accept field must have exactly the
  digest of the key as its value; nothing else counts.\<close>

theorem ws_upgrade_verified_iff:
  assumes "cr \<notin> set status" and "list_all field_ok fs" and "length key < 92"
  shows "upgrade_verified (render status fs) key \<longleftrightarrow>
    (\<exists>u. first_field ''Upgrade'' fs = Some u \<and> lists_token u ''websocket'') \<and>
    (\<exists>c. first_field ''Connection'' fs = Some c \<and> lists_token c ''upgrade'') \<and>
    (\<exists>a. first_field ''Sec-WebSocket-Accept'' fs = Some a \<and> dropWhile blank a = expected_accept key)"
  using has_token_fields [OF assms(1,2), of "''websocket''" "''Upgrade''"]
    has_token_fields [OF assms(1,2), of "''upgrade''" "''Connection''"]
    accept_scan_fields [OF assms(1,2), of "expected_accept key"] expected_accept_line [of key] assms(3)
  by (simp add: upgrade_verified_def accept_matches_def render_def WS_GUID_def split: option.splits)

lemma ws_upgrade_verified_iff_witness:
  "upgrade_verified (render ''HTTP/1.1 101 Switching''
     [(''UPGRADE'', ''h2, WebSocket''), (''Connection'', '' keep-alive, Upgrade''),
      (''Sec-WebSocket-Accept'', '' '' @ expected_accept ''abc'')]) ''abc''"
proof -
  let ?fs = "[(''UPGRADE'', ''h2, WebSocket''), (''Connection'', '' keep-alive, Upgrade''),
      (''Sec-WebSocket-Accept'', '' '' @ expected_accept ''abc'')]"
  have cl: "cr \<notin> set ''HTTP/1.1 101 Switching''" by code_simp
  have "list_all field_ok [(''UPGRADE'', ''h2, WebSocket''), (''Connection'', '' keep-alive, Upgrade'')]"
    "field_ok (''Sec-WebSocket-Accept'', '' '')" by (code_simp, code_simp)
  then have ok: "list_all field_ok ?fs" using expected_accept_line [of "''abc''"] by (auto simp: field_ok_def)
  have t: "lists_token ''h2, WebSocket'' ''websocket''" "lists_token '' keep-alive, Upgrade'' ''upgrade''"
    by (simp_all flip: has_item_lists) (code_simp, code_simp)
  have ci: "same_ci ''UPGRADE'' ''Upgrade''" "\<not> same_ci ''UPGRADE'' ''Connection''" "same_ci ''Connection'' ''Connection''"
    "\<not> same_ci ''UPGRADE'' ''Sec-WebSocket-Accept''" "\<not> same_ci ''Connection'' ''Sec-WebSocket-Accept''"
    "same_ci ''Sec-WebSocket-Accept'' ''Sec-WebSocket-Accept''"
    by (code_simp, code_simp, code_simp, code_simp, code_simp, code_simp)
  have "blank (CHR '' '')" by code_simp
  moreover have "dropWhile blank (expected_accept ''abc'') = expected_accept ''abc''"
    using expected_accept_line [of "''abc''"] by (cases "expected_accept ''abc''") auto
  ultimately have "dropWhile blank ('' '' @ expected_accept ''abc'') = expected_accept ''abc''" by simp
  then show ?thesis using ws_upgrade_verified_iff [OF cl ok, of "''abc''"] t ci by simp
qed

text \<open>What a successful connection has exchanged, and that nothing after the headers was taken.\<close>

lemma connect_exact:
  assumes "le_ws_connect urandom host path extra_headers timeout_ms detail_size w = (Inr (), ws', w')"
  shows "ws_connected ws' \<and> held ws' = [] \<and>
    (\<exists>nonce r. length nonce = 16 \<and>
       ww_sent w' = ww_sent w @ char_bytes (handshake_request path host (le_b64_encode nonce 32) extra_headers) \<and>
       ww_read w' = ww_read w @ r \<and> ends_headers r \<and> (\<forall>k. k < length r \<longrightarrow> \<not> ends_headers (take k r)) \<and>
       length r < 2048 \<and> switched (c_string (map byte_char r)) \<and>
       upgrade_verified (c_string (map byte_char r)) (le_b64_encode nonce 32))"
proof -
  obtain q w1 where rb: "random_bytes fresh_ws 16 w = (q, w1)" by fastforce
  note f1 = random_bytes_frame [of fresh_ws 16 w, unfolded rb snd_conv]
  obtain nonce where q: "q = Some nonce" and ur: "urandom"
    using assms rb by (cases q) (auto simp: le_ws_connect_def Let_def split: if_splits)
  have len: "length nonce = 16" using random_bytes_length rb q by blast
  define key where "key = le_b64_encode nonce 32"
  define request where "request = handshake_request path host key extra_headers"
  obtain now w2 where m: "monotonic_ms w1 = (now, w2)" by fastforce
  note f2 = monotonic_ms_frame [of w1, unfolded m snd_conv]
  obtain ok w3 where wa: "write_all fresh_ws (char_bytes request) w2 = (ok, w3)" by fastforce
  note f3 = write_all_effect [OF wa]
  obtain resp w4 where rr: "read_response (now + nat (if 0 < timeout_ms then timeout_ms else 8000)) [] w3 = (resp, w4)"
    by fastforce
  have eq: "le_ws_connect urandom host path extra_headers timeout_ms detail_size w = (Inr (), ws', w')" by (rule assms)
  have conds: "ok" "\<exists>text. resp = Response text \<and> switched (c_string text) \<and> upgrade_verified (c_string text) key \<and>
      ws' = fresh_ws\<lparr>ws_connected := True\<rparr> \<and> w' = w4"
    using eq ur rb q m wa rr
    by (auto simp: le_ws_connect_def Let_def key_def request_def split: if_splits bool.splits response_outcome.splits)
  then obtain body where t: "resp = Response body" "switched (c_string body)" "upgrade_verified (c_string body) key"
    "ws' = fresh_ws\<lparr>ws_connected := True\<rparr>" "w' = w4" by blast
  from read_response_exact [OF rr [unfolded t(1)]] obtain d where
    d: "ww_read w4 = ww_read w3 @ d" "body = map byte_char d" "ends_headers d"
      "\<forall>k. 0 < k \<and> k < length d \<longrightarrow> \<not> ends_headers (take k d)" "length d < 2048" "ww_sent w4 = ww_sent w3"
    by auto
  have "\<not> ends_headers (take k d)" if "k < length d" for k
    using d(4) that by (cases "k = 0") (auto simp: ends_headers_def)
  moreover have "ww_sent w4 = ww_sent w @ char_bytes request" using f1 f2 f3 d(6) conds(1) by auto
  ultimately show ?thesis using t d f1 f2 f3 len
    by (auto simp: key_def request_def fresh_ws_def held_def)
qed

end
