(* ===== verification/Timerd_Remote.thy ===== *)
theory Timerd_Remote
  imports Timerd_Files Json_Laws
begin

text \<open>
  The timers of the home automation that the timer daemon only shows and rings (adapter/timerd.c): a table
  of eight beside the schedule, changed by events that the other side sends.
\<close>

section \<open>The table\<close>

definition REMOTE_TIMER_MAX :: nat where "REMOTE_TIMER_MAX = 8"
definition REMOTE_TIMER_ID_MAX :: nat where "REMOTE_TIMER_ID_MAX = 64"
definition REMOTE_TIMER_NAME_MAX :: nat where "REMOTE_TIMER_NAME_MAX = 49"

record remote_timer =
  rt_state :: timer_state
  rt_external_id :: string
  rt_name :: string
  rt_total_seconds :: u32
  rt_seconds_left :: u32
  rt_is_active :: bool
  rt_ring_started_ms :: int

definition remote_zero :: remote_timer where
  "remote_zero = \<lparr>rt_state = LE_TIMER_STATE_FREE, rt_external_id = [], rt_name = [], rt_total_seconds = 0,
     rt_seconds_left = 0, rt_is_active = False, rt_ring_started_ms = 0\<rparr>"

text \<open>The context of the daemon: the schedule with its file, the table and the time of the next cue.\<close>

record timer_context = timerd +
  tc_remote :: "remote_timer list"
  tc_next_ring_ms :: int

abbreviation ringing :: "remote_timer \<Rightarrow> bool" where
  "ringing r \<equiv> rt_state r = LE_TIMER_STATE_RINGING"

abbreviation unused_slot :: "remote_timer \<Rightarrow> bool" where
  "unused_slot r \<equiv> rt_state r = LE_TIMER_STATE_FREE"

definition put_remote :: "nat \<Rightarrow> remote_timer \<Rightarrow> timer_context \<Rightarrow> timer_context" where
  "put_remote i r c = c\<lparr>tc_remote := (tc_remote c)[i := r]\<rparr>"

definition remote_ringing_count :: "timer_context \<Rightarrow> nat" where
  "remote_ringing_count c = length (filter ringing (tc_remote c))"

definition ringing_count :: "timer_context \<Rightarrow> nat" where
  "ringing_count c = le_timer_ringing_count (td_timers c) + remote_ringing_count c"

definition remote_ring_expire :: "int \<Rightarrow> timer_context \<Rightarrow> timer_context" where
  "remote_ring_expire now_ms c =
     c\<lparr>tc_remote := map (\<lambda>r. if ringing r \<and> LE_TIMER_RING_SECONDS * 1000 \<le> now_ms - rt_ring_started_ms r
        then remote_zero else r) (tc_remote c)\<rparr>"

definition remote_dismiss_all :: "timer_context \<Rightarrow> nat \<times> timer_context" where
  "remote_dismiss_all c =
     (remote_ringing_count c, c\<lparr>tc_remote := map (\<lambda>r. if ringing r then remote_zero else r) (tc_remote c)\<rparr>)"

definition remote_clear :: "timer_context \<Rightarrow> timer_context" where
  "remote_clear c = c\<lparr>tc_remote := replicate REMOTE_TIMER_MAX remote_zero\<rparr>"

section \<open>An event\<close>

text \<open>The type of the event and the timer it describes, or the text of the refusal.\<close>

definition event_keys :: "string list" where
  "event_keys = [''event_type'', ''timer_id'', ''name'', ''total_seconds'', ''seconds_left'', ''is_active'']"

definition read_remote_event :: "string \<Rightarrow> string + (int \<times> remote_timer)" where
  "read_remote_event args =
     (if \<not> json_valid_object args then Inl ''invalid remote timer event''
      else if list_ex (json_duplicate_key args) event_keys then Inl ''duplicate remote timer field''
      else
        case (json_get_int64_top_level args ''event_type'',
              json_get_string_top_level REMOTE_TIMER_ID_MAX args ''timer_id'',
              json_get_string_top_level REMOTE_TIMER_NAME_MAX args ''name'',
              json_get_int64_top_level args ''total_seconds'', json_get_int64_top_level args ''seconds_left'',
              json_get_top_level_bool args ''is_active'') of
          (Some (Some event_type), Some (Some external_id), Some (Some name), Some (Some seconds), Some (Some remaining),
           (found, Some is_active)) \<Rightarrow>
            if event_type < 0 \<or> 3 < event_type \<or> external_id = [] \<or> seconds < 0 \<or> 2 ^ 32 - 1 < seconds \<or> remaining < 0 \<or>
               seconds < remaining \<or> found \<noteq> 1
            then Inl ''invalid remote timer event''
            else Inr (event_type,
              remote_zero\<lparr>rt_external_id := external_id, rt_name := name, rt_total_seconds := of_int seconds,
                rt_seconds_left := of_int remaining, rt_is_active := is_active\<rparr>)
        | _ \<Rightarrow> Inl ''invalid remote timer event'')"

text \<open>The last used slot with an id and the first unused one.\<close>

fun remote_scan :: "string \<Rightarrow> nat \<Rightarrow> nat option \<times> nat option \<Rightarrow> remote_timer list \<Rightarrow> nat option \<times> nat option" where
  "remote_scan x i acc [] = acc"
| "remote_scan x i (timer, vacant) (r # rs) =
     remote_scan x (i + 1)
       (if unused_slot r then (timer, if vacant = None then Some i else vacant)
        else if rt_external_id r = x then (Some i, vacant) else (timer, vacant)) rs"

text \<open>The value of an event as a timer that rings since an instant.\<close>

definition rung :: "remote_timer \<Rightarrow> int \<Rightarrow> remote_timer" where
  "rung v start = v\<lparr>rt_state := LE_TIMER_STATE_RINGING, rt_is_active := False, rt_ring_started_ms := start\<rparr>"

definition apply_remote_event :: "int \<Rightarrow> remote_timer \<Rightarrow> int \<Rightarrow> timer_context \<Rightarrow> string option \<times> timer_context" where
  "apply_remote_event event_type v now_ms c =
     (case remote_scan (rt_external_id v) 0 (None, None) (tc_remote c) of
        (timer, vacant) \<Rightarrow>
          if event_type \<noteq> 0 \<and> timer = None then (Some ''no such remote timer'', c)
          else if event_type = 2 then (None, put_remote (the timer) remote_zero c)
          else if event_type = 3 then
            (let old = tc_remote c ! the timer in
             if \<not> ringing old
             then (None, (put_remote (the timer) (rung v now_ms) c)\<lparr>tc_next_ring_ms := 0\<rparr>)
             else (None, put_remote (the timer) (rung v (rt_ring_started_ms old)) c))
          else
            (case (if timer = None then vacant else timer) of
               None \<Rightarrow> (Some ''no free remote timer slots'', c)
             | Some i \<Rightarrow>
                 let old = tc_remote c ! i in
                 if event_type = 1 \<and> ringing old
                 then (None, put_remote i (rung v (rt_ring_started_ms old)) c)
                 else (None, put_remote i (v\<lparr>rt_state := LE_TIMER_STATE_PENDING\<rparr>) c)))"

definition remote_event :: "string \<Rightarrow> int \<Rightarrow> timer_context \<Rightarrow> (string + string) \<times> timer_context" where
  "remote_event args now_ms c =
     (case read_remote_event args of
        Inl e \<Rightarrow> (Inl e, c)
      | Inr (event_type, v) \<Rightarrow>
          (case apply_remote_event event_type v now_ms c of
             (Some e, c1) \<Rightarrow> (Inl e, c1)
           | (None, c1) \<Rightarrow> (Inr ''{}'', c1)))"

section \<open>A table in order\<close>

definition event_value :: "remote_timer \<Rightarrow> bool" where
  "event_value v \<longleftrightarrow> rt_external_id v \<noteq> [] \<and> length (rt_external_id v) < REMOTE_TIMER_ID_MAX \<and>
     length (rt_name v) < REMOTE_TIMER_NAME_MAX \<and> rt_seconds_left v \<le> rt_total_seconds v"

definition remote_slot_ok :: "remote_timer \<Rightarrow> bool" where
  "remote_slot_ok r \<longleftrightarrow>
     (if unused_slot r then r = remote_zero else event_value r \<and> (ringing r \<longrightarrow> \<not> rt_is_active r))"

definition remote_at :: "timer_context \<Rightarrow> string \<Rightarrow> nat \<Rightarrow> bool" where
  "remote_at c x i \<longleftrightarrow> i < length (tc_remote c) \<and> \<not> unused_slot (tc_remote c ! i) \<and> rt_external_id (tc_remote c ! i) = x"

definition remote_ok :: "timer_context \<Rightarrow> bool" where
  "remote_ok c \<longleftrightarrow> length (tc_remote c) = REMOTE_TIMER_MAX \<and> (\<forall>r\<in>set (tc_remote c). remote_slot_ok r) \<and>
     (\<forall>x i j. remote_at c x i \<longrightarrow> remote_at c x j \<longrightarrow> i = j)"

text \<open>What the table says of an id.\<close>

definition remote_lookup :: "timer_context \<Rightarrow> string \<Rightarrow> remote_timer option" where
  "remote_lookup c x = find (\<lambda>r. \<not> unused_slot r \<and> rt_external_id r = x) (tc_remote c)"

lemma lookup_at: "remote_ok c \<Longrightarrow> remote_at c x i \<Longrightarrow> remote_lookup c x = Some (tc_remote c ! i)"
proof -
  assume ok: "remote_ok c" and at: "remote_at c x i"
  obtain r where r: "remote_lookup c x = Some r"
  proof (cases "remote_lookup c x")
    case None
    then have "\<forall>r\<in>set (tc_remote c). unused_slot r \<or> rt_external_id r \<noteq> x" by (auto simp: remote_lookup_def find_None_iff)
    then show ?thesis using at nth_mem by (fastforce simp: remote_at_def)
  qed
  then obtain j where "j < length (tc_remote c)" "\<not> unused_slot (tc_remote c ! j)" "rt_external_id (tc_remote c ! j) = x"
      "r = tc_remote c ! j" by (auto simp: remote_lookup_def find_Some_iff)
  then have "remote_at c x j" "r = tc_remote c ! j" by (simp_all add: remote_at_def)
  then show ?thesis using ok at r by (auto simp: remote_ok_def)
qed

lemma lookup_none: "remote_lookup c x = None \<longleftrightarrow> (\<forall>i. \<not> remote_at c x i)"
  by (auto simp: remote_lookup_def find_None_iff remote_at_def in_set_conv_nth)

lemma remote_put:
  assumes ok: "remote_ok c" and i: "i < length (tc_remote c)" and r: "remote_slot_ok r"
    and new: "\<And>j. \<not> unused_slot r \<Longrightarrow> remote_at c (rt_external_id r) j \<Longrightarrow> j = i"
  shows "remote_ok (put_remote i r c)"
    and "remote_lookup (put_remote i r c) y =
      (if \<not> unused_slot r \<and> y = rt_external_id r then Some r
       else if remote_at c y i then None else remote_lookup c y)"
proof -
  have at: "remote_at (put_remote i r c) x j \<longleftrightarrow>
      (if j = i then \<not> unused_slot r \<and> rt_external_id r = x else remote_at c x j)" for x j
    using i by (auto simp: remote_at_def put_remote_def)
  show ok': "remote_ok (put_remote i r c)"
  proof -
    have "j = k" if "remote_at (put_remote i r c) x j" "remote_at (put_remote i r c) x k" for x j k
    proof (cases "j = i \<or> k = i")
      case True
      then show ?thesis using that new unfolding at by (metis (full_types))
    next
      case False
      then have "remote_at c x j" "remote_at c x k" using that unfolding at by simp_all
      then show ?thesis using ok unfolding remote_ok_def by blast
    qed
    moreover have "\<forall>q\<in>set (tc_remote (put_remote i r c)). remote_slot_ok q"
      using ok r by (auto simp: put_remote_def remote_ok_def dest!: set_update_subset_insert [THEN subsetD])
    ultimately show ?thesis using ok by (simp add: remote_ok_def put_remote_def)
  qed
  show "remote_lookup (put_remote i r c) y =
      (if \<not> unused_slot r \<and> y = rt_external_id r then Some r
       else if remote_at c y i then None else remote_lookup c y)"
  proof -
    consider (hit) "\<not> unused_slot r" "y = rt_external_id r" | (gone) "unused_slot r \<or> y \<noteq> rt_external_id r" "remote_at c y i"
      | (other) "unused_slot r \<or> y \<noteq> rt_external_id r" "\<not> remote_at c y i" by blast
    then show ?thesis
    proof cases
      case hit
      then have "remote_at (put_remote i r c) y i" by (simp add: at)
      from lookup_at [OF ok' this] show ?thesis using hit i by (simp add: put_remote_def)
    next
      case gone
      then have "\<forall>j. \<not> remote_at (put_remote i r c) y j" using ok by (auto simp: at remote_ok_def)
      then show ?thesis using gone by (auto simp: lookup_none [symmetric])
    next
      case other
      show ?thesis
      proof (cases "remote_lookup c y")
        case None
        then have "\<forall>j. \<not> remote_at (put_remote i r c) y j" using other by (auto simp: at lookup_none)
        then show ?thesis using other None by (auto simp: lookup_none [symmetric])
      next
        case (Some q)
        then obtain j where j: "remote_at c y j" using lookup_none [of c y] by auto
        then have ji: "j \<noteq> i" using other by auto
        then have "remote_at (put_remote i r c) y j" using j by (simp add: at)
        from lookup_at [OF ok' this] have "remote_lookup (put_remote i r c) y = Some (tc_remote c ! j)"
          using ji by (simp add: put_remote_def)
        then show ?thesis using lookup_at [OF ok j] other by auto
      qed
    qed
  qed
qed

lemma remote_scan_spec:
  "remote_scan x k (t, v) rs = (t', v') \<Longrightarrow>
   (case t' of None \<Rightarrow> t = None \<and> (\<forall>r\<in>set rs. unused_slot r \<or> rt_external_id r \<noteq> x)
    | Some i \<Rightarrow> t = Some i \<or> (k \<le> i \<and> i < k + length rs \<and> \<not> unused_slot (rs ! (i - k)) \<and> rt_external_id (rs ! (i - k)) = x)) \<and>
   (case v' of None \<Rightarrow> v = None \<and> (\<forall>r\<in>set rs. \<not> unused_slot r)
    | Some i \<Rightarrow> v = Some i \<or> (k \<le> i \<and> i < k + length rs \<and> unused_slot (rs ! (i - k))))"
proof (induction rs arbitrary: k t v)
  case Nil
  then show ?case by (auto split: option.split)
next
  case (Cons r rs)
  define t1 where "t1 = (if \<not> unused_slot r \<and> rt_external_id r = x then Some k else t)"
  define v1 where "v1 = (if unused_slot r \<and> v = None then Some k else v)"
  have "remote_scan x (k + 1) (t1, v1) rs = (t', v')" using Cons.prems by (auto simp: t1_def v1_def split: if_splits)
  note IH = Cons.IH [OF this]
  have nth: "(r # rs) ! (i - k) = rs ! (i - (k + 1))" if "k + 1 \<le> i" for i
  proof -
    have "i - k = Suc (i - (k + 1))" using that by simp
    then show ?thesis by simp
  qed
  show ?case
    using IH nth by (cases t'; cases v') (auto simp: t1_def v1_def split: if_splits)
qed

lemma zero_unused [simp]: "unused_slot remote_zero" "remote_slot_ok remote_zero"
  by (simp_all add: remote_zero_def remote_slot_ok_def)

text \<open>Clearing some of the slots.\<close>

lemma remote_clear_some:
  assumes "remote_ok c" and "tc_remote c' = map (\<lambda>r. if p r then remote_zero else r) (tc_remote c)"
  shows "remote_ok c'"
    and "remote_lookup c' x = (case remote_lookup c x of None \<Rightarrow> None | Some r \<Rightarrow> if p r then None else Some r)"
proof -
  have at: "remote_at c' y j \<longleftrightarrow> remote_at c y j \<and> \<not> p (tc_remote c ! j)" for y j
    by (auto simp: remote_at_def assms(2) split: if_splits)
  show ok': "remote_ok c'"
  proof -
    have "j = k" if "remote_at c' y j" "remote_at c' y k" for y j k
      using that assms(1) unfolding at remote_ok_def by blast
    then show ?thesis using assms by (auto simp: remote_ok_def)
  qed
  show "remote_lookup c' x = (case remote_lookup c x of None \<Rightarrow> None | Some r \<Rightarrow> if p r then None else Some r)"
  proof (cases "remote_lookup c x")
    case None
    then have "remote_lookup c' x = None" using lookup_none [of c x] by (simp add: lookup_none at)
    then show ?thesis using None by simp
  next
    case (Some r)
    then obtain j where j: "remote_at c x j" using lookup_none [of c x] by auto
    then have r: "r = tc_remote c ! j" using lookup_at [OF assms(1) j] Some by simp
    show ?thesis
    proof (cases "p r")
      case True
      then have "\<forall>k. \<not> remote_at c' x k" using j r assms(1) by (auto simp: at remote_ok_def)
      then show ?thesis using Some True by (simp add: lookup_none)
    next
      case False
      then have "remote_at c' x j" using j r by (simp add: at)
      from lookup_at [OF ok' this] show ?thesis using Some False r j assms(2) by (simp add: remote_at_def)
    qed
  qed
qed

lemma remote_expire_ok: "remote_ok c \<Longrightarrow> remote_ok (remote_ring_expire now_ms c)"
  by (rule remote_clear_some(1)) (simp_all add: remote_ring_expire_def)

lemma remote_dismiss_ok: "remote_ok c \<Longrightarrow> remote_ok (snd (remote_dismiss_all c))"
  by (rule remote_clear_some(1)) (simp_all add: remote_dismiss_all_def)

lemma remote_clear_ok: "remote_ok (remote_clear c)"
  by (auto simp: remote_ok_def remote_clear_def remote_at_def remote_zero_def remote_slot_ok_def)

section \<open>What an event says\<close>

lemma append_codepoint_bound: "append_codepoint z out cp = Some out' \<Longrightarrow> length out' < z"
  by (auto simp: append_codepoint_def Let_def split: if_splits)

lemma string_loop_bound: "string_loop z out s = Some r \<Longrightarrow> length out < z \<Longrightarrow> length r < z"
proof (induction z out s rule: string_loop.induct)
  case (1 z out s)
  show ?case
  proof (cases s)
    case Nil
    then show ?thesis using 1(4) by (subst (asm) string_loop.simps) simp
  next
    case (Cons c p)
    show ?thesis
    proof (cases "c = quote \<or> c \<noteq> backslash")
      case True
      then show ?thesis using 1(1) [OF Cons] 1(4,5) Cons by (auto simp: string_loop_Cons split: if_splits)
    next
      case False
      then have c: "c \<noteq> quote" "\<not> c \<noteq> backslash" by simp_all
      show ?thesis
      proof (cases p)
        case Nil
        then show ?thesis using 1(4) Cons c by (simp add: string_loop_Cons)
      next
        case p: (Cons e p1)
        show ?thesis
        proof (cases "e = CHR ''u''")
          case True
          then obtain cp p2 out' where "read_unicode p1 = Some (cp, p2)" "append_codepoint z out cp = Some out'"
              "string_loop z out' p2 = Some r"
            using 1(4) Cons c p by (auto simp: string_loop_Cons split: option.splits prod.splits)
          then show ?thesis using 1(2) [OF Cons c p True] append_codepoint_bound by auto
        next
          case u: False
          then obtain d where d: "key_escape e = Some d" "\<not> (ord d < 32 \<or> length out + 2 > z)"
              "string_loop z (out @ [d]) p1 = Some r"
            using 1(4) Cons c p by (auto simp: string_loop_Cons split: option.splits if_splits)
          then show ?thesis using 1(3) [OF Cons c p u d(1,2,3)] by simp
        qed
      qed
    qed
  qed
qed

lemma json_get_string_bound: "json_get_string_top_level z s k = Some (Some r) \<Longrightarrow> length r < z"
  using string_loop_bound [of z "[]"]
  by (auto simp: json_get_string_top_level_def json_get_string_at_def Option.bind_eq_Some_conv split: if_splits)

lemma read_remote_event_value:
  assumes "read_remote_event args = Inr (event_type, v)"
  shows "event_value v \<and> unused_slot v \<and> 0 \<le> event_type \<and> event_type \<le> 3"
proof -
  obtain x n s l where g: "json_get_string_top_level REMOTE_TIMER_ID_MAX args ''timer_id'' = Some (Some x)"
      "json_get_string_top_level REMOTE_TIMER_NAME_MAX args ''name'' = Some (Some n)"
    and b: "\<not> (event_type < 0 \<or> 3 < event_type \<or> x = [] \<or> 2 ^ 32 - 1 < s \<or> l < 0 \<or> s < l)"
    and v: "rt_external_id v = x" "rt_name v = n" "rt_total_seconds v = of_int s" "rt_seconds_left v = of_int l" "unused_slot v"
    using assms by (auto simp: read_remote_event_def remote_zero_def split: if_splits option.splits prod.splits)
  have "(of_int l :: u32) \<le> of_int s"
    using b by (simp add: word_le_def uint_word_of_int_eq take_bit_int_eq_self)
  then show ?thesis using json_get_string_bound [OF g(1)] json_get_string_bound [OF g(2)] b v
    by (simp add: event_value_def)
qed

section \<open>The table as a map\<close>

text \<open>
  What the other side means by an event, on a map from ids to timers: STARTED is 0, UPDATED 1, CANCELLED 2
  and FINISHED 3.\<close>

definition remote_spec ::
  "int \<Rightarrow> remote_timer \<Rightarrow> int \<Rightarrow> (string \<Rightarrow> remote_timer option) \<Rightarrow> string option \<times> (string \<Rightarrow> remote_timer option)" where
  "remote_spec event_type v now_ms m =
     (let x = rt_external_id v in
      case m x of
        None \<Rightarrow>
          if event_type \<noteq> 0 then (Some ''no such remote timer'', m)
          else if card (dom m) = REMOTE_TIMER_MAX then (Some ''no free remote timer slots'', m)
          else (None, m(x := Some (v\<lparr>rt_state := LE_TIMER_STATE_PENDING\<rparr>)))
      | Some old \<Rightarrow>
          if event_type = 2 then (None, m(x := None))
          else if event_type = 3 then (None, m(x := Some (rung v (if ringing old then rt_ring_started_ms old else now_ms))))
          else if event_type = 1 \<and> ringing old then (None, m(x := Some (rung v (rt_ring_started_ms old))))
          else (None, m(x := Some (v\<lparr>rt_state := LE_TIMER_STATE_PENDING\<rparr>))))"

lemma remote_full:
  assumes "remote_ok c"
  shows "card (dom (remote_lookup c)) = REMOTE_TIMER_MAX \<longleftrightarrow> (\<forall>r\<in>set (tc_remote c). \<not> unused_slot r)"
proof -
  let ?rs = "tc_remote c" and ?used = "{i. i < length (tc_remote c) \<and> \<not> unused_slot (tc_remote c ! i)}"
  have "dom (remote_lookup c) = (\<lambda>i. rt_external_id (?rs ! i)) ` ?used"
  proof -
    have "x \<in> dom (remote_lookup c) \<longleftrightarrow> (\<exists>i. remote_at c x i)" for x
      using lookup_none [of c x] by (auto simp: dom_def)
    then show ?thesis by (intro set_eqI) (auto simp only: remote_at_def image_iff mem_Collect_eq)
  qed
  moreover have "inj_on (\<lambda>i. rt_external_id (?rs ! i)) ?used"
    using assms by (auto simp: inj_on_def remote_ok_def remote_at_def)
  ultimately have card: "card (dom (remote_lookup c)) = card ?used" by (simp add: card_image)
  have len: "length ?rs = REMOTE_TIMER_MAX" using assms by (simp add: remote_ok_def)
  have sub: "?used \<subseteq> {..<length ?rs}" by auto
  show ?thesis
  proof
    assume "card (dom (remote_lookup c)) = REMOTE_TIMER_MAX"
    then have "?used = {..<length ?rs}" using card len by (intro card_subset_eq sub) simp_all
    then show "\<forall>r\<in>set ?rs. \<not> unused_slot r" by (fastforce simp: in_set_conv_nth)
  next
    assume "\<forall>r\<in>set ?rs. \<not> unused_slot r"
    then have "?used = {..<length ?rs}" by auto
    then show "card (dom (remote_lookup c)) = REMOTE_TIMER_MAX" using card len by simp
  qed
qed

lemma rung_ok: "event_value v \<Longrightarrow> remote_slot_ok (rung v start)" "\<not> unused_slot (rung v start)"
    "rt_external_id (rung v start) = rt_external_id v"
    "event_value v \<Longrightarrow> remote_slot_ok (v\<lparr>rt_state := LE_TIMER_STATE_PENDING\<rparr>)"
  by (simp_all add: remote_slot_ok_def rung_def event_value_def)

lemma remote_ok_next [simp]: "remote_ok (c\<lparr>tc_next_ring_ms := n\<rparr>) = remote_ok c"
    "remote_lookup (c\<lparr>tc_next_ring_ms := n\<rparr>) = remote_lookup c"
  by (simp_all add: remote_ok_def remote_at_def remote_lookup_def fun_eq_iff)

lemma put_used:
  assumes "remote_ok c" "remote_at c (rt_external_id r) i" "remote_slot_ok r" "\<not> unused_slot r"
  shows "remote_ok (put_remote i r c) \<and> remote_lookup (put_remote i r c) = (remote_lookup c)(rt_external_id r := Some r)"
proof -
  have i: "i < length (tc_remote c)" and one: "remote_at c (rt_external_id r) j \<Longrightarrow> j = i" for j
    using assms(1,2) unfolding remote_at_def remote_ok_def by blast+
  have other: "\<not> remote_at c y i" if "y \<noteq> rt_external_id r" for y using assms(2) that by (simp add: remote_at_def)
  have "remote_lookup (put_remote i r c) y = ((remote_lookup c)(rt_external_id r := Some r)) y" for y
    using remote_put(2) [OF assms(1) i assms(3) one, of y] assms(4) other [of y] by simp
  then show ?thesis using remote_put(1) [OF assms(1) i assms(3) one] by blast
qed

lemma apply_remote_event_refines:
  assumes ok: "remote_ok c" and v: "event_value v" and ty: "0 \<le> ty" "ty \<le> 3"
    and e: "apply_remote_event ty v now_ms c = (e, c')"
  shows "remote_ok c' \<and> remote_spec ty v now_ms (remote_lookup c) = (e, remote_lookup c') \<and> (e \<noteq> None \<longrightarrow> c' = c)"
proof -
  define x where "x = rt_external_id v"
  obtain t vacant where sc: "remote_scan x 0 (None, None) (tc_remote c) = (t, vacant)" by fastforce
  note sp = remote_scan_spec [OF sc]
  show ?thesis
  proof (cases t)
    case None
    then have none: "remote_lookup c x = None"
      using sp by (auto simp: remote_lookup_def find_None_iff)
    show ?thesis
    proof (cases "ty = 0")
      case False
      then show ?thesis using e ok none None sc by (auto simp: apply_remote_event_def remote_spec_def x_def)
    next
      case True
      show ?thesis
      proof (cases vacant)
        case nov: None
        then have "card (dom (remote_lookup c)) = REMOTE_TIMER_MAX" using remote_full [OF ok] sp by simp
        then show ?thesis
          using e ok none None sc True nov by (auto simp: apply_remote_event_def remote_spec_def x_def)
      next
        case (Some i)
        define r where "r = v\<lparr>rt_state := LE_TIMER_STATE_PENDING\<rparr>"
        have i: "i < length (tc_remote c)" "unused_slot (tc_remote c ! i)" using sp Some by auto
        then have "card (dom (remote_lookup c)) \<noteq> REMOTE_TIMER_MAX" using remote_full [OF ok] nth_mem by blast
        moreover have c': "e = None" "c' = put_remote i r c"
          using e None Some sc True by (auto simp: apply_remote_event_def x_def r_def)
        moreover have "\<not> remote_at c y i" for y using i(2) by (simp add: remote_at_def)
        moreover have "\<not> remote_at c (rt_external_id r) j" for j using none by (simp add: lookup_none r_def x_def)
        moreover have "remote_slot_ok r" "\<not> unused_slot r" using rung_ok(4) [OF v] by (simp_all add: r_def)
        ultimately have "remote_ok c'" "remote_lookup c' = (remote_lookup c)(x := Some r)"
          using remote_put [OF ok i(1), of r] by (auto simp: fun_eq_iff r_def x_def)
        then show ?thesis
          using none True c' \<open>card (dom (remote_lookup c)) \<noteq> REMOTE_TIMER_MAX\<close>
          by (simp add: remote_spec_def Let_def x_def r_def)
      qed
    qed
  next
    case (Some i)
    then have at: "remote_at c x i" using sp by (auto simp: remote_at_def)
    define old where "old = tc_remote c ! i"
    have lk: "remote_lookup c x = Some old" using lookup_at [OF ok at] by (simp add: old_def)
    consider (cancel) "ty = 2" | (finish) "ty = 3" | (update) "ty = 1" "ringing old" | (replace) "ty = 0 \<or> (ty = 1 \<and> \<not> ringing old)"
      using ty by linarith
    then show ?thesis
    proof cases
      case cancel
      then have c': "e = None" "c' = put_remote i remote_zero c" using e Some sc by (auto simp: apply_remote_event_def x_def)
      have i: "i < length (tc_remote c)" using at by (simp add: remote_at_def)
      have "remote_at c y i \<longleftrightarrow> y = x" for y using at by (auto simp: remote_at_def)
      then show ?thesis using remote_put [OF ok i, of remote_zero] cancel lk c'
        by (auto simp: remote_spec_def fun_eq_iff x_def)
    next
      case finish
      define r where "r = rung v (if ringing old then rt_ring_started_ms old else now_ms)"
      have r: "remote_slot_ok r" "\<not> unused_slot r" "rt_external_id r = x" using rung_ok v by (simp_all add: r_def x_def)
      have c': "e = None" "remote_ok c' = remote_ok (put_remote i r c)" "remote_lookup c' = remote_lookup (put_remote i r c)"
        using e Some sc finish
        by (auto simp: apply_remote_event_def x_def r_def old_def Let_def split: if_splits)
      then show ?thesis using put_used [OF ok, of r i] at r lk finish
        by (simp add: remote_spec_def Let_def x_def r_def)
    next
      case update
      define r where "r = rung v (rt_ring_started_ms old)"
      have r: "remote_slot_ok r" "\<not> unused_slot r" "rt_external_id r = x" using rung_ok v by (simp_all add: r_def x_def)
      have c': "e = None" "c' = put_remote i r c"
        using e Some sc update by (auto simp: apply_remote_event_def x_def r_def old_def Let_def)
      then show ?thesis using put_used [OF ok, of r i] at r lk update
        by (simp add: remote_spec_def Let_def x_def r_def)
    next
      case replace
      define r where "r = v\<lparr>rt_state := LE_TIMER_STATE_PENDING\<rparr>"
      have r: "remote_slot_ok r" "\<not> unused_slot r" "rt_external_id r = x" using rung_ok(4) [OF v] by (simp_all add: r_def x_def)
      have c': "e = None" "c' = put_remote i r c"
        using e Some sc replace by (auto simp: apply_remote_event_def x_def r_def old_def Let_def)
      then show ?thesis using put_used [OF ok, of r i] at r lk replace
        by (auto simp: remote_spec_def Let_def x_def r_def)
    qed
  qed
qed

definition remote_spec_event ::
  "string \<Rightarrow> int \<Rightarrow> (string \<Rightarrow> remote_timer option) \<Rightarrow> (string + string) \<times> (string \<Rightarrow> remote_timer option)" where
  "remote_spec_event args now_ms m =
     (case read_remote_event args of
        Inl e \<Rightarrow> (Inl e, m)
      | Inr (event_type, v) \<Rightarrow>
          (case remote_spec event_type v now_ms m of (e, m1) \<Rightarrow> (case e of Some t \<Rightarrow> Inl t | None \<Rightarrow> Inr ''{}'', m1)))"

lemma remote_event_refines:
  assumes "remote_ok c" and "remote_event args now_ms c = (reply, c')"
  shows "remote_ok c' \<and> remote_spec_event args now_ms (remote_lookup c) = (reply, remote_lookup c') \<and>
    (\<forall>e. reply = Inl e \<longrightarrow> c' = c)"
proof (cases "read_remote_event args")
  case (Inl e)
  then show ?thesis using assms by (simp add: remote_event_def remote_spec_event_def)
next
  case (Inr p)
  obtain ty v where p: "p = (ty, v)" by (cases p) blast
  note v = read_remote_event_value [OF Inr [unfolded p]]
  obtain e c1 where e: "apply_remote_event ty v now_ms c = (e, c1)" by fastforce
  have "c' = c1" "reply = (case e of Some t \<Rightarrow> Inl t | None \<Rightarrow> Inr ''{}'')"
    using assms(2) Inr p e by (auto simp: remote_event_def split: option.splits)
  then show ?thesis
    using apply_remote_event_refines [OF assms(1) _ _ _ e] v Inr p
    by (auto simp: remote_spec_event_def split: option.splits)
qed

fun remote_events :: "(string \<times> int) list \<Rightarrow> timer_context \<Rightarrow> (string + string) list \<times> timer_context" where
  "remote_events [] c = ([], c)"
| "remote_events ((args, now_ms) # es) c =
     (case remote_event args now_ms c of (reply, c1) \<Rightarrow>
        (case remote_events es c1 of (replies, c2) \<Rightarrow> (reply # replies, c2)))"

fun spec_events ::
  "(string \<times> int) list \<Rightarrow> (string \<Rightarrow> remote_timer option) \<Rightarrow> (string + string) list \<times> (string \<Rightarrow> remote_timer option)" where
  "spec_events [] m = ([], m)"
| "spec_events ((args, now_ms) # es) m =
     (case remote_spec_event args now_ms m of (reply, m1) \<Rightarrow>
        (case spec_events es m1 of (replies, m2) \<Rightarrow> (reply # replies, m2)))"

lemma remote_events_refine:
  "remote_ok c \<Longrightarrow> remote_events es c = (replies, c') \<Longrightarrow>
   remote_ok c' \<and> spec_events es (remote_lookup c) = (replies, remote_lookup c')"
proof (induction es c arbitrary: replies rule: remote_events.induct)
  case (2 args now_ms es c)
  obtain reply c1 where e: "remote_event args now_ms c = (reply, c1)" by fastforce
  obtain rs c2 where r: "remote_events es c1 = (rs, c2)" by fastforce
  show ?case using 2(1) [OF e [symmetric]] remote_event_refines [OF 2(2) e] 2(3) e r by auto
qed simp

text \<open>
  C8: the table is a map from ids to timers.  From an empty table, whatever events arrive, each is answered and
  has the effect it means on the map: a finished timer rings from the first time it is reported finished, an
  update does not silence it, a start replaces it, and only a ninth id finds no room.\<close>

theorem timerd_remote_events_refine:
  assumes "tc_remote c = replicate REMOTE_TIMER_MAX remote_zero" and "remote_events es c = (replies, c')"
  shows "spec_events es Map.empty = (replies, remote_lookup c')"
proof -
  have "remote_lookup c = Map.empty" using assms(1) by (auto simp: remote_lookup_def find_None_iff remote_zero_def)
  moreover have "remote_ok c" using assms(1) by (auto simp: remote_ok_def remote_at_def remote_zero_def remote_slot_ok_def)
  ultimately show ?thesis using remote_events_refine [OF _ assms(2)] by simp
qed

definition an_event :: "string \<Rightarrow> string" where
  "an_event n = ''{\"event_type\":'' @ n @ '',\"timer_id\":\"t\",\"name\":\"x\",\"total_seconds\":60,\"seconds_left\":5,\"is_active\":true}''"

definition empty_context :: timer_context where
  "empty_context = timerd.extend (fresh_timerd le_timer_set_init empty_disk True)
     (timer_context.fields (replicate REMOTE_TIMER_MAX remote_zero) 5)"

definition an_event_value :: remote_timer where
  "an_event_value = remote_zero\<lparr>rt_external_id := ''t'', rt_name := ''x'', rt_total_seconds := 60, rt_seconds_left := 5,
     rt_is_active := True\<rparr>"

lemma read_an_event:
  "read_remote_event (an_event ''0'') = Inr (0, an_event_value)" "read_remote_event (an_event ''3'') = Inr (3, an_event_value)"
  "read_remote_event (an_event ''7'') = Inl ''invalid remote timer event''"
  by (code_simp, code_simp, code_simp)

lemma timerd_remote_events_refine_witness:
  "\<exists>c'. remote_events [(an_event ''0'', 10), (an_event ''3'', 20), (an_event ''3'', 30), (an_event ''7'', 40)] empty_context =
       ([Inr ''{}'', Inr ''{}'', Inr ''{}'', Inl ''invalid remote timer event''], c') \<and>
     map_option rt_ring_started_ms (remote_lookup c' ''t'') = Some 20 \<and>
     spec_events [(an_event ''0'', 10), (an_event ''3'', 20), (an_event ''3'', 30), (an_event ''7'', 40)] Map.empty =
       ([Inr ''{}'', Inr ''{}'', Inr ''{}'', Inl ''invalid remote timer event''], remote_lookup c')"
proof -
  let ?es = "[(an_event ''0'', 10), (an_event ''3'', 20), (an_event ''3'', 30), (an_event ''7'', 40)]"
  have eight: "replicate REMOTE_TIMER_MAX remote_zero =
      [remote_zero, remote_zero, remote_zero, remote_zero, remote_zero, remote_zero, remote_zero, remote_zero]"
    by (simp add: REMOTE_TIMER_MAX_def numeral_eq_Suc)
  have tc: "tc_remote empty_context = replicate REMOTE_TIMER_MAX remote_zero"
    by (simp add: empty_context_def timerd.defs timer_context.defs fresh_timerd_def)
  note tc8 = tc [unfolded eight]
  obtain rs c' where r: "remote_events ?es empty_context = (rs, c')" by fastforce
  then have "rs = [Inr ''{}'', Inr ''{}'', Inr ''{}'', Inl ''invalid remote timer event''] \<and>
      map_option rt_ring_started_ms (remote_lookup c' ''t'') = Some 20"
    by (auto simp: remote_event_def read_an_event apply_remote_event_def tc8 put_remote_def an_event_value_def
        remote_zero_def rung_def remote_lookup_def)
  with timerd_remote_events_refine [OF tc r] r show ?thesis by auto
qed

end
