(* ===== verification/Timerd_Commands.thy ===== *)
theory Timerd_Commands
  imports Timerd_Remote Adapter_Wire Json_Documents
begin

text \<open>
  The commands of the timer daemon (dispatch of adapter/timerd.c) and a round of its loop.

  A command reads each clock at most once; the two readings are arguments.  The answer is the data of an
  acceptance or the text of a refusal; the envelope and the parsing of the request are those of
  \<open>Adapter_Wire\<close>, whose message size bounds the answer.
\<close>

section \<open>The status document\<close>

definition local_remaining :: "int \<Rightarrow> int \<Rightarrow> le_timer \<Rightarrow> int" where
  "local_remaining now_ms now_epoch t =
     (let remaining = (if tm_kind t = LE_TIMER_ALARM then tm_due_epoch t - now_epoch
                       else c_div (tm_due_monotonic_ms t - now_ms) 1000)
      in if remaining < 0 then 0 else remaining)"

definition local_entry :: "int \<Rightarrow> int \<Rightarrow> le_timer \<Rightarrow> string" where
  "local_entry now_ms now_epoch t =
     ''{\"id\":'' @ nat_digits (unat (tm_id t)) @ '',\"kind\":\"'' @ kind_name (tm_kind t) @ ''\",\"state\":\"'' @
     (if tm_state t = LE_TIMER_STATE_RINGING then ''ringing'' else ''pending'') @ ''\",\"seconds_remaining\":'' @
     int_digits (local_remaining now_ms now_epoch t) @ '',\"label\":\"'' @
     json_escape (LE_TIMER_LABEL_MAX * 2) (tm_label t) @ ''\"}''"

definition remote_entry :: "remote_timer \<Rightarrow> string" where
  "remote_entry r =
     ''{\"kind\":\"remote\",\"external_id\":\"'' @ json_escape (REMOTE_TIMER_ID_MAX * 6) (rt_external_id r) @
     ''\",\"name\":\"'' @ json_escape (REMOTE_TIMER_NAME_MAX * 6) (rt_name r) @ ''\",\"state\":\"'' @
     (if ringing r then ''ringing'' else if rt_is_active r then ''pending'' else ''paused'') @
     ''\",\"total_seconds\":'' @ nat_digits (unat (rt_total_seconds r)) @ '',\"seconds_left\":'' @
     nat_digits (unat (rt_seconds_left r)) @ '',\"is_active\":'' @ (if rt_is_active r then ''true'' else ''false'') @ ''}''"

fun write_entries :: "nat \<Rightarrow> bool \<Rightarrow> string list \<Rightarrow> string \<Rightarrow> string option" where
  "write_entries z first [] buf = Some buf"
| "write_entries z first (e # es) buf =
     Option.bind (append_text z ((if first then [] else '','') @ e) buf) (write_entries z False es)"

definition timers_json :: "int \<Rightarrow> int \<Rightarrow> nat \<Rightarrow> timer_context \<Rightarrow> string option" where
  "timers_json now_ms now_epoch z c =
     Option.bind (append_text z ''{\"timers\":['' []) (\<lambda>b1.
     Option.bind (write_entries z True (map (local_entry now_ms now_epoch)
         (filter (\<lambda>t. tm_state t \<noteq> LE_TIMER_STATE_FREE) (ts_timers (td_timers c)))) b1) (\<lambda>b2.
     Option.bind (append_text z (''],\"ringing\":'' @ nat_digits (le_timer_ringing_count (td_timers c)) @ '',\"missed\":'' @
         nat_digits (unat (ts_missed (td_timers c))) @ '',\"remote_timers\":['') b2) (\<lambda>b3.
     Option.bind (write_entries z True (map remote_entry (filter (\<lambda>r. \<not> unused_slot r) (tc_remote c))) b3) (\<lambda>b4.
     append_text z (''],\"remote_ringing\":'' @ nat_digits (remote_ringing_count c) @ ''}'') b4))))"

section \<open>The commands\<close>

fun add_error :: "timer_error \<Rightarrow> string" where
  "add_error LE_TIMER_ERR_FULL = ''no free timer slots''"
| "add_error LE_TIMER_ERR_RANGE = ''time out of range''"
| "add_error LE_TIMER_ERR_CLOCK = ''clock not synchronised yet''"
| "add_error LE_TIMER_ERR_NOT_FOUND = ''cannot add timer''"

type_synonym answer = "(string + string) \<times> timer_context"

definition set_timers :: "le_timer_set \<Rightarrow> timer_context \<Rightarrow> timer_context" where
  "set_timers s c = c\<lparr>td_timers := s\<rparr>"

definition mark_dirty :: "timer_context \<Rightarrow> timer_context" where
  "mark_dirty c = c\<lparr>td_dirty := True\<rparr>"

definition command_status :: "int \<Rightarrow> int \<Rightarrow> timer_context \<Rightarrow> answer" where
  "command_status now_ms now_epoch c =
     (case timers_json now_ms now_epoch (LE_ADAPTER_MSG_MAX - 64) c of
        None \<Rightarrow> (Inl ''too many timers'', c) | Some data \<Rightarrow> (Inr data, c))"

definition added :: "timer_error + (u32 \<times> le_timer_set) \<Rightarrow> timer_context \<Rightarrow> answer" where
  "added result c =
     (case result of
        Inl e \<Rightarrow> (Inl (add_error e), c)
      | Inr (created, s) \<Rightarrow>
          (Inr (''{\"id\":'' @ nat_digits (unat created) @ ''}''), mark_dirty (set_timers s c)))"

definition command_add :: "string \<Rightarrow> string \<Rightarrow> int \<Rightarrow> timer_context \<Rightarrow> answer" where
  "command_add args label now_ms c =
     (case json_get_int64 args ''seconds'' of
        Some (Some seconds) \<Rightarrow> added (le_timer_add_countdown (td_timers c) seconds (Some label) now_ms) c
      | _ \<Rightarrow> (Inl ''add requires seconds'', c))"

definition command_add_alarm :: "string \<Rightarrow> string \<Rightarrow> int \<Rightarrow> timer_context \<Rightarrow> answer" where
  "command_add_alarm args label now_epoch c =
     (case json_get_int args ''epoch'' of
        (found, epoch) \<Rightarrow>
          if found < 1 then (Inl ''add_alarm requires epoch'', c)
          else added (le_timer_add_alarm (td_timers c) epoch (Some label) now_epoch) c)"

definition command_cancel_all :: "timer_context \<Rightarrow> answer" where
  "command_cancel_all c =
     (let s = td_timers c; pending = (\<lambda>t. tm_state t = LE_TIMER_STATE_PENDING);
          cancelled = length (filter pending (ts_timers s));
          c1 = set_timers (s\<lparr>ts_timers := map (\<lambda>t. if pending t then timer_zero else t) (ts_timers s)\<rparr>) c
      in (Inr (''{\"cancelled\":'' @ nat_digits cancelled @ ''}''), if 0 < cancelled then mark_dirty c1 else c1))"

text \<open>The loop that looks for the soonest: its remaining time or -1, its id and escaped label, and the count.\<close>

fun next_scan :: "int \<Rightarrow> int \<Rightarrow> int \<times> u32 \<times> string \<times> nat \<Rightarrow> le_timer list \<Rightarrow> int \<times> u32 \<times> string \<times> nat" where
  "next_scan now_ms now_epoch acc [] = acc"
| "next_scan now_ms now_epoch (soonest, soonest_id, label, count) (t # ts) =
     next_scan now_ms now_epoch
       (if tm_state t \<noteq> LE_TIMER_STATE_PENDING then (soonest, soonest_id, label, count)
        else
          let remaining = local_remaining now_ms now_epoch t
          in if soonest < 0 \<or> remaining < soonest
             then (remaining, tm_id t, json_escape (LE_TIMER_LABEL_MAX * 2) (tm_label t), count + 1)
             else (soonest, soonest_id, label, count + 1)) ts"

definition command_next :: "int \<Rightarrow> int \<Rightarrow> timer_context \<Rightarrow> answer" where
  "command_next now_ms now_epoch c =
     (case next_scan now_ms now_epoch (- 1, 0, [], 0) (ts_timers (td_timers c)) of
        (soonest, soonest_id, label, count) \<Rightarrow>
          (Inr (''{\"count\":'' @ nat_digits count @ '',\"id\":'' @ nat_digits (unat soonest_id) @
             '',\"seconds_remaining\":'' @ int_digits (if soonest < 0 then 0 else soonest) @ '',\"label\":\"'' @ label @ ''\"}''), c))"

text \<open>Cancelling first lets the schedule take its step to the instant, which stays whatever comes of it.\<close>

definition cancel_by_id :: "u32 \<Rightarrow> int \<Rightarrow> int \<Rightarrow> timer_context \<Rightarrow> answer" where
  "cancel_by_id timer_id now_ms now_epoch c =
     (case le_timer_cancel_at (td_timers c) timer_id now_ms now_epoch of
        (s, Some _) \<Rightarrow> (Inl ''no such timer'', set_timers s c)
      | (s, None) \<Rightarrow> (Inr ''{}'', mark_dirty (set_timers s c)))"

definition labelled :: "string \<Rightarrow> le_timer list \<Rightarrow> le_timer list" where
  "labelled label = filter (\<lambda>t. tm_state t = LE_TIMER_STATE_PENDING \<and> tm_label t = label)"

definition command_cancel :: "string \<Rightarrow> string \<Rightarrow> int \<Rightarrow> int \<Rightarrow> timer_context \<Rightarrow> answer" where
  "command_cancel args label now_ms now_epoch c =
     (case json_get_uint args ''id'' of
        Some None \<Rightarrow> (Inl ''cancel id must be a positive integer'', c)
      | Some (Some n) \<Rightarrow>
          if n = 0 then (Inl ''cancel id must be a positive integer'', c)
          else cancel_by_id (of_nat n) now_ms now_epoch c
      | None \<Rightarrow>
          if label = [] then (Inl ''cancel requires id or label'', c)
          else
            let found = labelled label (ts_timers (td_timers c))
            in if length found \<noteq> 1
               then (Inl (if 1 < length found then ''timer label is ambiguous'' else ''no such timer''), c)
               else cancel_by_id (tm_id (last found)) now_ms now_epoch c)"

definition command_dismiss :: "string \<Rightarrow> timer_context \<Rightarrow> answer" where
  "command_dismiss args c =
     (let reply = (\<lambda>stopped c. (Inr (''{\"dismissed\":'' @ nat_digits stopped @ ''}''), if 0 < stopped then mark_dirty c else c))
      in case json_get_uint args ''id'' of
           Some None \<Rightarrow> (Inl ''dismiss id must be a positive integer'', c)
         | Some (Some n) \<Rightarrow>
             if n = 0 then (Inl ''dismiss id must be a positive integer'', c)
             else (case le_timer_dismiss (td_timers c) (of_nat n) of (stopped, s) \<Rightarrow> reply stopped (set_timers s c))
         | None \<Rightarrow>
             (case le_timer_dismiss_all (td_timers c) of
                (stopped, s) \<Rightarrow> (case remote_dismiss_all (set_timers s c) of (n, c1) \<Rightarrow> reply (stopped + n) c1)))"

definition dispatch :: "string \<Rightarrow> string \<Rightarrow> int \<Rightarrow> int \<Rightarrow> timer_context \<Rightarrow> answer" where
  "dispatch cmd args now_ms now_epoch c =
     (if cmd = ''remote_event'' then remote_event args now_ms c
      else if cmd = ''remote_clear'' then (Inr ''{}'', remote_clear c)
      else
        case json_get_string LE_TIMER_LABEL_MAX args ''label'' of
          Some None \<Rightarrow> (Inl ''label is missing, invalid, or too long'', c)
        | label_result \<Rightarrow>
            let label = (case label_result of Some (Some l) \<Rightarrow> l | _ \<Rightarrow> [])
            in if cmd = ''status'' \<or> cmd = ''list'' then command_status now_ms now_epoch c
               else if cmd = ''add'' then command_add args label now_ms c
               else if cmd = ''add_alarm'' then command_add_alarm args label now_epoch c
               else if cmd = ''cancel_all'' then command_cancel_all c
               else if cmd = ''next'' then command_next now_ms now_epoch c
               else if cmd = ''cancel'' then command_cancel args label now_ms now_epoch c
               else if cmd = ''dismiss'' \<or> cmd = ''dismiss_all'' then command_dismiss args c
               else (Inl ''unknown command'', c))"

text \<open>A message of a client: the text to write back, if any, and the context after it.\<close>

definition timerd_serve :: "nat \<Rightarrow> string \<Rightarrow> int \<Rightarrow> int \<Rightarrow> timer_context \<Rightarrow> string option \<times> timer_context" where
  "timerd_serve w message now_ms now_epoch c =
     (serve_client w (\<lambda>cmd args. fst (dispatch cmd args now_ms now_epoch c)) message,
      case le_adapter_parse_request w 64 message 0 of
        (Some (cmd, args), _) \<Rightarrow> snd (dispatch cmd args now_ms now_epoch c)
      | _ \<Rightarrow> c)"

section \<open>A round of the loop\<close>

definition RING_PERIOD_MS :: int where "RING_PERIOD_MS = 2000"
definition POLL_CAP_MS :: int where "POLL_CAP_MS = 60000"
definition RESTORE_RETRY_MS :: int where "RESTORE_RETRY_MS = 1000"

text \<open>Whether the cue was played, and the context; \<open>cue_ms\<close> is the clock after the cue.\<close>

definition ring_tick :: "int \<Rightarrow> int \<Rightarrow> timer_context \<Rightarrow> bool \<times> timer_context" where
  "ring_tick now_ms cue_ms c =
     (let c1 = remote_ring_expire now_ms c
      in if ringing_count c1 = 0 then (False, c1\<lparr>tc_next_ring_ms := 0\<rparr>)
         else if now_ms < tc_next_ring_ms c1 then (False, c1)
         else (True, c1\<lparr>tc_next_ring_ms := cue_ms + RING_PERIOD_MS\<rparr>))"

fun remote_poll :: "int \<Rightarrow> int \<Rightarrow> remote_timer list \<Rightarrow> int" where
  "remote_poll now_ms timeout [] = timeout"
| "remote_poll now_ms timeout (r # rs) =
     remote_poll now_ms
       (if \<not> ringing r then timeout
        else
          let remaining = rt_ring_started_ms r + LE_TIMER_RING_SECONDS * 1000 - now_ms;
              remaining = (if remaining < 0 then 0 else remaining)
          in if remaining < timeout then remaining else timeout) rs"

definition timer_poll_timeout :: "int \<Rightarrow> int \<Rightarrow> timer_context \<Rightarrow> int" where
  "timer_poll_timeout now_ms now_epoch c =
     (let timeout = remote_poll now_ms (le_timer_poll_timeout_ms (td_timers c) now_ms now_epoch POLL_CAP_MS) (tc_remote c)
      in if \<not> td_state_loaded c \<and> RESTORE_RETRY_MS < timeout then RESTORE_RETRY_MS else timeout)"

definition round_timeout :: "int \<Rightarrow> int \<Rightarrow> timer_context \<Rightarrow> int" where
  "round_timeout now_ms now_epoch c =
     (let timeout = timer_poll_timeout now_ms now_epoch c; until_ring = max 0 (tc_next_ring_ms c - now_ms)
      in if 0 < ringing_count c \<and> until_ring < timeout then until_ring else timeout)"

text \<open>The clock readings of a round, in the order they are taken.\<close>

record round_clock =
  rc_now_ms :: int
  rc_now_epoch :: int
  rc_load_ms :: int
  rc_load_epoch :: int
  rc_cue_ms :: int
  rc_later_ms :: int
  rc_later_epoch :: int

definition with_timerd :: "timerd \<Rightarrow> timer_context \<Rightarrow> timer_context" where
  "with_timerd t c = c\<lparr>td_timers := td_timers t, td_dirty := td_dirty t, td_state_loaded := td_state_loaded t,
     td_commit_pending := td_commit_pending t, td_disk := td_disk t\<rparr>"

definition load_when_valid :: "(file_call \<Rightarrow> bool) \<Rightarrow> nat \<Rightarrow> round_clock \<Rightarrow> timer_context \<Rightarrow> timer_context" where
  "load_when_valid fails w k c =
     (if \<not> td_state_loaded c \<and> LE_TIMER_CLOCK_VALID_EPOCH \<le> rc_now_epoch k then
        (case state_load_at fails w (rc_load_ms k) (rc_load_epoch k) (timerd.truncate c) of
           (ok, t) \<Rightarrow> with_timerd (if ok then t\<lparr>td_state_loaded := True\<rparr> else t) c)
      else c)"

definition fire_due :: "int \<Rightarrow> int \<Rightarrow> timer_context \<Rightarrow> timer_context" where
  "fire_due now_ms now_epoch c =
     (case le_timer_step (td_timers c) now_ms now_epoch LE_TIMER_MAX of
        (count, fired, s) \<Rightarrow>
          let c1 = set_timers s c in if 0 < count then mark_dirty (c1\<lparr>tc_next_ring_ms := 0\<rparr>) else c1)"

definition timerd_round ::
  "(file_call \<Rightarrow> bool) \<Rightarrow> string \<Rightarrow> nat \<Rightarrow> round_clock \<Rightarrow> timer_context \<Rightarrow> bool \<times> int \<times> timer_context" where
  "timerd_round fails partial w k c =
     (let c1 = load_when_valid fails w k c;
          c2 = fire_due (rc_now_ms k) (rc_now_epoch k) c1;
          (cued, c3) = ring_tick (rc_now_ms k) (rc_cue_ms k) c2;
          c4 = with_timerd (save_if_dirty fails partial w (rc_later_ms k) (rc_later_epoch k) (timerd.truncate c3)) c3
      in (cued, round_timeout (rc_later_ms k) (rc_later_epoch k) c4, c4))"

section \<open>Commands in order\<close>

definition pending_of :: "timer_context \<Rightarrow> le_timer list" where
  "pending_of c = filter is_pending (ts_timers (td_timers c))"

text \<open>Nothing is due or over at an instant: the schedule would not take a step.\<close>

definition quiet :: "int \<Rightarrow> int \<Rightarrow> timer_context \<Rightarrow> bool" where
  "quiet now_ms now_epoch c \<longleftrightarrow> snd (snd (le_timer_step (td_timers c) now_ms now_epoch 0)) = td_timers c"

text \<open>
  What every command keeps: the tables in order, and, when nothing is due, that a refusal changes nothing and that a
  change to what will be saved is marked.\<close>

definition orderly :: "int \<Rightarrow> int \<Rightarrow> timer_context \<Rightarrow> answer \<Rightarrow> bool" where
  "orderly now_ms now_epoch c a \<longleftrightarrow>
     (timers_wf (td_timers c) \<longrightarrow> timers_wf (td_timers (snd a))) \<and> (remote_ok c \<longrightarrow> remote_ok (snd a)) \<and>
     (td_dirty c \<longrightarrow> td_dirty (snd a)) \<and>
     (remote_ok c \<longrightarrow> quiet now_ms now_epoch c \<longrightarrow> (\<forall>e. fst a = Inl e \<longrightarrow> snd a = c)) \<and>
     (quiet now_ms now_epoch c \<longrightarrow> td_dirty (snd a) \<or> pending_of (snd a) = pending_of c)"

lemma orderly_refusal [simp]: "orderly now_ms now_epoch c (Inl e, c)"
  by (simp add: orderly_def)

lemma orderly_look [simp]: "orderly now_ms now_epoch c (Inr d, c)"
  by (simp add: orderly_def)

lemma set_timers_fields [simp]:
  "td_timers (set_timers s c) = s" "td_dirty (set_timers s c) = td_dirty c" "tc_remote (set_timers s c) = tc_remote c"
  "td_timers (mark_dirty c) = td_timers c" "td_dirty (mark_dirty c)" "tc_remote (mark_dirty c) = tc_remote c"
  by (simp_all add: set_timers_def mark_dirty_def)

lemma remote_ok_table: "tc_remote c = tc_remote c' \<Longrightarrow> remote_ok c = remote_ok c'"
  by (simp add: remote_ok_def remote_at_def)

lemma orderly_changed:
  "(timers_wf (td_timers c) \<Longrightarrow> timers_wf s) \<Longrightarrow> orderly now_ms now_epoch c (Inr d, mark_dirty (set_timers s c))"
  using remote_ok_table [of "mark_dirty (set_timers s c)" c] by (simp add: orderly_def)

lemma added_orderly:
  assumes "\<And>i s. result = Inr (i, s) \<Longrightarrow> timers_wf (td_timers c) \<Longrightarrow> timers_wf s"
  shows "orderly now_ms now_epoch c (added result c)"
  using assms by (auto simp: added_def intro!: orderly_changed split: sum.split prod.split)

lemma command_add_orderly: "orderly now_ms now_epoch c (command_add args label now_ms c)"
proof -
  have "le_timer_add_countdown (td_timers c) n l now_ms = Inr (i, s) \<Longrightarrow> timers_wf (td_timers c) \<Longrightarrow> timers_wf s" for n l i s
    using wf_apply [of "td_timers c" "Add_Countdown n l now_ms"] by simp
  then show ?thesis by (auto simp: command_add_def intro!: added_orderly split: option.split)
qed

lemma command_add_alarm_orderly: "orderly now_ms now_epoch c (command_add_alarm args label now_epoch c)"
proof -
  have "le_timer_add_alarm (td_timers c) n l now_epoch = Inr (i, s) \<Longrightarrow> timers_wf (td_timers c) \<Longrightarrow> timers_wf s" for n l i s
    using wf_apply [of "td_timers c" "Add_Alarm n l now_epoch"] by simp
  then show ?thesis by (auto simp: command_add_alarm_def intro!: added_orderly split: prod.split)
qed

lemma map_unchanged: "\<forall>t\<in>set ts. \<not> p t \<Longrightarrow> map (\<lambda>t. if p t then z else t) ts = ts"
  by (induction ts) auto

lemma command_cancel_all_orderly: "orderly now_ms now_epoch c (command_cancel_all c)"
proof -
  let ?p = "\<lambda>t. tm_state t = LE_TIMER_STATE_PENDING" and ?s = "td_timers c"
  let ?s' = "?s\<lparr>ts_timers := map (\<lambda>t. if ?p t then timer_zero else t) (ts_timers ?s)\<rparr>"
  have wf: "timers_wf ?s \<Longrightarrow> timers_wf ?s'" by (rule wf_map) auto
  show ?thesis
  proof (cases "filter ?p (ts_timers ?s) = []")
    case True
    then have "?s' = ?s" by (simp add: map_unchanged filter_empty_conv)
    then have "command_cancel_all c = (Inr (''{\"cancelled\":'' @ nat_digits 0 @ ''}''), c)"
      using True by (simp add: command_cancel_all_def Let_def set_timers_def)
    then show ?thesis by simp
  next
    case False
    then have "command_cancel_all c =
        (Inr (''{\"cancelled\":'' @ nat_digits (length (filter ?p (ts_timers ?s))) @ ''}''), mark_dirty (set_timers ?s' c))"
      by (simp add: command_cancel_all_def Let_def)
    then show ?thesis using orderly_changed [OF wf] by simp
  qed
qed

lemma cancel_by_id_orderly: "orderly now_ms now_epoch c (cancel_by_id i now_ms now_epoch c)"
proof -
  have wf: "timers_wf (td_timers c) \<Longrightarrow> timers_wf (fst (le_timer_cancel_at (td_timers c) i now_ms now_epoch))"
    using wf_apply [of "td_timers c" "Cancel_At i now_ms now_epoch"] by simp
  obtain s r where r: "le_timer_cancel_at (td_timers c) i now_ms now_epoch = (s, r)" by fastforce
  show ?thesis
  proof (cases r)
    case None
    then show ?thesis using r wf by (auto simp: cancel_by_id_def intro!: orderly_changed)
  next
    case (Some e)
    then have q: "quiet now_ms now_epoch c \<Longrightarrow> s = td_timers c"
      using r by (auto simp: le_timer_cancel_at_def quiet_def split: prod.splits sum.splits)
    then have "quiet now_ms now_epoch c \<Longrightarrow> set_timers s c = c" by (simp add: set_timers_def)
    then show ?thesis using r wf Some remote_ok_table [of "set_timers s c" c]
      by (simp add: cancel_by_id_def orderly_def)
  qed
qed

lemma command_cancel_orderly: "orderly now_ms now_epoch c (command_cancel args label now_ms now_epoch c)"
  by (auto simp: command_cancel_def Let_def cancel_by_id_orderly split: option.split)

lemma filter_update_other:
  "k < length xs \<Longrightarrow> \<not> p (xs ! k) \<Longrightarrow> \<not> p y \<Longrightarrow> filter p (xs[k := y]) = filter p xs"
proof (induction xs arbitrary: k)
  case (Cons x xs)
  then show ?case by (cases k) auto
qed simp

lemma dismiss_pending:
  "filter is_pending (ts_timers (snd (le_timer_dismiss s i))) = filter is_pending (ts_timers s)"
  "filter is_pending (ts_timers (snd (le_timer_dismiss_all s))) = filter is_pending (ts_timers s)"
proof -
  show "filter is_pending (ts_timers (snd (le_timer_dismiss s i))) = filter is_pending (ts_timers s)"
    using find_Some [of s i]
    by (auto simp: le_timer_dismiss_def put_timer_def timer_zero_def intro!: filter_update_other split: option.split)
  have "filter is_pending (map (\<lambda>t. if tm_state t = LE_TIMER_STATE_RINGING then timer_zero else t) ts) = filter is_pending ts" for ts
    by (induction ts) (auto simp: timer_zero_def)
  then show "filter is_pending (ts_timers (snd (le_timer_dismiss_all s))) = filter is_pending (ts_timers s)"
    by (simp add: dismiss_all_set)
qed

lemma orderly_dismissed:
  assumes "timers_wf (td_timers c) \<Longrightarrow> timers_wf (td_timers c1)" "remote_ok c \<Longrightarrow> remote_ok c1"
    and "td_dirty c1 = td_dirty c" "pending_of c1 = pending_of c"
  shows "orderly now_ms now_epoch c (Inr d, if 0 < n then mark_dirty c1 else c1)"
  using assms remote_ok_table [of "mark_dirty c1" c1] by (auto simp: orderly_def pending_of_def)

lemma command_dismiss_orderly: "orderly now_ms now_epoch c (command_dismiss args c)"
proof -
  have one: "orderly now_ms now_epoch c
      (case le_timer_dismiss (td_timers c) i of (stopped, s) \<Rightarrow>
        (Inr (d stopped), if 0 < stopped then mark_dirty (set_timers s c) else set_timers s c))" for i d
  proof -
    obtain n s where r: "le_timer_dismiss (td_timers c) i = (n, s)" by fastforce
    have "timers_wf (td_timers c) \<Longrightarrow> timers_wf s" using wf_apply [of "td_timers c" "Dismiss i"] r by simp
    moreover have "pending_of (set_timers s c) = pending_of c"
      using dismiss_pending(1) [of "td_timers c" i] r by (simp add: pending_of_def)
    ultimately show ?thesis using r remote_ok_table [of "set_timers s c" c] by (simp add: orderly_dismissed)
  qed
  obtain n s where r: "le_timer_dismiss_all (td_timers c) = (n, s)" by fastforce
  obtain m c1 where m: "remote_dismiss_all (set_timers s c) = (m, c1)" by fastforce
  then have c1: "td_timers c1 = s" "td_dirty c1 = td_dirty c" by (auto simp: remote_dismiss_all_def)
  have all: "orderly now_ms now_epoch c (Inr d, if 0 < k then mark_dirty c1 else c1)" for d and k :: nat
  proof (rule orderly_dismissed)
    show "timers_wf (td_timers c) \<Longrightarrow> timers_wf (td_timers c1)"
      using wf_apply [of "td_timers c" Dismiss_All] r c1 by simp
    show "remote_ok c \<Longrightarrow> remote_ok c1"
      using remote_dismiss_ok [of "set_timers s c"] m remote_ok_table [of "set_timers s c" c] by simp
    show "pending_of c1 = pending_of c" using dismiss_pending(2) [of "td_timers c"] r c1 by (simp add: pending_of_def)
  qed (rule c1)
  show ?thesis
  proof (cases "json_get_uint args ''id''")
    case None
    then show ?thesis using all [of _ "n + m"] by (simp add: command_dismiss_def Let_def r m del: add_gr_0)
  next
    case (Some p)
    then show ?thesis
      using one [where d = "\<lambda>stopped. ''{\"dismissed\":'' @ nat_digits stopped @ ''}''"]
      by (simp add: command_dismiss_def Let_def split: option.split)
  qed
qed

lemma remote_event_orderly: "orderly now_ms now_epoch c (remote_event args now_ms c)"
proof -
  obtain reply c' where e: "remote_event args now_ms c = (reply, c')" by fastforce
  have "td_timers c' = td_timers c \<and> td_dirty c' = td_dirty c"
    using e by (auto simp: remote_event_def apply_remote_event_def put_remote_def Let_def
        split: sum.splits prod.splits option.splits if_splits)
  then show ?thesis
    using remote_event_refines [OF _ e] e by (auto simp: orderly_def pending_of_def)
qed

lemma command_status_orderly: "orderly now_ms now_epoch c (command_status now_ms now_epoch c)"
  by (simp add: command_status_def split: option.split)

lemma command_next_orderly: "orderly now_ms now_epoch c (command_next now_ms now_epoch c)"
  by (simp add: command_next_def split: prod.split)

lemma remote_clear_orderly: "orderly now_ms now_epoch c (Inr d, remote_clear c)"
  using remote_clear_ok [of c] by (simp add: orderly_def pending_of_def remote_clear_def)

lemma dispatch_orderly: "orderly now_ms now_epoch c (dispatch cmd args now_ms now_epoch c)"
  unfolding dispatch_def Let_def
  by (auto simp: remote_event_orderly remote_clear_orderly command_status_orderly command_add_orderly
      command_add_alarm_orderly command_cancel_all_orderly command_next_orderly command_cancel_orderly
      command_dismiss_orderly split: option.split)

section \<open>The daemon as a machine\<close>

lemma restore_line_wf: "timers_wf s \<Longrightarrow> timers_wf (restore_line h label now_ms now_epoch s)"
proof -
  assume wf: "timers_wf s"
  have "restore_timer s k i d l e t = Inr (j, s') \<Longrightarrow> timers_wf s'" for k i d l e t j s'
    using wf_apply [OF wf, of "Restore k i d l e t"] by simp
  then show ?thesis using wf
    by (auto simp: restore_line_def Let_def le_timer_restore_alarm_with_id_def le_timer_restore_alarm_def
        le_timer_restore_countdown_with_id_def le_timer_restore_countdown_def split: sum.split option.split)
qed

lemma load_text_wf: "timers_wf s \<Longrightarrow> timers_wf (load_text w now_ms now_epoch file s)"
proof -
  have "timers_wf s \<Longrightarrow> timers_wf (fold (load_line w now_ms now_epoch) ls s)" for ls
    by (induction ls arbitrary: s) (auto simp: load_line_def restore_line_wf split: option.split)
  then show "timers_wf s \<Longrightarrow> ?thesis" by (simp add: load_text_def)
qed

lemma load_at_wf:
  "state_load_at fails w now_ms now_epoch t = (ok, t') \<Longrightarrow> timers_wf (td_timers t) \<Longrightarrow> timers_wf (td_timers t')"
  by (auto simp: state_load_at_def load_text_wf split: if_splits option.splits)

lemma save_wf: "timers_wf (td_timers t) \<Longrightarrow> timers_wf (td_timers (save_if_dirty fails partial w now_ms now_epoch t))"
proof -
  assume wf: "timers_wf (td_timers t)"
  obtain ok t1 where l: "state_load_at fails w now_ms now_epoch t = (ok, t1)" by fastforce
  have "timers_wf (td_timers t1)" using load_at_wf [OF l wf] .
  then have "timers_wf (td_timers (fst (snd (state_save_at fails partial w now_ms now_epoch t))))"
    using wf l by (auto simp: state_save_at_def Let_def split: prod.split if_splits)
  then show ?thesis using wf
    by (auto simp: save_if_dirty_def Let_def split: prod.split state_save_result.split)
qed

lemma truncate_fields [simp]:
  "td_timers (timerd.truncate c) = td_timers c" "td_dirty (timerd.truncate c) = td_dirty c"
  by (simp_all add: timerd.defs)

lemma with_timerd_fields [simp]:
  "td_timers (with_timerd t c) = td_timers t" "tc_remote (with_timerd t c) = tc_remote c"
  "tc_next_ring_ms (with_timerd t c) = tc_next_ring_ms c"
  by (simp_all add: with_timerd_def)

definition context_ok :: "timer_context \<Rightarrow> bool" where
  "context_ok c \<longleftrightarrow> timers_wf (td_timers c) \<and> remote_ok c"

lemma context_ok_fields: "timers_wf (td_timers c') \<Longrightarrow> tc_remote c' = tc_remote c \<Longrightarrow> context_ok c \<Longrightarrow> context_ok c'"
  using remote_ok_table [of c' c] by (simp add: context_ok_def)

lemma load_when_valid_ok: "context_ok c \<Longrightarrow> context_ok (load_when_valid fails w k c)"
proof -
  assume ok: "context_ok c"
  obtain b t where l: "state_load_at fails w (rc_load_ms k) (rc_load_epoch k) (timerd.truncate c) = (b, t)" by fastforce
  have "timers_wf (td_timers t)" using load_at_wf [OF l] ok by (simp add: context_ok_def)
  then show ?thesis using ok l by (auto simp: load_when_valid_def intro: context_ok_fields)
qed

lemma fire_due_set: "td_timers (fire_due now_ms now_epoch c) = snd (snd (le_timer_step (td_timers c) now_ms now_epoch LE_TIMER_MAX))"
  "tc_remote (fire_due now_ms now_epoch c) = tc_remote c"
  by (auto simp: fire_due_def Let_def mark_dirty_def set_timers_def split: prod.split)

lemma fire_due_ok: "context_ok c \<Longrightarrow> context_ok (fire_due now_ms now_epoch c)"
  by (rule context_ok_fields) (simp_all add: fire_due_set wf_step context_ok_def)

lemma ring_tick_ok: "context_ok c \<Longrightarrow> context_ok (snd (ring_tick now_ms cue_ms c))"
proof -
  assume "context_ok c"
  then have "context_ok (remote_ring_expire now_ms c)"
    using remote_expire_ok [of c now_ms] by (simp add: context_ok_def remote_ring_expire_def)
  then show ?thesis by (auto simp: ring_tick_def Let_def intro: context_ok_fields simp: context_ok_def)
qed

lemma timerd_round_ok: "context_ok c \<Longrightarrow> context_ok (snd (snd (timerd_round fails partial w k c)))"
proof -
  assume ok: "context_ok c"
  obtain cued c3 where t: "ring_tick (rc_now_ms k) (rc_cue_ms k)
      (fire_due (rc_now_ms k) (rc_now_epoch k) (load_when_valid fails w k c)) = (cued, c3)" by fastforce
  then have "context_ok c3"
    using ring_tick_ok [OF fire_due_ok [OF load_when_valid_ok [OF ok]]] by (metis snd_conv)
  then show ?thesis using t save_wf [of "timerd.truncate c3"]
    by (auto simp: timerd_round_def Let_def context_ok_def intro!: context_ok_fields [THEN iffD1 [OF context_ok_def], THEN conjunct2])
qed

datatype timerd_event =
    Client nat string int int
  | Turn "file_call \<Rightarrow> bool" string nat round_clock

fun timerd_apply :: "timer_context \<Rightarrow> timerd_event \<Rightarrow> timer_context" where
  "timerd_apply c (Client w message now_ms now_epoch) = snd (timerd_serve w message now_ms now_epoch c)"
| "timerd_apply c (Turn fails partial w k) = snd (snd (timerd_round fails partial w k c))"

definition timerd_start :: "timer_context \<Rightarrow> bool" where
  "timerd_start c \<longleftrightarrow> td_timers c = le_timer_set_init \<and> tc_remote c = replicate REMOTE_TIMER_MAX remote_zero"

lemma dispatch_ok: "context_ok c \<Longrightarrow> context_ok (snd (dispatch cmd args now_ms now_epoch c))"
  using dispatch_orderly [of now_ms now_epoch c cmd args] by (simp add: orderly_def context_ok_def)

interpretation timer_daemon: machine timerd_start timerd_apply context_ok
proof unfold_locales
  show "timerd_start c \<Longrightarrow> context_ok c" for c
    by (auto simp: timerd_start_def context_ok_def timers_wf_slots le_timer_set_init_def remote_ok_def remote_at_def
        remote_zero_def remote_slot_ok_def)
  show "context_ok c \<Longrightarrow> context_ok (timerd_apply c e)" for c e
    by (cases e) (auto simp: timerd_serve_def timerd_round_ok dispatch_ok split: prod.split option.split)
qed

section \<open>Properties\<close>

text \<open>
  C26: the tables stay in order.  Whatever requests arrive and whatever the clocks and the files do, the daemon's schedule
  has its sixteen slots with nothing left in a free one and every label within its field, and its table of
  remote timers has eight slots, each id once and within its field, no more time left than in all, and no
  ringing timer that still counts.\<close>

theorem timerd_tables_in_order:
  assumes "timerd_start c"
  shows "timers_wf (td_timers (run timerd_apply c events)) \<and> remote_ok (run timerd_apply c events)"
  using timer_daemon.inv_from_start [OF assms] by (simp add: context_ok_def)

lemma timerd_tables_in_order_witness:
  "timers_wf (td_timers (run timerd_apply empty_context [Client 32 ''x'' 1 2, Turn (\<lambda>_. True) [] 32
      \<lparr>rc_now_ms = 0, rc_now_epoch = 0, rc_load_ms = 0, rc_load_epoch = 0, rc_cue_ms = 0, rc_later_ms = 0, rc_later_epoch = 0\<rparr>])) \<and>
   remote_ok (run timerd_apply empty_context [Client 32 ''x'' 1 2, Turn (\<lambda>_. True) [] 32
      \<lparr>rc_now_ms = 0, rc_now_epoch = 0, rc_load_ms = 0, rc_load_epoch = 0, rc_cue_ms = 0, rc_later_ms = 0, rc_later_epoch = 0\<rparr>])"
  by (rule timerd_tables_in_order)
    (simp add: timerd_start_def empty_context_def timerd.defs timer_context.defs fresh_timerd_def)


lemma empty_context_fields:
  "td_timers empty_context = le_timer_set_init" "tc_remote empty_context = replicate REMOTE_TIMER_MAX remote_zero"
  "td_dirty empty_context = False"
  by (simp_all add: empty_context_def timerd.defs timer_context.defs fresh_timerd_def)

lemma timerd_start_ok: "timerd_start c \<Longrightarrow> context_ok c"
  using timer_daemon.inv_from_start [of c "[]"] by simp

lemma free_slots_step:
  "step_slots now_ms now_epoch (replicate n timer_zero) = (replicate n timer_zero, replicate n Quiet)"
  "fired_ids (replicate n Quiet) = []" "count_list (replicate n Quiet) Missed = 0"
proof -
  show "step_slots now_ms now_epoch (replicate n timer_zero) = (replicate n timer_zero, replicate n Quiet)"
    by (induction n) (simp_all add: step_slot_def timer_zero_def)
  show "fired_ids (replicate n Quiet) = []" "count_list (replicate n Quiet) Missed = 0" by (induction n) simp_all
qed

lemma empty_context_ok: "remote_ok empty_context" "quiet now_ms now_epoch empty_context"
proof -
  show "remote_ok empty_context"
    using timerd_start_ok [of empty_context] by (simp add: timerd_start_def empty_context_fields context_ok_def)
  show "quiet now_ms now_epoch empty_context"
    by (simp add: quiet_def empty_context_fields le_timer_set_init_def le_timer_step_def free_slots_step)
qed


text \<open>The text that would be saved depends on the pending timers alone.\<close>

lemma save_lines_pending:
  "save_lines now_ms now_epoch (filter is_pending ts) = save_lines now_ms now_epoch ts"
proof (induction ts)
  case (Cons t ts)
  have "save_line now_ms now_epoch t = Some []" if "\<not> is_pending t"
    using that by (cases "tm_state t") (simp_all add: save_line_def)
  moreover have "map_option ((@) []) x = x" for x :: "string option" by (cases x) simp_all
  ultimately show ?case using Cons by (cases "is_pending t") (simp_all cong: option.case_cong)
qed simp

text \<open>
  C13: a change is never forgotten.  After any request, at a moment when no timer is due, either the schedule is marked
  to be saved or its saved text is the same at every instant as before the request.\<close>

theorem timerd_change_is_marked:
  assumes "quiet now_ms now_epoch c"
  shows "td_dirty (snd (dispatch cmd args now_ms now_epoch c)) \<or>
    save_lines t e (ts_timers (td_timers (snd (dispatch cmd args now_ms now_epoch c)))) =
      save_lines t e (ts_timers (td_timers c))"
proof -
  have "td_dirty (snd (dispatch cmd args now_ms now_epoch c)) \<or>
      pending_of (snd (dispatch cmd args now_ms now_epoch c)) = pending_of c"
    using dispatch_orderly [of now_ms now_epoch c cmd args] assms unfolding orderly_def by blast
  then show ?thesis unfolding pending_of_def using save_lines_pending by metis
qed

lemma timerd_change_is_marked_witness:
  "td_dirty (snd (dispatch ''status'' ''{}'' 7 8 empty_context)) \<or>
   save_lines 1 2 (ts_timers (td_timers (snd (dispatch ''status'' ''{}'' 7 8 empty_context)))) =
     save_lines 1 2 (ts_timers (td_timers empty_context))"
  by (rule timerd_change_is_marked) (rule empty_context_ok)

definition due_context :: timer_context where
  "due_context = set_timers (put_timer le_timer_set_init 0
     (timer_zero\<lparr>tm_id := 1, tm_state := LE_TIMER_STATE_PENDING, tm_due_monotonic_ms := 1000\<rparr>)) empty_context"


section \<open>Ringing\<close>

lemma ring_counted: "t \<in> set (ts_timers s) \<Longrightarrow> tm_state t = LE_TIMER_STATE_RINGING \<Longrightarrow> 0 < le_timer_ringing_count s"
proof -
  have "t \<in> set ts \<Longrightarrow> p (tm_state t) \<Longrightarrow> 0 < count_state p ts" for ts p by (induction ts) auto
  then show "t \<in> set (ts_timers s) \<Longrightarrow> tm_state t = LE_TIMER_STATE_RINGING \<Longrightarrow> ?thesis"
    by (simp add: le_timer_ringing_count_def)
qed

lemma fire_due_rings:
  assumes "t \<in> set (ts_timers (td_timers c))" and "due_now now_ms now_epoch t"
  shows "0 < le_timer_ringing_count (td_timers (fire_due now_ms now_epoch c))"
    and "tc_next_ring_ms (fire_due now_ms now_epoch c) = 0"
proof -
  have "fst (step_slot now_ms now_epoch t) \<in> set (ts_timers (td_timers (fire_due now_ms now_epoch c)))"
    using assms(1) by (simp add: fire_due_set step_set)
  then show "0 < le_timer_ringing_count (td_timers (fire_due now_ms now_epoch c))"
    using fired_slot [OF assms(2)] by (intro ring_counted) auto
  have "t \<in> set (filter (due_now now_ms now_epoch) (ts_timers (td_timers c)))" using assms by simp
  then have "0 < fst (le_timer_step (td_timers c) now_ms now_epoch LE_TIMER_MAX)"
    unfolding step_count by (metis length_pos_if_in_set)
  then show "tc_next_ring_ms (fire_due now_ms now_epoch c) = 0"
    by (auto simp: fire_due_def Let_def mark_dirty_def set_timers_def split: prod.split)
qed

lemma fire_due_next: "tc_next_ring_ms (fire_due now_ms now_epoch c) \<in> {0, tc_next_ring_ms c}"
  by (auto simp: fire_due_def Let_def mark_dirty_def set_timers_def split: prod.split)

text \<open>
  C15: whoever is due is heard.  In the round in which a timer comes due the cue is played, and as long as anything
  rings the daemon sleeps no longer than a ring period, so that the next cue is not late.\<close>

theorem timerd_due_is_heard:
  assumes "timerd_round fails partial w k c = (cued, timeout, c')"
    and "0 \<le> rc_now_ms k" "rc_now_ms k \<le> rc_cue_ms k" "rc_cue_ms k \<le> rc_later_ms k"
    and "tc_next_ring_ms c \<le> rc_now_ms k + RING_PERIOD_MS"
  shows "((\<exists>t\<in>set (ts_timers (td_timers (load_when_valid fails w k c))). due_now (rc_now_ms k) (rc_now_epoch k) t) \<longrightarrow> cued) \<and>
    (0 < ringing_count c' \<longrightarrow> timeout \<le> RING_PERIOD_MS) \<and> tc_next_ring_ms c' \<le> rc_later_ms k + RING_PERIOD_MS"
proof -
  define c1 where "c1 = load_when_valid fails w k c"
  define c2 where "c2 = fire_due (rc_now_ms k) (rc_now_epoch k) c1"
  obtain q c3 where t: "ring_tick (rc_now_ms k) (rc_cue_ms k) c2 = (q, c3)" by fastforce
  have c': "cued = q" "tc_next_ring_ms c' = tc_next_ring_ms c3" "timeout = round_timeout (rc_later_ms k) (rc_later_epoch k) c'"
    using assms(1) t by (auto simp: timerd_round_def Let_def c1_def c2_def)
  have "tc_next_ring_ms c1 = tc_next_ring_ms c"
    by (auto simp: c1_def load_when_valid_def split: prod.split)
  then have n2: "tc_next_ring_ms c2 \<le> rc_now_ms k + RING_PERIOD_MS"
    using fire_due_next [of "rc_now_ms k" "rc_now_epoch k" c1] assms(2,5) by (auto simp: c2_def RING_PERIOD_MS_def)
  define e where "e = remote_ring_expire (rc_now_ms k) c2"
  have e: "td_timers e = td_timers c2" "tc_next_ring_ms e = tc_next_ring_ms c2" by (simp_all add: e_def remote_ring_expire_def)
  have tick: "(q, c3) = (if ringing_count e = 0 then (False, e\<lparr>tc_next_ring_ms := 0\<rparr>)
      else if rc_now_ms k < tc_next_ring_ms e then (False, e)
      else (True, e\<lparr>tc_next_ring_ms := rc_cue_ms k + RING_PERIOD_MS\<rparr>))"
    using t [symmetric] unfolding ring_tick_def Let_def e_def .
  then have n3: "tc_next_ring_ms c3 \<le> rc_later_ms k + RING_PERIOD_MS"
    using n2 e assms(2-4) by (auto simp: RING_PERIOD_MS_def split: if_splits)
  have "timeout \<le> RING_PERIOD_MS" if "0 < ringing_count c'"
  proof -
    have "timeout \<le> max 0 (tc_next_ring_ms c' - rc_later_ms k)"
      using that by (auto simp: c'(3) round_timeout_def Let_def)
    then show ?thesis using n3 c'(2) by (auto simp: RING_PERIOD_MS_def)
  qed
  moreover have "q" if "t \<in> set (ts_timers (td_timers c1))" "due_now (rc_now_ms k) (rc_now_epoch k) t" for t
  proof -
    have "0 < ringing_count e" "tc_next_ring_ms e = 0"
      using fire_due_rings [OF that] e by (simp_all add: ringing_count_def c2_def)
    then show ?thesis using tick assms(2) by simp
  qed
  ultimately show ?thesis using n3 c' by (auto simp: c1_def)
qed

lemma timerd_due_is_heard_witness:
  "\<exists>cued timeout c'. timerd_round (\<lambda>_. True) [] 32
       \<lparr>rc_now_ms = 1000, rc_now_epoch = 0, rc_load_ms = 1000, rc_load_epoch = 0, rc_cue_ms = 1100, rc_later_ms = 1101,
        rc_later_epoch = 0\<rparr> due_context = (cued, timeout, c') \<and>
     cued \<and> (0 < ringing_count c' \<longrightarrow> timeout \<le> RING_PERIOD_MS)"
proof -
  let ?k = "\<lparr>rc_now_ms = 1000, rc_now_epoch = 0, rc_load_ms = 1000, rc_load_epoch = 0, rc_cue_ms = 1100, rc_later_ms = 1101,
      rc_later_epoch = 0\<rparr> :: round_clock"
  let ?t = "timer_zero\<lparr>tm_id := 1, tm_state := LE_TIMER_STATE_PENDING, tm_due_monotonic_ms := 1000\<rparr>"
  obtain cued timeout c' where r: "timerd_round (\<lambda>_. True) [] 32 ?k due_context = (cued, timeout, c')" by (rule prod_cases3)
  have "tc_next_ring_ms due_context = 5"
    by (simp add: due_context_def set_timers_def empty_context_def timerd.defs timer_context.defs fresh_timerd_def)
  then have "tc_next_ring_ms due_context \<le> rc_now_ms ?k + RING_PERIOD_MS" by (simp add: RING_PERIOD_MS_def)
  note heard = timerd_due_is_heard [OF r _ _ _ this]
  have "load_when_valid (\<lambda>_. True) 32 ?k due_context = due_context"
    by (simp add: load_when_valid_def LE_TIMER_CLOCK_VALID_EPOCH_def)
  moreover have "?t \<in> set (ts_timers (td_timers due_context))"
    by (simp add: due_context_def put_timer_def le_timer_set_init_def LE_TIMER_MAX_def numeral_eq_Suc)
  moreover have "due_now 1000 0 ?t" by (simp add: due_now_def timer_zero_def)
  ultimately have "cued \<and> (0 < ringing_count c' \<longrightarrow> timeout \<le> RING_PERIOD_MS)" using heard by auto
  with r show ?thesis by (intro exI [of _ cued] exI [of _ timeout] exI [of _ c'] conjI) simp_all
qed

section \<open>The status document\<close>

definition local_doc :: "int \<Rightarrow> int \<Rightarrow> le_timer \<times> string \<Rightarrow> json_doc" where
  "local_doc now_ms now_epoch = (\<lambda>(t, label). JObj
     [(''id'', JInt (int (unat (tm_id t)))), (''kind'', JStr (kind_name (tm_kind t))),
      (''state'', JStr (if tm_state t = LE_TIMER_STATE_RINGING then ''ringing'' else ''pending'')),
      (''seconds_remaining'', JInt (local_remaining now_ms now_epoch t)), (''label'', JStr label)])"

definition remote_doc :: "remote_timer \<Rightarrow> json_doc" where
  "remote_doc r = JObj
     [(''kind'', JStr ''remote''), (''external_id'', JStr (rt_external_id r)), (''name'', JStr (rt_name r)),
      (''state'', JStr (if ringing r then ''ringing'' else if rt_is_active r then ''pending'' else ''paused'')),
      (''total_seconds'', JInt (int (unat (rt_total_seconds r)))), (''seconds_left'', JInt (int (unat (rt_seconds_left r)))),
      (''is_active'', JBool (rt_is_active r))]"

definition used_timers :: "timer_context \<Rightarrow> le_timer list" where
  "used_timers c = filter (\<lambda>t. tm_state t \<noteq> LE_TIMER_STATE_FREE) (ts_timers (td_timers c))"

definition shown_remotes :: "timer_context \<Rightarrow> remote_timer list" where
  "shown_remotes c = filter (\<lambda>r. \<not> unused_slot r) (tc_remote c)"

definition status_doc :: "int \<Rightarrow> int \<Rightarrow> timer_context \<Rightarrow> string list \<Rightarrow> json_doc" where
  "status_doc now_ms now_epoch c labels = JObj
     [(''timers'', JArr (map (local_doc now_ms now_epoch)
         (zip (used_timers c) labels))),
      (''ringing'', JInt (int (le_timer_ringing_count (td_timers c)))),
      (''missed'', JInt (int (unat (ts_missed (td_timers c))))),
      (''remote_timers'', JArr (map remote_doc (shown_remotes c))),
      (''remote_ringing'', JInt (int (remote_ringing_count c)))]"

lemma words_plain:
  "escaped ''id'' = ''id''" "escaped ''kind'' = ''kind''" "escaped ''state'' = ''state''" "escaped ''label'' = ''label''"
  "escaped ''seconds_remaining'' = ''seconds_remaining''" "escaped ''ringing'' = ''ringing''" "escaped ''pending'' = ''pending''"
  "escaped ''external_id'' = ''external_id''" "escaped ''name'' = ''name''" "escaped ''remote'' = ''remote''"
  "escaped ''total_seconds'' = ''total_seconds''" "escaped ''seconds_left'' = ''seconds_left''"
  "escaped ''is_active'' = ''is_active''" "escaped ''paused'' = ''paused''" "escaped ''timers'' = ''timers''"
  "escaped ''missed'' = ''missed''" "escaped ''remote_timers'' = ''remote_timers''" "escaped ''remote_ringing'' = ''remote_ringing''"
  "escaped ''alarm'' = ''alarm''" "escaped ''countdown'' = ''countdown''"
  by (rule escaped_plain, code_simp)+

lemma whole_digits: "int_digits (int n) = nat_digits n" "int_digits (uint (w :: 'a :: len word)) = nat_digits (unat w)"
  by (simp_all add: int_digits_def)

lemma local_entry_render:
  "json_escape (LE_TIMER_LABEL_MAX * 2) (tm_label t) = escaped l \<Longrightarrow>
   local_entry now_ms now_epoch t = render (local_doc now_ms now_epoch (t, l))"
  by (cases "tm_kind t") (simp_all add: local_entry_def local_doc_def quoted_def words_plain whole_digits kind_name_def del: escaped_simps)

lemma remote_entry_render: "remote_slot_ok r \<Longrightarrow> \<not> unused_slot r \<Longrightarrow> remote_entry r = render (remote_doc r)"
proof -
  assume ok: "remote_slot_ok r" "\<not> unused_slot r"
  then have "length (rt_external_id r) < 64" "length (rt_name r) < 49"
    by (simp_all add: remote_slot_ok_def event_value_def REMOTE_TIMER_ID_MAX_def REMOTE_TIMER_NAME_MAX_def)
  then have "json_escape (REMOTE_TIMER_ID_MAX * 6) (rt_external_id r) = escaped (rt_external_id r)"
    "json_escape (REMOTE_TIMER_NAME_MAX * 6) (rt_name r) = escaped (rt_name r)"
    using escaped_length [of "rt_external_id r"] escaped_length [of "rt_name r"]
    by (simp_all add: json_escape_fits REMOTE_TIMER_ID_MAX_def REMOTE_TIMER_NAME_MAX_def)
  then show ?thesis
    by (cases "rt_is_active r") (simp_all add: remote_entry_def remote_doc_def quoted_def words_plain whole_digits del: escaped_simps)
qed

lemma append_text_Some: "append_text z a buf = Some b \<Longrightarrow> b = buf @ a"
  by (simp add: append_text_def split: if_splits)

lemma write_entries_rest: "write_entries z False es buf = Some b \<Longrightarrow> b = buf @ concat (map (\<lambda>e. CHR '','' # e) es)"
proof (induction es arbitrary: buf)
  case (Cons e es)
  then obtain a where a: "append_text z (CHR '','' # e) buf = Some a" "write_entries z False es a = Some b"
    by (auto simp: bind_eq_Some_conv)
  show ?case using Cons.IH [OF a(2)] append_text_Some [OF a(1)] by simp
qed simp

lemma join_concat: "join (e # es) = e @ concat (map (\<lambda>e. CHR '','' # e) es)"
  by (induction es arbitrary: e) simp_all

lemma write_entries_join: "write_entries z True es buf = Some b \<Longrightarrow> b = buf @ join es"
  by (cases es) (auto simp: bind_eq_Some_conv join_concat simp del: join.simps(2,3) dest!: append_text_Some write_entries_rest)

lemma labels_shown:
  "\<exists>labels. length labels = length ts \<and>
     (\<forall>i<length ts. prefix (labels ! i) (tm_label (ts ! i)) \<and>
        (length (escaped (tm_label (ts ! i))) < LE_TIMER_LABEL_MAX * 2 \<longrightarrow> labels ! i = tm_label (ts ! i)) \<and>
        local_entry now_ms now_epoch (ts ! i) = render (local_doc now_ms now_epoch (ts ! i, labels ! i)))"
proof -
  define cut where "cut t = (SOME n. json_escape (LE_TIMER_LABEL_MAX * 2) (tm_label t) = escaped (take n (tm_label t)) \<and>
      (length (escaped (tm_label t)) < LE_TIMER_LABEL_MAX * 2 \<longrightarrow> take n (tm_label t) = tm_label t))" for t :: le_timer
  have cut: "json_escape (LE_TIMER_LABEL_MAX * 2) (tm_label t) = escaped (take (cut t) (tm_label t)) \<and>
      (length (escaped (tm_label t)) < LE_TIMER_LABEL_MAX * 2 \<longrightarrow> take (cut t) (tm_label t) = tm_label t)" for t :: le_timer
  proof (cases "length (escaped (tm_label t)) < LE_TIMER_LABEL_MAX * 2")
    case True
    have "\<exists>n. json_escape (LE_TIMER_LABEL_MAX * 2) (tm_label t) = escaped (take n (tm_label t)) \<and>
      (length (escaped (tm_label t)) < LE_TIMER_LABEL_MAX * 2 \<longrightarrow> take n (tm_label t) = tm_label t)"
      using json_escape_fits [OF True] by (intro exI [of _ "length (tm_label t)"]) simp
    then show ?thesis unfolding cut_def by (rule someI_ex)
  next
    case False
    have "\<exists>n. json_escape (LE_TIMER_LABEL_MAX * 2) (tm_label t) = escaped (take n (tm_label t)) \<and>
      (length (escaped (tm_label t)) < LE_TIMER_LABEL_MAX * 2 \<longrightarrow> take n (tm_label t) = tm_label t)"
      using escape_loop_prefix [of "LE_TIMER_LABEL_MAX * 2" "[]" "tm_label t"] False by (auto simp: json_escape_def)
    then show ?thesis unfolding cut_def by (rule someI_ex)
  qed
  then show ?thesis
    by (intro exI [of _ "map (\<lambda>t. take (cut t) (tm_label t)) ts"]) (auto simp: take_is_prefix local_entry_render)
qed

text \<open>
  The status tells all.  The status document, whenever there is room for it, is the text of one valid JSON
  object that lists every timer in use, each with its remaining seconds, and every remote timer, in the order of the
  tables, with the numbers of those that ring; a label may be shown in part only when its escaped text needs 96 bytes
  or more.\<close>

theorem timerd_status_document:
  assumes "timers_json now_ms now_epoch z c = Some d" and "remote_ok c"
  shows "\<exists>labels. length labels = length (used_timers c) \<and>
    (\<forall>i<length labels. prefix (labels ! i) (tm_label (used_timers c ! i)) \<and>
       (length (escaped (tm_label (used_timers c ! i))) < LE_TIMER_LABEL_MAX * 2 \<longrightarrow>
          labels ! i = tm_label (used_timers c ! i))) \<and>
    d = render (status_doc now_ms now_epoch c labels) \<and> json_valid_object d"
proof -
  obtain labels where l: "length labels = length (used_timers c)"
    "\<And>i. i < length labels \<Longrightarrow> prefix (labels ! i) (tm_label (used_timers c ! i)) \<and>
       (length (escaped (tm_label (used_timers c ! i))) < LE_TIMER_LABEL_MAX * 2 \<longrightarrow>
          labels ! i = tm_label (used_timers c ! i)) \<and>
       local_entry now_ms now_epoch (used_timers c ! i) = render (local_doc now_ms now_epoch (used_timers c ! i, labels ! i))"
    using labels_shown [of "used_timers c" now_ms now_epoch] by metis
  have here: "map (local_entry now_ms now_epoch) (used_timers c) =
      map render (map (local_doc now_ms now_epoch) (zip (used_timers c) labels))"
    by (rule nth_equalityI) (use l in simp_all)
  have "remote_slot_ok r" if "r \<in> set (tc_remote c)" for r
    using assms(2) that by (simp add: remote_ok_def)
  then have far: "map remote_entry (shown_remotes c) = map render (map remote_doc (shown_remotes c))"
    by (simp add: shown_remotes_def remote_entry_render)
  have d: "d = render (status_doc now_ms now_epoch c labels)"
    using assms(1) unfolding timers_json_def used_timers_def [symmetric] shown_remotes_def [symmetric] here far
    by (auto simp: bind_eq_Some_conv status_doc_def quoted_def words_plain whole_digits simp del: escaped_simps map_map
        dest!: append_text_Some write_entries_join)
  have "nesting (status_doc now_ms now_epoch c labels) \<le> 64"
  proof -
    have "nesting v \<le> 1" if "v \<in> set (map (local_doc now_ms now_epoch) (zip (used_timers c) labels))" for v
      using that by (auto simp: local_doc_def)
    moreover have "nesting v \<le> 1" if "v \<in> set (map remote_doc (shown_remotes c))" for v
      using that by (auto simp: remote_doc_def)
    ultimately have "nesting (JArr (map (local_doc now_ms now_epoch) (zip (used_timers c) labels))) \<le> Suc 1"
      "nesting (JArr (map remote_doc (shown_remotes c))) \<le> Suc 1"
      by (simp_all only: nesting_JArr) auto
    then show ?thesis
      unfolding status_doc_def using nesting_JObj [of _ 63] by (auto simp del: nesting.simps(1,2) simp: nesting.simps(3))
  qed
  then have "json_valid_object d" using d written_valid by (simp add: status_doc_def del: nesting.simps render.simps)
  then show ?thesis using l d by blast
qed

lemma due_context_status:
  "timers_json 0 0 200 due_context = Some (''{\"timers\":[{\"id\":1,\"kind\":\"countdown\",\"state\":\"pending\",'' @
     ''\"seconds_remaining\":1,\"label\":\"\"}],\"ringing\":0,\"missed\":0,\"remote_timers\":[],\"remote_ringing\":0}'')"
  by code_simp

lemma timerd_status_document_witness:
  "json_valid_object (''{\"timers\":[{\"id\":1,\"kind\":\"countdown\",\"state\":\"pending\",'' @
     ''\"seconds_remaining\":1,\"label\":\"\"}],\"ringing\":0,\"missed\":0,\"remote_timers\":[],\"remote_ringing\":0}'')"
proof -
  have "remote_ok due_context"
    using empty_context_ok(1) remote_ok_table [of due_context empty_context] by (simp add: due_context_def)
  from timerd_status_document [OF due_context_status this] show ?thesis by blast
qed

end
