(* ===== verification/Recovery_Files.thy ===== *)
theory Recovery_Files
  imports C_Text
begin

text \<open>
  The files of the recovery access point (adapter/network_recovery.c): the boot marker, the
  provisioning secret, the owner's configuration and the replacement of a file with its backup.

  A file system gives a path its node; a path names the node itself, and no link is followed.
  Which system calls fail, how much of a text is written before writing stops, what the random device
  gives and who the process is are the arguments in \<open>system\<close>.  A replacement returns, beside its
  result, the file system after each of its calls, in order: where the daemon may be killed.
\<close>

unbundle bit_operations_syntax

section \<open>The file system\<close>

datatype node_kind = Regular string | Directory | Symlink | Special

record node =
  nd_kind :: node_kind
  nd_mode :: u32
  nd_uid :: nat

definition regular :: "node \<Rightarrow> bool" where
  "regular n \<longleftrightarrow> (case nd_kind n of Regular _ \<Rightarrow> True | _ \<Rightarrow> False)"

type_synonym files = "string \<Rightarrow> node option"

datatype disk_call = Open_File string | Stat_File string | Read_File string | Lstat string | Statfs string
  | Make_Dir string | Open_New string | Write_New string | Sync_File string | Close_File string
  | Rename string string | Unlink string | Open_Dir string | Sync_Dir string | Close_Dir string

datatype random_read = Random_Bytes bytes | Interrupted | Random_Failed

record system =
  sy_fails :: "disk_call \<Rightarrow> bool"
  sy_tmpfs :: "string \<Rightarrow> bool"
  sy_sync_unsupported :: bool
  sy_written :: nat
  sy_random :: "random_read list option"
  sy_uid :: nat
  sy_pid :: nat

definition PATH_MAX :: nat where "PATH_MAX = 4096"

definition copy_string :: "nat \<Rightarrow> string \<Rightarrow> string" where
  "copy_string n s = take (n - 1) s"

text \<open>What a C program sees of the bytes it read into a buffer.\<close>

definition as_text :: "string \<Rightarrow> string" where
  "as_text s = takeWhile (\<lambda>c. ord c \<noteq> 0) s"

text \<open>The part of a path before its last slash, unless that is at the start or there is none.\<close>

definition parent_of :: "string \<Rightarrow> string option" where
  "parent_of path =
     (let rest = dropWhile (\<lambda>c. c \<noteq> CHR ''/'') (rev path)
      in if rest = [] \<or> tl rest = [] then None else Some (rev (tl rest)))"

definition is_dir :: "string \<Rightarrow> files \<Rightarrow> bool" where
  "is_dir p f \<longleftrightarrow> (case f p of Some n \<Rightarrow> nd_kind n = Directory | None \<Rightarrow> False)"

definition parent_ready :: "string \<Rightarrow> files \<Rightarrow> bool" where
  "parent_ready p f \<longleftrightarrow> (case parent_of p of None \<Rightarrow> True | Some q \<Rightarrow> is_dir q f)"

text \<open>Opening for reading without following a link: the failure, or the node.\<close>

datatype open_failure = No_Entry | Is_Link | Other_Failure

definition open_node :: "system \<Rightarrow> string \<Rightarrow> files \<Rightarrow> open_failure + node" where
  "open_node sy p f =
     (case f p of
        None \<Rightarrow> Inl (if sy_fails sy (Open_File p) then Other_Failure else No_Entry)
      | Some n \<Rightarrow>
          if sy_fails sy (Open_File p) then Inl Other_Failure
          else if nd_kind n = Symlink then Inl Is_Link else Inr n)"

text \<open>Reading at most \<open>n\<close> bytes: \<open>None\<close> when nothing came.\<close>

definition read_node :: "system \<Rightarrow> nat \<Rightarrow> string \<Rightarrow> node \<Rightarrow> string option" where
  "read_node sy n p nd =
     (case nd_kind nd of
        Regular text \<Rightarrow> if sy_fails sy (Read_File p) \<or> take n text = [] then None else Some (take n text)
      | _ \<Rightarrow> None)"

datatype made = Made | Existed | Not_Made

definition make_dir :: "system \<Rightarrow> string \<Rightarrow> files \<Rightarrow> made \<times> files" where
  "make_dir sy p f =
     (if f p \<noteq> None then (Existed, f)
      else if sy_fails sy (Make_Dir p) \<or> \<not> parent_ready p f then (Not_Made, f)
      else (Made, f(p \<mapsto> \<lparr>nd_kind = Directory, nd_mode = 0x1C0, nd_uid = sy_uid sy\<rparr>)))"

definition unlink_node :: "system \<Rightarrow> string \<Rightarrow> files \<Rightarrow> bool \<times> files" where
  "unlink_node sy p f =
     (if sy_fails sy (Unlink p) \<or> f p = None \<or> is_dir p f then (False, f) else (True, f(p := None)))"

definition rename_node :: "system \<Rightarrow> string \<Rightarrow> string \<Rightarrow> files \<Rightarrow> bool \<times> files" where
  "rename_node sy a b f =
     (if sy_fails sy (Rename a b) \<or> f a = None \<or> is_dir b f then (False, f)
      else (True, (f(a := None))(b := f a)))"

text \<open>A new file of mode 0600 that must not exist.\<close>

definition new_node :: "system \<Rightarrow> string \<Rightarrow> node" where
  "new_node sy text = \<lparr>nd_kind = Regular text, nd_mode = 0x180, nd_uid = sy_uid sy\<rparr>"

definition may_create :: "system \<Rightarrow> string \<Rightarrow> files \<Rightarrow> bool" where
  "may_create sy p f \<longleftrightarrow> \<not> sy_fails sy (Open_New p) \<and> f p = None \<and> parent_ready p f"

section \<open>The boot marker\<close>

record recovery_config =
  rf_marker_path :: string
  rf_psk_path :: string
  rf_config_path :: string
  rf_run_dir :: string
  rf_interface :: string
  rf_serial_path :: string
  rf_hostapd_bin :: string
  rf_dhcp_bin :: string
  rf_dns_bin :: string
  rf_dhcp_conf :: string
  rf_hostapd_conf :: string
  rf_ap_probe_cmd :: string
  rf_ready_probe_cmd :: string
  rf_net_up_cmd :: string
  rf_net_down_cmd :: string
  rf_ap_address :: string
  rf_led_socket :: string
  rf_auto_timeout_ms :: int
  rf_start_timeout_ms :: int
  rf_stop_timeout_ms :: int
  rf_enabled :: int
  rf_auto_enabled :: int
  rf_rate_window_ms :: int
  rf_rate_max :: int
  rf_require_tmpfs :: bool
  rf_require_root_owner :: bool
  rf_require_root_peer :: bool

definition LE_RECOVERY_MARKER_MAX :: nat where "LE_RECOVERY_MARKER_MAX = 256"
definition LE_RECOVERY_MARKER_TAG :: string where "LE_RECOVERY_MARKER_TAG = ''libreecho-recovery-v1''"

text \<open>The refusal, or the content.\<close>

definition read_marker_content :: "system \<Rightarrow> string \<Rightarrow> files \<Rightarrow> string + string" where
  "read_marker_content sy path f =
     (case open_node sy path f of
        Inl No_Entry \<Rightarrow> Inl ''no-marker''
      | Inl Is_Link \<Rightarrow> Inl ''marker-symlink''
      | Inl Other_Failure \<Rightarrow> Inl ''marker-open-failed''
      | Inr n \<Rightarrow>
          (case read_node sy (LE_RECOVERY_MARKER_MAX - 1) path n of
             None \<Rightarrow> Inl ''marker-empty''
           | Some text \<Rightarrow>
               if strip_prefix LE_RECOVERY_MARKER_TAG text = None then Inl ''marker-content''
               else Inr (as_text text)))"

text \<open>The result of the code and its reason.\<close>

definition le_recovery_marker_check :: "system \<Rightarrow> recovery_config \<Rightarrow> files \<Rightarrow> int \<times> string" where
  "le_recovery_marker_check sy cfg f =
     (let path = rf_marker_path cfg in
      if path = [] then (0, ''no-marker-path'')
      else case open_node sy path f of
        Inl No_Entry \<Rightarrow> (0, ''no-marker'')
      | Inl Is_Link \<Rightarrow> (- 1, ''marker-symlink'')
      | Inl Other_Failure \<Rightarrow> (- 1, ''marker-open-failed'')
      | Inr n \<Rightarrow>
          if sy_fails sy (Stat_File path) then (- 1, ''marker-stat-failed'')
          else if \<not> regular n then (- 1, ''marker-not-regular'')
          else if nd_mode n AND 0x12 \<noteq> 0 then (- 1, ''marker-world-accessible'')
          else if rf_require_root_owner cfg \<and> nd_uid n \<noteq> 0 then (- 1, ''marker-not-root-owned'')
          else if rf_require_tmpfs cfg \<and> sy_fails sy (Statfs path) then (- 1, ''marker-statfs-failed'')
          else if rf_require_tmpfs cfg \<and> \<not> sy_tmpfs sy path then (- 1, ''marker-not-tmpfs'')
          else case read_marker_content sy path f of
            Inl reason \<Rightarrow> (- 1, reason)
          | Inr content \<Rightarrow> (1, ''physical-hold''))"

section \<open>Directories\<close>

definition ensure_parent_dir :: "system \<Rightarrow> string \<Rightarrow> files \<Rightarrow> bool \<times> files" where
  "ensure_parent_dir sy path f =
     (if PATH_MAX \<le> length path then (False, f)
      else case parent_of path of
        None \<Rightarrow> (True, f)
      | Some p \<Rightarrow> (case make_dir sy p f of (m, f1) \<Rightarrow> (m \<noteq> Not_Made, f1)))"

text \<open>The components above a directory: what stands before each later slash.\<close>

definition components :: "string \<Rightarrow> string list" where
  "components p = map (\<lambda>i. take i p) (filter (\<lambda>i. p ! i = CHR ''/'') [1..<length p])"

fun guard_components :: "system \<Rightarrow> string list \<Rightarrow> files \<Rightarrow> string option \<times> files" where
  "guard_components sy [] f = (None, f)"
| "guard_components sy (p # ps) f =
     (if sy_fails sy (Lstat p) then (Some ''config-dir-failed'', f)
      else case f p of
        None \<Rightarrow>
          (case make_dir sy p f of
             (m, f1) \<Rightarrow> if m = Not_Made then (Some ''config-dir-failed'', f1) else guard_components sy ps f1)
      | Some n \<Rightarrow> if nd_kind n = Symlink then (Some ''config-dir-symlink'', f) else guard_components sy ps f)"

text \<open>The refusal, if any, and the file system.\<close>

definition ensure_secure_parent_dir :: "system \<Rightarrow> recovery_config \<Rightarrow> string \<Rightarrow> files \<Rightarrow> string option \<times> files" where
  "ensure_secure_parent_dir sy cfg path f =
     (if path = [] \<or> PATH_MAX \<le> length path then (Some ''psk-path-too-long'', f)
      else case parent_of path of
        None \<Rightarrow> (None, f)
      | Some parent \<Rightarrow>
          (case guard_components sy (components parent) f of
             (Some reason, f1) \<Rightarrow> (Some reason, f1)
           | (None, f1) \<Rightarrow>
               if sy_fails sy (Lstat parent) then (Some ''config-dir-failed'', f1)
               else
                 let (m, f2) = (if f1 parent = None then make_dir sy parent f1 else (Existed, f1)) in
                 case f2 parent of
                   None \<Rightarrow> (Some ''config-dir-failed'', f2)
                 | Some n \<Rightarrow>
                     (if nd_kind n = Symlink then Some ''config-dir-symlink''
                      else if nd_kind n \<noteq> Directory then Some ''config-dir-not-dir''
                      else if rf_require_root_owner cfg \<and> nd_uid n \<noteq> 0 then Some ''config-dir-owner''
                      else if nd_mode n AND 0x3F \<noteq> 0 then Some ''config-dir-permissions''
                      else None, f2)))"

definition fsync_parent_dir :: "system \<Rightarrow> string \<Rightarrow> files \<Rightarrow> bool" where
  "fsync_parent_dir sy path f =
     (if PATH_MAX \<le> length path then True
      else case parent_of path of
        None \<Rightarrow> True
      | Some p \<Rightarrow>
          if sy_fails sy (Open_Dir p) \<or> \<not> is_dir p f then False
          else if sy_fails sy (Sync_Dir p) then sy_sync_unsupported sy
          else \<not> sy_fails sy (Close_Dir p))"

section \<open>Replacing a file\<close>

definition temporary_of :: "system \<Rightarrow> string \<Rightarrow> string" where
  "temporary_of sy path = path @ ''.tmp.'' @ nat_digits (sy_pid sy)"

definition backup_of :: "string \<Rightarrow> string" where
  "backup_of path = path @ ''.bak''"

text \<open>The new text beside the old one: the refusal, if any, and the file systems passed.\<close>

definition locked_temporary :: "system \<Rightarrow> string \<Rightarrow> string \<Rightarrow> files \<Rightarrow> string option \<times> files list" where
  "locked_temporary sy path data f =
     (let temporary = temporary_of sy path;
          f1 = snd (unlink_node sy temporary f);
          f2 = f1(temporary \<mapsto> new_node sy []);
          f3 = f1(temporary \<mapsto> new_node sy (if sy_fails sy (Write_New temporary) then take (sy_written sy) data else data));
          stop = (\<lambda>reason. (Some reason, [f1, f2, f3, snd (unlink_node sy temporary f3)]))
      in if \<not> may_create sy temporary f1 then (Some ''config-open-failed'', [f1])
         else if sy_fails sy (Write_New temporary) then stop ''config-write-failed''
         else if sy_fails sy (Sync_File temporary) then stop ''config-fsync-failed''
         else if sy_fails sy (Close_File temporary) then stop ''config-close-failed''
         else (None, [f1, f2, f3]))"

text \<open>The old file as the backup: the refusal, if any, whether there is a backup now, and the file systems passed.\<close>

definition locked_backup :: "system \<Rightarrow> string \<Rightarrow> files \<Rightarrow> string option \<times> bool \<times> files list" where
  "locked_backup sy path f =
     (let stop = (\<lambda>reason. (Some reason, False, [snd (unlink_node sy (temporary_of sy path) f)]))
      in if sy_fails sy (Lstat path) then stop ''config-stat-failed''
         else case f path of
           None \<Rightarrow> (None, False, [])
         | Some n \<Rightarrow>
             if \<not> regular n then stop ''config-not-regular''
             else (case rename_node sy path (backup_of path) f of
                     (False, _) \<Rightarrow> stop ''config-backup-failed''
                   | (True, f1) \<Rightarrow> (None, True, [f1])))"

definition locked_commit :: "system \<Rightarrow> string \<Rightarrow> bool \<Rightarrow> files \<Rightarrow> string option \<times> files list" where
  "locked_commit sy path backed_up f =
     (case rename_node sy (temporary_of sy path) path f of
        (False, _) \<Rightarrow>
          let (restored, f1) = (if backed_up then rename_node sy (backup_of path) path f else (False, f))
          in (Some (if backed_up \<and> \<not> restored then ''config-rollback-failed'' else ''config-rename-failed''),
              [f1, snd (unlink_node sy (temporary_of sy path) f1)])
      | (True, f1) \<Rightarrow>
          if fsync_parent_dir sy path f1 then (None, [f1])
          else
            let (undone, f2) = (if backed_up then rename_node sy (backup_of path) path f1 else unlink_node sy path f1)
            in (Some (if undone then ''config-parent-fsync-failed'' else ''config-rollback-failed''), [f1, f2]))"

definition write_locked_file :: "system \<Rightarrow> string \<Rightarrow> string \<Rightarrow> bool \<Rightarrow> files \<Rightarrow> string option \<times> files list" where
  "write_locked_file sy path data keep_backup f =
     (if path = [] then (Some ''missing-config-path'', [])
      else case ensure_parent_dir sy path f of
        (False, f0) \<Rightarrow> (Some ''config-dir-unavailable'', [f0])
      | (True, f0) \<Rightarrow>
          if PATH_MAX \<le> length (temporary_of sy path) \<or> (keep_backup \<and> PATH_MAX \<le> length (backup_of path))
          then (Some ''config-path-too-long'', [f0])
          else case locked_temporary sy path data f0 of
            (Some reason, ds) \<Rightarrow> (Some reason, f0 # ds)
          | (None, ds) \<Rightarrow>
              (case (if keep_backup then locked_backup sy path (last ds) else (None, False, [])) of
                 (Some reason, _, es) \<Rightarrow> (Some reason, f0 # ds @ es)
               | (None, backed_up, es) \<Rightarrow>
                   (case locked_commit sy path backed_up (last (ds @ es)) of
                      (reason, gs) \<Rightarrow> (reason, f0 # ds @ es @ gs))))"

section \<open>The secret\<close>

definition LE_RECOVERY_PSK_MAX :: nat where "LE_RECOVERY_PSK_MAX = 128"

fun recovery_random :: "nat \<Rightarrow> bytes \<Rightarrow> random_read list \<Rightarrow> bytes option" where
  "recovery_random n got answers =
     (if n \<le> length got then Some got
      else case answers of
        Random_Bytes bs # rest \<Rightarrow> if bs = [] then None else recovery_random n (got @ take (n - length got) bs) rest
      | Interrupted # rest \<Rightarrow> recovery_random n got rest
      | _ \<Rightarrow> None)"

definition psk_alphabet :: string where
  "psk_alphabet = ''ABCDEFGHJKLMNPQRSTUVWXYZabcdefghijkmnopqrstuvwxyz23456789''"

definition generate_psk :: "system \<Rightarrow> string option" where
  "generate_psk sy =
     map_option (map (\<lambda>b. psk_alphabet ! (unat b mod length psk_alphabet)))
       (Option.bind (sy_random sy) (recovery_random 32 []))"

text \<open>Reading the secret or making it: the refusal or the secret, and the file system.\<close>

definition psk_store :: "system \<Rightarrow> string \<Rightarrow> string \<Rightarrow> files \<Rightarrow> string option \<times> files" where
  "psk_store sy path psk f =
     (let temporary = temporary_of sy path;
          f1 = snd (unlink_node sy temporary f);
          f2 = f1(temporary \<mapsto> new_node sy (if sy_fails sy (Write_New temporary) then take (sy_written sy) psk else psk))
      in if PATH_MAX \<le> length temporary then (Some ''psk-path-too-long'', f)
         else if \<not> may_create sy temporary f1 then (Some ''psk-write-failed'', f1)
         else if sy_fails sy (Write_New temporary) \<or> sy_fails sy (Sync_File temporary) \<or> sy_fails sy (Close_File temporary)
           then (Some ''psk-write-failed'', snd (unlink_node sy temporary f2))
         else case rename_node sy temporary path f2 of
           (False, f3) \<Rightarrow> (Some ''psk-rename-failed'', snd (unlink_node sy temporary f3))
         | (True, f3) \<Rightarrow>
             if fsync_parent_dir sy path f3 then (None, f3)
             else (Some ''psk-parent-fsync-failed'', snd (unlink_node sy path f3)))"

definition le_recovery_psk_ensure :: "system \<Rightarrow> recovery_config \<Rightarrow> files \<Rightarrow> (string + string) \<times> files" where
  "le_recovery_psk_ensure sy cfg f =
     (let path = rf_psk_path cfg in
      if path = [] then (Inl ''psk-path-missing'', f)
      else case open_node sy path f of
        Inr n \<Rightarrow>
          (if sy_fails sy (Stat_File path) \<or> \<not> regular n then Inl ''psk-not-regular''
           else if nd_mode n AND 0x3F \<noteq> 0 then Inl ''psk-permissions''
           else case read_node sy (LE_RECOVERY_PSK_MAX - 1) path n of
             None \<Rightarrow> Inl ''psk-unreadable''
           | Some text \<Rightarrow> Inr (as_text text), f)
      | Inl Is_Link \<Rightarrow> (Inl ''psk-symlink'', f)
      | Inl Other_Failure \<Rightarrow> (Inl ''psk-open-failed'', f)
      | Inl No_Entry \<Rightarrow>
          (case generate_psk sy of
             None \<Rightarrow> (Inl ''psk-generation-failed'', f)
           | Some psk \<Rightarrow>
               (case ensure_secure_parent_dir sy cfg path f of
                  (Some reason, f1) \<Rightarrow> (Inl reason, f1)
                | (None, f1) \<Rightarrow>
                    (case psk_store sy path psk f1 of
                       (Some reason, f2) \<Rightarrow> (Inl reason, f2)
                     | (None, f2) \<Rightarrow> (Inr psk, f2)))))"

section \<open>The owner's configuration\<close>

definition LE_RECOVERY_TIMEOUT_MIN_MS :: int where "LE_RECOVERY_TIMEOUT_MIN_MS = 30000"
definition LE_RECOVERY_TIMEOUT_MAX_MS :: int where "LE_RECOVERY_TIMEOUT_MAX_MS = 600000"
definition LE_RECOVERY_TIMEOUT_DEFAULT_MS :: int where "LE_RECOVERY_TIMEOUT_DEFAULT_MS = 120000"
definition LE_RECOVERY_START_DEFAULT_MS :: int where "LE_RECOVERY_START_DEFAULT_MS = 8000"
definition LE_RECOVERY_STOP_DEFAULT_MS :: int where "LE_RECOVERY_STOP_DEFAULT_MS = 5000"
definition LE_RECOVERY_RATE_WINDOW_DEFAULT_MS :: int where "LE_RECOVERY_RATE_WINDOW_DEFAULT_MS = 60000"
definition LE_RECOVERY_RATE_MAX_DEFAULT :: int where "LE_RECOVERY_RATE_MAX_DEFAULT = 5"

definition le_recovery_config_default :: "string \<Rightarrow> recovery_config" where
  "le_recovery_config_default interface =
     \<lparr>rf_marker_path = ''/run/libreecho/recovery-mode'', rf_psk_path = ''/data/libreecho/config/recovery-psk'',
      rf_config_path = ''/data/libreecho/config/recovery.json'', rf_run_dir = ''/run/libreecho'',
      rf_interface = copy_string 64 (if interface \<noteq> [] then interface else ''wlan0''), rf_serial_path = ''/proc/idme/serial'',
      rf_hostapd_bin = ''/usr/local/sbin/hostapd'', rf_dhcp_bin = ''/usr/local/sbin/dnsmasq'', rf_dns_bin = [],
      rf_dhcp_conf = ''/run/libreecho/recovery-dnsmasq.conf'', rf_hostapd_conf = ''/run/libreecho/hostapd.conf'',
      rf_ap_probe_cmd = [], rf_ready_probe_cmd = [], rf_net_up_cmd = ''/usr/local/sbin/libreecho-recovery-net-up'',
      rf_net_down_cmd = ''/usr/local/sbin/libreecho-recovery-net-down'', rf_ap_address = ''192.168.4.1'',
      rf_led_socket = ''/run/libreecho/led.sock'', rf_auto_timeout_ms = LE_RECOVERY_TIMEOUT_DEFAULT_MS,
      rf_start_timeout_ms = LE_RECOVERY_START_DEFAULT_MS, rf_stop_timeout_ms = LE_RECOVERY_STOP_DEFAULT_MS,
      rf_enabled = 1, rf_auto_enabled = 0, rf_rate_window_ms = LE_RECOVERY_RATE_WINDOW_DEFAULT_MS,
      rf_rate_max = LE_RECOVERY_RATE_MAX_DEFAULT, rf_require_tmpfs = True, rf_require_root_owner = True,
      rf_require_root_peer = True\<rparr>"

definition le_recovery_config_bound :: "recovery_config \<Rightarrow> recovery_config" where
  "le_recovery_config_bound cfg =
     cfg\<lparr>rf_auto_timeout_ms :=
           (if rf_auto_timeout_ms cfg < LE_RECOVERY_TIMEOUT_MIN_MS \<or> LE_RECOVERY_TIMEOUT_MAX_MS < rf_auto_timeout_ms cfg
            then LE_RECOVERY_TIMEOUT_DEFAULT_MS else rf_auto_timeout_ms cfg),
         rf_start_timeout_ms :=
           (if rf_start_timeout_ms cfg \<le> 0 \<or> 60000 < rf_start_timeout_ms cfg then LE_RECOVERY_START_DEFAULT_MS
            else rf_start_timeout_ms cfg),
         rf_stop_timeout_ms :=
           (if rf_stop_timeout_ms cfg \<le> 0 \<or> 60000 < rf_stop_timeout_ms cfg then LE_RECOVERY_STOP_DEFAULT_MS
            else rf_stop_timeout_ms cfg),
         rf_rate_window_ms :=
           (if rf_rate_window_ms cfg \<le> 0 then LE_RECOVERY_RATE_WINDOW_DEFAULT_MS else rf_rate_window_ms cfg),
         rf_rate_max := (if rf_rate_max cfg \<le> 0 then LE_RECOVERY_RATE_MAX_DEFAULT else rf_rate_max cfg)\<rparr>"

text \<open>The reason of the refusal, if any.\<close>

definition le_recovery_config_validate :: "recovery_config \<Rightarrow> string option" where
  "le_recovery_config_validate cfg =
     (if rf_enabled cfg \<noteq> 0 \<and> rf_enabled cfg \<noteq> 1 then Some ''enabled-invalid''
      else if rf_auto_enabled cfg \<noteq> 0 \<and> rf_auto_enabled cfg \<noteq> 1 then Some ''auto-enabled-invalid''
      else if rf_auto_timeout_ms cfg < LE_RECOVERY_TIMEOUT_MIN_MS \<or> LE_RECOVERY_TIMEOUT_MAX_MS < rf_auto_timeout_ms cfg
      then Some ''auto-timeout-range'' else None)"

definition config_content :: "recovery_config \<Rightarrow> string" where
  "config_content cfg =
     ''enabled='' @ int_digits (rf_enabled cfg) @ newline # ''auto_enabled='' @ int_digits (rf_auto_enabled cfg) @
     newline # ''auto_timeout_ms='' @ int_digits (rf_auto_timeout_ms cfg) @ [newline]"

definition le_recovery_config_persist :: "system \<Rightarrow> recovery_config \<Rightarrow> files \<Rightarrow> string option \<times> files list" where
  "le_recovery_config_persist sy cfg f =
     (if rf_config_path cfg = [] then (Some ''config-path-missing'', [])
      else case le_recovery_config_validate cfg of
        Some reason \<Rightarrow> (Some reason, [])
      | None \<Rightarrow>
          if 256 \<le> length (config_content cfg) then (Some ''config-overflow'', [])
          else case ensure_secure_parent_dir sy cfg (rf_config_path cfg) f of
            (Some reason, f1) \<Rightarrow> (Some reason, [f1])
          | (None, f1) \<Rightarrow>
              (case write_locked_file sy (rf_config_path cfg) (config_content cfg) True f1 of
                 (reason, ds) \<Rightarrow> (reason, f1 # ds)))"

text \<open>The tokens between newlines, as \<^verbatim>\<open>strtok_r\<close> gives them.\<close>

function tokens :: "string \<Rightarrow> string list" where
  "tokens s =
     (let t = dropWhile (\<lambda>c. c = newline) s in
      if t = [] then [] else takeWhile (\<lambda>c. c \<noteq> newline) t # tokens (dropWhile (\<lambda>c. c \<noteq> newline) t))"
  by auto
termination
proof (relation "measure length")
  fix s t :: string
  assume t: "t = dropWhile (\<lambda>c. c = newline) s" "t \<noteq> []"
  then obtain c v where v: "t = c # v" by (meson list.exhaust)
  then have "c \<noteq> newline" using t hd_dropWhile [of "\<lambda>c. c = newline" s] by (metis list.sel(1))
  with v have u: "t = c # v" "c \<noteq> newline" by simp_all
  have "length (dropWhile (\<lambda>c. c \<noteq> newline) t) \<le> length v" using u length_dropWhile_le by simp
  then show "(dropWhile (\<lambda>c. c \<noteq> newline) t, s) \<in> measure length"
    using u t(1) length_dropWhile_le [of "\<lambda>c. c = newline" s] by simp
qed simp

declare tokens.simps [simp del]

text \<open>The three values read so far and which of them were seen.\<close>

record config_values =
  cv_enabled :: int
  cv_auto_enabled :: int
  cv_timeout :: int
  cv_seen :: bool

definition flag_value :: "string \<Rightarrow> int option" where
  "flag_value v = (if v = ''0'' then Some 0 else if v = ''1'' then Some 1 else None)"

definition timeout_value :: "string \<Rightarrow> int option" where
  "timeout_value v =
     (case (case strto_int v of None \<Rightarrow> (0, v) | Some (n, rest) \<Rightarrow> (fst (clamp 64 n), rest)) of
        (n, rest) \<Rightarrow>
          if rest \<noteq> [] \<or> n < LE_RECOVERY_TIMEOUT_MIN_MS \<or> LE_RECOVERY_TIMEOUT_MAX_MS < n then None else Some n)"

definition config_line :: "string \<Rightarrow> config_values \<Rightarrow> string + config_values" where
  "config_line l v =
     (let key = takeWhile (\<lambda>c. c \<noteq> CHR ''='') l; rest = drop (length key) l; malformed = Inl ''config-malformed'';
          value_text = tl rest
      in if rest = [] then malformed
         else if key = ''enabled'' then
           (case flag_value value_text of None \<Rightarrow> malformed | Some n \<Rightarrow> Inr (v\<lparr>cv_enabled := n, cv_seen := True\<rparr>))
         else if key = ''auto_enabled'' then
           (case flag_value value_text of None \<Rightarrow> malformed | Some n \<Rightarrow> Inr (v\<lparr>cv_auto_enabled := n, cv_seen := True\<rparr>))
         else if key = ''auto_timeout_ms'' then
           (case timeout_value value_text of None \<Rightarrow> malformed | Some n \<Rightarrow> Inr (v\<lparr>cv_timeout := n, cv_seen := True\<rparr>))
         else Inl ''config-unknown-key'')"

fun config_lines :: "string list \<Rightarrow> config_values \<Rightarrow> string + config_values" where
  "config_lines [] v = Inr v"
| "config_lines (l # ls) v = (case config_line l v of Inl reason \<Rightarrow> Inl reason | Inr v1 \<Rightarrow> config_lines ls v1)"

text \<open>The result of the code, its reason, and the configuration.\<close>

definition le_recovery_config_load :: "system \<Rightarrow> files \<Rightarrow> recovery_config \<Rightarrow> int \<times> string \<times> recovery_config" where
  "le_recovery_config_load sy f cfg =
     (let path = rf_config_path cfg; refuse = (\<lambda>reason. (- 1, reason, cfg)) in
      if path = [] then refuse ''config-path-missing''
      else case open_node sy path f of
        Inl No_Entry \<Rightarrow> (0, [], cfg)
      | Inl Is_Link \<Rightarrow> refuse ''config-symlink''
      | Inl Other_Failure \<Rightarrow> refuse ''config-open-failed''
      | Inr n \<Rightarrow>
          if sy_fails sy (Stat_File path) \<or> \<not> regular n
          then refuse ''config-not-regular''
          else if nd_mode n AND 0x3F \<noteq> 0 then refuse ''config-permissions''
          else case read_node sy 511 path n of
            None \<Rightarrow> refuse ''config-empty''
          | Some text \<Rightarrow>
              (case config_lines (tokens (as_text text))
                  \<lparr>cv_enabled = rf_enabled cfg, cv_auto_enabled = rf_auto_enabled cfg, cv_timeout = rf_auto_timeout_ms cfg,
                   cv_seen = False\<rparr> of
                 Inl reason \<Rightarrow> refuse reason
               | Inr v \<Rightarrow>
                   if \<not> cv_seen v then refuse ''config-empty''
                   else (1, ''config-loaded'',
                     cfg\<lparr>rf_enabled := cv_enabled v, rf_auto_enabled := cv_auto_enabled v, rf_auto_timeout_ms := cv_timeout v\<rparr>)))"

section \<open>A replacement loses nothing\<close>

lemma new_names [simp]:
  "temporary_of sy path \<noteq> path" "backup_of path \<noteq> path" "temporary_of sy path \<noteq> backup_of path"
  "path \<noteq> temporary_of sy path" "path \<noteq> backup_of path" "backup_of path \<noteq> temporary_of sy path"
  by (simp_all add: temporary_of_def backup_of_def)

lemma parent_shorter: "parent_of p = Some q \<Longrightarrow> length q < length p"
proof -
  assume "parent_of p = Some q"
  then have q: "q = rev (tl (dropWhile (\<lambda>c. c \<noteq> CHR ''/'') (rev p)))" "dropWhile (\<lambda>c. c \<noteq> CHR ''/'') (rev p) \<noteq> []"
    by (auto simp: parent_of_def Let_def split: if_splits)
  then have "length q < length (dropWhile (\<lambda>c. c \<noteq> CHR ''/'') (rev p))" by simp
  also have "\<dots> \<le> length p" using length_dropWhile_le [of "\<lambda>c. c \<noteq> CHR ''/''" "rev p"] by simp
  finally show ?thesis .
qed

lemma ensure_parent_dir_frame: "ensure_parent_dir sy path f = (ok, f0) \<Longrightarrow> length path \<le> length p \<Longrightarrow> f0 p = f p"
  using parent_shorter [of path]
  by (auto simp: ensure_parent_dir_def make_dir_def split: if_splits option.splits)

lemma components_shorter: "q \<in> set (components p) \<Longrightarrow> length q < length p"
  by (auto simp: components_def)

lemma guard_components_frame: "guard_components sy ps f = (r, g) \<Longrightarrow> q \<notin> set ps \<Longrightarrow> g q = f q"
  by (induction sy ps f arbitrary: r g rule: guard_components.induct)
    (auto simp: make_dir_def split: if_splits option.splits)

lemma guard_components_reason: "guard_components sy ps f = (r, g) \<Longrightarrow> r \<noteq> Some ''config-rollback-failed''"
  by (induction sy ps f arbitrary: r g rule: guard_components.induct)
    (auto simp: make_dir_def split: if_splits option.splits)

lemma secure_parent_frame:
  assumes e: "ensure_secure_parent_dir sy cfg path f = (r, f1)" and len: "length path \<le> length q"
  shows "f1 q = f q"
proof (cases "parent_of path")
  case (Some parent)
  obtain r0 g where g: "guard_components sy (components parent) f = (r0, g)" by fastforce
  have "length parent < length q" using parent_shorter [OF Some] len by simp
  moreover from this have "q \<notin> set (components parent)" using components_shorter [of q parent] by auto
  ultimately have "q \<noteq> parent" "g q = f q" using guard_components_frame [OF g] by auto
  then show ?thesis using e Some g
    by (auto simp: ensure_secure_parent_dir_def make_dir_def Let_def split: if_splits option.splits)
qed (use e in \<open>auto simp: ensure_secure_parent_dir_def split: if_splits\<close>)

lemma secure_parent_reason:
  assumes e: "ensure_secure_parent_dir sy cfg path f = (r, f1)"
  shows "r \<noteq> Some ''config-rollback-failed''"
proof (cases "parent_of path")
  case (Some parent)
  obtain r0 g where g: "guard_components sy (components parent) f = (r0, g)" by fastforce
  show ?thesis using e Some g guard_components_reason [OF g]
    by (auto simp: ensure_secure_parent_dir_def Let_def split: if_splits option.splits prod.splits)
qed (use e in \<open>auto simp: ensure_secure_parent_dir_def split: if_splits\<close>)

text \<open>What a step of the replacement leaves alone: everything but the temporary file.\<close>

lemma unlink_other: "unlink_node sy p f = (ok, g) \<Longrightarrow> q \<noteq> p \<Longrightarrow> g q = f q"
  by (auto simp: unlink_node_def split: if_splits)

lemma unlink_snd [simp]: "q \<noteq> p \<Longrightarrow> snd (unlink_node sy p f) q = f q"
  by (simp add: unlink_node_def)

lemma temporary_frame:
  assumes "locked_temporary sy path data f = (r, ds)" and "d \<in> set ds" and "q \<noteq> temporary_of sy path"
  shows "d q = f q"
  using assms by (auto simp: locked_temporary_def Let_def split: if_splits)

lemma temporary_done:
  "locked_temporary sy path data f = (None, ds) \<Longrightarrow>
   ds \<noteq> [] \<and> last ds (temporary_of sy path) = Some (new_node sy data)"
  by (auto simp: locked_temporary_def Let_def split: if_splits)

lemma rename_done:
  "rename_node sy a b f = (True, g) \<Longrightarrow> a \<noteq> b \<Longrightarrow> g a = None \<and> g b = f a \<and> f a \<noteq> None \<and> (\<forall>q. q \<noteq> a \<longrightarrow> q \<noteq> b \<longrightarrow> g q = f q)"
  by (auto simp: rename_node_def split: if_splits)

lemma rename_not: "rename_node sy a b f = (False, g) \<Longrightarrow> g = f"
  by (auto simp: rename_node_def split: if_splits)

text \<open>The contents of a path are kept: they are where they were, or in the backup, or there were none.\<close>

definition kept :: "string \<Rightarrow> node option \<Rightarrow> node option \<Rightarrow> files \<Rightarrow> bool" where
  "kept path old new d \<longleftrightarrow> d path = old \<or> d (backup_of path) = old \<and> (d path = None \<or> d path = new) \<or> old = None \<and> d path = new"

lemma locked_backup_result:
  assumes "locked_backup sy path f = (r, b, es)"
  shows "(r = None \<longrightarrow> (b \<and> (\<exists>d. es = [d] \<and> f path \<noteq> None \<and> d path = None \<and> d (backup_of path) = f path \<and>
            d (temporary_of sy path) = f (temporary_of sy path)) \<or> \<not> b \<and> es = [] \<and> f path = None)) \<and>
    (r \<noteq> None \<longrightarrow> r \<noteq> Some ''config-rollback-failed'' \<and> (\<exists>d. es = [d] \<and> d path = f path))"
proof -
  let ?u = "snd (unlink_node sy (temporary_of sy path) f)"
  show ?thesis
  proof (cases "sy_fails sy (Lstat path)")
    case False
    show ?thesis
    proof (cases "f path")
      case (Some n)
      obtain ok g where g: "rename_node sy path (backup_of path) f = (ok, g)" by fastforce
      show ?thesis
        using assms False Some g rename_done [of sy path "backup_of path" f g]
        by (cases "regular n"; cases ok) (auto simp: locked_backup_def)
    qed (use assms False in \<open>auto simp: locked_backup_def\<close>)
  qed (use assms in \<open>auto simp: locked_backup_def\<close>)
qed

text \<open>How a replacement may end for the old and the new node of the path.\<close>

definition ended :: "string \<Rightarrow> node option \<Rightarrow> node option \<Rightarrow> string option \<Rightarrow> files \<Rightarrow> bool" where
  "ended path old new r d \<longleftrightarrow>
     (case r of
        None \<Rightarrow> d path = new \<and> (old \<noteq> None \<longrightarrow> d (backup_of path) = old)
      | Some reason \<Rightarrow> reason \<noteq> ''config-rollback-failed'' \<longrightarrow> d path = old)"

lemma unlinked: "unlink_node sy p f = (ok, g) \<Longrightarrow> (ok \<longrightarrow> g p = None) \<and> (\<not> ok \<longrightarrow> g = f) \<and> (\<forall>q. q \<noteq> p \<longrightarrow> g q = f q)"
  by (auto simp: unlink_node_def split: if_splits)

lemma locked_commit_result:
  assumes c: "locked_commit sy path b f = (r, gs)" and new: "f (temporary_of sy path) = new" "new \<noteq> None"
    and old: "f path = None" "b = (old \<noteq> None)" "old \<noteq> None \<Longrightarrow> f (backup_of path) = old"
  shows "gs \<noteq> [] \<and> (\<forall>g\<in>set gs. kept path old new g) \<and> ended path old new r (last gs)"
proof -
  let ?t = "temporary_of sy path"
  obtain ok f1 where f1: "rename_node sy ?t path f = (ok, f1)" by fastforce
  show ?thesis
  proof (cases ok)
    case True
    then have p1: "f1 path = new" "f1 (backup_of path) = f (backup_of path)"
      using rename_done [of sy ?t path f f1] f1 new by auto
    have k1: "kept path old new f1" using p1 old by (auto simp: kept_def)
    obtain ok2 f2 where f2: "(if b then rename_node sy (backup_of path) path f1 else unlink_node sy path f1) = (ok2, f2)"
      by fastforce
    show ?thesis
    proof (cases "fsync_parent_dir sy path f1")
      case sync: True
      then have "r = None" "gs = [f1]" using c f1 True by (simp_all add: locked_commit_def)
      then show ?thesis using k1 p1 old by (simp add: ended_def)
    next
      case False
      then have r: "r = Some (if ok2 then ''config-parent-fsync-failed'' else ''config-rollback-failed'')" "gs = [f1, f2]"
        using c f1 f2 True by (simp_all add: locked_commit_def)
      have "ok2 \<Longrightarrow> f2 path = old"
        using f2 old p1 rename_done [of sy "backup_of path" path f1 f2] unlinked [of sy path f1 ok2 f2]
        by (auto split: if_splits)
      moreover have "\<not> ok2 \<Longrightarrow> f2 = f1"
        using f2 rename_not [of sy "backup_of path" path f1 f2] unlinked [of sy path f1 ok2 f2] by (auto split: if_splits)
      ultimately show ?thesis using r k1 by (cases ok2) (auto simp: ended_def kept_def)
    qed
  next
    case False
    obtain ok2 f2 where f2: "(if b then rename_node sy (backup_of path) path f else (False, f)) = (ok2, f2)" by fastforce
    then have r: "r = Some (if b \<and> \<not> ok2 then ''config-rollback-failed'' else ''config-rename-failed'')"
      "gs = [f2, snd (unlink_node sy ?t f2)]"
      using c f1 False by (simp_all add: locked_commit_def)
    have p2: "ok2 \<Longrightarrow> f2 path = old" "\<not> ok2 \<Longrightarrow> f2 = f" "ok2 \<Longrightarrow> b"
      using f2 old rename_done [of sy "backup_of path" path f f2] rename_not [of sy "backup_of path" path f f2]
      by (auto split: if_splits)
    have "kept path old new f2" using p2 old by (cases ok2) (auto simp: kept_def)
    then have "kept path old new f2 \<and> kept path old new (snd (unlink_node sy ?t f2))" by (simp add: kept_def)
    moreover have "ended path old new r (snd (unlink_node sy ?t f2))"
      using r p2 old by (cases ok2; cases b) (auto simp: ended_def)
    ultimately show ?thesis using r by simp
  qed
qed

lemma write_locked_result:
  assumes w: "write_locked_file sy path data True f = (r, ds)"
  shows "(\<forall>d\<in>set ds. kept path (f path) (Some (new_node sy data)) d) \<and>
    ended path (f path) (Some (new_node sy data)) r (last (f # ds))"
proof -
  let ?new = "Some (new_node sy data)" and ?t = "temporary_of sy path"
  have same: "d path = f path \<Longrightarrow> kept path (f path) ?new d" for d by (simp add: kept_def)
  obtain ok f0 where f0: "ensure_parent_dir sy path f = (ok, f0)" by fastforce
  have p0: "f0 path = f path" "f0 (backup_of path) = f (backup_of path)"
    using ensure_parent_dir_frame [OF f0] by (simp_all add: backup_of_def)
  consider (early) reason where "r = Some reason" "reason \<noteq> ''config-rollback-failed''" "ds = [] \<or> ds = [f0]"
    | (go) "path \<noteq> []" "ok" "\<not> (PATH_MAX \<le> length ?t \<or> PATH_MAX \<le> length (backup_of path))"
    using w f0 by (auto simp: write_locked_file_def split: if_splits bool.splits)
  then show ?thesis
  proof cases
    case early
    then show ?thesis using p0 same by (auto simp: ended_def)
  next
    case go
    obtain r1 ts where t: "locked_temporary sy path data f0 = (r1, ts)" by fastforce
    have pt: "d path = f path" "d (backup_of path) = f (backup_of path)" if "d \<in> set ts" for d
      using temporary_frame [OF t that] p0 by auto
    show ?thesis
    proof (cases r1)
      case (Some reason)
      have "reason \<noteq> ''config-rollback-failed''" "ts \<noteq> []"
        using t Some by (auto simp: locked_temporary_def Let_def split: if_splits)
      moreover have "r = Some reason" "ds = f0 # ts" using w f0 go t Some by (simp_all add: write_locked_file_def)
      ultimately show ?thesis using p0 pt same by (auto simp: ended_def)
    next
      case None
      note lt = temporary_done [OF t [unfolded None]]
      obtain r2 b es where e: "locked_backup sy path (last ts) = (r2, b, es)" by (rule prod_cases3)
      have pl: "last ts path = f path" "last ts (backup_of path) = f (backup_of path)" using pt lt by simp_all
      note le = locked_backup_result [OF e]
      show ?thesis
      proof (cases r2)
        case (Some reason)
        then obtain d where d: "es = [d]" "d path = f path" "reason \<noteq> ''config-rollback-failed''" using le pl by auto
        have "r = Some reason" "ds = f0 # ts @ es" using w f0 go t None e Some by (simp_all add: write_locked_file_def)
        then show ?thesis using d p0 pt same by (auto simp: ended_def)
      next
        case None2: None
        obtain r3 gs where g: "locked_commit sy path b (last (ts @ es)) = (r3, gs)" by fastforce
        have r: "r = r3" "ds = f0 # ts @ es @ gs" using w f0 go t None e None2 g by (simp_all add: write_locked_file_def)
        have l: "last (ts @ es) ?t = ?new" "last (ts @ es) path = None" "b = (f path \<noteq> None)"
          "f path \<noteq> None \<Longrightarrow> last (ts @ es) (backup_of path) = f path" "\<forall>d\<in>set es. kept path (f path) ?new d"
          using le None2 lt pl by (auto simp: kept_def)
        note res = locked_commit_result [OF g l(1) _ l(2,3,4)]
        show ?thesis using res l(5) r p0 pt same by auto
      qed
    qed
  qed
qed

section \<open>Reading back\<close>

lemma tokens_Nil [simp]: "tokens [] = []"
  by (subst tokens.simps) simp

lemma tokens_line:
  assumes "newline \<notin> set a" and "a \<noteq> []"
  shows "tokens (a @ newline # rest) = a # tokens rest"
proof -
  have "dropWhile (\<lambda>c. c = newline) (a @ newline # rest) = a @ newline # rest" using assms by (cases a) auto
  moreover have "takeWhile (\<lambda>c. c \<noteq> newline) (a @ newline # rest) = a" "dropWhile (\<lambda>c. c \<noteq> newline) (a @ newline # rest) = newline # rest"
    using assms(1) by (auto simp: takeWhile_append dropWhile_append)
  moreover have "tokens (newline # rest) = tokens rest" by (subst (1 2) tokens.simps) simp
  ultimately show ?thesis using assms(2) by (subst tokens.simps) simp
qed

lemma newline_char: "newline = CHR 0x0A"
  by code_simp

lemma digits_plain: "c \<in> set (int_digits i) \<Longrightarrow> c \<noteq> newline \<and> c \<noteq> CHR ''='' \<and> ord c \<noteq> 0"
proof -
  have "isdigit c \<Longrightarrow> c \<noteq> newline \<and> c \<noteq> CHR ''='' \<and> ord c \<noteq> 0" by (auto simp: isdigit_def newline_char)
  then show "c \<in> set (int_digits i) \<Longrightarrow> ?thesis"
    using nat_digits_digits [of "nat i"] nat_digits_digits [of "nat (- i)"]
    by (auto simp: int_digits_def newline_char split: if_splits)
qed

definition config_valid :: "recovery_config \<Rightarrow> bool" where
  "config_valid cfg \<longleftrightarrow> le_recovery_config_validate cfg = None"

lemma config_valid_iff:
  "config_valid cfg \<longleftrightarrow> rf_enabled cfg \<in> {0, 1} \<and> rf_auto_enabled cfg \<in> {0, 1} \<and>
     30000 \<le> rf_auto_timeout_ms cfg \<and> rf_auto_timeout_ms cfg \<le> 600000"
  by (auto simp: config_valid_def le_recovery_config_validate_def LE_RECOVERY_TIMEOUT_MIN_MS_def LE_RECOVERY_TIMEOUT_MAX_MS_def)

lemma flag_value_digits: "n \<in> {0, 1} \<Longrightarrow> flag_value (int_digits n) = Some n"
proof -
  have "int_digits 0 = ''0''" "int_digits 1 = ''1''" by (code_simp, code_simp)
  then show "n \<in> {0, 1} \<Longrightarrow> ?thesis" by (auto simp: flag_value_def)
qed

lemma timeout_value_digits: "30000 \<le> n \<Longrightarrow> n \<le> 600000 \<Longrightarrow> timeout_value (int_digits n) = Some n"
  using strto_int_digits [of "[]" n]
  by (simp add: timeout_value_def clamp_def LE_RECOVERY_TIMEOUT_MIN_MS_def LE_RECOVERY_TIMEOUT_MAX_MS_def)

lemma config_line_key:
  assumes "CHR ''='' \<notin> set key"
  shows "takeWhile (\<lambda>c. c \<noteq> CHR ''='') (key @ CHR ''='' # v) = key"
    "drop (length key) (key @ CHR ''='' # v) = CHR ''='' # v"
  using assms by (auto simp: takeWhile_append)

lemma config_lines_content:
  assumes "config_valid cfg"
  shows "config_lines (tokens (config_content cfg)) v =
    Inr (v\<lparr>cv_enabled := rf_enabled cfg, cv_auto_enabled := rf_auto_enabled cfg, cv_timeout := rf_auto_timeout_ms cfg, cv_seen := True\<rparr>)"
proof -
  let ?e = "int_digits (rf_enabled cfg)" and ?a = "int_digits (rf_auto_enabled cfg)" and ?t = "int_digits (rf_auto_timeout_ms cfg)"
  have nl: "newline \<notin> set (key @ CHR ''='' # int_digits i)" if "newline \<notin> set key" for key i
    using that digits_plain [of newline i] by (auto simp: newline_char)
  have ne: "key @ CHR ''='' # v \<noteq> []" for key v by simp
  have plain: "newline \<notin> set ''enabled''" "newline \<notin> set ''auto_enabled''" "newline \<notin> set ''auto_timeout_ms''"
    "CHR ''='' \<notin> set ''enabled''" "CHR ''='' \<notin> set ''auto_enabled''" "CHR ''='' \<notin> set ''auto_timeout_ms''"
    by (simp_all add: newline_char)
  have c: "config_content cfg = (''enabled'' @ CHR ''='' # ?e) @ newline # (''auto_enabled'' @ CHR ''='' # ?a) @ newline #
      (''auto_timeout_ms'' @ CHR ''='' # ?t) @ newline # []"
    by (simp add: config_content_def)
  have t: "tokens (config_content cfg) = [''enabled'' @ CHR ''='' # ?e, ''auto_enabled'' @ CHR ''='' # ?a,
      ''auto_timeout_ms'' @ CHR ''='' # ?t]"
    unfolding c tokens_line [OF nl [OF plain(1)] ne] tokens_line [OF nl [OF plain(2)] ne] tokens_line [OF nl [OF plain(3)] ne]
      tokens_Nil ..
  have l: "config_line (''enabled'' @ CHR ''='' # ?e) w = Inr (w\<lparr>cv_enabled := rf_enabled cfg, cv_seen := True\<rparr>)"
    "config_line (''auto_enabled'' @ CHR ''='' # ?a) w = Inr (w\<lparr>cv_auto_enabled := rf_auto_enabled cfg, cv_seen := True\<rparr>)"
    "config_line (''auto_timeout_ms'' @ CHR ''='' # ?t) w = Inr (w\<lparr>cv_timeout := rf_auto_timeout_ms cfg, cv_seen := True\<rparr>)" for w
    using assms unfolding config_line_def Let_def config_line_key [OF plain(4)] config_line_key [OF plain(5)] config_line_key [OF plain(6)]
    by (simp_all add: flag_value_digits timeout_value_digits config_valid_iff)
  show ?thesis unfolding t by (simp add: l del: append.simps)
qed

lemma config_content_text: "as_text (config_content cfg) = config_content cfg"
  unfolding as_text_def by (rule takeWhile_eq_all_conv [THEN iffD2]) (auto simp: config_content_def newline_char dest: digits_plain)

text \<open>Reading does not fail.\<close>

definition readable :: "system \<Rightarrow> string \<Rightarrow> bool" where
  "readable sy path \<longleftrightarrow> \<not> sy_fails sy (Open_File path) \<and> \<not> sy_fails sy (Stat_File path) \<and> \<not> sy_fails sy (Read_File path)"

lemma load_written:
  assumes "config_valid cfg" and "length (config_content cfg) < 256" and "f (rf_config_path cfg') = Some (new_node sy (config_content cfg))"
    and "rf_config_path cfg' \<noteq> []" "readable sy' (rf_config_path cfg')"
  shows "le_recovery_config_load sy' f cfg' = (1, ''config-loaded'',
    cfg'\<lparr>rf_enabled := rf_enabled cfg, rf_auto_enabled := rf_auto_enabled cfg, rf_auto_timeout_ms := rf_auto_timeout_ms cfg\<rparr>)"
proof -
  have "config_content cfg \<noteq> []" by (simp add: config_content_def)
  then have r: "read_node sy' 511 (rf_config_path cfg') (new_node sy (config_content cfg)) = Some (config_content cfg)"
    using assms(2,5) by (simp add: read_node_def new_node_def readable_def)
  have o: "open_node sy' (rf_config_path cfg') f = Inr (new_node sy (config_content cfg))"
    using assms(3,5) by (simp add: open_node_def new_node_def readable_def)
  have m: "regular (new_node sy s)" "nd_mode (new_node sy s) AND 0x3F = 0" for s by (simp_all add: new_node_def regular_def)
  show ?thesis
    using assms(4,5) config_lines_content [OF assms(1)]
    by (simp add: le_recovery_config_load_def Let_def o r m readable_def config_content_text)
qed

lemma persist_result:
  assumes p: "le_recovery_config_persist sy cfg f = (r, ds)"
  shows "(\<forall>d\<in>set ds. kept (rf_config_path cfg) (f (rf_config_path cfg)) (Some (new_node sy (config_content cfg))) d) \<and>
    ended (rf_config_path cfg) (f (rf_config_path cfg)) (Some (new_node sy (config_content cfg))) r (last (f # ds))"
proof -
  let ?path = "rf_config_path cfg" and ?new = "Some (new_node sy (config_content cfg))"
  have same: "d ?path = f ?path \<Longrightarrow> kept ?path (f ?path) ?new d" for d by (simp add: kept_def)
  obtain r1 f1 where e: "ensure_secure_parent_dir sy cfg ?path f = (r1, f1)" by fastforce
  note guarded = secure_parent_frame [OF e]
  consider (early) reason where "r = Some reason" "reason \<noteq> ''config-rollback-failed''" "ds = [] \<or> ds = [f1]"
    | (go) es where "write_locked_file sy ?path (config_content cfg) True f1 = (r, es)" "ds = f1 # es"
    using p e secure_parent_reason [OF e]
    by (auto simp: le_recovery_config_persist_def le_recovery_config_validate_def split: if_splits option.splits prod.splits)
  then show ?thesis
  proof cases
    case early
    then show ?thesis using guarded same by (auto simp: ended_def backup_of_def)
  next
    case go
    have "f1 ?path = f ?path" "f1 (backup_of ?path) = f (backup_of ?path)" using guarded by (simp_all add: backup_of_def)
    then show ?thesis using write_locked_result [OF go(1)] go(2) same by (auto simp: ended_def)
  qed
qed

section \<open>Properties\<close>

text \<open>
  C14: nothing is lost in a replacement.  Whatever system calls fail while the owner's configuration is replaced, and wherever
  the daemon is killed, the old configuration is in its file or in the backup; success means that the new one is
  in the file and the old one in the backup, and a refusal other than that of the rollback leaves the file as it
  was.\<close>

theorem recovery_configuration_kept:
  assumes "le_recovery_config_persist sy cfg f = (r, ds)"
  shows "(\<forall>d\<in>set ds. f (rf_config_path cfg) \<noteq> None \<longrightarrow>
      d (rf_config_path cfg) = f (rf_config_path cfg) \<or> d (backup_of (rf_config_path cfg)) = f (rf_config_path cfg)) \<and>
    ended (rf_config_path cfg) (f (rf_config_path cfg)) (Some (new_node sy (config_content cfg))) r (last (f # ds))"
  using persist_result [OF assms] by (auto simp: kept_def)

definition calm :: system where
  "calm = \<lparr>sy_fails = (\<lambda>_. False), sy_tmpfs = (\<lambda>_. True), sy_sync_unsupported = False, sy_written = 0,
     sy_random = Some [Random_Bytes (replicate 32 7)], sy_uid = 0, sy_pid = 1\<rparr>"

definition a_config :: recovery_config where
  "a_config = (le_recovery_config_default ''wlan0'')\<lparr>rf_config_path := ''/r/c'', rf_psk_path := ''/r/p'',
     rf_marker_path := ''/r/m'', rf_enabled := 0\<rparr>"

definition some_files :: files where
  "some_files = [''/r'' \<mapsto> \<lparr>nd_kind = Directory, nd_mode = 0x1C0, nd_uid = 0\<rparr>,
     ''/r/c'' \<mapsto> \<lparr>nd_kind = Regular ''enabled=1'', nd_mode = 0x180, nd_uid = 0\<rparr>,
     ''/r/m'' \<mapsto> \<lparr>nd_kind = Regular ''libreecho-recovery-v1'', nd_mode = 0x180, nd_uid = 0\<rparr>]"

lemma a_config_fields:
  "rf_config_path a_config = ''/r/c''" "rf_psk_path a_config = ''/r/p''" "rf_marker_path a_config = ''/r/m''"
  "rf_enabled a_config = 0" "rf_auto_enabled a_config = 0" "rf_auto_timeout_ms a_config = 120000"
  "rf_require_root_owner a_config" "rf_require_tmpfs a_config"
  by (simp_all add: a_config_def le_recovery_config_default_def LE_RECOVERY_TIMEOUT_DEFAULT_MS_def)

lemma calm_system:
  "\<not> sy_fails calm x" "sy_uid calm = 0" "sy_pid calm = 1" "sy_tmpfs calm p" "sy_random calm = Some [Random_Bytes (replicate 32 7)]"
  by (simp_all add: calm_def)

lemma a_directory: "is_dir ''/r'' some_files" "some_files ''/r'' = Some \<lparr>nd_kind = Directory, nd_mode = 0x1C0, nd_uid = 0\<rparr>"
  by (simp_all add: is_dir_def some_files_def)

lemma a_names: "nat_digits (Suc 0) = ''1''" "int_digits 0 = ''0''" "length (int_digits 120000) \<le> 6"
proof -
  show "nat_digits (Suc 0) = ''1''" "int_digits 0 = ''0''" by (code_simp, code_simp)
  show "length (int_digits 120000) \<le> 6" using nat_digits_length [of 120000 5] by (simp add: int_digits_def)
qed

lemma a_parents: "parent_of ''/r/c'' = Some ''/r''" "parent_of ''/r/c.tmp.1'' = Some ''/r''" "parent_of ''/r/p'' = Some ''/r''"
  "parent_of ''/r/p.tmp.1'' = Some ''/r''" "components ''/r'' = []"
  by (simp_all add: parent_of_def components_def)

lemma a_write:
  "\<exists>ds. write_locked_file calm ''/r/c'' data True some_files = (None, ds)"
proof -
  let ?t = "''/r/c.tmp.1''"
  have t: "temporary_of calm ''/r/c'' = ?t" "backup_of ''/r/c'' = ''/r/c.bak''"
    by (simp_all add: temporary_of_def backup_of_def calm_system a_names)
  have e: "ensure_parent_dir calm ''/r/c'' some_files = (True, some_files)"
    by (simp add: ensure_parent_dir_def PATH_MAX_def a_parents make_dir_def a_directory)
  have none: "some_files ?t = None" "some_files ''/r/c.bak'' = None" by (simp_all add: some_files_def)
  have l: "locked_temporary calm ''/r/c'' data some_files =
      (None, [some_files, some_files(?t \<mapsto> new_node calm []), some_files(?t \<mapsto> new_node calm data)])"
    by (simp add: locked_temporary_def t may_create_def calm_system parent_ready_def a_parents a_directory unlink_node_def none Let_def)
  let ?f = "some_files(?t \<mapsto> new_node calm data)"
  obtain n where n: "some_files ''/r/c'' = Some n" "regular n" by (simp add: some_files_def regular_def)
  let ?g = "(?f(''/r/c'' := None))(''/r/c.bak'' := Some n)"
  have b: "locked_backup calm ''/r/c'' ?f = (None, True, [?g])"
    using n none by (simp add: locked_backup_def calm_system t rename_node_def is_dir_def)
  let ?h = "(?g(?t := None))(''/r/c'' \<mapsto> new_node calm data)"
  have "is_dir ''/r'' ?h" using a_directory by (simp add: is_dir_def)
  then have c: "locked_commit calm ''/r/c'' True ?g = (None, [?h])"
    by (simp add: locked_commit_def t rename_node_def calm_system is_dir_def fsync_parent_dir_def PATH_MAX_def a_parents)
  show ?thesis
    using e l b c by (simp add: write_locked_file_def t PATH_MAX_def)
qed

lemma a_secure: "ensure_secure_parent_dir calm cfg ''/r/c'' some_files = (None, some_files)"
  "ensure_secure_parent_dir calm cfg ''/r/p'' some_files = (None, some_files)"
  by (simp_all add: ensure_secure_parent_dir_def PATH_MAX_def a_parents calm_system a_directory)

lemma config_content_short: "config_valid cfg \<Longrightarrow> length (config_content cfg) < 256"
proof -
  assume v: "config_valid cfg"
  have "0 \<le> i \<Longrightarrow> i < 1000000 \<Longrightarrow> length (int_digits i) \<le> 6" for i
    using nat_digits_length [of "nat i" 5] by (simp add: int_digits_def nat_less_iff)
  from this [of "rf_enabled cfg"] this [of "rf_auto_enabled cfg"] this [of "rf_auto_timeout_ms cfg"] v
  show ?thesis by (auto simp: config_content_def config_valid_iff)
qed

lemma calm_persist:
  "config_valid cfg \<Longrightarrow> rf_config_path cfg = ''/r/c'' \<Longrightarrow> \<exists>ds. le_recovery_config_persist calm cfg some_files = (None, ds)"
  using a_write [of "config_content cfg"] config_content_short [of cfg]
  by (auto simp: le_recovery_config_persist_def config_valid_def a_secure)

lemma a_persist: "\<exists>ds. le_recovery_config_persist calm a_config some_files = (None, ds)"
  by (rule calm_persist) (simp_all add: config_valid_iff a_config_fields)

lemma recovery_configuration_kept_witness:
  "\<exists>ds. le_recovery_config_persist calm a_config some_files = (None, ds) \<and>
     (\<forall>d\<in>set ds. d ''/r/c'' = some_files ''/r/c'' \<or> d ''/r/c.bak'' = some_files ''/r/c'')"
proof -
  obtain ds where ds: "le_recovery_config_persist calm a_config some_files = (None, ds)" using a_persist by auto
  have "some_files ''/r/c'' \<noteq> None" "backup_of ''/r/c'' = ''/r/c.bak''" by (simp_all add: some_files_def backup_of_def)
  then show ?thesis using ds recovery_configuration_kept [OF ds] by (intro exI [of _ ds]) (simp add: a_config_fields)
qed

lemma persist_valid:
  "le_recovery_config_persist sy cfg f = (None, ds) \<Longrightarrow>
   config_valid cfg \<and> rf_config_path cfg \<noteq> [] \<and> length (config_content cfg) < 256"
  by (auto simp: le_recovery_config_persist_def config_valid_def split: if_splits option.splits prod.splits)

text \<open>
  C24: the configuration survives.  What was saved with success is what a daemon started later loads: the three
  values of the owner, and nothing else of its configuration changes.\<close>

theorem recovery_configuration_round_trip:
  assumes "le_recovery_config_persist sy cfg f = (None, ds)" and "rf_config_path cfg' = rf_config_path cfg"
    and "readable sy' (rf_config_path cfg)"
  shows "le_recovery_config_load sy' (last (f # ds)) cfg' = (1, ''config-loaded'',
    cfg'\<lparr>rf_enabled := rf_enabled cfg, rf_auto_enabled := rf_auto_enabled cfg, rf_auto_timeout_ms := rf_auto_timeout_ms cfg\<rparr>)"
  using persist_result [OF assms(1)] persist_valid [OF assms(1)] assms(2,3)
  by (intro load_written) (auto simp: ended_def)

lemma calm_readable: "readable calm p"
  by (simp add: readable_def calm_system)

lemma recovery_configuration_round_trip_witness:
  "\<exists>ds. le_recovery_config_persist calm a_config some_files = (None, ds) \<and>
     (case le_recovery_config_load calm (last (some_files # ds)) (a_config\<lparr>rf_enabled := 1\<rparr>) of
        (result, _, cfg) \<Rightarrow> result = 1 \<and> rf_enabled cfg = 0)"
proof -
  obtain ds where ds: "le_recovery_config_persist calm a_config some_files = (None, ds)" using a_persist by auto
  from recovery_configuration_round_trip [OF ds _ calm_readable, of "a_config\<lparr>rf_enabled := 1\<rparr>"]
  show ?thesis using ds by (intro exI [of _ ds]) (simp add: a_config_fields)
qed

lemma config_line_valid:
  assumes "config_line l v = Inr v1" and "cv_enabled v \<in> {0, 1} \<and> cv_auto_enabled v \<in> {0, 1} \<and> 30000 \<le> cv_timeout v \<and> cv_timeout v \<le> 600000"
  shows "cv_enabled v1 \<in> {0, 1} \<and> cv_auto_enabled v1 \<in> {0, 1} \<and> 30000 \<le> cv_timeout v1 \<and> cv_timeout v1 \<le> 600000"
  using assms
  by (auto simp: config_line_def Let_def flag_value_def timeout_value_def LE_RECOVERY_TIMEOUT_MIN_MS_def
      LE_RECOVERY_TIMEOUT_MAX_MS_def split: if_splits option.splits prod.splits)

lemma config_lines_valid:
  assumes "config_lines ls v = Inr v1" and "cv_enabled v \<in> {0, 1} \<and> cv_auto_enabled v \<in> {0, 1} \<and> 30000 \<le> cv_timeout v \<and> cv_timeout v \<le> 600000"
  shows "cv_enabled v1 \<in> {0, 1} \<and> cv_auto_enabled v1 \<in> {0, 1} \<and> 30000 \<le> cv_timeout v1 \<and> cv_timeout v1 \<le> 600000"
  using assms
proof (induction ls arbitrary: v)
  case (Cons l ls)
  then obtain w where "config_line l v = Inr w" "config_lines ls w = Inr v1" by (auto split: sum.splits)
  then show ?case using Cons.IH config_line_valid Cons.prems(2) by metis
qed simp

text \<open>
  Only valid values are loaded.  Whatever the file holds and whatever fails, a load gives a configuration the validation
  accepts when the one before was, and leaves it as it was unless it reports that it loaded.\<close>

theorem recovery_loads_only_valid:
  assumes "le_recovery_config_load sy f cfg = (result, reason, cfg1)" and "config_valid cfg"
  shows "config_valid cfg1 \<and> (result \<noteq> 1 \<longrightarrow> cfg1 = cfg)"
proof -
  let ?v = "\<lparr>cv_enabled = rf_enabled cfg, cv_auto_enabled = rf_auto_enabled cfg, cv_timeout = rf_auto_timeout_ms cfg, cv_seen = False\<rparr>"
  have "cfg1 = cfg \<or> (\<exists>ls v. config_lines ls ?v = Inr v \<and> result = 1 \<and>
      cfg1 = cfg\<lparr>rf_enabled := cv_enabled v, rf_auto_enabled := cv_auto_enabled v, rf_auto_timeout_ms := cv_timeout v\<rparr>)"
  proof (cases "open_node sy (rf_config_path cfg) f")
    case (Inl e)
    then show ?thesis using assms(1) by (cases e) (simp_all add: le_recovery_config_load_def Let_def split: if_splits)
  next
    case o: (Inr n)
    show ?thesis
    proof (cases "read_node sy 511 (rf_config_path cfg) n")
      case None
      then show ?thesis using assms(1) o by (simp add: le_recovery_config_load_def Let_def split: if_splits)
    next
      case (Some content)
      then show ?thesis using assms(1) o
        by (cases "config_lines (tokens (as_text content)) ?v") (auto simp: le_recovery_config_load_def Let_def split: if_splits)
    qed
  qed
  then show ?thesis
  proof (elim disjE exE conjE)
    fix ls v
    assume l: "config_lines ls ?v = Inr v" "result = 1"
      "cfg1 = cfg\<lparr>rf_enabled := cv_enabled v, rf_auto_enabled := cv_auto_enabled v, rf_auto_timeout_ms := cv_timeout v\<rparr>"
    then show ?thesis using config_lines_valid [OF l(1)] assms(2) by (simp add: config_valid_iff)
  qed (use assms(2) in simp)
qed

lemma recovery_loads_only_valid_witness:
  "case le_recovery_config_load calm some_files a_config of (result, reason, cfg) \<Rightarrow> config_valid cfg"
proof -
  obtain result reason cfg where l: "le_recovery_config_load calm some_files a_config = (result, reason, cfg)" by (rule prod_cases3)
  have "config_valid a_config" by (simp add: config_valid_iff a_config_fields)
  from recovery_loads_only_valid [OF l this] show ?thesis by (simp add: l)
qed

text \<open>
  A daemon killed between the two renames leaves the configuration in the backup alone, which nothing reads.\<close>

lemma locked_commit_backup:
  assumes "write_locked_file sy path data True f = (None, ds)" and "f path \<noteq> None"
  shows "\<exists>d\<in>set ds. d path = None"
proof -
  obtain ok f0 where f0: "ensure_parent_dir sy path f = (ok, f0)" by fastforce
  have p0: "f0 path = f path" using ensure_parent_dir_frame [OF f0] by simp
  obtain r1 ts where t: "locked_temporary sy path data f0 = (r1, ts)" by fastforce
  obtain r2 b es where e: "locked_backup sy path (last ts) = (r2, b, es)" by (rule prod_cases3)
  have r: "r1 = None" "r2 = None" "set es \<subseteq> set ds"
    using assms(1) f0 t e by (auto simp: write_locked_file_def split: if_splits bool.splits option.splits prod.splits)
  have "last ts \<in> set ts" using temporary_done [OF t [unfolded r(1)]] by simp
  then have "last ts path = f path" using temporary_frame [OF t, of "last ts" path] p0 by simp
  then obtain d where "es = [d]" "d path = None" using locked_backup_result [OF e] r(2) assms(2) by auto
  then show ?thesis using r(3) by auto
qed

text \<open>
  C31: a kill may forget.  A save that replaces an existing configuration passes through a moment at which a
  daemon that is killed comes back without any configuration: the load reports that there is none.\<close>

theorem recovery_kill_forgets_configuration:
  assumes "le_recovery_config_persist sy cfg f = (None, ds)" and "f (rf_config_path cfg) \<noteq> None"
    and "rf_config_path cfg' = rf_config_path cfg" and "readable sy' (rf_config_path cfg)"
  shows "\<exists>d\<in>set ds. le_recovery_config_load sy' d cfg' = (0, [], cfg')"
proof -
  obtain r1 f1 where e: "ensure_secure_parent_dir sy cfg (rf_config_path cfg) f = (r1, f1)" by fastforce
  then obtain es where w: "write_locked_file sy (rf_config_path cfg) (config_content cfg) True f1 = (None, es)" "ds = f1 # es"
    using assms(1) by (auto simp: le_recovery_config_persist_def split: if_splits option.splits prod.splits)
  have "f1 (rf_config_path cfg) \<noteq> None" using secure_parent_frame [OF e] assms(2) by simp
  then obtain d where d: "d \<in> set ds" "d (rf_config_path cfg) = None" using locked_commit_backup [OF w(1)] w(2) by auto
  have "le_recovery_config_load sy' d cfg' = (0, [], cfg')"
    using d(2) assms(3,4) persist_valid [OF assms(1)] by (simp add: le_recovery_config_load_def open_node_def readable_def)
  then show ?thesis using d(1) by blast
qed

lemma recovery_kill_forgets_configuration_witness:
  "\<exists>ds. le_recovery_config_persist calm a_config some_files = (None, ds) \<and>
     (\<exists>d\<in>set ds. le_recovery_config_load calm d ((le_recovery_config_default [])\<lparr>rf_config_path := ''/r/c''\<rparr>) =
        (0, [], (le_recovery_config_default [])\<lparr>rf_config_path := ''/r/c''\<rparr>))"
proof -
  obtain ds where ds: "le_recovery_config_persist calm a_config some_files = (None, ds)" using a_persist by auto
  have "some_files (rf_config_path a_config) \<noteq> None" by (simp add: a_config_fields some_files_def)
  from recovery_kill_forgets_configuration [OF ds this _ calm_readable, of "(le_recovery_config_default [])\<lparr>rf_config_path := ''/r/c''\<rparr>"]
  show ?thesis using ds by (intro exI [of _ ds]) (simp add: a_config_fields)
qed

section \<open>The secret\<close>

lemma recovery_random_length: "recovery_random n got answers = Some bs \<Longrightarrow> length got \<le> n \<Longrightarrow> length bs = n"
proof (induction n got answers rule: recovery_random.induct)
  case (1 n got answers)
  show ?case
  proof (cases "n \<le> length got")
    case True
    then show ?thesis using "1.prems" by simp
  next
    case False
    then obtain a rest where a: "answers = a # rest" using "1.prems" by (cases answers) simp_all
    show ?thesis
    proof (cases a)
      case (Random_Bytes xs)
      have b: "xs \<noteq> []" "recovery_random n (got @ take (n - length got) xs) rest = Some bs"
        using "1.prems"(1) False a Random_Bytes by (subst (asm) recovery_random.simps, simp split: if_splits)+
      have "length (got @ take (n - length got) xs) \<le> n" using False by simp
      from "1.IH"(1) [OF False a Random_Bytes b(1) b(2) this] show ?thesis .
    next
      case Interrupted
      have b: "recovery_random n got rest = Some bs"
        using "1.prems"(1) False a Interrupted by (subst (asm) recovery_random.simps) simp
      show ?thesis using "1.IH"(2) [OF False a Interrupted b "1.prems"(2)] .
    next
      case Random_Failed
      then show ?thesis using "1.prems"(1) False a by (subst (asm) recovery_random.simps) simp
    qed
  qed
qed

declare recovery_random.simps [simp del]

lemma psk_alphabet_plain: "\<forall>c\<in>set psk_alphabet. ord c \<noteq> 0"
  by (simp add: psk_alphabet_def)

lemma generate_psk_shape: "generate_psk sy = Some psk \<Longrightarrow> length psk = 32 \<and> set psk \<subseteq> set psk_alphabet"
proof -
  assume "generate_psk sy = Some psk"
  then obtain bs where bs: "Option.bind (sy_random sy) (recovery_random 32 []) = Some bs"
    "psk = map (\<lambda>b. psk_alphabet ! (unat b mod length psk_alphabet)) bs" by (auto simp: generate_psk_def)
  have "0 < length psk_alphabet" by (simp add: psk_alphabet_def)
  then have "psk_alphabet ! (unat b mod length psk_alphabet) \<in> set psk_alphabet" for b :: byte by simp
  then show ?thesis using bs recovery_random_length by (auto simp: bind_eq_Some_conv)
qed

lemma psk_store_done:
  "psk_store sy path psk f = (None, g) \<Longrightarrow> g path = Some (new_node sy psk)"
proof -
  assume "psk_store sy path psk f = (None, g)"
  then obtain f2 where "rename_node sy (temporary_of sy path) path f2 = (True, g)" "f2 (temporary_of sy path) = Some (new_node sy psk)"
    by (auto simp: psk_store_def Let_def split: if_splits prod.splits bool.splits)
  then show ?thesis using rename_done [of sy "temporary_of sy path" path f2 g] by simp
qed

text \<open>
  The secret is made once.  A secret that was given is given again by every later call that can read it, the
  file system is then left as it is, and a secret that was made has 32 characters of the alphabet without look-alikes.\<close>

theorem recovery_secret_stable:
  assumes "le_recovery_psk_ensure sy cfg f = (Inr psk, f1)" and "readable sy' (rf_psk_path cfg)"
    and "rf_psk_path cfg' = rf_psk_path cfg"
  shows "le_recovery_psk_ensure sy' cfg' f1 = (Inr psk, f1) \<and>
    (f (rf_psk_path cfg) = None \<longrightarrow> length psk = 32 \<and> set psk \<subseteq> set psk_alphabet)"
proof (cases "open_node sy (rf_psk_path cfg) f")
  case (Inr n)
  then have n: "f (rf_psk_path cfg) = Some n" "nd_kind n \<noteq> Symlink" by (auto simp: open_node_def split: option.splits if_splits)
  then have "open_node sy' (rf_psk_path cfg) f = Inr n" using assms(2) by (simp add: open_node_def readable_def)
  moreover have "read_node sy (LE_RECOVERY_PSK_MAX - 1) (rf_psk_path cfg) n = Some t \<Longrightarrow>
      read_node sy' (LE_RECOVERY_PSK_MAX - 1) (rf_psk_path cfg) n = Some t" for t
    using assms(2) by (auto simp: read_node_def readable_def split: node_kind.splits if_splits)
  ultimately show ?thesis using assms Inr n
    by (auto simp: le_recovery_psk_ensure_def Let_def readable_def split: if_splits option.splits)
next
  case (Inl e)
  have path: "rf_psk_path cfg \<noteq> []" using assms(1) by (auto simp: le_recovery_psk_ensure_def Let_def)
  have e: "e = No_Entry" using assms(1) Inl path by (cases e) (simp_all add: le_recovery_psk_ensure_def Let_def)
  obtain g where g: "generate_psk sy = Some psk" "psk_store sy (rf_psk_path cfg) psk g = (None, f1)"
    using assms(1) Inl path e by (auto simp: le_recovery_psk_ensure_def Let_def split: option.splits prod.splits)
  note shape = generate_psk_shape [OF g(1)]
  have f1: "f1 (rf_psk_path cfg) = Some (new_node sy psk)" using psk_store_done [OF g(2)] .
  have o: "open_node sy' (rf_psk_path cfg) f1 = Inr (new_node sy psk)"
    using f1 assms(2) by (simp add: open_node_def readable_def new_node_def)
  have "psk \<noteq> []" using shape by auto
  then have r: "read_node sy' 127 (rf_psk_path cfg) (new_node sy psk) = Some psk"
    using shape assms(2) by (simp add: read_node_def new_node_def readable_def)
  have t: "as_text psk = psk" unfolding as_text_def
    by (rule takeWhile_eq_all_conv [THEN iffD2]) (use shape psk_alphabet_plain in auto)
  have m: "regular (new_node sy psk)" "nd_mode (new_node sy psk) AND 0x3F = 0" by (simp_all add: new_node_def regular_def)
  show ?thesis using shape path assms(2,3)
    by (simp add: le_recovery_psk_ensure_def Let_def o r t m readable_def LE_RECOVERY_PSK_MAX_def)
qed

lemma calm_secret:
  assumes "rf_psk_path cfg = ''/r/p''"
  shows "le_recovery_psk_ensure calm cfg some_files =
    (Inr (replicate 32 CHR ''H''), some_files(''/r/p'' \<mapsto> new_node calm (replicate 32 CHR ''H'')))"
proof -
  have "recovery_random 32 [] [Random_Bytes (replicate 32 7)] = Some (replicate 32 7)"
    by (simp add: recovery_random.simps)
  moreover have "psk_alphabet ! (unat (7 :: byte) mod length psk_alphabet) = CHR ''H''"
    by (simp add: psk_alphabet_def)
  ultimately have g: "generate_psk calm = Some (replicate 32 CHR ''H'')"
    by (simp add: generate_psk_def calm_system)
  let ?t = "''/r/p.tmp.1''"
  have t: "temporary_of calm ''/r/p'' = ?t" by (simp add: temporary_of_def calm_system a_names)
  have none: "some_files ?t = None" "some_files ''/r/p'' = None" by (simp_all add: some_files_def)
  let ?h = "(some_files(?t \<mapsto> new_node calm (replicate 32 CHR ''H''), ?t := None))(''/r/p'' \<mapsto> new_node calm (replicate 32 CHR ''H''))"
  have h: "is_dir ''/r'' ?h" using a_directory by (simp add: is_dir_def)
  have "psk_store calm ''/r/p'' (replicate 32 CHR ''H'') some_files = (None, ?h)"
    using h none by (simp add: psk_store_def t Let_def PATH_MAX_def may_create_def calm_system parent_ready_def a_parents
        a_directory unlink_node_def rename_node_def is_dir_def fsync_parent_dir_def del: fun_upd_upd)
  moreover have "?h = some_files(''/r/p'' \<mapsto> new_node calm (replicate 32 CHR ''H''))" using none by auto
  ultimately show ?thesis
    using assms g none(2) a_secure(2) by (simp add: le_recovery_psk_ensure_def open_node_def calm_system)
qed

lemma a_secret: "\<exists>f1. le_recovery_psk_ensure calm a_config some_files = (Inr (replicate 32 CHR ''H''), f1)"
  using calm_secret [of a_config] by (simp add: a_config_fields)

lemma recovery_secret_stable_witness:
  "\<exists>f1. le_recovery_psk_ensure calm a_config some_files = (Inr (replicate 32 CHR ''H''), f1) \<and>
     le_recovery_psk_ensure calm a_config f1 = (Inr (replicate 32 CHR ''H''), f1)"
proof -
  obtain f1 where f1: "le_recovery_psk_ensure calm a_config some_files = (Inr (replicate 32 CHR ''H''), f1)" using a_secret by auto
  from recovery_secret_stable [OF f1 calm_readable refl] f1 show ?thesis by auto
qed

section \<open>The marker\<close>

text \<open>
  The marker is trusted only as it must be.  When nothing fails a marker counts exactly when it is a regular file,
  not a link, that neither group nor others may write, of the owner and on the file system that are demanded, and begins
  with the tag; when calls fail it never counts unless all of this holds.\<close>

theorem recovery_marker_trusted:
  "(fst (le_recovery_marker_check sy cfg f) = 1 \<longrightarrow>
     (\<exists>n content. f (rf_marker_path cfg) = Some n \<and> nd_kind n = Regular (LE_RECOVERY_MARKER_TAG @ content) \<and>
        nd_mode n AND 0x12 = 0 \<and> (rf_require_root_owner cfg \<longrightarrow> nd_uid n = 0) \<and>
        (rf_require_tmpfs cfg \<longrightarrow> sy_tmpfs sy (rf_marker_path cfg)))) \<and>
   ((\<forall>x. \<not> sy_fails sy x) \<and> rf_marker_path cfg \<noteq> [] \<and> f (rf_marker_path cfg) = Some n \<and>
      nd_kind n = Regular (LE_RECOVERY_MARKER_TAG @ content) \<and> nd_mode n AND 0x12 = 0 \<and>
      (rf_require_root_owner cfg \<longrightarrow> nd_uid n = 0) \<and> (rf_require_tmpfs cfg \<longrightarrow> sy_tmpfs sy (rf_marker_path cfg)) \<longrightarrow>
    le_recovery_marker_check sy cfg f = (1, ''physical-hold''))"
proof (intro conjI impI)
  let ?p = "rf_marker_path cfg"
  assume one: "fst (le_recovery_marker_check sy cfg f) = 1"
  obtain n where o: "open_node sy ?p f = Inr n" "regular n" "nd_mode n AND 0x12 = 0"
      "rf_require_root_owner cfg \<longrightarrow> nd_uid n = 0" "rf_require_tmpfs cfg \<longrightarrow> sy_tmpfs sy ?p"
      "\<exists>c. read_marker_content sy ?p f = Inr c"
  proof (cases "open_node sy ?p f")
    case (Inl e)
    then show ?thesis using one by (cases e) (auto simp: le_recovery_marker_check_def Let_def split: if_splits)
  next
    case (Inr n)
    then show ?thesis using one that by (auto simp: le_recovery_marker_check_def Let_def split: if_splits sum.splits)
  qed
  then obtain t where t: "read_node sy (LE_RECOVERY_MARKER_MAX - 1) ?p n = Some t" "strip_prefix LE_RECOVERY_MARKER_TAG t \<noteq> None"
    by (auto simp: read_marker_content_def split: option.splits if_splits)
  obtain whole where k: "nd_kind n = Regular whole" using o(2) by (auto simp: regular_def split: node_kind.splits)
  then have "t = take 255 whole" using t(1) by (auto simp: read_node_def LE_RECOVERY_MARKER_MAX_def split: if_splits)
  moreover obtain r where "t = LE_RECOVERY_MARKER_TAG @ r" using t(2) by (auto simp: strip_prefix_Some)
  ultimately have "whole = LE_RECOVERY_MARKER_TAG @ r @ drop 255 whole" by (metis append.assoc append_take_drop_id)
  moreover have "f ?p = Some n" using o(1) by (auto simp: open_node_def split: option.splits if_splits)
  ultimately show "\<exists>n content. f ?p = Some n \<and> nd_kind n = Regular (LE_RECOVERY_MARKER_TAG @ content) \<and>
        nd_mode n AND 0x12 = 0 \<and> (rf_require_root_owner cfg \<longrightarrow> nd_uid n = 0) \<and>
        (rf_require_tmpfs cfg \<longrightarrow> sy_tmpfs sy (rf_marker_path cfg))"
    using o k by (intro exI [of _ n] exI [of _ "r @ drop 255 whole"]) simp
next
  let ?p = "rf_marker_path cfg"
  assume a: "(\<forall>x. \<not> sy_fails sy x) \<and> ?p \<noteq> [] \<and> f ?p = Some n \<and>
      nd_kind n = Regular (LE_RECOVERY_MARKER_TAG @ content) \<and> nd_mode n AND 0x12 = 0 \<and>
      (rf_require_root_owner cfg \<longrightarrow> nd_uid n = 0) \<and> (rf_require_tmpfs cfg \<longrightarrow> sy_tmpfs sy ?p)"
  have "length LE_RECOVERY_MARKER_TAG \<le> 255" "LE_RECOVERY_MARKER_TAG \<noteq> []" by (simp_all add: LE_RECOVERY_MARKER_TAG_def)
  then have "strip_prefix LE_RECOVERY_MARKER_TAG (take 255 (LE_RECOVERY_MARKER_TAG @ content)) \<noteq> None"
    "take 255 (LE_RECOVERY_MARKER_TAG @ content) \<noteq> []"
    by (simp_all add: strip_prefix_Some)
  then show "le_recovery_marker_check sy cfg f = (1, ''physical-hold'')"
    using a by (simp add: le_recovery_marker_check_def Let_def open_node_def regular_def read_marker_content_def read_node_def
        LE_RECOVERY_MARKER_MAX_def split: option.split)
qed

lemma recovery_marker_trusted_witness:
  "le_recovery_marker_check calm a_config some_files = (1, ''physical-hold'')"
proof -
  have "some_files ''/r/m'' = Some \<lparr>nd_kind = Regular (LE_RECOVERY_MARKER_TAG @ []), nd_mode = 0x180, nd_uid = 0\<rparr>"
    by (simp add: some_files_def LE_RECOVERY_MARKER_TAG_def)
  with recovery_marker_trusted [of calm a_config some_files
      "\<lparr>nd_kind = Regular (LE_RECOVERY_MARKER_TAG @ []), nd_mode = 0x180, nd_uid = 0\<rparr>" "[]"]
  show ?thesis by (simp add: calm_system a_config_fields)
qed

end
