(* ===== verification/Recovery_Access.thy ===== *)
theory Recovery_Access
  imports Recovery_Files Adapter_Wire "HOL-Library.Multiset"
begin

text \<open>
  The life of the recovery access point (adapter/network_recovery.c): arming, starting hostapd and dnsmasq
  behind the platform's network helper, watching the start, serving, the handover of the one radio, stopping,
  and the fallback after a time without an association.

  The processes are the world: a \<open>backend\<close> answers each call from everything that was called before, which the
  state keeps as a log with the newest call first, and each operation comes with a backend of its own.
  The functions a test may leave out of the backend are all there, as in the one that ships.
\<close>

section \<open>The state\<close>

datatype le_recovery_mode = CLIENT | ARMED | STARTING | ACTIVE | HANDOVER | UNAVAILABLE | STOPPING | STOPPED

datatype le_recovery_trigger = TRIGGER_NONE | TRIGGER_PHYSICAL | TRIGGER_AUTO

record le_recovery_process =
  rp_pid :: int
  rp_start_token :: nat
  rp_active :: bool
  rp_name :: string

datatype sent_signal = SIGTERM | SIGKILL

datatype process_call = Looked string bool | Probed "string list" int | Spawned "string list" int
  | Identified int nat | Signalled int sent_signal | Waited int int | Collected int int

record le_recovery_backend =
  bk_available :: "process_call list \<Rightarrow> string \<Rightarrow> bool"
  bk_probe :: "process_call list \<Rightarrow> string list \<Rightarrow> int"
  bk_spawn :: "process_call list \<Rightarrow> string list \<Rightarrow> int \<times> string"
  bk_identity :: "process_call list \<Rightarrow> int \<Rightarrow> nat"
  bk_wait :: "process_call list \<Rightarrow> int \<Rightarrow> int"
  bk_system :: system

definition LE_RECOVERY_REASON_MAX :: nat where "LE_RECOVERY_REASON_MAX = 160"
definition LE_RECOVERY_CHILD_MAX :: nat where "LE_RECOVERY_CHILD_MAX = 4"

record le_recovery =
  rv_config :: recovery_config
  rv_mode :: le_recovery_mode
  rv_trigger :: le_recovery_trigger
  rv_available :: bool
  rv_unavailable_reason :: string
  rv_last_error :: string
  rv_children :: "le_recovery_process list"
  rv_net_configured :: bool
  rv_net_release_pending :: bool
  rv_net_release_attempts :: nat
  rv_net_release_next_ms :: int
  rv_net_error :: string
  rv_led_active :: bool
  rv_secret_available :: bool
  rv_ssid :: string
  rv_armed_at_ms :: int
  rv_start_deadline_ms :: int
  rv_active_since_ms :: int
  rv_last_activity_ms :: int
  rv_auto_deadline_ms :: int
  rv_auto_started_ms :: int
  rv_last_now_ms :: int
  rv_auto_counting :: bool
  rv_rate_window_start_ms :: int
  rv_rate_count :: int
  rv_log :: "process_call list"
  rv_files :: files

definition le_recovery_init :: "recovery_config \<Rightarrow> int \<Rightarrow> files \<Rightarrow> le_recovery" where
  "le_recovery_init cfg now_ms f =
     \<lparr>rv_config = le_recovery_config_bound cfg, rv_mode = CLIENT, rv_trigger = TRIGGER_NONE, rv_available = False,
      rv_unavailable_reason = [], rv_last_error = [], rv_children = [], rv_net_configured = False,
      rv_net_release_pending = False, rv_net_release_attempts = 0, rv_net_release_next_ms = 0, rv_net_error = [],
      rv_led_active = False, rv_secret_available = False, rv_ssid = [], rv_armed_at_ms = 0, rv_start_deadline_ms = 0,
      rv_active_since_ms = 0, rv_last_activity_ms = now_ms, rv_auto_deadline_ms = 0, rv_auto_started_ms = 0,
      rv_last_now_ms = 0, rv_auto_counting = False, rv_rate_window_start_ms = 0, rv_rate_count = 0, rv_log = [],
      rv_files = f\<rparr>"

definition set_error :: "string \<Rightarrow> le_recovery \<Rightarrow> le_recovery" where
  "set_error reason c = c\<lparr>rv_last_error := copy_string LE_RECOVERY_REASON_MAX reason\<rparr>"

definition give_up :: "string \<Rightarrow> le_recovery \<Rightarrow> le_recovery" where
  "give_up reason c = c\<lparr>rv_unavailable_reason := copy_string LE_RECOVERY_REASON_MAX reason, rv_mode := UNAVAILABLE\<rparr>"

section \<open>Calls\<close>

definition logged :: "process_call \<Rightarrow> le_recovery \<Rightarrow> le_recovery" where
  "logged e c = c\<lparr>rv_log := e # rv_log c\<rparr>"

definition ask_available :: "le_recovery_backend \<Rightarrow> string \<Rightarrow> le_recovery \<Rightarrow> bool \<times> le_recovery" where
  "ask_available bk path c = (let r = bk_available bk (rv_log c) path in (r, logged (Looked path r) c))"

definition ask_probe :: "le_recovery_backend \<Rightarrow> string list \<Rightarrow> le_recovery \<Rightarrow> int \<times> le_recovery" where
  "ask_probe bk argv c = (let r = bk_probe bk (rv_log c) argv in (r, logged (Probed argv r) c))"

definition ask_wait :: "le_recovery_backend \<Rightarrow> int \<Rightarrow> le_recovery \<Rightarrow> int \<times> le_recovery" where
  "ask_wait bk pid c = (let r = bk_wait bk (rv_log c) pid in (r, logged (Waited pid r) c))"

text \<open>A kill and the one wait after it, which the log tells from the other waits.\<close>

definition kill_process :: "le_recovery_backend \<Rightarrow> int \<Rightarrow> le_recovery \<Rightarrow> le_recovery" where
  "kill_process bk pid c =
     (let c1 = logged (Signalled pid SIGKILL) c in logged (Collected pid (bk_wait bk (rv_log c1) pid)) c1)"

section \<open>Capabilities\<close>

definition probe_command :: "le_recovery_backend \<Rightarrow> string \<Rightarrow> le_recovery \<Rightarrow> int \<times> le_recovery" where
  "probe_command bk path c =
     (if path = [] then (- 1, c)
      else case ask_available bk path c of
        (False, c1) \<Rightarrow> (- 1, c1)
      | (True, c1) \<Rightarrow> ask_probe bk [path] c1)"

text \<open>Whether the access point can start, and the reason.\<close>

definition le_recovery_probe_capabilities :: "le_recovery_backend \<Rightarrow> le_recovery \<Rightarrow> bool \<times> string \<times> le_recovery" where
  "le_recovery_probe_capabilities bk c0 =
     (let cfg = rv_config c0; c = c0\<lparr>rv_available := False\<rparr>;
          refuse = (\<lambda>reason c. (False, reason, c\<lparr>rv_unavailable_reason := reason\<rparr>))
      in case ask_available bk (rf_hostapd_bin cfg) c of
        (False, c1) \<Rightarrow> refuse ''missing-hostapd'' c1
      | (True, c1) \<Rightarrow>
          (case (if rf_dhcp_bin cfg \<noteq> [] then ask_available bk (rf_dhcp_bin cfg) c1 else (False, c1)) of
             (dhcp, c2) \<Rightarrow>
               (case (if \<not> dhcp \<and> rf_dns_bin cfg \<noteq> [] then ask_available bk (rf_dns_bin cfg) c2 else (dhcp, c2)) of
                  (False, c3) \<Rightarrow> refuse ''missing-dhcp-dns'' c3
                | (True, c3) \<Rightarrow>
                    if rf_ap_probe_cmd cfg = [] then refuse ''ap-driver-unverified'' c3
                    else case probe_command bk (rf_ap_probe_cmd cfg) c3 of
                      (r, c4) \<Rightarrow>
                        if r < 0 then refuse ''ap-unsupported'' c4 else (True, ''available'', c4\<lparr>rv_available := True\<rparr>))))"

section \<open>Children\<close>

definition spawn_child :: "le_recovery_backend \<Rightarrow> string \<Rightarrow> string list \<Rightarrow> le_recovery \<Rightarrow> bool \<times> le_recovery" where
  "spawn_child bk name argv c =
     (if LE_RECOVERY_CHILD_MAX \<le> length (rv_children c) then (False, set_error ''child-limit'' c)
      else case bk_spawn bk (rv_log c) argv of
        (pid, err) \<Rightarrow>
          let c1 = logged (Spawned argv pid) c in
          if pid \<le> 0 then (False, set_error (if err \<noteq> [] then err else ''spawn-failed'') c1)
          else
            let token = bk_identity bk (rv_log c1) pid; c2 = logged (Identified pid token) c1 in
            if token = 0
            then (False, set_error ''child-identity'' (kill_process bk pid c2))
            else (True, c2\<lparr>rv_children := rv_children c2 @
                   [\<lparr>rp_pid = pid, rp_start_token = token, rp_active = True, rp_name = copy_string 16 name\<rparr>]\<rparr>))"

definition spawn_hostapd :: "le_recovery_backend \<Rightarrow> le_recovery \<Rightarrow> bool \<times> le_recovery" where
  "spawn_hostapd bk c =
     (let cfg = rv_config c; conf = rf_hostapd_conf cfg
      in spawn_child bk ''hostapd'' (rf_hostapd_bin cfg # (if conf \<noteq> [] then [conf] else [])) c)"

text \<open>The option that names the configuration to dnsmasq, unless it is too long.\<close>

definition conf_file :: "recovery_config \<Rightarrow> string list option" where
  "conf_file cfg =
     (let conf = rf_dhcp_conf cfg; option = ''--conf-file='' @ conf
      in if conf = [] then Some [] else if PATH_MAX \<le> length option then None else Some [option])"

text \<open>A resolver alone gets the configuration too: the code's last branch for it is never reached.\<close>

definition spawn_services :: "le_recovery_backend \<Rightarrow> le_recovery \<Rightarrow> bool \<times> le_recovery" where
  "spawn_services bk c =
     (let cfg = rv_config c; dhcp = rf_dhcp_bin cfg; dns = rf_dns_bin cfg in
      if dns \<noteq> [] \<and> (dhcp = [] \<or> dhcp = dns) then
        (case conf_file cfg of
           None \<Rightarrow> (False, set_error ''dnsmasq-conf-too-long'' c)
         | Some conf \<Rightarrow> spawn_child bk ''dnsmasq'' (dns # ''--no-daemon'' # conf) c)
      else if dhcp \<noteq> [] then
        (case conf_file cfg of
           None \<Rightarrow> (False, set_error ''dnsmasq-conf-too-long'' c)
         | Some conf \<Rightarrow> spawn_child bk ''dhcp'' (dhcp # conf) c)
      else (True, c))"

text \<open>The first child, from slot \<open>i\<close> on, that is not running: the reason.\<close>

fun children_alive_from :: "le_recovery_backend \<Rightarrow> nat \<Rightarrow> le_recovery_process list \<Rightarrow> le_recovery \<Rightarrow> string option \<times> le_recovery" where
  "children_alive_from bk i [] c = (None, c)"
| "children_alive_from bk i (p # ps) c =
     (if \<not> rp_active p then children_alive_from bk (i + 1) ps c
      else case ask_wait bk (rp_pid p) c of
        (r, c1) \<Rightarrow>
          if r = 0 then (Some ''child-exited'', c1\<lparr>rv_children := (rv_children c1)[i := p\<lparr>rp_active := False\<rparr>]\<rparr>)
          else if r < 0 then (Some ''child-wait-error'', c1)
          else children_alive_from bk (i + 1) ps c1)"

definition children_alive :: "le_recovery_backend \<Rightarrow> le_recovery \<Rightarrow> string option \<times> le_recovery" where
  "children_alive bk c = children_alive_from bk 0 (rv_children c) c"

section \<open>The network helper\<close>

definition run_net_helper :: "le_recovery_backend \<Rightarrow> string \<Rightarrow> bool \<Rightarrow> le_recovery \<Rightarrow> int \<times> le_recovery" where
  "run_net_helper bk path up c =
     (if path = [] then (- 1, c)
      else case ask_available bk path c of
        (False, c1) \<Rightarrow> (- 1, c1)
      | (True, c1) \<Rightarrow>
          ask_probe bk ([path, ''--interface'', rf_interface (rv_config c)] @
            (if up then [''--address'', copy_string 64 (rf_ap_address (rv_config c) @ ''/24'')] else [])) c1)"

definition LE_RECOVERY_NET_DOWN_MAX_ATTEMPTS :: nat where "LE_RECOVERY_NET_DOWN_MAX_ATTEMPTS = 3"
definition LE_RECOVERY_NET_DOWN_RETRY_MS :: int where "LE_RECOVERY_NET_DOWN_RETRY_MS = 500"

definition release_net_ownership :: "le_recovery_backend \<Rightarrow> int \<Rightarrow> le_recovery \<Rightarrow> le_recovery" where
  "release_net_ownership bk now_ms c =
     (if \<not> rv_net_configured c then c
      else
        let c1 = (if \<not> rv_net_release_pending c then c\<lparr>rv_net_release_attempts := 0\<rparr> else c) in
        case run_net_helper bk (rf_net_down_cmd (rv_config c1)) False c1 of
          (r, c2) \<Rightarrow>
            if r = 0
            then c2\<lparr>rv_net_configured := False, rv_net_release_pending := False, rv_net_release_attempts := 0, rv_net_error := []\<rparr>
            else
              let n = rv_net_release_attempts c2 + 1;
                  c3 = c2\<lparr>rv_net_release_attempts := n, rv_net_release_pending := True, rv_net_error := ''net-down-failed''\<rparr>
              in if LE_RECOVERY_NET_DOWN_MAX_ATTEMPTS \<le> n
                 then c3\<lparr>rv_net_release_pending := False, rv_net_release_next_ms := 0, rv_net_error := ''net-down-gave-up''\<rparr>
                 else c3\<lparr>rv_net_release_next_ms := now_ms + LE_RECOVERY_NET_DOWN_RETRY_MS\<rparr>)"

section \<open>Teardown\<close>

text \<open>The signal to every active child, and one look at each: whether all are gone, and the children after it.\<close>

fun terminate_all :: "le_recovery_process list \<Rightarrow> le_recovery \<Rightarrow> le_recovery" where
  "terminate_all [] c = c"
| "terminate_all (p # ps) c = terminate_all ps (if rp_active p then logged (Signalled (rp_pid p) SIGTERM) c else c)"

fun reap_round :: "le_recovery_backend \<Rightarrow> le_recovery_process list \<Rightarrow> le_recovery \<Rightarrow>
    bool \<times> le_recovery_process list \<times> le_recovery" where
  "reap_round bk [] c = (True, [], c)"
| "reap_round bk (p # ps) c =
     (if \<not> rp_active p then (case reap_round bk ps c of (gone, qs, c1) \<Rightarrow> (gone, p # qs, c1))
      else case ask_wait bk (rp_pid p) c of
        (r, c1) \<Rightarrow>
          (case reap_round bk ps c1 of
             (gone, qs, c2) \<Rightarrow> if r \<noteq> 0 then (False, p # qs, c2) else (gone, p\<lparr>rp_active := False\<rparr> # qs, c2)))"

text \<open>The rounds, 20 ms apart, until all are gone or the time is over; the clock is returned.\<close>

function reap_until :: "le_recovery_backend \<Rightarrow> int \<Rightarrow> int \<Rightarrow> le_recovery_process list \<Rightarrow> le_recovery \<Rightarrow>
    int \<times> le_recovery_process list \<times> le_recovery" where
  "reap_until bk now_ms deadline ps c =
     (case reap_round bk ps c of
        (gone, qs, c1) \<Rightarrow> if gone \<or> deadline \<le> now_ms then (now_ms, qs, c1) else reap_until bk (now_ms + 20) deadline qs c1)"
  by pat_completeness auto
termination by (relation "measure (\<lambda>(bk, now_ms, deadline, ps, c). nat (deadline - now_ms))") auto

declare reap_until.simps [simp del]

fun kill_rest :: "le_recovery_backend \<Rightarrow> le_recovery_process list \<Rightarrow> le_recovery \<Rightarrow> le_recovery" where
  "kill_rest bk [] c = c"
| "kill_rest bk (p # ps) c =
     kill_rest bk ps (if \<not> rp_active p then c else kill_process bk (rp_pid p) c)"

definition teardown_children :: "le_recovery_backend \<Rightarrow> int \<Rightarrow> le_recovery \<Rightarrow> le_recovery" where
  "teardown_children bk now_ms c =
     (let c1 = terminate_all (rv_children c) c in
      case reap_until bk now_ms (now_ms + rf_stop_timeout_ms (rv_config c)) (rv_children c) c1 of
        (later_ms, ps, c2) \<Rightarrow> release_net_ownership bk later_ms ((kill_rest bk ps c2)\<lparr>rv_children := []\<rparr>))"

section \<open>The configurations of the children\<close>

definition return_char :: char where "return_char = char_of (13 :: nat)"

definition format_ssid :: "system \<Rightarrow> recovery_config \<Rightarrow> files \<Rightarrow> string" where
  "format_ssid sy cfg f =
     (let path = rf_serial_path cfg;
          serial = (case open_node sy path f of
                      Inl _ \<Rightarrow> []
                    | Inr n \<Rightarrow> (case read_node sy 63 path n of None \<Rightarrow> [] | Some text \<Rightarrow> as_text text));
          serial = takeWhile (\<lambda>c. c \<noteq> newline \<and> c \<noteq> return_char) serial
      in ''LibreEcho-Setup-'' @ (if 4 \<le> length serial then drop (length serial - 4) serial else ''0000''))"

definition build_ssid :: "le_recovery_backend \<Rightarrow> le_recovery \<Rightarrow> le_recovery" where
  "build_ssid bk c = (if rv_ssid c = [] then c\<lparr>rv_ssid := format_ssid (bk_system bk) (rv_config c) (rv_files c)\<rparr> else c)"

definition text_lines :: "string list \<Rightarrow> string" where
  "text_lines ls = concat (map (\<lambda>l. l @ [newline]) ls)"

definition hostapd_content :: "recovery_config \<Rightarrow> string \<Rightarrow> string \<Rightarrow> string" where
  "hostapd_content cfg ssid psk =
     text_lines [''interface='' @ rf_interface cfg, ''driver=nl80211'', ''ctrl_interface='' @ rf_run_dir cfg, ''ssid='' @ ssid,
       ''hw_mode=g'', ''channel=6'', ''ieee80211n=1'', ''wpa=2'', ''wpa_passphrase='' @ psk, ''wpa_key_mgmt=WPA-PSK'',
       ''wpa_pairwise=CCMP'', ''rsn_pairwise=CCMP'', ''auth_algs=1'', ''ignore_broadcast_ssid=0'', ''beacon_int=100'']"

text \<open>The address without what follows its last dot.\<close>

definition network_base :: "string \<Rightarrow> string" where
  "network_base address =
     (let rest = dropWhile (\<lambda>c. c \<noteq> CHR ''.'') (rev address) in if rest = [] then address else rev (tl rest))"

definition dnsmasq_content :: "recovery_config \<Rightarrow> string" where
  "dnsmasq_content cfg =
     (let address = rf_ap_address cfg; base = network_base (copy_string 32 address);
          range = copy_string 128 (base @ ''.10,'' @ base @ ''.200,255.255.255.0,12h'')
      in text_lines [''interface='' @ rf_interface cfg, ''bind-interfaces'', ''no-resolv'', ''no-hosts'', ''domain-needed'',
           ''bogus-priv'', ''dhcp-range='' @ range, ''dhcp-option=3,'' @ address, ''dhcp-option=6,'' @ address,
           ''dhcp-option=114,http://'' @ address @ ''/?recovery=1'', ''address=/#/'' @ address, ''log-dhcp''])"

definition write_config_file :: "system \<Rightarrow> string \<Rightarrow> string \<Rightarrow> le_recovery \<Rightarrow> string option \<times> le_recovery" where
  "write_config_file sy path content c =
     (case write_locked_file sy path content False (rv_files c) of
        (reason, ds) \<Rightarrow> (reason, c\<lparr>rv_files := last (rv_files c # ds)\<rparr>))"

definition write_recovery_configs :: "le_recovery_backend \<Rightarrow> le_recovery \<Rightarrow> string option \<times> le_recovery" where
  "write_recovery_configs bk c =
     (let sy = bk_system bk; cfg = rv_config c in
      case le_recovery_psk_ensure sy cfg (rv_files c) of
        (Inl reason, f) \<Rightarrow> (Some reason, c\<lparr>rv_files := f\<rparr>)
      | (Inr psk, f) \<Rightarrow>
          let c1 = build_ssid bk (c\<lparr>rv_files := f\<rparr>); hostapd = hostapd_content cfg (rv_ssid c1) psk in
          if 1536 \<le> length hostapd then (Some ''hostapd-config-overflow'', c1)
          else case write_config_file sy (rf_hostapd_conf cfg) hostapd c1 of
            (Some reason, c2) \<Rightarrow> (Some reason, c2)
          | (None, c2) \<Rightarrow>
              if 1536 \<le> length (dnsmasq_content cfg) then (Some ''dnsmasq-config-overflow'', c2)
              else write_config_file sy (rf_dhcp_conf cfg) (dnsmasq_content cfg) c2)"

section \<open>The life of the access point\<close>

definition start_services :: "le_recovery_backend \<Rightarrow> int \<Rightarrow> le_recovery \<Rightarrow> le_recovery" where
  "start_services bk now_ms c =
     (case le_recovery_probe_capabilities bk c of
        (False, reason, c1) \<Rightarrow> give_up reason c1
      | (True, _, c1) \<Rightarrow>
          (case write_recovery_configs bk c1 of
             (Some reason, c2) \<Rightarrow> give_up reason c2
           | (None, c2) \<Rightarrow>
               let c3 = teardown_children bk now_ms c2; cfg = rv_config c3 in
               if rf_net_up_cmd cfg = [] then give_up ''ap-net-unconfigured'' c3
               else case run_net_helper bk (rf_net_up_cmd cfg) True c3 of
                 (r, c4) \<Rightarrow>
                   if r < 0 then give_up ''ap-net-up-failed'' c4
                   else
                     let c5 = c4\<lparr>rv_net_configured := True, rv_net_release_pending := False, rv_net_release_attempts := 0,
                            rv_net_release_next_ms := 0, rv_net_error := []\<rparr>
                     in case spawn_hostapd bk c5 of
                          (False, c6) \<Rightarrow> (teardown_children bk now_ms c6)\<lparr>rv_mode := UNAVAILABLE\<rparr>
                        | (True, c6) \<Rightarrow>
                            (case spawn_services bk c6 of
                               (False, c7) \<Rightarrow> (teardown_children bk now_ms c7)\<lparr>rv_mode := UNAVAILABLE\<rparr>
                             | (True, c7) \<Rightarrow>
                                 c7\<lparr>rv_mode := STARTING, rv_start_deadline_ms := now_ms + rf_start_timeout_ms (rv_config c7)\<rparr>)))"

definition verify_ready :: "le_recovery_backend \<Rightarrow> le_recovery \<Rightarrow> bool \<times> le_recovery" where
  "verify_ready bk c =
     (case children_alive bk c of
        (Some reason, c1) \<Rightarrow> (False, set_error reason c1)
      | (None, c1) \<Rightarrow>
          if rf_ready_probe_cmd (rv_config c1) = [] then (True, c1)
          else case probe_command bk (rf_ready_probe_cmd (rv_config c1)) c1 of
            (r, c2) \<Rightarrow> if r < 0 then (False, set_error ''not-serving'' c2) else (True, c2))"

definition le_recovery_arm :: "system \<Rightarrow> le_recovery_trigger \<Rightarrow> int \<Rightarrow> le_recovery \<Rightarrow> bool \<times> le_recovery" where
  "le_recovery_arm sy trigger now_ms c =
     (if rv_mode c = ACTIVE \<or> rv_mode c = STARTING then (False, c)
      else if rf_enabled (rv_config c) = 0 then (False, set_error ''recovery-disabled'' c)
      else
        let c1 = c\<lparr>rv_trigger := trigger, rv_mode := ARMED, rv_armed_at_ms := now_ms, rv_last_activity_ms := now_ms,
               rv_last_now_ms := now_ms, rv_last_error := [], rv_unavailable_reason := []\<rparr>
        in case le_recovery_psk_ensure sy (rv_config c1) (rv_files c1) of
             (Inl reason, f) \<Rightarrow> (False, (set_error reason (c1\<lparr>rv_files := f\<rparr>))\<lparr>rv_mode := UNAVAILABLE\<rparr>)
           | (Inr _, f) \<Rightarrow> (True, c1\<lparr>rv_files := f\<rparr>))"

definition le_recovery_stop :: "le_recovery_backend \<Rightarrow> int \<Rightarrow> string option \<Rightarrow> le_recovery \<Rightarrow> le_recovery" where
  "le_recovery_stop bk now_ms reason c =
     (let c1 = teardown_children bk now_ms (c\<lparr>rv_mode := STOPPING\<rparr>);
          path = rf_marker_path (rv_config c1);
          c2 = (if rv_trigger c1 = TRIGGER_PHYSICAL \<and> path \<noteq> []
                then c1\<lparr>rv_files := snd (unlink_node (bk_system bk) path (rv_files c1))\<rparr> else c1);
          c3 = c2\<lparr>rv_led_active := False, rv_secret_available := False, rv_auto_counting := False, rv_mode := STOPPED,
                 rv_trigger := TRIGGER_NONE, rv_last_activity_ms := now_ms\<rparr>
      in case reason of None \<Rightarrow> c3 | Some r \<Rightarrow> set_error r c3)"

definition tick_starting :: "le_recovery_backend \<Rightarrow> int \<Rightarrow> le_recovery \<Rightarrow> bool \<times> le_recovery" where
  "tick_starting bk now_ms c =
     (if rv_start_deadline_ms c \<le> now_ms then
        (case verify_ready bk c of
           (True, c1) \<Rightarrow> (True, c1\<lparr>rv_mode := ACTIVE, rv_active_since_ms := now_ms, rv_secret_available := True, rv_led_active := True\<rparr>)
         | (False, c1) \<Rightarrow> (True, teardown_children bk now_ms (c1\<lparr>rv_mode := UNAVAILABLE, rv_led_active := False\<rparr>)))
      else
        (case children_alive bk c of
           (None, c1) \<Rightarrow> (False, c1)
         | (Some reason, c1) \<Rightarrow> (True, teardown_children bk now_ms ((set_error reason c1)\<lparr>rv_mode := UNAVAILABLE\<rparr>))))"

definition count_down :: "int \<Rightarrow> bool \<Rightarrow> le_recovery \<Rightarrow> le_recovery" where
  "count_down now_ms associated c =
     (let cfg = rv_config c in
      if rf_enabled cfg \<noteq> 0 \<and> rf_auto_enabled cfg \<noteq> 0 \<and> \<not> associated \<and> \<not> rv_auto_counting c
      then c\<lparr>rv_auto_counting := True, rv_auto_started_ms := now_ms,
             rv_auto_deadline_ms := now_ms + rf_auto_timeout_ms cfg\<rparr> else c)"

definition tick_resting :: "le_recovery_backend \<Rightarrow> int \<Rightarrow> bool \<Rightarrow> le_recovery \<Rightarrow> bool \<times> le_recovery" where
  "tick_resting bk now_ms associated c =
     (let c1 = count_down now_ms associated c
      in if rv_auto_counting c1 \<and> associated then (False, c1\<lparr>rv_auto_counting := False\<rparr>)
         else if rv_auto_counting c1 \<and> rv_auto_deadline_ms c1 \<le> now_ms
         then (True, snd (le_recovery_arm (bk_system bk) TRIGGER_AUTO now_ms (c1\<lparr>rv_auto_counting := False\<rparr>)))
         else (False, c1))"

definition tick_mode :: "le_recovery_backend \<Rightarrow> int \<Rightarrow> bool \<Rightarrow> le_recovery \<Rightarrow> bool \<times> le_recovery" where
  "tick_mode bk now_ms associated c =
     (case rv_mode c of
        ARMED \<Rightarrow> (True, start_services bk now_ms (build_ssid bk c))
      | STARTING \<Rightarrow> tick_starting bk now_ms c
      | CLIENT \<Rightarrow> tick_resting bk now_ms associated c
      | UNAVAILABLE \<Rightarrow> tick_resting bk now_ms associated c
      | STOPPED \<Rightarrow> tick_resting bk now_ms associated c
      | _ \<Rightarrow> (False, c))"

definition tick_retry :: "le_recovery_backend \<Rightarrow> int \<Rightarrow> le_recovery \<Rightarrow> bool \<times> le_recovery" where
  "tick_retry bk now_ms c =
     (if rv_net_release_pending c \<and> rv_net_release_next_ms c \<le> now_ms then (True, release_net_ownership bk now_ms c)
      else (False, c))"

definition le_recovery_tick :: "le_recovery_backend \<Rightarrow> int \<Rightarrow> bool \<Rightarrow> le_recovery \<Rightarrow> bool \<times> le_recovery" where
  "le_recovery_tick bk now_ms associated c0 =
     (let c = c0\<lparr>rv_last_now_ms := now_ms\<rparr> in
      if associated \<and> (rv_mode c = ACTIVE \<or> rv_mode c = STARTING) then (True, le_recovery_stop bk now_ms (Some ''associated'') c)
      else
        case tick_retry bk now_ms c of
          (retried, c1) \<Rightarrow> (case tick_mode bk now_ms associated c1 of (moved, c2) \<Rightarrow> (retried \<or> moved, c2)))"

definition le_recovery_configure ::
  "le_recovery_backend \<Rightarrow> int \<Rightarrow> int \<Rightarrow> int \<Rightarrow> le_recovery \<Rightarrow> string option \<times> le_recovery" where
  "le_recovery_configure bk enabled auto_enabled auto_timeout_ms c =
     (let candidate = (rv_config c)\<lparr>rf_enabled := enabled, rf_auto_enabled := auto_enabled, rf_auto_timeout_ms := auto_timeout_ms\<rparr> in
      case le_recovery_config_validate candidate of
        Some reason \<Rightarrow> (Some reason, c)
      | None \<Rightarrow>
          (case le_recovery_config_persist (bk_system bk) candidate (rv_files c) of
             (reason, ds) \<Rightarrow>
               let c1 = c\<lparr>rv_files := last (rv_files c # ds)\<rparr> in
               if reason \<noteq> None then (reason, c1)
               else
                 let c2 = c1\<lparr>rv_config := candidate\<rparr>
                 in (None, if enabled = 0 then le_recovery_stop bk (rv_last_now_ms c2) (Some ''disabled'') c2 else c2)))"

definition le_recovery_handover_begin :: "le_recovery_backend \<Rightarrow> int \<Rightarrow> le_recovery \<Rightarrow> bool \<times> le_recovery" where
  "le_recovery_handover_begin bk now_ms c =
     (if rf_enabled (rv_config c) = 0 \<or> rv_mode c \<noteq> ACTIVE \<and> rv_mode c \<noteq> STARTING \<and> rv_mode c \<noteq> ARMED then (False, c)
      else (True, (teardown_children bk now_ms c)\<lparr>rv_led_active := False, rv_secret_available := False,
              rv_auto_counting := False, rv_mode := HANDOVER, rv_last_activity_ms := now_ms\<rparr>))"

definition le_recovery_handover_result :: "le_recovery_backend \<Rightarrow> int \<Rightarrow> bool \<Rightarrow> le_recovery \<Rightarrow> le_recovery" where
  "le_recovery_handover_result bk now_ms associated c =
     (if rv_mode c \<noteq> HANDOVER then c
      else if associated then le_recovery_stop bk now_ms (Some ''associated'') c
      else c\<lparr>rv_mode := ARMED, rv_armed_at_ms := now_ms, rv_last_activity_ms := now_ms, rv_auto_counting := False,
             rv_last_error := ''association-failed''\<rparr>)"

text \<open>Whether a submission is let through.\<close>

definition le_recovery_rate_limit :: "int \<Rightarrow> le_recovery \<Rightarrow> bool \<times> le_recovery" where
  "le_recovery_rate_limit now_ms c =
     (let c1 = (if rv_rate_window_start_ms c = 0 \<or> rf_rate_window_ms (rv_config c) < now_ms - rv_rate_window_start_ms c
                then c\<lparr>rv_rate_window_start_ms := now_ms, rv_rate_count := 0\<rparr> else c)
      in if rf_rate_max (rv_config c1) \<le> rv_rate_count c1 then (False, c1)
         else (True, c1\<lparr>rv_rate_count := rv_rate_count c1 + 1\<rparr>))"

section \<open>Status and secret\<close>

fun le_recovery_mode_name :: "le_recovery_mode \<Rightarrow> string" where
  "le_recovery_mode_name CLIENT = ''client''"
| "le_recovery_mode_name ARMED = ''armed''"
| "le_recovery_mode_name STARTING = ''starting''"
| "le_recovery_mode_name ACTIVE = ''recovery-ap''"
| "le_recovery_mode_name HANDOVER = ''handover''"
| "le_recovery_mode_name UNAVAILABLE = ''unavailable''"
| "le_recovery_mode_name STOPPING = ''stopping''"
| "le_recovery_mode_name STOPPED = ''stopped''"

fun le_recovery_trigger_name :: "le_recovery_trigger \<Rightarrow> string" where
  "le_recovery_trigger_name TRIGGER_PHYSICAL = ''physical''"
| "le_recovery_trigger_name TRIGGER_AUTO = ''auto''"
| "le_recovery_trigger_name TRIGGER_NONE = ''none''"

text \<open>A string of the status: quotes and backslashes are escaped, a newline is written so, and other controls are dropped.\<close>

definition recovery_escape :: "char \<Rightarrow> string" where
  "recovery_escape c =
     (if c = quote \<or> c = backslash then [backslash, c]
      else if c = newline then [backslash, CHR ''n''] else if 32 \<le> ord c then [c] else [])"

definition recovery_string :: "string \<Rightarrow> string" where
  "recovery_string s = quote # concat (map recovery_escape s) @ [quote]"

definition truth :: "bool \<Rightarrow> string" where
  "truth b = (if b then ''true'' else ''false'')"

text \<open>Each append is refused when it is cut, so the document is whole or there is none.\<close>

definition le_recovery_status_json :: "nat \<Rightarrow> le_recovery \<Rightarrow> string option" where
  "le_recovery_status_json n c =
     (let countdown = (if rv_auto_counting c then max 0 (rv_auto_deadline_ms c - rv_last_now_ms c) else 0);
          d = ''{\"mode\":'' @ recovery_string (le_recovery_mode_name (rv_mode c)) @
            '',\"trigger\":'' @ recovery_string (le_recovery_trigger_name (rv_trigger c)) @
            '',\"available\":'' @ truth (rv_available c) @ '',\"ssid\":'' @ recovery_string (rv_ssid c) @
            '',\"address\":'' @ recovery_string (rf_ap_address (rv_config c)) @
            '',\"reason\":'' @ recovery_string (if rv_unavailable_reason c \<noteq> [] then rv_unavailable_reason c else rv_last_error c) @
            '',\"error\":'' @ recovery_string (if rv_net_error c \<noteq> [] then rv_net_error c else rv_last_error c) @
            '',\"secret_available\":'' @ truth (rv_secret_available c) @
            '',\"led_owner\":'' @ recovery_string (if rv_led_active c then ''recovery-ap'' else []) @
            '',\"enabled\":'' @ truth (rf_enabled (rv_config c) \<noteq> 0) @ '',\"net_configured\":'' @ truth (rv_net_configured c) @
            '',\"auto_enabled\":'' @ truth (rf_auto_enabled (rv_config c) \<noteq> 0) @
            '',\"auto_timeout_ms\":'' @ int_digits (rf_auto_timeout_ms (rv_config c)) @
            '',\"auto_pending\":'' @ truth (rv_auto_counting c) @ '',\"auto_countdown_ms\":'' @ int_digits countdown @
            '',\"rate_count\":'' @ int_digits (rv_rate_count c) @ '',\"children\":'' @ nat_digits (length (rv_children c)) @ ''}''
      in if n < 2 then None else append_text n d [])"

definition secret_reveal_allowed :: "le_recovery \<Rightarrow> bool" where
  "secret_reveal_allowed c \<longleftrightarrow> rv_mode c \<noteq> ACTIVE \<and> rv_mode c \<noteq> STARTING"

definition le_recovery_secret_prepare :: "system \<Rightarrow> le_recovery \<Rightarrow> string option \<times> le_recovery" where
  "le_recovery_secret_prepare sy c =
     (if rf_enabled (rv_config c) = 0 then (Some ''recovery-disabled'', c)
      else if \<not> secret_reveal_allowed c then (Some ''captive-ap-active'', c)
      else case le_recovery_psk_ensure sy (rv_config c) (rv_files c) of
        (Inl reason, f) \<Rightarrow> (Some reason, c\<lparr>rv_files := f\<rparr>)
      | (Inr _, f) \<Rightarrow> (None, c\<lparr>rv_files := f\<rparr>))"

definition le_recovery_secret_json :: "system \<Rightarrow> nat \<Rightarrow> le_recovery \<Rightarrow> string option \<times> le_recovery" where
  "le_recovery_secret_json sy n c =
     (if n < 2 \<or> rf_enabled (rv_config c) = 0 \<or> \<not> secret_reveal_allowed c then (None, c)
      else case le_recovery_psk_ensure sy (rv_config c) (rv_files c) of
        (Inl _, f) \<Rightarrow> (None, c\<lparr>rv_files := f\<rparr>)
      | (Inr psk, f) \<Rightarrow>
          (append_text n (''{\"ssid\":'' @ recovery_string (format_ssid sy (rv_config c) f) @
             '',\"psk\":'' @ recovery_string psk @ ''}'') [],
           c\<lparr>rv_files := f\<rparr>))"

section \<open>The books\<close>

text \<open>
  What the log says of the processes and the network: the children that run, as far as the daemon can know, whether
  it signalled and waited for none but these, and whether the interface is still ours.\<close>

fun live :: "process_call list \<Rightarrow> int multiset" where
  "live [] = {#}"
| "live (Spawned argv pid # l) = (if 0 < pid then add_mset pid (live l) else live l)"
| "live (Waited pid r # l) = (if r = 0 then live l - {#pid#} else live l)"
| "live (Signalled pid s # l) = (if s = SIGKILL then live l - {#pid#} else live l)"
| "live (_ # l) = live l"

fun careful :: "process_call list \<Rightarrow> bool" where
  "careful [] = True"
| "careful (Waited pid r # l) = (pid \<in># live l \<and> careful l)"
| "careful (Signalled pid s # l) = (pid \<in># live l \<and> careful l)"
| "careful (Collected pid r # l) = ((case l of Signalled q SIGKILL # _ \<Rightarrow> q = pid | _ \<Rightarrow> False) \<and> careful l)"
| "careful (_ # l) = careful l"

definition is_up :: "string list \<Rightarrow> bool" where
  "is_up argv \<longleftrightarrow> length argv = 5 \<and> argv ! 3 = ''--address''"

definition is_down :: "string list \<Rightarrow> bool" where
  "is_down argv \<longleftrightarrow> length argv = 3 \<and> argv ! 1 = ''--interface''"

fun owed :: "process_call list \<Rightarrow> bool" where
  "owed [] = False"
| "owed (Probed argv r # l) =
     (if is_up argv \<and> 0 \<le> r then True else if is_down argv \<and> r = 0 then False else owed l)"
| "owed (_ # l) = owed l"

definition running :: "le_recovery_process list \<Rightarrow> int multiset" where
  "running ps = mset (map rp_pid (filter rp_active ps))"

definition books :: "le_recovery \<Rightarrow> bool" where
  "books c \<longleftrightarrow> live (rv_log c) = running (rv_children c) \<and> careful (rv_log c) \<and> owed (rv_log c) = rv_net_configured c \<and>
     (rv_net_release_pending c \<longrightarrow> rv_net_configured c \<and> 0 < rv_net_release_attempts c \<and>
        rv_net_release_attempts c < LE_RECOVERY_NET_DOWN_MAX_ATTEMPTS) \<and>
     length (rv_children c) \<le> LE_RECOVERY_CHILD_MAX"

text \<open>What the calls of a step leave alone.\<close>

definition life :: "le_recovery \<Rightarrow> recovery_config \<times> le_recovery_mode \<times> le_recovery_trigger \<times> bool \<times> bool \<times> bool \<times> int \<times> int" where
  "life c = (rv_config c, rv_mode c, rv_trigger c, rv_led_active c, rv_secret_available c, rv_auto_counting c,
     rv_auto_deadline_ms c, rv_last_now_ms c)"

definition network :: "le_recovery \<Rightarrow> bool \<times> bool \<times> nat" where
  "network c = (rv_net_configured c, rv_net_release_pending c, rv_net_release_attempts c)"

lemmas life_eq = life_def prod.inject

lemma running_simps [simp]:
  "running [] = {#}" "running (p # ps) = (if rp_active p then add_mset (rp_pid p) (running ps) else running ps)"
  "running (ps @ qs) = running ps + running qs"
  by (simp_all add: running_def)

lemma logged_fields [simp]:
  "rv_log (logged e c) = e # rv_log c" "rv_children (logged e c) = rv_children c" "life (logged e c) = life c"
  "network (logged e c) = network c" "rv_config (logged e c) = rv_config c" "rv_files (logged e c) = rv_files c"
  "rv_net_configured (logged e c) = rv_net_configured c" "rv_net_release_pending (logged e c) = rv_net_release_pending c"
  "rv_net_release_attempts (logged e c) = rv_net_release_attempts c" "rv_start_deadline_ms (logged e c) = rv_start_deadline_ms c"
  by (simp_all add: logged_def life_def network_def)

lemma set_error_fields [simp]:
  "rv_log (set_error e c) = rv_log c" "rv_children (set_error e c) = rv_children c" "life (set_error e c) = life c"
  "network (set_error e c) = network c" "rv_files (set_error e c) = rv_files c"
  "rv_net_configured (set_error e c) = rv_net_configured c" "rv_net_release_pending (set_error e c) = rv_net_release_pending c"
  "rv_net_release_attempts (set_error e c) = rv_net_release_attempts c" "rv_mode (set_error e c) = rv_mode c"
  "rv_led_active (set_error e c) = rv_led_active c" "rv_secret_available (set_error e c) = rv_secret_available c"
  "rv_config (set_error e c) = rv_config c" "rv_trigger (set_error e c) = rv_trigger c"
  by (simp_all add: set_error_def life_def network_def)

lemma books_log: "books (logged e c) \<longleftrightarrow>
    live (e # rv_log c) = running (rv_children c) \<and> careful (e # rv_log c) \<and> owed (e # rv_log c) = rv_net_configured c \<and>
    (rv_net_release_pending c \<longrightarrow> rv_net_configured c \<and> 0 < rv_net_release_attempts c \<and>
        rv_net_release_attempts c < LE_RECOVERY_NET_DOWN_MAX_ATTEMPTS) \<and>
     length (rv_children c) \<le> LE_RECOVERY_CHILD_MAX"
  by (simp add: books_def)

lemma books_set_error [simp]: "books (set_error e c) = books c"
  by (simp add: books_def)

text \<open>The state after a call that neither touches processes nor the network.\<close>

definition looked_only :: "le_recovery \<Rightarrow> le_recovery \<Rightarrow> bool" where
  "looked_only c c' \<longleftrightarrow> life c' = life c \<and> network c' = network c \<and> rv_children c' = rv_children c \<and>
     rv_files c' = rv_files c \<and> rv_start_deadline_ms c' = rv_start_deadline_ms c \<and>
     (\<exists>es. rv_log c' = es @ rv_log c \<and>
        (\<forall>e\<in>set es. (\<exists>p r. e = Looked p r) \<or> (\<exists>p r. e = Probed [p] r)))"

lemma looked_refl [simp]: "looked_only c c"
  by (simp add: looked_only_def)

lemma looked_trans: "looked_only c c1 \<Longrightarrow> looked_only c1 c2 \<Longrightarrow> looked_only c c2"
proof -
  assume a: "looked_only c c1" "looked_only c1 c2"
  then obtain es fs where "rv_log c2 = fs @ es @ rv_log c"
    "\<forall>e\<in>set (fs @ es). (\<exists>p r. e = Looked p r) \<or> (\<exists>p r. e = Probed [p] r)"
    unfolding looked_only_def by (metis UnE set_append)
  then show ?thesis using a unfolding looked_only_def by (metis append.assoc)
qed

lemma looked_log:
  assumes "\<forall>e\<in>set es. (\<exists>p r. e = Looked p r) \<or> (\<exists>p r. e = Probed [p] r)"
  shows "live (es @ l) = live l \<and> careful (es @ l) = careful l \<and> owed (es @ l) = owed l"
  using assms by (induction es) (auto simp: is_up_def is_down_def)

lemma looked_books: "looked_only c c' \<Longrightarrow> books c \<Longrightarrow> books c'"
  using looked_log unfolding looked_only_def books_def network_def by auto

lemma looked_available: "ask_available bk p c = (r, c') \<Longrightarrow> looked_only c c'"
  by (auto simp: ask_available_def Let_def looked_only_def)

lemma looked_probe: "ask_probe bk [p] c = (r, c') \<Longrightarrow> looked_only c c'"
  by (auto simp: ask_probe_def Let_def looked_only_def)

lemma looked_command: "probe_command bk p c = (r, c') \<Longrightarrow> looked_only c c'"
  by (auto simp: probe_command_def split: if_splits prod.splits bool.splits dest!: looked_available looked_probe intro: looked_trans)

lemma looked_reason [simp]:
  "looked_only c (c1\<lparr>rv_unavailable_reason := r\<rparr>) = looked_only c c1" "looked_only c (c1\<lparr>rv_available := b\<rparr>) = looked_only c c1"
  "looked_only (c\<lparr>rv_available := b\<rparr>) c1 = looked_only c c1"
  by (simp_all add: looked_only_def life_def network_def)

lemma looked_capabilities: "le_recovery_probe_capabilities bk c = (r, reason, c') \<Longrightarrow> looked_only c c'"
proof -
  assume p: "le_recovery_probe_capabilities bk c = (r, reason, c')"
  let ?c0 = "c\<lparr>rv_available := False\<rparr>" and ?cfg = "rv_config c"
  obtain a1 c1 where c1: "ask_available bk (rf_hostapd_bin ?cfg) ?c0 = (a1, c1)" by fastforce
  obtain a2 c2 where c2: "(if rf_dhcp_bin ?cfg \<noteq> [] then ask_available bk (rf_dhcp_bin ?cfg) c1 else (False, c1)) = (a2, c2)" by fastforce
  obtain a3 c3 where c3: "(if \<not> a2 \<and> rf_dns_bin ?cfg \<noteq> [] then ask_available bk (rf_dns_bin ?cfg) c2 else (a2, c2)) = (a3, c3)" by fastforce
  obtain a4 c4 where c4: "probe_command bk (rf_ap_probe_cmd ?cfg) c3 = (a4, c4)" by fastforce
  have l1: "looked_only c c1" using looked_available [OF c1] by simp
  have l2: "looked_only c1 c2" using c2 by (auto split: if_splits dest: looked_available)
  have l3: "looked_only c2 c3" using c3 by (auto split: if_splits dest: looked_available)
  note l4 = looked_command [OF c4]
  have "c' \<in> (\<lambda>c. c\<lparr>rv_unavailable_reason := reason\<rparr>) ` {c1, c3, c4} \<union> {c4\<lparr>rv_available := True\<rparr>}"
    using p unfolding le_recovery_probe_capabilities_def Let_def c1
    by (cases a1; cases a3; cases "rf_ap_probe_cmd ?cfg = []"; cases "a4 < 0") (simp_all add: c2 c3 c4)
  then show ?thesis using looked_trans [OF l1 l2] looked_trans [OF looked_trans [OF l1 l2] l3] l1
      looked_trans [OF looked_trans [OF looked_trans [OF l1 l2] l3] l4] by auto
qed

text \<open>The helper: the log gains one run of it, or none and the result is a failure.\<close>

lemma run_net_helper_result:
  assumes "run_net_helper bk path up c = (r, c')" and "books c"
  shows "life c' = life c \<and> network c' = network c \<and> rv_children c' = rv_children c \<and> rv_files c' = rv_files c \<and>
    live (rv_log c') = live (rv_log c) \<and> careful (rv_log c') \<and>
    owed (rv_log c') = (if up then r \<ge> 0 \<or> rv_net_configured c else r \<noteq> 0 \<and> rv_net_configured c)"
proof -
  let ?argv = "[path, ''--interface'', rf_interface (rv_config c)] @
    (if up then [''--address'', copy_string 64 (rf_ap_address (rv_config c) @ ''/24'')] else [])"
  have argv: "is_up ?argv = up" "is_down ?argv = (\<not> up)" by (auto simp: is_up_def is_down_def numeral_eq_Suc)
  obtain a c1 where c1: "ask_available bk path c = (a, c1)" by fastforce
  note l1 = looked_available [OF c1]
  have b1: "books c1" using looked_books [OF l1 assms(2)] .
  consider "c' = c" "r = - 1" | "c' = c1" "r = - 1" | "c' = logged (Probed ?argv r) c1"
  proof (cases "path = []")
    case False
    then show ?thesis using assms(1) c1 l1 that
      by (cases a) (auto simp: run_net_helper_def ask_probe_def Let_def looked_only_def life_def)
  qed (use assms(1) that in \<open>auto simp: run_net_helper_def\<close>)
  moreover have base: "life d = life c \<and> network d = network c \<and> rv_children d = rv_children c \<and> rv_files d = rv_files c \<and>
      live (rv_log d) = live (rv_log c) \<and> careful (rv_log d) \<and> owed (rv_log d) = rv_net_configured c" if "d = c1 \<or> d = c" for d
  proof -
    have k: "life c1 = life c" "network c1 = network c" "rv_children c1 = rv_children c" "rv_files c1 = rv_files c"
      using l1 by (simp_all add: looked_only_def)
    then have "rv_net_configured c1 = rv_net_configured c" by (simp add: network_def)
    then show ?thesis using k b1 assms(2) that by (elim disjE) (simp_all add: books_def)
  qed
  ultimately show ?thesis
  proof cases
    case 3
    have "life c' = life c \<and> network c' = network c \<and> rv_children c' = rv_children c \<and> rv_files c' = rv_files c"
      using base [of c1] 3 by simp
    moreover have "live (rv_log c') = live (rv_log c) \<and> careful (rv_log c')" using base [of c1] 3 by simp
    moreover have "owed (rv_log c') = (if up then r \<ge> 0 \<or> rv_net_configured c else r \<noteq> 0 \<and> rv_net_configured c)"
      using base [of c1] argv unfolding 3 by (cases up) simp_all
    ultimately show ?thesis by blast
  next
    case 1 then show ?thesis using base [of c'] by simp
  next
    case 2 then show ?thesis using base [of c'] by simp
  qed
qed

lemma release_result:
  assumes "books c" and "c' = release_net_ownership bk now_ms c"
  shows "books c' \<and> life c' = life c \<and> rv_children c' = rv_children c \<and> rv_files c' = rv_files c"
proof (cases "rv_net_configured c")
  case True
  let ?c1 = "if \<not> rv_net_release_pending c then c\<lparr>rv_net_release_attempts := 0\<rparr> else c"
  obtain r c2 where h: "run_net_helper bk (rf_net_down_cmd (rv_config ?c1)) False ?c1 = (r, c2)" by fastforce
  have b1: "books ?c1" "life ?c1 = life c" "rv_children ?c1 = rv_children c" "rv_net_configured ?c1"
    "rv_net_release_pending ?c1 = rv_net_release_pending c" "rv_files ?c1 = rv_files c"
    using assms(1) True by (auto simp: books_def life_def)
  note hr = run_net_helper_result [OF h b1(1)]
  have n: "rv_net_configured c2" "rv_net_release_pending c2 = rv_net_release_pending c"
    "rv_net_release_attempts c2 = rv_net_release_attempts ?c1"
    using hr b1 by (auto simp: network_def)
  show ?thesis
  proof (cases "r = 0")
    case r: True
    then have "c' = c2\<lparr>rv_net_configured := False, rv_net_release_pending := False, rv_net_release_attempts := 0, rv_net_error := []\<rparr>"
      using assms(2) True h by (simp add: release_net_ownership_def Let_def)
    then show ?thesis using hr b1 r by (auto simp: books_def life_def)
  next
    case r: False
    let ?n = "rv_net_release_attempts c2 + 1"
    have att: "rv_net_release_attempts c2 < LE_RECOVERY_NET_DOWN_MAX_ATTEMPTS"
      using n b1(1) True by (auto simp: books_def LE_RECOVERY_NET_DOWN_MAX_ATTEMPTS_def)
    let ?c3 = "c2\<lparr>rv_net_release_attempts := ?n, rv_net_release_pending := True, rv_net_error := ''net-down-failed''\<rparr>"
    have "c' = (if LE_RECOVERY_NET_DOWN_MAX_ATTEMPTS \<le> ?n
        then ?c3\<lparr>rv_net_release_pending := False, rv_net_release_next_ms := 0, rv_net_error := ''net-down-gave-up''\<rparr>
        else ?c3\<lparr>rv_net_release_next_ms := now_ms + LE_RECOVERY_NET_DOWN_RETRY_MS\<rparr>)"
      using assms(2) True h r by (simp add: release_net_ownership_def Let_def)
    then show ?thesis using hr b1 r n att by (auto simp: books_def life_def)
  qed
qed (use assms in \<open>simp add: release_net_ownership_def\<close>)

lemma spawn_child_result:
  assumes "spawn_child bk name argv c = (ok, c')" and "books c"
  shows "books c' \<and> life c' = life c \<and> network c' = network c \<and> rv_files c' = rv_files c \<and>
    (ok \<longrightarrow> (\<exists>p. rv_children c' = rv_children c @ [p] \<and> rp_active p)) \<and> (\<not> ok \<longrightarrow> rv_children c' = rv_children c)"
proof (cases "LE_RECOVERY_CHILD_MAX \<le> length (rv_children c)")
  case False
  obtain pid err where sp: "bk_spawn bk (rv_log c) argv = (pid, err)" by fastforce
  show ?thesis
  proof (cases "pid \<le> 0")
    case True
    then have "ok = False" "c' = set_error (if err \<noteq> [] then err else ''spawn-failed'') (logged (Spawned argv pid) c)"
      using assms(1) False sp by (simp_all add: spawn_child_def Let_def)
    then show ?thesis using assms(2) True by (simp add: books_def)
  next
    case p: False
    let ?c1 = "logged (Spawned argv pid) c"
    let ?t = "bk_identity bk (rv_log ?c1) pid"
    let ?c2 = "logged (Identified pid ?t) ?c1"
    let ?p = "\<lparr>rp_pid = pid, rp_start_token = ?t, rp_active = True, rp_name = copy_string 16 name\<rparr>"
    show ?thesis
    proof (cases "?t = 0")
      case True
      then have "ok = False" "c' = set_error ''child-identity'' (kill_process bk pid ?c2)"
        using assms(1) False sp p by (simp_all add: spawn_child_def Let_def)
      then show ?thesis using assms(2) p by (simp add: books_def kill_process_def Let_def)
    next
      case t: False
      then have "ok = True" "c' = ?c2\<lparr>rv_children := rv_children ?c2 @ [?p]\<rparr>"
        using assms(1) False sp p by (simp_all add: spawn_child_def Let_def)
      then show ?thesis using assms(2) p False by (simp add: books_def life_def network_def logged_def)
    qed
  qed
qed (use assms in \<open>auto simp: spawn_child_def\<close>)

lemma spawn_hostapd_result:
  "spawn_hostapd bk c = (ok, c') \<Longrightarrow> books c \<Longrightarrow> books c' \<and> life c' = life c \<and> network c' = network c \<and> rv_files c' = rv_files c"
  using spawn_child_result by (auto simp: spawn_hostapd_def Let_def)

lemma spawn_services_result:
  "spawn_services bk c = (ok, c') \<Longrightarrow> books c \<Longrightarrow> books c' \<and> life c' = life c \<and> network c' = network c \<and> rv_files c' = rv_files c"
  using spawn_child_result by (auto simp: spawn_services_def Let_def split: if_splits option.splits)

text \<open>The children, one look at each.\<close>

lemma wait_books:
  assumes "ask_wait bk (rp_pid p) c = (r, c1)" and "live (rv_log c) = add_mset (rp_pid p) R" and "careful (rv_log c)"
  shows "live (rv_log c1) = (if r = 0 then R else add_mset (rp_pid p) R) \<and> careful (rv_log c1) \<and> life c1 = life c \<and>
    network c1 = network c \<and> rv_children c1 = rv_children c \<and> rv_files c1 = rv_files c \<and> owed (rv_log c1) = owed (rv_log c) \<and>
    rv_start_deadline_ms c1 = rv_start_deadline_ms c"
  using assms by (auto simp: ask_wait_def Let_def)

text \<open>A step that keeps what the daemon knows, and where the children it runs are those given.\<close>

definition carried :: "le_recovery \<Rightarrow> int multiset \<Rightarrow> le_recovery \<Rightarrow> bool" where
  "carried c m c' \<longleftrightarrow> life c' = life c \<and> network c' = network c \<and> rv_children c' = rv_children c \<and> rv_files c' = rv_files c \<and>
     owed (rv_log c') = owed (rv_log c) \<and> careful (rv_log c') \<and> live (rv_log c') = m \<and>
     rv_start_deadline_ms c' = rv_start_deadline_ms c"

lemma carried_trans: "carried c m c1 \<Longrightarrow> carried c1 n c2 \<Longrightarrow> carried c n c2"
  by (simp add: carried_def)

lemma children_alive_from_result:
  assumes "children_alive_from bk i qs c = (r, c')" and "rv_children c = ps @ qs" and "i = length ps" and "books c"
  shows "books c' \<and> life c' = life c \<and> network c' = network c \<and> rv_files c' = rv_files c \<and>
    rv_start_deadline_ms c' = rv_start_deadline_ms c"
  using assms
proof (induction qs arbitrary: i ps c)
  case (Cons q qs)
  show ?case
  proof (cases "rp_active q")
    case False
    then show ?thesis using Cons.IH [of "i + 1" c "ps @ [q]"] Cons.prems by simp
  next
    case True
    obtain s c1 where w: "ask_wait bk (rp_pid q) c = (s, c1)" by fastforce
    have "live (rv_log c) = add_mset (rp_pid q) (running ps + running qs)"
      using Cons.prems(2,4) True by (simp add: books_def)
    note wb = wait_books [OF w this] 
    have wb: "live (rv_log c1) = (if s = 0 then running ps + running qs else add_mset (rp_pid q) (running ps + running qs))"
      "careful (rv_log c1)" "life c1 = life c" "network c1 = network c" "rv_children c1 = ps @ q # qs" "rv_files c1 = rv_files c"
      "owed (rv_log c1) = owed (rv_log c)" "rv_start_deadline_ms c1 = rv_start_deadline_ms c"
      using wb Cons.prems by (simp_all add: books_def)
    have b1: "s \<noteq> 0 \<Longrightarrow> books c1" using wb Cons.prems(2,4) True by (simp add: books_def network_def)
    show ?thesis
    proof (cases "s = 0")
      case z: True
      then have "c' = c1\<lparr>rv_children := ps @ q\<lparr>rp_active := False\<rparr> # qs\<rparr>"
        using Cons.prems(1,3) True w wb(5) by simp
      then show ?thesis using wb z Cons.prems(2,4) by (simp add: books_def network_def life_def)
    next
      case nz: False
      show ?thesis
      proof (cases "s < 0")
        case True
        then show ?thesis using Cons.prems(1) \<open>rp_active q\<close> w nz b1 wb by simp
      next
        case False
        then have "children_alive_from bk (i + 1) qs c1 = (r, c')" using Cons.prems(1) True w nz by simp
        then show ?thesis using Cons.IH [of "i + 1" c1 "ps @ [q]"] Cons.prems(3) wb b1 nz by simp
      qed
    qed
  qed
qed simp

lemma children_alive_result:
  "children_alive bk c = (r, c') \<Longrightarrow> books c \<Longrightarrow> books c' \<and> life c' = life c \<and> network c' = network c \<and> rv_files c' = rv_files c \<and>
     rv_start_deadline_ms c' = rv_start_deadline_ms c"
  unfolding children_alive_def by (rule children_alive_from_result [where ps = "[]"]) simp_all

section \<open>Teardown leaves none behind\<close>

lemma terminate_result:
  "live (rv_log c) = running ps + R \<Longrightarrow> careful (rv_log c) \<Longrightarrow> carried c (running ps + R) (terminate_all ps c)"
proof (induction ps arbitrary: c R)
  case (Cons p ps)
  let ?c1 = "if rp_active p then logged (Signalled (rp_pid p) SIGTERM) c else c"
  let ?R = "if rp_active p then add_mset (rp_pid p) R else R"
  have "carried c (running ps + ?R) ?c1" using Cons.prems by (auto simp: carried_def)
  moreover have "carried ?c1 (running ps + ?R) (terminate_all ps ?c1)"
    using calculation by (intro Cons.IH) (simp_all add: carried_def)
  ultimately have "carried c (running ps + ?R) (terminate_all ps ?c1)" by (rule carried_trans)
  moreover have "running ps + ?R = running (p # ps) + R" by simp
  ultimately show ?case by (simp only: terminate_all.simps)
qed (simp add: carried_def)

lemma reap_round_result:
  "reap_round bk ps c = (gone, qs, c') \<Longrightarrow> live (rv_log c) = running ps + R \<Longrightarrow> careful (rv_log c) \<Longrightarrow>
   carried c (running qs + R) c'"
proof (induction ps arbitrary: c R gone qs c')
  case (Cons p ps)
  show ?case
  proof (cases "rp_active p")
    case False
    obtain g rs c1 where r: "reap_round bk ps c = (g, rs, c1)" by (rule prod_cases3)
    have "carried c (running rs + R) c1" using Cons.IH [OF r] Cons.prems False by simp
    then show ?thesis using Cons.prems(1) r False by auto
  next
    case True
    obtain s c1 where w: "ask_wait bk (rp_pid p) c = (s, c1)" by fastforce
    have "live (rv_log c) = add_mset (rp_pid p) (running ps + R)" using Cons.prems(2) True by simp
    note wb = wait_books [OF w this Cons.prems(3)]
    let ?R = "if s = 0 then R else add_mset (rp_pid p) R"
    have c1: "carried c (running ps + ?R) c1" using wb by (simp add: carried_def)
    obtain g rs c2 where r: "reap_round bk ps c1 = (g, rs, c2)" by (rule prod_cases3)
    have "carried c1 (running rs + ?R) c2" using Cons.IH [OF r, of ?R] c1 by (simp add: carried_def)
    then have "carried c (running rs + ?R) c2" using carried_trans [OF c1] by blast
    then show ?thesis using Cons.prems(1) w r True by (cases "s = 0") auto
  qed
qed (simp add: carried_def)

lemma reap_until_result:
  "reap_until bk now_ms deadline ps c = (later, qs, c') \<Longrightarrow> live (rv_log c) = running ps + R \<Longrightarrow> careful (rv_log c) \<Longrightarrow>
   carried c (running qs + R) c'"
proof (induction bk now_ms deadline ps c arbitrary: later qs c' rule: reap_until.induct)
  case (1 bk now_ms deadline ps c)
  obtain g rs c1 where r: "reap_round bk ps c = (g, rs, c1)" by (rule prod_cases3)
  have c1: "carried c (running rs + R) c1" using reap_round_result [OF r "1.prems"(2,3)] .
  show ?case
  proof (cases "g \<or> deadline \<le> now_ms")
    case True
    then show ?thesis using "1.prems"(1) r c1 by (subst (asm) reap_until.simps) auto
  next
    case False
    then have "reap_until bk (now_ms + 20) deadline rs c1 = (later, qs, c')"
      using "1.prems"(1) r by (subst (asm) reap_until.simps) simp
    then have "carried c1 (running qs + R) c'"
      using "1.IH" [OF r [symmetric] refl False] c1 by (simp add: carried_def)
    then show ?thesis using carried_trans [OF c1] by blast
  qed
qed

lemma kill_rest_result:
  "live (rv_log c) = running ps + R \<Longrightarrow> careful (rv_log c) \<Longrightarrow> carried c R (kill_rest bk ps c)"
proof (induction ps arbitrary: c)
  case (Cons p ps)
  let ?c1 = "if \<not> rp_active p then c else kill_process bk (rp_pid p) c"
  have c1: "carried c (running ps + R) ?c1" using Cons.prems by (auto simp: carried_def kill_process_def Let_def)
  then have "carried ?c1 R (kill_rest bk ps ?c1)" by (intro Cons.IH) (simp_all add: carried_def)
  then show ?case using carried_trans [OF c1] by simp
qed (simp add: carried_def)

lemma teardown_result:
  assumes "books c"
  shows "books (teardown_children bk now_ms c) \<and> life (teardown_children bk now_ms c) = life c \<and>
    rv_children (teardown_children bk now_ms c) = [] \<and> rv_files (teardown_children bk now_ms c) = rv_files c"
proof -
  let ?c1 = "terminate_all (rv_children c) c"
  have l: "live (rv_log c) = running (rv_children c) + {#}" "careful (rv_log c)" using assms by (simp_all add: books_def)
  have c1: "carried c (running (rv_children c) + {#}) ?c1" by (rule terminate_result [OF l])
  obtain later ps c2 where u: "reap_until bk now_ms (now_ms + rf_stop_timeout_ms (rv_config c)) (rv_children c) ?c1 = (later, ps, c2)"
    by (rule prod_cases3)
  have "carried ?c1 (running ps + {#}) c2" using reap_until_result [OF u] c1 by (simp add: carried_def)
  then have c2: "carried c (running ps + {#}) c2" by (rule carried_trans [OF c1])
  then have "carried c2 {#} (kill_rest bk ps c2)" by (intro kill_rest_result) (simp_all add: carried_def)
  then have c3: "carried c {#} (kill_rest bk ps c2)" by (rule carried_trans [OF c2])
  let ?c3 = "(kill_rest bk ps c2)\<lparr>rv_children := []\<rparr>"
  have b3: "books ?c3" using c3 assms by (simp add: carried_def books_def network_def)
  have l3: "life ?c3 = life c" "rv_files ?c3 = rv_files c" using c3 by (simp_all add: carried_def life_def)
  have "teardown_children bk now_ms c = release_net_ownership bk later ?c3"
    using u by (simp add: teardown_children_def Let_def)
  then show ?thesis using release_result [OF b3, of _ bk later] l3 by simp
qed

end
