(* ===== verification/Recovery_Life.thy ===== *)
theory Recovery_Life
  imports Recovery_Access
begin

text \<open>
  The recovery access point as a machine (adapter/network_recovery.c): its operations keep the books of
  \<open>Recovery_Access\<close>, run children only while it serves, show the light and the secret only while it is up, and
  leave the interface configured under a serving access point.  Then what the fallback, the retries and the
  watching of the start do.
\<close>

section \<open>The life in order\<close>

lemma books_fields [simp]:
  "books (c\<lparr>rv_mode := x0\<rparr>) = books c" "books (c\<lparr>rv_trigger := x1\<rparr>) = books c"
  "books (c\<lparr>rv_led_active := x2\<rparr>) = books c" "books (c\<lparr>rv_secret_available := x3\<rparr>) = books c"
  "books (c\<lparr>rv_auto_counting := x4\<rparr>) = books c" "books (c\<lparr>rv_last_activity_ms := x5\<rparr>) = books c"
  "books (c\<lparr>rv_files := x6\<rparr>) = books c" "books (c\<lparr>rv_ssid := x7\<rparr>) = books c"
  "books (c\<lparr>rv_config := x8\<rparr>) = books c" "books (c\<lparr>rv_last_now_ms := x9\<rparr>) = books c"
  "books (c\<lparr>rv_armed_at_ms := x10\<rparr>) = books c" "books (c\<lparr>rv_start_deadline_ms := x11\<rparr>) = books c"
  "books (c\<lparr>rv_active_since_ms := x12\<rparr>) = books c" "books (c\<lparr>rv_auto_deadline_ms := x13\<rparr>) = books c"
  "books (c\<lparr>rv_auto_started_ms := x14\<rparr>) = books c" "books (c\<lparr>rv_last_error := x15\<rparr>) = books c"
  "books (c\<lparr>rv_unavailable_reason := x16\<rparr>) = books c" "books (c\<lparr>rv_rate_window_start_ms := x17\<rparr>) = books c"
  "books (c\<lparr>rv_rate_count := x18\<rparr>) = books c"
  by (simp_all add: books_def)

text \<open>Between two lives nothing runs and nothing is shown.\<close>

definition down :: "le_recovery \<Rightarrow> bool" where
  "down c \<longleftrightarrow> books c \<and> rv_children c = [] \<and> \<not> rv_led_active c \<and> \<not> rv_secret_available c"

definition serving :: "le_recovery_mode \<Rightarrow> bool" where
  "serving m \<longleftrightarrow> m = STARTING \<or> m = ACTIVE"

definition access_ok :: "le_recovery \<Rightarrow> bool" where
  "access_ok c \<longleftrightarrow> books c \<and> rv_mode c \<noteq> STOPPING \<and> (\<not> serving (rv_mode c) \<longrightarrow> rv_children c = []) \<and>
     (serving (rv_mode c) \<longrightarrow> rv_net_configured c \<and> \<not> rv_net_release_pending c) \<and>
     rv_led_active c = (rv_mode c = ACTIVE) \<and> rv_secret_available c = (rv_mode c = ACTIVE)"

lemma access_down: "access_ok c \<Longrightarrow> \<not> serving (rv_mode c) \<Longrightarrow> down c"
  by (auto simp: access_ok_def down_def serving_def)

lemma down_access: "down c \<Longrightarrow> \<not> serving (rv_mode c) \<Longrightarrow> rv_mode c \<noteq> STOPPING \<Longrightarrow> access_ok c"
  by (auto simp: access_ok_def down_def serving_def)

lemma teardown_down:
  assumes "books c"
  shows "books (teardown_children bk now_ms c)" "rv_children (teardown_children bk now_ms c) = []"
    "rv_mode (teardown_children bk now_ms c) = rv_mode c" "rv_led_active (teardown_children bk now_ms c) = rv_led_active c"
    "rv_secret_available (teardown_children bk now_ms c) = rv_secret_available c"
    "rv_config (teardown_children bk now_ms c) = rv_config c" "rv_trigger (teardown_children bk now_ms c) = rv_trigger c"
    "rv_files (teardown_children bk now_ms c) = rv_files c"
  using teardown_result [OF assms, of bk now_ms] by (simp_all add: life_def)

lemma looked_down: "looked_only c c' \<Longrightarrow> down c \<Longrightarrow> down c' \<and> rv_mode c' = rv_mode c \<and> rv_config c' = rv_config c"
  using looked_books [of c c'] by (simp add: down_def looked_only_def life_def)

text \<open>A step that only writes files or names the network.\<close>

definition wrote_only :: "le_recovery \<Rightarrow> le_recovery \<Rightarrow> bool" where
  "wrote_only c c' \<longleftrightarrow> books c' = books c \<and> down c' = down c \<and> life c' = life c \<and> network c' = network c \<and> rv_log c' = rv_log c"

lemma wrote_trans: "wrote_only c c1 \<Longrightarrow> wrote_only c1 c2 \<Longrightarrow> wrote_only c c2"
  by (simp add: wrote_only_def)

lemma wrote_simps [simp]:
  "wrote_only c c" "wrote_only c (c1\<lparr>rv_files := f\<rparr>) = wrote_only c c1" "wrote_only c (build_ssid bk c1) = wrote_only c c1"
  "wrote_only (c\<lparr>rv_files := f\<rparr>) c1 = wrote_only c c1"
  by (simp_all add: wrote_only_def down_def life_def network_def build_ssid_def)

lemma wrote_file: "write_config_file sy path content c = (r, c') \<Longrightarrow> wrote_only c c'"
  by (auto simp: write_config_file_def split: prod.splits)

lemma configs_result:
  assumes "write_recovery_configs bk c = (r, c')"
  shows "wrote_only c c'"
proof -
  let ?sy = "bk_system bk" and ?cfg = "rv_config c"
  obtain k f where k: "le_recovery_psk_ensure ?sy ?cfg (rv_files c) = (k, f)" by fastforce
  let ?c1 = "build_ssid bk (c\<lparr>rv_files := f\<rparr>)"
  show ?thesis
  proof (cases k)
    case (Inl reason)
    then show ?thesis using assms k by (auto simp: write_recovery_configs_def Let_def)
  next
    case (Inr psk)
    obtain r2 c2 where w2: "write_config_file ?sy (rf_hostapd_conf ?cfg) (hostapd_content ?cfg (rv_ssid ?c1) psk) ?c1 = (r2, c2)" by fastforce
    obtain r3 c3 where w3: "write_config_file ?sy (rf_dhcp_conf ?cfg) (dnsmasq_content ?cfg) c2 = (r3, c3)" by fastforce
    have l: "wrote_only c ?c1" "wrote_only c c2" "wrote_only c c3"
      using wrote_file [OF w2] wrote_file [OF w3] wrote_trans [of c ?c1 c2] wrote_trans [of c c2 c3] by simp_all
    have "c' \<in> {?c1, c2, c3}"
      using assms k Inr w2 w3 by (auto simp: write_recovery_configs_def Let_def split: if_splits option.splits)
    then show ?thesis using l by auto
  qed
qed

lemma unavailable_ok: "down c \<Longrightarrow> access_ok (give_up reason c)"
  by (rule down_access) (auto simp: down_def give_up_def serving_def)

lemma torn_ok:
  "books c \<Longrightarrow> \<not> rv_led_active c \<Longrightarrow> \<not> rv_secret_available c \<Longrightarrow> m \<notin> {STARTING, ACTIVE, STOPPING} \<Longrightarrow>
   access_ok ((teardown_children bk now_ms c)\<lparr>rv_mode := m\<rparr>)"
  by (rule down_access) (auto simp: down_def serving_def teardown_down)

lemma life_lights: "life c' = life c \<Longrightarrow> rv_led_active c' = rv_led_active c \<and> rv_secret_available c' = rv_secret_available c \<and>
    rv_mode c' = rv_mode c \<and> rv_config c' = rv_config c"
  by (simp add: life_def)

lemma start_services_ok:
  assumes "down c"
  shows "access_ok (start_services bk now_ms c) \<and> rv_mode (start_services bk now_ms c) \<in> {STARTING, UNAVAILABLE}"
proof -
  obtain a r1 c1 where p: "le_recovery_probe_capabilities bk c = (a, r1, c1)" by (rule prod_cases3)
  have d1: "down c1" using looked_down [OF looked_capabilities [OF p] assms] by simp
  show ?thesis
  proof (cases a)
    case False
    then have "start_services bk now_ms c = give_up r1 c1" using p by (simp add: start_services_def)
    then show ?thesis using unavailable_ok [OF d1] by (simp add: give_up_def)
  next
    case True
    obtain r2 c2 where w: "write_recovery_configs bk c1 = (r2, c2)" by fastforce
    have d2: "down c2" using configs_result [OF w] d1 by (simp add: wrote_only_def)
    show ?thesis
    proof (cases r2)
      case (Some reason)
      then have "start_services bk now_ms c = give_up reason c2" using p w True by (simp add: start_services_def)
      then show ?thesis using unavailable_ok [OF d2] by (simp add: give_up_def)
    next
      case None
      define c3 where "c3 = teardown_children bk now_ms c2"
      have d3: "down c3" using teardown_down [of c2] d2 by (simp add: down_def c3_def)
      obtain r c4 where h: "run_net_helper bk (rf_net_up_cmd (rv_config c3)) True c3 = (r, c4)" by fastforce
      have b3: "books c3" using d3 by (simp add: down_def)
      note hr = run_net_helper_result [OF h b3]
      show ?thesis
      proof (cases "rf_net_up_cmd (rv_config c3) = []")
        case True
        then have "start_services bk now_ms c = give_up ''ap-net-unconfigured'' c3"
          using p w \<open>a\<close> None by (simp add: start_services_def Let_def c3_def)
        then show ?thesis using unavailable_ok [OF d3] by (simp add: give_up_def)
      next
        case up: False
        show ?thesis
        proof (cases "r < 0")
          case True
          have "down c4" using hr d3 True by (auto simp: down_def books_def network_def life_def)
          moreover have "start_services bk now_ms c = give_up ''ap-net-up-failed'' c4"
            using p w \<open>a\<close> None up h True by (simp add: start_services_def Let_def c3_def)
          ultimately show ?thesis using unavailable_ok by (simp add: give_up_def)
        next
          case r: False
          let ?c5 = "c4\<lparr>rv_net_configured := True, rv_net_release_pending := False, rv_net_release_attempts := 0,
              rv_net_release_next_ms := 0, rv_net_error := []\<rparr>"
          have d5: "books ?c5" "life ?c5 = life c3" using hr d3 r by (auto simp: down_def books_def network_def life_def)
          then have l5: "\<not> rv_led_active ?c5" "\<not> rv_secret_available ?c5" using d3 by (simp_all add: down_def life_def)
          obtain ok6 c6 where s6: "spawn_hostapd bk ?c5 = (ok6, c6)" by fastforce
          note r6 = spawn_hostapd_result [OF s6 d5(1)]
          obtain ok7 c7 where s7: "spawn_services bk c6 = (ok7, c7)" by fastforce
          note r7 = spawn_services_result [OF s7 r6 [THEN conjunct1]]
          have l6: "\<not> rv_led_active c6" "\<not> rv_secret_available c6" using r6 l5 by (simp_all add: life_def)
          have l7: "\<not> rv_led_active c7" "\<not> rv_secret_available c7" using r7 l6 by (simp_all add: life_def)
          have n7: "rv_net_configured c7" "\<not> rv_net_release_pending c7" using r6 r7 by (simp_all add: network_def)
          have eq: "start_services bk now_ms c =
              (if \<not> ok6 then (teardown_children bk now_ms c6)\<lparr>rv_mode := UNAVAILABLE\<rparr>
               else if \<not> ok7 then (teardown_children bk now_ms c7)\<lparr>rv_mode := UNAVAILABLE\<rparr>
               else c7\<lparr>rv_mode := STARTING, rv_start_deadline_ms := now_ms + rf_start_timeout_ms (rv_config c7)\<rparr>)"
            using p w \<open>a\<close> None up h r s6 s7 by (cases ok6; cases ok7) (simp_all add: start_services_def Let_def c3_def)
          have "access_ok (c7\<lparr>rv_mode := STARTING, rv_start_deadline_ms := now_ms + rf_start_timeout_ms (rv_config c7)\<rparr>)"
            using r7 l7 n7 by (simp add: access_ok_def serving_def)
          then show ?thesis using torn_ok [OF r6 [THEN conjunct1] l6] torn_ok [OF r7 [THEN conjunct1] l7] by (simp add: eq)
        qed
      qed
    qed
  qed
qed

lemma arm_result:
  assumes "access_ok c" and "le_recovery_arm sy trigger now_ms c = (ok, c')"
  shows "access_ok c' \<and> (ok \<longrightarrow> rv_mode c' = ARMED) \<and> rv_log c' = rv_log c"
proof (cases "serving (rv_mode c) \<or> rf_enabled (rv_config c) = 0")
  case True
  then have "c' = c \<or> c' = set_error ''recovery-disabled'' c" "\<not> ok"
    using assms(2) by (auto simp: le_recovery_arm_def serving_def split: if_splits)
  then show ?thesis using assms(1) by (auto simp: access_ok_def)
next
  case False
  let ?c1 = "c\<lparr>rv_trigger := trigger, rv_mode := ARMED, rv_armed_at_ms := now_ms, rv_last_activity_ms := now_ms,
      rv_last_now_ms := now_ms, rv_last_error := [], rv_unavailable_reason := []\<rparr>"
  have d: "down ?c1" using access_down [OF assms(1)] False by (simp add: down_def)
  obtain k f where k: "le_recovery_psk_ensure sy (rv_config ?c1) (rv_files ?c1) = (k, f)" by fastforce
  have nc: "rv_mode c \<noteq> ACTIVE" "rv_mode c \<noteq> STARTING" "rf_enabled (rv_config c) \<noteq> 0" using False by (auto simp: serving_def)
  show ?thesis
  proof (cases k)
    case (Inl reason)
    then have "c' = (set_error reason (?c1\<lparr>rv_files := f\<rparr>))\<lparr>rv_mode := UNAVAILABLE\<rparr>" "\<not> ok"
      using assms(2) nc k by (simp_all add: le_recovery_arm_def Let_def)
    then show ?thesis using d by (auto simp: down_def serving_def intro!: down_access)
  next
    case (Inr psk)
    then have "c' = ?c1\<lparr>rv_files := f\<rparr>" using assms(2) nc k by (simp add: le_recovery_arm_def Let_def)
    then show ?thesis using d by (auto simp: down_def serving_def intro!: down_access)
  qed
qed

lemma stop_result:
  assumes "books c"
  shows "access_ok (le_recovery_stop bk now_ms reason c) \<and> rv_mode (le_recovery_stop bk now_ms reason c) = STOPPED \<and>
    rv_config (le_recovery_stop bk now_ms reason c) = rv_config c"
proof -
  let ?c1 = "teardown_children bk now_ms (c\<lparr>rv_mode := STOPPING\<rparr>)"
  have b: "books (c\<lparr>rv_mode := STOPPING\<rparr>)" using assms by simp
  have "access_ok (?c1\<lparr>rv_files := f, rv_led_active := False, rv_secret_available := False, rv_auto_counting := False, rv_mode := STOPPED,
      rv_trigger := TRIGGER_NONE, rv_last_activity_ms := now_ms\<rparr>)" for f
    by (rule down_access) (simp_all add: down_def serving_def teardown_down [OF b])
  from this [of "rv_files ?c1"] this [of "snd (unlink_node (bk_system bk) (rf_marker_path (rv_config ?c1)) (rv_files ?c1))"]
  show ?thesis by (auto simp: le_recovery_stop_def Let_def access_ok_def teardown_down [OF b] split: option.split)
qed

lemma verify_result:
  assumes "verify_ready bk c = (ok, c')" and "books c"
  shows "books c' \<and> life c' = life c \<and> network c' = network c"
proof -
  obtain r c1 where a: "children_alive bk c = (r, c1)" by fastforce
  note ar = children_alive_result [OF a assms(2)]
  obtain s c2 where p: "probe_command bk (rf_ready_probe_cmd (rv_config c1)) c1 = (s, c2)" by fastforce
  note pr = looked_command [OF p]
  have "books c2 \<and> life c2 = life c \<and> network c2 = network c"
    using looked_books [OF pr] ar pr by (simp add: looked_only_def)
  moreover have "c' \<in> {set_error (the r) c1, c1, set_error ''not-serving'' c2, c2}"
    using assms(1) a p by (auto simp: verify_ready_def split: option.splits if_splits)
  ultimately show ?thesis using ar by auto
qed

lemma tick_starting_ok:
  assumes "access_ok c" and "rv_mode c = STARTING" and "tick_starting bk now_ms c = (moved, c')"
  shows "access_ok c'"
proof (cases "rv_start_deadline_ms c \<le> now_ms")
  case True
  obtain ok c1 where v: "verify_ready bk c = (ok, c1)" by fastforce
  have b: "books c" using assms(1) by (simp add: access_ok_def)
  note vr = verify_result [OF v b]
  show ?thesis
  proof (cases ok)
    case ok: True
    then have "c' = c1\<lparr>rv_mode := ACTIVE, rv_active_since_ms := now_ms, rv_secret_available := True, rv_led_active := True\<rparr>"
      using assms(3) True v by (simp add: tick_starting_def)
    then show ?thesis using vr assms(1,2) by (simp add: access_ok_def serving_def network_def)
  next
    case False
    then have "c' = teardown_children bk now_ms (c1\<lparr>rv_mode := UNAVAILABLE, rv_led_active := False\<rparr>)"
      using assms(3) True v by (simp add: tick_starting_def)
    moreover have "\<not> rv_secret_available c1" using vr assms(1,2) by (simp add: access_ok_def life_def)
    ultimately show ?thesis using vr by (intro down_access) (simp_all add: down_def teardown_down serving_def)
  qed
next
  case False
  obtain r c1 where a: "children_alive bk c = (r, c1)" by fastforce
  have b: "books c" using assms(1) by (simp add: access_ok_def)
  note ar = children_alive_result [OF a b]
  show ?thesis
  proof (cases r)
    case None
    then have "c' = c1" using assms(3) False a by (simp add: tick_starting_def)
    then show ?thesis using ar assms(1,2) by (simp add: access_ok_def life_def network_def serving_def)
  next
    case (Some reason)
    then have "c' = teardown_children bk now_ms ((set_error reason c1)\<lparr>rv_mode := UNAVAILABLE\<rparr>)"
      using assms(3) False a by (simp add: tick_starting_def)
    moreover have "\<not> rv_secret_available c1" "\<not> rv_led_active c1" using ar assms(1,2) by (simp_all add: access_ok_def life_def)
    ultimately show ?thesis using ar by (intro down_access) (simp_all add: down_def teardown_down serving_def)
  qed
qed

lemma access_fields [simp]:
  "access_ok (c\<lparr>rv_auto_counting := b\<rparr>) = access_ok c" "access_ok (c\<lparr>rv_last_now_ms := n\<rparr>) = access_ok c"
  "access_ok (c\<lparr>rv_auto_started_ms := n\<rparr>) = access_ok c" "access_ok (c\<lparr>rv_auto_deadline_ms := n\<rparr>) = access_ok c"
  "access_ok (c\<lparr>rv_files := f\<rparr>) = access_ok c" "access_ok (c\<lparr>rv_config := cfg\<rparr>) = access_ok c"
  "access_ok (build_ssid bk c) = access_ok c" "rv_mode (build_ssid bk c) = rv_mode c" "down (build_ssid bk c) = down c"
  "access_ok (c\<lparr>rv_rate_window_start_ms := n\<rparr>) = access_ok c" "access_ok (c\<lparr>rv_rate_count := n\<rparr>) = access_ok c"
  by (simp_all add: access_ok_def build_ssid_def down_def)

lemma tick_resting_ok:
  assumes "access_ok c" and "\<not> serving (rv_mode c)" and "tick_resting bk now_ms associated c = (moved, c')"
  shows "access_ok c'"
proof -
  let ?c1 = "count_down now_ms associated c"
  have c1: "access_ok ?c1" using assms(1) by (simp add: count_down_def Let_def)
  obtain ok c2 where a: "le_recovery_arm (bk_system bk) TRIGGER_AUTO now_ms (?c1\<lparr>rv_auto_counting := False\<rparr>) = (ok, c2)" by fastforce
  have "access_ok c2" using arm_result [OF _ a] c1 by simp
  moreover have "c' \<in> {?c1\<lparr>rv_auto_counting := False\<rparr>, c2, ?c1}"
    using assms(3) a unfolding tick_resting_def Let_def by (simp split: if_splits)
  ultimately show ?thesis using c1 by auto
qed

lemma tick_retry_result:
  assumes "access_ok c" and "tick_retry bk now_ms c = (retried, c')"
  shows "access_ok c' \<and> life c' = life c \<and> (serving (rv_mode c) \<longrightarrow> c' = c)"
proof -
  have b: "books c" using assms(1) by (simp add: access_ok_def)
  note rel = release_result [OF b refl, of bk now_ms]
  show ?thesis
  proof (cases "rv_net_release_pending c \<and> rv_net_release_next_ms c \<le> now_ms")
    case True
    then have "c' = release_net_ownership bk now_ms c" "\<not> serving (rv_mode c)"
      using assms by (auto simp: tick_retry_def access_ok_def)
    then show ?thesis using rel assms(1) by (simp add: access_ok_def life_def)
  qed (use assms in \<open>auto simp: tick_retry_def\<close>)
qed

lemma tick_mode_ok:
  assumes "access_ok c" and "tick_mode bk now_ms associated c = (moved, c')"
  shows "access_ok c'"
proof -
  have rest: "access_ok c'" if "tick_mode bk now_ms associated c = tick_resting bk now_ms associated c" "\<not> serving (rv_mode c)"
    using tick_resting_ok [OF assms(1) that(2)] that(1) assms(2) by metis
  show ?thesis
  proof (cases "rv_mode c")
    case ARMED
    have "down c" using access_down [OF assms(1)] ARMED by (simp add: serving_def)
    then have "access_ok (start_services bk now_ms (build_ssid bk c))" using start_services_ok by simp
    then show ?thesis using assms(2) ARMED by (simp add: tick_mode_def)
  next
    case STARTING
    then show ?thesis using tick_starting_ok [OF assms(1)] assms(2) by (simp add: tick_mode_def)
  next
    case CLIENT then show ?thesis using rest by (simp add: tick_mode_def serving_def)
  next
    case UNAVAILABLE then show ?thesis using rest by (simp add: tick_mode_def serving_def)
  next
    case STOPPED then show ?thesis using rest by (simp add: tick_mode_def serving_def)
  qed (use assms in \<open>simp_all add: tick_mode_def\<close>)
qed

lemma tick_ok: "access_ok c \<Longrightarrow> access_ok (snd (le_recovery_tick bk now_ms associated c))"
proof -
  assume ok: "access_ok c"
  let ?c = "c\<lparr>rv_last_now_ms := now_ms\<rparr>"
  have b: "access_ok ?c" using ok by simp
  obtain r c1 where c1: "tick_retry bk now_ms ?c = (r, c1)" by fastforce
  obtain m c2 where c2: "tick_mode bk now_ms associated c1 = (m, c2)" by fastforce
  have "access_ok c2" using tick_mode_ok [OF _ c2] tick_retry_result [OF b c1] by simp
  moreover have "access_ok (le_recovery_stop bk now_ms (Some ''associated'') ?c)" using stop_result b by (simp add: access_ok_def)
  ultimately show ?thesis using c1 c2 by (simp add: le_recovery_tick_def Let_def)
qed

lemma configure_result:
  assumes "access_ok c" and "le_recovery_configure bk e a t c = (r, c')"
  shows "access_ok c'"
proof -
  let ?k = "(rv_config c)\<lparr>rf_enabled := e, rf_auto_enabled := a, rf_auto_timeout_ms := t\<rparr>"
  obtain q ds where p: "le_recovery_config_persist (bk_system bk) ?k (rv_files c) = (q, ds)" by fastforce
  let ?c1 = "c\<lparr>rv_files := last (rv_files c # ds)\<rparr>" and ?c2 = "c\<lparr>rv_files := last (rv_files c # ds), rv_config := ?k\<rparr>"
  have ok: "access_ok ?c1" "access_ok ?c2" "books ?c2" using assms(1) by (simp_all add: access_ok_def)
  have "c' = c \<or> c' = ?c1 \<or> c' = ?c2 \<or> c' = le_recovery_stop bk (rv_last_now_ms c) (Some ''disabled'') ?c2"
  proof (cases "le_recovery_config_validate ?k")
    case None
    then show ?thesis using assms(2) p
      by (cases q; cases "e = 0") (simp_all add: le_recovery_configure_def Let_def del: last.simps)
  qed (use assms(2) in \<open>simp add: le_recovery_configure_def Let_def\<close>)
  then consider "c' = c" | "c' = ?c1" | "c' = ?c2" | "c' = le_recovery_stop bk (rv_last_now_ms c) (Some ''disabled'') ?c2"
    by blast
  then show ?thesis
  proof cases
    case 1 show ?thesis unfolding 1 by (rule assms(1))
  next
    case 2 show ?thesis unfolding 2 by (rule ok(1))
  next
    case 3 show ?thesis unfolding 3 by (rule ok(2))
  next
    case 4 show ?thesis unfolding 4 by (rule stop_result [OF ok(3), THEN conjunct1])
  qed
qed

lemma handover_begin_result:
  assumes "access_ok c" and "le_recovery_handover_begin bk now_ms c = (ok, c')"
  shows "access_ok c' \<and> (ok \<longrightarrow> rv_mode c' = HANDOVER \<and> rv_files c' = rv_files c)"
proof (cases ok)
  case True
  then have c': "c' = (teardown_children bk now_ms c)\<lparr>rv_led_active := False, rv_secret_available := False,
              rv_auto_counting := False, rv_mode := HANDOVER, rv_last_activity_ms := now_ms\<rparr>"
    using assms(2) by (auto simp: le_recovery_handover_begin_def split: if_splits)
  have b: "books c" using assms(1) by (simp add: access_ok_def)
  have "access_ok c'" unfolding c' by (rule down_access) (simp_all add: down_def serving_def teardown_down [OF b])
  then show ?thesis using c' teardown_down [OF b] by simp
qed (use assms in \<open>auto simp: le_recovery_handover_begin_def split: if_splits\<close>)

lemma handover_result_ok:
  assumes "access_ok c"
  shows "access_ok (le_recovery_handover_result bk now_ms associated c)"
proof (cases "rv_mode c = HANDOVER")
  case True
  have "access_ok (c\<lparr>rv_mode := ARMED, rv_armed_at_ms := now_ms, rv_last_activity_ms := now_ms, rv_auto_counting := False,
             rv_last_error := ''association-failed''\<rparr>)"
    using access_down [OF assms] True by (intro down_access) (simp_all add: down_def serving_def)
  then show ?thesis using True stop_result assms by (simp add: le_recovery_handover_result_def access_ok_def)
qed (use assms in \<open>simp add: le_recovery_handover_result_def\<close>)

section \<open>The machine\<close>

datatype recovery_event =
    Arm system le_recovery_trigger int
  | Tick le_recovery_backend int bool
  | Stop le_recovery_backend int "string option"
  | Handover le_recovery_backend int
  | Association le_recovery_backend int bool
  | Configure le_recovery_backend int int int
  | Submission int
  | Prepare system
  | Reveal system nat

fun recovery_apply :: "le_recovery \<Rightarrow> recovery_event \<Rightarrow> le_recovery" where
  "recovery_apply c (Arm sy trigger now_ms) = snd (le_recovery_arm sy trigger now_ms c)"
| "recovery_apply c (Tick bk now_ms associated) = snd (le_recovery_tick bk now_ms associated c)"
| "recovery_apply c (Stop bk now_ms reason) = le_recovery_stop bk now_ms reason c"
| "recovery_apply c (Handover bk now_ms) = snd (le_recovery_handover_begin bk now_ms c)"
| "recovery_apply c (Association bk now_ms associated) = le_recovery_handover_result bk now_ms associated c"
| "recovery_apply c (Configure bk e a t) = snd (le_recovery_configure bk e a t c)"
| "recovery_apply c (Submission now_ms) = snd (le_recovery_rate_limit now_ms c)"
| "recovery_apply c (Prepare sy) = snd (le_recovery_secret_prepare sy c)"
| "recovery_apply c (Reveal sy n) = snd (le_recovery_secret_json sy n c)"

definition recovery_start :: "le_recovery \<Rightarrow> bool" where
  "recovery_start c \<longleftrightarrow> (\<exists>cfg now_ms f. c = le_recovery_init cfg now_ms f)"

interpretation recovery: machine recovery_start recovery_apply access_ok
proof unfold_locales
  show "recovery_start c \<Longrightarrow> access_ok c" for c
    by (auto simp: recovery_start_def le_recovery_init_def access_ok_def books_def serving_def LE_RECOVERY_CHILD_MAX_def)
  show "access_ok c \<Longrightarrow> access_ok (recovery_apply c e)" for c e
  proof (cases e)
    case (Arm sy trigger now_ms)
    moreover assume "access_ok c"
    ultimately show ?thesis using arm_result [of c sy trigger now_ms] by (metis prod.collapse recovery_apply.simps(1))
  next
    case (Tick bk now_ms associated)
    moreover assume "access_ok c"
    ultimately show ?thesis using tick_ok by simp
  next
    case (Stop bk now_ms reason)
    moreover assume "access_ok c"
    ultimately show ?thesis using stop_result by (simp add: access_ok_def)
  next
    case (Handover bk now_ms)
    moreover assume "access_ok c"
    ultimately show ?thesis using handover_begin_result [of c bk now_ms] by (metis prod.collapse recovery_apply.simps(4))
  next
    case (Association bk now_ms associated)
    moreover assume "access_ok c"
    ultimately show ?thesis using handover_result_ok by simp
  next
    case (Configure bk f a t)
    moreover assume "access_ok c"
    ultimately show ?thesis using configure_result [of c bk f a t] by (metis prod.collapse recovery_apply.simps(6))
  next
    case (Submission now_ms)
    moreover assume "access_ok c"
    ultimately show ?thesis by (simp add: le_recovery_rate_limit_def Let_def)
  next
    case (Prepare sy)
    moreover assume "access_ok c"
    ultimately show ?thesis by (simp add: le_recovery_secret_prepare_def split: prod.split sum.split)
  next
    case (Reveal sy n)
    moreover assume "access_ok c"
    ultimately show ?thesis by (simp add: le_recovery_secret_json_def split: prod.split sum.split)
  qed
qed

section \<open>Properties of every life\<close>

text \<open>
  C3: no child is lost or mistaken.  Whatever is asked, whatever the processes and the files do: each signal and each
  wait goes to a process that was spawned here and was not yet seen to have ended or killed, or is the one wait after
  a kill; and whenever the access point is neither starting nor up, every process spawned was seen to have
  ended or was killed.\<close>

theorem recovery_children_owned:
  assumes "recovery_start c"
  shows "careful (rv_log (run recovery_apply c events)) \<and>
    live (rv_log (run recovery_apply c events)) = running (rv_children (run recovery_apply c events)) \<and>
    (serving (rv_mode (run recovery_apply c events)) \<or> live (rv_log (run recovery_apply c events)) = {#})"
  using recovery.inv_from_start [OF assms, of events] by (auto simp: access_ok_def books_def)

lemma recovery_children_owned_witness:
  "live (rv_log (run recovery_apply (le_recovery_init a_config 5 some_files) [Arm calm TRIGGER_PHYSICAL 7, Submission 9])) = {#} \<or>
   serving (rv_mode (run recovery_apply (le_recovery_init a_config 5 some_files) [Arm calm TRIGGER_PHYSICAL 7, Submission 9]))"
proof -
  have "recovery_start (le_recovery_init a_config 5 some_files)" by (auto simp: recovery_start_def)
  from recovery_children_owned [OF this, of "[Arm calm TRIGGER_PHYSICAL 7, Submission 9]"] show ?thesis by blast
qed



text \<open>
  The secret is not told to those who join.  The secret is given out only in a state in which recovery is on and
  no process of the access point runs.\<close>

theorem recovery_secret_guarded:
  assumes "recovery_start c" and "le_recovery_secret_json sy n (run recovery_apply c events) = (Some d, c')"
  shows "live (rv_log (run recovery_apply c events)) = {#} \<and> rf_enabled (rv_config (run recovery_apply c events)) \<noteq> 0 \<and>
    \<not> rv_led_active (run recovery_apply c events)"
proof -
  have "\<not> serving (rv_mode (run recovery_apply c events))" "rf_enabled (rv_config (run recovery_apply c events)) \<noteq> 0"
    using assms(2) by (auto simp: le_recovery_secret_json_def secret_reveal_allowed_def serving_def split: if_splits)
  then show ?thesis using recovery.inv_from_start [OF assms(1), of events] by (auto simp: access_ok_def books_def serving_def)
qed

section \<open>The fallback\<close>

fun ticks :: "le_recovery \<Rightarrow> (le_recovery_backend \<times> int \<times> bool) list \<Rightarrow> le_recovery" where
  "ticks c [] = c"
| "ticks c ((bk, now_ms, associated) # ts) = ticks (snd (le_recovery_tick bk now_ms associated c)) ts"

lemma ticks_append: "ticks c (ts @ us) = ticks (ticks c ts) us"
  by (induction c ts rule: ticks.induct) simp_all

text \<open>What the owner is promised: a stretch of ticks without an association that lasts the whole time.\<close>

fun overdue :: "int \<Rightarrow> int option \<Rightarrow> (int \<times> bool) list \<Rightarrow> bool" where
  "overdue timeout since [] = False"
| "overdue timeout since ((now_ms, associated) # ts) =
     (if associated then overdue timeout None ts
      else let s = (case since of None \<Rightarrow> now_ms | Some s \<Rightarrow> s) in s + timeout \<le> now_ms \<or> overdue timeout (Some s) ts)"

definition resting :: "le_recovery_mode \<Rightarrow> bool" where
  "resting m \<longleftrightarrow> m = CLIENT \<or> m = UNAVAILABLE \<or> m = STOPPED"

definition waits :: "int option \<Rightarrow> le_recovery \<Rightarrow> bool" where
  "waits since c \<longleftrightarrow> resting (rv_mode c) \<and> rv_trigger c \<noteq> TRIGGER_AUTO \<and> rv_auto_counting c = (since \<noteq> None) \<and>
     (\<forall>s. since = Some s \<longrightarrow> rv_auto_deadline_ms c = s + rf_auto_timeout_ms (rv_config c))"

lemma waits_life: "life c' = life c \<Longrightarrow> waits since c' = waits since c"
  by (simp add: waits_def life_def)

lemma tick_resting_mode:
  assumes "access_ok c" and "resting (rv_mode c)"
  obtains c1 where "life c1 = life (c\<lparr>rv_last_now_ms := now_ms\<rparr>)" "access_ok c1"
    "snd (le_recovery_tick bk now_ms associated c) = snd (tick_resting bk now_ms associated c1)"
    "tick_retry bk now_ms (c\<lparr>rv_last_now_ms := now_ms\<rparr>) = (rv_net_release_pending c \<and> rv_net_release_next_ms c \<le> now_ms, c1)"
proof -
  let ?c = "c\<lparr>rv_last_now_ms := now_ms\<rparr>"
  have ok: "access_ok ?c" using assms(1) by simp
  obtain r c1 where c1: "tick_retry bk now_ms ?c = (r, c1)" by fastforce
  note rr = tick_retry_result [OF ok c1]
  have "resting (rv_mode c1)" using rr assms(2) by (simp add: life_def)
  then have "tick_mode bk now_ms associated c1 = tick_resting bk now_ms associated c1"
    by (auto simp: tick_mode_def resting_def)
  then have "snd (le_recovery_tick bk now_ms associated c) = snd (tick_resting bk now_ms associated c1)"
    using c1 assms(2) by (auto simp: le_recovery_tick_def Let_def resting_def split: prod.split)
  moreover have "r = (rv_net_release_pending c \<and> rv_net_release_next_ms c \<le> now_ms)"
    using c1 by (auto simp: tick_retry_def split: if_splits)
  ultimately show ?thesis using that [of c1] rr c1 by simp
qed

lemma arm_trigger:
  "\<not> serving (rv_mode c) \<Longrightarrow> rf_enabled (rv_config c) \<noteq> 0 \<Longrightarrow>
   rv_trigger (snd (le_recovery_arm sy trigger now_ms c)) = trigger \<and>
   rv_armed_at_ms (snd (le_recovery_arm sy trigger now_ms c)) = now_ms \<and>
   rv_config (snd (le_recovery_arm sy trigger now_ms c)) = rv_config c"
  by (auto simp: le_recovery_arm_def Let_def serving_def set_error_def split: prod.split sum.split)

lemma tick_waits:
  assumes "access_ok c" and "waits since c" and "rf_enabled (rv_config c) \<noteq> 0" "rf_auto_enabled (rv_config c) \<noteq> 0"
    and "c' = snd (le_recovery_tick bk now_ms associated c)" and "s = (case since of None \<Rightarrow> now_ms | Some s \<Rightarrow> s)"
  shows "access_ok c' \<and> rv_config c' = rv_config c \<and>
    (associated \<longrightarrow> waits None c') \<and>
    (\<not> associated \<longrightarrow>
       (if s + rf_auto_timeout_ms (rv_config c) \<le> now_ms then rv_trigger c' = TRIGGER_AUTO else waits (Some s) c'))"
proof -
  have r: "resting (rv_mode c)" using assms(2) by (simp add: waits_def)
  obtain c1 where c1: "life c1 = life (c\<lparr>rv_last_now_ms := now_ms\<rparr>)" "c' = snd (tick_resting bk now_ms associated c1)"
    using tick_resting_mode [OF assms(1) r] assms(5) by metis
  let ?d = "count_down now_ms associated c1"
  have k: "rv_config c1 = rv_config c" "rv_mode c1 = rv_mode c" "rv_trigger c1 = rv_trigger c" "rv_auto_counting c1 = (since \<noteq> None)"
    "\<forall>s. since = Some s \<longrightarrow> rv_auto_deadline_ms c1 = s + rf_auto_timeout_ms (rv_config c)"
    using c1(1) assms(2) by (simp_all add: life_def waits_def)
  have d: "rv_config ?d = rv_config c" "rv_mode ?d = rv_mode c" "rv_trigger ?d = rv_trigger c"
    "rv_auto_counting ?d = (since \<noteq> None \<or> \<not> associated)"
    "\<not> associated \<Longrightarrow> rv_auto_deadline_ms ?d = s + rf_auto_timeout_ms (rv_config c)"
    using k assms(3,4,6) by (auto simp: count_down_def Let_def split: option.splits)
  have ok: "access_ok c'" using tick_ok [OF assms(1)] assms(5) by simp
  have ns: "\<not> serving (rv_mode c)" using r by (auto simp: resting_def serving_def)
  show ?thesis
  proof (cases associated)
    case True
    then have "c' = ?d\<lparr>rv_auto_counting := False\<rparr> \<or> c' = ?d \<and> since = None"
      using c1(2) d(4) by (auto simp: tick_resting_def Let_def)
    then show ?thesis using ok d True r assms(2) by (auto simp: waits_def)
  next
    case False
    show ?thesis
    proof (cases "s + rf_auto_timeout_ms (rv_config c) \<le> now_ms")
      case True
      let ?e = "?d\<lparr>rv_auto_counting := False\<rparr>"
      have "c' = snd (le_recovery_arm (bk_system bk) TRIGGER_AUTO now_ms ?e)"
        using c1(2) d(4) d(5) [OF False] False True by (simp add: tick_resting_def Let_def)
      then show ?thesis using ok True False arm_trigger [of ?e] d ns assms(3) by simp
    next
      case late: False
      then have "c' = ?d" using c1(2) d(4) d(5) [OF False] False by (simp add: tick_resting_def Let_def)
      then show ?thesis using ok late False d r assms(2) by (simp add: waits_def)
    qed
  qed
qed

lemma ticks_overdue:
  assumes "access_ok c" and "waits since c" and "rf_enabled (rv_config c) \<noteq> 0" "rf_auto_enabled (rv_config c) \<noteq> 0"
    and "\<not> overdue (rf_auto_timeout_ms (rv_config c)) since (map snd ts)"
  shows "(rv_trigger (ticks c (ts @ [t])) = TRIGGER_AUTO) =
    overdue (rf_auto_timeout_ms (rv_config c)) since (map snd (ts @ [t]))"
  using assms
proof (induction ts arbitrary: c since)
  case Nil
  obtain bk now_ms associated where t: "t = (bk, now_ms, associated)" by (rule prod_cases3)
  show ?case using tick_waits [OF Nil.prems(1-4) refl refl, of bk now_ms associated] t
    by (auto simp: waits_def Let_def split: if_splits)
next
  case (Cons u ts)
  obtain bk now_ms associated where u: "u = (bk, now_ms, associated)" by (rule prod_cases3)
  let ?c1 = "snd (le_recovery_tick bk now_ms associated c)" and ?s = "case since of None \<Rightarrow> now_ms | Some s \<Rightarrow> s"
  note tw = tick_waits [OF Cons.prems(1-4) refl refl, of bk now_ms associated]
  show ?case
  proof (cases associated)
    case True
    then show ?thesis using Cons.IH [of ?c1 None] tw Cons.prems(3-5) u by simp
  next
    case False
    then have "\<not> ?s + rf_auto_timeout_ms (rv_config c) \<le> now_ms" using Cons.prems(5) u by (auto simp: Let_def)
    then show ?thesis using Cons.IH [of ?c1 "Some ?s"] tw Cons.prems(3-5) u False by (simp add: Let_def)
  qed
qed


lemma configure_keeps_count:
  assumes "le_recovery_configure bk 1 0 t c = (None, c')"
  shows "rv_mode c' = rv_mode c \<and> rv_auto_counting c' = rv_auto_counting c \<and> rv_auto_deadline_ms c' = rv_auto_deadline_ms c \<and>
    rv_trigger c' = rv_trigger c \<and> rf_enabled (rv_config c') = 1 \<and> rf_auto_enabled (rv_config c') = 0"
  using assms by (auto simp: le_recovery_configure_def Let_def simp del: last.simps split: option.splits prod.splits if_splits)


section \<open>Releasing the interface\<close>

fun downs :: "process_call list \<Rightarrow> nat" where
  "downs [] = 0"
| "downs (Probed argv r # l) = (if is_down argv then 1 else 0) + downs l"
| "downs (_ # l) = downs l"

definition retries_left :: "le_recovery \<Rightarrow> nat" where
  "retries_left c = (if rv_net_release_pending c then LE_RECOVERY_NET_DOWN_MAX_ATTEMPTS - rv_net_release_attempts c else 0)"

lemma retries_left_now [simp]: "retries_left (c\<lparr>rv_last_now_ms := n\<rparr>) = retries_left c"
  by (simp add: retries_left_def)

lemma helper_downs: "run_net_helper bk path False c = (r, c') \<Longrightarrow> downs (rv_log c') \<le> downs (rv_log c) + 1"
  by (auto simp: run_net_helper_def ask_available_def ask_probe_def Let_def split: if_splits bool.splits)

lemma release_downs:
  assumes "books c" and "rv_net_release_pending c"
  shows "downs (rv_log (release_net_ownership bk now_ms c)) + retries_left (release_net_ownership bk now_ms c) \<le>
    downs (rv_log c) + retries_left c"
proof -
  have p: "rv_net_configured c" "rv_net_release_attempts c < LE_RECOVERY_NET_DOWN_MAX_ATTEMPTS"
    using assms by (simp_all add: books_def)
  obtain r c2 where h: "run_net_helper bk (rf_net_down_cmd (rv_config c)) False c = (r, c2)" by fastforce
  note hd = helper_downs [OF h]
  have n: "rv_net_release_attempts c2 = rv_net_release_attempts c"
    using run_net_helper_result [OF h assms(1)] by (simp add: network_def)
  show ?thesis
  proof (cases "r = 0")
    case True
    then show ?thesis using hd p assms(2) h by (simp add: release_net_ownership_def Let_def retries_left_def)
  next
    case False
    then show ?thesis using hd p assms(2) h n
      by (cases "LE_RECOVERY_NET_DOWN_MAX_ATTEMPTS \<le> rv_net_release_attempts c + 1")
        (auto simp: release_net_ownership_def Let_def retries_left_def)
  qed
qed

lemma retry_downs:
  assumes "access_ok c" and "tick_retry bk now_ms c = (r, c')"
  shows "downs (rv_log c') + retries_left c' \<le> downs (rv_log c) + retries_left c"
  using release_downs [of c bk now_ms] assms by (auto simp: tick_retry_def access_ok_def split: if_splits)

lemma resting_tick_off:
  assumes "access_ok c" and "resting (rv_mode c)" "\<not> rv_auto_counting c" "rf_auto_enabled (rv_config c) = 0"
    and "c' = snd (le_recovery_tick bk now_ms associated c)"
  shows "access_ok c' \<and> resting (rv_mode c') \<and> \<not> rv_auto_counting c' \<and> rv_config c' = rv_config c \<and>
    downs (rv_log c') + retries_left c' \<le> downs (rv_log c) + retries_left c"
proof -
  obtain c1 r where c1: "life c1 = life (c\<lparr>rv_last_now_ms := now_ms\<rparr>)" "c' = snd (tick_resting bk now_ms associated c1)"
    "tick_retry bk now_ms (c\<lparr>rv_last_now_ms := now_ms\<rparr>) = (r, c1)"
    using tick_resting_mode [OF assms(1,2), of now_ms bk associated] assms(5) by metis
  then have "c' = c1" using assms(3,4) by (simp add: tick_resting_def count_down_def life_def)
  moreover have "downs (rv_log c1) + retries_left c1 \<le> downs (rv_log c) + retries_left c"
    using retry_downs [OF _ c1(3)] assms(1) by simp
  ultimately show ?thesis using c1 assms tick_ok [OF assms(1), of bk now_ms associated] by (simp add: life_def)
qed


section \<open>The start is decided\<close>

lemma children_run:
  assumes "\<And>l p. 0 < bk_wait bk l p"
  shows "fst (children_alive_from bk i ps c) = None"
proof (induction ps arbitrary: i c)
  case (Cons p ps)
  have "bk_wait bk (rv_log c) (rp_pid p) > 0" using assms .
  then show ?case using Cons.IH by (simp add: ask_wait_def Let_def)
qed simp

lemma children_dead:
  assumes "p \<in> set ps" "rp_active p" "\<And>l. bk_wait bk l (rp_pid p) \<le> 0"
  shows "fst (children_alive_from bk i ps c) \<noteq> None"
  using assms(1)
proof (induction ps arbitrary: i c)
  case (Cons q ps)
  show ?case
  proof (cases "q = p")
    case True
    have "bk_wait bk (rv_log c) (rp_pid p) \<le> 0" using assms(3) .
    then show ?thesis using True assms(2) by (auto simp: ask_wait_def Let_def)
  next
    case False
    then show ?thesis using Cons by (auto simp: ask_wait_def Let_def)
  qed
qed simp

lemma start_decided:
  assumes "recovery_start c0" and "c = run recovery_apply c0 events" and "rv_mode c = STARTING" and "rv_start_deadline_ms c \<le> now_ms"
    and "c' = snd (le_recovery_tick bk now_ms False c)"
  shows "rv_mode c' \<in> {ACTIVE, UNAVAILABLE} \<and>
    ((\<forall>l p. 0 < bk_wait bk l p) \<and> (\<forall>l p. bk_available bk l p) \<and> (\<forall>l argv. 0 \<le> bk_probe bk l argv) \<longrightarrow>
       rv_mode c' = ACTIVE) \<and>
    ((\<exists>p\<in>set (rv_children c). rp_active p \<and> (\<forall>l. bk_wait bk l (rp_pid p) \<le> 0)) \<longrightarrow>
       rv_mode c' = UNAVAILABLE \<and> live (rv_log c') = {#})"
proof -
  let ?c = "c\<lparr>rv_last_now_ms := now_ms\<rparr>"
  have ok: "access_ok c" using recovery.inv_from_start [OF assms(1)] assms(2) by simp
  then have ok': "access_ok c'" using tick_ok assms(5) by simp
  have p: "\<not> rv_net_release_pending c" using ok assms(3) by (simp add: access_ok_def serving_def)
  have "le_recovery_tick bk now_ms False c = tick_starting bk now_ms ?c"
    using assms(3) p by (simp add: le_recovery_tick_def Let_def tick_retry_def tick_mode_def split: prod.split)
  then have c': "c' = snd (tick_starting bk now_ms ?c)" using assms(5) by simp
  obtain v c1 where v: "verify_ready bk ?c = (v, c1)" by fastforce
  have b: "books ?c" using ok by (simp add: access_ok_def)
  note vr = verify_result [OF v b]
  have mode: "rv_mode c' = (if v then ACTIVE else UNAVAILABLE)"
    using c' v assms(4) vr by (cases v) (simp_all add: tick_starting_def teardown_down)
  have alive: "v" if "\<forall>l p. 0 < bk_wait bk l p" "\<forall>l p. bk_available bk l p" "\<forall>l argv. 0 \<le> bk_probe bk l argv"
  proof -
    obtain r d where a: "children_alive bk ?c = (r, d)" by fastforce
    have "r = None" using children_run [of bk 0 "rv_children ?c" ?c] that(1) a by (simp add: children_alive_def)
    then show ?thesis using v a that(2,3)
      by (auto simp: verify_ready_def probe_command_def ask_available_def ask_probe_def Let_def not_less[symmetric] split: if_splits)
  qed
  have dead: "\<not> v" if "p \<in> set (rv_children c)" "rp_active p" "\<forall>l. bk_wait bk l (rp_pid p) \<le> 0" for p
  proof -
    obtain r d where a: "children_alive bk ?c = (r, d)" by fastforce
    have "r \<noteq> None" using children_dead [of p "rv_children ?c" bk 0 ?c] that a by (simp add: children_alive_def)
    then show ?thesis using v a by (auto simp: verify_ready_def)
  qed
  have "\<not> v \<Longrightarrow> live (rv_log c') = {#}" using ok' mode by (simp add: access_ok_def books_def serving_def)
  then show ?thesis using mode alive dead by auto
qed


text \<open>
  Once up it is not watched.  While the access point is up and the client is not associated, a tick changes nothing but the
  time of the last tick, whatever has become of its processes.\<close>

theorem recovery_up_unwatched:
  assumes "recovery_start c0" and "c = run recovery_apply c0 events" and "rv_mode c = ACTIVE"
  shows "le_recovery_tick bk now_ms False c = (False, c\<lparr>rv_last_now_ms := now_ms\<rparr>)"
proof -
  have "access_ok c" using recovery.inv_from_start [OF assms(1)] assms(2) by simp
  then have "\<not> rv_net_release_pending c" using assms(3) by (simp add: access_ok_def serving_def)
  then show ?thesis using assms(3) by (simp add: le_recovery_tick_def Let_def tick_retry_def tick_mode_def)
qed

section \<open>Submissions\<close>

text \<open>How many of the submissions at these times are let through.\<close>

fun let_through :: "le_recovery \<Rightarrow> int list \<Rightarrow> nat" where
  "let_through c [] = 0"
| "let_through c (t # ts) =
     (case le_recovery_rate_limit t c of (ok, c1) \<Rightarrow> (if ok then 1 else 0) + let_through c1 ts)"

lemma open_window:
  "rv_rate_window_start_ms c \<noteq> 0 \<Longrightarrow> \<forall>t\<in>set ts. t - rv_rate_window_start_ms c \<le> rf_rate_window_ms (rv_config c) \<Longrightarrow>
   let_through c ts \<le> nat (rf_rate_max (rv_config c) - rv_rate_count c)"
proof (induction ts arbitrary: c)
  case (Cons t ts)
  show ?case
  proof (cases "rf_rate_max (rv_config c) \<le> rv_rate_count c")
    case True
    then have "let_through c ts = 0" using Cons.IH [of c] Cons.prems by simp
    then show ?thesis using True Cons.prems by (simp add: le_recovery_rate_limit_def Let_def)
  next
    case False
    let ?c1 = "c\<lparr>rv_rate_count := rv_rate_count c + 1\<rparr>"
    have "let_through ?c1 ts \<le> nat (rf_rate_max (rv_config c) - (rv_rate_count c + 1))"
      using Cons.IH [of ?c1] Cons.prems by simp
    then show ?thesis using False Cons.prems by (simp add: le_recovery_rate_limit_def Let_def)
  qed
qed simp

lemma submissions_bounded:
  assumes "0 < first" and "\<forall>t\<in>set ts. first \<le> t \<and> t \<le> first + rf_rate_window_ms (rv_config c)" and "sorted ts"
  shows "let_through c ts \<le> nat (rf_rate_max (rv_config c) - rv_rate_count c) + nat (rf_rate_max (rv_config c))"
  using assms
proof (induction ts arbitrary: c)
  case (Cons t ts)
  let ?max = "rf_rate_max (rv_config c)"
  show ?case
  proof (cases "rv_rate_window_start_ms c = 0 \<or> rf_rate_window_ms (rv_config c) < t - rv_rate_window_start_ms c")
    case True
    let ?c1 = "c\<lparr>rv_rate_window_start_ms := t, rv_rate_count := 0\<rparr>"
    have same: "let_through c (t # ts) = let_through ?c1 (t # ts)"
      using True by (simp add: le_recovery_rate_limit_def Let_def)
    have "let_through ?c1 (t # ts) \<le> nat (?max - 0)"
    proof -
      have "\<forall>u\<in>set ts. u - t \<le> rf_rate_window_ms (rv_config c)" using Cons.prems by auto
      moreover have "0 \<le> rf_rate_window_ms (rv_config c)" using Cons.prems(2) by auto
      ultimately show ?thesis using open_window [of ?c1 "t # ts"] Cons.prems by simp
    qed
    then show ?thesis using same by simp
  next
    case False
    show ?thesis
    proof (cases "?max \<le> rv_rate_count c")
      case True
      then have "let_through c ts \<le> nat ?max" using Cons.IH [of c] Cons.prems by simp
      then show ?thesis using False True by (simp add: le_recovery_rate_limit_def Let_def)
    next
      case room: False
      let ?c1 = "c\<lparr>rv_rate_count := rv_rate_count c + 1\<rparr>"
      have "let_through ?c1 ts \<le> nat (?max - (rv_rate_count c + 1)) + nat ?max"
        using Cons.IH [of ?c1] Cons.prems by simp
      then show ?thesis using False room by (simp add: le_recovery_rate_limit_def Let_def)
    qed
  qed
qed simp

text \<open>
  Submissions are limited.  Of the submissions within any span of the window's length no more than twice the limit are
  let through, whenever the window was last opened.\<close>

theorem recovery_submissions_bounded:
  assumes "0 < first" and "\<forall>t\<in>set ts. first \<le> t \<and> t \<le> first + rf_rate_window_ms (rv_config c)" and "sorted ts"
    and "0 \<le> rv_rate_count c"
  shows "let_through c ts \<le> 2 * nat (rf_rate_max (rv_config c))"
proof -
  have "nat (rf_rate_max (rv_config c) - rv_rate_count c) \<le> nat (rf_rate_max (rv_config c))" using assms(4) by simp
  then show ?thesis using submissions_bounded [OF assms(1-3)] by linarith
qed

section \<open>Witnesses\<close>

definition a_backend :: le_recovery_backend where
  "a_backend = \<lparr>bk_available = (\<lambda>_ _. True), bk_probe = (\<lambda>_ _. 0), bk_spawn = (\<lambda>_ _. (1, [])), bk_identity = (\<lambda>_ _. 1),
     bk_wait = (\<lambda>_ _. 1), bk_system = calm\<rparr>"

definition b_config :: recovery_config where
  "b_config = (le_recovery_config_default ''wlan0'')\<lparr>rf_config_path := ''/r/c'', rf_psk_path := ''/r/p'',
     rf_hostapd_conf := ''/r/h'', rf_dhcp_conf := ''/r/d'', rf_ap_probe_cmd := ''/probe'', rf_auto_enabled := 1\<rparr>"

definition b_start :: le_recovery where
  "b_start = le_recovery_init b_config 0 some_files"

lemma b_config_bound: "le_recovery_config_bound b_config = b_config"
  by (simp add: le_recovery_config_bound_def b_config_def le_recovery_config_default_def LE_RECOVERY_TIMEOUT_MIN_MS_def
      LE_RECOVERY_TIMEOUT_MAX_MS_def LE_RECOVERY_TIMEOUT_DEFAULT_MS_def LE_RECOVERY_START_DEFAULT_MS_def
      LE_RECOVERY_STOP_DEFAULT_MS_def LE_RECOVERY_RATE_WINDOW_DEFAULT_MS_def LE_RECOVERY_RATE_MAX_DEFAULT_def)

lemma b_config_fields:
  "rf_config_path b_config = ''/r/c''" "rf_psk_path b_config = ''/r/p''" "rf_hostapd_conf b_config = ''/r/h''"
  "rf_dhcp_conf b_config = ''/r/d''" "rf_ap_probe_cmd b_config = ''/probe''" "rf_enabled b_config = 1" "rf_auto_enabled b_config = 1"
  "rf_auto_timeout_ms b_config = 120000" "rf_rate_window_ms b_config = 60000" "rf_rate_max b_config = 5"
  "rf_serial_path b_config = ''/proc/idme/serial''" "rf_ready_probe_cmd b_config = []" "rf_dns_bin b_config = []"
  "rf_dhcp_bin b_config = ''/usr/local/sbin/dnsmasq''" "rf_net_up_cmd b_config = ''/usr/local/sbin/libreecho-recovery-net-up''"
  "rf_interface b_config = ''wlan0''" "rf_run_dir b_config = ''/run/libreecho''" "rf_ap_address b_config = ''192.168.4.1''"
  by (simp_all add: b_config_def le_recovery_config_default_def LE_RECOVERY_TIMEOUT_DEFAULT_MS_def
      LE_RECOVERY_RATE_WINDOW_DEFAULT_MS_def LE_RECOVERY_RATE_MAX_DEFAULT_def copy_string_def)

lemma b_start_fields:
  "rv_config b_start = b_config" "rv_mode b_start = CLIENT" "rv_trigger b_start = TRIGGER_NONE" "\<not> rv_auto_counting b_start"
  "rv_files b_start = some_files" "rv_rate_count b_start = 0" "\<not> rv_net_release_pending b_start" "rv_log b_start = []"
  "rv_rate_window_start_ms b_start = 0"
  by (simp_all add: b_start_def le_recovery_init_def b_config_bound)

lemma b_started: "recovery_start b_start"
  by (auto simp: recovery_start_def b_start_def)


lemma b_tick:
  "\<exists>c. run recovery_apply b_start [Tick a_backend 5 False] = c \<and> rv_mode c = CLIENT \<and> rv_auto_counting c \<and>
     rv_auto_deadline_ms c = 120005 \<and> rv_config c = b_config \<and> rv_files c = some_files"
  by (simp add: le_recovery_tick_def Let_def b_start_fields tick_retry_def tick_mode_def tick_resting_def count_down_def b_config_fields)


lemma recovery_secret_guarded_witness:
  "\<exists>n d c'. le_recovery_secret_json calm n (run recovery_apply b_start []) = (Some d, c') \<and>
     rf_enabled (rv_config (run recovery_apply b_start [])) \<noteq> 0"
proof -
  obtain psk f where p: "le_recovery_psk_ensure calm b_config some_files = (Inr psk, f)"
    using calm_secret b_config_fields(2) by auto
  let ?d = "''{\"ssid\":'' @ recovery_string (format_ssid calm b_config f) @ '',\"psk\":'' @ recovery_string psk @ ''}''"
  have s: "le_recovery_secret_json calm (length ?d + 1) (run recovery_apply b_start []) = (Some ?d, b_start\<lparr>rv_files := f\<rparr>)"
    using p by (simp add: le_recovery_secret_json_def b_start_fields b_config_fields secret_reveal_allowed_def append_text_def)
  from recovery_secret_guarded [OF b_started s] s show ?thesis by blast
qed


lemma recovery_submissions_bounded_witness:
  "let_through b_start (replicate 20 7) \<le> 10"
  using recovery_submissions_bounded [of 7 "replicate 20 7" b_start] by (simp add: b_start_fields b_config_fields)

text \<open>A start that succeeds: the files are written, the helper runs and both children are spawned.\<close>

lemma calm_write:
  assumes "parent_of path = Some ''/r''" "is_dir ''/r'' f" "f (temporary_of calm path) = None" "\<not> is_dir path f"
    "parent_of (temporary_of calm path) = Some ''/r''" "path \<noteq> []" "length (temporary_of calm path) < PATH_MAX" "path \<noteq> ''/r''"
    "temporary_of calm path \<noteq> ''/r''"
  shows "\<exists>ds. write_locked_file calm path data False f = (None, ds) \<and>
    last (f # ds) = f(path \<mapsto> new_node calm data)"
proof -
  let ?t = "temporary_of calm path"
  have len: "length path < PATH_MAX" using assms(7) by (simp add: temporary_of_def)
  have e: "ensure_parent_dir calm path f = (True, f)"
    using len assms(1,2) by (auto simp: ensure_parent_dir_def make_dir_def is_dir_def split: option.splits)
  have l: "locked_temporary calm path data f = (None, [f, f(?t \<mapsto> new_node calm []), f(?t \<mapsto> new_node calm data)])"
    using assms by (simp add: locked_temporary_def may_create_def calm_system parent_ready_def unlink_node_def Let_def)
  let ?g = "f(?t \<mapsto> new_node calm data)"
  let ?h = "(?g(?t := None))(path \<mapsto> new_node calm data)"
  have "is_dir ''/r'' ?h" "\<not> is_dir path ?g" using assms by (auto simp: is_dir_def)
  then have c: "locked_commit calm path False ?g = (None, [?h])"
    using assms(1) len by (simp add: locked_commit_def rename_node_def calm_system fsync_parent_dir_def)
  have "?h = f(path \<mapsto> new_node calm data)" using assms(3) by (auto simp: fun_eq_iff)
  moreover have "write_locked_file calm path data False f = (None, f # [f, f(?t \<mapsto> new_node calm []), ?g] @ [] @ [?h])"
    using e l c assms(6,7) by (simp add: write_locked_file_def)
  ultimately show ?thesis by simp
qed

lemma b_files:
  "parent_of ''/r/h'' = Some ''/r''" "parent_of ''/r/d'' = Some ''/r''" "parent_of ''/r/h.tmp.1'' = Some ''/r''"
  "parent_of ''/r/d.tmp.1'' = Some ''/r''" "temporary_of calm ''/r/h'' = ''/r/h.tmp.1''" "temporary_of calm ''/r/d'' = ''/r/d.tmp.1''"
  by (simp_all add: parent_of_def temporary_of_def calm_system a_names)

lemma b_write:
  assumes "path \<in> {''/r/h'', ''/r/d''}" "is_dir ''/r'' f" "f ''/r/h.tmp.1'' = None" "f ''/r/d.tmp.1'' = None" "\<not> is_dir path f"
  shows "\<exists>ds. write_locked_file calm path data False f = (None, ds) \<and> last (f # ds) = f(path \<mapsto> new_node calm data)"
  using assms by (intro calm_write) (auto simp: b_files PATH_MAX_def)

definition b_secret :: string where
  "b_secret = replicate 32 CHR ''H''"

definition b_later :: files where
  "b_later = some_files(''/r/p'' \<mapsto> new_node calm b_secret)"

lemma b_psk: "le_recovery_psk_ensure calm b_config some_files = (Inr b_secret, b_later)"
  "le_recovery_psk_ensure calm b_config b_later = (Inr b_secret, b_later)"
proof -
  show "le_recovery_psk_ensure calm b_config some_files = (Inr b_secret, b_later)"
    using calm_secret b_config_fields(2) by (simp add: b_secret_def b_later_def)
  have "as_text b_secret = b_secret" by (simp add: as_text_def b_secret_def)
  then show "le_recovery_psk_ensure calm b_config b_later = (Inr b_secret, b_later)"
    by (simp add: le_recovery_psk_ensure_def b_config_fields b_later_def open_node_def calm_system new_node_def regular_def
        read_node_def LE_RECOVERY_PSK_MAX_def) (simp add: b_secret_def)
qed

lemma b_configs:
  assumes "rv_config c = b_config" "rv_files c = b_later" "rv_ssid c = ''LibreEcho-Setup-0000''"
  shows "\<exists>c'. write_recovery_configs a_backend c = (None, c') \<and> rv_config c' = b_config"
proof -
  let ?psk = b_secret and ?f = b_later
  note p = b_psk(2)
  let ?c1 = "build_ssid a_backend (c\<lparr>rv_files := ?f\<rparr>)"
  have c1: "rv_config ?c1 = b_config" "rv_files ?c1 = ?f" using assms(1) by (simp_all add: build_ssid_def)
  let ?h = "hostapd_content b_config (rv_ssid ?c1) ?psk" and ?d = "dnsmasq_content b_config"
  have dirs: "is_dir ''/r'' ?f" "?f ''/r/h.tmp.1'' = None" "?f ''/r/d.tmp.1'' = None" "\<not> is_dir ''/r/h'' ?f" "\<not> is_dir ''/r/d'' ?f"
    using a_directory by (simp_all add: is_dir_def some_files_def b_later_def)
  obtain ds where ds: "write_locked_file calm ''/r/h'' ?h False ?f = (None, ds)" "last (?f # ds) = ?f(''/r/h'' \<mapsto> new_node calm ?h)"
    using b_write [of "''/r/h''" ?f ?h] dirs by blast
  let ?g = "?f(''/r/h'' \<mapsto> new_node calm ?h)"
  have bk: "bk_system a_backend = calm" by (simp add: a_backend_def)
  obtain es where es: "write_locked_file calm ''/r/d'' ?d False ?g = (None, es)" "last (?g # es) = ?g(''/r/d'' \<mapsto> new_node calm ?d)"
    using b_write [of "''/r/d''" ?g ?d] dirs by (auto simp: is_dir_def)
  have "rv_ssid ?c1 = ''LibreEcho-Setup-0000''" using assms by (simp add: build_ssid_def)
  then have "length ?h < 1536" by (simp add: hostapd_content_def text_lines_def b_config_fields b_secret_def)
  moreover have "length ?d < 1536"
    by (simp add: dnsmasq_content_def text_lines_def b_config_fields Let_def network_base_def copy_string_def)
  ultimately show ?thesis using assms p ds es c1
    by (simp add: write_recovery_configs_def Let_def bk write_config_file_def b_config_fields del: last.simps)
qed

lemma b_calls:
  "ask_available a_backend p c = (True, logged (Looked p True) c)" "ask_probe a_backend argv c = (0, logged (Probed argv 0) c)"
  by (simp_all add: ask_available_def ask_probe_def Let_def a_backend_def)

lemma b_capable:
  "rv_config c = b_config \<Longrightarrow> \<exists>c'. le_recovery_probe_capabilities a_backend c = (True, ''available'', c') \<and>
     rv_files c' = rv_files c \<and> rv_config c' = b_config \<and> rv_ssid c' = rv_ssid c"
  by (simp add: le_recovery_probe_capabilities_def Let_def b_calls b_config_fields probe_command_def) (simp add: logged_def)

lemma b_spawn:
  "length (rv_children c) < 4 \<Longrightarrow>
   \<exists>p c'. spawn_child a_backend name argv c = (True, c') \<and> rv_children c' = rv_children c @ [p] \<and> rv_config c' = rv_config c"
  by (simp add: spawn_child_def a_backend_def Let_def LE_RECOVERY_CHILD_MAX_def logged_def)

lemma b_started_services:
  assumes "down c" "rv_config c = b_config" "rv_files c = b_later" "rv_ssid c = ''LibreEcho-Setup-0000''"
  shows "rv_mode (start_services a_backend now_ms c) = STARTING \<and>
    rv_start_deadline_ms (start_services a_backend now_ms c) = now_ms + rf_start_timeout_ms b_config"
proof -
  obtain c1 where c1: "le_recovery_probe_capabilities a_backend c = (True, ''available'', c1)" "rv_config c1 = b_config"
    "rv_files c1 = b_later" "rv_ssid c1 = ''LibreEcho-Setup-0000''"
    using b_capable assms by metis
  have d1: "down c1" using looked_down [OF looked_capabilities [OF c1(1)] assms(1)] by simp
  obtain c2 where c2: "write_recovery_configs a_backend c1 = (None, c2)" "rv_config c2 = b_config" using b_configs c1 by blast
  have b2: "books c2" using configs_result [OF c2(1)] d1 by (simp add: wrote_only_def down_def)
  let ?c3 = "teardown_children a_backend now_ms c2"
  have c3: "rv_config ?c3 = b_config" "rv_children ?c3 = []" using teardown_down [OF b2] c2 by simp_all
  obtain c4 where c4: "run_net_helper a_backend (rf_net_up_cmd b_config) True ?c3 = (0, c4)" "rv_config c4 = b_config" "rv_children c4 = []"
    using c3 by (simp add: run_net_helper_def b_calls b_config_fields)
  let ?c5 = "c4\<lparr>rv_net_configured := True, rv_net_release_pending := False, rv_net_release_attempts := 0,
      rv_net_release_next_ms := 0, rv_net_error := []\<rparr>"
  obtain p6 c6 where c6: "spawn_hostapd a_backend ?c5 = (True, c6)" "rv_children c6 = [p6]" "rv_config c6 = b_config"
    using b_spawn [of ?c5 "''hostapd''" "rf_hostapd_bin b_config # [''/r/h'']"] c4
    by (auto simp: spawn_hostapd_def Let_def b_config_fields)
  obtain p7 c7 where c7: "spawn_services a_backend c6 = (True, c7)" "rv_config c7 = b_config"
    using b_spawn [of c6 "''dhcp''" "''/usr/local/sbin/dnsmasq'' # [''--conf-file=/r/d'']"] c6
    by (auto simp: spawn_services_def Let_def b_config_fields conf_file_def PATH_MAX_def)
  show ?thesis using c1(1) c2 c3 c4 c6(1) c7 b_config_fields(15)
    by (simp add: start_services_def Let_def)
qed

definition b_events :: "recovery_event list" where
  "b_events = [Arm calm TRIGGER_PHYSICAL 3, Tick a_backend 4 False]"

lemma b_starting:
  "rv_mode (run recovery_apply b_start b_events) = STARTING"
  "rv_start_deadline_ms (run recovery_apply b_start b_events) = 8004"
proof -
  define c where "c = recovery_apply b_start (Arm calm TRIGGER_PHYSICAL 3)"
  have c: "rv_mode c = ARMED" "rv_config c = b_config" "rv_files c = b_later" "rv_ssid c = []" "\<not> rv_net_release_pending c"
    using b_psk(1) by (simp_all add: c_def le_recovery_arm_def Let_def b_start_fields b_config_fields)
      (simp add: b_start_def le_recovery_init_def)
  have ok: "access_ok c" unfolding c_def
    using recovery.inv_from_start [OF b_started, of "[Arm calm TRIGGER_PHYSICAL 3]"] by simp
  let ?d = "build_ssid a_backend (c\<lparr>rv_last_now_ms := 4\<rparr>)"
  have "down (c\<lparr>rv_last_now_ms := 4\<rparr>)" using access_down [of "c\<lparr>rv_last_now_ms := 4\<rparr>"] ok c by (simp add: serving_def)
  then have d: "down ?d" "rv_config ?d = b_config" "rv_files ?d = b_later" using c by (simp, simp_all add: build_ssid_def)
  have s: "rv_ssid ?d = ''LibreEcho-Setup-0000''"
    using c by (simp add: build_ssid_def format_ssid_def Let_def open_node_def b_config_fields b_later_def some_files_def a_backend_def calm_system)
  have "snd (le_recovery_tick a_backend 4 False c) = start_services a_backend 4 ?d"
    using c by (simp add: le_recovery_tick_def Let_def tick_retry_def tick_mode_def)
  then have run: "run recovery_apply b_start b_events = start_services a_backend 4 ?d" by (simp add: b_events_def c_def)
  have "rf_start_timeout_ms b_config = 8000" by (simp add: b_config_def le_recovery_config_default_def LE_RECOVERY_START_DEFAULT_MS_def)
  then show "rv_mode (run recovery_apply b_start b_events) = STARTING" "rv_start_deadline_ms (run recovery_apply b_start b_events) = 8004"
    using b_started_services [OF d s, of 4] run by simp_all
qed

lemma a_backend_answers:
  "0 < bk_wait a_backend l p" "bk_available a_backend l q" "0 \<le> bk_probe a_backend l argv"
  by (simp_all add: a_backend_def)


lemma recovery_up_unwatched_witness:
  "fst (le_recovery_tick (a_backend\<lparr>bk_wait := (\<lambda>_ _. 0)\<rparr>) 9000 False
     (run recovery_apply b_start (b_events @ [Tick a_backend 8004 False]))) = False"
proof -
  have "rv_mode (run recovery_apply b_start (b_events @ [Tick a_backend 8004 False])) = ACTIVE"
    using start_decided [OF b_started refl b_starting(1) _ refl, of 8004 a_backend] b_starting(2) a_backend_answers
    by (simp add: run_append)
  from recovery_up_unwatched [OF b_started refl this] show ?thesis by simp
qed

end
